(* ===== verification/Redis_Prelude.thy ===== *)
theory Redis_Prelude
  imports Main "HOL-Library.Word" "HOL-Library.Monad_Syntax" "HOL-Library.Multiset"
begin

text \<open>
  Shared vocabulary of the development: the C types the sources use, checked array
  accesses (a read or a write outside an allocation is the value \<open>None\<close>, so that a
  theorem that an operation returns \<open>Some\<close> is a memory-safety statement), the allocator
  as the sources see it, and generic lemmas on lists, maps and bit masks.
\<close>

unbundle bit_operations_syntax

section \<open>C types\<close>

type_synonym byte = "8 word"
type_synonym u32 = "32 word"
type_synonym u64 = "64 word"

abbreviation CH_NUL :: byte where "CH_NUL \<equiv> 0"
abbreviation CH_TAB :: byte where "CH_TAB \<equiv> 9"
abbreviation CH_LF :: byte where "CH_LF \<equiv> 10"
abbreviation CH_CR :: byte where "CH_CR \<equiv> 13"
abbreviation CH_SPACE :: byte where "CH_SPACE \<equiv> 32"
abbreviation CH_DQUOTE :: byte where "CH_DQUOTE \<equiv> 34"
abbreviation CH_DOLLAR :: byte where "CH_DOLLAR \<equiv> 36"
abbreviation CH_PERCENT :: byte where "CH_PERCENT \<equiv> 37"
abbreviation CH_SQUOTE :: byte where "CH_SQUOTE \<equiv> 39"
abbreviation CH_STAR :: byte where "CH_STAR \<equiv> 42"
abbreviation CH_PLUS :: byte where "CH_PLUS \<equiv> 43"
abbreviation CH_MINUS :: byte where "CH_MINUS \<equiv> 45"
abbreviation CH_0 :: byte where "CH_0 \<equiv> 48"
abbreviation CH_1 :: byte where "CH_1 \<equiv> 49"
abbreviation CH_9 :: byte where "CH_9 \<equiv> 57"
abbreviation CH_QUESTION :: byte where "CH_QUESTION \<equiv> 63"
abbreviation CH_LBRACKET :: byte where "CH_LBRACKET \<equiv> 91"
abbreviation CH_BACKSLASH :: byte where "CH_BACKSLASH \<equiv> 92"
abbreviation CH_RBRACKET :: byte where "CH_RBRACKET \<equiv> 93"
abbreviation CH_CARET :: byte where "CH_CARET \<equiv> 94"

text \<open>Text constants of the sources, as bytes.\<close>

definition bytes_of :: "string \<Rightarrow> byte list" where
  "bytes_of cs = map of_char cs"

text \<open>\<open>tolower\<close>, \<open>toupper\<close>, \<open>isdigit\<close>, \<open>isspace\<close> and \<open>isprint\<close> in the C locale.\<close>

definition tolower :: "byte \<Rightarrow> byte" where
  "tolower c = (if 65 \<le> c \<and> c \<le> 90 then c + 32 else c)"

definition toupper :: "byte \<Rightarrow> byte" where
  "toupper c = (if 97 \<le> c \<and> c \<le> 122 then c - 32 else c)"

definition isdigit :: "byte \<Rightarrow> bool" where
  "isdigit c \<longleftrightarrow> CH_0 \<le> c \<and> c \<le> CH_9"

definition isspace :: "byte \<Rightarrow> bool" where
  "isspace c \<longleftrightarrow> c = 32 \<or> (9 \<le> c \<and> c \<le> 13)"

definition isprint :: "byte \<Rightarrow> bool" where
  "isprint c \<longleftrightarrow> 32 \<le> c \<and> c \<le> 126"

abbreviation LONG_MAX :: nat where
  "LONG_MAX \<equiv> 2 ^ 63 - 1"

text \<open>The conversion of an integer to a signed C type of \<open>w + 1\<close> bits.\<close>

definition cast_int :: "int \<Rightarrow> int" where
  "cast_int x = signed_take_bit 31 x"

lemma cast_int_id: "- (2 ^ 31) \<le> x \<Longrightarrow> x < 2 ^ 31 \<Longrightarrow> cast_int x = x"
  unfolding cast_int_def by (rule signed_take_bit_int_eq_self) simp_all

section \<open>Checked array access\<close>

definition get_at :: "'a list \<Rightarrow> nat \<Rightarrow> 'a option" where
  "get_at xs i = (if i < length xs then Some (xs ! i) else None)"

definition set_at :: "'a list \<Rightarrow> nat \<Rightarrow> 'a \<Rightarrow> 'a list option" where
  "set_at xs i x = (if i < length xs then Some (xs[i := x]) else None)"

lemma get_at_Some [simp]: "i < length xs \<Longrightarrow> get_at xs i = Some (xs ! i)"
  by (simp add: get_at_def)

lemma get_at_None [simp]: "length xs \<le> i \<Longrightarrow> get_at xs i = None"
  by (simp add: get_at_def)

lemma set_at_Some [simp]: "i < length xs \<Longrightarrow> set_at xs i x = Some (xs[i := x])"
  by (simp add: set_at_def)

lemma set_at_None [simp]: "length xs \<le> i \<Longrightarrow> set_at xs i x = None"
  by (simp add: set_at_def)

text \<open>Decrementing an unsigned counter that is already zero is reported as a failure.\<close>

definition checked_dec :: "nat \<Rightarrow> nat option" where
  "checked_dec n = (if n = 0 then None else Some (n - 1))"

lemma checked_dec_Suc [simp]: "checked_dec (Suc n) = Some n"
  by (simp add: checked_dec_def)

lemma checked_dec_pos: "0 < n \<Longrightarrow> checked_dec n = Some (n - 1)"
  by (simp add: checked_dec_def)

section \<open>Lists of lists\<close>

lemma mset_concat_update:
  assumes "i < length xss"
  shows "mset (concat (xss[i := xs])) + mset (xss ! i) = mset (concat xss) + mset xs"
  using assms
proof (induction xss arbitrary: i)
  case Nil
  then show ?case by simp
next
  case (Cons ys yss)
  show ?case
  proof (cases i)
    case 0
    then show ?thesis by simp
  next
    case (Suc j)
    with Cons.prems have "j < length yss" by simp
    from Cons.IH [OF this] show ?thesis
      using Suc by (simp add: ac_simps)
  qed
qed

lemma mset_concat_push:
  assumes "i < length xss"
  shows "mset (concat (xss[i := x # xss ! i])) = add_mset x (mset (concat xss))"
proof -
  have "mset (concat (xss[i := x # xss ! i])) + mset (xss ! i)
        = add_mset x (mset (concat xss)) + mset (xss ! i)"
    using mset_concat_update [OF assms, of "x # xss ! i"] by simp
  then show ?thesis by (rule add_right_imp_eq)
qed

lemma mset_concat_nth:
  "i < length xss \<Longrightarrow> mset (xss ! i) \<subseteq># mset (concat xss)"
proof (induction xss arbitrary: i)
  case (Cons ys yss)
  then show ?case
    by (cases i) (auto intro: subset_mset.order_trans [OF _ mset_subset_eq_add_right])
qed simp

lemma mset_concat_clear:
  assumes "i < length xss"
  shows "mset (concat (xss[i := []])) = mset (concat xss) - mset (xss ! i)"
  using mset_concat_update [OF assms, of "[]"] by (metis add_diff_cancel_right' mset.simps(1) add_0_right)

lemma nth_concat_mem: "i < length xss \<Longrightarrow> x \<in> set (xss ! i) \<Longrightarrow> x \<in> set (concat xss)"
  by (auto dest: nth_mem)

section \<open>Bit masks\<close>

lemma and_mask_nat: "(n::nat) AND (2 ^ k - 1) = n mod 2 ^ k"
  by (simp add: take_bit_eq_mod [symmetric] take_bit_eq_mask mask_eq_exp_minus_1)

lemma and_mask_less: "(n::nat) AND (2 ^ k - 1) < 2 ^ k"
  by (simp only: and_mask_nat) simp

section \<open>Sequences of calls\<close>

text \<open>
  A component is used by sequences of calls; a call that fails (an assertion, a memory fault)
  ends the run. A simulation relates the states of the code and of a specification whose
  calls give the same results, as long as a measure of the specification's state stays
  within a bound; the calls may be restricted by a condition.
\<close>

fun run_calls :: "('op \<Rightarrow> 's \<Rightarrow> ('r \<times> 's) option) \<Rightarrow> 'op list \<Rightarrow> 's \<Rightarrow> ('r list \<times> 's) option" where
  "run_calls step [] s = Some ([], s)"
| "run_calls step (op # ops) s = do { (r, s) \<leftarrow> step op s; (rs, s) \<leftarrow> run_calls step ops s; Some (r # rs, s) }"

locale guarded_simulation =
  fixes cstep :: "'op \<Rightarrow> 's \<Rightarrow> ('r \<times> 's) option" and astep :: "'op \<Rightarrow> 'a \<Rightarrow> ('r \<times> 'a) option"
    and rel :: "'s \<Rightarrow> 'a \<Rightarrow> bool" and weight :: "'a \<Rightarrow> nat" and bound :: nat and ok :: "'op \<Rightarrow> bool"
  assumes guarded_simulates: "ok op \<Longrightarrow> rel s a \<Longrightarrow> weight a < bound \<Longrightarrow>
      (case astep op a of None \<Rightarrow> cstep op s = None | Some (r, a') \<Rightarrow> \<exists>s'. cstep op s = Some (r, s') \<and> rel s' a')"
    and guarded_weight_step: "rel s a \<Longrightarrow> astep op a = Some (r, a') \<Longrightarrow> weight a' \<le> weight a + 1"
begin

lemma guarded_runs:
  assumes "rel s a" "weight a + length ops \<le> bound" "\<forall>op \<in> set ops. ok op"
  shows "case run_calls astep ops a of
      None \<Rightarrow> run_calls cstep ops s = None
    | Some (rs, a') \<Rightarrow> \<exists>s'. run_calls cstep ops s = Some (rs, s') \<and> rel s' a'"
  using assms
proof (induction ops arbitrary: s a)
  case Nil
  then show ?case by simp
next
  case (Cons op ops)
  then have w: "weight a < bound" and op: "ok op" and ops: "\<forall>op \<in> set ops. ok op" by simp_all
  show ?case
  proof (cases "astep op a")
    case None
    then show ?thesis using guarded_simulates [OF op Cons.prems(1) w] by simp
  next
    case (Some ra)
    obtain r a1 where ra: "ra = (r, a1)" by (cases ra)
    then obtain s1 where s1: "cstep op s = Some (r, s1)" "rel s1 a1"
      using guarded_simulates [OF op Cons.prems(1) w] Some by auto
    have "weight a1 + length ops \<le> bound" using guarded_weight_step [OF Cons.prems(1)] Some ra Cons.prems(2) by fastforce
    from Cons.IH [OF s1(2) this ops] show ?thesis using Some ra s1 by (auto split: option.splits)
  qed
qed

end

text \<open>Without a condition on the calls.\<close>

locale simulation =
  fixes cstep :: "'op \<Rightarrow> 's \<Rightarrow> ('r \<times> 's) option" and astep :: "'op \<Rightarrow> 'a \<Rightarrow> ('r \<times> 'a) option"
    and rel :: "'s \<Rightarrow> 'a \<Rightarrow> bool" and weight :: "'a \<Rightarrow> nat" and bound :: nat
  assumes simulates: "rel s a \<Longrightarrow> weight a < bound \<Longrightarrow>
      (case astep op a of None \<Rightarrow> cstep op s = None | Some (r, a') \<Rightarrow> \<exists>s'. cstep op s = Some (r, s') \<and> rel s' a')"
    and weight_step: "rel s a \<Longrightarrow> astep op a = Some (r, a') \<Longrightarrow> weight a' \<le> weight a + 1"

sublocale simulation \<subseteq> guarded: guarded_simulation cstep astep rel weight bound "\<lambda>_. True"
  by unfold_locales (use simulates weight_step in blast)+

context simulation begin

lemma runs:
  assumes "rel s a" "weight a + length ops \<le> bound"
  shows "case run_calls astep ops a of
      None \<Rightarrow> run_calls cstep ops s = None
    | Some (rs, a') \<Rightarrow> \<exists>s'. run_calls cstep ops s = Some (rs, s') \<and> rel s' a'"
  using guarded.guarded_runs [OF assms] by simp

end

end
