(* ===== verification/Dict.thy ===== *)
theory Dict
  imports Redis_Prelude
begin

text \<open>
  The hash table of \<^verbatim>\<open>dict.c\<close> and \<^verbatim>\<open>dict.h\<close>: two tables, incremental rehashing from
  \<open>ht[0]\<close> to \<open>ht[1]\<close>, chaining, resizing to powers of two.

  A \<open>dictEntry\<close> is a key with a value; a chain of entries linked by \<open>next\<close> is a list; a
  table is the list of its buckets, and \<open>NULL\<close> is the table without buckets. A pointer to
  an entry is its place: table number, bucket, position in the chain. Names drop the
  leading underscore of the sources. Every operation returns an \<open>option\<close>: \<open>None\<close> is a
  failed \<open>assert\<close>, a read or write outside a table, a decrement of a zero counter or a
  loop that never ends.
\<close>

section \<open>Data structures\<close>

type_synonym ('k, 'v) dictEntry = "'k \<times> 'v"

record ('k, 'v) dictType =
  hashFunction :: "'k \<Rightarrow> u32"
  keyDup :: "('k \<Rightarrow> 'k) option"
  valDup :: "('v \<Rightarrow> 'v) option"
  keyCompare :: "('k \<Rightarrow> 'k \<Rightarrow> bool) option"

record ('k, 'v) dictht =
  ht_table :: "('k, 'v) dictEntry list list"
  ht_size :: nat
  ht_sizemask :: nat
  ht_used :: nat

record ('k, 'v) dict =
  dtype :: "('k, 'v) dictType"
  ht0 :: "('k, 'v) dictht"
  ht1 :: "('k, 'v) dictht"
  rehashidx :: int
  iterators :: int

text \<open>
  The static variables of the file, and the flag of the Windows port that is set in the
  forked child (on the other platforms it is never set).
\<close>

record dict_env =
  dict_can_resize :: bool
  dict_force_resize_ratio :: nat
  g_IsForkedProcess :: bool

datatype dict_status = DICT_OK | DICT_ERR

type_synonym entry_ref = "nat \<times> nat \<times> nat"

abbreviation DICT_HT_INITIAL_SIZE :: nat where
  "DICT_HT_INITIAL_SIZE \<equiv> 4"

section \<open>Macros of dict.h\<close>

definition dictIsRehashing :: "('k, 'v) dict \<Rightarrow> bool" where
  "dictIsRehashing d \<longleftrightarrow> rehashidx d \<noteq> -1"

definition dictSize :: "('k, 'v) dict \<Rightarrow> nat" where
  "dictSize d = ht_used (ht0 d) + ht_used (ht1 d)"

definition dictSlots :: "('k, 'v) dict \<Rightarrow> nat" where
  "dictSlots d = ht_size (ht0 d) + ht_size (ht1 d)"

definition dictHashKey :: "('k, 'v) dict \<Rightarrow> 'k \<Rightarrow> nat" where
  "dictHashKey d k = unat (hashFunction (dtype d) k)"

definition dictCompareKeys :: "('k, 'v) dict \<Rightarrow> 'k \<Rightarrow> 'k \<Rightarrow> bool" where
  "dictCompareKeys d k1 k2 =
     (case keyCompare (dtype d) of Some cmp \<Rightarrow> cmp k1 k2 | None \<Rightarrow> k1 = k2)"

definition ht_of :: "('k, 'v) dict \<Rightarrow> nat \<Rightarrow> ('k, 'v) dictht" where
  "ht_of d t = (if t = 0 then ht0 d else ht1 d)"

definition set_ht :: "('k, 'v) dict \<Rightarrow> nat \<Rightarrow> ('k, 'v) dictht \<Rightarrow> ('k, 'v) dict" where
  "set_ht d t h = (if t = 0 then d\<lparr>ht0 := h\<rparr> else d\<lparr>ht1 := h\<rparr>)"

definition dup_key :: "('k, 'v) dict \<Rightarrow> 'k \<Rightarrow> 'k" where
  "dup_key d k = (case keyDup (dtype d) of Some f \<Rightarrow> f k | None \<Rightarrow> k)"

definition dup_val :: "('k, 'v) dict \<Rightarrow> 'v \<Rightarrow> 'v" where
  "dup_val d v = (case valDup (dtype d) of Some f \<Rightarrow> f v | None \<Rightarrow> v)"

definition entry_at :: "('k, 'v) dict \<Rightarrow> entry_ref \<Rightarrow> ('k, 'v) dictEntry option" where
  "entry_at d r = (case r of (t, i, p) \<Rightarrow>
     do { b \<leftarrow> get_at (ht_table (ht_of d t)) i; get_at b p })"

definition dictSetVal :: "('k, 'v) dict \<Rightarrow> entry_ref \<Rightarrow> 'v \<Rightarrow> ('k, 'v) dict option" where
  "dictSetVal d r v = (case r of (t, i, p) \<Rightarrow>
     do { b \<leftarrow> get_at (ht_table (ht_of d t)) i;
          e \<leftarrow> get_at b p;
          Some (set_ht d t ((ht_of d t)\<lparr>ht_table :=
                  (ht_table (ht_of d t))[i := b[p := (fst e, dup_val d v)]]\<rparr>)) })"

section \<open>Creation, resizing\<close>

definition dictReset :: "('k, 'v) dictht" where
  "dictReset = \<lparr>ht_table = [], ht_size = 0, ht_sizemask = 0, ht_used = 0\<rparr>"

definition dictInit :: "('k, 'v) dictType \<Rightarrow> ('k, 'v) dict" where
  "dictInit ty = \<lparr>dtype = ty, ht0 = dictReset, ht1 = dictReset, rehashidx = -1, iterators = 0\<rparr>"

definition dictCreate :: "('k, 'v) dictType \<Rightarrow> ('k, 'v) dict" where
  "dictCreate ty = dictInit ty"

partial_function (option) dictNextPower_loop :: "nat \<Rightarrow> nat \<Rightarrow> nat option" where
  "dictNextPower_loop i sz =
     (if sz \<le> i then Some i else dictNextPower_loop ((i * 2) mod 2 ^ 64) sz)"

definition dictNextPower :: "nat \<Rightarrow> nat option" where
  "dictNextPower sz =
     (if LONG_MAX \<le> sz then Some LONG_MAX else dictNextPower_loop DICT_HT_INITIAL_SIZE sz)"

definition dictExpand :: "('k, 'v) dict \<Rightarrow> nat \<Rightarrow> (dict_status \<times> ('k, 'v) dict) option" where
  "dictExpand d sz = do {
     realsize \<leftarrow> dictNextPower sz;
     if dictIsRehashing d \<or> ht_used (ht0 d) > sz then Some (DICT_ERR, d)
     else if realsize = ht_size (ht0 d) then Some (DICT_ERR, d)
     else
       (let n = \<lparr>ht_table = replicate realsize [], ht_size = realsize,
                 ht_sizemask = realsize - 1, ht_used = 0\<rparr>
        in if ht_table (ht0 d) = [] then Some (DICT_OK, d\<lparr>ht0 := n\<rparr>)
           else Some (DICT_OK, d\<lparr>ht1 := n, rehashidx := 0\<rparr>)) }"

definition dictResize :: "dict_env \<Rightarrow> ('k, 'v) dict \<Rightarrow> (dict_status \<times> ('k, 'v) dict) option" where
  "dictResize env d =
     (if \<not> dict_can_resize env \<or> dictIsRehashing d then Some (DICT_ERR, d)
      else let minimal = cast_int (int (ht_used (ht0 d)));
               minimal' = (if minimal < int DICT_HT_INITIAL_SIZE then int DICT_HT_INITIAL_SIZE
                           else minimal)
           in dictExpand d (nat minimal'))"

definition dictExpandIfNeeded ::
  "dict_env \<Rightarrow> ('k, 'v) dict \<Rightarrow> (dict_status \<times> ('k, 'v) dict) option" where
  "dictExpandIfNeeded env d =
     (if dictIsRehashing d then Some (DICT_OK, d)
      else if ht_size (ht0 d) = 0 then dictExpand d DICT_HT_INITIAL_SIZE
      else if ht_used (ht0 d) \<ge> ht_size (ht0 d)
              \<and> (dict_can_resize env
                 \<or> ht_used (ht0 d) div ht_size (ht0 d) > dict_force_resize_ratio env)
      then dictExpand d ((ht_used (ht0 d) * 2) mod 2 ^ 64)
      else Some (DICT_OK, d))"

section \<open>Incremental rehashing\<close>

text \<open>The loop that moves one chain, entry by entry, to the heads of chains of \<open>ht[1]\<close>.\<close>

fun rehash_chain ::
  "('k, 'v) dictEntry list \<Rightarrow> ('k, 'v) dict \<Rightarrow> ('k, 'v) dict option" where
  "rehash_chain [] d = Some d"
| "rehash_chain (de # nextde) d =
     (let h = dictHashKey d (fst de) AND ht_sizemask (ht1 d) in
      do { b \<leftarrow> get_at (ht_table (ht1 d)) h;
           t1 \<leftarrow> set_at (ht_table (ht1 d)) h (de # b);
           u0 \<leftarrow> checked_dec (ht_used (ht0 d));
           rehash_chain nextde
             (d\<lparr>ht0 := (ht0 d)\<lparr>ht_used := u0\<rparr>,
                ht1 := (ht1 d)\<lparr>ht_table := t1, ht_used := ht_used (ht1 d) + 1\<rparr>\<rparr>) })"

text \<open>
  The loop over empty buckets: the next non-empty bucket and the visits left, or the
  bucket reached when the visits are used up.
\<close>

datatype skip_result = Found nat nat | Exhausted nat

function skip_empty ::
  "('k, 'v) dictEntry list list \<Rightarrow> nat \<Rightarrow> nat \<Rightarrow> skip_result option" where
  "skip_empty t i visits =
     (if i < length t
      then if t ! i = []
           then if visits = 1 then Some (Exhausted (i + 1))
                else skip_empty t (i + 1) (visits - 1)
           else Some (Found i visits)
      else None)"
  by pat_completeness auto
termination
  by (relation "measure (\<lambda>(t, i, visits). length t - i)") auto

declare skip_empty.simps [simp del]

definition finish_rehash :: "('k, 'v) dict \<Rightarrow> int \<times> ('k, 'v) dict" where
  "finish_rehash d =
     (if ht_used (ht0 d) = 0
      then (0, d\<lparr>ht0 := ht1 d, ht1 := dictReset, rehashidx := -1\<rparr>)
      else (1, d))"

fun dictRehash_loop ::
  "nat \<Rightarrow> nat \<Rightarrow> ('k, 'v) dict \<Rightarrow> (int \<times> ('k, 'v) dict) option" where
  "dictRehash_loop 0 visits d = Some (finish_rehash d)"
| "dictRehash_loop (Suc n) visits d =
     (if ht_used (ht0 d) = 0 then Some (finish_rehash d)
      else if \<not> (ht_size (ht0 d) > nat (rehashidx d)) then None
      else do {
        r \<leftarrow> skip_empty (ht_table (ht0 d)) (nat (rehashidx d)) visits;
        case r of
          Exhausted i \<Rightarrow> Some (1, d\<lparr>rehashidx := int i\<rparr>)
        | Found i visits' \<Rightarrow> do {
            d1 \<leftarrow> rehash_chain (ht_table (ht0 d) ! i) (d\<lparr>rehashidx := int i\<rparr>);
            t0 \<leftarrow> set_at (ht_table (ht0 d1)) i [];
            dictRehash_loop n visits'
              (d1\<lparr>ht0 := (ht0 d1)\<lparr>ht_table := t0\<rparr>, rehashidx := int i + 1\<rparr>) } })"

definition dictRehash ::
  "dict_env \<Rightarrow> ('k, 'v) dict \<Rightarrow> nat \<Rightarrow> (int \<times> ('k, 'v) dict) option" where
  "dictRehash env d n =
     (if g_IsForkedProcess env then Some (0, d)
      else if \<not> dictIsRehashing d then Some (0, d)
      else dictRehash_loop n (n * 10) d)"

definition dictRehashStep :: "dict_env \<Rightarrow> ('k, 'v) dict \<Rightarrow> ('k, 'v) dict option" where
  "dictRehashStep env d =
     (if iterators d = 0 then map_option snd (dictRehash env d 1) else Some d)"

definition rehash_if_needed :: "dict_env \<Rightarrow> ('k, 'v) dict \<Rightarrow> ('k, 'v) dict option" where
  "rehash_if_needed env d = (if dictIsRehashing d then dictRehashStep env d else Some d)"

section \<open>Lookup, insertion, deletion\<close>

text \<open>The walk along one chain, by position.\<close>

fun chain_find :: "('k \<Rightarrow> bool) \<Rightarrow> ('k, 'v) dictEntry list \<Rightarrow> nat option" where
  "chain_find p [] = None"
| "chain_find p (he # rest) =
     (if p (fst he) then Some 0 else map_option Suc (chain_find p rest))"

text \<open>The loop over the two tables: the place of the entry with this key, if any.\<close>

definition find_in_table ::
  "('k, 'v) dict \<Rightarrow> nat \<Rightarrow> 'k \<Rightarrow> (entry_ref option) option" where
  "find_in_table d t k =
     (let idx = dictHashKey d k AND ht_sizemask (ht_of d t) in
      do { b \<leftarrow> get_at (ht_table (ht_of d t)) idx;
           Some (map_option (\<lambda>p. (t, idx, p)) (chain_find (dictCompareKeys d k) b)) })"

definition find_in_tables :: "('k, 'v) dict \<Rightarrow> 'k \<Rightarrow> (entry_ref option) option" where
  "find_in_tables d k = do {
     r0 \<leftarrow> find_in_table d 0 k;
     case r0 of
       Some r \<Rightarrow> Some (Some r)
     | None \<Rightarrow> if \<not> dictIsRehashing d then Some None else find_in_table d 1 k }"

definition dictFind ::
  "dict_env \<Rightarrow> ('k, 'v) dict \<Rightarrow> 'k \<Rightarrow> (entry_ref option \<times> ('k, 'v) dict) option" where
  "dictFind env d k =
     (if ht_size (ht0 d) = 0 then Some (None, d)
      else do { d1 \<leftarrow> rehash_if_needed env d;
                r \<leftarrow> find_in_tables d1 k;
                Some (r, d1) })"

definition dictFetchValue ::
  "dict_env \<Rightarrow> ('k, 'v) dict \<Rightarrow> 'k \<Rightarrow> ('v option \<times> ('k, 'v) dict) option" where
  "dictFetchValue env d k = do {
     (r, d1) \<leftarrow> dictFind env d k;
     case r of None \<Rightarrow> Some (None, d1)
     | Some he \<Rightarrow> do { e \<leftarrow> entry_at d1 he; Some (Some (snd e), d1) } }"

text \<open>
  The bucket where a key would go, \<open>-1\<close> when the key is there or the table could not be
  expanded. The bucket is an \<open>unsigned int\<close> returned as an \<open>int\<close>.
\<close>

definition dictKeyIndex ::
  "dict_env \<Rightarrow> ('k, 'v) dict \<Rightarrow> 'k \<Rightarrow> (int \<times> ('k, 'v) dict) option" where
  "dictKeyIndex env d k = do {
     (st, d1) \<leftarrow> dictExpandIfNeeded env d;
     if st = DICT_ERR then Some (-1, d1)
     else do {
       r \<leftarrow> find_in_tables d1 k;
       case r of
         Some _ \<Rightarrow> Some (-1, d1)
       | None \<Rightarrow>
           let t = (if dictIsRehashing d1 then 1 else 0);
               idx = dictHashKey d1 k AND ht_sizemask (ht_of d1 t)
           in Some (cast_int (int idx), d1) } }"

text \<open>The value of a new entry is what the allocation held: the argument \<open>v0\<close>.\<close>

definition dictAddRaw ::
  "dict_env \<Rightarrow> 'v \<Rightarrow> ('k, 'v) dict \<Rightarrow> 'k \<Rightarrow> (entry_ref option \<times> ('k, 'v) dict) option" where
  "dictAddRaw env v0 d k = do {
     d1 \<leftarrow> rehash_if_needed env d;
     (index, d2) \<leftarrow> dictKeyIndex env d1 k;
     if index = -1 then Some (None, d2)
     else if index < 0 then None
     else
       (let t = (if dictIsRehashing d2 then 1 else 0); ht = ht_of d2 t; i = nat index
        in do { b \<leftarrow> get_at (ht_table ht) i;
                tb \<leftarrow> set_at (ht_table ht) i ((dup_key d2 k, v0) # b);
                Some (Some (t, i, 0),
                      set_ht d2 t (ht\<lparr>ht_table := tb, ht_used := ht_used ht + 1\<rparr>)) }) }"

definition dictAdd ::
  "dict_env \<Rightarrow> 'v \<Rightarrow> ('k, 'v) dict \<Rightarrow> 'k \<Rightarrow> 'v \<Rightarrow> (dict_status \<times> ('k, 'v) dict) option" where
  "dictAdd env v0 d k v = do {
     (r, d1) \<leftarrow> dictAddRaw env v0 d k;
     case r of None \<Rightarrow> Some (DICT_ERR, d1)
     | Some entry \<Rightarrow> do { d2 \<leftarrow> dictSetVal d1 entry v; Some (DICT_OK, d2) } }"

text \<open>
  The result of \<open>dictReplace\<close> carries the value handed to the value destructor, if any.
\<close>

definition dictReplace ::
  "dict_env \<Rightarrow> 'v \<Rightarrow> ('k, 'v) dict \<Rightarrow> 'k \<Rightarrow> 'v \<Rightarrow> (int \<times> 'v option \<times> ('k, 'v) dict) option" where
  "dictReplace env v0 d k v = do {
     (st, d1) \<leftarrow> dictAdd env v0 d k v;
     if st = DICT_OK then Some (1, None, d1)
     else do {
       (r, d2) \<leftarrow> dictFind env d1 k;
       case r of
         None \<Rightarrow> None
       | Some entry \<Rightarrow> do {
           aux \<leftarrow> entry_at d2 entry;
           d3 \<leftarrow> dictSetVal d2 entry v;
           Some (0, Some (snd aux), d3) } } }"

definition dictReplaceRaw ::
  "dict_env \<Rightarrow> 'v \<Rightarrow> ('k, 'v) dict \<Rightarrow> 'k \<Rightarrow> (entry_ref option \<times> ('k, 'v) dict) option" where
  "dictReplaceRaw env v0 d k = do {
     (r, d1) \<leftarrow> dictFind env d k;
     case r of Some he \<Rightarrow> Some (Some he, d1) | None \<Rightarrow> dictAddRaw env v0 d1 k }"

text \<open>
  Unlinking the entry at a place; the result carries the entry handed to the destructors,
  none when \<open>nofree\<close> is set.
\<close>

definition unlink_entry ::
  "('k, 'v) dict \<Rightarrow> entry_ref \<Rightarrow> (('k, 'v) dictEntry \<times> ('k, 'v) dict) option" where
  "unlink_entry d r = (case r of (t, i, p) \<Rightarrow>
     do { b \<leftarrow> get_at (ht_table (ht_of d t)) i;
          e \<leftarrow> get_at b p;
          tb \<leftarrow> set_at (ht_table (ht_of d t)) i (take p b @ drop (Suc p) b);
          u \<leftarrow> checked_dec (ht_used (ht_of d t));
          Some (e, set_ht d t ((ht_of d t)\<lparr>ht_table := tb, ht_used := u\<rparr>)) })"

definition dictGenericDelete ::
  "dict_env \<Rightarrow> ('k, 'v) dict \<Rightarrow> 'k \<Rightarrow> bool \<Rightarrow>
     (dict_status \<times> ('k, 'v) dictEntry list \<times> ('k, 'v) dict) option" where
  "dictGenericDelete env d k nofree =
     (if ht_size (ht0 d) = 0 then Some (DICT_ERR, [], d)
      else do {
        d1 \<leftarrow> rehash_if_needed env d;
        r \<leftarrow> find_in_tables d1 k;
        case r of
          None \<Rightarrow> Some (DICT_ERR, [], d1)
        | Some he \<Rightarrow> do {
            (e, d2) \<leftarrow> unlink_entry d1 he;
            Some (DICT_OK, (if nofree then [] else [e]), d2) } })"

definition dictDelete ::
  "dict_env \<Rightarrow> ('k, 'v) dict \<Rightarrow> 'k \<Rightarrow>
     (dict_status \<times> ('k, 'v) dictEntry list \<times> ('k, 'v) dict) option" where
  "dictDelete env d k = dictGenericDelete env d k False"

definition dictDeleteNoFree ::
  "dict_env \<Rightarrow> ('k, 'v) dict \<Rightarrow> 'k \<Rightarrow>
     (dict_status \<times> ('k, 'v) dictEntry list \<times> ('k, 'v) dict) option" where
  "dictDeleteNoFree env d k = dictGenericDelete env d k True"

section \<open>Clearing\<close>

text \<open>
  The loop over the buckets while entries are left; the entries handed to the destructors
  are collected in order.
\<close>

fun clear_loop ::
  "('k, 'v) dictEntry list list \<Rightarrow> nat \<Rightarrow> ('k, 'v) dictEntry list option" where
  "clear_loop [] used = Some []"
| "clear_loop (b # bs) used =
     (if used = 0 then Some []
      else if used < length b then None
      else map_option (\<lambda>r. b @ r) (clear_loop bs (used - length b)))"

definition dictClear ::
  "('k, 'v) dictht \<Rightarrow> (('k, 'v) dictEntry list \<times> ('k, 'v) dictht) option" where
  "dictClear h =
     (if ht_size h \<le> length (ht_table h)
      then map_option (\<lambda>es. (es, dictReset)) (clear_loop (take (ht_size h) (ht_table h)) (ht_used h))
      else None)"

definition dictRelease :: "('k, 'v) dict \<Rightarrow> ('k, 'v) dictEntry list option" where
  "dictRelease d = do {
     (es0, _) \<leftarrow> dictClear (ht0 d);
     (es1, _) \<leftarrow> dictClear (ht1 d);
     Some (es0 @ es1) }"

definition dictEmpty ::
  "('k, 'v) dict \<Rightarrow> (('k, 'v) dictEntry list \<times> ('k, 'v) dict) option" where
  "dictEmpty d = do {
     (es0, h0) \<leftarrow> dictClear (ht0 d);
     (es1, h1) \<leftarrow> dictClear (ht1 d);
     Some (es0 @ es1, d\<lparr>ht0 := h0, ht1 := h1, rehashidx := -1, iterators := 0\<rparr>) }"

definition dictEnableResize :: "dict_env \<Rightarrow> dict_env" where
  "dictEnableResize env = env\<lparr>dict_can_resize := True\<rparr>"

definition dictDisableResize :: "dict_env \<Rightarrow> dict_env" where
  "dictDisableResize env = env\<lparr>dict_can_resize := False\<rparr>"

end
