(* ===== verification/Dict_Rehash.thy ===== *)
theory Dict_Rehash
  imports Dict
begin

text \<open>
  The representation invariant of \<^verbatim>\<open>dict.c\<close>, its abstraction to a finite map, and the
  correctness of the incremental rehashing: entries are only moved, never lost or
  duplicated, no access leaves a table, the assertion holds, and repeated steps end.
\<close>

section \<open>Key types\<close>

text \<open>
  What a \<open>dictType\<close> has to promise: the comparison is an equivalence, equal keys hash to
  the same value, and a duplicated key is equal to its original.
\<close>

locale key_type =
  fixes hf :: "'k \<Rightarrow> u32" and eq :: "'k \<Rightarrow> 'k \<Rightarrow> bool" and dup :: "'k \<Rightarrow> 'k"
  assumes eq_equiv: "equivp eq"
    and eq_hash: "eq a b \<Longrightarrow> hf a = hf b"
    and eq_dup: "eq (dup a) a"
begin

lemma eq_iff: "eq a b \<longleftrightarrow> eq a = eq b"
  using eq_equiv by (simp add: equivp_def)

lemma eq_refl [simp]: "eq a a"
  by (simp add: eq_iff)

lemma eq_sym: "eq a b \<Longrightarrow> eq b a"
  by (simp add: eq_iff)

lemma eq_dup_class: "eq (dup a) = eq a"
  using eq_dup eq_iff by metis

lemma chain_find_None:
  "chain_find (eq k) b = None \<longleftrightarrow> (\<forall>e \<in> set b. \<not> eq k (fst e))"
  by (induction b) auto

lemma chain_find_Some:
  "chain_find (eq k) b = Some p \<Longrightarrow> p < length b \<and> eq k (fst (b ! p))"
  by (induction b arbitrary: p) (auto split: if_splits)

lemma find_distinct:
  assumes "distinct (map (\<lambda>e. eq (fst e)) es)" and "e \<in> set es" and "eq k (fst e)"
  shows "find (\<lambda>e. eq k (fst e)) es = Some e"
  using assms
proof (induction es)
  case (Cons x xs)
  show ?case
  proof (cases "eq k (fst x)")
    case True
    with Cons.prems(3) have "eq (fst x) = eq (fst e)"
      using eq_iff by metis
    with Cons.prems(1,2) have "e = x" by auto
    with True show ?thesis by simp
  next
    case False
    with Cons show ?thesis by auto
  qed
qed simp

lemma find_mset_eq:
  assumes "distinct (map (\<lambda>e. eq (fst e)) es)" and "mset es = mset fs"
  shows "find (\<lambda>e. eq k (fst e)) es = find (\<lambda>e. eq k (fst e)) fs"
proof (cases "find (\<lambda>e. eq k (fst e)) es")
  case None
  then have "\<forall>e \<in> set es. \<not> eq k (fst e)" by (auto simp: find_None_iff)
  with assms(2) have "\<forall>e \<in> set fs. \<not> eq k (fst e)" by (metis set_mset_mset)
  with None show ?thesis by (metis find_None_iff)
next
  case (Some e)
  then have e: "e \<in> set es" "eq k (fst e)" by (auto simp: find_Some_iff)
  from assms(2) e(1) have "e \<in> set fs" by (metis set_mset_mset)
  moreover have "distinct (map (\<lambda>e. eq (fst e)) fs)"
    using assms by (metis mset_eq_imp_distinct_iff mset_map)
  ultimately show ?thesis using Some e(2) find_distinct by metis
qed

end

definition dictType_ok :: "('k, 'v) dictType \<Rightarrow> bool" where
  "dictType_ok ty \<longleftrightarrow>
     key_type (hashFunction ty)
       (case keyCompare ty of Some cmp \<Rightarrow> cmp | None \<Rightarrow> (=))
       (case keyDup ty of Some f \<Rightarrow> f | None \<Rightarrow> id)"

section \<open>Frame facts\<close>

text \<open>The comparison and the hash depend on the type only, which no operation changes.\<close>

lemma dictCompareKeys_upd [simp]:
  "dictCompareKeys (d\<lparr>ht0 := a\<rparr>) = dictCompareKeys d"
  "dictCompareKeys (d\<lparr>ht1 := b\<rparr>) = dictCompareKeys d"
  "dictCompareKeys (d\<lparr>rehashidx := i\<rparr>) = dictCompareKeys d"
  "dictCompareKeys (d\<lparr>iterators := n\<rparr>) = dictCompareKeys d"
  by (auto simp: dictCompareKeys_def fun_eq_iff)

lemma dictHashKey_upd [simp]:
  "dictHashKey (d\<lparr>ht0 := a\<rparr>) = dictHashKey d"
  "dictHashKey (d\<lparr>ht1 := b\<rparr>) = dictHashKey d"
  "dictHashKey (d\<lparr>rehashidx := i\<rparr>) = dictHashKey d"
  "dictHashKey (d\<lparr>iterators := n\<rparr>) = dictHashKey d"
  by (auto simp: dictHashKey_def fun_eq_iff)

text \<open>Updates of different fields commute; these put them in the order of the record.\<close>

lemma dict_upd_commute:
  "(h::('k, 'v) dictht)\<lparr>ht_used := u, ht_table := t\<rparr> = h\<lparr>ht_table := t, ht_used := u\<rparr>"
  "(d::('k, 'v) dict)\<lparr>ht1 := b, ht0 := a\<rparr> = d\<lparr>ht0 := a, ht1 := b\<rparr>"
  "d\<lparr>rehashidx := i, ht0 := a\<rparr> = d\<lparr>ht0 := a, rehashidx := i\<rparr>"
  "d\<lparr>rehashidx := i, ht1 := b\<rparr> = d\<lparr>ht1 := b, rehashidx := i\<rparr>"
  by simp_all

lemma dictCompareKeys_cong: "dtype d = dtype d' \<Longrightarrow> dictCompareKeys d = dictCompareKeys d'"
  by (auto simp: dictCompareKeys_def fun_eq_iff)

lemma dictHashKey_cong: "dtype d = dtype d' \<Longrightarrow> dictHashKey d = dictHashKey d'"
  by (auto simp: dictHashKey_def fun_eq_iff)

lemma dup_key_cong: "dtype d = dtype d' \<Longrightarrow> dup_key d = dup_key d'"
  by (auto simp: dup_key_def fun_eq_iff)

lemma dictType_ok_key_type:
  assumes "dictType_ok (dtype d)"
  shows "key_type (hashFunction (dtype d)) (dictCompareKeys d) (dup_key d)"
proof -
  have "(case keyCompare (dtype d) of Some cmp \<Rightarrow> cmp | None \<Rightarrow> (=)) = dictCompareKeys d"
    by (auto simp: dictCompareKeys_def fun_eq_iff split: option.splits)
  moreover have "(case keyDup (dtype d) of Some f \<Rightarrow> f | None \<Rightarrow> id) = dup_key d"
    by (auto simp: dup_key_def fun_eq_iff split: option.splits)
  ultimately show ?thesis using assms by (simp add: dictType_ok_def)
qed

section \<open>Tables\<close>

definition ht_entries :: "('k, 'v) dictht \<Rightarrow> ('k, 'v) dictEntry list" where
  "ht_entries h = concat (ht_table h)"

text \<open>A table that is allocated: a power of two of buckets, each entry in its bucket.\<close>

definition ht_live :: "('k \<Rightarrow> nat) \<Rightarrow> ('k, 'v) dictht \<Rightarrow> bool" where
  "ht_live hk h \<longleftrightarrow>
     (\<exists>n. ht_size h = 2 ^ n \<and> ht_sizemask h = 2 ^ n - 1 \<and> length (ht_table h) = 2 ^ n)
     \<and> ht_used h = length (ht_entries h)
     \<and> (\<forall>i < length (ht_table h). \<forall>e \<in> set (ht_table h ! i). hk (fst e) AND ht_sizemask h = i)"

lemma dictReset_simps [simp]:
  "ht_table dictReset = []" "ht_size dictReset = 0" "ht_sizemask dictReset = 0"
  "ht_used dictReset = 0" "ht_entries dictReset = []"
  by (simp_all add: dictReset_def ht_entries_def)

lemma ht_live_idx: "ht_live hk h \<Longrightarrow> x AND ht_sizemask h < length (ht_table h)"
  unfolding ht_live_def using and_mask_less by metis

lemma ht_live_nonempty: "ht_live hk h \<Longrightarrow> ht_table h \<noteq> [] \<and> 0 < ht_size h"
  by (auto simp: ht_live_def)

lemma ht_live_size: "ht_live hk h \<Longrightarrow> length (ht_table h) = ht_size h"
  by (auto simp: ht_live_def)

lemma ht_live_used: "ht_live hk h \<Longrightarrow> ht_used h = length (ht_entries h)"
  by (simp add: ht_live_def)

lemma ht_live_bucket:
  "ht_live hk h \<Longrightarrow> i < length (ht_table h) \<Longrightarrow> e \<in> set (ht_table h ! i) \<Longrightarrow>
   hk (fst e) AND ht_sizemask h = i"
  by (simp add: ht_live_def)

lemma ht_live_entry:
  assumes "ht_live hk h" and "e \<in> set (ht_entries h)"
  shows "e \<in> set (ht_table h ! (hk (fst e) AND ht_sizemask h))"
proof -
  from assms(2) obtain b where "b \<in> set (ht_table h)" "e \<in> set b"
    by (auto simp: ht_entries_def)
  then obtain i where "i < length (ht_table h)" "e \<in> set (ht_table h ! i)"
    by (metis in_set_conv_nth)
  with ht_live_bucket [OF assms(1)] show ?thesis by metis
qed

lemma length_eq_mset: "mset xs = mset ys \<Longrightarrow> length xs = length ys"
  by (metis size_mset)

text \<open>Replacing one bucket keeps a table live when the new entries belong there.\<close>

lemma ht_live_set_bucket:
  assumes "ht_live hk h" and "i < length (ht_table h)"
    and "\<forall>e \<in> set b. hk (fst e) AND ht_sizemask h = i"
    and "u = length (concat ((ht_table h)[i := b]))"
  shows "ht_live hk (h\<lparr>ht_table := (ht_table h)[i := b], ht_used := u\<rparr>)"
  using assms by (auto simp: ht_live_def ht_entries_def nth_list_update)

lemma length_concat_push:
  "i < length xss \<Longrightarrow> length (concat (xss[i := x # xss ! i])) = Suc (length (concat xss))"
  using arg_cong [OF mset_concat_push [of i xss x], of size] by simp

text \<open>Pushing an entry at the head of its chain.\<close>

lemma ht_push:
  assumes "ht_live hk h" and "i = hk (fst e) AND ht_sizemask h"
  shows "ht_live hk (h\<lparr>ht_table := (ht_table h)[i := e # ht_table h ! i], ht_used := ht_used h + 1\<rparr>)"
    and "mset (concat ((ht_table h)[i := e # ht_table h ! i])) = add_mset e (mset (ht_entries h))"
proof -
  have i: "i < length (ht_table h)" using assms ht_live_idx by blast
  show "mset (concat ((ht_table h)[i := e # ht_table h ! i])) = add_mset e (mset (ht_entries h))"
    using mset_concat_push [OF i] by (simp add: ht_entries_def)
  show "ht_live hk (h\<lparr>ht_table := (ht_table h)[i := e # ht_table h ! i], ht_used := ht_used h + 1\<rparr>)"
    by (rule ht_live_set_bucket [OF assms(1) i])
      (auto simp: assms(2) length_concat_push [OF i [unfolded assms(2)]]
         ht_live_used [OF assms(1)] ht_entries_def
         dest: ht_live_bucket [OF assms(1) i [unfolded assms(2)]])
qed

lemma ht_live_new:
  "ht_live hk \<lparr>ht_table = replicate (2 ^ n) [], ht_size = 2 ^ n, ht_sizemask = 2 ^ n - 1, ht_used = 0\<rparr>"
  by (auto simp: ht_live_def ht_entries_def)

section \<open>The invariant and the abstraction\<close>

definition dict_entries :: "('k, 'v) dict \<Rightarrow> ('k, 'v) dictEntry list" where
  "dict_entries d = ht_entries (ht0 d) @ ht_entries (ht1 d)"

definition dict_wf :: "('k, 'v) dict \<Rightarrow> bool" where
  "dict_wf d \<longleftrightarrow>
     dictType_ok (dtype d)
     \<and> (ht0 d = dictReset \<or> ht_live (dictHashKey d) (ht0 d))
     \<and> (if dictIsRehashing d
        then 0 \<le> rehashidx d \<and> ht_live (dictHashKey d) (ht0 d) \<and> ht_live (dictHashKey d) (ht1 d)
             \<and> (\<forall>i < length (ht_table (ht0 d)). int i < rehashidx d \<longrightarrow> ht_table (ht0 d) ! i = [])
        else ht1 d = dictReset)
     \<and> distinct (map (\<lambda>e. dictCompareKeys d (fst e)) (dict_entries d))"

text \<open>The finite map a dictionary stands for.\<close>

definition dict_map :: "('k, 'v) dict \<Rightarrow> 'k \<rightharpoonup> 'v" where
  "dict_map d k = map_option snd (find (\<lambda>e. dictCompareKeys d k (fst e)) (dict_entries d))"

lemma dict_wfD:
  assumes "dict_wf d"
  shows "dictType_ok (dtype d)"
    and "ht0 d = dictReset \<or> ht_live (dictHashKey d) (ht0 d)"
    and "distinct (map (\<lambda>e. dictCompareKeys d (fst e)) (dict_entries d))"
    and "dictIsRehashing d \<Longrightarrow> 0 \<le> rehashidx d"
    and "dictIsRehashing d \<Longrightarrow> ht_live (dictHashKey d) (ht0 d)"
    and "dictIsRehashing d \<Longrightarrow> ht_live (dictHashKey d) (ht1 d)"
    and "dictIsRehashing d \<Longrightarrow> i < length (ht_table (ht0 d)) \<Longrightarrow> int i < rehashidx d \<Longrightarrow>
           ht_table (ht0 d) ! i = []"
    and "\<not> dictIsRehashing d \<Longrightarrow> ht1 d = dictReset"
  using assms by (auto simp: dict_wf_def split: if_splits)

text \<open>Two well-formed dictionaries of one type with the same entries stand for the same map.\<close>

lemma dict_map_mset:
  assumes "dict_wf d" and "dtype d' = dtype d"
    and "mset (dict_entries d') = mset (dict_entries d)"
  shows "dict_map d' = dict_map d"
    and "distinct (map (\<lambda>e. dictCompareKeys d' (fst e)) (dict_entries d'))"
proof -
  have kt: "key_type (hashFunction (dtype d)) (dictCompareKeys d) (dup_key d)"
    by (rule dictType_ok_key_type [OF dict_wfD(1) [OF assms(1)]])
  have eq: "dictCompareKeys d' = dictCompareKeys d"
    by (rule dictCompareKeys_cong [OF assms(2)])
  show "dict_map d' = dict_map d"
    unfolding dict_map_def eq
    using key_type.find_mset_eq [OF kt dict_wfD(3) [OF assms(1)] assms(3) [symmetric]]
    by (simp add: fun_eq_iff)
  show "distinct (map (\<lambda>e. dictCompareKeys d' (fst e)) (dict_entries d'))"
    unfolding eq using dict_wfD(3) [OF assms(1)] assms(3)
    by (metis mset_eq_imp_distinct_iff mset_map)
qed

lemma dict_map_Some:
  assumes "dict_wf d" and "e \<in> set (dict_entries d)" and "dictCompareKeys d k (fst e)"
  shows "dict_map d k = Some (snd e)"
  using key_type.find_distinct [OF dictType_ok_key_type [OF dict_wfD(1) [OF assms(1)]]
      dict_wfD(3) [OF assms(1)] assms(2,3)]
  by (simp add: dict_map_def)

lemma dict_map_None:
  "dict_map d k = None \<longleftrightarrow> (\<forall>e \<in> set (dict_entries d). \<not> dictCompareKeys d k (fst e))"
  by (auto simp: dict_map_def find_None_iff)

section \<open>Rehashing\<close>

lemma skip_empty_spec:
  assumes "\<exists>j. i \<le> j \<and> j < length t \<and> t ! j \<noteq> []" and "0 < visits"
  shows "\<exists>r. skip_empty t i visits = Some r \<and>
    (case r of
       Found j v \<Rightarrow> i \<le> j \<and> j < length t \<and> t ! j \<noteq> [] \<and> 0 < v \<and> (\<forall>l. i \<le> l \<and> l < j \<longrightarrow> t ! l = [])
     | Exhausted j \<Rightarrow> i < j \<and> (\<forall>l. i \<le> l \<and> l < j \<longrightarrow> t ! l = [])
                      \<and> (\<exists>l. j \<le> l \<and> l < length t \<and> t ! l \<noteq> []))"
  using assms
proof (induction t i visits rule: skip_empty.induct)
  case (1 t i visits)
  from "1.prems"(1) obtain j where j: "i \<le> j" "j < length t" "t ! j \<noteq> []" by blast
  then have i: "i < length t" by simp
  show ?case
  proof (cases "t ! i = []")
    case False
    with i "1.prems"(2) show ?thesis by (subst skip_empty.simps) auto
  next
    case empty: True
    with j have ex: "i + 1 \<le> j" by (cases "i = j") auto
    have below: "t ! l = []" if "i \<le> l" "l < m" "\<forall>l. i + 1 \<le> l \<and> l < m \<longrightarrow> t ! l = []" for l m
      using that empty by (cases "l = i") auto
    show ?thesis
    proof (cases "visits = 1")
      case True
      with i empty ex j show ?thesis
        by (subst skip_empty.simps) (auto simp: le_less_Suc_eq)
    next
      case False
      with "1.IH" [OF i empty False] ex j "1.prems"(2)
      obtain r where r: "skip_empty t (i + 1) (visits - 1) = Some r"
        "case r of
           Found j v \<Rightarrow> i + 1 \<le> j \<and> j < length t \<and> t ! j \<noteq> [] \<and> 0 < v
              \<and> (\<forall>l. i + 1 \<le> l \<and> l < j \<longrightarrow> t ! l = [])
         | Exhausted j \<Rightarrow> i + 1 < j \<and> (\<forall>l. i + 1 \<le> l \<and> l < j \<longrightarrow> t ! l = [])
              \<and> (\<exists>l. j \<le> l \<and> l < length t \<and> t ! l \<noteq> [])"
        by auto
      have "skip_empty t i visits = Some r"
        using r(1) i empty False by (subst skip_empty.simps) simp
      with r(2) show ?thesis
        by (auto split: skip_result.splits intro: below)
    qed
  qed
qed

lemma rehash_chain_spec:
  assumes "ht_live (dictHashKey d) (ht1 d)" and "length es \<le> ht_used (ht0 d)"
  shows "\<exists>h1'. rehash_chain es d
      = Some (d\<lparr>ht0 := (ht0 d)\<lparr>ht_used := ht_used (ht0 d) - length es\<rparr>, ht1 := h1'\<rparr>)
    \<and> ht_live (dictHashKey d) h1' \<and> ht_size h1' = ht_size (ht1 d)
    \<and> mset (ht_entries h1') = mset es + mset (ht_entries (ht1 d))"
  using assms
proof (induction es arbitrary: d)
  case Nil
  then show ?case by (intro exI [of _ "ht1 d"]) simp
next
  case (Cons e es)
  let ?i = "dictHashKey d (fst e) AND ht_sizemask (ht1 d)"
  let ?h = "(ht1 d)\<lparr>ht_table := (ht_table (ht1 d))[?i := e # ht_table (ht1 d) ! ?i],
                     ht_used := ht_used (ht1 d) + 1\<rparr>"
  let ?d = "d\<lparr>ht0 := (ht0 d)\<lparr>ht_used := ht_used (ht0 d) - 1\<rparr>, ht1 := ?h\<rparr>"
  have i: "?i < length (ht_table (ht1 d))" by (rule ht_live_idx [OF Cons.prems(1)])
  have live: "ht_live (dictHashKey ?d) (ht1 ?d)"
    using ht_push(1) [OF Cons.prems(1) refl, of e] by simp
  have "length es \<le> ht_used (ht0 ?d)" using Cons.prems(2) by simp
  from Cons.IH [OF live this] obtain h1' where h1':
    "rehash_chain es ?d = Some (?d\<lparr>ht0 := (ht0 ?d)\<lparr>ht_used := ht_used (ht0 ?d) - length es\<rparr>, ht1 := h1'\<rparr>)"
    "ht_live (dictHashKey d) h1'" "ht_size h1' = ht_size (ht1 d)"
    "mset (ht_entries h1') = mset es + mset (ht_entries ?h)"
    by auto
  have "mset (ht_entries ?h) = add_mset e (mset (ht_entries (ht1 d)))"
    using ht_push(2) [OF Cons.prems(1) refl, of e] by (simp add: ht_entries_def)
  moreover have "rehash_chain (e # es) d
      = Some (d\<lparr>ht0 := (ht0 d)\<lparr>ht_used := ht_used (ht0 d) - length (e # es)\<rparr>, ht1 := h1'\<rparr>)"
    using h1'(1) i Cons.prems(2) by (simp add: checked_dec_pos Let_def)
  ultimately show ?case using h1'(2,3,4) by auto
qed

text \<open>
  What a rehashing operation may change: the placement of the entries only. It allocates
  nothing, so no table gets larger than the larger one was.
\<close>

definition same_content :: "('k, 'v) dict \<Rightarrow> ('k, 'v) dict \<Rightarrow> bool" where
  "same_content d d' \<longleftrightarrow>
     dtype d' = dtype d \<and> iterators d' = iterators d
     \<and> mset (dict_entries d') = mset (dict_entries d)
     \<and> (0 < ht_size (ht0 d) \<longrightarrow> 0 < ht_size (ht0 d'))
     \<and> max (ht_size (ht0 d')) (ht_size (ht1 d')) \<le> max (ht_size (ht0 d)) (ht_size (ht1 d))"

lemma same_content_refl [simp]: "same_content d d"
  by (simp add: same_content_def)

lemma same_content_trans: "same_content a b \<Longrightarrow> same_content b c \<Longrightarrow> same_content a c"
  unfolding same_content_def
  by (elim conjE, intro conjI) (simp, simp, simp, simp, rule order_trans)

lemma same_content_map: "dict_wf d \<Longrightarrow> same_content d d' \<Longrightarrow> dict_map d' = dict_map d"
  unfolding same_content_def using dict_map_mset(1) by blast

lemma length_bucket_le:
  "i < length xss \<Longrightarrow> length (xss ! i) \<le> length (concat xss)"
  using size_mset_mono [OF mset_concat_nth [of i xss]] by simp

lemma length_concat_clear:
  "i < length xss \<Longrightarrow> length (concat (xss[i := []])) = length (concat xss) - length (xss ! i)"
  using arg_cong [OF mset_concat_clear [of i xss], of size] mset_concat_nth [of i xss]
  by (simp add: size_Diff_submset)

text \<open>Moving one whole bucket.\<close>

lemma rehash_bucket:
  assumes wf: "dict_wf d" and re: "dictIsRehashing d" and i: "i < length (ht_table (ht0 d))"
    and below: "\<forall>l < i. ht_table (ht0 d) ! l = []"
  shows "\<exists>d1 t0. rehash_chain (ht_table (ht0 d) ! i) (d\<lparr>rehashidx := int i\<rparr>) = Some d1
     \<and> set_at (ht_table (ht0 d1)) i [] = Some t0
     \<and> (let d2 = d1\<lparr>ht0 := (ht0 d1)\<lparr>ht_table := t0\<rparr>, rehashidx := int i + 1\<rparr> in
        dict_wf d2 \<and> dictIsRehashing d2 \<and> same_content d d2
        \<and> ht_size (ht0 d2) = ht_size (ht0 d) \<and> ht_size (ht1 d2) = ht_size (ht1 d))"
proof -
  let ?b = "ht_table (ht0 d) ! i" and ?d = "d\<lparr>rehashidx := int i\<rparr>"
  note live0 = dict_wfD(5) [OF wf re] and live1 = dict_wfD(6) [OF wf re]
  have len: "length ?b \<le> ht_used (ht0 d)"
    using length_bucket_le [OF i] ht_live_used [OF live0] by (simp add: ht_entries_def)
  obtain h1' where h1':
    "rehash_chain ?b ?d = Some (?d\<lparr>ht0 := (ht0 d)\<lparr>ht_used := ht_used (ht0 d) - length ?b\<rparr>, ht1 := h1'\<rparr>)"
    "ht_live (dictHashKey d) h1'" "ht_size h1' = ht_size (ht1 d)"
    "mset (ht_entries h1') = mset ?b + mset (ht_entries (ht1 d))"
    using rehash_chain_spec [of ?d ?b] live1 len by auto
  let ?h0 = "(ht0 d)\<lparr>ht_table := (ht_table (ht0 d))[i := []], ht_used := ht_used (ht0 d) - length ?b\<rparr>"
  let ?d2 = "d\<lparr>ht0 := ?h0, ht1 := h1', rehashidx := int i + 1\<rparr>"
  have live0': "ht_live (dictHashKey d) ?h0"
    by (rule ht_live_set_bucket [OF live0 i])
      (simp_all add: ht_live_used [OF live0] ht_entries_def length_concat_clear [OF i])
  have "mset (ht_entries ?h0) + mset ?b = mset (ht_entries (ht0 d))"
    using mset_concat_update [OF i, of "[]"] by (simp add: ht_entries_def)
  then have content: "mset (dict_entries ?d2) = mset (dict_entries d)"
    using h1'(4) by (simp add: dict_entries_def ac_simps)
  have "(ht_table (ht0 d))[i := []] ! l = []" if "l < i + 1" for l
    using that below i by (cases "l = i") auto
  then have wf2: "dict_wf ?d2"
    unfolding dict_wf_def
    using dict_wfD(1) [OF wf] live0' h1'(2) dict_map_mset(2) [OF wf _ content]
    by (auto simp: dictIsRehashing_def)
  show ?thesis
    using wf2 h1'(1,3) i content
    by (auto simp: Let_def same_content_def dictIsRehashing_def dict_upd_commute)
qed

lemma used0_nonempty_bucket:
  assumes "dict_wf d" and "dictIsRehashing d" and "ht_used (ht0 d) \<noteq> 0"
  shows "\<exists>j. nat (rehashidx d) \<le> j \<and> j < length (ht_table (ht0 d)) \<and> ht_table (ht0 d) ! j \<noteq> []"
proof -
  have "concat (ht_table (ht0 d)) \<noteq> []"
    using assms ht_live_used [OF dict_wfD(5) [OF assms(1,2)]] by (auto simp: ht_entries_def)
  then obtain j where j: "j < length (ht_table (ht0 d))" "ht_table (ht0 d) ! j \<noteq> []"
    by (metis concat_eq_Nil_conv in_set_conv_nth)
  then have "\<not> int j < rehashidx d" using dict_wfD(7) [OF assms(1,2)] by blast
  then have "nat (rehashidx d) \<le> j" by simp
  with j show ?thesis by blast
qed

lemma dict_wf_rehashidx:
  assumes "dict_wf d" and "dictIsRehashing d" and "rehashidx d \<le> int i"
    and "\<forall>l. nat (rehashidx d) \<le> l \<and> l < i \<longrightarrow> ht_table (ht0 d) ! l = []"
  shows "dict_wf (d\<lparr>rehashidx := int i\<rparr>)"
    and "l < i \<Longrightarrow> i \<le> length (ht_table (ht0 d)) \<Longrightarrow> ht_table (ht0 d) ! l = []"
proof -
  have *: "ht_table (ht0 d) ! l = []" if "l < i" "l < length (ht_table (ht0 d))" for l
    using that assms(4) dict_wfD(4,7) [OF assms(1,2)] by (cases "int l < rehashidx d") auto
  then show "l < i \<Longrightarrow> i \<le> length (ht_table (ht0 d)) \<Longrightarrow> ht_table (ht0 d) ! l = []"
    by simp
  show "dict_wf (d\<lparr>rehashidx := int i\<rparr>)"
    using dict_wfD [OF assms(1)] assms(2,3) *
    by (auto simp: dict_wf_def dictIsRehashing_def dict_entries_def)
qed

lemma finish_rehash_spec:
  assumes "dict_wf d" and "dictIsRehashing d" and "finish_rehash d = (r, d')"
  shows "dict_wf d' \<and> same_content d d' \<and> (r = 1 \<longrightarrow> d' = d) \<and> (r = 0 \<longrightarrow> \<not> dictIsRehashing d')
    \<and> (r = 0 \<or> r = 1)"
proof (cases "ht_used (ht0 d) = 0")
  case True
  then have d': "d' = d\<lparr>ht0 := ht1 d, ht1 := dictReset, rehashidx := -1\<rparr>" "r = 0"
    using assms(3) by (simp_all add: finish_rehash_def)
  have "ht_entries (ht0 d) = []"
    using True ht_live_used [OF dict_wfD(5) [OF assms(1,2)]] by simp
  then have sc: "mset (dict_entries d') = mset (dict_entries d)"
    by (simp add: d' dict_entries_def)
  have "dict_wf d'"
    unfolding dict_wf_def
    using dict_wfD(1,6) [OF assms(1)] assms(2) dict_map_mset(2) [OF assms(1) _ sc]
    by (simp add: d' dictIsRehashing_def)
  then show ?thesis
    using sc d' ht_live_nonempty [OF dict_wfD(6) [OF assms(1,2)]]
    by (simp add: same_content_def dictIsRehashing_def)
next
  case False
  then show ?thesis using assms by (simp add: finish_rehash_def)
qed

text \<open>
  What a call returns: 0 when the rehashing is over, 1 when there is more to do; then the
  index has advanced when at least one step was asked for.
\<close>

definition rehash_post :: "nat \<Rightarrow> ('k, 'v) dict \<Rightarrow> int \<Rightarrow> ('k, 'v) dict \<Rightarrow> bool" where
  "rehash_post n d r d' \<longleftrightarrow> dict_wf d' \<and> same_content d d' \<and> (r = 0 \<or> r = 1)
     \<and> (r = 0 \<longrightarrow> \<not> dictIsRehashing d')
     \<and> (r = 1 \<longrightarrow> dictIsRehashing d' \<and> rehashidx d \<le> rehashidx d'
          \<and> (0 < n \<longrightarrow> rehashidx d < rehashidx d')
          \<and> rehashidx d' \<le> int (ht_size (ht0 d))
          \<and> ht_size (ht0 d') = ht_size (ht0 d) \<and> ht_size (ht1 d') = ht_size (ht1 d))"

lemma rehashidx_bound:
  assumes "dict_wf d" and "dictIsRehashing d" and "ht_used (ht0 d) \<noteq> 0"
  shows "nat (rehashidx d) < ht_size (ht0 d)"
  using used0_nonempty_bucket [OF assms] ht_live_size [OF dict_wfD(5) [OF assms(1,2)]] by auto

lemma rehash_post_finish:
  assumes "dict_wf d" and "dictIsRehashing d" and "n = 0 \<or> ht_used (ht0 d) = 0"
  shows "\<exists>r d'. finish_rehash d = (r, d') \<and> rehash_post n d r d'"
proof -
  obtain r d' where f: "finish_rehash d = (r, d')" by fastforce
  have "ht_used (ht0 d) \<noteq> 0 \<and> n = 0" if "r = 1"
    using that f assms(3) by (auto simp: finish_rehash_def split: if_splits)
  then have "nat (rehashidx d) < ht_size (ht0 d) \<and> n = 0" if "r = 1"
    using that rehashidx_bound [OF assms(1,2)] by blast
  with finish_rehash_spec [OF assms(1,2) f] f show ?thesis
    using assms(2) by (auto simp: rehash_post_def)
qed

lemma rehash_post_step:
  assumes "same_content d d2" and "rehashidx d < rehashidx d2"
    and "ht_size (ht0 d2) = ht_size (ht0 d)" and "ht_size (ht1 d2) = ht_size (ht1 d)"
    and "rehash_post n d2 r d'"
  shows "rehash_post (Suc n) d r d'"
  using assms by (auto simp: rehash_post_def intro: same_content_trans)

lemma dictRehash_loop_spec:
  assumes "dict_wf d" and "dictIsRehashing d" and "0 < visits"
  shows "\<exists>r d'. dictRehash_loop n visits d = Some (r, d') \<and> rehash_post n d r d'"
  using assms
proof (induction n visits d rule: dictRehash_loop.induct)
  case (1 visits d)
  then show ?case using rehash_post_finish [of d 0] by auto
next
  case (2 n visits d)
  note wf = "2.prems"(1) and re = "2.prems"(2)
  show ?case
  proof (cases "ht_used (ht0 d) = 0")
    case True
    then show ?thesis using rehash_post_finish [OF wf re, of "Suc n"] by auto
  next
    case used: False
    note guard = rehashidx_bound [OF wf re used] and idx = dict_wfD(4) [OF wf re]
    note sz = ht_live_size [OF dict_wfD(5) [OF wf re]]
    from skip_empty_spec [OF used0_nonempty_bucket [OF wf re used] "2.prems"(3)]
    obtain res where res: "skip_empty (ht_table (ht0 d)) (nat (rehashidx d)) visits = Some res"
      "case res of
         Found j v \<Rightarrow> nat (rehashidx d) \<le> j \<and> j < length (ht_table (ht0 d)) \<and> ht_table (ht0 d) ! j \<noteq> []
            \<and> 0 < v \<and> (\<forall>l. nat (rehashidx d) \<le> l \<and> l < j \<longrightarrow> ht_table (ht0 d) ! l = [])
       | Exhausted j \<Rightarrow> nat (rehashidx d) < j
            \<and> (\<forall>l. nat (rehashidx d) \<le> l \<and> l < j \<longrightarrow> ht_table (ht0 d) ! l = [])
            \<and> (\<exists>l. j \<le> l \<and> l < length (ht_table (ht0 d)) \<and> ht_table (ht0 d) ! l \<noteq> [])"
      by blast
    show ?thesis
    proof (cases res)
      case (Exhausted j)
      with res idx sz have j: "rehashidx d < int j" "int j \<le> int (ht_size (ht0 d))"
        "\<forall>l. nat (rehashidx d) \<le> l \<and> l < j \<longrightarrow> ht_table (ht0 d) ! l = []"
        by auto
      from dict_wf_rehashidx(1) [OF wf re less_imp_le [OF j(1)] j(3)] show ?thesis
        using res(1) Exhausted used guard j
        by (simp add: rehash_post_def same_content_def dict_entries_def dictIsRehashing_def)
    next
      case (Found j v)
      with res idx have j: "rehashidx d \<le> int j" "j < length (ht_table (ht0 d))" "0 < v"
        "\<forall>l. nat (rehashidx d) \<le> l \<and> l < j \<longrightarrow> ht_table (ht0 d) ! l = []"
        by auto
      have below: "\<forall>l < j. ht_table (ht0 d) ! l = []"
        using dict_wf_rehashidx(2) [OF wf re j(1,4)] j(2) by auto
      from rehash_bucket [OF wf re j(2) below] obtain d1 t0 d2 where d1:
        "rehash_chain (ht_table (ht0 d) ! j) (d\<lparr>rehashidx := int j\<rparr>) = Some d1"
        "set_at (ht_table (ht0 d1)) j [] = Some t0"
        "d2 = d1\<lparr>ht0 := (ht0 d1)\<lparr>ht_table := t0\<rparr>, rehashidx := int j + 1\<rparr>"
        and d2: "dict_wf d2" "dictIsRehashing d2" "same_content d d2"
          "ht_size (ht0 d2) = ht_size (ht0 d)" "ht_size (ht1 d2) = ht_size (ht1 d)"
        by (auto simp: Let_def)
      have "\<exists>r d'. dictRehash_loop n v d2 = Some (r, d') \<and> rehash_post n d2 r d'"
        unfolding d1(3)
        by (rule "2.IH" [OF used _ res(1) Found d1(1,2) d2(1,2) [unfolded d1(3)] j(3)])
          (use guard in simp)
      moreover have "dictRehash_loop (Suc n) visits d = dictRehash_loop n v d2"
        using used guard res(1) Found d1 by simp
      moreover have "rehashidx d < rehashidx d2" using j(1) d1(3) by simp
      ultimately show ?thesis using rehash_post_step [OF d2(3) _ d2(4,5)] by auto
    qed
  qed
qed

lemma dictRehash_spec:
  assumes "dict_wf d" and "0 < n"
  shows "\<exists>r d'. dictRehash env d n = Some (r, d') \<and> dict_wf d' \<and> same_content d d'
    \<and> (\<not> g_IsForkedProcess env \<longrightarrow> dictIsRehashing d \<longrightarrow> rehash_post n d r d')"
  using dictRehash_loop_spec [OF assms(1), of "n * 10" n] assms
  by (auto simp: dictRehash_def rehash_post_def)

lemma rehash_if_needed_spec:
  assumes "dict_wf d"
  shows "\<exists>d'. rehash_if_needed env d = Some d' \<and> dict_wf d' \<and> same_content d d'"
  using dictRehash_spec [OF assms, of 1 env] assms
  by (auto simp: rehash_if_needed_def dictRehashStep_def)

text \<open>The part of a rehashing that is left.\<close>

definition rehash_left :: "('k, 'v) dict \<Rightarrow> nat" where
  "rehash_left d = (if dictIsRehashing d then nat (int (ht_size (ht0 d)) - rehashidx d) + 1 else 0)"

lemma rehash_post_left:
  assumes "rehash_post n d 1 d'" and "0 < n" and "dictIsRehashing d"
  shows "rehash_left d' < rehash_left d"
  using assms by (auto simp: rehash_post_def rehash_left_def)

text \<open>
  \<open>dictRehashMilliseconds\<close>: batches of 100 steps until the rehashing is over or the time
  is up. The readings of the clock are the function \<open>clock\<close>; reading 0 is the start.
\<close>

partial_function (option) rehashMilliseconds_loop ::
  "dict_env \<Rightarrow> (nat \<Rightarrow> int) \<Rightarrow> int \<Rightarrow> nat \<Rightarrow> int \<Rightarrow> ('k, 'v) dict \<Rightarrow> (int \<times> ('k, 'v) dict) option" where
  "rehashMilliseconds_loop env clock ms i rehashes d = do {
     (r, d1) \<leftarrow> dictRehash env d 100;
     if r = 0 then Some (rehashes, d1)
     else if clock i - clock 0 > ms then Some (rehashes + 100, d1)
     else rehashMilliseconds_loop env clock ms (i + 1) (rehashes + 100) d1 }"

definition dictRehashMilliseconds ::
  "dict_env \<Rightarrow> (nat \<Rightarrow> int) \<Rightarrow> ('k, 'v) dict \<Rightarrow> int \<Rightarrow> (int \<times> ('k, 'v) dict) option" where
  "dictRehashMilliseconds env clock d ms = rehashMilliseconds_loop env clock ms 1 0 d"

lemma rehashMilliseconds_loop_spec:
  assumes "dict_wf d"
  shows "\<exists>n d'. rehashMilliseconds_loop env clock ms i m d = Some (n, d') \<and> dict_wf d' \<and> same_content d d'"
  using assms
proof (induction "rehash_left d" arbitrary: d i m rule: less_induct)
  case less
  obtain r d1 where d1: "dictRehash env d 100 = Some (r, d1)" "dict_wf d1" "same_content d d1"
    and post: "\<not> g_IsForkedProcess env \<longrightarrow> dictIsRehashing d \<longrightarrow> rehash_post 100 d r d1"
    using dictRehash_spec [OF less.prems, of 100 env] by auto
  show ?case
  proof (cases "r = 0 \<or> clock i - clock 0 > ms")
    case True
    with d1 show ?thesis by (subst rehashMilliseconds_loop.simps) auto
  next
    case False
    with d1(1) have re: "\<not> g_IsForkedProcess env" "dictIsRehashing d"
      by (auto simp: dictRehash_def split: if_splits)
    with post False have "rehash_post 100 d 1 d1" by (auto simp: rehash_post_def)
    from rehash_post_left [OF this _ re(2)] have "rehash_left d1 < rehash_left d" by simp
    from less.hyps [OF this d1(2), of "i + 1" "m + 100"] obtain n d' where
      "rehashMilliseconds_loop env clock ms (i + 1) (m + 100) d1 = Some (n, d')"
      "dict_wf d'" "same_content d1 d'" by blast
    with False d1(1,3) show ?thesis
      by (subst rehashMilliseconds_loop.simps) (auto intro: same_content_trans)
  qed
qed

text \<open>Repeated single steps, as the operations make them when no iterator is active.\<close>

fun rehash_steps :: "dict_env \<Rightarrow> nat \<Rightarrow> ('k, 'v) dict \<Rightarrow> ('k, 'v) dict option" where
  "rehash_steps env 0 d = Some d"
| "rehash_steps env (Suc m) d = do { d1 \<leftarrow> rehash_if_needed env d; rehash_steps env m d1 }"

lemma rehash_if_needed_left:
  assumes "dict_wf d" and "\<not> g_IsForkedProcess env" and "iterators d = 0"
  shows "\<exists>d'. rehash_if_needed env d = Some d' \<and> dict_wf d' \<and> same_content d d'
    \<and> rehash_left d' \<le> rehash_left d - 1"
proof (cases "dictIsRehashing d")
  case False
  then show ?thesis using assms(1) by (simp add: rehash_if_needed_def rehash_left_def)
next
  case True
  obtain r d' where d': "dictRehash env d 1 = Some (r, d')" "dict_wf d'" "same_content d d'"
    "rehash_post 1 d r d'"
    using dictRehash_spec [OF assms(1), of 1 env] assms(2) True by auto
  have "rehash_left d' < rehash_left d"
  proof (cases "r = 1")
    case r: True
    from rehash_post_left [OF d'(4) [unfolded r] _ True] show ?thesis by simp
  next
    case False
    with d'(4) have "\<not> dictIsRehashing d'" by (auto simp: rehash_post_def)
    with True show ?thesis by (simp add: rehash_left_def)
  qed
  with d' True assms(3) show ?thesis
    by (auto simp: rehash_if_needed_def dictRehashStep_def)
qed

lemma rehash_steps_left:
  assumes "dict_wf d" and "\<not> g_IsForkedProcess env" and "iterators d = 0"
  shows "\<exists>d'. rehash_steps env m d = Some d' \<and> dict_wf d' \<and> same_content d d'
    \<and> rehash_left d' \<le> rehash_left d - m"
  using assms
proof (induction m arbitrary: d)
  case (Suc m)
  obtain d1 where d1: "rehash_if_needed env d = Some d1" "dict_wf d1" "same_content d d1"
    "rehash_left d1 \<le> rehash_left d - 1"
    using rehash_if_needed_left [OF Suc.prems] by blast
  then have "iterators d1 = 0" using Suc.prems(3) by (simp add: same_content_def)
  from Suc.IH [OF d1(2) Suc.prems(2) this] d1 show ?case
    by (auto intro: same_content_trans)
qed simp

section \<open>A dictionary in the middle of a rehashing\<close>

text \<open>
  Natural numbers that hash to themselves; four buckets being moved to eight, the first
  bucket already moved. It instantiates the hypotheses of the theorems below.
\<close>

definition nat_dictType :: "(nat, string) dictType" where
  "nat_dictType = \<lparr>hashFunction = of_nat, keyDup = None, valDup = None, keyCompare = None\<rparr>"

definition ex_dict :: "(nat, string) dict" where
  "ex_dict = \<lparr>dtype = nat_dictType,
     ht0 = \<lparr>ht_table = [[], [(5, ''five''), (1, ''one'')], [], [(7, ''seven'')]],
            ht_size = 4, ht_sizemask = 3, ht_used = 3\<rparr>,
     ht1 = \<lparr>ht_table = [[], [], [], [], [(4, ''four'')], [], [], []],
            ht_size = 8, ht_sizemask = 7, ht_used = 1\<rparr>,
     rehashidx = 1, iterators = 0\<rparr>"

definition ex_env :: dict_env where
  "ex_env = \<lparr>dict_can_resize = True, dict_force_resize_ratio = 5, g_IsForkedProcess = False\<rparr>"

interpretation nat_key: key_type "of_nat :: nat \<Rightarrow> u32" "(=)" id
  by unfold_locales (auto simp: identity_equivp)

lemma nat_dictType_ok: "dictType_ok nat_dictType"
  by (simp add: dictType_ok_def nat_dictType_def nat_key.key_type_axioms)

lemma ht_liveI:
  assumes "ht_size h = 2 ^ n" and "ht_sizemask h = 2 ^ n - 1" and "length (ht_table h) = 2 ^ n"
    and "ht_used h = length (concat (ht_table h))"
    and "list_all (\<lambda>(i, b). list_all (\<lambda>e. hk (fst e) AND ht_sizemask h = i) b) (enumerate 0 (ht_table h))"
  shows "ht_live hk h"
proof -
  have "hk (fst e) AND ht_sizemask h = i" if "i < length (ht_table h)" "e \<in> set (ht_table h ! i)" for i e
  proof -
    have "(i, ht_table h ! i) \<in> set (enumerate 0 (ht_table h))"
      using that(1) by (simp add: in_set_enumerate_eq)
    with assms(5) that(2) show ?thesis by (fastforce simp: list_all_iff)
  qed
  then show ?thesis unfolding ht_live_def ht_entries_def using assms(1-4) by blast
qed

lemma distinct_key_classes:
  "distinct (map fst es) \<Longrightarrow> distinct (map (\<lambda>e. (=) (fst e)) es)"
  by (auto simp: distinct_map inj_on_def dest: fun_cong)

lemma ex_dict_live:
  "ht_live (dictHashKey ex_dict) (ht0 ex_dict)"
  "ht_live (dictHashKey ex_dict) (ht1 ex_dict)"
  by (rule ht_liveI [where n = 2], simp_all add: ex_dict_def dictHashKey_def nat_dictType_def)
    (rule ht_liveI [where n = 3], simp_all add: ex_dict_def dictHashKey_def nat_dictType_def)

lemma ex_dict_wf: "dict_wf ex_dict"
proof -
  have "\<forall>i < length (ht_table (ht0 ex_dict)). int i < rehashidx ex_dict \<longrightarrow> ht_table (ht0 ex_dict) ! i = []"
    by (auto simp: ex_dict_def)
  moreover have "dictType_ok (dtype ex_dict)" "dictIsRehashing ex_dict" "0 \<le> rehashidx ex_dict"
    using nat_dictType_ok by (simp_all add: ex_dict_def dictIsRehashing_def)
  moreover have "dictCompareKeys ex_dict = (=)"
    by (auto simp: dictCompareKeys_def ex_dict_def nat_dictType_def fun_eq_iff)
  moreover have "distinct (map fst (dict_entries ex_dict))"
    by (simp add: ex_dict_def dict_entries_def ht_entries_def)
  ultimately show ?thesis
    using ex_dict_live distinct_key_classes by (simp add: dict_wf_def)
qed

section \<open>Properties\<close>



text \<open>
  C33: \<open>dictRehashMilliseconds\<close> returns for every clock, and the dictionary still stands
  for the same map.
\<close>

theorem dictRehashMilliseconds_terminates:
  assumes "dict_wf d"
  shows "\<exists>n d'. dictRehashMilliseconds env clock d ms = Some (n, d')
    \<and> dict_wf d' \<and> dict_map d' = dict_map d"
  using rehashMilliseconds_loop_spec [OF assms] same_content_map [OF assms]
  unfolding dictRehashMilliseconds_def by blast

theorem dictRehashMilliseconds_terminates_witness:
  "\<exists>n d'. dictRehashMilliseconds ex_env (\<lambda>_. 0) ex_dict 1 = Some (n, d')
    \<and> dict_wf d' \<and> dict_map d' = dict_map ex_dict"
  by (rule dictRehashMilliseconds_terminates [OF ex_dict_wf])

text \<open>
  While no iterator is active, at most as many rehashing steps as \<open>ht[0]\<close> has buckets,
  plus one, complete a rehashing that is under way.
\<close>

theorem rehash_completes:
  assumes "dict_wf d" and "\<not> g_IsForkedProcess env" and "iterators d = 0"
  shows "\<exists>d'. rehash_steps env (ht_size (ht0 d) + 1) d = Some d' \<and> dict_wf d'
    \<and> \<not> dictIsRehashing d' \<and> dict_map d' = dict_map d"
proof -
  obtain d' where d': "rehash_steps env (ht_size (ht0 d) + 1) d = Some d'" "dict_wf d'"
    "same_content d d'" "rehash_left d' \<le> rehash_left d - (ht_size (ht0 d) + 1)"
    using rehash_steps_left [OF assms] by blast
  have "rehash_left d \<le> ht_size (ht0 d) + 1"
    using dict_wfD(4) [OF assms(1)] by (auto simp: rehash_left_def)
  with d'(4) have "rehash_left d' = 0" by simp
  then have "\<not> dictIsRehashing d'" by (simp add: rehash_left_def split: if_splits)
  with d' show ?thesis using same_content_map [OF assms(1)] by blast
qed

theorem rehash_completes_witness:
  "\<exists>d'. rehash_steps ex_env (ht_size (ht0 ex_dict) + 1) ex_dict = Some d' \<and> dict_wf d'
    \<and> \<not> dictIsRehashing d' \<and> dict_map d' = dict_map ex_dict"
  by (rule rehash_completes [OF ex_dict_wf]) (simp_all add: ex_env_def ex_dict_def)

end
