(* ===== verification/Dict_Ops.thy ===== *)
theory Dict_Ops
  imports Dict_Rehash
begin

text \<open>
  Lookup, insertion, replacement and deletion of \<^verbatim>\<open>dict.c\<close> against the finite map a
  dictionary stands for, in every state of an incremental rehashing; resizing to powers of
  two; and the interface the rest of the server relies on.
\<close>

section \<open>How the map changes with the entries\<close>

lemma dict_wf_key_type:
  "dict_wf d \<Longrightarrow> key_type (hashFunction (dtype d)) (dictCompareKeys d) (dup_key d)"
  by (rule dictType_ok_key_type [OF dict_wfD(1)])

lemma dict_map_add_entry:
  assumes "dict_wf d'" and "dtype d' = dtype d"
    and "mset (dict_entries d') = add_mset e (mset (dict_entries d))"
  shows "dict_map d' k = (if dictCompareKeys d k (fst e) then Some (snd e) else dict_map d k)"
proof -
  have eq: "dictCompareKeys d' = dictCompareKeys d"
    by (rule dictCompareKeys_cong [OF assms(2)])
  have "find (\<lambda>x. dictCompareKeys d' k (fst x)) (dict_entries d')
      = find (\<lambda>x. dictCompareKeys d' k (fst x)) (e # dict_entries d)"
    by (rule key_type.find_mset_eq [OF dict_wf_key_type [OF assms(1)] dict_wfD(3) [OF assms(1)]])
      (simp add: assms(3))
  then show ?thesis by (simp add: dict_map_def eq)
qed

lemma dict_map_remove_entry:
  assumes "dict_wf d" and "dtype d' = dtype d"
    and "mset (dict_entries d) = add_mset e (mset (dict_entries d'))"
  shows "dict_map d' k = (if dictCompareKeys d k (fst e) then None else dict_map d k)"
proof -
  have eq: "dictCompareKeys d' = dictCompareKeys d"
    by (rule dictCompareKeys_cong [OF assms(2)])
  have "dict_map d k = (if dictCompareKeys d' k (fst e) then Some (snd e) else dict_map d' k)"
    by (rule dict_map_add_entry [OF assms(1) assms(2) [symmetric] assms(3)])
  moreover have "dict_map d' k = None" if "dictCompareKeys d k (fst e)"
  proof -
    have "distinct (map (\<lambda>x. dictCompareKeys d (fst x)) (e # dict_entries d'))"
      using dict_wfD(3) [OF assms(1)] assms(3)
      by (metis mset.simps(2) mset_eq_imp_distinct_iff mset_map)
    then have "dictCompareKeys d (fst x) \<noteq> dictCompareKeys d (fst e)" if "x \<in> set (dict_entries d')" for x
      using that by (force simp: image_iff)
    then show ?thesis
      unfolding dict_map_None eq
      using that key_type.eq_iff [OF dict_wf_key_type [OF assms(1)]] by metis
  qed
  ultimately show ?thesis by (simp add: eq)
qed

section \<open>Replacing one bucket\<close>

definition valid_table :: "('k, 'v) dict \<Rightarrow> nat \<Rightarrow> bool" where
  "valid_table d t \<longleftrightarrow> ht_live (dictHashKey d) (ht_of d t) \<and> (t = 0 \<or> t = 1 \<and> dictIsRehashing d)"

definition with_bucket :: "('k, 'v) dict \<Rightarrow> nat \<Rightarrow> nat \<Rightarrow> ('k, 'v) dictEntry list \<Rightarrow> nat \<Rightarrow> ('k, 'v) dict" where
  "with_bucket d t i b u =
     set_ht d t ((ht_of d t)\<lparr>ht_table := (ht_table (ht_of d t))[i := b], ht_used := u\<rparr>)"

lemma with_bucket_simps [simp]:
  "dtype (with_bucket d t i b u) = dtype d"
  "rehashidx (with_bucket d t i b u) = rehashidx d"
  "iterators (with_bucket d t i b u) = iterators d"
  "dictIsRehashing (with_bucket d t i b u) = dictIsRehashing d"
  "dictCompareKeys (with_bucket d t i b u) = dictCompareKeys d"
  "dictHashKey (with_bucket d t i b u) = dictHashKey d"
  "ht_size (ht0 (with_bucket d t i b u)) = ht_size (ht0 d)"
  "ht_size (ht1 (with_bucket d t i b u)) = ht_size (ht1 d)"
  by (auto simp: with_bucket_def set_ht_def dictIsRehashing_def dup_key_def ht_of_def
      intro!: dictCompareKeys_cong dictHashKey_cong)

lemma mset_with_bucket:
  assumes "i < length (ht_table (ht_of d t))"
  shows "mset (dict_entries (with_bucket d t i b u)) + mset (ht_table (ht_of d t) ! i)
       = mset (dict_entries d) + mset b"
  using mset_concat_update [OF assms, of b]
  by (auto simp: with_bucket_def set_ht_def ht_of_def dict_entries_def ht_entries_def ac_simps)

lemma dict_wf_with_bucket:
  assumes wf: "dict_wf d" and vt: "valid_table d t" and i: "i < length (ht_table (ht_of d t))"
    and hash: "\<forall>e \<in> set b. dictHashKey d (fst e) AND ht_sizemask (ht_of d t) = i"
    and used: "u = length (concat ((ht_table (ht_of d t))[i := b]))"
    and empty: "t = 0 \<Longrightarrow> dictIsRehashing d \<Longrightarrow> ht_table (ht0 d) ! i = [] \<Longrightarrow> b = []"
    and dist: "distinct (map (\<lambda>e. dictCompareKeys d (fst e)) (dict_entries (with_bucket d t i b u)))"
  shows "dict_wf (with_bucket d t i b u)"
proof -
  let ?h = "(ht_of d t)\<lparr>ht_table := (ht_table (ht_of d t))[i := b], ht_used := u\<rparr>"
  have live: "ht_live (dictHashKey d) ?h"
    by (rule ht_live_set_bucket [OF _ i hash used]) (use vt in \<open>simp add: valid_table_def\<close>)
  have h: "ht0 (with_bucket d t i b u) = (if t = 0 then ?h else ht0 d)"
    "ht1 (with_bucket d t i b u) = (if t = 0 then ht1 d else ?h)"
    by (simp_all add: with_bucket_def set_ht_def)
  have "ht_table (ht0 (with_bucket d t i b u)) ! l = []"
    if "dictIsRehashing d" "l < length (ht_table (ht0 d))" "int l < rehashidx d" for l
    using dict_wfD(7) [OF wf that] empty that i
    by (auto simp: h ht_of_def nth_list_update)
  then show ?thesis
    unfolding dict_wf_def
    using dict_wfD [OF wf] live vt dist
    by (auto simp: h valid_table_def ht_of_def)
qed

lemma valid_table_0: "dict_wf d \<Longrightarrow> ht_size (ht0 d) \<noteq> 0 \<Longrightarrow> valid_table d 0"
  using dict_wfD(2) by (fastforce simp: valid_table_def ht_of_def)

lemma valid_table_1: "dict_wf d \<Longrightarrow> dictIsRehashing d \<Longrightarrow> valid_table d 1"
  using dict_wfD(6) by (simp add: valid_table_def ht_of_def)

section \<open>Lookup\<close>

text \<open>A place that holds an entry with this key.\<close>

definition holds :: "('k, 'v) dict \<Rightarrow> entry_ref \<Rightarrow> 'k \<Rightarrow> bool" where
  "holds d r k = (case r of (t, i, p) \<Rightarrow> valid_table d t
     \<and> i < length (ht_table (ht_of d t)) \<and> p < length (ht_table (ht_of d t) ! i)
     \<and> dictCompareKeys d k (fst (ht_table (ht_of d t) ! i ! p)))"

lemma find_in_table_spec:
  assumes "dict_wf d" and "valid_table d t"
  shows "\<exists>r. find_in_table d t k = Some r
    \<and> (r = None \<longrightarrow> (\<forall>e \<in> set (ht_entries (ht_of d t)). \<not> dictCompareKeys d k (fst e)))
    \<and> (\<forall>ref. r = Some ref \<longrightarrow> holds d ref k)"
proof -
  let ?idx = "dictHashKey d k AND ht_sizemask (ht_of d t)"
  have live: "ht_live (dictHashKey d) (ht_of d t)" using assms(2) by (simp add: valid_table_def)
  have idx: "?idx < length (ht_table (ht_of d t))" by (rule ht_live_idx [OF live])
  note kt = dict_wf_key_type [OF assms(1)]
  have hash: "dictHashKey d k = dictHashKey d k'" if "dictCompareKeys d k k'" for k'
    using key_type.eq_hash [OF kt that] by (simp add: dictHashKey_def)
  have "\<not> dictCompareKeys d k (fst e)"
    if "e \<in> set (ht_entries (ht_of d t))" "chain_find (dictCompareKeys d k) (ht_table (ht_of d t) ! ?idx) = None" for e
    using ht_live_entry [OF live that(1)] that(2) hash
    by (auto simp: key_type.chain_find_None [OF kt])
  moreover have "holds d (t, ?idx, p) k"
    if "chain_find (dictCompareKeys d k) (ht_table (ht_of d t) ! ?idx) = Some p" for p
    using key_type.chain_find_Some [OF kt that] idx assms(2) by (simp add: holds_def)
  ultimately show ?thesis
    using idx by (auto simp: find_in_table_def Let_def)
qed

lemma find_in_tables_spec:
  assumes "dict_wf d" and "ht_size (ht0 d) \<noteq> 0"
  shows "\<exists>r. find_in_tables d k = Some r
    \<and> (r = None \<longrightarrow> dict_map d k = None) \<and> (\<forall>ref. r = Some ref \<longrightarrow> holds d ref k)"
proof -
  have h: "ht_of d 0 = ht0 d" "ht_of d 1 = ht1 d" by (simp_all add: ht_of_def)
  obtain r0 where r0: "find_in_table d 0 k = Some r0"
    "r0 = None \<longrightarrow> (\<forall>e \<in> set (ht_entries (ht0 d)). \<not> dictCompareKeys d k (fst e))"
    "\<forall>ref. r0 = Some ref \<longrightarrow> holds d ref k"
    using find_in_table_spec [OF assms(1) valid_table_0 [OF assms], of k] unfolding h by blast
  show ?thesis
  proof (cases r0)
    case (Some ref)
    then show ?thesis using r0 by (auto simp: find_in_tables_def)
  next
    case None
    show ?thesis
    proof (cases "dictIsRehashing d")
      case False
      then have "ht_entries (ht1 d) = []" using dict_wfD(8) [OF assms(1)] by simp
      then show ?thesis using r0 None False
        by (auto simp: find_in_tables_def dict_map_None dict_entries_def)
    next
      case True
      obtain r1 where "find_in_table d 1 k = Some r1"
        "r1 = None \<longrightarrow> (\<forall>e \<in> set (ht_entries (ht1 d)). \<not> dictCompareKeys d k (fst e))"
        "\<forall>ref. r1 = Some ref \<longrightarrow> holds d ref k"
        using find_in_table_spec [OF assms(1) valid_table_1 [OF assms(1) True], of k]
        unfolding h by blast
      then show ?thesis using r0 None True
        by (auto simp: find_in_tables_def dict_map_None dict_entries_def)
    qed
  qed
qed

lemma holds_entry:
  assumes "dict_wf d" and "holds d r k"
  shows "\<exists>e. entry_at d r = Some e \<and> e \<in> set (dict_entries d) \<and> dictCompareKeys d k (fst e)
    \<and> dict_map d k = Some (snd e)"
proof -
  obtain t i p where r: "r = (t, i, p)" by (cases r) auto
  let ?e = "ht_table (ht_of d t) ! i ! p"
  have "?e \<in> set (ht_entries (ht_of d t))"
    using assms(2) nth_concat_mem [of i "ht_table (ht_of d t)" ?e]
    by (auto simp: r holds_def ht_entries_def simp del: set_concat)
  then have "?e \<in> set (dict_entries d)"
    by (auto simp: dict_entries_def ht_of_def split: if_splits)
  then show ?thesis
    using assms dict_map_Some [OF assms(1)] by (auto simp: r holds_def entry_at_def)
qed

lemma dictFind_spec:
  assumes "dict_wf d"
  shows "\<exists>r d'. dictFind env d k = Some (r, d') \<and> dict_wf d' \<and> same_content d d'
    \<and> (r = None \<longrightarrow> dict_map d' k = None) \<and> (\<forall>ref. r = Some ref \<longrightarrow> holds d' ref k)"
proof (cases "ht_size (ht0 d) = 0")
  case True
  then have "ht0 d = dictReset" using dict_wfD(2) [OF assms] ht_live_nonempty by fastforce
  moreover from this have "\<not> dictIsRehashing d"
    using dict_wfD(5) [OF assms] ht_live_nonempty by fastforce
  ultimately have "dict_entries d = []"
    using dict_wfD(8) [OF assms] by (simp add: dict_entries_def)
  then show ?thesis using True assms by (simp add: dictFind_def dict_map_def)
next
  case False
  obtain d' where d': "rehash_if_needed env d = Some d'" "dict_wf d'" "same_content d d'"
    using rehash_if_needed_spec [OF assms] by blast
  with False have "ht_size (ht0 d') \<noteq> 0" by (simp add: same_content_def)
  from find_in_tables_spec [OF d'(2) this, of k] d' False show ?thesis
    by (auto simp: dictFind_def)
qed

section \<open>Writing a value, unlinking an entry\<close>

text \<open>
  Exchanging the entries \<open>Y\<close> of one bucket for the entries \<open>X\<close>: what becomes of the
  contents, and when the result is well-formed.
\<close>

lemma with_bucket_content:
  assumes "i < length (ht_table (ht_of d t))" and "mset b + Y = mset (ht_table (ht_of d t) ! i) + X"
  shows "mset (dict_entries (with_bucket d t i b u)) + Y = mset (dict_entries d) + X"
proof -
  let ?b = "mset (ht_table (ht_of d t) ! i)" and ?d = "with_bucket d t i b u"
  have "(mset (dict_entries ?d) + Y) + ?b = (mset (dict_entries ?d) + ?b) + Y"
    by simp
  also have "\<dots> = mset (dict_entries d) + (mset b + Y)"
    using mset_with_bucket [OF assms(1), of b u] by simp
  also have "\<dots> = (mset (dict_entries d) + X) + ?b"
    using assms(2) by simp
  finally show ?thesis by (rule add_right_imp_eq)
qed

lemma with_bucket_used:
  assumes "ht_live hk h" and "i < length (ht_table h)" and "mset b + Y = mset (ht_table h ! i) + X"
    and "u + size Y = ht_used h + size X"
  shows "u = length (concat ((ht_table h)[i := b]))"
proof -
  have "length (concat ((ht_table h)[i := b])) + length (ht_table h ! i) = ht_used h + length b"
    using arg_cong [OF mset_concat_update [OF assms(2), of b], of size] ht_live_used [OF assms(1)]
    by (simp add: ht_entries_def)
  moreover have "length b + size Y = length (ht_table h ! i) + size X"
    using arg_cong [OF assms(3), of size] by simp
  ultimately show ?thesis using assms(4) by simp
qed

lemma ht_of_with_bucket:
  "ht_of (with_bucket d t i b u) t = (ht_of d t)\<lparr>ht_table := (ht_table (ht_of d t))[i := b], ht_used := u\<rparr>"
  by (simp add: with_bucket_def set_ht_def ht_of_def)

lemma with_bucket_dictSize:
  assumes "valid_table d t" and "u + n = ht_used (ht_of d t) + m"
  shows "dictSize (with_bucket d t i b u) + n = dictSize d + m"
  using assms by (auto simp: dictSize_def with_bucket_def set_ht_def ht_of_def)

lemma distinct_replace_key:
  assumes "distinct (map (\<lambda>e. f (fst e)) es)"
    and "mset fs + {#e#} = mset es + {#e'#}" and "fst e' = fst e"
  shows "distinct (map (\<lambda>e. f (fst e)) fs)"
proof -
  have "image_mset fst (mset fs) + {#fst e#} = image_mset fst (mset es) + {#fst e#}"
    using arg_cong [OF assms(2), of "image_mset fst"] assms(3) by simp
  then have "mset (map fst fs) = mset (map fst es)" by simp
  then have "mset (map f (map fst fs)) = mset (map f (map fst es))"
    by (simp only: mset_map)
  from mset_eq_imp_distinct_iff [OF this] assms(1) show ?thesis
    by (simp add: comp_def)
qed

lemma dictSetVal_wf:
  assumes wf: "dict_wf d" and ref: "holds d (t, i, p) k"
    and "e = ht_table (ht_of d t) ! i ! p"
  shows "\<exists>d'. dictSetVal d (t, i, p) v = Some d' \<and> dict_wf d' \<and> dtype d' = dtype d
    \<and> iterators d' = iterators d \<and> dictSize d' = dictSize d
    \<and> mset (dict_entries d') + {#e#} = mset (dict_entries d) + {#(fst e, dup_val d v)#}"
proof -
  let ?h = "ht_of d t" let ?b = "ht_table ?h ! i"
  let ?e' = "(fst e, dup_val d v)" let ?b' = "?b[p := ?e']"
  let ?d = "with_bucket d t i ?b' (ht_used ?h)"
  have vt: "valid_table d t" and i: "i < length (ht_table ?h)" and p: "p < length ?b"
    using ref by (auto simp: holds_def)
  have live: "ht_live (dictHashKey d) ?h" using vt by (simp add: valid_table_def)
  have mem: "e \<in> set ?b" using p assms(3) by simp
  have b': "mset ?b' + {#e#} = mset ?b + {#?e'#}"
    using p mem assms(3) by (simp add: mset_update)
  note ms = with_bucket_content [OF i b', of "ht_used ?h"]
  have hash: "\<forall>x \<in> set ?b'. dictHashKey d (fst x) AND ht_sizemask ?h = i"
    using ht_live_bucket [OF live i] mem set_update_subset_insert [of ?b p ?e'] by fastforce
  have "dict_wf ?d"
    by (rule dict_wf_with_bucket [OF wf vt i hash with_bucket_used [OF live i b']
          _ distinct_replace_key [OF dict_wfD(3) [OF wf] ms]])
      (use p in \<open>auto simp: ht_of_def\<close>)
  moreover have "dictSetVal d (t, i, p) v = Some ?d"
    using i p assms(3) by (auto simp: dictSetVal_def with_bucket_def)
  moreover have "dictSize ?d = dictSize d"
    using with_bucket_dictSize [OF vt, of "ht_used ?h" 0 0] by simp
  ultimately show ?thesis using ms by auto
qed

text \<open>The value stored for a key depends on the entries with that key only.\<close>

lemma dict_map_local:
  assumes "dict_wf d" and "dict_wf d'" and "dtype d' = dtype d"
    and "\<And>x. dictCompareKeys d k (fst x) \<Longrightarrow> x \<in> set (dict_entries d') \<longleftrightarrow> x \<in> set (dict_entries d)"
  shows "dict_map d' k = dict_map d k"
proof (cases "\<exists>x \<in> set (dict_entries d). dictCompareKeys d k (fst x)")
  case True
  then obtain x where x: "x \<in> set (dict_entries d)" "dictCompareKeys d k (fst x)" by blast
  then have "x \<in> set (dict_entries d')" using assms(4) by blast
  then show ?thesis
    using x dict_map_Some [OF assms(1)] dict_map_Some [OF assms(2)]
      dictCompareKeys_cong [OF assms(3)] by metis
next
  case False
  then have "dict_map d k = None" "dict_map d' k = None"
    using assms(4) dictCompareKeys_cong [OF assms(3)] by (auto simp: dict_map_None)
  then show ?thesis by simp
qed

lemma dict_map_replace_entry:
  assumes "dict_wf d" and "dict_wf d'" and "dtype d' = dtype d" and "e \<in> set (dict_entries d)"
    and "mset (dict_entries d') + {#e#} = mset (dict_entries d) + {#(fst e, v)#}"
  shows "dict_map d' k = (if dictCompareKeys d k (fst e) then Some v else dict_map d k)"
proof (cases "dictCompareKeys d k (fst e)")
  case True
  have "(fst e, v) \<in># mset (dict_entries d')"
  proof (cases "(fst e, v) = e")
    case True
    with assms(4,5) show ?thesis by simp
  next
    case False
    have "(fst e, v) \<in># mset (dict_entries d') + {#e#}" unfolding assms(5) by simp
    with False show ?thesis by auto
  qed
  then show ?thesis
    using dict_map_Some [OF assms(2), of "(fst e, v)" k] True dictCompareKeys_cong [OF assms(3)]
    by simp
next
  case False
  have "x \<in> set (dict_entries d') \<longleftrightarrow> x \<in> set (dict_entries d)" if "dictCompareKeys d k (fst x)" for x
  proof -
    have "x \<noteq> e" "x \<noteq> (fst e, v)" using that False by auto
    moreover have "x \<in># mset (dict_entries d') + {#e#} \<longleftrightarrow> x \<in># mset (dict_entries d) + {#(fst e, v)#}"
      unfolding assms(5) ..
    ultimately show ?thesis by auto
  qed
  with False show ?thesis using dict_map_local [OF assms(1,2,3)] by metis
qed

lemma dictSetVal_spec:
  assumes wf: "dict_wf d" and ref: "holds d r k"
  shows "\<exists>d' e. dictSetVal d r v = Some d' \<and> dict_wf d' \<and> dtype d' = dtype d
    \<and> iterators d' = iterators d \<and> dictSize d' = dictSize d
    \<and> entry_at d r = Some e \<and> dict_map d k = Some (snd e)
    \<and> (\<forall>k'. dict_map d' k' = (if dictCompareKeys d k' k then Some (dup_val d v) else dict_map d k'))"
proof -
  obtain t i p where r: "r = (t, i, p)" by (cases r) auto
  obtain e where e: "entry_at d r = Some e" "e \<in> set (dict_entries d)" "dictCompareKeys d k (fst e)"
    "dict_map d k = Some (snd e)"
    using holds_entry [OF wf ref] by blast
  have nth: "e = ht_table (ht_of d t) ! i ! p"
    using e(1) ref by (auto simp: r entry_at_def holds_def)
  obtain d' where d': "dictSetVal d r v = Some d'" "dict_wf d'" "dtype d' = dtype d"
    "iterators d' = iterators d" "dictSize d' = dictSize d"
    "mset (dict_entries d') + {#e#} = mset (dict_entries d) + {#(fst e, dup_val d v)#}"
    using dictSetVal_wf [OF wf ref [unfolded r] nth] by (auto simp: r)
  have "dictCompareKeys d k' (fst e) \<longleftrightarrow> dictCompareKeys d k' k" for k'
    using e(3) key_type.eq_iff [OF dict_wf_key_type [OF wf]] by metis
  then show ?thesis
    using dict_map_replace_entry [OF wf d'(2,3) e(2) d'(6)] d'(1-5) e(1,4) by auto
qed

lemma take_drop_remove:
  "p < length b \<Longrightarrow> mset (take p b @ drop (Suc p) b) + {#b ! p#} = mset b"
  using arg_cong [OF id_take_nth_drop [of p b], of mset] by simp

lemma set_take_drop_subset: "set (take p b @ drop (Suc p) b) \<subseteq> set b"
  using set_take_subset [of p b] set_drop_subset [of "Suc p" b] by auto

lemma distinct_drop_entry:
  assumes "distinct (map f es)" and "mset fs + {#e#} = mset es"
  shows "distinct (map f fs)"
proof -
  have "mset (map f (e # fs)) = mset (map f es)"
    unfolding mset_map using assms(2) by simp
  from mset_eq_imp_distinct_iff [OF this] assms(1) show ?thesis by simp
qed

lemma unlink_entry_spec:
  assumes wf: "dict_wf d" and ref: "holds d r k"
  shows "\<exists>d' e. unlink_entry d r = Some (e, d') \<and> dict_wf d' \<and> dtype d' = dtype d
    \<and> iterators d' = iterators d \<and> dictSize d' + 1 = dictSize d
    \<and> dict_map d k = Some (snd e) \<and> dictCompareKeys d k (fst e)
    \<and> (\<forall>k'. dict_map d' k' = (if dictCompareKeys d k' k then None else dict_map d k'))"
proof -
  obtain t i p where r: "r = (t, i, p)" by (cases r) auto
  let ?h = "ht_of d t" let ?b = "ht_table ?h ! i" let ?e = "?b ! p"
  let ?b' = "take p ?b @ drop (Suc p) ?b" let ?d = "with_bucket d t i ?b' (ht_used ?h - 1)"
  have vt: "valid_table d t" and i: "i < length (ht_table ?h)" and p: "p < length ?b"
    and k: "dictCompareKeys d k (fst ?e)"
    using ref by (auto simp: r holds_def)
  have live: "ht_live (dictHashKey d) ?h" using vt by (simp add: valid_table_def)
  have pos: "0 < ht_used ?h"
    using length_bucket_le [OF i] p ht_live_used [OF live] unfolding ht_entries_def by linarith
  have b': "mset ?b' + {#?e#} = mset ?b + {#}" using take_drop_remove [OF p] by simp
  have ms: "mset (dict_entries ?d) + {#?e#} = mset (dict_entries d)"
    using with_bucket_content [OF i b', of "ht_used ?h - 1"] by simp
  have hash: "\<forall>x \<in> set ?b'. dictHashKey d (fst x) AND ht_sizemask ?h = i"
    using ht_live_bucket [OF live i] set_take_drop_subset [of p ?b] by blast
  note dist = distinct_drop_entry [OF dict_wfD(3) [OF wf] ms]
  have wf': "dict_wf ?d"
    by (rule dict_wf_with_bucket [OF wf vt i hash with_bucket_used [OF live i b'] _ dist])
      (use pos p in \<open>auto simp: ht_of_def\<close>)
  have "unlink_entry d r = Some (?e, ?d)"
    using i p pos by (auto simp: unlink_entry_def r with_bucket_def checked_dec_pos)
  moreover have "dictSize ?d + 1 = dictSize d"
    using with_bucket_dictSize [OF vt, of "ht_used ?h - 1" 1 0] pos by simp
  moreover have "dict_map d k = Some (snd ?e)"
    using holds_entry [OF wf ref] i p by (auto simp: r entry_at_def)
  moreover have "dict_map ?d k' = (if dictCompareKeys d k' k then None else dict_map d k')" for k'
  proof -
    have "dictCompareKeys d k' (fst ?e) \<longleftrightarrow> dictCompareKeys d k' k"
      using k key_type.eq_iff [OF dict_wf_key_type [OF wf]] by metis
    moreover have "mset (dict_entries d) = add_mset ?e (mset (dict_entries ?d))" using ms by simp
    ultimately show ?thesis using dict_map_remove_entry [OF wf, of ?d ?e k'] by simp
  qed
  ultimately show ?thesis using wf' k by (intro exI [of _ ?d] exI [of _ ?e]) simp
qed

section \<open>Resizing\<close>

lemma dictNextPower_loop_spec:
  assumes "2 \<le> k" and "k \<le> 63" and "sz < LONG_MAX"
  shows "\<exists>n \<ge> k. dictNextPower_loop (2 ^ k) sz = Some (2 ^ n) \<and> sz \<le> 2 ^ n \<and> (\<forall>m \<ge> k. sz \<le> 2 ^ m \<longrightarrow> n \<le> m)"
  using assms(1,2)
proof (induction "63 - k" arbitrary: k rule: less_induct)
  case less
  show ?case
  proof (cases "sz \<le> 2 ^ k")
    case True
    then show ?thesis by (intro exI [of _ k]) (simp add: dictNextPower_loop.simps)
  next
    case False
    then have "(2::nat) ^ k < 2 ^ 63" using assms(3) by simp
    then have k: "k < 63" using power_less_imp_less_exp [of 2 k 63] by simp
    then have "(2::nat) ^ Suc k \<le> 2 ^ 63" by (intro power_increasing) simp_all
    then have wrap: "((2::nat) ^ k * 2) mod 2 ^ 64 = 2 ^ Suc k" by (simp add: mult.commute)
    have "63 - Suc k < 63 - k" "2 \<le> Suc k" "Suc k \<le> 63" using k less.prems by simp_all
    from less.hyps [OF this]
    obtain n where n: "n \<ge> Suc k" "dictNextPower_loop (2 ^ Suc k) sz = Some (2 ^ n)" "sz \<le> 2 ^ n"
      "\<forall>m \<ge> Suc k. sz \<le> 2 ^ m \<longrightarrow> n \<le> m"
      by blast
    have "dictNextPower_loop (2 ^ k) sz = Some (2 ^ n)"
      using n(2) False wrap by (subst dictNextPower_loop.simps) simp
    moreover have "n \<le> m" if "m \<ge> k" "sz \<le> 2 ^ m" for m
      using that n(4) False by (cases "m = k") auto
    ultimately show ?thesis using n(1,3) by (intro exI [of _ n]) auto
  qed
qed

lemma dictNextPower_spec:
  assumes "sz < LONG_MAX"
  shows "\<exists>n. dictNextPower sz = Some (2 ^ n) \<and> 2 \<le> n \<and> sz \<le> 2 ^ n
    \<and> (\<forall>m \<ge> 2. sz \<le> 2 ^ m \<longrightarrow> n \<le> m)"
  using dictNextPower_loop_spec [of 2 sz] assms by (auto simp: dictNextPower_def)

definition same_entries :: "('k, 'v) dict \<Rightarrow> ('k, 'v) dict \<Rightarrow> bool" where
  "same_entries d d' \<longleftrightarrow> dtype d' = dtype d \<and> iterators d' = iterators d
     \<and> mset (dict_entries d') = mset (dict_entries d)"

lemma same_content_entries: "same_content d d' \<Longrightarrow> same_entries d d'"
  by (simp add: same_content_def same_entries_def)

lemma same_entries_map: "dict_wf d \<Longrightarrow> same_entries d d' \<Longrightarrow> dict_map d' = dict_map d"
  unfolding same_entries_def using dict_map_mset(1) by blast

lemma same_entries_cmp: "same_entries d d' \<Longrightarrow> dictCompareKeys d' = dictCompareKeys d"
  unfolding same_entries_def using dictCompareKeys_cong by blast

lemma dictSize_entries:
  assumes "dict_wf d"
  shows "dictSize d = length (dict_entries d)"
proof -
  have "ht_used (ht0 d) = length (ht_entries (ht0 d))"
    using dict_wfD(2) [OF assms] ht_live_used by fastforce
  moreover have "ht_used (ht1 d) = length (ht_entries (ht1 d))"
    using dict_wfD(6,8) [OF assms] ht_live_used by fastforce
  ultimately show ?thesis by (simp add: dictSize_def dict_entries_def)
qed

lemma same_entries_dictSize:
  "dict_wf d \<Longrightarrow> dict_wf d' \<Longrightarrow> same_entries d d' \<Longrightarrow> dictSize d' = dictSize d"
  unfolding same_entries_def by (metis dictSize_entries size_mset)

text \<open>A table of a new size never loses an entry; the cases in which it is refused.\<close>

lemma dictExpand_spec:
  assumes wf: "dict_wf d" and "sz < LONG_MAX"
  shows "\<exists>st d' n. dictExpand d sz = Some (st, d') \<and> dict_wf d' \<and> same_entries d d'
    \<and> dictNextPower sz = Some (2 ^ n) \<and> sz \<le> 2 ^ n
    \<and> (st = DICT_ERR \<longleftrightarrow> dictIsRehashing d \<or> ht_used (ht0 d) > sz \<or> 2 ^ n = ht_size (ht0 d))
    \<and> (st = DICT_ERR \<longrightarrow> d' = d)
    \<and> (st = DICT_OK \<longrightarrow> 0 < ht_size (ht0 d')
          \<and> max (ht_size (ht0 d')) (ht_size (ht1 d')) \<le> max (ht_size (ht0 d)) (2 ^ n))"
proof -
  obtain n where n: "dictNextPower sz = Some (2 ^ n)" "sz \<le> 2 ^ n" "2 \<le> n"
    using dictNextPower_spec [OF assms(2)] by blast
  let ?h = "\<lparr>ht_table = replicate (2 ^ n) [], ht_size = 2 ^ n, ht_sizemask = 2 ^ n - 1, ht_used = 0\<rparr>"
  show ?thesis
  proof (cases "dictIsRehashing d \<or> ht_used (ht0 d) > sz \<or> 2 ^ n = ht_size (ht0 d)")
    case True
    then have "dictExpand d sz = Some (DICT_ERR, d)"
      using n(1) by (auto simp: dictExpand_def)
    with True n wf show ?thesis by (auto simp: same_entries_def)
  next
    case ok: False
    note new = ht_live_new [of "dictHashKey d" n, where 'b = 'v]
    have h1: "ht1 d = dictReset" using dict_wfD(8) [OF wf] ok by simp
    show ?thesis
    proof (cases "ht_table (ht0 d) = []")
      case True
      then have h0: "ht0 d = dictReset" using dict_wfD(2) [OF wf] ht_live_nonempty by blast
      have "dict_wf (d\<lparr>ht0 := ?h\<rparr>)"
        using ok new h1 dict_wfD(1) [OF wf]
        by (auto simp: dict_wf_def dictIsRehashing_def dict_entries_def ht_entries_def)
      then show ?thesis
        using ok n True h0 h1
        by (auto simp: dictExpand_def Let_def same_entries_def dict_entries_def ht_entries_def)
    next
      case False
      then have live: "ht_live (dictHashKey d) (ht0 d)" using dict_wfD(2) [OF wf] by auto
      have "dict_wf (d\<lparr>ht1 := ?h, rehashidx := 0\<rparr>)"
        using ok new live dict_wfD(1,3) [OF wf] h1
        by (auto simp: dict_wf_def dictIsRehashing_def dict_entries_def ht_entries_def)
      then show ?thesis
        using ok n False h1 ht_live_nonempty [OF live]
        by (auto simp: dictExpand_def Let_def same_entries_def dict_entries_def ht_entries_def)
    qed
  qed
qed

text \<open>
  The sizes for which an index fits the \<open>int\<close> that \<open>_dictKeyIndex\<close> returns, with room for
  one more expansion.
\<close>

definition dict_room :: "('k, 'v) dict \<Rightarrow> bool" where
  "dict_room d \<longleftrightarrow> max (ht_size (ht0 d)) (ht_size (ht1 d)) \<le> 2 ^ 31 \<and> dictSize d \<le> 2 ^ 30"

lemma dictNextPower_room:
  assumes "dictNextPower sz = Some (2 ^ n)" and "sz \<le> 2 ^ 31"
  shows "(2::nat) ^ n \<le> 2 ^ 31"
proof -
  obtain n' where n': "dictNextPower sz = Some (2 ^ n')" "\<forall>m \<ge> 2. sz \<le> 2 ^ m \<longrightarrow> n' \<le> m"
    using dictNextPower_spec [of sz] assms(2) by auto
  then have "(2::nat) ^ n' \<le> 2 ^ 31"
    using assms(2) by (intro power_increasing) simp_all
  with n'(1) assms(1) show ?thesis by simp
qed

lemma ht_zero_reset:
  assumes "dict_wf d" and "ht_size (ht0 d) = 0"
  shows "ht0 d = dictReset" and "\<not> dictIsRehashing d" and "dict_entries d = []"
proof -
  show h0: "ht0 d = dictReset" using dict_wfD(2) [OF assms(1)] ht_live_nonempty assms(2) by fastforce
  show re: "\<not> dictIsRehashing d"
    using dict_wfD(5) [OF assms(1)] ht_live_nonempty assms(2) by fastforce
  show "dict_entries d = []"
    using h0 dict_wfD(8) [OF assms(1) re] by (simp add: dict_entries_def)
qed

lemma dictExpandIfNeeded_spec:
  assumes wf: "dict_wf d" and room: "dict_room d"
  shows "\<exists>d'. dictExpandIfNeeded env d = Some (DICT_OK, d') \<and> dict_wf d' \<and> same_entries d d'
    \<and> 0 < ht_size (ht0 d') \<and> max (ht_size (ht0 d')) (ht_size (ht1 d')) \<le> 2 ^ 31"
proof -
  have used: "ht_used (ht0 d) \<le> 2 ^ 30" using room by (simp add: dict_room_def dictSize_def)
  consider (re) "dictIsRehashing d" | (new) "\<not> dictIsRehashing d" "ht_size (ht0 d) = 0"
    | (grow) "\<not> dictIsRehashing d" "0 < ht_size (ht0 d)" "ht_used (ht0 d) \<ge> ht_size (ht0 d)"
        "dict_can_resize env \<or> ht_used (ht0 d) div ht_size (ht0 d) > dict_force_resize_ratio env"
    | (keep) "\<not> dictIsRehashing d" "0 < ht_size (ht0 d)"
        "\<not> (ht_used (ht0 d) \<ge> ht_size (ht0 d)
           \<and> (dict_can_resize env \<or> ht_used (ht0 d) div ht_size (ht0 d) > dict_force_resize_ratio env))"
    by blast
  then show ?thesis
  proof cases
    case re
    then show ?thesis
      using wf room ht_live_nonempty [OF dict_wfD(5) [OF wf re]]
      by (simp add: dictExpandIfNeeded_def dict_room_def same_entries_def)
  next
    case new
    obtain st d' n where e: "dictExpand d 4 = Some (st, d')" "dict_wf d'" "same_entries d d'"
      "dictNextPower 4 = Some (2 ^ n)" "4 \<le> (2::nat) ^ n"
      "st = DICT_ERR \<longleftrightarrow> dictIsRehashing d \<or> ht_used (ht0 d) > 4 \<or> 2 ^ n = ht_size (ht0 d)"
      "st = DICT_OK \<longrightarrow> 0 < ht_size (ht0 d') \<and> max (ht_size (ht0 d')) (ht_size (ht1 d')) \<le> max (ht_size (ht0 d)) (2 ^ n)"
      using dictExpand_spec [OF wf, of 4] by auto
    have "st = DICT_OK" using e(6) new ht_zero_reset [OF wf new(2)] by (cases st) auto
    then show ?thesis
      using e new dictNextPower_room [OF e(4)] by (auto simp: dictExpandIfNeeded_def)
  next
    case grow
    let ?sz = "ht_used (ht0 d) * 2"
    have sz: "?sz mod 2 ^ 64 = ?sz" "?sz < LONG_MAX" "?sz \<le> 2 ^ 31" using used by simp_all
    obtain st d' n where e: "dictExpand d ?sz = Some (st, d')" "dict_wf d'" "same_entries d d'"
      "dictNextPower ?sz = Some (2 ^ n)" "?sz \<le> (2::nat) ^ n"
      "st = DICT_ERR \<longleftrightarrow> dictIsRehashing d \<or> ht_used (ht0 d) > ?sz \<or> 2 ^ n = ht_size (ht0 d)"
      "st = DICT_OK \<longrightarrow> 0 < ht_size (ht0 d') \<and> max (ht_size (ht0 d')) (ht_size (ht1 d')) \<le> max (ht_size (ht0 d)) (2 ^ n)"
      using dictExpand_spec [OF wf sz(2)] by blast
    have "st = DICT_OK" using e(5,6) grow by (cases st) auto
    moreover have "dictExpandIfNeeded env d = dictExpand d ?sz"
      using grow sz(1) by (simp add: dictExpandIfNeeded_def)
    ultimately show ?thesis
      using e dictNextPower_room [OF e(4) sz(3)] room by (auto simp: dict_room_def)
  next
    case keep
    then show ?thesis
      using wf room by (auto simp: dictExpandIfNeeded_def dict_room_def same_entries_def)
  qed
qed

section \<open>Insertion\<close>

text \<open>The table a new entry goes to, and its bucket there.\<close>

definition target_table :: "('k, 'v) dict \<Rightarrow> nat" where
  "target_table d = (if dictIsRehashing d then 1 else 0)"

definition target_bucket :: "('k, 'v) dict \<Rightarrow> 'k \<Rightarrow> nat" where
  "target_bucket d k = dictHashKey d k AND ht_sizemask (ht_of d (target_table d))"

lemma valid_target: "dict_wf d \<Longrightarrow> 0 < ht_size (ht0 d) \<Longrightarrow> valid_table d (target_table d)"
  using valid_table_0 valid_table_1 by (auto simp: target_table_def)

lemma dictKeyIndex_spec:
  assumes wf: "dict_wf d" and room: "dict_room d"
  shows "\<exists>i d'. dictKeyIndex env d k = Some (i, d') \<and> dict_wf d' \<and> same_entries d d'
    \<and> valid_table d' (target_table d')
    \<and> (dict_map d k \<noteq> None \<longrightarrow> i = -1)
    \<and> (dict_map d k = None \<longrightarrow> i = int (target_bucket d' k))"
proof -
  obtain d' where d': "dictExpandIfNeeded env d = Some (DICT_OK, d')" "dict_wf d'" "same_entries d d'"
    "0 < ht_size (ht0 d')" "max (ht_size (ht0 d')) (ht_size (ht1 d')) \<le> 2 ^ 31"
    using dictExpandIfNeeded_spec [OF assms] by blast
  obtain r where r: "find_in_tables d' k = Some r" "r = None \<longrightarrow> dict_map d' k = None"
    "\<forall>ref. r = Some ref \<longrightarrow> holds d' ref k"
    using find_in_tables_spec [OF d'(2), of k] d'(4) by blast
  note vt = valid_target [OF d'(2,4)]
  have live: "ht_live (dictHashKey d') (ht_of d' (target_table d'))"
    using vt by (simp add: valid_table_def)
  have "ht_size (ht_of d' (target_table d')) \<le> 2 ^ 31" using d'(5) by (simp add: ht_of_def)
  then have "target_bucket d' k < 2 ^ 31"
    using ht_live_idx [OF live, of "dictHashKey d' k"] ht_live_size [OF live]
    by (simp add: target_bucket_def)
  then have cast: "cast_int (int (target_bucket d' k)) = int (target_bucket d' k)"
    by (intro cast_int_id) simp_all
  note map = same_entries_map [OF wf d'(3)]
  show ?thesis
  proof (cases r)
    case None
    with r(1,2) d'(1) cast map have "dictKeyIndex env d k = Some (int (target_bucket d' k), d')"
      by (simp add: dictKeyIndex_def target_bucket_def target_table_def Let_def)
    then show ?thesis using None r(2) map vt d'(2,3) by auto
  next
    case (Some ref)
    with r(3) have "dict_map d' k \<noteq> None" using holds_entry [OF d'(2)] by blast
    moreover have "dictKeyIndex env d k = Some (-1, d')"
      using Some r(1) d'(1) by (simp add: dictKeyIndex_def)
    ultimately show ?thesis using map vt d'(2,3) by auto
  qed
qed

text \<open>Linking a new entry at the head of its chain.\<close>

lemma push_entry_spec:
  assumes wf: "dict_wf d" and vt: "valid_table d (target_table d)" and None: "dict_map d k = None"
    and eq: "dictCompareKeys d (fst e) = dictCompareKeys d k"
  defines "t \<equiv> target_table d" and "i \<equiv> target_bucket d k"
  defines "d' \<equiv> with_bucket d t i (e # ht_table (ht_of d t) ! i) (ht_used (ht_of d t) + 1)"
  shows "i < length (ht_table (ht_of d t))" and "dict_wf d'"
    and "dictSize d' = dictSize d + 1" and "holds d' (t, i, 0) k"
    and "dict_map d' k' = (if dictCompareKeys d k' k then Some (snd e) else dict_map d k')"
proof -
  let ?h = "ht_of d t" let ?b = "e # ht_table ?h ! i"
  note kt = dict_wf_key_type [OF wf]
  have live: "ht_live (dictHashKey d) ?h" using vt by (simp add: valid_table_def t_def)
  show i: "i < length (ht_table ?h)"
    using ht_live_idx [OF live] by (simp add: i_def target_bucket_def t_def)
  have b: "mset ?b + {#} = mset (ht_table ?h ! i) + {#e#}" by simp
  have ms: "mset (dict_entries d') = add_mset e (mset (dict_entries d))"
    using with_bucket_content [OF i b, of "ht_used ?h + 1"] by (simp add: d'_def)
  have "dictHashKey d (fst e) = dictHashKey d k"
    using key_type.eq_hash [OF kt, of "fst e" k] eq key_type.eq_iff [OF kt]
    by (simp add: dictHashKey_def)
  then have hash: "\<forall>x \<in> set ?b. dictHashKey d (fst x) AND ht_sizemask ?h = i"
    using ht_live_bucket [OF live i] by (auto simp: i_def target_bucket_def t_def)
  have "dictCompareKeys d (fst e) \<noteq> dictCompareKeys d (fst x)" if "x \<in> set (dict_entries d)" for x
    using that None eq key_type.eq_iff [OF kt] by (metis dict_map_None)
  then have "distinct (map (\<lambda>x. dictCompareKeys d (fst x)) (e # dict_entries d))"
    using dict_wfD(3) [OF wf] by (auto simp: image_iff)
  then have dist: "distinct (map (\<lambda>x. dictCompareKeys d (fst x)) (dict_entries d'))"
    using mset_eq_imp_distinct_iff [of "map (\<lambda>x. dictCompareKeys d (fst x)) (e # dict_entries d)"
        "map (\<lambda>x. dictCompareKeys d (fst x)) (dict_entries d')"] ms by simp
  show wf': "dict_wf d'"
    unfolding d'_def
    by (rule dict_wf_with_bucket [OF wf vt [folded t_def] i hash with_bucket_used [OF live i b]
          _ dist [unfolded d'_def]])
      (auto simp: t_def target_table_def)
  show "dictSize d' = dictSize d + 1"
    using with_bucket_dictSize [OF vt, of "ht_used ?h + 1" 0 1] by (simp add: d'_def t_def)
  have "dictCompareKeys d k' (fst e) \<longleftrightarrow> dictCompareKeys d k' k" for k'
    using eq key_type.eq_iff [OF kt] by metis
  then show "dict_map d' k' = (if dictCompareKeys d k' k then Some (snd e) else dict_map d k')"
    using dict_map_add_entry [OF wf' _ ms] by (simp add: d'_def)
  have "0 < ht_size (ht0 d)"
    using vt dict_wfD(5) [OF wf] ht_live_nonempty
    by (fastforce simp: valid_table_def target_table_def ht_of_def)
  then have "valid_table d' t"
    using valid_target [OF wf'] by (simp add: d'_def t_def target_table_def)
  then show "holds d' (t, i, 0) k"
    using i key_type.eq_iff [OF kt, of k "fst e"] eq
    by (simp add: holds_def d'_def ht_of_with_bucket)
qed

lemma dup_key_class:
  "dict_wf d \<Longrightarrow> dictCompareKeys d (dup_key d k) = dictCompareKeys d k"
  by (rule key_type.eq_dup_class [OF dict_wf_key_type])

lemma rehash_room:
  assumes "dict_wf d" and "dict_room d"
  shows "\<exists>d'. rehash_if_needed env d = Some d' \<and> dict_wf d' \<and> same_entries d d' \<and> dict_room d'"
proof -
  obtain d' where d': "rehash_if_needed env d = Some d'" "dict_wf d'" "same_content d d'"
    using rehash_if_needed_spec [OF assms(1)] by blast
  moreover have "dict_room d'"
    using d' assms same_entries_dictSize [OF assms(1) d'(2) same_content_entries [OF d'(3)]]
    by (auto simp: dict_room_def same_content_def)
  ultimately show ?thesis using same_content_entries by blast
qed

lemma same_entries_trans: "same_entries a b \<Longrightarrow> same_entries b c \<Longrightarrow> same_entries a c"
  by (simp add: same_entries_def)

lemma dictAddRaw_spec:
  assumes wf: "dict_wf d" and room: "dict_room d"
  shows "\<exists>r d'. dictAddRaw env v0 d k = Some (r, d') \<and> dict_wf d' \<and> dtype d' = dtype d
    \<and> iterators d' = iterators d
    \<and> (dict_map d k \<noteq> None \<longrightarrow> r = None \<and> dict_map d' = dict_map d \<and> dictSize d' = dictSize d)
    \<and> (dict_map d k = None \<longrightarrow> (\<exists>ref. r = Some ref \<and> holds d' ref k) \<and> dictSize d' = dictSize d + 1
        \<and> (\<forall>k'. dict_map d' k' = (if dictCompareKeys d k' k then Some v0 else dict_map d k')))"
proof -
  obtain d1 where d1: "rehash_if_needed env d = Some d1" "dict_wf d1" "same_entries d d1" "dict_room d1"
    using rehash_room [OF assms] by blast
  note map1 = same_entries_map [OF wf d1(3)]
  obtain i d2 where d2: "dictKeyIndex env d1 k = Some (i, d2)" "dict_wf d2" "same_entries d1 d2"
    "valid_table d2 (target_table d2)" "dict_map d k \<noteq> None \<longrightarrow> i = -1"
    "dict_map d k = None \<longrightarrow> i = int (target_bucket d2 k)"
    using dictKeyIndex_spec [OF d1(2,4), of env k] unfolding map1 by (elim exE conjE) (rule that)
  note se = same_entries_trans [OF d1(3) d2(3)]
  note facts = same_entries_map [OF wf se] same_entries_dictSize [OF wf d2(2) se] same_entries_cmp [OF se]
  show ?thesis
  proof (cases "dict_map d k = None")
    case False
    with d2(5) have "dictAddRaw env v0 d k = Some (None, d2)"
      using d1(1) d2(1) by (simp add: dictAddRaw_def)
    then show ?thesis using False d2(2) facts se by (simp add: same_entries_def)
  next
    case True
    let ?t = "target_table d2" let ?i = "target_bucket d2 k" let ?h = "ht_of d2 ?t"
    let ?e = "(dup_key d2 k, v0)"
    let ?d = "with_bucket d2 ?t ?i (?e # ht_table ?h ! ?i) (ht_used ?h + 1)"
    have none: "dict_map d2 k = None" using True facts(1) by simp
    have cls: "dictCompareKeys d2 (fst ?e) = dictCompareKeys d2 k" using dup_key_class [OF d2(2)] by simp
    note push = push_entry_spec [OF d2(2,4) none cls]
    have "dictAddRaw env v0 d k = Some (Some (?t, ?i, 0), ?d)"
      using d1(1) d2(1,6) True push(1)
      by (simp add: dictAddRaw_def Let_def with_bucket_def target_table_def [symmetric])
    then show ?thesis
      using True push(2-5) facts se by (simp add: same_entries_def)
  qed
qed

section \<open>Properties\<close>

lemma dictFetchValue_spec:
  assumes "dict_wf d"
  shows "\<exists>d'. dictFetchValue env d k = Some (dict_map d k, d') \<and> dict_wf d' \<and> dict_map d' = dict_map d"
proof -
  obtain r d' where d': "dictFind env d k = Some (r, d')" "dict_wf d'" "same_content d d'"
    "r = None \<longrightarrow> dict_map d' k = None" "\<forall>ref. r = Some ref \<longrightarrow> holds d' ref k"
    using dictFind_spec [OF assms] by blast
  note map = same_content_map [OF assms d'(3)]
  show ?thesis
  proof (cases r)
    case None
    then show ?thesis using d' map by (simp add: dictFetchValue_def)
  next
    case (Some ref)
    with d'(5) obtain e where "entry_at d' ref = Some e" "dict_map d' k = Some (snd e)"
      using holds_entry [OF d'(2)] by blast
    then show ?thesis using Some d'(1,2) map by (simp add: dictFetchValue_def)
  qed
qed

text \<open>
  \<open>dictFetchValue\<close> returns the value the map holds for the key, or \<open>NULL\<close> when there is
  none, in every state of a rehashing, and changes neither the invariant nor the map.
\<close>

theorem dictFetchValue_correct:
  assumes "dict_wf d"
  shows "\<exists>d'. dictFetchValue env d k = Some (dict_map d k, d') \<and> dict_wf d' \<and> dict_map d' = dict_map d"
  by (rule dictFetchValue_spec [OF assms])

theorem dictFetchValue_correct_witness:
  "\<exists>d'. dictFetchValue ex_env ex_dict 5 = Some (dict_map ex_dict 5, d') \<and> dict_wf d'
    \<and> dict_map d' = dict_map ex_dict"
  by (rule dictFetchValue_correct [OF ex_dict_wf])

lemma ex_dict_room: "dict_room ex_dict"
  by (simp add: dict_room_def ex_dict_def dictSize_def)

lemma dictAdd_spec:
  assumes wf: "dict_wf d" and room: "dict_room d"
  shows "\<exists>st d'. dictAdd env v0 d k v = Some (st, d') \<and> dict_wf d' \<and> dtype d' = dtype d
    \<and> iterators d' = iterators d
    \<and> (st = DICT_OK \<longleftrightarrow> dict_map d k = None)
    \<and> dictSize d' = dictSize d + (if st = DICT_OK then 1 else 0)
    \<and> (\<forall>k'. dict_map d' k' =
          (if st = DICT_OK \<and> dictCompareKeys d k' k then Some (dup_val d v) else dict_map d k'))"
proof -
  obtain r d1 where d1: "dictAddRaw env v0 d k = Some (r, d1)" "dict_wf d1" "dtype d1 = dtype d"
    "iterators d1 = iterators d"
    "dict_map d k \<noteq> None \<longrightarrow> r = None \<and> dict_map d1 = dict_map d \<and> dictSize d1 = dictSize d"
    "dict_map d k = None \<longrightarrow> (\<exists>ref. r = Some ref \<and> holds d1 ref k) \<and> dictSize d1 = dictSize d + 1
        \<and> (\<forall>k'. dict_map d1 k' = (if dictCompareKeys d k' k then Some v0 else dict_map d k'))"
    using dictAddRaw_spec [OF assms, of env v0 k] by (elim exE conjE) (rule that)
  show ?thesis
  proof (cases "dict_map d k = None")
    case False
    then show ?thesis using d1 by (intro exI [of _ DICT_ERR] exI [of _ d1]) (simp add: dictAdd_def)
  next
    case True
    with d1(6) obtain ref where ref: "r = Some ref" "holds d1 ref k" "dictSize d1 = dictSize d + 1"
      "\<forall>k'. dict_map d1 k' = (if dictCompareKeys d k' k then Some v0 else dict_map d k')" by blast
    from dictSetVal_spec [OF d1(2) ref(2), of v] obtain d2 where d2: "dictSetVal d1 ref v = Some d2"
      "dict_wf d2" "dtype d2 = dtype d1" "iterators d2 = iterators d1" "dictSize d2 = dictSize d1"
      "\<forall>k'. dict_map d2 k' = (if dictCompareKeys d1 k' k then Some (dup_val d1 v) else dict_map d1 k')"
      by blast
    moreover have "dup_val d1 v = dup_val d v" using d1(3) by (simp add: dup_val_def)
    ultimately show ?thesis
      using True d1(1,3,4) ref dictCompareKeys_cong [OF d1(3)]
      by (intro exI [of _ DICT_OK] exI [of _ d2]) (simp add: dictAdd_def)
  qed
qed

text \<open>
  C3: \<open>dictAdd\<close> adds the key with the (duplicated) value and returns \<open>DICT_OK\<close> exactly when
  the key is not there; otherwise it returns \<open>DICT_ERR\<close> and the map is unchanged. Every
  other key keeps its value, even when the call expands a table or moves buckets.
\<close>

theorem dictAdd_correct:
  assumes "dict_wf d" and "dict_room d"
  shows "\<exists>st d'. dictAdd env v0 d k v = Some (st, d') \<and> dict_wf d'
    \<and> (st = DICT_OK \<longleftrightarrow> dict_map d k = None)
    \<and> dictSize d' = dictSize d + (if st = DICT_OK then 1 else 0)
    \<and> (\<forall>k'. dict_map d' k' =
          (if st = DICT_OK \<and> dictCompareKeys d k' k then Some (dup_val d v) else dict_map d k'))"
  using dictAdd_spec [OF assms, of env v0 k v] by (elim exE conjE) (intro exI conjI)

theorem dictAdd_correct_witness:
  "\<exists>st d'. dictAdd ex_env [] ex_dict 9 ''nine'' = Some (st, d') \<and> dict_wf d'
    \<and> (st = DICT_OK \<longleftrightarrow> dict_map ex_dict 9 = None)
    \<and> dictSize d' = dictSize ex_dict + (if st = DICT_OK then 1 else 0)
    \<and> (\<forall>k'. dict_map d' k' = (if st = DICT_OK \<and> dictCompareKeys ex_dict k' 9
          then Some (dup_val ex_dict ''nine'') else dict_map ex_dict k'))"
  by (rule dictAdd_correct [OF ex_dict_wf ex_dict_room])

lemma dictReplace_spec:
  assumes "dict_wf d" and "dict_room d"
  shows "\<exists>n old d'. dictReplace env v0 d k v = Some (n, old, d') \<and> dict_wf d'
    \<and> (n = 1 \<longleftrightarrow> dict_map d k = None) \<and> old = dict_map d k
    \<and> (\<forall>k'. dict_map d' k' = (if dictCompareKeys d k' k then Some (dup_val d v) else dict_map d k'))"
proof -
  obtain st d1 where d1: "dictAdd env v0 d k v = Some (st, d1)" "dict_wf d1" "dtype d1 = dtype d"
    "st = DICT_OK \<longleftrightarrow> dict_map d k = None"
    "\<forall>k'. dict_map d1 k' = (if st = DICT_OK \<and> dictCompareKeys d k' k then Some (dup_val d v) else dict_map d k')"
    using dictAdd_spec [OF assms, of env v0 k v] by (elim exE conjE) (rule that)
  show ?thesis
  proof (cases "st = DICT_OK")
    case True
    then show ?thesis using d1 by (simp add: dictReplace_def)
  next
    case False
    then have map1: "dict_map d1 = dict_map d" using d1(5) by (simp add: fun_eq_iff)
    obtain r d2 where d2: "dictFind env d1 k = Some (r, d2)" "dict_wf d2" "same_content d1 d2"
      "r = None \<longrightarrow> dict_map d2 k = None" "\<forall>ref. r = Some ref \<longrightarrow> holds d2 ref k"
      using dictFind_spec [OF d1(2)] by blast
    note map2 = same_content_map [OF d1(2) d2(3)]
    have ty: "dtype d2 = dtype d" using d1(3) d2(3) by (simp add: same_content_def)
    from d2(4) obtain ref where ref: "r = Some ref" "holds d2 ref k"
      using d2(5) False d1(4) map1 map2 by (cases r) auto
    from dictSetVal_spec [OF d2(2) ref(2), of v] obtain d3 e where d3: "dictSetVal d2 ref v = Some d3"
      "dict_wf d3" "entry_at d2 ref = Some e" "dict_map d2 k = Some (snd e)"
      "\<forall>k'. dict_map d3 k' = (if dictCompareKeys d2 k' k then Some (dup_val d2 v) else dict_map d2 k')"
      by blast
    have "dictReplace env v0 d k v = Some (0, Some (snd e), d3)"
      using False d1(1) d2(1) ref(1) d3(1,3) by (simp add: dictReplace_def)
    then show ?thesis
      using d3(2,4,5) False d1(4) map1 map2 dictCompareKeys_cong [OF ty] ty
      by (intro exI [of _ 0] exI [of _ "Some (snd e)"] exI [of _ d3]) (simp add: dup_val_def)
  qed
qed

text \<open>
  \<open>dictReplace\<close> stores the value whether or not the key was there; it returns 1 exactly
  when the key is new, and hands the old value to the destructor when it is not.
\<close>

theorem dictReplace_correct:
  assumes "dict_wf d" and "dict_room d"
  shows "\<exists>n old d'. dictReplace env v0 d k v = Some (n, old, d') \<and> dict_wf d'
    \<and> (n = 1 \<longleftrightarrow> dict_map d k = None) \<and> old = dict_map d k
    \<and> (\<forall>k'. dict_map d' k' = (if dictCompareKeys d k' k then Some (dup_val d v) else dict_map d k'))"
  by (rule dictReplace_spec [OF assms])

theorem dictReplace_correct_witness:
  "\<exists>n old d'. dictReplace ex_env [] ex_dict 5 ''V'' = Some (n, old, d') \<and> dict_wf d'
    \<and> (n = 1 \<longleftrightarrow> dict_map ex_dict 5 = None) \<and> old = dict_map ex_dict 5
    \<and> (\<forall>k'. dict_map d' k' = (if dictCompareKeys ex_dict k' 5 then Some (dup_val ex_dict ''V'')
          else dict_map ex_dict k'))"
  by (rule dictReplace_correct [OF ex_dict_wf ex_dict_room])

lemma dictGenericDelete_spec:
  assumes "dict_wf d"
  shows "\<exists>st es d'. dictGenericDelete env d k nofree = Some (st, es, d') \<and> dict_wf d'
    \<and> (st = DICT_OK \<longleftrightarrow> dict_map d k \<noteq> None)
    \<and> map snd es = (if nofree then [] else case dict_map d k of None \<Rightarrow> [] | Some v \<Rightarrow> [v])
    \<and> dictSize d' + (if st = DICT_OK then 1 else 0) = dictSize d
    \<and> (\<forall>k'. dict_map d' k' = (if dictCompareKeys d k' k then None else dict_map d k'))"
proof -
  have absent: "dictCompareKeys d k' k \<longrightarrow> dict_map d k' = None" if "dict_map d k = None" for k'
    using that key_type.eq_iff [OF dict_wf_key_type [OF assms]] unfolding dict_map_None by metis
  show ?thesis
  proof (cases "ht_size (ht0 d) = 0")
    case True
    then have "dict_map d = (\<lambda>_. None)" using ht_zero_reset [OF assms] by (simp add: dict_map_def fun_eq_iff)
    then show ?thesis using True assms by (simp add: dictGenericDelete_def)
  next
    case False
    obtain d1 where d1: "rehash_if_needed env d = Some d1" "dict_wf d1" "same_content d d1"
      using rehash_if_needed_spec [OF assms] by blast
    have sz: "ht_size (ht0 d1) \<noteq> 0" using False d1(3) by (simp add: same_content_def)
    note se = same_content_entries [OF d1(3)]
    note facts = same_entries_map [OF assms se] same_entries_dictSize [OF assms d1(2) se] same_entries_cmp [OF se]
    obtain r where r: "find_in_tables d1 k = Some r" "r = None \<longrightarrow> dict_map d1 k = None"
      "\<forall>ref. r = Some ref \<longrightarrow> holds d1 ref k"
      using find_in_tables_spec [OF d1(2) sz] by blast
    show ?thesis
    proof (cases r)
      case None
      then show ?thesis
        using False d1(1,2) r facts absent
        by (intro exI [of _ DICT_ERR] exI [of _ "[]"] exI [of _ d1]) (auto simp: dictGenericDelete_def)
    next
      case (Some ref)
      from unlink_entry_spec [OF d1(2)] r(3) Some obtain d2 e where d2: "unlink_entry d1 ref = Some (e, d2)"
        "dict_wf d2" "dictSize d2 + 1 = dictSize d1" "dict_map d1 k = Some (snd e)"
        "\<forall>k'. dict_map d2 k' = (if dictCompareKeys d1 k' k then None else dict_map d1 k')" by blast
      then show ?thesis
        using False d1(1) r(1) Some facts
        by (intro exI [of _ DICT_OK] exI [of _ "if nofree then [] else [e]"] exI [of _ d2])
          (simp add: dictGenericDelete_def)
    qed
  qed
qed

text \<open>
  C4: \<open>dictGenericDelete\<close> removes exactly the given key: it returns \<open>DICT_OK\<close> when the key was
  there, with the entry for the destructors unless \<open>nofree\<close> is set, and \<open>DICT_ERR\<close> when it
  was not; every other key keeps its value.
\<close>

theorem dictGenericDelete_correct:
  assumes "dict_wf d"
  shows "\<exists>st es d'. dictGenericDelete env d k nofree = Some (st, es, d') \<and> dict_wf d'
    \<and> (st = DICT_OK \<longleftrightarrow> dict_map d k \<noteq> None)
    \<and> map snd es = (if nofree then [] else case dict_map d k of None \<Rightarrow> [] | Some v \<Rightarrow> [v])
    \<and> dictSize d' + (if st = DICT_OK then 1 else 0) = dictSize d
    \<and> (\<forall>k'. dict_map d' k' = (if dictCompareKeys d k' k then None else dict_map d k'))"
  by (rule dictGenericDelete_spec [OF assms])

theorem dictGenericDelete_correct_witness:
  "\<exists>st es d'. dictGenericDelete ex_env ex_dict 7 False = Some (st, es, d') \<and> dict_wf d'
    \<and> (st = DICT_OK \<longleftrightarrow> dict_map ex_dict 7 \<noteq> None)
    \<and> map snd es = (if False then [] else case dict_map ex_dict 7 of None \<Rightarrow> [] | Some v \<Rightarrow> [v])
    \<and> dictSize d' + (if st = DICT_OK then 1 else 0) = dictSize ex_dict
    \<and> (\<forall>k'. dict_map d' k' = (if dictCompareKeys ex_dict k' 7 then None else dict_map ex_dict k'))"
  by (rule dictGenericDelete_correct [OF ex_dict_wf])

text \<open>
  The size chosen for a table is the least power of two that is at least 4 and at least
  the size asked for.
\<close>

theorem dictNextPower_least:
  assumes "sz < LONG_MAX"
  shows "\<exists>n. dictNextPower sz = Some (2 ^ n) \<and> 2 \<le> n \<and> sz \<le> 2 ^ n
    \<and> (\<forall>m \<ge> 2. sz \<le> 2 ^ m \<longrightarrow> n \<le> m)"
  by (rule dictNextPower_spec [OF assms])

theorem dictNextPower_least_witness:
  "\<exists>n. dictNextPower 5 = Some (2 ^ n) \<and> 2 \<le> n \<and> 5 \<le> (2::nat) ^ n
    \<and> (\<forall>m \<ge> 2. 5 \<le> (2::nat) ^ m \<longrightarrow> n \<le> m)"
  by (rule dictNextPower_least) simp

end
