(* ===== verification/Dict_Scan.thy ===== *)
theory Dict_Scan
  imports Dict_Ops
begin

text \<open>
  Walking through a dictionary (\<^verbatim>\<open>dict.c\<close>): the stateless cursor of \<open>dictScan\<close>, iterators and
  random sampling.
\<close>

section \<open>The cursor\<close>

text \<open>The rounds of \<open>rev\<close>, for a shift that halves until it is zero.\<close>

function rev_loop :: "nat \<Rightarrow> u64 \<Rightarrow> u64 \<Rightarrow> u64" where
  "rev_loop s mk v =
     (let s = s div 2 in
      if s > 0 then
        let mk = mk XOR push_bit s mk
        in rev_loop s mk ((drop_bit s v AND mk) OR (push_bit s v AND NOT mk))
      else v)"
  by pat_completeness auto
termination
  by (relation "measure (\<lambda>(s, _). s)") auto

declare rev_loop.simps [simp del]

definition rev_bits :: "u64 \<Rightarrow> u64" where
  "rev_bits v = rev_loop 64 (NOT 0) v"

text \<open>
  The loop over the buckets of the larger table. The entries handed to the callback are
  collected in the order of the calls.
\<close>

partial_function (option) scan_loop ::
  "('k, 'v) dictht \<Rightarrow> u64 \<Rightarrow> u64 \<Rightarrow> u64 \<Rightarrow> ('k, 'v) dictEntry list \<Rightarrow> (u64 \<times> ('k, 'v) dictEntry list) option" where
  "scan_loop t1 m0 m1 v out =
     Option.bind (get_at (ht_table t1) (unat (v AND m1))) (\<lambda>de.
       let v = (((v OR m0) + 1) AND NOT m0) OR (v AND m0) in
       if v AND (m0 XOR m1) \<noteq> 0 then scan_loop t1 m0 m1 v (out @ de) else Some (v, out @ de))"

declare scan_loop.simps [code]

definition dictScan :: "('k, 'v) dict \<Rightarrow> u64 \<Rightarrow> (u64 \<times> ('k, 'v) dictEntry list) option" where
  "dictScan d v =
     (if dictSize d = 0 then Some (0, [])
      else do {
        (m0, v, out) \<leftarrow>
          (if \<not> dictIsRehashing d then do {
             let m0 = of_nat (ht_sizemask (ht0 d));
             de \<leftarrow> get_at (ht_table (ht0 d)) (unat (v AND m0));
             Some (m0, v, de) }
           else do {
             let (t0, t1) = (if ht_size (ht0 d) > ht_size (ht1 d) then (ht1 d, ht0 d) else (ht0 d, ht1 d));
             let m0 = of_nat (ht_sizemask t0);
             let m1 = of_nat (ht_sizemask t1);
             de \<leftarrow> get_at (ht_table t0) (unat (v AND m0));
             (v, out) \<leftarrow> scan_loop t1 m0 m1 v de;
             Some (m0, v, out) });
        let v = v OR NOT m0;
        let v = rev_bits v;
        let v = v + 1;
        Some (rev_bits v, out) })"

section \<open>Reversing bits\<close>

text \<open>
  Before the round with shift \<open>s\<close> the mask has the bits whose number has a zero in the position of
  \<open>2 * s\<close>; a round exchanges neighbouring groups of \<open>s\<close> bits.
\<close>

lemma rev_mask:
  assumes "\<And>n. bit (mk :: u64) n \<longleftrightarrow> n < 64 \<and> n mod (4 * s) < 2 * s" "0 < s"
  shows "bit (mk XOR push_bit s mk) n \<longleftrightarrow> n < 64 \<and> n mod (2 * s) < s"
proof -
  define r where "r = n mod (4 * s)"
  have "r < 4 * s" using assms(2) by (simp add: r_def)
  have n2: "n mod (2 * s) = (if r < 2 * s then r else r - 2 * s)"
  proof -
    have "n mod (2 * s) = r mod (2 * s)" unfolding r_def by (rule mod_mod_cancel [symmetric]) simp
    then show ?thesis using \<open>r < 4 * s\<close> by (simp add: mod_if)
  qed
  have ns: "(n - s) mod (4 * s) = (if s \<le> r then r - s else r + 3 * s)" if "s \<le> n"
  proof -
    have "n - s = n div (4 * s) * (4 * s) + r - s" unfolding r_def by (simp only: div_mult_mod_eq)
    then show ?thesis
    proof (cases "s \<le> r")
      case True
      then have "n - s = (r - s) + n div (4 * s) * (4 * s)" using \<open>n - s = _\<close> by simp
      then have "(n - s) mod (4 * s) = (r - s) mod (4 * s)" by (simp only: mod_mult_self1)
      then show ?thesis using True \<open>r < 4 * s\<close> by simp
    next
      case False
      have "n div (4 * s) \<noteq> 0" using div_mult_mod_eq [of n "4 * s"] False that unfolding r_def by (metis add_0 mult_zero_left)
      then obtain k where "n div (4 * s) = Suc k" using not0_implies_Suc by blast
      then have "n - s = (r + 3 * s) + k * (4 * s)" using \<open>n - s = _\<close> by simp
      then have "(n - s) mod (4 * s) = (r + 3 * s) mod (4 * s)" by (simp only: mod_mult_self1)
      then show ?thesis using False by simp
    qed
  qed
  show ?thesis
  proof (cases "s \<le> n")
    case True
    then show ?thesis using n2 ns \<open>r < 4 * s\<close> by (auto simp: bit_xor_iff bit_push_bit_iff assms(1) r_def [symmetric])
  next
    case False
    then have "r = n" by (simp add: r_def)
    then show ?thesis using False n2 by (auto simp: bit_xor_iff bit_push_bit_iff assms(1) r_def [symmetric])
  qed
qed

lemma rev_round:
  assumes "\<And>n. bit (mk :: u64) n \<longleftrightarrow> n < 64 \<and> n mod (2 * s) < s" "n < 64" "n + s < 64 \<or> s \<le> n mod (2 * s)"
  shows "bit ((drop_bit s v AND mk) OR (push_bit s v AND NOT mk)) n = bit (v :: u64) (if n mod (2 * s) < s then n + s else n - s)"
proof -
  have "s \<le> n" if "\<not> n mod (2 * s) < s" using that mod_less_eq_dividend [of n "2 * s"] by linarith
  then show ?thesis using assms
    by (auto simp: bit_or_iff bit_and_iff bit_drop_bit_eq bit_push_bit_iff bit_not_iff add.commute)
qed

lemma rev_loop_spec:
  assumes "\<And>n. bit (mk :: u64) n \<longleftrightarrow> n < 64 \<and> n mod (2 * 2 ^ i) < 2 ^ i" "i \<le> 6" "n < 64"
  shows "bit (rev_loop (2 ^ i) mk v) n = bit v (n div 2 ^ i * 2 ^ i + (2 ^ i - 1 - n mod 2 ^ i))"
  using assms
proof (induction i arbitrary: mk v n)
  case 0
  then show ?case by (simp add: rev_loop.simps)
next
  case (Suc i)
  define s where "s = (2 :: nat) ^ i"
  define mk' where "mk' = mk XOR push_bit s mk"
  define v' where "v' = (drop_bit s v AND mk') OR (push_bit s v AND NOT mk')"
  have s: "0 < s" "2 ^ Suc i = 2 * s" "2 * 2 ^ Suc i = 4 * s" by (simp_all add: s_def)
  have mk': "bit mk' n \<longleftrightarrow> n < 64 \<and> n mod (2 * s) < s" for n
    unfolding mk'_def by (rule rev_mask [OF _ s(1)]) (use Suc.prems(1) s in simp)
  have un: "rev_loop (2 ^ Suc i) mk v = rev_loop s mk' v'"
    by (subst rev_loop.simps) (simp add: s_def Let_def mk'_def v'_def)
  define q where "q = n div s"
  define r where "r = n mod s"
  define m where "m = q * s + (s - 1 - r)"
  have r: "r < s" "n = q * s + r" using s(1) by (simp_all add: r_def q_def)
  have d64: "\<exists>k. 64 = k * (2 * s)"
  proof -
    have "5 - i + Suc i = 6" using Suc.prems(2) by simp
    then have "2 ^ (5 - i) * 2 ^ Suc i = (2 :: nat) ^ 6" by (metis power_add)
    then show ?thesis unfolding s(2) by (intro exI [of _ "2 ^ (5 - i)"]) simp
  qed
  have IH: "bit (rev_loop s mk' v') n = bit v' m"
    unfolding s_def m_def q_def r_def by (rule Suc.IH) (use mk' Suc.prems in \<open>auto simp: s_def\<close>)
  have "bit v' m = bit v (n div (2 * s) * (2 * s) + (2 * s - 1 - n mod (2 * s)))"
  proof -
    obtain k where k: "64 = k * (2 * s)" using d64 by blast
    define t where "t = q div 2"
    define z where "z = (if even q then 0 else s)"
    have q: "q * s = t * (2 * s) + z" 
    proof (cases "even q")
      case True
      then have "q = t * 2" by (simp add: t_def)
      then show ?thesis using True by (simp add: z_def)
    next
      case False
      then have "q = t * 2 + 1" unfolding t_def by presburger
      then have "q * s = t * (2 * s) + s" by (simp add: algebra_simps)
      then show ?thesis using False by (simp add: z_def)
    qed
    have zr: "z + r < 2 * s" "z + (s - 1 - r) < 2 * s" using r(1) by (auto simp: z_def)
    have n: "n = (z + r) + t * (2 * s)" using r(2) q by simp
    have m: "m = (z + (s - 1 - r)) + t * (2 * s)" using q by (simp add: m_def)
    have nd: "n div (2 * s) = t" "n mod (2 * s) = z + r" unfolding n using zr(1) s(1) by simp_all
    have md: "m mod (2 * s) = z + (s - 1 - r)" unfolding m using zr(2) by simp
    have "t < k" using nd(1) Suc.prems(3) k s(1) by (metis div_less_iff_less_mult mult_pos_pos zero_less_numeral)
    then have "(t + 1) * (2 * s) \<le> 64" unfolding k by (intro mult_right_mono) simp_all
    then have t64: "t * (2 * s) + 2 * s \<le> 64" by simp
    have m64: "m < 64" using t64 zr(2) m by simp
    have "m + s < 64 \<or> s \<le> m mod (2 * s)"
    proof (cases "even q")
      case True
      then have "m + s < 64" using t64 r(1) m by (simp add: z_def)
      then show ?thesis ..
    qed (simp add: md z_def)
    then have "bit v' m = bit v (if m mod (2 * s) < s then m + s else m - s)"
      unfolding v'_def by (rule rev_round [OF mk' m64])
    also have "(if m mod (2 * s) < s then m + s else m - s) = t * (2 * s) + (2 * s - 1 - (z + r))"
    proof (cases "even q")
      case True
      then show ?thesis using md m r(1) by (simp add: z_def)
    next
      case False
      then have "\<not> m mod (2 * s) < s" "m - s = (s - 1 - r) + t * (2 * s)" using md m by (simp_all add: z_def)
      then show ?thesis using False r(1) by (simp add: z_def)
    qed
    finally show ?thesis unfolding nd .
  qed
  then show ?case using un IH s(2) by simp
qed

lemma bit_rev_bits: "n < 64 \<Longrightarrow> bit (rev_bits v) n = bit v (63 - n)"
proof -
  assume n: "n < 64"
  have "bit (NOT 0 :: u64) k \<longleftrightarrow> k < 64 \<and> k mod (2 * 2 ^ 6) < 2 ^ 6" for k by (auto simp: bit_not_iff)
  from rev_loop_spec [OF this _ n, of v] show ?thesis using n by (simp add: rev_bits_def)
qed

lemma rev_bits_rev [simp]: "rev_bits (rev_bits v) = v"
  by (rule bit_word_eqI) (simp add: bit_rev_bits)

section \<open>Positions\<close>

text \<open>
  The cursor visits the buckets in the order of their reversed numbers: \<open>pos\<close>. A table of \<open>2 ^ k\<close>
  buckets divides the positions into intervals of length \<open>2 ^ (64 - k)\<close>.
\<close>

definition pos :: "u64 \<Rightarrow> nat" where
  "pos v = unat (rev_bits v)"

lemma pos_less: "pos v < 2 ^ 64"
  using unsigned_less [of "rev_bits v"] by (simp add: pos_def)

lemma pos_0: "pos v = 0 \<longleftrightarrow> v = 0"
proof
  have "rev_bits 0 = 0" by (rule bit_word_eqI) (simp add: bit_rev_bits)
  then show "v = 0 \<Longrightarrow> pos v = 0" by (simp add: pos_def)
  show "v = 0" if "pos v = 0"
    using that rev_bits_rev [of v] \<open>rev_bits 0 = 0\<close> by (simp add: pos_def unat_eq_0)
qed

lemma pos_div: "pos v div 2 ^ j = unat (drop_bit j (rev_bits v))"
  unfolding pos_def drop_bit_eq_div [symmetric] by (simp only: unat_drop_bit_eq)

lemma same_bucket:
  assumes "k \<le> 64" "pos v div 2 ^ (64 - k) = pos h div 2 ^ (64 - k)"
  shows "v AND mask k = h AND mask k"
proof (rule bit_word_eqI)
  fix n assume n: "n < LENGTH(64)"
  have d: "drop_bit (64 - k) (rev_bits v) = drop_bit (64 - k) (rev_bits h)" using assms(2) unfolding pos_div by (rule unsigned_word_eqI)
  show "bit (v AND mask k) n = bit (h AND mask k) n"
  proof (cases "n < k")
    case True
    then have "64 - k + (k - 1 - n) = 63 - n" using assms(1) by simp
    then have "bit (rev_bits v) (63 - n) = bit (rev_bits h) (63 - n)"
      using arg_cong [OF d, of "\<lambda>w. bit w (k - 1 - n)"] by (simp add: bit_drop_bit_eq)
    then show ?thesis using n True by (simp add: bit_rev_bits bit_and_iff bit_mask_iff)
  qed (simp add: bit_and_iff bit_mask_iff)
qed

lemma or_mask_nat: "(x :: nat) OR mask j = x div 2 ^ j * 2 ^ j + (2 ^ j - 1)"
proof -
  have "x OR mask j = push_bit j (drop_bit j x) OR mask j"
    by (rule bit_eqI) (auto simp: bit_or_iff bit_mask_iff bit_push_bit_iff bit_drop_bit_eq)
  also have "\<dots> = push_bit j (drop_bit j x) + mask j"
    by (rule disjunctive_add [symmetric]) (auto simp: bit_mask_iff bit_push_bit_iff)
  finally show ?thesis by (simp add: push_bit_eq_mult drop_bit_eq_div mask_eq_exp_minus_1)
qed

lemma rev_or_mask: "k \<le> 64 \<Longrightarrow> rev_bits (v OR NOT (mask k)) = rev_bits v OR mask (64 - k)"
  by (rule bit_word_eqI) (auto simp: bit_rev_bits bit_or_iff bit_not_iff bit_mask_iff)

lemma unat_mask64: "j \<le> 64 \<Longrightarrow> unat (mask j :: u64) = mask j"
  by (rule bit_eqI) (auto simp: bit_unsigned_iff bit_mask_iff)

lemma pos_next:
  assumes "k \<le> 64"
  shows "pos (rev_bits (rev_bits (v OR NOT (mask k)) + 1)) = (pos v div 2 ^ (64 - k) + 1) * 2 ^ (64 - k) mod 2 ^ 64"
proof -
  define j where "j = 64 - k"
  have "unat (rev_bits v OR mask j) = pos v div 2 ^ j * 2 ^ j + (2 ^ j - 1)"
    by (simp add: unsigned_or_eq unat_mask64 j_def pos_def or_mask_nat)
  then have "unat (rev_bits v OR mask j) + 1 = (pos v div 2 ^ j + 1) * 2 ^ j"
    by (simp add: algebra_simps)
  then show ?thesis unfolding pos_def [of "rev_bits _"] rev_bits_rev rev_or_mask [OF assms] j_def [symmetric]
    by (simp add: unat_word_ariths)
qed

lemma unat_and_mask: "k \<le> 64 \<Longrightarrow> unat (v AND mask k :: u64) = unat v mod 2 ^ k"
  by (simp only: take_bit_eq_mask [symmetric] unsigned_take_bit_eq take_bit_eq_mod [symmetric])

lemma of_nat_mask: "of_nat (2 ^ k - 1) = (mask k :: u64)"
  by (simp add: mask_eq_exp_minus_1 of_nat_diff)

text \<open>One round of the loop over the larger table, on numbers.\<close>

lemma expand_step:
  assumes "k \<le> 64"
  shows "unat ((((v OR mask k) + 1) AND NOT (mask k)) OR (v AND mask k) :: u64)
    = (unat v div 2 ^ k + 1) mod 2 ^ (64 - k) * 2 ^ k + unat v mod 2 ^ k"
proof -
  define y where "y = unat v div 2 ^ k"
  define w where "w = (v OR mask k) + 1"
  have len64: "LENGTH(64) = 64" by simp
  have e: "(2 :: nat) ^ 64 = 2 ^ (64 - k) * 2 ^ k" using assms by (simp add: power_add [symmetric])
  have "unat (v OR mask k) + 1 = (y + 1) * 2 ^ k"
    using assms by (simp add: unsigned_or_eq unat_mask64 or_mask_nat y_def algebra_simps)
  then have w: "unat w = (y + 1) mod 2 ^ (64 - k) * 2 ^ k"
    by (simp only: w_def unat_word_ariths(1) unsigned_1 len64 e mult_mod_left)
  then have low: "unat w mod 2 ^ k = 0" by simp
  have bl: "\<not> bit w n" if "n < k" for n
  proof -
    have "take_bit k (unat w) = 0" using low by (simp add: take_bit_eq_mod)
    then have "\<not> bit (take_bit k (unat w)) n" by (simp only: bit_0_eq bot_apply not_False_eq_True bot_bool_def)
    then have "\<not> bit (unat w) n" using that by (simp add: bit_take_bit_iff)
    then show ?thesis by (simp add: bit_unsigned_iff)
  qed
  have "(w AND NOT (mask k)) OR (v AND mask k) = w + (v AND mask k)"
  proof -
    have "w AND NOT (mask k) = w" using bl by (intro bit_word_eqI) (auto simp: bit_and_iff bit_not_iff bit_mask_iff)
    moreover have "w + (v AND mask k) = w OR (v AND mask k)"
      using bl by (intro disjunctive_add) (auto simp: bit_and_iff bit_mask_iff)
    ultimately show ?thesis by simp
  qed
  moreover have "unat (w + (v AND mask k)) = unat w + unat v mod 2 ^ k"
  proof -
    define r where "r = unat v mod 2 ^ k"
    have "(y + 1) mod 2 ^ (64 - k) + 1 \<le> 2 ^ (64 - k)" by (simp add: Suc_leI)
    then have "((y + 1) mod 2 ^ (64 - k) + 1) * 2 ^ k \<le> 2 ^ (64 - k) * 2 ^ k" by (rule mult_right_mono) simp
    moreover have "r < 2 ^ k" by (simp add: r_def)
    ultimately have "unat w + r < 2 ^ 64" unfolding w e by (simp add: algebra_simps)
    then show ?thesis using assms by (simp add: unat_word_ariths unat_and_mask r_def)
  qed
  ultimately show ?thesis using w by (simp add: w_def y_def)
qed

lemma mid_bits:
  assumes "k0 \<le> k1" "k1 \<le> 64"
  shows "(v AND (mask k0 XOR mask k1) :: u64) \<noteq> 0 \<longleftrightarrow> (unat v div 2 ^ k0) mod 2 ^ (k1 - k0) \<noteq> 0"
proof -
  have "unat (v AND (mask k0 XOR mask k1)) = unat v AND (mask k0 XOR mask k1)"
    using assms by (simp add: unsigned_and_eq unsigned_xor_eq unat_mask64)
  also have "\<dots> = push_bit k0 (take_bit (k1 - k0) (drop_bit k0 (unat v)))"
    using assms by (intro bit_eqI) (auto simp: bit_and_iff bit_xor_iff bit_mask_iff bit_push_bit_iff bit_take_bit_iff bit_drop_bit_eq)
  finally have "unat (v AND (mask k0 XOR mask k1)) = ((unat v div 2 ^ k0) mod 2 ^ (k1 - k0)) * 2 ^ k0"
    by (simp add: push_bit_eq_mult take_bit_eq_mod drop_bit_eq_div)
  then show ?thesis by (simp flip: unat_eq_0)
qed

section \<open>The loop over the larger table\<close>

lemma scan_loop_spec:
  assumes live: "ht_live hk t1" "ht_size t1 = 2 ^ k1" and k: "k0 \<le> k1" "k1 \<le> 64"
    and mid: "mid = unat v div 2 ^ k0 mod 2 ^ (k1 - k0)"
  shows "\<exists>v'. scan_loop t1 (mask k0) (mask k1) v out
      = Some (v', out @ concat (map (\<lambda>i. ht_table t1 ! (unat v mod 2 ^ k0 + 2 ^ k0 * i)) [mid..<2 ^ (k1 - k0)]))
    \<and> v' AND mask k0 = v AND mask k0"
  using mid
proof (induction "2 ^ (k1 - k0) - mid" arbitrary: v out mid)
  case 0
  then have "mid < 2 ^ (k1 - k0)" by simp
  then show ?case using 0(1) by linarith
next
  case (Suc d)
  define D where "D = (2 :: nat) ^ (k1 - k0)"
  define l where "l = unat v mod 2 ^ k0"
  define y where "y = unat v div 2 ^ k0"
  define v1 where "v1 = (((v OR mask k0) + 1) AND NOT (mask k0)) OR (v AND mask k0)"
  have midD: "mid < D" using Suc.prems by (simp add: D_def)
  have e1: "(2 :: nat) ^ k1 = 2 ^ k0 * D" using k by (simp add: D_def power_add [symmetric])
  have idx: "unat (v AND mask k1) = l + 2 ^ k0 * mid"
    using k Suc.prems by (simp add: unat_and_mask e1 mod_mult2_eq l_def D_def)
  have "unat (v AND mask k1) < length (ht_table t1)"
    using live k by (simp add: unat_and_mask ht_live_size)
  then have get: "get_at (ht_table t1) (unat (v AND mask k1)) = Some (ht_table t1 ! (l + 2 ^ k0 * mid))"
    by (simp add: idx)
  have v1: "unat v1 = (y + 1) mod 2 ^ (64 - k0) * 2 ^ k0 + l"
    using expand_step [of k0 v] k by (simp add: v1_def y_def l_def)
  have l1: "unat v1 mod 2 ^ k0 = l" and y1: "unat v1 div 2 ^ k0 = (y + 1) mod 2 ^ (64 - k0)"
    unfolding v1 by (simp_all add: l_def)
  have "D dvd 2 ^ (64 - k0)" using k by (simp add: D_def le_imp_power_dvd)
  then have m1: "unat v1 div 2 ^ k0 mod D = (mid + 1) mod D"
    unfolding y1 using Suc.prems by (simp add: mod_mod_cancel D_def y_def mod_Suc_eq)
  have un: "scan_loop t1 (mask k0) (mask k1) v out = (if (mid + 1) mod D \<noteq> 0
      then scan_loop t1 (mask k0) (mask k1) v1 (out @ ht_table t1 ! (l + 2 ^ k0 * mid))
      else Some (v1, out @ ht_table t1 ! (l + 2 ^ k0 * mid)))"
    using mid_bits [OF k, of v1] m1 by (subst scan_loop.simps) (simp add: get Let_def v1_def [symmetric] D_def)
  have low: "v1 AND mask k0 = v AND mask k0"
    using l1 k by (intro unsigned_word_eqI [where ?'a = nat]) (simp add: unat_and_mask l_def)
  show ?case
  proof (cases "mid + 1 = D")
    case True
    then show ?thesis using un low midD by (simp add: D_def [symmetric] l_def upt_conv_Cons)
  next
    case False
    then have lt: "mid + 1 < D" using midD by simp
    have "d = 2 ^ (k1 - k0) - (mid + 1)" using Suc.hyps(2) by simp
    from Suc.hyps(1) [OF this, of v1 "out @ ht_table t1 ! (l + 2 ^ k0 * mid)"] m1 lt
    obtain v' where "scan_loop t1 (mask k0) (mask k1) v1 (out @ ht_table t1 ! (l + 2 ^ k0 * mid)) = Some (v',
        (out @ ht_table t1 ! (l + 2 ^ k0 * mid)) @ concat (map (\<lambda>i. ht_table t1 ! (l + 2 ^ k0 * i)) [mid + 1..<D]))"
      "v' AND mask k0 = v1 AND mask k0" by (auto simp: D_def l1)
    then show ?thesis using un lt low midD by (simp add: D_def [symmetric] l_def upt_conv_Cons)
  qed
qed

section \<open>One step of a scan\<close>

lemma scan_interval:
  assumes k: "k \<le> 64" and v': "v' = rev_bits (rev_bits (u OR NOT (mask k)) + 1)" and u: "u AND mask k = v AND mask k"
  shows "v' = 0 \<or> pos v < pos v'"
    and "pos v \<le> pos h \<Longrightarrow> v' \<noteq> 0 \<longrightarrow> pos h < pos v' \<Longrightarrow> pos v div 2 ^ (64 - k) = pos h div 2 ^ (64 - k)"
proof -
  define j where "j = 64 - k"
  define q where "q = pos v div 2 ^ j"
  have e: "(2 :: nat) ^ 64 = 2 ^ k * 2 ^ j" using k by (simp add: j_def power_add [symmetric])
  have "u OR NOT (mask k) = v OR NOT (mask k)"
    using arg_cong [OF u, of "\<lambda>w. bit w n" for n] by (intro bit_word_eqI) (auto simp: bit_or_iff bit_and_iff bit_not_iff)
  then have pv': "pos v' = (q + 1) * 2 ^ j mod 2 ^ 64" using pos_next [OF k, of v] by (simp add: v' q_def j_def)
  have qk: "q < 2 ^ k" using pos_less [of v] unfolding e q_def by (simp add: div_less_iff_less_mult)
  have up: "pos v < (q + 1) * 2 ^ j" unfolding q_def using dividend_less_div_times [of "2 ^ j" "pos v"] by (simp add: algebra_simps)
  have cs: "v' = 0 \<and> q + 1 = 2 ^ k \<or> pos v' = (q + 1) * 2 ^ j"
  proof (cases "q + 1 = 2 ^ k")
    case True
    then have "pos v' = 0" unfolding pv' e by simp
    then show ?thesis using True by (simp add: pos_0)
  next
    case False
    then have "(q + 1) * 2 ^ j < 2 ^ 64" unfolding e using qk by (intro mult_strict_right_mono) simp_all
    then show ?thesis by (simp add: pv')
  qed
  then show "v' = 0 \<or> pos v < pos v'" using up by auto
  assume h: "pos v \<le> pos h" "v' \<noteq> 0 \<longrightarrow> pos h < pos v'"
  have "q \<le> pos h div 2 ^ j" unfolding q_def using h(1) by (rule div_le_mono)
  moreover have "pos h div 2 ^ j < q + 1"
  proof -
    have "pos h < (q + 1) * 2 ^ j"
    proof (cases "v' = 0")
      case True
      then have "q + 1 = 2 ^ k" using cs up by (auto simp: pos_0 [symmetric])
      then show ?thesis using pos_less [of h] unfolding e by simp
    next
      case False
      then show ?thesis using cs h(2) by auto
    qed
    then show ?thesis by (simp add: div_less_iff_less_mult)
  qed
  ultimately show "pos v div 2 ^ (64 - k) = pos h div 2 ^ (64 - k)" by (simp add: q_def j_def)
qed

definition key_cursor :: "('k, 'v) dict \<Rightarrow> 'k \<Rightarrow> u64" where
  "key_cursor d k = of_nat (dictHashKey d k)"

lemma unat_key_cursor: "unat (key_cursor d k) = dictHashKey d k"
proof -
  have "dictHashKey d k < 2 ^ 32" using unsigned_less [of "hashFunction (dtype d) k"] by (simp add: dictHashKey_def)
  then show ?thesis by (simp add: key_cursor_def unat_of_nat)
qed

lemma live_power:
  assumes "ht_live hk h"
  obtains k where "ht_size h = 2 ^ k" "ht_sizemask h = 2 ^ k - 1" "length (ht_table h) = 2 ^ k"
  using assms by (auto simp: ht_live_def)

lemma live_bucket:
  assumes "ht_live (dictHashKey d) h" "ht_sizemask h = 2 ^ k - 1" "k \<le> 64" "e \<in> set (ht_entries h)"
    "key_cursor d (fst e) AND mask k = v AND mask k"
  shows "e \<in> set (ht_table h ! unat (v AND mask k))"
proof -
  have "unat (v AND mask k) = dictHashKey d (fst e) AND ht_sizemask h"
    unfolding assms(5) [symmetric] assms(2) using assms(3) by (simp only: unat_and_mask unat_key_cursor and_mask_nat)
  then show ?thesis using ht_live_entry [OF assms(1,4)] by simp
qed

definition scan_sizes :: "('k, 'v) dict \<Rightarrow> bool" where
  "scan_sizes d \<longleftrightarrow> ht_size (ht0 d) \<le> 2 ^ 63 \<and> ht_size (ht1 d) \<le> 2 ^ 63"

text \<open>While a dictionary is rehashed, its tables differ in size by a factor of two at most.\<close>

definition scan_ratio :: "('k, 'v) dict \<Rightarrow> bool" where
  "scan_ratio d \<longleftrightarrow> (dictIsRehashing d \<longrightarrow>
     ht_size (ht0 d) \<le> 2 * ht_size (ht1 d) \<and> ht_size (ht1 d) \<le> 2 * ht_size (ht0 d))"

text \<open>What a step from cursor \<open>v\<close> to cursor \<open>v'\<close> emits of the entries \<open>es\<close>: those whose position lies between.\<close>

definition scan_covers :: "('k, 'v) dict \<Rightarrow> u64 \<Rightarrow> u64 \<Rightarrow> ('k, 'v) dictEntry list \<Rightarrow> ('k, 'v) dictEntry list \<Rightarrow> bool" where
  "scan_covers d v v' es out \<longleftrightarrow> (\<forall>e \<in> set es. pos v \<le> pos (key_cursor d (fst e)) \<longrightarrow>
     (v' \<noteq> 0 \<longrightarrow> pos (key_cursor d (fst e)) < pos v') \<longrightarrow> e \<in> set out)"

lemma pos_refine:
  assumes "k < 64"
  shows "pos v div 2 ^ (63 - k) = 2 * (pos v div 2 ^ (64 - k)) + (if bit v k then 1 else 0)"
proof -
  have "64 - k = Suc (63 - k)" using assms by simp
  then have "pos v div 2 ^ (64 - k) = pos v div 2 ^ (63 - k) div 2" by (simp add: div_mult2_eq [symmetric] mult.commute)
  moreover have "odd (pos v div 2 ^ (63 - k)) \<longleftrightarrow> bit (rev_bits v) (63 - k)"
    unfolding pos_def by (simp add: bit_iff_odd [symmetric] bit_unsigned_iff) 
  moreover have "bit (rev_bits v) (63 - k) = bit v k" using assms by (simp add: bit_rev_bits)
  ultimately show ?thesis using div_mult_mod_eq [of "pos v div 2 ^ (63 - k)" 2] by (auto simp: odd_iff_mod_2_eq_one even_iff_mod_2_eq_zero)
qed

text \<open>The two tables of a dictionary that is rehashed, the smaller one first.\<close>

lemma scan_two_tables:
  assumes live: "ht_live (dictHashKey d) t0" "ht_live (dictHashKey d) t1"
    and size: "ht_size t0 = 2 ^ k0" "ht_size t1 = 2 ^ k1" and k: "k0 \<le> k1" "k1 < 64"
    and safe: "k1 \<le> k0 + 1 \<or> unat v div 2 ^ k0 mod 2 ^ (k1 - k0) = 0"
  shows "\<exists>u out de. get_at (ht_table t0) (unat (v AND mask k0)) = Some de
      \<and> scan_loop t1 (mask k0) (mask k1) v de = Some (u, out) \<and> u AND mask k0 = v AND mask k0
      \<and> set out \<subseteq> set (ht_entries t0) \<union> set (ht_entries t1)
      \<and> (\<forall>v'. v' = rev_bits (rev_bits (u OR NOT (mask k0)) + 1)
           \<longrightarrow> scan_covers d v v' (ht_entries t0 @ ht_entries t1) out)"
proof -
  define l where "l = unat v mod 2 ^ k0"
  define D where "D = (2 :: nat) ^ (k1 - k0)"
  define mid where "mid = unat v div 2 ^ k0 mod D"
  define de where "de = ht_table t0 ! unat (v AND mask k0)"
  have m: "ht_sizemask t0 = 2 ^ k0 - 1" "ht_sizemask t1 = 2 ^ k1 - 1" "length (ht_table t0) = 2 ^ k0" "length (ht_table t1) = 2 ^ k1"
    using live size by (auto simp: ht_live_def)
  have de: "get_at (ht_table t0) (unat (v AND mask k0)) = Some de"
    using m(3) k by (simp add: de_def unat_and_mask)
  obtain u where u: "scan_loop t1 (mask k0) (mask k1) v de
      = Some (u, de @ concat (map (\<lambda>i. ht_table t1 ! (l + 2 ^ k0 * i)) [mid..<D]))" "u AND mask k0 = v AND mask k0"
    using scan_loop_spec [OF live(2) size(2) k(1) _ refl, of v de] k by (auto simp: l_def mid_def D_def)
  define out where "out = de @ concat (map (\<lambda>i. ht_table t1 ! (l + 2 ^ k0 * i)) [mid..<D])"
  have e1: "(2 :: nat) ^ k1 = 2 ^ k0 * D" using k by (simp add: D_def power_add [symmetric])
  have "scan_covers d v v' (ht_entries t0 @ ht_entries t1) out" if v': "v' = rev_bits (rev_bits (u OR NOT (mask k0)) + 1)" for v'
    unfolding scan_covers_def
  proof (intro ballI impI)
    fix e assume e: "e \<in> set (ht_entries t0 @ ht_entries t1)" and p: "pos v \<le> pos (key_cursor d (fst e))"
      "v' \<noteq> 0 \<longrightarrow> pos (key_cursor d (fst e)) < pos v'"
    define h where "h = key_cursor d (fst e)"
    have pd: "pos v div 2 ^ (64 - k0) = pos h div 2 ^ (64 - k0)"
      using scan_interval(2) [OF _ v' u(2), of h] p k by (simp add: h_def)
    then have sb: "h AND mask k0 = v AND mask k0" using same_bucket [of k0 v h] k by simp
    show "e \<in> set out"
    proof (cases "e \<in> set (ht_entries t0)")
      case True
      then have "e \<in> set de" using live_bucket [OF live(1) m(1) _ True, of v] sb k by (simp add: de_def h_def)
      then show ?thesis by (simp add: out_def)
    next
      case False
      then have e1': "e \<in> set (ht_entries t1)" using e by simp
      define i where "i = unat h div 2 ^ k0 mod D"
      have hl: "unat h mod 2 ^ k0 = l" using arg_cong [OF sb, of unat] k by (simp add: unat_and_mask l_def)
      have "unat (h AND mask k1) = l + 2 ^ k0 * i"
        using k hl by (simp add: unat_and_mask e1 mod_mult2_eq i_def)
      then have eb: "e \<in> set (ht_table t1 ! (l + 2 ^ k0 * i))"
        using live_bucket [OF live(2) m(2) _ e1', of h] k by (simp add: h_def)
      have "mid \<le> i"
      proof (cases "mid = 0")
        case False
        then have k1: "k1 = k0 + 1" using safe k by (cases "k1 = k0") (auto simp: mid_def D_def)
        have bt: "unat w div 2 ^ k0 mod D = (if bit w k0 then 1 else 0)" for w :: u64
          using k by (simp add: D_def k1 bit_iff_odd [symmetric] bit_unsigned_iff mod_2_eq_odd)
        have "pos v div 2 ^ (63 - k0) \<le> pos h div 2 ^ (63 - k0)" using p(1) by (simp add: h_def div_le_mono)
        then have "bit h k0" if "bit v k0" using that pos_refine [of k0 v] pos_refine [of k0 h] pd k
          by (auto split: if_splits)
        then show ?thesis by (simp add: mid_def i_def bt)
      qed simp
      moreover have "i < D" by (simp add: i_def D_def)
      ultimately show ?thesis using eb by (auto simp: out_def)
    qed
  qed
  moreover have "set out \<subseteq> set (ht_entries t0) \<union> set (ht_entries t1)"
  proof -
    have "l + 2 ^ k0 * i < 2 ^ k1" if "i < D" for i
    proof -
      have "2 ^ k0 * (i + 1) \<le> 2 ^ k0 * D" using that by (intro mult_left_mono) simp_all
      moreover have "l < 2 ^ k0" by (simp add: l_def)
      ultimately show ?thesis unfolding e1 by simp
    qed
    then have "set (ht_table t1 ! (l + 2 ^ k0 * i)) \<subseteq> set (ht_entries t1)" if "i < D" for i
      using that m(4) nth_concat_mem [of "l + 2 ^ k0 * i" "ht_table t1"] by (auto simp: ht_entries_def)
    moreover have "set de \<subseteq> set (ht_entries t0)"
      using m(3) k nth_concat_mem [of "unat (v AND mask k0)" "ht_table t0"] by (auto simp: de_def ht_entries_def unat_and_mask)
    ultimately show ?thesis by (fastforce simp: out_def)
  qed
  ultimately show ?thesis using de u by (auto simp: out_def)
qed

lemma scan_one_table:
  assumes live: "ht_live (dictHashKey d) t0" "ht_size t0 = 2 ^ k" and k: "k < 64"
  shows "\<exists>de. get_at (ht_table t0) (unat (v AND mask k)) = Some de \<and> set de \<subseteq> set (ht_entries t0)
      \<and> (\<forall>v'. v' = rev_bits (rev_bits (v OR NOT (mask k)) + 1) \<longrightarrow> scan_covers d v v' (ht_entries t0) de)"
proof -
  define de where "de = ht_table t0 ! unat (v AND mask k)"
  have m: "ht_sizemask t0 = 2 ^ k - 1" "length (ht_table t0) = 2 ^ k" using live by (auto simp: ht_live_def)
  have "scan_covers d v v' (ht_entries t0) de" if v': "v' = rev_bits (rev_bits (v OR NOT (mask k)) + 1)" for v'
    unfolding scan_covers_def
  proof (intro ballI impI)
    fix e assume e: "e \<in> set (ht_entries t0)" and p: "pos v \<le> pos (key_cursor d (fst e))"
      "v' \<noteq> 0 \<longrightarrow> pos (key_cursor d (fst e)) < pos v'"
    have "key_cursor d (fst e) AND mask k = v AND mask k"
      using same_bucket [of k v] scan_interval(2) [OF _ v' refl p] k by simp
    then show "e \<in> set de" using live_bucket [OF live(1) m(1) _ e] k by (simp add: de_def)
  qed
  moreover have "set de \<subseteq> set (ht_entries t0)"
    using m(2) k nth_concat_mem [of "unat (v AND mask k)" "ht_table t0"] by (auto simp: de_def ht_entries_def unat_and_mask)
  moreover have "get_at (ht_table t0) (unat (v AND mask k)) = Some de" using m(2) k by (simp add: de_def unat_and_mask)
  ultimately show ?thesis by blast
qed

lemma covers_perm: "set es = set es' \<Longrightarrow> scan_covers d v v' es out \<longleftrightarrow> scan_covers d v v' es' out"
  by (simp add: scan_covers_def)

lemma scan_step:
  assumes wf: "dict_wf d" and sz: "scan_sizes d" and ratio: "scan_ratio d"
  shows "\<exists>v' out. dictScan d v = Some (v', out) \<and> (v' = 0 \<or> pos v < pos v')
    \<and> set out \<subseteq> set (dict_entries d) \<and> scan_covers d v v' (dict_entries d) out"
proof -
  consider (empty) "dictSize d = 0" | (one) "dictSize d \<noteq> 0" "\<not> dictIsRehashing d" | (two) "dictSize d \<noteq> 0" "dictIsRehashing d"
    by blast
  then show ?thesis
  proof cases
    case empty
    then have "dict_entries d = []" using dictSize_entries [OF wf] by simp
    then show ?thesis using empty by (simp add: dictScan_def scan_covers_def)
  next
    case one
    have r1: "ht1 d = dictReset" using dict_wfD(8) [OF wf] one by simp
    have "ht0 d \<noteq> dictReset" using one r1 by (auto simp: dictSize_def)
    then have live: "ht_live (dictHashKey d) (ht0 d)" using dict_wfD(2) [OF wf] by blast
    then obtain k where k: "ht_size (ht0 d) = 2 ^ k" "ht_sizemask (ht0 d) = 2 ^ k - 1" by (rule live_power)
    have k63: "k < 64" using sz k(1) power_le_imp_le_exp [of "2::nat" k 63] by (simp add: scan_sizes_def)
    define v' where "v' = rev_bits (rev_bits (v OR NOT (mask k)) + 1)"
    obtain de where de: "get_at (ht_table (ht0 d)) (unat (v AND mask k)) = Some de" "set de \<subseteq> set (ht_entries (ht0 d))"
      "scan_covers d v v' (ht_entries (ht0 d)) de"
      using scan_one_table [OF live k(1) k63, of v] by (auto simp: v'_def)
    moreover have "dict_entries d = ht_entries (ht0 d)" by (simp add: dict_entries_def r1)
    moreover have "v' = 0 \<or> pos v < pos v'" using scan_interval(1) [OF _ v'_def refl] k63 by simp
    moreover have "of_nat (ht_sizemask (ht0 d)) = (mask k :: u64)" by (simp only: k(2) of_nat_mask)
    then have "dictScan d v = Some (v', de)" using one de(1) by (simp add: dictScan_def Let_def v'_def)
    ultimately show ?thesis by auto
  next
    case two
    define t0 where "t0 = (if ht_size (ht0 d) > ht_size (ht1 d) then ht1 d else ht0 d)"
    define t1 where "t1 = (if ht_size (ht0 d) > ht_size (ht1 d) then ht0 d else ht1 d)"
    have live: "ht_live (dictHashKey d) t0" "ht_live (dictHashKey d) t1"
      using dict_wfD(5,6) [OF wf] two by (auto simp: t0_def t1_def)
    obtain k0 where k0: "ht_size t0 = 2 ^ k0" "ht_sizemask t0 = 2 ^ k0 - 1" using live_power [OF live(1)] .
    obtain k1 where k1: "ht_size t1 = 2 ^ k1" "ht_sizemask t1 = 2 ^ k1 - 1" using live_power [OF live(2)] .
    have le: "ht_size t0 \<le> ht_size t1" "ht_size t1 \<le> 2 ^ 63" "ht_size t1 \<le> 2 * ht_size t0"
      using sz ratio two by (auto simp: t0_def t1_def scan_sizes_def scan_ratio_def)
    have k: "k0 \<le> k1" "k1 < 64" "k1 \<le> k0 + 1"
      using le power_le_imp_le_exp [of "2::nat" k0 k1] power_le_imp_le_exp [of "2::nat" k1 63] power_le_imp_le_exp [of "2::nat" k1 "Suc k0"]
      by (simp_all add: k0 k1)
    obtain u out de where s: "get_at (ht_table t0) (unat (v AND mask k0)) = Some de"
      "scan_loop t1 (mask k0) (mask k1) v de = Some (u, out)" "u AND mask k0 = v AND mask k0"
      "set out \<subseteq> set (ht_entries t0) \<union> set (ht_entries t1)"
      "\<forall>v'. v' = rev_bits (rev_bits (u OR NOT (mask k0)) + 1) \<longrightarrow> scan_covers d v v' (ht_entries t0 @ ht_entries t1) out"
      using scan_two_tables [OF live k0(1) k1(1) k(1,2), of v] k(3) by blast
    define v' where "v' = rev_bits (rev_bits (u OR NOT (mask k0)) + 1)"
    have es: "set (ht_entries t0 @ ht_entries t1) = set (dict_entries d)" by (auto simp: t0_def t1_def dict_entries_def)
    have tt: "(if ht_size (ht0 d) > ht_size (ht1 d) then (ht1 d, ht0 d) else (ht0 d, ht1 d)) = (t0, t1)"
      by (simp add: t0_def t1_def)
    have "of_nat (ht_sizemask t0) = (mask k0 :: u64)" "of_nat (ht_sizemask t1) = (mask k1 :: u64)"
      by (simp_all only: k0(2) k1(2) of_nat_mask)
    then have "dictScan d v = Some (v', out)"
      unfolding dictScan_def tt using two s(1,2) by (simp add: Let_def v'_def)
    moreover have "v' = 0 \<or> pos v < pos v'" using scan_interval(1) [OF _ v'_def s(3)] k by simp
    ultimately show ?thesis using s(4,5) es covers_perm [OF es] by (auto simp: v'_def)
  qed
qed

section \<open>A whole scan\<close>

text \<open>
  The calls of one iteration; the list holds the dictionary at each call. It ends when the
  cursor is zero again.
\<close>

fun scan_run :: "('k, 'v) dict list \<Rightarrow> u64 \<Rightarrow> (u64 \<times> ('k, 'v) dictEntry list) option" where
  "scan_run [] v = Some (v, [])"
| "scan_run (d # ds) v = do {
     (v', out) \<leftarrow> dictScan d v;
     if v' = 0 then Some (0, out)
     else do { (v'', out') \<leftarrow> scan_run ds v'; Some (v'', out @ out') } }"

lemma scan_run_covers:
  assumes "\<forall>d \<in> set ds. dict_wf d \<and> scan_sizes d \<and> scan_ratio d \<and> dtype d = ty \<and> k \<in> fst ` set (dict_entries d)"
    and "scan_run ds v = Some (0, out)" "ds \<noteq> []" "pos v \<le> pos (of_nat (unat (hashFunction ty k)))"
  shows "k \<in> fst ` set out"
  using assms
proof (induction ds arbitrary: v out)
  case (Cons d ds)
  have d: "dict_wf d" "scan_sizes d" "scan_ratio d" "dtype d = ty" "k \<in> fst ` set (dict_entries d)" using Cons.prems(1) by auto
  obtain v' o1 where s: "dictScan d v = Some (v', o1)" "v' = 0 \<or> pos v < pos v'" "scan_covers d v v' (dict_entries d) o1"
    using scan_step [OF d(1-3), of v] by blast
  have h: "key_cursor d k = of_nat (unat (hashFunction ty k))" by (simp add: key_cursor_def dictHashKey_def d(4))
  have hit: "k \<in> fst ` set o1" if "v' \<noteq> 0 \<longrightarrow> pos (key_cursor d k) < pos v'"
  proof -
    obtain x where x: "(k, x) \<in> set (dict_entries d)" using d(5) by auto
    moreover have "pos v \<le> pos (key_cursor d k)" using Cons.prems(4) by (simp only: h)
    ultimately have "(k, x) \<in> set o1" using s(3) that unfolding scan_covers_def by (metis fst_conv)
    then show ?thesis by force
  qed
  show ?case
  proof (cases "v' = 0")
    case True
    then show ?thesis using s(1) Cons.prems(2) hit by simp
  next
    case False
    then obtain o2 where o2: "scan_run ds v' = Some (0, o2)" "out = o1 @ o2"
      using s(1) Cons.prems(2) by (auto simp: bind_eq_Some_conv)
    show ?thesis
    proof (cases "pos (key_cursor d k) < pos v'")
      case False
      have "ds \<noteq> []" using o2(1) \<open>v' \<noteq> 0\<close> by (cases ds) auto
      moreover have "pos v' \<le> pos (of_nat (unat (hashFunction ty k)))" using False by (simp only: h not_less)
      ultimately show ?thesis using Cons.IH [OF _ o2(1)] Cons.prems(1) o2(2) by auto
    qed (use hit o2 in auto)
  qed
qed simp

lemma scan_run_total:
  assumes "\<forall>d \<in> set ds. dict_wf d \<and> scan_sizes d \<and> scan_ratio d"
  shows "\<exists>v' out. scan_run ds v = Some (v', out) \<and> (v' = 0 \<or> pos v + length ds \<le> pos v')"
  using assms
proof (induction ds arbitrary: v)
  case (Cons d ds)
  obtain v1 o1 where s: "dictScan d v = Some (v1, o1)" "v1 = 0 \<or> pos v < pos v1"
    using scan_step [of d v] Cons.prems by auto
  obtain v2 o2 where "scan_run ds v1 = Some (v2, o2)" "v2 = 0 \<or> pos v1 + length ds \<le> pos v2"
    using Cons.IH [of v1] Cons.prems by auto
  then show ?case using s by (cases "v1 = 0") auto
qed simp


section \<open>A scan that misses a key\<close>

text \<open>
  Sixteen buckets with one key. After the first call of a scan the dictionary is resized to four
  buckets; the second call falls into the rehashing, which a later step completes.
\<close>

definition scan_before :: "(nat, string) dict" where
  "scan_before = \<lparr>dtype = nat_dictType,
     ht0 = \<lparr>ht_table = [[], [], [], [], [(4, ''four'')], [], [], [], [], [], [], [], [], [], [], []],
            ht_size = 16, ht_sizemask = 15, ht_used = 1\<rparr>,
     ht1 = dictReset, rehashidx = -1, iterators = 0\<rparr>"

definition scan_during :: "(nat, string) dict" where
  "scan_during = scan_before\<lparr>ht1 := \<lparr>ht_table = [[], [], [], []], ht_size = 4, ht_sizemask = 3, ht_used = 0\<rparr>, rehashidx := 0\<rparr>"

definition scan_after :: "(nat, string) dict" where
  "scan_after = scan_before\<lparr>ht0 := \<lparr>ht_table = [[(4, ''four'')], [], [], []], ht_size = 4, ht_sizemask = 3, ht_used = 1\<rparr>\<rparr>"

lemma bucket_pos:
  assumes "k \<le> 64" "v AND mask k = h AND mask k"
  shows "pos v div 2 ^ (64 - k) = pos h div 2 ^ (64 - k)"
proof -
  have b: "bit v n = bit h n" if "n < k" for n
    using arg_cong [OF assms(2), of "\<lambda>w. bit w n"] that assms(1) by (simp add: bit_and_iff bit_mask_iff)
  have "drop_bit (64 - k) (rev_bits v) = drop_bit (64 - k) (rev_bits h)"
  proof (rule bit_word_eqI)
    fix n assume "n < LENGTH(64)"
    show "bit (drop_bit (64 - k) (rev_bits v)) n = bit (drop_bit (64 - k) (rev_bits h)) n"
    proof (cases "n < k")
      case True
      then have "64 - k + n < 64" "63 - (64 - k + n) < k" using assms(1) by simp_all
      then show ?thesis using b by (simp add: bit_drop_bit_eq bit_rev_bits)
    next
      case False
      then have "64 \<le> 64 - k + n" by simp
      then show ?thesis using bit_imp_le_length [of "rev_bits _" "64 - k + n"] by (auto simp: bit_drop_bit_eq)
    qed
  qed
  then show ?thesis by (simp add: pos_div)
qed

lemma pos_inj: "pos v = pos w \<longleftrightarrow> v = w"
  unfolding pos_def by (metis rev_bits_rev unsigned_word_eqI)

lemma pos_power: "i < 64 \<Longrightarrow> pos (2 ^ i) = 2 ^ (63 - i)"
proof -
  assume i: "i < 64"
  have "rev_bits (2 ^ i) = 2 ^ (63 - i)"
    by (rule bit_word_eqI) (use i in \<open>auto simp: bit_rev_bits bit_exp_iff\<close>)
  moreover have "unat (2 ^ (63 - i) :: u64) = 2 ^ (63 - i)"
    by (rule bit_eqI) (auto simp: bit_unsigned_iff bit_exp_iff)
  ultimately show ?thesis by (simp add: pos_def)
qed

text \<open>The last calls: the cursor has passed the first of the four buckets.\<close>

lemma scan_after_step:
  assumes "pos v div 2 ^ 62 = p" "p \<noteq> 0"
  shows "\<exists>v'. dictScan scan_after v = Some (v', []) \<and> pos v' = (p + 1) * 2 ^ 62 mod 2 ^ 64"
proof -
  define i where "i = unat (v AND mask 2)"
  have "i \<noteq> 0"
  proof
    assume "i = 0"
    then have "v AND mask 2 = 0 AND mask 2" by (simp add: i_def unat_eq_0)
    from bucket_pos [OF _ this] assms show False using pos_0 [of 0] by simp
  qed
  moreover have "i < 4" by (simp add: i_def unat_and_mask)
  ultimately have "i = 1 \<or> i = 2 \<or> i = 3" by linarith
  then have "get_at (ht_table (ht0 scan_after)) (unat (v AND mask 2)) = Some []"
    unfolding i_def [symmetric] by (auto simp: scan_after_def scan_before_def)
  moreover have "of_nat (ht_sizemask (ht0 scan_after)) = (mask 2 :: u64)"
    by (simp add: scan_after_def scan_before_def mask_eq_exp_minus_1)
  moreover have "dictSize scan_after = 1" "\<not> dictIsRehashing scan_after"
    by (simp_all add: dictSize_def dictIsRehashing_def scan_after_def scan_before_def)
  ultimately have "dictScan scan_after v = Some (rev_bits (rev_bits (v OR NOT (mask 2)) + 1), [])"
    by (simp add: dictScan_def Let_def)
  then show ?thesis using pos_next [of 2 v] assms by simp
qed

lemma scan_before_step: "dictScan scan_before 0 = Some (8, [])"
proof -
  have "of_nat (ht_sizemask (ht0 scan_before)) = (mask 4 :: u64)"
    by (simp add: scan_before_def mask_eq_exp_minus_1)
  moreover have "get_at (ht_table (ht0 scan_before)) 0 = Some []" by (simp add: scan_before_def)
  moreover have "dictSize scan_before = 1" "\<not> dictIsRehashing scan_before"
    by (simp_all add: dictSize_def dictIsRehashing_def scan_before_def)
  ultimately have "dictScan scan_before 0 = Some (rev_bits (rev_bits (0 OR NOT (mask 4)) + 1), [])"
    by (simp add: dictScan_def Let_def)
  moreover have "pos (rev_bits (rev_bits (0 OR NOT (mask 4)) + 1)) = pos 8"
    using pos_next [of 4 0] pos_power [of 3] pos_0 [of 0] by simp
  ultimately show ?thesis by (simp only: pos_inj)
qed

lemma scan_during_step: "\<exists>v'. dictScan scan_during 8 = Some (v', []) \<and> pos v' = 2 ^ 62"
proof -
  define t0 where "t0 = ht1 scan_during"
  define t1 where "t1 = ht0 scan_during"
  have t: "(if ht_size (ht0 scan_during) > ht_size (ht1 scan_during) then (ht1 scan_during, ht0 scan_during)
      else (ht0 scan_during, ht1 scan_during)) = (t0, t1)"
    by (simp add: t0_def t1_def scan_during_def scan_before_def)
  have m: "of_nat (ht_sizemask t0) = (mask 2 :: u64)" "of_nat (ht_sizemask t1) = (mask 4 :: u64)"
    by (simp_all add: t0_def t1_def scan_during_def scan_before_def mask_eq_exp_minus_1)
  have live: "ht_live (dictHashKey scan_during) t1"
    by (rule ht_liveI [where n = 4])
      (simp_all add: t1_def scan_during_def scan_before_def dictHashKey_def nat_dictType_def)
  have "[2..<4] = [2, Suc 2]" by (simp add: upt_rec)
  then obtain u where u: "scan_loop t1 (mask 2) (mask 4) 8 [] = Some (u, [])" "u AND mask 2 = 8 AND mask 2"
    using scan_loop_spec [OF live _ _ _ refl, of 4 2 8 "[]"]
    by (auto simp: t1_def scan_during_def scan_before_def)
  have z: "unat (8 AND mask 2 :: u64) = 0" by (simp add: unat_and_mask)
  have g: "get_at (ht_table t0) 0 = Some []" by (simp add: t0_def scan_during_def)
  have "dictSize scan_during = 1" "dictIsRehashing scan_during"
    by (simp_all add: dictSize_def dictIsRehashing_def scan_during_def scan_before_def)
  then have "dictScan scan_during 8 = Some (rev_bits (rev_bits (u OR NOT (mask 2)) + 1), [])"
    unfolding dictScan_def t by (simp add: Let_def m z g u(1))
  moreover have "pos u div 2 ^ 62 = 0" using bucket_pos [OF _ u(2)] pos_power [of 3] by simp
  then have "pos (rev_bits (rev_bits (u OR NOT (mask 2)) + 1)) = 2 ^ 62" using pos_next [of 2 u] by simp
  ultimately show ?thesis by blast
qed

lemma nat_dict_wf:
  assumes "dtype d = nat_dictType" "ht0 d = dictReset \<or> ht_live (dictHashKey d) (ht0 d)"
    "dictIsRehashing d \<Longrightarrow> rehashidx d = 0 \<and> ht_live (dictHashKey d) (ht0 d) \<and> ht_live (dictHashKey d) (ht1 d)"
    "\<not> dictIsRehashing d \<Longrightarrow> ht1 d = dictReset" "distinct (map fst (dict_entries d))"
  shows "dict_wf d"
proof -
  have "dictCompareKeys d = (=)"
    by (auto simp: dictCompareKeys_def assms(1) nat_dictType_def fun_eq_iff)
  then show ?thesis using assms nat_dictType_ok distinct_key_classes by (auto simp: dict_wf_def)
qed

lemma scan_states_live:
  "ht_live (dictHashKey scan_before) (ht0 scan_before)" "ht_live (dictHashKey scan_during) (ht0 scan_during)"
  "ht_live (dictHashKey scan_during) (ht1 scan_during)" "ht_live (dictHashKey scan_after) (ht0 scan_after)"
proof -
  show "ht_live (dictHashKey scan_before) (ht0 scan_before)" "ht_live (dictHashKey scan_during) (ht0 scan_during)"
    by (rule ht_liveI [where n = 4], simp_all add: scan_during_def scan_before_def dictHashKey_def nat_dictType_def)+
  show "ht_live (dictHashKey scan_during) (ht1 scan_during)" "ht_live (dictHashKey scan_after) (ht0 scan_after)"
    by (rule ht_liveI [where n = 2], simp_all add: scan_during_def scan_after_def scan_before_def dictHashKey_def nat_dictType_def)+
qed

lemma scan_states_wf: "dict_wf scan_before" "dict_wf scan_during" "dict_wf scan_after"
  by (rule nat_dict_wf, (use scan_states_live in \<open>simp_all add: scan_before_def scan_during_def scan_after_def
      dictIsRehashing_def dict_entries_def ht_entries_def\<close>))+

lemma scan_states_key: "dict_map d 4 = Some ''four''" if "d = scan_before \<or> d = scan_during \<or> d = scan_after"
  using that by (auto simp: dict_map_def dict_entries_def ht_entries_def dictCompareKeys_def nat_dictType_def
      scan_before_def scan_during_def scan_after_def)

lemma scan_run_misses: "scan_run [scan_before, scan_during, scan_after, scan_after, scan_after] 0 = Some (0, [])"
proof -
  obtain v1 where v1: "dictScan scan_during 8 = Some (v1, [])" "pos v1 = 2 ^ 62" using scan_during_step by blast
  obtain v2 where v2: "dictScan scan_after v1 = Some (v2, [])" "pos v2 = 2 * 2 ^ 62"
    using scan_after_step [of v1 1] v1(2) by auto
  obtain v3 where v3: "dictScan scan_after v2 = Some (v3, [])" "pos v3 = 3 * 2 ^ 62"
    using scan_after_step [of v2 2] v2(2) by auto
  obtain v4 where v4: "dictScan scan_after v3 = Some (v4, [])" "pos v4 = 0"
    using scan_after_step [of v3 3] v3(2) by auto
  have "v1 \<noteq> 0" "v2 \<noteq> 0" "v3 \<noteq> 0" "v4 = 0"
    using v1(2) v2(2) v3(2) v4(2) by (simp_all flip: pos_0)
  then show ?thesis by (simp add: scan_before_step v1(1) v2(1) v3(1) v4(1))
qed

text \<open>
  C36: without that restriction the guarantee is lost. The dictionary \<open>scan_before\<close> has sixteen
  buckets and one key; \<open>dictResize\<close> starts its rehashing to four buckets, one step of
  \<open>dictRehash\<close> completes it. All three dictionaries are well formed and hold the key. A scan
  that makes its first call before, its second call during and its other calls after the
  rehashing ends normally and never hands out the key.
\<close>

theorem dictScan_misses_key:
  "dictResize ex_env scan_before = Some (DICT_OK, scan_during)
   \<and> dictRehash ex_env scan_during 1 = Some (0, scan_after)
   \<and> list_all (\<lambda>d. dict_wf d \<and> dict_map d 4 = Some ''four'') [scan_before, scan_during, scan_after]
   \<and> scan_run [scan_before, scan_during, scan_after, scan_after, scan_after] 0 = Some (0, [])"
proof -
  have "dictNextPower 4 = Some 4" by (simp add: dictNextPower_def dictNextPower_loop.simps)
  then have "dictResize ex_env scan_before = Some (DICT_OK, scan_during)"
    by (simp add: dictResize_def ex_env_def dictIsRehashing_def scan_before_def scan_during_def cast_int_id dictExpand_def numeral_eq_Suc)
  moreover have "dictRehash ex_env scan_during 1 = Some (0, scan_after)"
    by (simp add: dictRehash_def ex_env_def dictIsRehashing_def scan_before_def scan_during_def scan_after_def
        skip_empty.simps dictHashKey_def nat_dictType_def checked_dec_def finish_rehash_def)
  ultimately show ?thesis using scan_states_wf scan_states_key scan_run_misses by simp
qed


end
