(* ===== verification/Redis_Bytes.thy ===== *)
theory Redis_Bytes
  imports Redis_Prelude
begin

text \<open>
  Byte-addressed memory as the packed encodings of Redis use it: a block of memory is a
  list of bytes, \<open>memcpy\<close>, \<open>memmove\<close> and \<open>memset\<close> are checked reads and writes of ranges, a
  fixed-width integer is stored in little-endian order (\<^verbatim>\<open>endianconv.c\<close> reverses it on
  big-endian hosts). The bytes that \<open>realloc\<close> adds to a block are unknown: the argument
  \<open>junk\<close>.
\<close>

section \<open>Blocks of memory\<close>

type_synonym mem = "byte list"

definition read_bytes :: "mem \<Rightarrow> nat \<Rightarrow> nat \<Rightarrow> byte list option" where
  "read_bytes m off n = (if off + n \<le> length m then Some (take n (drop off m)) else None)"

definition write_bytes :: "mem \<Rightarrow> nat \<Rightarrow> byte list \<Rightarrow> mem option" where
  "write_bytes m off bs =
     (if off + length bs \<le> length m
      then Some (take off m @ bs @ drop (off + length bs) m) else None)"

definition memmove :: "mem \<Rightarrow> nat \<Rightarrow> nat \<Rightarrow> nat \<Rightarrow> mem option" where
  "memmove m dst src n = do { bs \<leftarrow> read_bytes m src n; write_bytes m dst bs }"

definition zrealloc :: "(nat \<Rightarrow> byte) \<Rightarrow> mem \<Rightarrow> nat \<Rightarrow> mem" where
  "zrealloc junk m n = take n m @ map junk [length m..<n]"

section \<open>Fixed-width integers\<close>

text \<open>The conversion to an unsigned integer of 32 bits.\<close>

definition u32_of :: "int \<Rightarrow> nat" where
  "u32_of x = nat (x mod 2 ^ 32)"

lemma u32_of_small [simp]: "0 \<le> x \<Longrightarrow> x < 2 ^ 32 \<Longrightarrow> u32_of x = nat x"
  by (simp add: u32_of_def)

lemma nat_int_sum_diff [simp]: "nat (int a + int b) = a + b" "nat (int a - int b) = a - b"
  by linarith+


fun le_bytes :: "nat \<Rightarrow> int \<Rightarrow> byte list" where
  "le_bytes 0 x = []"
| "le_bytes (Suc n) x = word_of_int x # le_bytes n (x div 256)"

fun le_uint :: "byte list \<Rightarrow> int" where
  "le_uint [] = 0"
| "le_uint (b # bs) = uint b + 256 * le_uint bs"

definition le_int :: "byte list \<Rightarrow> int" where
  "le_int bs = (let u = le_uint bs; w = 8 * length bs in
     if 2 * u \<ge> 2 ^ w then u - 2 ^ w else u)"

section \<open>Reversing the bytes of an integer in place\<close>

definition swap_at :: "mem \<Rightarrow> nat \<Rightarrow> nat \<Rightarrow> mem option" where
  "swap_at x i j = do {
     t \<leftarrow> get_at x i; u \<leftarrow> get_at x j;
     x1 \<leftarrow> set_at x i u; set_at x1 j t }"

definition memrev16 :: "mem \<Rightarrow> mem option" where
  "memrev16 x = swap_at x 0 1"

definition memrev32 :: "mem \<Rightarrow> mem option" where
  "memrev32 x = do { x \<leftarrow> swap_at x 0 3; swap_at x 1 2 }"

definition memrev64 :: "mem \<Rightarrow> mem option" where
  "memrev64 x = do {
     x \<leftarrow> swap_at x 0 7; x \<leftarrow> swap_at x 1 6; x \<leftarrow> swap_at x 2 5; swap_at x 3 4 }"

definition intrev16 :: "nat \<Rightarrow> nat option" where
  "intrev16 v = map_option (\<lambda>bs. nat (le_uint bs)) (memrev16 (le_bytes 2 (int v)))"

definition intrev32 :: "nat \<Rightarrow> nat option" where
  "intrev32 v = map_option (\<lambda>bs. nat (le_uint bs)) (memrev32 (le_bytes 4 (int v)))"

definition intrev64 :: "nat \<Rightarrow> nat option" where
  "intrev64 v = map_option (\<lambda>bs. nat (le_uint bs)) (memrev64 (le_bytes 8 (int v)))"

section \<open>Lemmas\<close>

lemma read_bytes_Some: "off + n \<le> length m \<Longrightarrow> read_bytes m off n = Some (take n (drop off m))"
  by (simp add: read_bytes_def)

lemma write_bytes_Some:
  "off + length bs \<le> length m \<Longrightarrow>
   write_bytes m off bs = Some (take off m @ bs @ drop (off + length bs) m)"
  by (simp add: write_bytes_def)

lemma length_write_bytes: "write_bytes m off bs = Some m' \<Longrightarrow> length m' = length m"
  by (auto simp: write_bytes_def split: if_splits)

lemma write_bytes_append:
  "write_bytes (a @ b @ c) (length a) b' = Some (a @ b' @ c)" if "length b' = length b"
  using that by (simp add: write_bytes_def)

lemma read_bytes_append: "read_bytes (a @ b @ c) (length a) (length b) = Some b"
  by (simp add: read_bytes_def)

lemma length_zrealloc [simp]: "length (zrealloc junk m n) = n"
  by (simp add: zrealloc_def)

lemma zrealloc_grow: "length m \<le> n \<Longrightarrow> zrealloc junk m n = m @ map junk [length m..<n]"
  by (simp add: zrealloc_def)

lemma zrealloc_shrink: "n \<le> length m \<Longrightarrow> zrealloc junk m n = take n m"
  by (simp add: zrealloc_def)

lemma zrealloc_cut: "length a = n \<Longrightarrow> zrealloc junk (a @ r) n = a"
  by (simp add: zrealloc_def)

lemma length_le_bytes [simp]: "length (le_bytes n x) = n"
  by (induction n arbitrary: x) auto

lemma uint_byte_of_int: "uint (word_of_int x :: byte) = x mod 256"
  by (simp add: uint_word_of_int)

lemma le_uint_le_bytes: "le_uint (le_bytes n x) = x mod 256 ^ n"
proof (induction n arbitrary: x)
  case (Suc n)
  have "x mod (256 * 256 ^ n) = 256 * (x div 256 mod 256 ^ n) + x mod 256"
    by (rule zmod_zmult2_eq) simp
  then show ?case by (simp add: Suc.IH uint_byte_of_int)
qed simp

lemma le_uint_bounds: "0 \<le> le_uint bs \<and> le_uint bs < 256 ^ length bs"
proof (induction bs)
  case (Cons b bs)
  have "uint b \<le> 255" "0 \<le> uint b" using uint_lt2p [of b] by auto
  with Cons show ?case by auto
qed simp

text \<open>The values an \<open>n\<close>-byte signed integer can hold, and the round trip.\<close>

definition fits :: "nat \<Rightarrow> int \<Rightarrow> bool" where
  "fits n x \<longleftrightarrow> - (2 ^ (8 * n)) \<le> 2 * x \<and> 2 * x < 2 ^ (8 * n)"

lemma power256: "(256::int) ^ n = 2 ^ (8 * n)"
  by (simp add: power_mult)

lemma le_int_le_bytes: "fits n x \<Longrightarrow> le_int (le_bytes n x) = x"
proof -
  assume f: "fits n x"
  let ?M = "2 ^ (8 * n) :: int"
  show ?thesis
  proof (cases "0 \<le> x")
    case True
    with f have "x mod ?M = x" by (simp add: fits_def)
    with f True show ?thesis
      by (simp add: le_int_def le_uint_le_bytes power256 Let_def fits_def)
  next
    case False
    with f have "x mod ?M = x + ?M"
      using mod_pos_pos_trivial [of "x + ?M" ?M] by (simp add: fits_def)
    with f False show ?thesis
      by (simp add: le_int_def le_uint_le_bytes power256 Let_def fits_def)
  qed
qed

lemma fits_le_int: "bs \<noteq> [] \<Longrightarrow> fits (length bs) (le_int bs)"
  using le_uint_bounds [of bs]
  by (auto simp: fits_def le_int_def power256 Let_def)

lemma fits_mono: "fits m x \<Longrightarrow> m \<le> n \<Longrightarrow> fits n x"
proof -
  assume f: "fits m x" and "m \<le> n"
  then have "(2::int) ^ (8 * m) \<le> 2 ^ (8 * n)" by (intro power_increasing) simp_all
  with f show ?thesis unfolding fits_def by linarith
qed

lemma le_bytes_le_uint: "length bs = n \<Longrightarrow> le_bytes n (le_uint bs) = bs"
proof (induction bs arbitrary: n)
  case (Cons b bs)
  have b: "uint b div 256 = 0" "uint b mod 256 = uint b"
    using uint_lt2p [of b] by auto
  have "word_of_int (uint b + 256 * le_uint bs) = (word_of_int (uint b) :: byte)"
    by (rule word_of_int_eq_iff [THEN iffD2]) (simp add: take_bit_eq_mod)
  then show ?case using Cons b by (cases n) (auto simp: div_add1_eq)
qed simp

lemma le_bytes_mod: "le_bytes n (x + k * 256 ^ n) = le_bytes n x"
proof (induction n arbitrary: x)
  case (Suc n)
  have eq: "x + k * 256 ^ Suc n = x + 256 * (k * 256 ^ n)" by simp
  have "word_of_int (x + k * 256 ^ Suc n) = (word_of_int x :: byte)"
    unfolding eq by (rule word_of_int_eq_iff [THEN iffD2]) (simp add: take_bit_eq_mod)
  moreover have "(x + k * 256 ^ Suc n) div 256 = x div 256 + k * 256 ^ n"
    unfolding eq by simp
  ultimately show ?case using Suc by simp
qed simp

lemma le_bytes_le_int: "length bs = n \<Longrightarrow> le_bytes n (le_int bs) = bs"
  using le_bytes_mod [of n "le_uint bs" "-1"] le_bytes_le_uint [of bs n]
  by (auto simp: le_int_def Let_def power256)

section \<open>Arrays of fixed-width integers\<close>

definition encode :: "nat \<Rightarrow> int list \<Rightarrow> mem" where
  "encode e vs = concat (map (le_bytes e) vs)"

lemma encode_simps [simp]:
  "encode e [] = []" "encode e (v # vs) = le_bytes e v @ encode e vs"
  "encode e (vs @ ws) = encode e vs @ encode e ws"
  by (simp_all add: encode_def)

lemma length_encode [simp]: "length (encode e vs) = length vs * e"
  by (induction vs) auto

lemma take_encode: "take (n * e) (encode e vs) = encode e (take n vs)"
proof (induction vs arbitrary: n)
  case (Cons v vs)
  then show ?case by (cases n) auto
qed simp

lemma drop_encode: "drop (n * e) (encode e vs) = encode e (drop n vs)"
proof (induction vs arbitrary: n)
  case (Cons v vs)
  then show ?case by (cases n) auto
qed simp

lemma nth_encode: "i < length vs \<Longrightarrow> take e (drop (i * e) (encode e vs)) = le_bytes e (vs ! i)"
  using take_encode [of 1 e "drop i vs"]
  by (simp add: drop_encode Cons_nth_drop_Suc [symmetric] take_Suc_conv_app_nth)

lemma read_encode:
  assumes "i < length vs"
  shows "read_bytes (encode e vs @ rest) (i * e) e = Some (le_bytes e (vs ! i))"
proof -
  have le: "i * e + e \<le> length vs * e" using mult_le_mono1 [of "Suc i" "length vs" e] assms by simp
  then have "take e (drop (i * e) (encode e vs @ rest)) = take e (drop (i * e) (encode e vs))"
    by simp
  with le assms show ?thesis by (simp add: read_bytes_def nth_encode)
qed

definition decode :: "nat \<Rightarrow> nat \<Rightarrow> mem \<Rightarrow> int list" where
  "decode e n m = map (\<lambda>i. le_int (take e (drop (i * e) m))) [0..<n]"

lemma decode_encode:
  assumes "\<forall>v \<in> set vs. fits e v"
  shows "decode e (length vs) (encode e vs @ rest) = vs"
proof (rule nth_equalityI)
  fix i assume "i < length (decode e (length vs) (encode e vs @ rest))"
  then have i: "i < length vs" by (simp add: decode_def)
  have "Suc i * e \<le> length vs * e" using i by (intro mult_le_mono1) simp
  then have "take e (drop (i * e) (encode e vs @ rest)) = le_bytes e (vs ! i)"
    using nth_encode [OF i, of e] by simp
  then show "decode e (length vs) (encode e vs @ rest) ! i = vs ! i"
    using i assms le_int_le_bytes by (simp add: decode_def)
qed (simp add: decode_def)

lemma encode_decode: "length m = n * e \<Longrightarrow> encode e (decode e n m) = m"
proof (induction n arbitrary: m)
  case (Suc n)
  have "decode e (Suc n) m = decode e n (take (n * e) m) @ [le_int (drop (n * e) m)]"
  proof -
    have "take e (drop (i * e) m) = take e (drop (i * e) (take (n * e) m))" if "i < n" for i
    proof -
      have "Suc i * e \<le> n * e" using that by (intro mult_le_mono1) simp
      then show ?thesis by (simp add: drop_take min_def)
    qed
    then show ?thesis using Suc.prems by (simp add: decode_def)
  qed
  moreover have "encode e (decode e n (take (n * e) m)) = take (n * e) m"
    by (rule Suc.IH) (use Suc.prems in simp)
  ultimately show ?case using Suc.prems le_bytes_le_int [of "drop (n * e) m" e] by simp
qed (simp add: decode_def)

lemma fits_decode:
  assumes "length m = n * e" and "0 < e" and "v \<in> set (decode e n m)"
  shows "fits e v"
proof -
  obtain i where i: "i < n" "v = le_int (take e (drop (i * e) m))"
    using assms(3) by (auto simp: decode_def)
  have "Suc i * e \<le> n * e" using i(1) by (intro mult_le_mono1) simp
  then have "length (take e (drop (i * e) m)) = e" using assms(1) by simp
  then show ?thesis using fits_le_int [of "take e (drop (i * e) m)"] i(2) assms(2) by fastforce
qed

section \<open>Byte reversal\<close>

lemma memrev16_rev: "length x = 2 \<Longrightarrow> memrev16 x = Some (rev x)"
  by (auto simp: memrev16_def swap_at_def numeral_2_eq_2 length_Suc_conv)

lemma memrev32_rev: "length x = 4 \<Longrightarrow> memrev32 x = Some (rev x)"
  by (auto simp: memrev32_def swap_at_def numeral_eq_Suc length_Suc_conv)

lemma memrev64_rev: "length x = 8 \<Longrightarrow> memrev64 x = Some (rev x)"
  by (auto simp: memrev64_def swap_at_def numeral_eq_Suc length_Suc_conv)

end
