(* ===== verification/Intset.thy ===== *)
theory Intset
  imports Redis_Bytes
begin

text \<open>
  The integer set of \<^verbatim>\<open>intset.c\<close>: a sorted array of distinct integers in one block of
  memory, all stored with the same width of 2, 4 or 8 bytes. The model keeps the bytes:
  the block is resized, tails are moved, and an upgrade to a wider encoding rewrites the
  array in place from the end. On little-endian hosts the \<open>ifbe\<close> macros do nothing.
  A \<open>None\<close> is an access outside the block.
\<close>

section \<open>The structure\<close>

record intset =
  is_encoding :: nat
  is_length :: nat
  is_contents :: mem

abbreviation INTSET_ENC_INT16 :: nat where "INTSET_ENC_INT16 \<equiv> 2"
abbreviation INTSET_ENC_INT32 :: nat where "INTSET_ENC_INT32 \<equiv> 4"
abbreviation INTSET_ENC_INT64 :: nat where "INTSET_ENC_INT64 \<equiv> 8"

definition intsetValueEncoding :: "int \<Rightarrow> nat" where
  "intsetValueEncoding v =
     (if v < - (2 ^ 31) \<or> v > 2 ^ 31 - 1 then INTSET_ENC_INT64
      else if v < - (2 ^ 15) \<or> v > 2 ^ 15 - 1 then INTSET_ENC_INT32
      else INTSET_ENC_INT16)"

text \<open>The width that an encoding selects; anything else is treated as 16 bits.\<close>

definition enc_width :: "nat \<Rightarrow> nat" where
  "enc_width enc =
     (if enc = INTSET_ENC_INT64 then 8 else if enc = INTSET_ENC_INT32 then 4 else 2)"

definition intsetGetEncoded :: "intset \<Rightarrow> nat \<Rightarrow> nat \<Rightarrow> int option" where
  "intsetGetEncoded s pos enc =
     (let w = enc_width enc in map_option le_int (read_bytes (is_contents s) (pos * w) w))"

definition intsetGet_at :: "intset \<Rightarrow> nat \<Rightarrow> int option" where
  "intsetGet_at s pos = intsetGetEncoded s pos (is_encoding s)"

definition intsetSet_at :: "intset \<Rightarrow> nat \<Rightarrow> int \<Rightarrow> intset option" where
  "intsetSet_at s pos v =
     (let w = enc_width (is_encoding s) in
      map_option (\<lambda>m. s\<lparr>is_contents := m\<rparr>) (write_bytes (is_contents s) (pos * w) (le_bytes w v)))"

definition intsetNew :: intset where
  "intsetNew = \<lparr>is_encoding = INTSET_ENC_INT16, is_length = 0, is_contents = []\<rparr>"

definition intsetResize :: "(nat \<Rightarrow> byte) \<Rightarrow> intset \<Rightarrow> nat \<Rightarrow> intset" where
  "intsetResize junk s len =
     (let sz = (len * is_encoding s) mod 2 ^ 32
      in s\<lparr>is_contents := zrealloc junk (is_contents s) sz\<rparr>)"

section \<open>Binary search\<close>

text \<open>The loop: the final \<open>min\<close>, the last \<open>mid\<close> and the element read there.\<close>

function intsetSearch_loop ::
  "intset \<Rightarrow> int \<Rightarrow> int \<Rightarrow> int \<Rightarrow> int \<Rightarrow> int \<Rightarrow> (int \<times> int \<times> int) option" where
  "intsetSearch_loop s v mn mx mid cur =
     (if mx \<ge> mn then
        let mid' = (mn + mx) div 2 in
        (case intsetGet_at s (nat mid') of
           None \<Rightarrow> None
         | Some cur' \<Rightarrow>
             if v > cur' then intsetSearch_loop s v (mid' + 1) mx mid' cur'
             else if v < cur' then intsetSearch_loop s v mn (mid' - 1) mid' cur'
             else Some (mn, mid', cur'))
      else Some (mn, mid, cur))"
  by pat_completeness auto
termination
  by (relation "measure (\<lambda>(s, v, mn, mx, mid, cur). nat (mx - mn + 1))") auto

declare intsetSearch_loop.simps [simp del]

definition intsetSearch :: "intset \<Rightarrow> int \<Rightarrow> (bool \<times> nat) option" where
  "intsetSearch s v =
     (if is_length s = 0 then Some (False, 0)
      else do {
        hi \<leftarrow> intsetGet_at s (is_length s - 1);
        if v > hi then Some (False, is_length s)
        else do {
          lo \<leftarrow> intsetGet_at s 0;
          if v < lo then Some (False, 0)
          else do {
            (mn, mid, cur) \<leftarrow> intsetSearch_loop s v 0 (int (is_length s) - 1) (-1) (-1);
            if v = cur then Some (True, nat mid) else Some (False, nat mn) } } })"

section \<open>Upgrading, inserting, removing\<close>

fun upgrade_loop :: "nat \<Rightarrow> nat \<Rightarrow> nat \<Rightarrow> intset \<Rightarrow> intset option" where
  "upgrade_loop curenc prepend 0 s = Some s"
| "upgrade_loop curenc prepend (Suc len) s = do {
     v \<leftarrow> intsetGetEncoded s len curenc;
     s1 \<leftarrow> intsetSet_at s (len + prepend) v;
     upgrade_loop curenc prepend len s1 }"

definition intsetUpgradeAndAdd :: "(nat \<Rightarrow> byte) \<Rightarrow> intset \<Rightarrow> int \<Rightarrow> intset option" where
  "intsetUpgradeAndAdd junk s v =
     (let curenc = is_encoding s; newenc = intsetValueEncoding v; len = is_length s;
          prepend = (if v < 0 then 1 else 0);
          s1 = intsetResize junk (s\<lparr>is_encoding := newenc\<rparr>) ((len + 1) mod 2 ^ 32)
      in do {
        s2 \<leftarrow> upgrade_loop curenc prepend len s1;
        s3 \<leftarrow> (if prepend = 1 then intsetSet_at s2 0 v else intsetSet_at s2 (is_length s2) v);
        Some (s3\<lparr>is_length := (is_length s3 + 1) mod 2 ^ 32\<rparr>) })"

definition intsetMoveTail :: "intset \<Rightarrow> nat \<Rightarrow> nat \<Rightarrow> intset option" where
  "intsetMoveTail s from to =
     (let w = enc_width (is_encoding s); bytes = ((is_length s - from) * w) mod 2 ^ 32
      in map_option (\<lambda>m. s\<lparr>is_contents := m\<rparr>) (memmove (is_contents s) (to * w) (from * w) bytes))"

definition intsetAdd :: "(nat \<Rightarrow> byte) \<Rightarrow> intset \<Rightarrow> int \<Rightarrow> (bool \<times> intset) option" where
  "intsetAdd junk s v =
     (if intsetValueEncoding v > is_encoding s
      then map_option (\<lambda>s'. (True, s')) (intsetUpgradeAndAdd junk s v)
      else do {
        (found, pos) \<leftarrow> intsetSearch s v;
        if found then Some (False, s)
        else do {
          s2 \<leftarrow> (let s1 = intsetResize junk s ((is_length s + 1) mod 2 ^ 32) in
                 if pos < is_length s1 then intsetMoveTail s1 pos (pos + 1) else Some s1);
          s3 \<leftarrow> intsetSet_at s2 pos v;
          Some (True, s3\<lparr>is_length := (is_length s3 + 1) mod 2 ^ 32\<rparr>) } })"

definition intsetRemove :: "(nat \<Rightarrow> byte) \<Rightarrow> intset \<Rightarrow> int \<Rightarrow> (bool \<times> intset) option" where
  "intsetRemove junk s v =
     (if intsetValueEncoding v \<le> is_encoding s
      then do {
        (found, pos) \<leftarrow> intsetSearch s v;
        if found then do {
          s1 \<leftarrow> (if pos < is_length s - 1 then intsetMoveTail s (pos + 1) pos else Some s);
          let s2 = intsetResize junk s1 (is_length s - 1);
          Some (True, s2\<lparr>is_length := is_length s - 1\<rparr>) }
        else Some (False, s) }
      else Some (False, s))"

definition intsetFind :: "intset \<Rightarrow> int \<Rightarrow> bool option" where
  "intsetFind s v =
     (if intsetValueEncoding v \<le> is_encoding s
      then map_option fst (intsetSearch s v) else Some False)"

section \<open>Reading\<close>

text \<open>\<open>rand\<close> is the value the library function of that name returned.\<close>

definition intsetRandom :: "nat \<Rightarrow> intset \<Rightarrow> int option" where
  "intsetRandom rand s = (if is_length s = 0 then None else intsetGet_at s (rand mod is_length s))"

definition intsetGet :: "intset \<Rightarrow> nat \<Rightarrow> (int option) option" where
  "intsetGet s pos =
     (if pos < is_length s then map_option Some (intsetGet_at s pos) else Some None)"

definition intsetLen :: "intset \<Rightarrow> nat" where
  "intsetLen s = is_length s"

definition intsetBlobLen :: "intset \<Rightarrow> nat" where
  "intsetBlobLen s = 8 + (is_length s * is_encoding s) mod 2 ^ 32"

section \<open>The invariant\<close>

definition intset_list :: "intset \<Rightarrow> int list" where
  "intset_list s = decode (is_encoding s) (is_length s) (is_contents s)"

definition intset_wf :: "intset \<Rightarrow> bool" where
  "intset_wf s \<longleftrightarrow> is_encoding s \<in> {2, 4, 8}
     \<and> length (is_contents s) = is_length s * is_encoding s
     \<and> is_length s * is_encoding s < 2 ^ 32
     \<and> sorted_wrt (<) (intset_list s)"

text \<open>The block of a well-formed set, as the list of values it holds.\<close>

definition intset_rep :: "intset \<Rightarrow> int list \<Rightarrow> bool" where
  "intset_rep s vs \<longleftrightarrow> is_encoding s \<in> {2, 4, 8} \<and> is_contents s = encode (is_encoding s) vs
     \<and> is_length s = length vs \<and> length vs * is_encoding s < 2 ^ 32
     \<and> sorted_wrt (<) vs \<and> (\<forall>v \<in> set vs. fits (is_encoding s) v)"

lemma enc_width_id [simp]: "e \<in> {2, 4, 8} \<Longrightarrow> enc_width e = e"
  by (auto simp: enc_width_def)

lemma intset_rep_list: "intset_rep s vs \<Longrightarrow> intset_list s = vs"
  using decode_encode [of vs "is_encoding s" "[]"] by (simp add: intset_rep_def intset_list_def)

lemma intset_rep_wf: "intset_rep s vs \<Longrightarrow> intset_wf s"
  using intset_rep_list [of s vs] by (simp add: intset_rep_def intset_wf_def)

lemma intset_wf_rep: "intset_wf s \<Longrightarrow> intset_rep s (intset_list s)"
  using fits_decode [of "is_contents s" "is_length s" "is_encoding s"]
    encode_decode [of "is_contents s" "is_length s" "is_encoding s"]
  by (auto simp: intset_rep_def intset_wf_def intset_list_def decode_def)

lemma intset_len_bound: "intset_rep s vs \<Longrightarrow> length vs < 2 ^ 31"
  by (auto simp: intset_rep_def)

lemma intsetValueEncoding_fits: "fits 8 v \<Longrightarrow> fits (intsetValueEncoding v) v"
  by (auto simp: intsetValueEncoding_def fits_def)

lemma intsetValueEncoding_le: "e \<in> {2, 4, 8} \<Longrightarrow> fits 8 v \<Longrightarrow> intsetValueEncoding v \<le> e \<longleftrightarrow> fits e v"
  by (auto simp: intsetValueEncoding_def fits_def)

lemma intsetValueEncoding_range: "intsetValueEncoding v \<in> {2, 4, 8}"
  by (simp add: intsetValueEncoding_def)

section \<open>Reading\<close>

lemma intsetGet_at_rep:
  assumes "intset_rep s vs" and "i < length vs"
  shows "intsetGet_at s i = Some (vs ! i)"
proof -
  have "read_bytes (encode (is_encoding s) vs) (i * is_encoding s) (is_encoding s)
      = Some (le_bytes (is_encoding s) (vs ! i))"
    using read_encode [OF assms(2), of _ "[]"] by simp
  then show ?thesis
    using assms by (simp add: intset_rep_def intsetGet_at_def intsetGetEncoded_def le_int_le_bytes)
qed

section \<open>Searching\<close>

text \<open>What the search returns: the place of the value, or the place where it belongs.\<close>

definition search_post :: "int list \<Rightarrow> int \<Rightarrow> bool \<Rightarrow> nat \<Rightarrow> bool" where
  "search_post vs v found pos \<longleftrightarrow>
     (if found then pos < length vs \<and> vs ! pos = v
      else pos \<le> length vs \<and> (\<forall>i < pos. vs ! i < v)
           \<and> (\<forall>i. pos \<le> i \<and> i < length vs \<longrightarrow> v < vs ! i))"

lemma sorted_nth_less: "sorted_wrt (<) vs \<Longrightarrow> i < j \<Longrightarrow> j < length vs \<Longrightarrow> vs ! i < (vs ! j :: int)"
  by (rule sorted_wrt_nth_less)

lemma intsetSearch_loop_spec:
  assumes rep: "intset_rep s vs"
    and "0 \<le> mn" and "mx < int (length vs)" and "mn \<le> mx + 1" and "mn \<le> mx \<or> cur \<noteq> v"
    and "\<forall>i. int i < mn \<longrightarrow> i < length vs \<longrightarrow> vs ! i < v"
    and "\<forall>i. mx < int i \<longrightarrow> i < length vs \<longrightarrow> v < vs ! i"
  shows "\<exists>mn' mid' cur'. intsetSearch_loop s v mn mx mid cur = Some (mn', mid', cur')
    \<and> search_post vs v (v = cur') (if v = cur' then nat mid' else nat mn')"
  using assms
proof (induction s v mn mx mid cur rule: intsetSearch_loop.induct)
  case (1 s v mn mx mid cur)
  note rep = "1.prems"(1)
  have sorted: "sorted_wrt (<) vs" using rep by (simp add: intset_rep_def)
  show ?case
  proof (cases "mx \<ge> mn")
    case False
    with "1.prems" show ?thesis
      by (subst intsetSearch_loop.simps) (auto simp: search_post_def)
  next
    case True
    define m where "m = (mn + mx) div 2"
    have m: "mn \<le> m" "m \<le> mx" using True by (auto simp: m_def)
    with "1.prems"(2,3) have nm: "nat m < length vs" "int (nat m) = m" by auto
    have get: "intsetGet_at s (nat m) = Some (vs ! nat m)" by (rule intsetGet_at_rep [OF rep nm(1)])
    have below: "vs ! i < vs ! nat m" if "int i < m" for i
      using sorted_nth_less [OF sorted _ nm(1), of i] that by simp
    have above: "vs ! nat m < vs ! i" if "m < int i" "i < length vs" for i
      using sorted_nth_less [OF sorted _ that(2), of "nat m"] that nm(2) by linarith
    consider (gt) "v > vs ! nat m" | (lt) "v < vs ! nat m" | (eq) "v = vs ! nat m" by linarith
    then show ?thesis
    proof cases
      case gt
      then have ne: "vs ! nat m \<noteq> v" by simp
      have "\<forall>i. int i < m + 1 \<longrightarrow> i < length vs \<longrightarrow> vs ! i < v"
        using gt below nm(2) by (metis zless_add1_eq order.strict_trans nat_int)
      then have "\<exists>mn' mid' cur'. intsetSearch_loop s v (m + 1) mx m (vs ! nat m) = Some (mn', mid', cur')
        \<and> search_post vs v (v = cur') (if v = cur' then nat mid' else nat mn')"
        unfolding m_def
        by (intro "1.IH"(1)) (use True gt ne get m "1.prems" in \<open>simp_all add: m_def [symmetric]\<close>)
      then show ?thesis using True gt get
        by (subst intsetSearch_loop.simps) (simp add: m_def [symmetric] Let_def)
    next
      case lt
      then have ne: "vs ! nat m \<noteq> v" "\<not> vs ! nat m < v" by simp_all
      have "\<forall>i. m - 1 < int i \<longrightarrow> i < length vs \<longrightarrow> v < vs ! i"
        using lt above nm(2) by (metis zle_diff1_eq linorder_not_le order.strict_trans order_le_less nat_int)
      then have "\<exists>mn' mid' cur'. intsetSearch_loop s v mn (m - 1) m (vs ! nat m) = Some (mn', mid', cur')
        \<and> search_post vs v (v = cur') (if v = cur' then nat mid' else nat mn')"
        unfolding m_def
        by (intro "1.IH"(2)) (use True lt ne get m "1.prems" in \<open>simp_all add: m_def [symmetric]\<close>)
      then show ?thesis using True lt get
        by (subst intsetSearch_loop.simps) (simp add: m_def [symmetric] Let_def)
    next
      case eq
      then show ?thesis using True get nm(1)
        by (subst intsetSearch_loop.simps) (simp add: m_def [symmetric] Let_def search_post_def)
    qed
  qed
qed

lemma intsetSearch_spec:
  assumes rep: "intset_rep s vs"
  shows "\<exists>found pos. intsetSearch s v = Some (found, pos) \<and> search_post vs v found pos"
proof (cases "vs = []")
  case True
  then show ?thesis using rep by (auto simp: intset_rep_def intsetSearch_def search_post_def)
next
  case False
  then have len: "is_length s = length vs" "0 < length vs" using rep by (simp_all add: intset_rep_def)
  have sorted: "sorted_wrt (<) vs" using rep by (simp add: intset_rep_def)
  have get: "intsetGet_at s (length vs - 1) = Some (vs ! (length vs - 1))" "intsetGet_at s 0 = Some (vs ! 0)"
    using intsetGet_at_rep [OF rep] len(2) by simp_all
  consider "v > vs ! (length vs - 1)" | "v \<le> vs ! (length vs - 1)" "v < vs ! 0"
    | "v \<le> vs ! (length vs - 1)" "vs ! 0 \<le> v" by linarith
  then show ?thesis
  proof cases
    case 1
    have "vs ! i < v" if "i < length vs" for i
    proof (cases "i = length vs - 1")
      case False
      with that have "vs ! i < vs ! (length vs - 1)"
        by (intro sorted_nth_less [OF sorted]) simp_all
      with 1 show ?thesis by simp
    qed (use 1 in simp)
    then show ?thesis using 1 get len by (auto simp: intsetSearch_def search_post_def)
  next
    case 2
    have "v < vs ! i" if "i < length vs" for i
      using that 2(2) sorted_nth_less [OF sorted, of 0 i] by (cases "i = 0") auto
    then show ?thesis using 2 get len by (auto simp: intsetSearch_def search_post_def)
  next
    case 3
    obtain mn' mid' cur' where
      "intsetSearch_loop s v 0 (int (length vs) - 1) (-1) (-1) = Some (mn', mid', cur')"
      "search_post vs v (v = cur') (if v = cur' then nat mid' else nat mn')"
      using intsetSearch_loop_spec [OF rep, of 0 "int (length vs) - 1" "-1" v "-1"] len(2) by auto
    then show ?thesis using 3 get len
      by (intro exI [of _ "v = cur'"] exI [of _ "if v = cur' then nat mid' else nat mn'"])
        (simp add: intsetSearch_def)
  qed
qed

lemma search_found:
  assumes "sorted_wrt (<) vs" and "search_post vs v found pos"
  shows "found \<longleftrightarrow> v \<in> set vs"
  using assms(2) by (auto simp: search_post_def in_set_conv_nth split: if_splits)
    (metis linorder_neq_iff not_le_imp_less)

section \<open>Inserting and removing without an upgrade\<close>

lemma sorted_insert_at:
  assumes "sorted_wrt (<) vs" and "search_post vs (v::int) False pos"
  shows "sorted_wrt (<) (take pos vs @ v # drop pos vs)"
proof -
  have "x < v" if "x \<in> set (take pos vs)" for x
    using that assms(2) by (auto simp: search_post_def in_set_conv_nth)
  moreover have "v < x" if "x \<in> set (drop pos vs)" for x
    using that assms(2) by (auto simp: search_post_def in_set_conv_nth)
  moreover have "sorted_wrt (<) (take pos vs @ drop pos vs)" using assms(1) by simp
  ultimately show ?thesis
    unfolding sorted_wrt_append by (auto intro: order.strict_trans)
qed

lemma set_insert_at: "set (take pos vs @ v # drop pos vs) = insert v (set vs)"
  using set_append [of "take pos vs" "drop pos vs"] by auto

lemma sorted_remove_at:
  assumes "sorted_wrt (<) (vs :: int list)" and "pos < length vs"
  shows "sorted_wrt (<) (take pos vs @ drop (Suc pos) vs)"
    and "set (take pos vs @ drop (Suc pos) vs) = set vs - {vs ! pos}"
proof -
  have vs: "vs = take pos vs @ vs ! pos # drop (Suc pos) vs" using assms(2) by (rule id_take_nth_drop)
  from assms(1) have s: "sorted_wrt (<) (take pos vs @ vs ! pos # drop (Suc pos) vs)" using vs by simp
  then show "sorted_wrt (<) (take pos vs @ drop (Suc pos) vs)"
    unfolding sorted_wrt_append by auto
  have "vs ! pos \<notin> set (take pos vs @ drop (Suc pos) vs)"
    using s unfolding sorted_wrt_append by auto
  moreover have "set vs = insert (vs ! pos) (set (take pos vs @ drop (Suc pos) vs))"
    using arg_cong [OF vs, of set] by simp
  ultimately show "set (take pos vs @ drop (Suc pos) vs) = set vs - {vs ! pos}" by auto
qed

lemma intsetResize_grow:
  assumes "intset_rep s vs" and "(length vs + 1) * is_encoding s < 2 ^ 32"
  shows "\<exists>J. length J = is_encoding s
    \<and> intsetResize junk s (length vs + 1) = s\<lparr>is_contents := encode (is_encoding s) vs @ J\<rparr>"
  using assms
  by (intro exI [of _ "map junk [length vs * is_encoding s..<(length vs + 1) * is_encoding s]"])
    (simp add: intsetResize_def intset_rep_def Let_def zrealloc_grow)

text \<open>Moving the tail up by one element and writing the new one.\<close>

lemma move_tail_up:
  assumes "pos < length vs" and "length J = e"
  shows "memmove (encode e vs @ J) ((pos + 1) * e) (pos * e) ((length vs - pos) * e)
     = Some (take ((pos + 1) * e) (encode e vs @ J) @ encode e (drop pos vs))"
proof -
  have len: "pos * e + (length vs - pos) * e = length vs * e"
    using assms(1) by (simp add: add_mult_distrib [symmetric])
  then have "read_bytes (encode e vs @ J) (pos * e) ((length vs - pos) * e) = Some (encode e (drop pos vs))"
    by (simp add: read_bytes_def drop_encode)
  moreover have "write_bytes (encode e vs @ J) ((pos + 1) * e) (encode e (drop pos vs))
     = Some (take ((pos + 1) * e) (encode e vs @ J) @ encode e (drop pos vs))"
    using len assms by (simp add: write_bytes_def algebra_simps)
  ultimately show ?thesis by (simp add: memmove_def)
qed

lemma write_slot:
  assumes "length A = pos * e" and "length B = e"
  shows "write_bytes (A @ B @ C) (pos * e) (le_bytes e v) = Some (A @ le_bytes e v @ C)"
  using write_bytes_append [of "le_bytes e v" B A C] assms by simp

lemma insert_at_rep:
  assumes rep: "intset_rep s vs" and fit: "fits (is_encoding s) v"
    and room: "(length vs + 1) * is_encoding s < 2 ^ 32" and post: "search_post vs v False pos"
  shows "\<exists>s2 s3. (let s1 = intsetResize junk s ((is_length s + 1) mod 2 ^ 32) in
         if pos < is_length s1 then intsetMoveTail s1 pos (pos + 1) else Some s1) = Some s2
    \<and> intsetSet_at s2 pos v = Some s3
    \<and> intset_rep (s3\<lparr>is_length := (is_length s3 + 1) mod 2 ^ 32\<rparr>) (take pos vs @ v # drop pos vs)"
proof -
  define e where "e = is_encoding s"
  have e: "e \<in> {2, 4, 8}" "is_length s = length vs" "sorted_wrt (<) vs" "\<forall>v \<in> set vs. fits e v"
    using rep by (simp_all add: intset_rep_def e_def)
  have pos: "pos \<le> length vs" using post by (simp add: search_post_def)
  have wrap: "(length vs + 1) mod 2 ^ 32 = length vs + 1" using intset_len_bound [OF rep] by simp
  obtain J where J: "length J = e"
    "intsetResize junk s (length vs + 1) = s\<lparr>is_contents := encode e vs @ J\<rparr>"
    using intsetResize_grow [OF rep room] by (auto simp: e_def)
  define B where "B = take e (drop (pos * e) (encode e vs @ J))"
  have B: "length B = e" using J(1) pos by (simp add: B_def)
  let ?s1 = "s\<lparr>is_contents := encode e vs @ J\<rparr>"
  have split: "take ((pos + 1) * e) (encode e vs @ J) = encode e (take pos vs) @ B"
    using pos take_encode [of pos e vs]
    by (simp add: B_def add.commute [of e] take_add [of "pos * e" e])
  have "(if pos < is_length ?s1 then intsetMoveTail ?s1 pos (pos + 1) else Some ?s1)
      = Some (s\<lparr>is_contents := encode e (take pos vs) @ B @ encode e (drop pos vs)\<rparr>)"
  proof (cases "pos < length vs")
    case True
    have "((length vs - pos) * e) mod 2 ^ 32 = (length vs - pos) * e"
      using room mult_le_mono1 [of "length vs - pos" "length vs + 1" e] unfolding e_def
      by (intro mod_less) linarith
    then show ?thesis
      using True move_tail_up [OF True J(1)] e(1,2) split
      by (simp add: intsetMoveTail_def e_def [symmetric] Let_def)
  next
    case False
    with pos J(1) split e(2) show ?thesis by (simp add: B_def)
  qed
  moreover have "intsetSet_at (s\<lparr>is_contents := encode e (take pos vs) @ B @ encode e (drop pos vs)\<rparr>) pos v
      = Some (s\<lparr>is_contents := encode e (take pos vs) @ le_bytes e v @ encode e (drop pos vs)\<rparr>)"
    using write_slot [of "encode e (take pos vs)" pos e B] pos B e(1)
    by (simp add: intsetSet_at_def e_def [symmetric] Let_def min_def)
  moreover have "intset_rep (s\<lparr>is_contents := encode e (take pos vs) @ le_bytes e v @ encode e (drop pos vs),
       is_length := (length vs + 1) mod 2 ^ 32\<rparr>) (take pos vs @ v # drop pos vs)"
    using sorted_insert_at [OF e(3) post] set_insert_at [of pos vs v] room fit e pos wrap
    by (auto simp: intset_rep_def e_def [symmetric])
  ultimately show ?thesis
    using J(2) e(2) wrap by (simp add: Let_def)
qed

lemma move_tail_down:
  assumes "pos < length vs"
  shows "\<exists>R. memmove (encode e vs) (pos * e) ((pos + 1) * e) ((length vs - (pos + 1)) * e)
     = Some (encode e (take pos vs @ drop (Suc pos) vs) @ R)"
proof -
  have len: "(pos + 1) * e + (length vs - (pos + 1)) * e = length vs * e"
  proof -
    have "pos + 1 + (length vs - (pos + 1)) = length vs" using assms by simp
    then show ?thesis by (metis add_mult_distrib)
  qed
  have "read_bytes (encode e vs) ((pos + 1) * e) ((length vs - (pos + 1)) * e)
      = Some (encode e (drop (Suc pos) vs))"
    using len drop_encode [of "Suc pos" e vs] by (simp add: read_bytes_def)
  moreover have "take (pos * e) (encode e vs) = encode e (take pos vs)" by (rule take_encode)
  ultimately show ?thesis using len by (simp add: memmove_def write_bytes_def)
qed

lemma remove_at_rep:
  assumes rep: "intset_rep s vs" and pos: "pos < length vs"
  shows "\<exists>s1. (if pos < is_length s - 1 then intsetMoveTail s (pos + 1) pos else Some s) = Some s1
    \<and> intset_rep ((intsetResize junk s1 (is_length s - 1))\<lparr>is_length := is_length s - 1\<rparr>)
        (take pos vs @ drop (Suc pos) vs)"
proof -
  define e where "e = is_encoding s"
  let ?ws = "take pos vs @ drop (Suc pos) vs"
  have e: "e \<in> {2, 4, 8}" "is_length s = length vs" "sorted_wrt (<) vs" "\<forall>v \<in> set vs. fits e v"
    "is_contents s = encode e vs" "length vs * e < 2 ^ 32"
    using rep by (simp_all add: intset_rep_def e_def)
  have small: "(length vs - (pos + 1)) * e < 2 ^ 32" "(length vs - 1) * e < 2 ^ 32"
    using e(6) mult_le_mono1 [of "length vs - (pos + 1)" "length vs" e]
      mult_le_mono1 [of "length vs - 1" "length vs" e] by linarith+
  have ws: "length ?ws = length vs - 1" using pos by simp
  have "\<exists>R. (if pos < length vs - 1 then intsetMoveTail s (pos + 1) pos else Some s)
      = Some (s\<lparr>is_contents := encode e ?ws @ R\<rparr>)"
  proof (cases "pos < length vs - 1")
    case True
    then show ?thesis
      using move_tail_down [OF pos, of e] e(1,2,5) small
      by (auto simp: intsetMoveTail_def e_def [symmetric] Let_def)
  next
    case False
    with pos have "vs = ?ws @ [vs ! pos]" using id_take_nth_drop [OF pos] by simp
    then have "s = s\<lparr>is_contents := encode e ?ws @ encode e [vs ! pos]\<rparr>"
      using e(5) by (metis encode_simps(3) intset.surjective intset.update_convs(3))
    with False show ?thesis by metis
  qed
  then obtain R where R: "(if pos < is_length s - 1 then intsetMoveTail s (pos + 1) pos else Some s)
      = Some (s\<lparr>is_contents := encode e ?ws @ R\<rparr>)" using e(2) by auto
  have "intsetResize junk (s\<lparr>is_contents := encode e ?ws @ R\<rparr>) (length vs - 1)
      = s\<lparr>is_contents := encode e ?ws\<rparr>"
  proof -
    have "zrealloc junk (encode e ?ws @ R) ((length vs - 1) * e) = encode e ?ws"
      by (rule zrealloc_cut) (simp only: length_encode ws)
    then show ?thesis using small(2)
      by (simp add: intsetResize_def e_def [symmetric] Let_def del: encode_simps)
  qed
  moreover have "intset_rep (s\<lparr>is_contents := encode e ?ws, is_length := length vs - 1\<rparr>) ?ws"
    using e ws small(2) sorted_remove_at [OF e(3) pos]
    by (simp add: intset_rep_def e_def [symmetric] del: encode_simps set_append)
  ultimately show ?thesis using R e(2) by simp
qed

section \<open>Upgrading in place\<close>

text \<open>
  The loop runs from the last element to the first, so that the wider copies never
  overwrite elements that are still to be read.
\<close>

lemma upgrade_loop_spec:
  assumes "is_encoding s = ne" and "ne \<in> {2, 4, 8}" and "ce \<in> {2, 4, 8}" and "ce \<le> ne"
    and "\<forall>v \<in> set vs. fits ce v" and "n \<le> length vs" and "(n + p) * ne \<le> length (is_contents s)"
    and "take (n * ce) (is_contents s) = encode ce (take n vs)"
  shows "upgrade_loop ce p n s = Some (s\<lparr>is_contents :=
    take (p * ne) (is_contents s) @ encode ne (take n vs) @ drop ((n + p) * ne) (is_contents s)\<rparr>)"
  using assms
proof (induction n arbitrary: s)
  case (Suc n)
  let ?M = "is_contents s"
  note w = Suc.prems(2,3)
  have nv: "n < length vs" using Suc.prems(6) by simp
  have tk: "take (Suc n) vs = take n vs @ [vs ! n]" using nv by (rule take_Suc_conv_app_nth)
  have le: "n * ce + ce \<le> length ?M" "n * ce \<le> (n + p) * ne" "Suc n * ce = n * ce + ce"
    using mult_le_mono [of "Suc n" "Suc n + p" ce ne] mult_le_mono [of n "n + p" ce ne] Suc.prems(4,7)
    by simp_all
  have "take ce (drop (n * ce) ?M) = drop (n * ce) (take (Suc n * ce) ?M)"
    by (simp add: drop_take)
  also have "\<dots> = le_bytes ce (vs ! n)"
    unfolding Suc.prems(8) tk using nv by (simp add: min_def)
  finally have rd: "intsetGetEncoded s n ce = Some (vs ! n)"
    using le(1) w nv Suc.prems(5) by (simp add: intsetGetEncoded_def read_bytes_def le_int_le_bytes)
  define M1 where "M1 = take ((n + p) * ne) ?M @ le_bytes ne (vs ! n) @ drop ((Suc n + p) * ne) ?M"
  have room: "(n + p) * ne + ne \<le> length ?M" using Suc.prems(7) by (simp add: algebra_simps)
  then have wr: "intsetSet_at s (n + p) (vs ! n) = Some (s\<lparr>is_contents := M1\<rparr>)"
    using Suc.prems(1) w
    by (simp add: intsetSet_at_def write_bytes_def M1_def Let_def algebra_simps)
  have pre: "take (n * ce) M1 = encode ce (take n vs)"
  proof -
    have "take (n * ce) M1 = take (n * ce) ?M"
      using le(2) room by (simp add: M1_def min_def)
    also have "\<dots> = take (n * ce) (take (Suc n * ce) ?M)" by (simp add: min_def)
    also have "\<dots> = encode ce (take n vs)"
      unfolding Suc.prems(8) tk using nv by (simp add: min_def)
    finally show ?thesis .
  qed
  have lenM1: "(n + p) * ne \<le> length M1" using room by (simp add: M1_def)
  have "upgrade_loop ce p n (s\<lparr>is_contents := M1\<rparr>) = Some (s\<lparr>is_contents :=
    take (p * ne) M1 @ encode ne (take n vs) @ drop ((n + p) * ne) M1\<rparr>)"
    using Suc.IH [of "s\<lparr>is_contents := M1\<rparr>"] Suc.prems(1-6) lenM1 pre by simp
  moreover have "take (p * ne) M1 = take (p * ne) ?M"
    using room by (simp add: M1_def min_def algebra_simps)
  moreover have "drop ((n + p) * ne) M1 = le_bytes ne (vs ! n) @ drop ((Suc n + p) * ne) ?M"
    using room by (simp add: M1_def)
  ultimately show ?case using rd wr tk by simp
qed simp

lemma outside_encoding:
  assumes "fits 8 v" and "e \<in> {2, 4, 8}" and "\<not> fits e v" and "fits e w"
  shows "v < 0 \<Longrightarrow> v < w" and "0 \<le> v \<Longrightarrow> w < v"
  using assms by (auto simp: fits_def)

lemma upgrade_rep:
  assumes rep: "intset_rep s vs" and f8: "fits 8 v" and up: "is_encoding s < intsetValueEncoding v"
    and room: "(length vs + 1) * 8 < 2 ^ 32"
  shows "\<exists>s'. intsetUpgradeAndAdd junk s v = Some s' \<and> v \<notin> set vs
    \<and> intset_rep s' (if v < 0 then v # vs else vs @ [v])"
proof -
  define ce where "ce = is_encoding s"
  define ne where "ne = intsetValueEncoding v"
  define p where "p = (if v < 0 then 1 else 0 :: nat)"
  have ce: "ce \<in> {2, 4, 8}" "is_length s = length vs" "sorted_wrt (<) vs" "\<forall>v \<in> set vs. fits ce v"
    "is_contents s = encode ce vs" using rep by (simp_all add: intset_rep_def ce_def)
  have ne: "ne \<in> {2, 4, 8}" "ce < ne" "fits ne v"
    using intsetValueEncoding_range up f8 intsetValueEncoding_fits by (simp_all add: ne_def ce_def)
  have out: "\<not> fits ce v" using intsetValueEncoding_le [OF ce(1) f8] up by (simp add: ce_def)
  have ord: "v < 0 \<Longrightarrow> v < w" "0 \<le> v \<Longrightarrow> w < v" if "w \<in> set vs" for w
    using outside_encoding [OF f8 ce(1) out] ce(4) that by auto
  have fit: "\<forall>w \<in> set vs. fits ne w" using ce(4) ne(2) fits_mono by (meson less_imp_le)
  have small: "(length vs + 1) * ne < 2 ^ 32" "(length vs + 1) mod 2 ^ 32 = length vs + 1"
    using room ne(1) by auto
  have grow: "length (encode ce vs) \<le> (length vs + 1) * ne"
    using mult_le_mono [of "length vs" "length vs + 1" ce ne] ne(2) by simp
  define J where "J = map junk [length (encode ce vs)..<(length vs + 1) * ne]"
  let ?s1 = "s\<lparr>is_encoding := ne, is_contents := encode ce vs @ J\<rparr>"
  have lenJ: "length (encode ce vs @ J) = (length vs + 1) * ne" using grow by (simp add: J_def)
  have rs: "intsetResize junk (s\<lparr>is_encoding := ne\<rparr>) (length vs + 1) = ?s1"
    using small(1) grow ce(5) by (simp add: intsetResize_def Let_def zrealloc_grow J_def)
  define B where "B = (if v < 0 then take ne (encode ce vs @ J) else drop (length vs * ne) (encode ce vs @ J))"
  have B: "length B = ne"
    using lenJ by (simp add: B_def del: take_append drop_append length_append)
  have "upgrade_loop ce p (length vs) ?s1 = Some (s\<lparr>is_encoding := ne, is_contents :=
      take (p * ne) (encode ce vs @ J) @ encode ne vs @ drop ((length vs + p) * ne) (encode ce vs @ J)\<rparr>)"
    using upgrade_loop_spec [of ?s1 ne ce vs "length vs" p] ne ce lenJ by (simp add: p_def)
  moreover have "take (p * ne) (encode ce vs @ J) @ encode ne vs @ drop ((length vs + p) * ne) (encode ce vs @ J)
      = (if v < 0 then B @ encode ne vs else encode ne vs @ B)"
    using lenJ by (simp add: p_def B_def algebra_simps)
  ultimately have lp: "upgrade_loop ce p (length vs) ?s1 = Some (s\<lparr>is_encoding := ne, is_contents :=
      (if v < 0 then B @ encode ne vs else encode ne vs @ B)\<rparr>)" by simp
  show ?thesis
  proof (cases "v < 0")
    case True
    have "intsetUpgradeAndAdd junk s v = Some (s\<lparr>is_encoding := ne, is_contents := encode ne (v # vs),
        is_length := length vs + 1\<rparr>)"
      using lp rs True ne(1) small write_slot [of "[]" 0 ne B "encode ne vs" v] B ce(2)
      by (simp add: intsetUpgradeAndAdd_def ne_def [symmetric] ce_def [symmetric] p_def Let_def intsetSet_at_def)
    moreover have "intset_rep (s\<lparr>is_encoding := ne, is_contents := encode ne (v # vs),
        is_length := length vs + 1\<rparr>) (v # vs)"
      using ne ce(3) ord(1) True fit small(1) by (auto simp: intset_rep_def)
    ultimately show ?thesis using True ord(1) by fastforce
  next
    case False
    have "intsetUpgradeAndAdd junk s v = Some (s\<lparr>is_encoding := ne, is_contents := encode ne (vs @ [v]),
        is_length := length vs + 1\<rparr>)"
      using lp rs False ne(1) small write_slot [of "encode ne vs" "length vs" ne B "[]" v] B ce(2)
      by (simp add: intsetUpgradeAndAdd_def ne_def [symmetric] ce_def [symmetric] p_def Let_def intsetSet_at_def)
    moreover have "intset_rep (s\<lparr>is_encoding := ne, is_contents := encode ne (vs @ [v]),
        is_length := length vs + 1\<rparr>) (vs @ [v])"
      using ne ce(3) ord(2) False fit small(1) by (auto simp: intset_rep_def sorted_wrt_append)
    ultimately show ?thesis using False ord(2) by fastforce
  qed
qed

section \<open>The set that the block represents\<close>

definition intset_set :: "intset \<Rightarrow> int set" where
  "intset_set s = set (intset_list s)"

lemma intset_rep_set: "intset_rep s vs \<Longrightarrow> intset_set s = set vs"
  by (simp add: intset_set_def intset_rep_list)

lemma intset_room:
  assumes "intset_rep s vs" and "(length vs + 1) * 8 < 2 ^ 32"
  shows "(length vs + 1) * is_encoding s < 2 ^ 32"
  using assms mult_le_mono2 [of "is_encoding s" 8 "length vs + 1"] by (auto simp: intset_rep_def)

lemma intsetAdd_rep:
  assumes rep: "intset_rep s vs" and f8: "fits 8 v" and room: "(length vs + 1) * 8 < 2 ^ 32"
  shows "\<exists>ok s' vs'. intsetAdd junk s v = Some (ok, s') \<and> intset_rep s' vs'
    \<and> set vs' = insert v (set vs) \<and> (ok \<longleftrightarrow> v \<notin> set vs)"
proof (cases "intsetValueEncoding v > is_encoding s")
  case True
  from upgrade_rep [OF rep f8 True room, of junk] obtain s' where
    "intsetUpgradeAndAdd junk s v = Some s'" "v \<notin> set vs"
    "intset_rep s' (if v < 0 then v # vs else vs @ [v])" by blast
  then show ?thesis using True
    by (intro exI [of _ True] exI [of _ s'] exI [of _ "if v < 0 then v # vs else vs @ [v]"])
      (simp add: intsetAdd_def)
next
  case False
  have e: "is_encoding s \<in> {2, 4, 8}" "sorted_wrt (<) vs" using rep by (simp_all add: intset_rep_def)
  have fit: "fits (is_encoding s) v" using intsetValueEncoding_le [OF e(1) f8] False by simp
  obtain found pos where srch: "intsetSearch s v = Some (found, pos)" "search_post vs v found pos"
    using intsetSearch_spec [OF rep] by blast
  note found = search_found [OF e(2) srch(2)]
  show ?thesis
  proof (cases found)
    case True
    then show ?thesis using found srch False rep
      by (intro exI [of _ False] exI [of _ s] exI [of _ vs]) (auto simp: intsetAdd_def)
  next
    case nf: False
    then have post: "search_post vs v False pos" using srch(2) by simp
    obtain s2 s3 where s: "(let s1 = intsetResize junk s ((is_length s + 1) mod 2 ^ 32) in
         if pos < is_length s1 then intsetMoveTail s1 pos (pos + 1) else Some s1) = Some s2"
      "intsetSet_at s2 pos v = Some s3"
      "intset_rep (s3\<lparr>is_length := (is_length s3 + 1) mod 2 ^ 32\<rparr>) (take pos vs @ v # drop pos vs)"
      using insert_at_rep [OF rep fit intset_room [OF rep room] post] by blast
    have "intsetAdd junk s v = Some (True, s3\<lparr>is_length := (is_length s3 + 1) mod 2 ^ 32\<rparr>)"
      using srch(1) s(1,2) nf False unfolding intsetAdd_def by simp
    then show ?thesis using s(3) nf found set_insert_at [of pos vs v] by blast
  qed
qed

lemma intsetRemove_rep:
  assumes rep: "intset_rep s vs" and f8: "fits 8 v"
  shows "\<exists>ok s' vs'. intsetRemove junk s v = Some (ok, s') \<and> intset_rep s' vs'
    \<and> set vs' = set vs - {v} \<and> (ok \<longleftrightarrow> v \<in> set vs)"
proof -
  have e: "is_encoding s \<in> {2, 4, 8}" "sorted_wrt (<) vs" "\<forall>w \<in> set vs. fits (is_encoding s) w"
    using rep by (simp_all add: intset_rep_def)
  obtain found pos where srch: "intsetSearch s v = Some (found, pos)" "search_post vs v found pos"
    using intsetSearch_spec [OF rep] by blast
  note found = search_found [OF e(2) srch(2)]
  show ?thesis
  proof (cases "intsetValueEncoding v \<le> is_encoding s \<and> found")
    case True
    then have pos: "pos < length vs" "vs ! pos = v" using srch(2) by (simp_all add: search_post_def)
    obtain s1 where s: "(if pos < is_length s - 1 then intsetMoveTail s (pos + 1) pos else Some s) = Some s1"
      "intset_rep ((intsetResize junk s1 (is_length s - 1))\<lparr>is_length := is_length s - 1\<rparr>)
        (take pos vs @ drop (Suc pos) vs)" using remove_at_rep [OF rep pos(1)] by blast
    have "intsetRemove junk s v
        = Some (True, (intsetResize junk s1 (is_length s - 1))\<lparr>is_length := is_length s - 1\<rparr>)"
      using True srch(1) s(1) unfolding intsetRemove_def Let_def by simp
    moreover have "set (take pos vs @ drop (Suc pos) vs) = set vs - {v}"
      using sorted_remove_at(2) [OF e(2) pos(1)] pos(2) by simp
    ultimately show ?thesis using s(2) True found by blast
  next
    case False
    have "v \<notin> set vs" using False found e intsetValueEncoding_le [OF e(1) f8] by auto
    moreover have "intsetRemove junk s v = Some (False, s)"
      using False srch(1) by (auto simp: intsetRemove_def)
    ultimately show ?thesis using rep by blast
  qed
qed

lemma intsetFind_rep:
  assumes rep: "intset_rep s vs" and f8: "fits 8 v"
  shows "intsetFind s v = Some (v \<in> set vs)"
proof -
  have e: "is_encoding s \<in> {2, 4, 8}" "sorted_wrt (<) vs" "\<forall>w \<in> set vs. fits (is_encoding s) w"
    using rep by (simp_all add: intset_rep_def)
  obtain found pos where srch: "intsetSearch s v = Some (found, pos)" "search_post vs v found pos"
    using intsetSearch_spec [OF rep] by blast
  show ?thesis
    using search_found [OF e(2) srch(2)] srch(1) e intsetValueEncoding_le [OF e(1) f8]
    by (auto simp: intsetFind_def)
qed

lemma sorted_rep:
  assumes "intset_rep s vs"
  shows "vs = sorted_list_of_set (set vs)" and "length vs = card (set vs)"
proof -
  have "sorted_wrt (<) vs" using assms by (simp add: intset_rep_def)
  then have "sorted vs" "distinct vs"
    by (simp_all add: strict_sorted_iff)
  then show "vs = sorted_list_of_set (set vs)" "length vs = card (set vs)"
    by (simp_all add: sorted_list_of_set.idem_if_sorted_distinct distinct_card)
qed

section \<open>Properties\<close>

text \<open>
  C9: adding a 64-bit integer to a well-formed integer set stays inside the block (no
  access fails), gives a well-formed set, sorted and of a sufficient width, that holds the
  old elements and the new one, counts them, and reports whether the value was new. It
  covers the in-place upgrade to a wider encoding. The block must stay below 4 GB.
\<close>

theorem intsetAdd_correct:
  assumes "intset_wf s" and "fits 8 v" and "(is_length s + 1) * 8 < 2 ^ 32"
  shows "\<exists>ok s'. intsetAdd junk s v = Some (ok, s') \<and> intset_wf s'
    \<and> intset_set s' = insert v (intset_set s) \<and> (ok \<longleftrightarrow> v \<notin> intset_set s)
    \<and> intsetLen s' = card (intset_set s')"
proof -
  have rep: "intset_rep s (intset_list s)" by (rule intset_wf_rep [OF assms(1)])
  then have len: "(length (intset_list s) + 1) * 8 < 2 ^ 32"
    using assms(3) by (simp add: intset_rep_def)
  obtain ok s' vs' where a: "intsetAdd junk s v = Some (ok, s')" "intset_rep s' vs'"
    "set vs' = insert v (set (intset_list s))" "ok \<longleftrightarrow> v \<notin> set (intset_list s)"
    using intsetAdd_rep [OF rep assms(2) len] by blast
  then show ?thesis
    using intset_rep_wf [OF a(2)] intset_rep_set [OF a(2)] sorted_rep(2) [OF a(2)]
    by (simp add: intset_set_def intsetLen_def intset_rep_def)
qed

text \<open>
  C22: removing a 64-bit integer stays inside the block, gives a well-formed set without
  that value and with every other one, and reports whether the value was there.
\<close>

theorem intsetRemove_correct:
  assumes "intset_wf s" and "fits 8 v"
  shows "\<exists>ok s'. intsetRemove junk s v = Some (ok, s') \<and> intset_wf s'
    \<and> intset_set s' = intset_set s - {v} \<and> (ok \<longleftrightarrow> v \<in> intset_set s)
    \<and> intsetLen s' = card (intset_set s')"
proof -
  have rep: "intset_rep s (intset_list s)" by (rule intset_wf_rep [OF assms(1)])
  obtain ok s' vs' where a: "intsetRemove junk s v = Some (ok, s')" "intset_rep s' vs'"
    "set vs' = set (intset_list s) - {v}" "ok \<longleftrightarrow> v \<in> set (intset_list s)"
    using intsetRemove_rep [OF rep assms(2)] by blast
  then show ?thesis
    using intset_rep_wf [OF a(2)] intset_rep_set [OF a(2)] sorted_rep(2) [OF a(2)]
    by (simp add: intset_set_def intsetLen_def intset_rep_def)
qed

text \<open>
  The reading operations of a well-formed integer set: the binary search decides
  membership, \<open>intsetGet\<close> enumerates the elements in increasing order and reports an
  index out of range, and \<open>intsetRandom\<close> returns an element of a non-empty set.
\<close>

theorem intset_reads_correct:
  assumes "intset_wf s" and "fits 8 v"
  shows "intsetFind s v = Some (v \<in> intset_set s)
    \<and> intsetGet s i = Some (if i < card (intset_set s)
         then Some (sorted_list_of_set (intset_set s) ! i) else None)
    \<and> (intset_set s \<noteq> {} \<longrightarrow> (\<exists>x \<in> intset_set s. intsetRandom r s = Some x))"
proof -
  define vs where "vs = intset_list s"
  have rep: "intset_rep s vs" unfolding vs_def by (rule intset_wf_rep [OF assms(1)])
  then have len: "is_length s = length vs" by (simp add: intset_rep_def)
  have set: "intset_set s = set vs" by (rule intset_rep_set [OF rep])
  have "intsetGet s i = Some (if i < card (set vs) then Some (sorted_list_of_set (set vs) ! i) else None)"
    unfolding sorted_rep [OF rep, symmetric] using intsetGet_at_rep [OF rep, of i] len
    by (simp add: intsetGet_def)
  moreover have "\<exists>x \<in> set vs. intsetRandom r s = Some x" if "set vs \<noteq> {}"
    using that len intsetGet_at_rep [OF rep, of "r mod is_length s"] by (simp add: intsetRandom_def)
  ultimately show ?thesis
    using intsetFind_rep [OF rep assms(2)] set by simp
qed

text \<open>A set of three 16-bit integers, used to instantiate the theorems.\<close>

definition ex_intset :: intset where
  "ex_intset = \<lparr>is_encoding = 2, is_length = 3, is_contents = encode 2 [-3, 5, 1000]\<rparr>"

lemma ex_intset_wf: "intset_wf ex_intset" "intset_set ex_intset = {-3, 5, 1000}" "is_length ex_intset = 3"
proof -
  have "intset_rep ex_intset [-3, 5, 1000]"
    by (simp add: intset_rep_def ex_intset_def fits_def)
  from intset_rep_wf [OF this] intset_rep_set [OF this]
  show "intset_wf ex_intset" "intset_set ex_intset = {-3, 5, 1000}" "is_length ex_intset = 3"
    by (auto simp: ex_intset_def)
qed

theorem intsetAdd_correct_witness:
  "\<exists>ok s'. intsetAdd (\<lambda>_. 170) ex_intset (-70000) = Some (ok, s') \<and> intset_wf s'
    \<and> intset_set s' = insert (-70000) {-3, 5, 1000} \<and> ok \<and> intsetLen s' = card (intset_set s')"
  using intsetAdd_correct [OF ex_intset_wf(1), of "-70000" "\<lambda>_. 170"]
  by (simp add: ex_intset_wf(2,3) fits_def)

theorem intsetRemove_correct_witness:
  "\<exists>ok s'. intsetRemove (\<lambda>_. 170) ex_intset 5 = Some (ok, s') \<and> intset_wf s'
    \<and> intset_set s' = {-3, 5, 1000} - {5} \<and> ok \<and> intsetLen s' = card (intset_set s')"
  using intsetRemove_correct [OF ex_intset_wf(1), of 5 "\<lambda>_. 170"]
  by (simp add: ex_intset_wf(2) fits_def)

theorem intset_reads_correct_witness:
  "intsetFind ex_intset 1000 = Some True \<and> intsetGet ex_intset 7 = Some None
    \<and> (\<exists>x \<in> {-3, 5, 1000}. intsetRandom 22 ex_intset = Some x)"
  using intset_reads_correct [OF ex_intset_wf(1), of 1000 7 22]
  by (simp add: ex_intset_wf(2) fits_def)

end
