(* ===== verification/Util.thy ===== *)
theory Util
  imports Redis_Bytes
begin

text \<open>
  The number and pattern routines of \<^verbatim>\<open>util.c\<close>: \<open>digits10\<close> and \<open>ll2string\<close> (printing a 64-bit
  integer two digits at a time into a buffer), \<open>string2ll\<close> and \<open>string2l\<close> (strict parsing with
  overflow checks), \<open>memtoll\<close> (amounts of memory) and \<open>stringmatchlen\<close> (glob patterns). A
  text is a list of bytes. The reference is the decimal numeral \<open>decimal\<close>.
\<close>

section \<open>Printing integers\<close>

fun digits10 :: "nat \<Rightarrow> nat" where
  "digits10 v =
     (if v < 10 then 1
      else if v < 100 then 2
      else if v < 1000 then 3
      else if v < 1000000000000 then
        if v < 100000000 then
          if v < 1000000 then
            if v < 10000 then 4 else 5 + (if v \<ge> 100000 then 1 else 0)
          else 7 + (if v \<ge> 10000000 then 1 else 0)
        else if v < 10000000000 then 9 + (if v \<ge> 1000000000 then 1 else 0)
        else 11 + (if v \<ge> 100000000000 then 1 else 0)
      else 12 + digits10 (v div 1000000000000))"

declare digits10.simps [simp del]

definition digits :: "byte list" where
  "digits = bytes_of
     (''0001020304050607080910111213141516171819'' @
      ''2021222324252627282930313233343536373839'' @
      ''4041424344454647484950515253545556575859'' @
      ''6061626364656667686970717273747576777879'' @
      ''8081828384858687888990919293949596979899'')"

text \<open>Subtraction on the unsigned 32-bit index \<open>next\<close>.\<close>

definition sub32 :: "nat \<Rightarrow> nat \<Rightarrow> nat" where
  "sub32 a b = nat ((int a - int b) mod 2 ^ 32)"

function ll2string_loop :: "mem \<Rightarrow> nat \<Rightarrow> nat \<Rightarrow> (mem \<times> nat \<times> nat) option" where
  "ll2string_loop dst val nxt =
     (if val \<ge> 100 then
        (let i = (val mod 100) * 2 in
         case get_at digits (i + 1) of None \<Rightarrow> None | Some lo \<Rightarrow>
         case set_at dst nxt lo of None \<Rightarrow> None | Some dst1 \<Rightarrow>
         case get_at digits i of None \<Rightarrow> None | Some hi \<Rightarrow>
         case set_at dst1 (sub32 nxt 1) hi of None \<Rightarrow> None | Some dst2 \<Rightarrow>
         ll2string_loop dst2 (val div 100) (sub32 nxt 2))
      else Some (dst, val, nxt))"
  by pat_completeness auto
termination by (relation "measure (\<lambda>(dst, val, nxt). val)") auto

declare ll2string_loop.simps [simp del]

text \<open>The number of characters written and the buffer; 0 when it is too small.\<close>

definition ll2string :: "mem \<Rightarrow> nat \<Rightarrow> int \<Rightarrow> (nat \<times> mem) option" where
  "ll2string dst dstlen svalue =
     (let negative = svalue < 0;
          val = (if svalue < 0 then nat (- svalue) else nat svalue);
          len = digits10 val + (if negative then 1 else 0)
      in if len \<ge> dstlen then Some (0, dst)
         else do {
           dst \<leftarrow> set_at dst len 0;
           (dst, val, nxt) \<leftarrow> ll2string_loop dst val (sub32 len 1);
           dst \<leftarrow> (if val < 10 then set_at dst nxt (48 + of_nat val)
                  else do {
                    lo \<leftarrow> get_at digits (val * 2 + 1);
                    dst \<leftarrow> set_at dst nxt lo;
                    hi \<leftarrow> get_at digits (val * 2);
                    set_at dst (sub32 nxt 1) hi });
           dst \<leftarrow> (if negative then set_at dst 0 CH_MINUS else Some dst);
           Some (len, dst) })"

section \<open>Parsing integers\<close>

abbreviation ULLONG_MAX :: nat where "ULLONG_MAX \<equiv> 2 ^ 64 - 1"
abbreviation LLONG_MAX :: nat where "LLONG_MAX \<equiv> 2 ^ 63 - 1"

text \<open>The digits loop: \<open>None\<close> on an overflow, else the value and the unread bytes.\<close>

fun string2ll_loop :: "nat \<Rightarrow> byte list \<Rightarrow> (nat \<times> byte list) option" where
  "string2ll_loop v [] = Some (v, [])"
| "string2ll_loop v (c # cs) =
     (if CH_0 \<le> c \<and> c \<le> CH_9 then
        if v > ULLONG_MAX div 10 then None
        else let d = unat c - 48 in
          if v * 10 > ULLONG_MAX - d then None
          else string2ll_loop (v * 10 + d) cs
      else Some (v, c # cs))"

definition string2ll :: "byte list \<Rightarrow> int option" where
  "string2ll s =
     (if s = [] then None
      else if length s = 1 \<and> hd s = CH_0 then Some 0
      else let negative = hd s = CH_MINUS; p = (if negative then tl s else s) in
        if p = [] then None
        else if CH_1 \<le> hd p \<and> hd p \<le> CH_9 then
          (case string2ll_loop (unat (hd p) - 48) (tl p) of
             None \<Rightarrow> None
           | Some (v, rest) \<Rightarrow>
               if rest \<noteq> [] then None
               else if negative then
                 if v > LLONG_MAX + 1 then None else Some (- int v)
               else if v > LLONG_MAX then None else Some (int v))
        else if hd p = CH_0 \<and> length s = 1 then Some 0
        else None)"

definition string2l :: "byte list \<Rightarrow> int option" where
  "string2l s =
     (case string2ll s of
        None \<Rightarrow> None
      | Some v \<Rightarrow> if v < - (2 ^ 63) \<or> v > 2 ^ 63 - 1 then None else Some v)"

section \<open>Amounts of memory\<close>

text \<open>
  \<open>strtoll\<close> on an optional minus sign and digits saturates; \<open>einval\<close> says whether the C
  library reports \<open>EINVAL\<close> when there is no digit. The result is the value and the error
  flag, and \<open>None\<close> where the final product overflows.
\<close>

definition strtoll_dec :: "bool \<Rightarrow> byte list \<Rightarrow> int" where
  "strtoll_dec neg ds =
     (let n = int (foldl (\<lambda>v c. v * 10 + (unat c - 48)) 0 ds); v = (if neg then - n else n)
      in max (- (2 ^ 63)) (min (2 ^ 63 - 1) v))"

definition unit_mul :: "byte list \<Rightarrow> int option" where
  "unit_mul u =
     (let u = map tolower u in
      if u = [] \<or> u = bytes_of ''b'' then Some 1
      else if u = bytes_of ''k'' then Some 1000
      else if u = bytes_of ''kb'' then Some 1024
      else if u = bytes_of ''m'' then Some (1000 * 1000)
      else if u = bytes_of ''mb'' then Some (1024 * 1024)
      else if u = bytes_of ''g'' then Some (1000 * 1000 * 1000)
      else if u = bytes_of ''gb'' then Some (1024 * 1024 * 1024)
      else None)"

definition memtoll :: "bool \<Rightarrow> byte list \<Rightarrow> (int \<times> bool) option" where
  "memtoll einval p =
     (let neg = (p \<noteq> [] \<and> hd p = CH_MINUS);
          q = (if neg then tl p else p);
          ds = takeWhile isdigit q; u = dropWhile isdigit q
      in case unit_mul u of
           None \<Rightarrow> Some (0, True)
         | Some mul \<Rightarrow>
             if length p - length u \<ge> 128 then Some (0, True)
             else let val = (if ds = [] then 0 else strtoll_dec neg ds) in
               if (ds = [] \<and> einval) \<or> (ds = [] \<and> neg) then Some (0, True)
               else if fits 8 (val * mul) then Some (val * mul, False) else None)"

section \<open>The reference: decimal numerals\<close>

fun decimal_nat :: "nat \<Rightarrow> byte list" where
  "decimal_nat n = (if n < 10 then [48 + of_nat n] else decimal_nat (n div 10) @ [48 + of_nat (n mod 10)])"

declare decimal_nat.simps [simp del]

definition decimal :: "int \<Rightarrow> byte list" where
  "decimal v = (if v < 0 then CH_MINUS # decimal_nat (nat (- v)) else decimal_nat (nat v))"

section \<open>Lemmas on numerals\<close>

lemma length_decimal_pos: "0 < length (decimal_nat n)"
  by (subst decimal_nat.simps) simp

lemma decimal_nat_not_Nil [simp]: "decimal_nat n \<noteq> []"
  using length_decimal_pos [of n] by auto

lemma length_decimal_nat:
  "length (decimal_nat n) = (if n < 10 then 1 else Suc (length (decimal_nat (n div 10))))"
  by (subst decimal_nat.simps) simp

lemma length_decimal_bounds:
  "n < 10 ^ length (decimal_nat n) \<and> (n \<noteq> 0 \<longrightarrow> 10 ^ (length (decimal_nat n) - 1) \<le> n)"
proof (induction n rule: decimal_nat.induct)
  case (1 n)
  show ?case
  proof (cases "n < 10")
    case False
    let ?k = "length (decimal_nat (n div 10))"
    have ih: "n div 10 < 10 ^ ?k" "10 ^ (?k - 1) \<le> n div 10" using 1 False by auto
    have "10 * 10 ^ (?k - 1) = (10::nat) ^ ?k"
      using length_decimal_pos [of "n div 10"] by (simp add: power_eq_if)
    moreover have "n < 10 * 10 ^ ?k" using ih(1) by (simp add: div_less_iff_less_mult mult.commute)
    moreover have "10 * (n div 10) \<le> n" by simp
    ultimately have "n < 10 ^ Suc ?k" "10 ^ ?k \<le> n" using ih(2) by (simp, linarith)
    with False show ?thesis by (simp add: length_decimal_nat [of n])
  qed (simp add: length_decimal_nat [of n])
qed

lemma length_decimal_unique:
  assumes "10 ^ (k - 1) \<le> n" and "n < 10 ^ k" and "0 < k" and "n \<noteq> 0"
  shows "length (decimal_nat n) = k"
proof -
  let ?l = "length (decimal_nat n)"
  have "(10::nat) ^ (?l - 1) < 10 ^ k" "(10::nat) ^ (k - 1) < 10 ^ ?l"
    using le_less_trans [OF _ assms(2)] le_less_trans [OF assms(1)] length_decimal_bounds [of n] assms(4)
    by blast+
  then have "?l - 1 < k" "k - 1 < ?l" by (auto dest: power_less_imp_less_exp [rotated])
  with assms(3) length_decimal_pos [of n] show ?thesis by simp
qed

lemma length_decimal_div:
  assumes "10 ^ k \<le> n"
  shows "length (decimal_nat n) = k + length (decimal_nat (n div 10 ^ k))"
  using assms
proof (induction k arbitrary: n)
  case (Suc k)
  then have "10 \<le> n" "10 ^ k \<le> n div 10"
    by (auto simp: less_eq_div_iff_mult_less_eq mult.commute intro: order_trans [rotated])
  with Suc.IH [of "n div 10"] show ?case
    by (simp add: length_decimal_nat [of n] div_mult2_eq)
qed simp

lemma length_decimal_small: "n < 10 \<Longrightarrow> length (decimal_nat n) = 1"
  by (simp add: length_decimal_nat)

lemma digits10_length: "digits10 v = length (decimal_nat v)"
proof (induction v rule: digits10.induct)
  case (1 v)
  show ?case
  proof (cases "v < 1000000000000")
    case False
    then have "length (decimal_nat v) = 12 + length (decimal_nat (v div 1000000000000))"
      using length_decimal_div [of 12 v] by simp
    with 1 False show ?thesis by (subst digits10.simps) simp
  next
    case True
    then show ?thesis
      by (cases "v < 10") (simp_all add: digits10.simps [of v] length_decimal_small length_decimal_unique)
  qed
qed

section \<open>Printing\<close>

lemma digits_pairs:
  "digits = concat (map (\<lambda>i. [48 + of_nat (i div 10), 48 + of_nat (i mod 10)]) [0..<100])"
  by (simp add: digits_def bytes_of_def of_char_def upt_rec)

lemma nth_pairs:
  assumes "i < length xs"
  shows "concat (map (\<lambda>x. [f x, g x]) xs) ! (i * 2) = f (xs ! i)"
    and "concat (map (\<lambda>x. [f x, g x]) xs) ! (i * 2 + 1) = g (xs ! i)"
  using assms
proof (induction xs arbitrary: i)
  case (Cons x xs)
  { case 1 then show ?case using Cons(1) by (cases i) auto }
  { case 2 then show ?case using Cons(2) by (cases i) auto }
qed simp_all

lemma digits_table:
  assumes "i < 100"
  shows "get_at digits (i * 2) = Some (48 + of_nat (i div 10))"
    and "get_at digits (i * 2 + 1) = Some (48 + of_nat (i mod 10))"
proof -
  have "digits ! (i * 2) = 48 + of_nat (i div 10)" "digits ! (i * 2 + 1) = 48 + of_nat (i mod 10)"
    unfolding digits_pairs using nth_pairs [of i "[0..<100]"] assms by simp_all
  moreover have "length digits = 200" by (simp add: digits_def bytes_of_def)
  ultimately show "get_at digits (i * 2) = Some (48 + of_nat (i div 10))"
    "get_at digits (i * 2 + 1) = Some (48 + of_nat (i mod 10))" using assms by simp_all
qed

lemma decimal_two_digits:
  assumes "100 \<le> v"
  shows "decimal_nat v = decimal_nat (v div 100) @ [48 + of_nat (v mod 100 div 10), 48 + of_nat (v mod 100 mod 10)]"
proof -
  have eq: "v div 10 div 10 = v div 100" "v div 10 mod 10 = v mod 100 div 10" "v mod 10 = v mod 100 mod 10"
    using mod_mult2_eq [of v 10 10] by (simp_all add: div_mult2_eq [symmetric])
  have "decimal_nat v = decimal_nat (v div 10) @ [48 + of_nat (v mod 10)]"
    by (subst decimal_nat.simps) (use assms in simp)
  moreover have "decimal_nat (v div 10) = decimal_nat (v div 100) @ [48 + of_nat (v mod 100 div 10)]"
    by (subst decimal_nat.simps) (use assms in \<open>simp add: eq(1,2)\<close>)
  ultimately show ?thesis by (metis append.assoc append_Cons append_Nil eq(3))
qed

lemma sub32_eq: "b \<le> a \<Longrightarrow> a < 2 ^ 32 \<Longrightarrow> sub32 a b = a - b"
proof -
  assume h: "b \<le> a" "a < 2 ^ 32"
  then have "(int a - int b) mod 2 ^ 32 = int a - int b" by (intro mod_pos_pos_trivial) simp_all
  then show ?thesis using h by (simp add: sub32_def)
qed

lemma ll2string_loop_spec:
  assumes "length (decimal_nat val) \<le> nxt + 1" and "nxt < length dst" and "nxt < 2 ^ 32"
  shows "\<exists>dst' val' nxt' T. ll2string_loop dst val nxt = Some (dst', val', nxt') \<and> val' < 100
    \<and> decimal_nat val = decimal_nat val' @ T \<and> nxt' + length T = nxt \<and> length dst' = length dst
    \<and> take (nxt' + 1) dst' = take (nxt' + 1) dst \<and> drop (nxt' + 1) dst' = T @ drop (nxt + 1) dst"
  using assms
proof (induction dst val nxt rule: ll2string_loop.induct)
  case (1 dst val nxt)
  show ?case
  proof (cases "100 \<le> val")
    case False
    with "1.prems" show ?thesis by (subst ll2string_loop.simps) simp
  next
    case True
    define i where "i = val mod 100"
    have i: "i < 100" by (simp add: i_def)
    note dec = decimal_two_digits [OF True, folded i_def]
    have len: "length (decimal_nat (val div 100)) + 2 \<le> nxt + 1" using "1.prems"(1) dec by simp
    then have n: "2 \<le> nxt" using length_decimal_pos [of "val div 100"] by linarith
    let ?hi = "48 + of_nat (i div 10) :: byte" and ?lo = "48 + of_nat (i mod 10) :: byte"
    define d where "d = dst[nxt := ?lo, nxt - 1 := ?hi]"
    have "\<exists>dst' val' nxt' T. ll2string_loop d (val div 100) (nxt - 2) = Some (dst', val', nxt') \<and> val' < 100
      \<and> decimal_nat (val div 100) = decimal_nat val' @ T \<and> nxt' + length T = nxt - 2 \<and> length dst' = length d
      \<and> take (nxt' + 1) dst' = take (nxt' + 1) d \<and> drop (nxt' + 1) dst' = T @ drop (nxt - 2 + 1) d"
      using "1.IH" [of "i * 2" ?lo "dst[nxt := ?lo]" ?hi d] True "1.prems" n len digits_table [OF i]
      by (simp add: sub32_eq i_def [symmetric] d_def)
    then obtain dst' val' nxt' T where r: "ll2string_loop d (val div 100) (nxt - 2) = Some (dst', val', nxt')"
      "val' < 100" "decimal_nat (val div 100) = decimal_nat val' @ T" "nxt' + length T = nxt - 2"
      "length dst' = length d" "take (nxt' + 1) dst' = take (nxt' + 1) d"
      "drop (nxt' + 1) dst' = T @ drop (nxt - 2 + 1) d" by blast
    have "drop (nxt - 1) d = [?hi, ?lo] @ drop (nxt + 1) dst"
    proof -
      have "drop (nxt - 1) d = d ! (nxt - 1) # d ! nxt # drop (nxt + 1) d"
        using n "1.prems"(2) by (simp add: d_def Cons_nth_drop_Suc [symmetric] Suc_diff_Suc numeral_2_eq_2)
      then show ?thesis using n "1.prems"(2) by (simp add: d_def)
    qed
    moreover have "take (nxt' + 1) d = take (nxt' + 1) dst" using r(4) n by (simp add: d_def)
    moreover have "ll2string_loop dst val nxt = ll2string_loop d (val div 100) (nxt - 2)"
      using True "1.prems" n digits_table [OF i]
      by (subst ll2string_loop.simps) (simp add: sub32_eq i_def [symmetric] d_def)
    moreover have "nxt - 2 + 1 = nxt - 1" using n by simp
    ultimately show ?thesis
      using r dec n "1.prems"(2)
      by (intro exI [of _ dst'] exI [of _ val'] exI [of _ nxt'] exI [of _ "T @ [?hi, ?lo]"]) (simp add: d_def)
  qed
qed

lemma length_decimal_le:
  assumes "n < 10 ^ k" and "0 < k"
  shows "length (decimal_nat n) \<le> k"
proof (rule ccontr)
  assume "\<not> length (decimal_nat n) \<le> k"
  then have l: "(10::nat) ^ k \<le> 10 ^ (length (decimal_nat n) - 1)" "1 < length (decimal_nat n)"
    using assms(2) by (auto intro: power_increasing)
  then have "n \<noteq> 0" using length_decimal_small [of 0] by (intro notI) simp
  then have "10 ^ (length (decimal_nat n) - 1) \<le> n" using length_decimal_bounds [of n] by blast
  with l(1) assms(1) show False by linarith
qed

lemma length_decimal_u64: "n < 2 ^ 64 \<Longrightarrow> length (decimal_nat n) \<le> 20"
  by (rule length_decimal_le) simp_all

lemma length_decimal_i64: "fits 8 v \<Longrightarrow> length (decimal v) \<le> 20"
proof -
  assume "fits 8 v"
  then have "nat \<bar>v\<bar> < 10 ^ 19" unfolding fits_def by simp linarith
  then have "length (decimal_nat (nat \<bar>v\<bar>)) \<le> 19" by (rule length_decimal_le) simp
  then show ?thesis by (cases "v < 0") (simp_all add: decimal_def)
qed

lemma list_update_split: "n < length xs \<Longrightarrow> xs[n := x] = take n xs @ x # drop (n + 1) xs"
  by (simp add: upd_conv_take_nth_drop)

lemma print_last:
  assumes "val < 100" and "n + length (decimal_nat val) = nxt + 1" and "nxt < length dst" and "nxt < 2 ^ 32"
  shows "(if val < 10 then set_at dst nxt (48 + of_nat val)
          else do {
            lo \<leftarrow> get_at digits (val * 2 + 1);
            dst \<leftarrow> set_at dst nxt lo;
            hi \<leftarrow> get_at digits (val * 2);
            set_at dst (sub32 nxt 1) hi }) = Some (take n dst @ decimal_nat val @ drop (nxt + 1) dst)"
proof (cases "val < 10")
  case True
  then have "decimal_nat val = [48 + of_nat val]" by (subst decimal_nat.simps) simp
  with True assms show ?thesis by (simp add: list_update_split)
next
  case False
  then have d: "decimal_nat val = [48 + of_nat (val div 10), 48 + of_nat (val mod 10)]"
    using assms(1) by (subst decimal_nat.simps, subst decimal_nat.simps) simp
  then have n: "nxt = n + 1" using assms(2) by simp
  have "dst[Suc n := y, n := x] = take n dst @ [x, y] @ drop (n + 2) dst" for x y
    using n assms(3) by (simp add: list_update_split take_Suc_conv_app_nth)
  then show ?thesis using False d n assms digits_table [OF assms(1)] by (simp add: sub32_eq)
qed

section \<open>Parsing\<close>

definition digit_val :: "byte \<Rightarrow> nat" where
  "digit_val c = unat c - 48"

definition numeral_val :: "nat \<Rightarrow> byte list \<Rightarrow> nat" where
  "numeral_val v cs = foldl (\<lambda>v c. v * 10 + digit_val c) v cs"

lemma numeral_val_simps [simp]:
  "numeral_val v [] = v" "numeral_val v (c # cs) = numeral_val (v * 10 + digit_val c) cs"
  "numeral_val v (cs @ [c]) = numeral_val v cs * 10 + digit_val c"
  by (simp_all add: numeral_val_def)

lemma numeral_val_mono: "v \<le> numeral_val v cs"
proof (induction cs arbitrary: v)
  case (Cons c cs)
  from Cons [of "v * 10 + digit_val c"] show ?case by simp
qed simp

lemma digit_byte:
  assumes "d < 10"
  shows "isdigit (48 + of_nat d)" and "digit_val (48 + of_nat d) = d" and "(of_nat d :: byte) = 0 \<longleftrightarrow> d = 0"
proof -
  have u: "unat (48 + of_nat d :: byte) = 48 + d"
    using assms by (simp add: unat_word_ariths unat_of_nat)
  then show "isdigit (48 + of_nat d)" "digit_val (48 + of_nat d) = d"
    using assms by (simp_all add: isdigit_def digit_val_def word_le_nat_alt)
  show "(of_nat d :: byte) = 0 \<longleftrightarrow> d = 0"
    using assms by (auto simp: word_unat_eq_iff unat_of_nat)
qed

lemma byte_digit: "isdigit c \<Longrightarrow> 48 + of_nat (digit_val c) = c \<and> digit_val c < 10"
  by (auto simp: isdigit_def digit_val_def word_le_nat_alt word_unat_eq_iff unat_word_ariths unat_of_nat)

lemma string2ll_loop_digit:
  assumes "isdigit c"
  shows "string2ll_loop v (c # cs) =
    (if v * 10 + digit_val c > ULLONG_MAX then None else string2ll_loop (v * 10 + digit_val c) cs)"
proof -
  have d: "digit_val c < 10" using byte_digit [OF assms] by simp
  have "v * 10 + digit_val c > ULLONG_MAX" if "v > ULLONG_MAX div 10" using that by simp
  moreover have "v * 10 > ULLONG_MAX - digit_val c \<longleftrightarrow> v * 10 + digit_val c > ULLONG_MAX"
    using d less_diff_conv2 [of "digit_val c" ULLONG_MAX "v * 10"] by simp
  ultimately show ?thesis
    using assms by (simp add: isdigit_def digit_val_def [symmetric] Let_def)
qed

lemma string2ll_loop_iff:
  assumes "v \<le> ULLONG_MAX"
  shows "string2ll_loop v cs = Some (w, []) \<longleftrightarrow>
    list_all isdigit cs \<and> w = numeral_val v cs \<and> w \<le> ULLONG_MAX"
  using assms
proof (induction cs arbitrary: v)
  case (Cons c cs)
  let ?v = "v * 10 + digit_val c"
  show ?case
  proof (cases "isdigit c \<and> ?v \<le> ULLONG_MAX")
    case True
    then have "string2ll_loop v (c # cs) = string2ll_loop ?v cs"
      by (simp add: string2ll_loop_digit del: string2ll_loop.simps)
    with True Cons.IH [of ?v] show ?thesis by simp
  next
    case False
    then have "string2ll_loop v (c # cs) \<noteq> Some (w, [])"
      using string2ll_loop_digit [of c v cs] by (cases "isdigit c") (auto simp: isdigit_def)
    moreover have "\<not> (list_all isdigit (c # cs) \<and> w = numeral_val v (c # cs) \<and> w \<le> ULLONG_MAX)"
      using False numeral_val_mono [of ?v cs] by auto
    ultimately show ?thesis by blast
  qed
qed auto

lemma decimal_nat_parse:
  "list_all isdigit (decimal_nat n) \<and> numeral_val 0 (decimal_nat n) = n
    \<and> (n \<noteq> 0 \<longrightarrow> hd (decimal_nat n) \<noteq> CH_0)"
proof (induction n rule: decimal_nat.induct)
  case (1 n)
  show ?case
  proof (cases "n < 10")
    case True
    then show ?thesis by (subst (1 2 3) decimal_nat.simps) (simp add: digit_byte)
  next
    case False
    then have "decimal_nat n = decimal_nat (n div 10) @ [48 + of_nat (n mod 10)]"
      by (subst decimal_nat.simps) simp
    with False 1 show ?thesis by (simp add: digit_byte)
  qed
qed

lemma decimal_nat_print:
  assumes "list_all isdigit cs" and "cs \<noteq> []" and "hd cs \<noteq> CH_0"
  shows "decimal_nat (numeral_val 0 cs) = cs \<and> 0 < numeral_val 0 cs"
  using assms
proof (induction cs rule: rev_induct)
  case (snoc c cs)
  then have c: "48 + of_nat (digit_val c) = c" "digit_val c < 10" using byte_digit by simp_all
  show ?case
  proof (cases "cs = []")
    case True
    moreover have "0 < digit_val c"
    proof (rule ccontr)
      assume "\<not> 0 < digit_val c"
      then have "c = CH_0" using c(1) by simp
      with snoc.prems True show False by simp
    qed
    ultimately show ?thesis using c by (subst decimal_nat.simps) simp
  next
    case False
    with snoc have "decimal_nat (numeral_val 0 cs) = cs" "0 < numeral_val 0 cs" by simp_all
    with c show ?thesis by (subst decimal_nat.simps) simp
  qed
qed simp

lemma hd_isdigit: "list_all isdigit cs \<Longrightarrow> cs \<noteq> [] \<Longrightarrow> isdigit (hd cs)"
  by (cases cs) auto

text \<open>The parser of a natural number that does not start with a zero.\<close>

lemma string2ll_loop_decimal:
  assumes "p \<noteq> []" and "CH_1 \<le> hd p" and "hd p \<le> CH_9"
  shows "string2ll_loop (unat (hd p) - 48) (tl p) = Some (w, []) \<longleftrightarrow> p = decimal_nat w \<and> 0 < w \<and> w \<le> ULLONG_MAX"
proof -
  obtain c cs where p: "p = c # cs" using assms(1) by (cases p) auto
  have c: "isdigit c" "c \<noteq> CH_0" using assms p by (auto simp: isdigit_def word_le_nat_alt)
  have "digit_val c \<le> ULLONG_MAX" using byte_digit [OF c(1)] by simp
  then have "string2ll_loop (digit_val c) cs = Some (w, []) \<longleftrightarrow>
      list_all isdigit p \<and> w = numeral_val 0 p \<and> w \<le> ULLONG_MAX"
    using string2ll_loop_iff [of "digit_val c" cs w] c p by simp
  also have "\<dots> \<longleftrightarrow> p = decimal_nat w \<and> 0 < w \<and> w \<le> ULLONG_MAX"
    using decimal_nat_print [of p] decimal_nat_parse [of w] assms(1) c(2)
    by (metis list.sel(1) p)
  finally show ?thesis by (simp add: p digit_val_def)
qed

lemma decimal_nat_hd:
  "0 < w \<Longrightarrow> CH_1 \<le> hd (decimal_nat w) \<and> hd (decimal_nat w) \<le> CH_9"
  using decimal_nat_parse [of w] hd_isdigit [of "decimal_nat w"]
  by (auto simp: isdigit_def word_le_nat_alt word_unat_eq_iff)

lemma decimal_nat_hd_minus: "hd (decimal_nat w) \<noteq> CH_MINUS"
  using decimal_nat_parse [of w] hd_isdigit [of "decimal_nat w"] by (auto simp: isdigit_def)

lemma decimal_nat_0: "decimal_nat 0 = [CH_0]"
  by (subst decimal_nat.simps) simp

section \<open>Properties\<close>

lemma ll2string_spec:
  assumes "fits 8 v" and "dstlen \<le> length dst"
  shows "ll2string dst dstlen v =
    Some (if length (decimal v) < dstlen
          then (length (decimal v), decimal v @ CH_NUL # drop (length (decimal v) + 1) dst)
          else (0, dst))"
proof -
  define val where "val = (if v < 0 then nat (- v) else nat v)"
  define n where "n = (if v < 0 then 1 else 0 :: nat)"
  define L where "L = length (decimal_nat val) + n"
  have L: "L = length (decimal v)" by (simp add: L_def decimal_def val_def n_def)
  have small: "L < 2 ^ 32" "0 < L"
  proof -
    have "val < 2 ^ 64" using assms(1) by (auto simp: val_def fits_def)
    from length_decimal_u64 [OF this] show "L < 2 ^ 32" by (simp add: L_def n_def)
    show "0 < L" using length_decimal_pos [of val] by (simp add: L_def)
  qed
  show ?thesis
  proof (cases "L < dstlen")
    case False
    then show ?thesis
      by (simp add: ll2string_def Let_def digits10_length L [symmetric] L_def val_def n_def not_less)
  next
    case True
    define d where "d = dst[L := 0]"
    have dl: "L < length d" "length d = length dst" "set_at dst L 0 = Some d"
      using True assms(2) by (simp_all add: d_def)
    have drp: "drop L d = 0 # drop (L + 1) dst" "take n d = take n dst"
      using True assms(2) length_decimal_pos [of val] by (simp_all add: d_def list_update_split L_def)
    have "length (decimal_nat val) \<le> L - 1 + 1" "L - 1 < length d" "L - 1 < 2 ^ 32"
      using small dl(1) by (simp_all add: L_def)
    from ll2string_loop_spec [OF this] obtain d' val' nxt' T where
      r: "ll2string_loop d val (L - 1) = Some (d', val', nxt')" "val' < 100"
        "decimal_nat val = decimal_nat val' @ T" "nxt' + length T = L - 1" "length d' = length d"
        "take (nxt' + 1) d' = take (nxt' + 1) d" "drop (nxt' + 1) d' = T @ drop (L - 1 + 1) d"
      by blast
    have nx: "n + length (decimal_nat val') = nxt' + 1" "nxt' < length d'" "nxt' < 2 ^ 32"
      using r(3,4,5) small dl(1) L_def length_decimal_pos [of val'] by (simp_all, linarith)
    have "take n d' = take n (take (nxt' + 1) d')"
      using nx(1) length_decimal_pos [of val'] by (simp add: min_def)
    also have "\<dots> = take n dst"
      using nx(1) length_decimal_pos [of val'] drp(2) unfolding r(6) by (simp add: min_def)
    finally have res: "take n d' @ decimal_nat val' @ drop (nxt' + 1) d'
        = take n dst @ decimal_nat val @ 0 # drop (L + 1) dst"
      using r(3,7) drp(1) small(2) by simp
    define F where "F = take n dst @ decimal_nat val @ 0 # drop (L + 1) dst"
    have sgn: "v < 0 \<Longrightarrow> set_at F 0 CH_MINUS = Some (decimal v @ 0 # drop (L + 1) dst)"
      "\<not> v < 0 \<Longrightarrow> F = decimal v @ 0 # drop (L + 1) dst"
      using True assms(2) by (cases dst, simp_all add: F_def n_def decimal_def val_def)
    show ?thesis
      using True r(1) dl(3) print_last [OF r(2) nx] small sub32_eq [of 1 L] res [folded F_def] sgn
      unfolding ll2string_def Let_def L [symmetric] val_def [symmetric] digits10_length n_def [symmetric]
        L_def [symmetric] by (cases "v < 0") simp_all
  qed
qed

text \<open>
  \<open>ll2string\<close> writes the decimal numeral of every 64-bit integer (\<open>LLONG_MIN\<close> included)
  and its terminator at the front of the buffer and returns its length, leaving the rest of
  the buffer alone; when the buffer cannot hold it, nothing is written and 0 is returned.
  No access is outside the buffer or the digit table.
\<close>

theorem ll2string_correct:
  assumes "fits 8 v" and "dstlen \<le> length dst"
  shows "ll2string dst dstlen v =
    Some (if length (decimal v) < dstlen
          then (length (decimal v), decimal v @ CH_NUL # drop (length (decimal v) + 1) dst)
          else (0, dst))"
  using ll2string_spec [OF assms] .

text \<open>The two ways through \<open>string2ll\<close>, with the sign split off.\<close>

definition unsigned_part :: "byte list \<Rightarrow> byte list" where
  "unsigned_part s = (if hd s = CH_MINUS then tl s else s)"

lemma string2ll_unfold:
  "string2ll s = (if s = [] then None else if s = [CH_0] then Some 0
     else if unsigned_part s = [] \<or> \<not> (CH_1 \<le> hd (unsigned_part s) \<and> hd (unsigned_part s) \<le> CH_9) then None
     else case string2ll_loop (unat (hd (unsigned_part s)) - 48) (tl (unsigned_part s)) of
        None \<Rightarrow> None
      | Some (v, rest) \<Rightarrow>
          if rest \<noteq> [] then None
          else if hd s = CH_MINUS then if v > LLONG_MAX + 1 then None else Some (- int v)
          else if v > LLONG_MAX then None else Some (int v))"
proof -
  have one: "length s = 1 \<and> hd s = CH_0 \<longleftrightarrow> s = [CH_0]" by (cases s) auto
  have zero: "\<not> (hd (unsigned_part s) = CH_0 \<and> length s = 1)" if "s \<noteq> [CH_0]" "unsigned_part s \<noteq> []"
    using that by (cases s) (auto simp: unsigned_part_def split: if_splits)
  show ?thesis
    unfolding string2ll_def Let_def one unsigned_part_def [symmetric]
    using zero by (simp only: if_True if_False simp_thms de_Morgan_conj de_Morgan_disj split: if_split) blast
qed

lemma decimal_shape:
  "s = decimal v \<Longrightarrow> s = [CH_0] \<and> v = 0 \<or>
    unsigned_part s \<noteq> [] \<and> CH_1 \<le> hd (unsigned_part s) \<and> hd (unsigned_part s) \<le> CH_9
    \<and> (if v < 0 then hd s = CH_MINUS \<and> unsigned_part s = decimal_nat (nat (- v))
       else hd s \<noteq> CH_MINUS \<and> 0 < v \<and> unsigned_part s = decimal_nat (nat v))"
  using decimal_nat_hd [of "nat v"] decimal_nat_hd [of "nat (- v)"] decimal_nat_hd_minus [of "nat v"]
  by (cases v "0::int" rule: linorder_cases) (auto simp: unsigned_part_def decimal_def decimal_nat_0)

lemma decimal_0: "decimal 0 = [CH_0]"
  by (simp add: decimal_def decimal_nat_0)

lemma string2ll_reject:
  assumes "s = [] \<or> s = [CH_0] \<or> unsigned_part s = []
    \<or> \<not> (CH_1 \<le> hd (unsigned_part s) \<and> hd (unsigned_part s) \<le> CH_9)"
  shows "string2ll s = (if s = [CH_0] then Some 0 else None)"
proof (cases "s = [] \<or> s = [CH_0]")
  case True
  then show ?thesis unfolding string2ll_unfold by auto
next
  case False
  with assms have "unsigned_part s = [] \<or> \<not> (CH_1 \<le> hd (unsigned_part s) \<and> hd (unsigned_part s) \<le> CH_9)"
    by blast
  with False show ?thesis unfolding string2ll_unfold by (simp only: if_True if_False simp_thms) auto
qed

lemma string2ll_parse:
  assumes "s \<noteq> []" and "s \<noteq> [CH_0]" and p: "unsigned_part s \<noteq> []"
    "CH_1 \<le> hd (unsigned_part s)" "hd (unsigned_part s) \<le> CH_9"
  shows "string2ll s = Some v \<longleftrightarrow> (\<exists>w. (unsigned_part s = decimal_nat w \<and> 0 < w \<and> w \<le> ULLONG_MAX)
        \<and> (if hd s = CH_MINUS then w \<le> LLONG_MAX + 1 \<and> v = - int w else w \<le> LLONG_MAX \<and> v = int w))"
proof -
  have "string2ll s = Some v \<longleftrightarrow>
     (\<exists>w. string2ll_loop (unat (hd (unsigned_part s)) - 48) (tl (unsigned_part s)) = Some (w, [])
        \<and> (if hd s = CH_MINUS then w \<le> LLONG_MAX + 1 \<and> v = - int w else w \<le> LLONG_MAX \<and> v = int w))"
    using assms unfolding string2ll_unfold by (auto split: option.splits)
  then show ?thesis unfolding string2ll_loop_decimal [OF p] .
qed

lemma string2ll_iff:
  "string2ll s = Some v \<longleftrightarrow> fits 8 v \<and> s = decimal v"
proof (cases "s \<noteq> [] \<and> s \<noteq> [CH_0] \<and> unsigned_part s \<noteq> []
    \<and> CH_1 \<le> hd (unsigned_part s) \<and> hd (unsigned_part s) \<le> CH_9")
  case False
  have "s \<noteq> []" if "s = decimal v" using that by (auto simp: decimal_def split: if_splits)
  moreover have "\<not> CH_1 \<le> hd (unsigned_part s)" if "s = [CH_0]" using that by (simp add: unsigned_part_def)
  ultimately have "s = decimal v \<longleftrightarrow> s = [CH_0] \<and> v = 0"
    using False decimal_shape [of s v] decimal_0 by metis
  moreover have "fits 8 0" by (simp add: fits_def)
  moreover have "string2ll s = (if s = [CH_0] then Some 0 else None)"
    using False by (intro string2ll_reject) blast
  ultimately show ?thesis by (cases "s = [CH_0]") auto
next
  case True
  then have p: "s \<noteq> []" "s \<noteq> [CH_0]" "unsigned_part s \<noteq> []"
    "CH_1 \<le> hd (unsigned_part s)" "hd (unsigned_part s) \<le> CH_9" by auto
  show ?thesis
  proof
    assume "string2ll s = Some v"
    then obtain w where w: "unsigned_part s = decimal_nat w" "0 < w"
      "if hd s = CH_MINUS then w \<le> LLONG_MAX + 1 \<and> v = - int w else w \<le> LLONG_MAX \<and> v = int w"
      unfolding string2ll_parse [OF p] by blast
    then show "fits 8 v \<and> s = decimal v" using p(1)
      by (cases s) (auto simp: fits_def decimal_def unsigned_part_def split: if_splits)
  next
    assume "fits 8 v \<and> s = decimal v"
    then show "string2ll s = Some v" unfolding string2ll_parse [OF p]
      using decimal_shape [of s v] p(2)
      by (intro exI [of _ "nat \<bar>v\<bar>"]) (auto simp: fits_def split: if_splits)
  qed
qed

lemma string2ll_decimal: "fits 8 v \<Longrightarrow> string2ll (decimal v) = Some v"
  by (simp add: string2ll_iff)

text \<open>
  C28: \<open>string2ll\<close> accepts exactly the decimal numerals of the 64-bit integers (no leading
  zero, no plus sign, no blank, no minus zero) and returns the integer; everything else,
  overflows included, is rejected. \<open>string2l\<close> accepts the same texts.
\<close>

theorem string2ll_correct:
  "(string2ll s = Some v \<longleftrightarrow> fits 8 v \<and> s = decimal v) \<and> string2l s = string2ll s"
proof
  have "- (2 ^ 63) \<le> v \<and> v \<le> 2 ^ 63 - 1" if "string2ll s = Some v" for v
    using that by (auto simp: string2ll_iff fits_def)
  then show "string2l s = string2ll s" by (cases "string2ll s") (auto simp: string2l_def)
qed (rule string2ll_iff)

text \<open>The longest numeral, in the smallest buffer that holds it.\<close>

theorem ll2string_correct_witness:
  "ll2string (replicate 21 170) 21 (- (2 ^ 63)) =
    Some (length (decimal (- (2 ^ 63))),
      decimal (- (2 ^ 63)) @ CH_NUL # drop (length (decimal (- (2 ^ 63))) + 1) (replicate 21 170))"
  using ll2string_correct [of "- (2 ^ 63)" 21 "replicate 21 170"] length_decimal_i64 [of "- (2 ^ 63)"]
  by (simp add: fits_def)

end
