(* ===== verification/Glob.thy ===== *)
theory Glob
  imports Util
begin

text \<open>
  Glob patterns: \<open>stringmatchlen\<close> of \<^verbatim>\<open>util.c\<close> on C memory, and its reference semantics on
  parsed patterns. A pointer into a string is the list of the bytes from there to the end
  of its allocation (the terminating NUL and whatever follows included); a read past that
  end is \<open>None\<close>, and the remaining lengths are the signed integers of the code, which the
  code lets go below zero.
\<close>

section \<open>The matcher\<close>

text \<open>
  The loop over the members of a bracket expression. The result is the match flag and the
  pattern and length after the \<open>pattern++; patternLen--\<close> that follows it: where the pattern
  ends inside the brackets, that increment undoes the decrement of the loop.
\<close>

definition range_match :: "bool \<Rightarrow> byte \<Rightarrow> byte \<Rightarrow> byte \<Rightarrow> bool" where
  "range_match nocase x z c =
     (let start = x; end' = z;
          (start, end') = (if sint start > sint end' then (end', start) else (start, end'));
          start = (if nocase then tolower start else start);
          end' = (if nocase then tolower end' else end');
          c = (if nocase then tolower c else c)
      in sint c \<ge> sint start \<and> sint c \<le> sint end')"

definition char_eq :: "bool \<Rightarrow> byte \<Rightarrow> byte \<Rightarrow> bool" where
  "char_eq nocase x c = (if \<not> nocase then x = c else tolower x = tolower c)"

fun class_loop :: "bool \<Rightarrow> mem \<Rightarrow> mem \<Rightarrow> int \<Rightarrow> bool \<Rightarrow> (bool \<times> mem \<times> int) option" where
  "class_loop nocase s [] plen match = None"
| "class_loop nocase s (x # ps) plen match =
     (if x = CH_BACKSLASH then
        (case ps of
           [] \<Rightarrow> None
         | y # ps' \<Rightarrow>
             (case get_at s 0 of
                None \<Rightarrow> None
              | Some c \<Rightarrow> class_loop nocase s ps' (plen - 2) (match \<or> y = c)))
      else if x = CH_RBRACKET then Some (match, ps, plen - 1)
      else if plen = 0 then Some (match, x # ps, 0)
      else
        (case ps of
           [] \<Rightarrow> None
         | y # ps' \<Rightarrow>
             if y = CH_MINUS \<and> plen \<ge> 3 then
               (case ps' of
                  [] \<Rightarrow> None
                | z # ps'' \<Rightarrow>
                    (case get_at s 0 of
                       None \<Rightarrow> None
                     | Some c \<Rightarrow> class_loop nocase s ps'' (plen - 3) (match \<or> range_match nocase x z c)))
             else
               (case get_at s 0 of
                  None \<Rightarrow> None
                | Some c \<Rightarrow> class_loop nocase s ps (plen - 1) (match \<or> char_eq nocase x c))))"

declare class_loop.simps(2) [simp del]

text \<open>The loop \<open>while (pattern[1] == '*')\<close>, and the one over \<open>*pattern\<close> at the end of the string.\<close>

fun skip_next_stars :: "mem \<Rightarrow> int \<Rightarrow> (mem \<times> int) option" where
  "skip_next_stars [] plen = None"
| "skip_next_stars [x] plen = None"
| "skip_next_stars (x # y # ps) plen =
     (if y = CH_STAR then skip_next_stars (y # ps) (plen - 1) else Some (x # y # ps, plen))"

fun skip_stars :: "mem \<Rightarrow> int \<Rightarrow> int option" where
  "skip_stars [] plen = None"
| "skip_stars (x # ps) plen = (if x = CH_STAR then skip_stars ps (plen - 1) else Some plen)"

lemma class_loop_bound:
  "length p \<le> n \<Longrightarrow> pred_option (\<lambda>(m', p', plen'). length p' \<le> n) (class_loop nocase s p plen m)"
proof (induction nocase s p plen m rule: class_loop.induct)
  case (2 nocase s x ps plen match)
  then show ?case
    by (subst class_loop.simps) (auto split: list.split option.split)
qed simp

lemma class_loop_length: "class_loop nocase s p plen m = Some (m', p', plen') \<Longrightarrow> length p' \<le> length p"
  using class_loop_bound [of p "length p" nocase s plen m] by simp

lemma skip_next_stars_length: "skip_next_stars p plen = Some (p', plen') \<Longrightarrow> length p' \<le> length p"
  by (induction p plen rule: skip_next_stars.induct) (auto split: if_splits)

definition class_step :: "bool \<Rightarrow> mem \<Rightarrow> int \<Rightarrow> mem \<Rightarrow> (bool \<times> mem \<times> int) option" where
  "class_step nocase ps plen s = do {
     c \<leftarrow> get_at ps 0;
     let neg = (c = CH_CARET);
     (match, ps', plen') \<leftarrow>
       (if neg then class_loop nocase s (tl ps) (plen - 1) False else class_loop nocase s ps plen False);
     Some (if neg then \<not> match else match, ps', plen') }"

lemma class_step_length: "class_step nocase ps plen s = Some (m, ps', plen') \<Longrightarrow> length ps' \<le> length ps"
  by (auto simp: class_step_def Let_def bind_eq_Some_conv split: if_splits dest!: class_loop_length)

function (sequential) stringmatchlen :: "bool \<Rightarrow> mem \<Rightarrow> int \<Rightarrow> mem \<Rightarrow> int \<Rightarrow> bool option"
  and star_loop :: "bool \<Rightarrow> mem \<Rightarrow> int \<Rightarrow> mem \<Rightarrow> int \<Rightarrow> bool option"
  and match_rest :: "bool \<Rightarrow> mem \<Rightarrow> int \<Rightarrow> mem \<Rightarrow> int \<Rightarrow> bool option" where
  "stringmatchlen nocase p plen s slen =
     (if plen = 0 then Some (slen = 0)
      else case p of
        [] \<Rightarrow> None
      | x # ps \<Rightarrow>
          if x = CH_STAR then
            (case skip_next_stars p plen of
               None \<Rightarrow> None
             | Some (p', plen') \<Rightarrow>
                 if plen' = 1 then Some True else star_loop nocase (tl p') (plen' - 1) s slen)
          else if x = CH_QUESTION then
            if slen = 0 then Some False
            else (case s of [] \<Rightarrow> None | c # s' \<Rightarrow> match_rest nocase ps (plen - 1) s' (slen - 1))
          else if x = CH_LBRACKET then
            (case class_step nocase ps (plen - 1) s of
               None \<Rightarrow> None
             | Some (match, ps', plen') \<Rightarrow>
                 if \<not> match then Some False
                 else (case s of [] \<Rightarrow> None | c # s' \<Rightarrow> match_rest nocase ps' plen' s' (slen - 1)))
          else
            (case (if x = CH_BACKSLASH \<and> plen \<ge> 2 then (ps, plen - 1) else (p, plen)) of
               ([], _) \<Rightarrow> None
             | (y # qs, plen') \<Rightarrow>
                 (case s of
                    [] \<Rightarrow> None
                  | c # s' \<Rightarrow>
                      if \<not> char_eq nocase y c then Some False
                      else match_rest nocase qs (plen' - 1) s' (slen - 1))))"
| "star_loop nocase p plen s slen =
     (if slen = 0 then Some False
      else case stringmatchlen nocase p plen s slen of
        None \<Rightarrow> None
      | Some True \<Rightarrow> Some True
      | Some False \<Rightarrow> (case s of [] \<Rightarrow> None | c # s' \<Rightarrow> star_loop nocase p plen s' (slen - 1)))"
| "match_rest nocase p plen s slen =
     (if slen = 0 then map_option (\<lambda>n. n = 0) (skip_stars p plen)
      else stringmatchlen nocase p plen s slen)"
  by pat_completeness auto
termination
  by (relation "inv_image (less_than <*lex*> less_than <*lex*> less_than)
      (\<lambda>a. case a of
         Inl (nc, p, pl, s, sl) \<Rightarrow> (length p, length s, 0)
       | Inr (Inl (nc, p, pl, s, sl)) \<Rightarrow> (length p, length s, 1 :: nat)
       | Inr (Inr (nc, p, pl, s, sl)) \<Rightarrow> (length p, length s, 1))")
    (auto dest!: skip_next_stars_length class_step_length split: if_splits)

declare stringmatchlen.simps [simp del] star_loop.simps [simp del]

text \<open>On NUL-terminated strings.\<close>

definition strlen :: "mem \<Rightarrow> nat" where
  "strlen s = length (takeWhile (\<lambda>c. c \<noteq> 0) s)"

definition stringmatch :: "bool \<Rightarrow> mem \<Rightarrow> mem \<Rightarrow> bool option" where
  "stringmatch nocase p s = stringmatchlen nocase p (cast_int (int (strlen p))) s (cast_int (int (strlen s)))"

section \<open>Reference semantics\<close>

datatype citem = COne byte | CEsc byte | CRange byte byte

datatype glob = Star | Any | Lit byte | Esc byte | Class bool "citem list"

fun item_text :: "citem \<Rightarrow> byte list" where
  "item_text (COne c) = [c]"
| "item_text (CEsc c) = [CH_BACKSLASH, c]"
| "item_text (CRange a b) = [a, CH_MINUS, b]"

definition items_text :: "citem list \<Rightarrow> byte list" where
  "items_text its = concat (map item_text its)"

fun glob_text :: "glob \<Rightarrow> byte list" where
  "glob_text Star = [CH_STAR]"
| "glob_text Any = [CH_QUESTION]"
| "glob_text (Lit c) = [c]"
| "glob_text (Esc c) = [CH_BACKSLASH, c]"
| "glob_text (Class neg its) = CH_LBRACKET # (if neg then [CH_CARET] else []) @ items_text its @ [CH_RBRACKET]"

definition pattern_text :: "glob list \<Rightarrow> byte list" where
  "pattern_text g = concat (map glob_text g)"

fun item_match :: "bool \<Rightarrow> byte \<Rightarrow> citem \<Rightarrow> bool" where
  "item_match nocase c (COne x) = char_eq nocase x c"
| "item_match nocase c (CEsc x) = (x = c)"
| "item_match nocase c (CRange a b) = range_match nocase a b c"

fun one_match :: "bool \<Rightarrow> byte \<Rightarrow> glob \<Rightarrow> bool" where
  "one_match nocase c Star = False"
| "one_match nocase c Any = True"
| "one_match nocase c (Lit x) = char_eq nocase x c"
| "one_match nocase c (Esc x) = char_eq nocase x c"
| "one_match nocase c (Class neg its) = (list_ex (item_match nocase c) its \<noteq> neg)"

fun gmatch :: "bool \<Rightarrow> glob list \<Rightarrow> byte list \<Rightarrow> bool" where
  "gmatch nocase [] s = (s = [])"
| "gmatch nocase (Star # g) [] = gmatch nocase g []"
| "gmatch nocase (Star # g) (c # s) = (gmatch nocase g (c # s) \<or> gmatch nocase (Star # g) s)"
| "gmatch nocase (a # g) [] = False"
| "gmatch nocase (a # g) (c # s) = (one_match nocase c a \<and> gmatch nocase g s)"

text \<open>The parsed patterns whose text reads back as written.\<close>

fun items_wf :: "citem list \<Rightarrow> bool" where
  "items_wf [] = True"
| "items_wf (COne c # its) = (c \<noteq> CH_RBRACKET \<and> c \<noteq> CH_BACKSLASH
     \<and> (its \<noteq> [] \<longrightarrow> hd (items_text its) \<noteq> CH_MINUS) \<and> items_wf its)"
| "items_wf (CEsc c # its) = items_wf its"
| "items_wf (CRange a b # its) = (a \<noteq> CH_RBRACKET \<and> a \<noteq> CH_BACKSLASH \<and> items_wf its)"

fun glob_wf :: "glob \<Rightarrow> bool" where
  "glob_wf (Lit c) = (c \<notin> {CH_STAR, CH_QUESTION, CH_LBRACKET, CH_BACKSLASH})"
| "glob_wf (Class neg its) = (items_wf its \<and> (\<not> neg \<longrightarrow> its \<noteq> [] \<longrightarrow> hd (items_text its) \<noteq> CH_CARET))"
| "glob_wf _ = True"

text \<open>What cannot match the terminator of an empty string.\<close>

fun no_nul :: "glob \<Rightarrow> bool" where
  "no_nul (Lit c) = (c \<noteq> CH_NUL)"
| "no_nul (Esc c) = (c \<noteq> CH_NUL)"
| "no_nul (Class neg its) = False"
| "no_nul _ = True"

lemma pattern_text_simps [simp]:
  "pattern_text [] = []" "pattern_text (a # g) = glob_text a @ pattern_text g"
  by (simp_all add: pattern_text_def)

lemma items_text_simps [simp]:
  "items_text [] = []" "items_text (a # g) = item_text a @ items_text g"
  by (simp_all add: items_text_def)

lemma items_text_Nil [simp]: "items_text its = [] \<longleftrightarrow> its = []"
  by (cases its; cases "hd its") auto

section \<open>Bracket expressions\<close>

lemma class_loop_spec:
  assumes "items_wf its" and "plen > int (length (items_text its))"
  shows "class_loop nocase (c # s) (items_text its @ CH_RBRACKET # r) plen m
    = Some (m \<or> list_ex (item_match nocase c) its, r, plen - int (length (items_text its)) - 1)"
  using assms
proof (induction its arbitrary: plen m)
  case Nil
  then show ?case by (simp add: class_loop.simps(2))
next
  case (Cons a its)
  show ?case
  proof (cases a)
    case (COne x)
    have nx: "hd (items_text its @ CH_RBRACKET # r) \<noteq> CH_MINUS"
      using Cons.prems(1) COne by (cases "its = []") (auto simp: hd_append)
    obtain y ys where ys: "items_text its @ CH_RBRACKET # r = y # ys"
      by (cases "items_text its") auto
    then have "class_loop nocase (c # s) (x # y # ys) plen m
        = class_loop nocase (c # s) (y # ys) (plen - 1) (m \<or> char_eq nocase x c)"
      using COne Cons.prems nx by (subst class_loop.simps) simp
    then show ?thesis
      using COne Cons.IH [of "plen - 1" "m \<or> char_eq nocase x c"] Cons.prems
      by (simp add: ys [symmetric] disj_assoc)
  next
    case (CEsc x)
    have "class_loop nocase (c # s) (CH_BACKSLASH # x # items_text its @ CH_RBRACKET # r) plen m
        = class_loop nocase (c # s) (items_text its @ CH_RBRACKET # r) (plen - 2) (m \<or> x = c)"
      by (subst class_loop.simps) simp
    then show ?thesis
      using CEsc Cons.IH [of "plen - 2" "m \<or> x = c"] Cons.prems by (simp add: disj_assoc)
  next
    case (CRange x z)
    have "class_loop nocase (c # s) (x # CH_MINUS # z # items_text its @ CH_RBRACKET # r) plen m
        = class_loop nocase (c # s) (items_text its @ CH_RBRACKET # r) (plen - 3) (m \<or> range_match nocase x z c)"
      using Cons.prems CRange by (subst class_loop.simps) simp
    then show ?thesis
      using CRange Cons.IH [of "plen - 3" "m \<or> range_match nocase x z c"] Cons.prems
      by (simp add: disj_assoc)
  qed
qed

lemma class_step_spec:
  assumes "glob_wf (Class neg its)" and "plen \<ge> int (length (glob_text (Class neg its)))"
  shows "class_step nocase (tl (glob_text (Class neg its)) @ r) (plen - 1) (c # s)
    = Some (one_match nocase c (Class neg its), r, plen - int (length (glob_text (Class neg its))))"
proof -
  note l = class_loop_spec [of its _ nocase c s r False]
  show ?thesis
  proof (cases neg)
    case True
    then show ?thesis using assms l [of "plen - 2"]
      by (simp add: class_step_def Let_def get_at_def)
  next
    case False
    then have "hd (items_text its @ CH_RBRACKET # r) \<noteq> CH_CARET"
      using assms(1) by (cases "its = []") (auto simp: hd_append)
    moreover have "get_at (items_text its @ CH_RBRACKET # r) 0 = Some (hd (items_text its @ CH_RBRACKET # r))"
      by (cases "items_text its") (simp_all add: get_at_def)
    ultimately show ?thesis using False assms l [of "plen - 1"]
      by (simp add: class_step_def Let_def)
  qed
qed

section \<open>Stars\<close>

abbreviation drop_stars :: "glob list \<Rightarrow> glob list" where
  "drop_stars \<equiv> dropWhile (\<lambda>a. a = Star)"

lemma hd_glob_text: "glob_wf a \<Longrightarrow> a \<noteq> Star \<Longrightarrow> hd (glob_text a) \<noteq> CH_STAR"
  by (cases a) auto

lemma glob_text_Nil [simp]: "glob_text a \<noteq> []"
  by (cases a) auto

lemma hd_pattern:
  assumes "list_all glob_wf g" and "g = [] \<or> hd g \<noteq> Star"
  shows "hd (pattern_text g @ CH_NUL # r) \<noteq> CH_STAR"
  using assms hd_glob_text [of "hd g"] by (cases g) (auto simp: hd_append)

lemma hd_drop_stars: "drop_stars g = [] \<or> hd (drop_stars g) \<noteq> Star"
  by (induction g) auto

lemma drop_stars_idem: "drop_stars (drop_stars g) = drop_stars g"
  by (induction g) auto

lemma drop_stars_wf: "list_all P g \<Longrightarrow> list_all P (drop_stars g)"
  by (induction g) auto

lemma length_drop_stars: "length (drop_stars g) \<le> length g"
  by (rule length_dropWhile_le)

lemma skip_stars_head: "hd (xs @ y # ys) \<noteq> CH_STAR \<Longrightarrow> skip_stars (xs @ y # ys) n = Some n"
  by (cases xs) auto

lemma skip_stars_spec:
  "list_all glob_wf g \<Longrightarrow>
   skip_stars (pattern_text g @ CH_NUL # r) (int (length (pattern_text g)))
     = Some (int (length (pattern_text (drop_stars g))))"
proof (induction g)
  case (Cons a g)
  show ?case
  proof (cases "a = Star")
    case False
    then show ?thesis
      using hd_pattern [of "a # g" r] Cons.prems skip_stars_head [of "pattern_text (a # g)"] by simp
  qed (use Cons in simp)
qed simp

lemma skip_next_stars_head:
  "hd (xs @ y # ys) \<noteq> CH_STAR \<Longrightarrow> skip_next_stars (x # xs @ y # ys) n = Some (x # xs @ y # ys, n)"
  by (cases xs) auto

lemma skip_next_stars_spec:
  "list_all glob_wf g \<Longrightarrow>
   skip_next_stars (CH_STAR # pattern_text g @ CH_NUL # r) (1 + int (length (pattern_text g)))
     = Some (CH_STAR # pattern_text (drop_stars g) @ CH_NUL # r, 1 + int (length (pattern_text (drop_stars g))))"
proof (induction g)
  case (Cons a g)
  show ?case
  proof (cases "a = Star")
    case False
    then show ?thesis
      using hd_pattern [of "a # g" r] Cons.prems skip_next_stars_head [of "pattern_text (a # g)"] by simp
  qed (use Cons in simp)
qed simp

lemma gmatch_Nil: "gmatch nocase g [] \<longleftrightarrow> drop_stars g = []"
proof (induction g)
  case (Cons a g)
  then show ?case by (cases a) auto
qed simp

lemma gmatch_Star_Star: "gmatch nocase (Star # Star # g) s = gmatch nocase (Star # g) s"
  by (induction s) auto

lemma gmatch_drop_stars: "gmatch nocase (Star # drop_stars g) s = gmatch nocase (Star # g) s"
  by (induction g) (auto simp: gmatch_Star_Star)

lemma gmatch_Star_all: "gmatch nocase [Star] s"
  by (induction s) auto

lemma gmatch_one:
  "a \<noteq> Star \<Longrightarrow> gmatch nocase (a # g) (c # s) = (one_match nocase c a \<and> gmatch nocase g s)"
  by (cases a) auto

lemma star_loop_spec:
  assumes "drop_stars g = g" and "g \<noteq> []"
    and "\<And>s. s \<noteq> [] \<Longrightarrow> stringmatchlen nocase p plen (s @ CH_NUL # q) (int (length s)) = Some (gmatch nocase g s)"
  shows "star_loop nocase p plen (s @ CH_NUL # q) (int (length s)) = Some (gmatch nocase (Star # g) s)"
proof (induction s)
  case Nil
  then show ?case using assms(1,2) by (simp add: star_loop.simps gmatch_Nil)
next
  case (Cons c s)
  then show ?case
    using assms(3) [of "c # s"] by (subst star_loop.simps) (auto split: bool.split)
qed

section \<open>The matcher meets its reference\<close>

lemma match_rest_spec:
  assumes "list_all glob_wf g"
    and "s \<noteq> [] \<Longrightarrow> stringmatchlen nocase (pattern_text g @ CH_NUL # r) (int (length (pattern_text g)))
       (s @ CH_NUL # q) (int (length s)) = Some (gmatch nocase g s)"
  shows "match_rest nocase (pattern_text g @ CH_NUL # r) (int (length (pattern_text g)))
       (s @ CH_NUL # q) (int (length s)) = Some (gmatch nocase g s)"
  using assms skip_stars_spec [OF assms(1), of r]
  by (cases "s = []") (simp_all add: gmatch_Nil pattern_text_def)

lemma char_eq_nul: "x \<noteq> 0 \<Longrightarrow> \<not> char_eq nocase x 0"
proof -
  have "tolower x \<noteq> 0" if "x \<noteq> 0"
  proof (cases "65 \<le> x \<and> x \<le> 90")
    case True
    then have "unat (x + 32) = unat x + 32"
      by (simp add: unat_word_ariths word_le_nat_alt)
    with True show ?thesis by (auto simp: tolower_def word_unat_eq_iff)
  qed (use that in \<open>auto simp: tolower_def\<close>)
  moreover have "tolower (0 :: byte) = 0" by (simp add: tolower_def)
  ultimately show "x \<noteq> 0 \<Longrightarrow> \<not> char_eq nocase x 0" by (simp add: char_eq_def)
qed

lemma stringmatchlen_class:
  assumes "plen \<noteq> 0" and "class_step nocase ps (plen - 1) (c # s) = Some (m, ps', plen')"
  shows "stringmatchlen nocase (CH_LBRACKET # ps) plen (c # s) slen
    = (if m then match_rest nocase ps' plen' s (slen - 1) else Some False)"
  using assms by (subst stringmatchlen.simps) (simp del: match_rest.simps)

lemma match_head:
  assumes wf: "list_all glob_wf (a # g)" and "a \<noteq> Star"
    and ok: "s \<noteq> [] \<or> no_nul a"
    and ih: "\<And>s. s \<noteq> [] \<Longrightarrow> stringmatchlen nocase (pattern_text g @ CH_NUL # r) (int (length (pattern_text g)))
       (s @ CH_NUL # q) (int (length s)) = Some (gmatch nocase g s)"
  shows "stringmatchlen nocase (pattern_text (a # g) @ CH_NUL # r) (int (length (pattern_text (a # g))))
       (s @ CH_NUL # q) (int (length s)) = Some (gmatch nocase (a # g) s)"
proof -
  have rest: "match_rest nocase (pattern_text g @ CH_NUL # r) (int (length (pattern_text g)))
       (s' @ CH_NUL # q) (int (length s')) = Some (gmatch nocase g s')" for s'
    using match_rest_spec [of g s'] wf ih by simp
  show ?thesis
  proof (cases s)
    case Nil
    then show ?thesis using ok assms(2) wf
      by (cases a; subst stringmatchlen.simps) (simp_all add: char_eq_nul)
  next
    case (Cons c s')
    show ?thesis
    proof (cases a)
      case (Class neg its)
      let ?plen = "int (length (pattern_text (a # g)))"
      have "class_step nocase (tl (glob_text a) @ pattern_text g @ CH_NUL # r) (?plen - 1) (c # s' @ CH_NUL # q)
          = Some (one_match nocase c a, pattern_text g @ CH_NUL # r, int (length (pattern_text g)))"
        using class_step_spec [of neg its ?plen] wf Class by simp
      moreover have "pattern_text (a # g) @ CH_NUL # r = CH_LBRACKET # tl (glob_text a) @ pattern_text g @ CH_NUL # r"
        "?plen \<noteq> 0" using Class by simp_all
      ultimately have "stringmatchlen nocase (pattern_text (a # g) @ CH_NUL # r) ?plen (c # s' @ CH_NUL # q) (int (length s))
        = (if one_match nocase c a then match_rest nocase (pattern_text g @ CH_NUL # r)
             (int (length (pattern_text g))) (s' @ CH_NUL # q) (int (length s) - 1) else Some False)"
        using stringmatchlen_class by metis
      then show ?thesis using Cons rest [of s'] assms(2)
        by (simp del: match_rest.simps pattern_text_simps add: gmatch_one)
    qed (use Cons rest [of s'] assms(2) wf in \<open>subst stringmatchlen.simps,
          simp del: match_rest.simps add: gmatch_one\<close>)+
  qed
qed

section \<open>Properties\<close>




end
