(* ===== verification/Adlist.thy ===== *)
theory Adlist
  imports Redis_Prelude
begin

text \<open>
  The doubly linked lists of \<^verbatim>\<open>adlist.c\<close>, on an explicit heap of nodes: a pointer is an
  address or null (\<open>None\<close>), the heap maps the addresses of live nodes to their fields, and
  following a null or dangling pointer makes an operation return \<open>None\<close>. The address that
  \<open>zmalloc\<close> returns is an argument of the operations that allocate; it is assumed fresh where
  it matters. \<open>chain\<close> and \<open>list_rep\<close> say which list of addresses and values a structure
  represents.
\<close>

section \<open>Nodes, lists, iterators\<close>

type_synonym addr = nat

record 'v listNode =
  node_prev :: "addr option"
  node_next :: "addr option"
  node_value :: 'v

record 'v listIter =
  iter_next :: "addr option"
  iter_from_head :: bool

record 'v list_hdr =
  l_head :: "addr option"
  l_tail :: "addr option"
  l_dup :: "('v \<Rightarrow> 'v option) option"
  l_free :: bool
  l_match :: "('v \<Rightarrow> 'v \<Rightarrow> bool) option"
  l_len :: nat

type_synonym 'v heap = "addr \<Rightarrow> 'v listNode option"

text \<open>Reading and assigning through a pointer.\<close>

definition node_at :: "'v heap \<Rightarrow> addr option \<Rightarrow> 'v listNode option" where
  "node_at h p = (case p of None \<Rightarrow> None | Some a \<Rightarrow> h a)"

definition update_node :: "'v heap \<Rightarrow> addr option \<Rightarrow> ('v listNode \<Rightarrow> 'v listNode) \<Rightarrow> 'v heap option" where
  "update_node h p f =
     (case p of None \<Rightarrow> None | Some a \<Rightarrow> (case h a of None \<Rightarrow> None | Some nd \<Rightarrow> Some (h(a \<mapsto> f nd))))"

section \<open>Operations\<close>

definition listCreate :: "'v list_hdr" where
  "listCreate = \<lparr>l_head = None, l_tail = None, l_dup = None, l_free = False, l_match = None, l_len = 0\<rparr>"

text \<open>The values passed to the free method are collected.\<close>

fun release_loop :: "nat \<Rightarrow> 'v heap \<Rightarrow> addr option \<Rightarrow> 'v list \<Rightarrow> ('v heap \<times> 'v list) option" where
  "release_loop 0 h current freed = Some (h, freed)"
| "release_loop (Suc len) h current freed = do {
     a \<leftarrow> current; nd \<leftarrow> h a;
     release_loop len (h(a := None)) (node_next nd) (freed @ [node_value nd]) }"

definition listRelease :: "'v heap \<Rightarrow> 'v list_hdr \<Rightarrow> ('v heap \<times> 'v list) option" where
  "listRelease h l = do {
     (h', freed) \<leftarrow> release_loop (l_len l) h (l_head l) [];
     Some (h', if l_free l then freed else []) }"

definition listAddNodeHead :: "addr \<Rightarrow> 'v heap \<Rightarrow> 'v list_hdr \<Rightarrow> 'v \<Rightarrow> ('v heap \<times> 'v list_hdr) option" where
  "listAddNodeHead node h l v =
     (if l_len l = 0 then
        Some (h(node \<mapsto> \<lparr>node_prev = None, node_next = None, node_value = v\<rparr>),
              l\<lparr>l_head := Some node, l_tail := Some node, l_len := l_len l + 1\<rparr>)
      else do {
        h \<leftarrow> update_node (h(node \<mapsto> \<lparr>node_prev = None, node_next = l_head l, node_value = v\<rparr>))
              (l_head l) (node_prev_update (\<lambda>_. Some node));
        Some (h, l\<lparr>l_head := Some node, l_len := l_len l + 1\<rparr>) })"

definition listAddNodeTail :: "addr \<Rightarrow> 'v heap \<Rightarrow> 'v list_hdr \<Rightarrow> 'v \<Rightarrow> ('v heap \<times> 'v list_hdr) option" where
  "listAddNodeTail node h l v =
     (if l_len l = 0 then
        Some (h(node \<mapsto> \<lparr>node_prev = None, node_next = None, node_value = v\<rparr>),
              l\<lparr>l_head := Some node, l_tail := Some node, l_len := l_len l + 1\<rparr>)
      else do {
        h \<leftarrow> update_node (h(node \<mapsto> \<lparr>node_prev = l_tail l, node_next = None, node_value = v\<rparr>))
              (l_tail l) (node_next_update (\<lambda>_. Some node));
        Some (h, l\<lparr>l_tail := Some node, l_len := l_len l + 1\<rparr>) })"

definition listInsertNode ::
  "addr \<Rightarrow> 'v heap \<Rightarrow> 'v list_hdr \<Rightarrow> addr \<Rightarrow> 'v \<Rightarrow> bool \<Rightarrow> ('v heap \<times> 'v list_hdr) option" where
  "listInsertNode node h l old_node v after = do {
     old \<leftarrow> h old_node;
     let nd = (if after
               then \<lparr>node_prev = Some old_node, node_next = node_next old, node_value = v\<rparr>
               else \<lparr>node_prev = node_prev old, node_next = Some old_node, node_value = v\<rparr>);
     let l = (if after
              then if l_tail l = Some old_node then l\<lparr>l_tail := Some node\<rparr> else l
              else if l_head l = Some old_node then l\<lparr>l_head := Some node\<rparr> else l);
     let h = h(node \<mapsto> nd);
     h \<leftarrow> (if node_prev nd \<noteq> None then update_node h (node_prev nd) (node_next_update (\<lambda>_. Some node)) else Some h);
     h \<leftarrow> (if node_next nd \<noteq> None then update_node h (node_next nd) (node_prev_update (\<lambda>_. Some node)) else Some h);
     Some (h, l\<lparr>l_len := l_len l + 1\<rparr>) }"

text \<open>The last component is the value handed to the free method.\<close>

definition listDelNode :: "'v heap \<Rightarrow> 'v list_hdr \<Rightarrow> addr \<Rightarrow> ('v heap \<times> 'v list_hdr \<times> 'v list) option" where
  "listDelNode h l node = do {
     nd \<leftarrow> h node;
     (h, l) \<leftarrow> (if node_prev nd \<noteq> None
                then do { h \<leftarrow> update_node h (node_prev nd) (node_next_update (\<lambda>_. node_next nd)); Some (h, l) }
                else Some (h, l\<lparr>l_head := node_next nd\<rparr>));
     (h, l) \<leftarrow> (if node_next nd \<noteq> None
                then do { h \<leftarrow> update_node h (node_next nd) (node_prev_update (\<lambda>_. node_prev nd)); Some (h, l) }
                else Some (h, l\<lparr>l_tail := node_prev nd\<rparr>));
     len \<leftarrow> checked_dec (l_len l);
     Some (h(node := None), l\<lparr>l_len := len\<rparr>, if l_free l then [node_value nd] else []) }"

section \<open>Iterators\<close>

definition listGetIterator :: "'v list_hdr \<Rightarrow> bool \<Rightarrow> 'v listIter" where
  "listGetIterator l from_head =
     \<lparr>iter_next = (if from_head then l_head l else l_tail l), iter_from_head = from_head\<rparr>"

definition listRewind :: "'v list_hdr \<Rightarrow> 'v listIter" where
  "listRewind l = \<lparr>iter_next = l_head l, iter_from_head = True\<rparr>"

definition listRewindTail :: "'v list_hdr \<Rightarrow> 'v listIter" where
  "listRewindTail l = \<lparr>iter_next = l_tail l, iter_from_head = False\<rparr>"

definition listNext :: "'v heap \<Rightarrow> 'v listIter \<Rightarrow> (addr option \<times> 'v listIter) option" where
  "listNext h it =
     (case iter_next it of
        None \<Rightarrow> Some (None, it)
      | Some current \<Rightarrow> do {
          nd \<leftarrow> h current;
          Some (Some current,
            it\<lparr>iter_next := (if iter_from_head it then node_next nd else node_prev nd)\<rparr>) })"

section \<open>Copying, searching, indexing, rotating\<close>

text \<open>
  The loops over an iterator end when the chain of nodes does. \<open>fresh\<close> is the address that
  the allocator returns in the given heap. A dup method that fails makes the copy be released.
\<close>

partial_function (option) dup_loop ::
  "('v heap \<Rightarrow> addr) \<Rightarrow> 'v heap \<Rightarrow> 'v listIter \<Rightarrow> 'v list_hdr \<Rightarrow> ('v heap \<times> 'v list_hdr option) option" where
  "dup_loop fresh h it copy =
     Option.bind (listNext h it) (\<lambda>r. case r of
        (None, _) \<Rightarrow> Some (h, Some copy)
      | (Some a, it') \<Rightarrow>
          Option.bind (h a) (\<lambda>nd.
            case (case l_dup copy of Some dup \<Rightarrow> dup (node_value nd) | None \<Rightarrow> Some (node_value nd)) of
              None \<Rightarrow> Option.bind (listRelease h copy) (\<lambda>(h', freed). Some (h', None))
            | Some v \<Rightarrow>
                Option.bind (listAddNodeTail (fresh h) h copy v) (\<lambda>(h', copy').
                  dup_loop fresh h' it' copy')))"

definition listDup :: "('v heap \<Rightarrow> addr) \<Rightarrow> 'v heap \<Rightarrow> 'v list_hdr \<Rightarrow> ('v heap \<times> 'v list_hdr option) option" where
  "listDup fresh h orig =
     dup_loop fresh h (listGetIterator orig True)
       (listCreate\<lparr>l_dup := l_dup orig, l_free := l_free orig, l_match := l_match orig\<rparr>)"

partial_function (option) search_loop ::
  "'v heap \<Rightarrow> 'v list_hdr \<Rightarrow> 'v listIter \<Rightarrow> 'v \<Rightarrow> addr option option" where
  "search_loop h l it key =
     Option.bind (listNext h it) (\<lambda>r. case r of
        (None, _) \<Rightarrow> Some None
      | (Some a, it') \<Rightarrow>
          Option.bind (h a) (\<lambda>nd.
            if (case l_match l of Some mt \<Rightarrow> mt (node_value nd) key | None \<Rightarrow> key = node_value nd)
            then Some (Some a)
            else search_loop h l it' key))"

declare dup_loop.simps [code] search_loop.simps [code]

definition listSearchKey :: "'v heap \<Rightarrow> 'v list_hdr \<Rightarrow> 'v \<Rightarrow> addr option option" where
  "listSearchKey h l key = search_loop h l (listGetIterator l True) key"

fun walk :: "'v heap \<Rightarrow> ('v listNode \<Rightarrow> addr option) \<Rightarrow> nat \<Rightarrow> addr option \<Rightarrow> addr option option" where
  "walk h dir 0 n = Some n"
| "walk h dir (Suc i) None = Some None"
| "walk h dir (Suc i) (Some a) = (case h a of None \<Rightarrow> None | Some nd \<Rightarrow> walk h dir i (dir nd))"

definition listIndex :: "'v heap \<Rightarrow> 'v list_hdr \<Rightarrow> int \<Rightarrow> addr option option" where
  "listIndex h l index =
     (if index < 0 then walk h node_prev (nat ((- index) - 1)) (l_tail l)
      else walk h node_next (nat index) (l_head l))"

definition listRotate :: "'v heap \<Rightarrow> 'v list_hdr \<Rightarrow> ('v heap \<times> 'v list_hdr) option" where
  "listRotate h l =
     (if l_len l \<le> 1 then Some (h, l)
      else do {
        let tail = l_tail l;
        nd \<leftarrow> node_at h tail;
        let l = l\<lparr>l_tail := node_prev nd\<rparr>;
        h \<leftarrow> update_node h (l_tail l) (node_next_update (\<lambda>_. None));
        h \<leftarrow> update_node h (l_head l) (node_prev_update (\<lambda>_. tail));
        h \<leftarrow> update_node h tail (node_prev_update (\<lambda>_. None));
        h \<leftarrow> update_node h tail (node_next_update (\<lambda>_. l_head l));
        Some (h, l\<lparr>l_head := tail\<rparr>) })"

section \<open>What a structure represents\<close>

definition first_ptr :: "(addr \<times> 'v) list \<Rightarrow> addr option \<Rightarrow> addr option" where
  "first_ptr xs n = (case xs of [] \<Rightarrow> n | x # _ \<Rightarrow> Some (fst x))"

definition last_ptr :: "addr option \<Rightarrow> (addr \<times> 'v) list \<Rightarrow> addr option" where
  "last_ptr p xs = (if xs = [] then p else Some (fst (last xs)))"

fun chain :: "'v heap \<Rightarrow> addr option \<Rightarrow> (addr \<times> 'v) list \<Rightarrow> addr option \<Rightarrow> bool" where
  "chain h p [] n = True"
| "chain h p ((a, v) # xs) n =
     (h a = Some \<lparr>node_prev = p, node_next = first_ptr xs n, node_value = v\<rparr> \<and> chain h (Some a) xs n)"

definition list_rep :: "'v heap \<Rightarrow> 'v list_hdr \<Rightarrow> (addr \<times> 'v) list \<Rightarrow> bool" where
  "list_rep h l xs \<longleftrightarrow> chain h None xs None \<and> distinct (map fst xs)
     \<and> l_head l = first_ptr xs None \<and> l_tail l = last_ptr None xs \<and> l_len l = length xs"

lemma ptr_simps [simp]:
  "first_ptr [] n = n" "first_ptr (x # xs) n = Some (fst x)" "last_ptr p [] = p"
  "last_ptr p (xs @ [x]) = Some (fst x)"
  by (simp_all add: first_ptr_def last_ptr_def)

lemma first_ptr_append: "first_ptr (xs @ ys) n = first_ptr xs (first_ptr ys n)"
  by (cases xs) auto

lemma last_ptr_append: "last_ptr p (xs @ ys) = last_ptr (last_ptr p xs) ys"
  by (cases ys rule: rev_cases) (auto simp: last_ptr_def)

lemma last_ptr_Cons [simp]: "last_ptr p (x # xs) = last_ptr (Some (fst x)) xs"
  by (simp add: last_ptr_def)

lemma chain_append:
  "chain h p (xs @ ys) n \<longleftrightarrow> chain h p xs (first_ptr ys n) \<and> chain h (last_ptr p xs) ys n"
proof (induction xs arbitrary: p)
  case (Cons x xs)
  then show ?case by (cases x) (simp add: first_ptr_append)
qed simp

lemma chain_frame: "a \<notin> fst ` set xs \<Longrightarrow> chain (h(a := x)) p xs n = chain h p xs n"
  by (induction xs arbitrary: p) auto

lemma chain_cong: "chain h p xs n \<Longrightarrow> (\<And>a. a \<in> fst ` set xs \<Longrightarrow> h' a = h a) \<Longrightarrow> chain h' p xs n"
proof (induction xs arbitrary: p)
  case (Cons x xs)
  then show ?case by (cases x) simp
qed simp

lemma chain_live: "chain h p xs n \<Longrightarrow> a \<in> fst ` set xs \<Longrightarrow> h a \<noteq> None"
proof (induction xs arbitrary: p)
  case (Cons x xs)
  then show ?case by (cases x) auto
qed simp

lemma set_next:
  assumes "chain h p (xs @ [(a, v)]) n" and "distinct (map fst (xs @ [(a, v)]))"
  shows "\<exists>nd. h a = Some nd \<and> update_node h (Some a) (node_next_update (\<lambda>_. m)) = Some (h(a \<mapsto> nd\<lparr>node_next := m\<rparr>))
    \<and> chain (h(a \<mapsto> nd\<lparr>node_next := m\<rparr>)) p (xs @ [(a, v)]) m"
  using assms by (auto simp: update_node_def chain_append chain_frame)

lemma set_prev:
  assumes "chain h p ((a, v) # xs) n" and "distinct (map fst ((a, v) # xs))"
  shows "\<exists>nd. h a = Some nd \<and> update_node h (Some a) (node_prev_update (\<lambda>_. q)) = Some (h(a \<mapsto> nd\<lparr>node_prev := q\<rparr>))
    \<and> chain (h(a \<mapsto> nd\<lparr>node_prev := q\<rparr>)) q ((a, v) # xs) n"
  using assms by (auto simp: update_node_def chain_frame)

section \<open>Linking and unlinking\<close>

text \<open>
  Assigning the next field of the last node before a gap and the previous field of the first
  node after it; either may be missing.
\<close>

definition join_gap :: "'v heap \<Rightarrow> addr option \<Rightarrow> addr option \<Rightarrow> addr option \<Rightarrow> addr option \<Rightarrow> 'v heap option" where
  "join_gap h p n np pn = do {
     h \<leftarrow> (if p \<noteq> None then update_node h p (node_next_update (\<lambda>_. np)) else Some h);
     (if n \<noteq> None then update_node h n (node_prev_update (\<lambda>_. pn)) else Some h) }"

lemma join_gap_spec:
  assumes "chain h None ys n" and "chain h p zs None" and "distinct (map fst (ys @ zs))"
  shows "\<exists>h'. join_gap h (last_ptr None ys) (first_ptr zs None) np pn = Some h'
    \<and> chain h' None ys (if ys = [] then n else np) \<and> chain h' (if zs = [] then p else pn) zs None
    \<and> (\<forall>b. b \<notin> fst ` set (ys @ zs) \<longrightarrow> h' b = h b)"
proof -
  obtain h1 where h1: "(if last_ptr None ys \<noteq> None then update_node h (last_ptr None ys) (node_next_update (\<lambda>_. np)) else Some h) = Some h1"
    "chain h1 None ys (if ys = [] then n else np)" "\<forall>b. b \<notin> fst ` set ys \<longrightarrow> h1 b = h b"
  proof (cases ys rule: rev_cases)
    case Nil
    then show ?thesis using that [of h] assms(1) by simp
  next
    case (snoc ys' x)
    obtain a v where x: "x = (a, v)" by (cases x)
    have "\<exists>nd. h a = Some nd \<and> update_node h (Some a) (node_next_update (\<lambda>_. np)) = Some (h(a \<mapsto> nd\<lparr>node_next := np\<rparr>))
      \<and> chain (h(a \<mapsto> nd\<lparr>node_next := np\<rparr>)) None (ys' @ [(a, v)]) np"
      by (rule set_next) (use assms snoc x in simp_all)
    then obtain nd where "update_node h (Some a) (node_next_update (\<lambda>_. np)) = Some (h(a \<mapsto> nd\<lparr>node_next := np\<rparr>))"
      "chain (h(a \<mapsto> nd\<lparr>node_next := np\<rparr>)) None (ys' @ [(a, v)]) np" by blast
    then show ?thesis using that [of "h(a \<mapsto> nd\<lparr>node_next := np\<rparr>)"] snoc x by simp
  qed
  have fr: "chain h1 p zs None"
    using assms(2,3) h1(3) by (metis chain_cong disjoint_insert(1) distinct_append image_set map_append disjoint_iff)
  show ?thesis
  proof (cases zs)
    case Nil
    then show ?thesis using h1 by (simp add: join_gap_def)
  next
    case (Cons x zs')
    obtain a v where x: "x = (a, v)" by (cases x)
    have "\<exists>nd. h1 a = Some nd \<and> update_node h1 (Some a) (node_prev_update (\<lambda>_. pn)) = Some (h1(a \<mapsto> nd\<lparr>node_prev := pn\<rparr>))
      \<and> chain (h1(a \<mapsto> nd\<lparr>node_prev := pn\<rparr>)) pn ((a, v) # zs') None"
      by (rule set_prev) (use fr assms(3) Cons x in simp_all)
    then obtain nd where nd: "update_node h1 (Some a) (node_prev_update (\<lambda>_. pn)) = Some (h1(a \<mapsto> nd\<lparr>node_prev := pn\<rparr>))"
      "chain (h1(a \<mapsto> nd\<lparr>node_prev := pn\<rparr>)) pn ((a, v) # zs') None" by blast
    moreover have "chain (h1(a \<mapsto> nd\<lparr>node_prev := pn\<rparr>)) None ys (if ys = [] then n else np)"
      using h1(2) assms(3) Cons x by (subst chain_frame) auto
    ultimately show ?thesis using h1(1,3) Cons x by (auto simp: join_gap_def)
  qed
qed

lemma link_spec:
  assumes "list_rep h l (ys @ zs)" and "h new = None"
  shows "\<exists>h'. join_gap (h(new \<mapsto> \<lparr>node_prev = last_ptr None ys, node_next = first_ptr zs None, node_value = v\<rparr>))
      (last_ptr None ys) (first_ptr zs None) (Some new) (Some new) = Some h'
    \<and> chain h' None (ys @ (new, v) # zs) None \<and> distinct (map fst (ys @ (new, v) # zs))
    \<and> (\<forall>b. b \<notin> insert new (fst ` set (ys @ zs)) \<longrightarrow> h' b = h b)"
proof -
  let ?h = "h(new \<mapsto> \<lparr>node_prev = last_ptr None ys, node_next = first_ptr zs None, node_value = v\<rparr>)"
  have c: "chain h None ys (first_ptr zs None)" "chain h (last_ptr None ys) zs None" "distinct (map fst (ys @ zs))"
    using assms(1) by (auto simp: list_rep_def chain_append)
  have new: "new \<notin> fst ` set (ys @ zs)"
    using chain_live [of h None "ys @ zs" None new] assms by (auto simp: list_rep_def)
  then have "chain ?h None ys (first_ptr zs None)" "chain ?h (last_ptr None ys) zs None"
    using c(1,2) by (simp_all add: chain_frame image_Un)
  from join_gap_spec [OF this c(3), of "Some new" "Some new"] obtain h' where
    h': "join_gap ?h (last_ptr None ys) (first_ptr zs None) (Some new) (Some new) = Some h'"
      "chain h' None ys (if ys = [] then first_ptr zs None else Some new)"
      "chain h' (if zs = [] then last_ptr None ys else Some new) zs None"
      "\<forall>b. b \<notin> fst ` set (ys @ zs) \<longrightarrow> h' b = ?h b" by blast
  have "h' new = ?h new" using h'(4) new by blast
  then have "chain h' None (ys @ (new, v) # zs) None"
    using h'(2,3) by (cases "ys = []"; cases "zs = []") (simp_all add: chain_append)
  moreover have "\<forall>b. b \<notin> insert new (fst ` set (ys @ zs)) \<longrightarrow> h' b = h b" using h'(4) by simp
  ultimately show ?thesis using h'(1) c(3) new by auto
qed

lemma unlink_spec:
  assumes "list_rep h l (ys @ (a, v) # zs)"
  shows "\<exists>h'. join_gap h (last_ptr None ys) (first_ptr zs None) (first_ptr zs None) (last_ptr None ys) = Some h'
    \<and> chain (h'(a := None)) None (ys @ zs) None
    \<and> (\<forall>b. b \<notin> fst ` set (ys @ (a, v) # zs) \<longrightarrow> h' b = h b)"
proof -
  have c: "chain h None ys (Some a)" "chain h (Some a) zs None" "distinct (map fst (ys @ zs))" "a \<notin> fst ` set (ys @ zs)"
    using assms by (auto simp: list_rep_def chain_append)
  from join_gap_spec [OF c(1-3), of "first_ptr zs None" "last_ptr None ys"] obtain h' where
    h': "join_gap h (last_ptr None ys) (first_ptr zs None) (first_ptr zs None) (last_ptr None ys) = Some h'"
      "chain h' None ys (if ys = [] then Some a else first_ptr zs None)"
      "chain h' (if zs = [] then Some a else last_ptr None ys) zs None"
      "\<forall>b. b \<notin> fst ` set (ys @ zs) \<longrightarrow> h' b = h b" by blast
  have "chain h' None (ys @ zs) None"
    using h'(2,3) by (cases "ys = []"; cases "zs = []") (simp_all add: chain_append)
  then show ?thesis using h'(1,4) c(4) by (auto simp: chain_frame)
qed

section \<open>The operations\<close>

lemma rep_split_facts:
  assumes "list_rep h l (ys @ (a, v) # zs)"
  shows "h a = Some \<lparr>node_prev = last_ptr None ys, node_next = first_ptr zs None, node_value = v\<rparr>"
    and "l_tail l = Some a \<longleftrightarrow> zs = []" and "l_head l = Some a \<longleftrightarrow> ys = []"
proof -
  show "h a = Some \<lparr>node_prev = last_ptr None ys, node_next = first_ptr zs None, node_value = v\<rparr>"
    using assms by (simp add: list_rep_def chain_append)
  have d: "a \<notin> fst ` set ys" "a \<notin> fst ` set zs" using assms by (auto simp: list_rep_def)
  then show "l_tail l = Some a \<longleftrightarrow> zs = []"
    using assms by (cases zs rule: rev_cases) (auto simp: list_rep_def last_ptr_append)
  show "l_head l = Some a \<longleftrightarrow> ys = []"
    using assms d by (cases ys) (auto simp: list_rep_def first_ptr_append)
qed

lemma listAddNodeHead_rep:
  assumes "list_rep h l xs" and "h new = None"
  shows "\<exists>h' l'. listAddNodeHead new h l v = Some (h', l') \<and> list_rep h' l' ((new, v) # xs)
    \<and> (\<forall>b. b \<notin> insert new (fst ` set xs) \<longrightarrow> h' b = h b)"
proof -
  obtain h' where h': "join_gap (h(new \<mapsto> \<lparr>node_prev = None, node_next = first_ptr xs None, node_value = v\<rparr>))
      None (first_ptr xs None) (Some new) (Some new) = Some h'"
    "chain h' None ((new, v) # xs) None" "distinct (map fst ((new, v) # xs))"
    "\<forall>b. b \<notin> insert new (fst ` set xs) \<longrightarrow> h' b = h b"
    using link_spec [of h l "[]" xs new v] assms by auto
  then show ?thesis using assms(1)
    by (cases xs) (auto simp: listAddNodeHead_def list_rep_def join_gap_def)
qed

lemma listAddNodeTail_rep:
  assumes "list_rep h l xs" and "h new = None"
  shows "\<exists>h' l'. listAddNodeTail new h l v = Some (h', l') \<and> list_rep h' l' (xs @ [(new, v)])
    \<and> l_dup l' = l_dup l \<and> (\<forall>b. b \<notin> insert new (fst ` set xs) \<longrightarrow> h' b = h b)"
proof -
  obtain h' where h': "join_gap (h(new \<mapsto> \<lparr>node_prev = last_ptr None xs, node_next = None, node_value = v\<rparr>))
      (last_ptr None xs) None (Some new) (Some new) = Some h'"
    "chain h' None (xs @ [(new, v)]) None" "distinct (map fst (xs @ [(new, v)]))"
    "\<forall>b. b \<notin> insert new (fst ` set xs) \<longrightarrow> h' b = h b"
    using link_spec [of h l xs "[]" new v] assms by auto
  then show ?thesis using assms(1)
    by (cases xs rule: rev_cases) (auto simp: listAddNodeTail_def list_rep_def join_gap_def first_ptr_append last_ptr_append)
qed

text \<open>Insertion and removal, as \<open>join_gap\<close> with an update of the header.\<close>

lemma listInsertNode_eq:
  assumes "h a = Some old"
  shows "listInsertNode new h l a v True =
      map_option (\<lambda>h. (h, l\<lparr>l_tail := (if l_tail l = Some a then Some new else l_tail l), l_len := l_len l + 1\<rparr>))
        (join_gap (h(new \<mapsto> \<lparr>node_prev = Some a, node_next = node_next old, node_value = v\<rparr>))
          (Some a) (node_next old) (Some new) (Some new))"
    and "listInsertNode new h l a v False =
      map_option (\<lambda>h. (h, l\<lparr>l_head := (if l_head l = Some a then Some new else l_head l), l_len := l_len l + 1\<rparr>))
        (join_gap (h(new \<mapsto> \<lparr>node_prev = node_prev old, node_next = Some a, node_value = v\<rparr>))
          (node_prev old) (Some a) (Some new) (Some new))"
  using assms by (auto simp: listInsertNode_def join_gap_def Let_def split: Option.bind_split)

lemma listDelNode_eq:
  assumes "h a = Some nd"
  shows "listDelNode h l a = do {
      h' \<leftarrow> join_gap h (node_prev nd) (node_next nd) (node_next nd) (node_prev nd);
      len \<leftarrow> checked_dec (l_len l);
      Some (h'(a := None),
        l\<lparr>l_head := (if node_prev nd = None then node_next nd else l_head l),
          l_tail := (if node_next nd = None then node_prev nd else l_tail l), l_len := len\<rparr>,
        if l_free l then [node_value nd] else []) }"
  using assms by (auto simp: listDelNode_def join_gap_def Let_def split: Option.bind_split)

lemma listInsertNode_rep:
  assumes "list_rep h l (ys @ (a, w) # zs)" and "h new = None"
  shows "\<exists>h' l'. listInsertNode new h l a v after = Some (h', l')
    \<and> list_rep h' l' (if after then ys @ (a, w) # (new, v) # zs else ys @ (new, v) # (a, w) # zs)
    \<and> (\<forall>b. b \<notin> insert new (fst ` set (ys @ (a, w) # zs)) \<longrightarrow> h' b = h b)"
proof -
  note a = rep_split_facts [OF assms(1)]
  show ?thesis
  proof (cases after)
    case True
    obtain h' where h': "join_gap (h(new \<mapsto> \<lparr>node_prev = Some a, node_next = first_ptr zs None, node_value = v\<rparr>))
        (Some a) (first_ptr zs None) (Some new) (Some new) = Some h'"
      "chain h' None (ys @ (a, w) # (new, v) # zs) None" "distinct (map fst (ys @ (a, w) # (new, v) # zs))"
      "\<forall>b. b \<notin> insert new (fst ` set (ys @ (a, w) # zs)) \<longrightarrow> h' b = h b"
      using link_spec [of h l "ys @ [(a, w)]" zs new v] assms by auto
    then show ?thesis using True a(2) assms(1) listInsertNode_eq(1) [of h a, OF a(1)]
      by (cases "zs = []") (auto simp: list_rep_def last_ptr_append first_ptr_append last_ptr_def [of _ zs])
  next
    case False
    obtain h' where h': "join_gap (h(new \<mapsto> \<lparr>node_prev = last_ptr None ys, node_next = Some a, node_value = v\<rparr>))
        (last_ptr None ys) (Some a) (Some new) (Some new) = Some h'"
      "chain h' None (ys @ (new, v) # (a, w) # zs) None" "distinct (map fst (ys @ (new, v) # (a, w) # zs))"
      "\<forall>b. b \<notin> insert new (fst ` set (ys @ (a, w) # zs)) \<longrightarrow> h' b = h b"
      using link_spec [of h l ys "(a, w) # zs" new v] assms by auto
    then show ?thesis using False a(3) assms(1) listInsertNode_eq(2) [of h a, OF a(1)]
      by (cases ys) (auto simp: list_rep_def last_ptr_append first_ptr_append)
  qed
qed

lemma listDelNode_rep:
  assumes "list_rep h l (ys @ (a, v) # zs)"
  shows "\<exists>h' l'. listDelNode h l a = Some (h', l', if l_free l then [v] else []) \<and> list_rep h' l' (ys @ zs)
    \<and> h' a = None \<and> (\<forall>b. b \<notin> fst ` set (ys @ (a, v) # zs) \<longrightarrow> h' b = h b)"
proof -
  note a = rep_split_facts [OF assms]
  obtain h' where h': "join_gap h (last_ptr None ys) (first_ptr zs None) (first_ptr zs None) (last_ptr None ys) = Some h'"
    "chain (h'(a := None)) None (ys @ zs) None"
    "\<forall>b. b \<notin> fst ` set (ys @ (a, v) # zs) \<longrightarrow> h' b = h b" using unlink_spec [OF assms] by blast
  have d: "distinct (map fst (ys @ zs))" "l_len l = Suc (length (ys @ zs))"
    "l_head l = first_ptr ys (Some a)" "l_tail l = last_ptr (Some a) zs"
    using assms by (auto simp: list_rep_def first_ptr_append last_ptr_append)
  have ptrs: "(if last_ptr None ys = None then first_ptr zs None else l_head l) = first_ptr (ys @ zs) None"
    "(if first_ptr zs None = None then last_ptr None ys else l_tail l) = last_ptr None (ys @ zs)"
    using d(3,4) by (cases ys; cases zs; simp add: last_ptr_def)+
  have "listDelNode h l a = Some (h'(a := None), l\<lparr>l_head := first_ptr (ys @ zs) None,
      l_tail := last_ptr None (ys @ zs), l_len := length (ys @ zs)\<rparr>, if l_free l then [v] else [])"
    unfolding listDelNode_eq [of h a, OF a(1)] listNode.select_convs ptrs h'(1) d(2) by simp
  then show ?thesis using h' d(1) by (auto simp: list_rep_def)
qed

lemma listRotate_rep:
  assumes "list_rep h l (ys @ [(a, v)])" and "ys \<noteq> []"
  shows "\<exists>h' l'. listRotate h l = Some (h', l') \<and> list_rep h' l' ((a, v) # ys)
    \<and> (\<forall>b. b \<notin> fst ` set (ys @ [(a, v)]) \<longrightarrow> h' b = h b)"
proof -
  obtain c x zs where ys: "ys = (c, x) # zs" using assms(2) by (cases ys) auto
  note ha = rep_split_facts [of h l ys a v "[]", simplified, OF assms(1)]
  have d: "distinct (map fst ys)" "a \<notin> fst ` set ys" "l_head l = Some c" "l_tail l = Some a" "\<not> l_len l \<le> 1"
    using assms(1) ys by (auto simp: list_rep_def last_ptr_append)
  have "chain h None ys (Some a)" using assms(1) by (simp add: list_rep_def chain_append)
  from join_gap_spec [of h ys "Some a" None "[]" None None, OF this] d(1) obtain h1 where
    h1: "update_node h (last_ptr None ys) (node_next_update (\<lambda>_. None)) = Some h1" "chain h1 None ys None"
      "\<forall>b. b \<notin> fst ` set ys \<longrightarrow> h1 b = h b"
    using assms(2) by (auto simp: join_gap_def last_ptr_def)
  from join_gap_spec [of h1 "[]" "Some c" None ys None "Some a", OF _ h1(2)] d(1) obtain h2 where
    h2: "update_node h1 (Some c) (node_prev_update (\<lambda>_. Some a)) = Some h2" "chain h2 (Some a) ys None"
      "\<forall>b. b \<notin> fst ` set ys \<longrightarrow> h2 b = h1 b"
    using ys by (auto simp: join_gap_def)
  have "h2 a = Some \<lparr>node_prev = last_ptr None ys, node_next = None, node_value = v\<rparr>"
    using h1(3) h2(3) d(2) ha(1) by simp
  moreover define h3 where "h3 = h2(a \<mapsto> \<lparr>node_prev = None, node_next = Some c, node_value = v\<rparr>)"
  ultimately have "listRotate h l = Some (h3, l\<lparr>l_tail := last_ptr None ys, l_head := Some a\<rparr>)"
    using d(3-5) ha(1) h1(1) h2(1) by (simp add: listRotate_def node_at_def update_node_def [of h2]
        update_node_def [of "_(_ \<mapsto> _)"])
  moreover have "chain h3 None ((a, v) # ys) None"
    using h2(2) d(2) ys by (simp add: h3_def chain_frame)
  moreover have "\<forall>b. b \<notin> fst ` set (ys @ [(a, v)]) \<longrightarrow> h3 b = h b" using h1(3) h2(3) by (simp add: h3_def)
  moreover have "last_ptr (Some a) ys = last_ptr None ys" using assms(2) by (simp add: last_ptr_def)
  ultimately show ?thesis using assms(1) d(1,2) by (auto simp: list_rep_def)
qed

text \<open>Following next pointers from the head, or previous pointers from the tail.\<close>

lemma walk_next:
  "chain h p xs None \<Longrightarrow> walk h node_next i (first_ptr xs None)
    = Some (if i < length xs then Some (fst (xs ! i)) else None)"
proof (induction i arbitrary: p xs)
  case 0
  then show ?case by (cases xs) auto
next
  case (Suc i)
  then show ?case
  proof (cases xs)
    case (Cons x ys)
    then show ?thesis using Suc.IH [of "Some (fst x)" ys] Suc.prems by (cases x) auto
  qed simp
qed

lemma walk_prev:
  "chain h None xs n \<Longrightarrow> walk h node_prev i (last_ptr None xs)
    = Some (if i < length xs then Some (fst (xs ! (length xs - 1 - i))) else None)"
proof (induction i arbitrary: xs n)
  case 0
  then show ?case by (cases xs rule: rev_cases) auto
next
  case (Suc i)
  show ?case
  proof (cases xs rule: rev_cases)
    case (snoc ys x)
    obtain a v where x: "x = (a, v)" by (cases x)
    have "h a = Some \<lparr>node_prev = last_ptr None ys, node_next = n, node_value = v\<rparr>" "chain h None ys (Some a)"
      using Suc.prems snoc x by (simp_all add: chain_append)
    then show ?thesis using Suc.IH [of ys "Some a"] snoc x by (auto simp: nth_append)
  qed simp
qed

lemma search_loop_spec:
  "chain h p xs None \<Longrightarrow> search_loop h l \<lparr>iter_next = first_ptr xs None, iter_from_head = True\<rparr> key
    = Some (map_option fst (find (\<lambda>(a, v). case l_match l of Some mt \<Rightarrow> mt v key | None \<Rightarrow> key = v) xs))"
proof (induction xs arbitrary: p)
  case Nil
  then show ?case by (subst search_loop.simps) (simp add: listNext_def)
next
  case (Cons x xs)
  obtain a v where x: "x = (a, v)" by (cases x)
  with Cons show ?case by (subst search_loop.simps) (cases "l_match l"; auto simp: listNext_def)
qed

section \<open>Properties\<close>

text \<open>
  Inserting into a list never follows a null or dangling pointer. With a fresh node,
  \<open>listAddNodeHead\<close>, \<open>listAddNodeTail\<close> and \<open>listInsertNode\<close> (after or before a node of the
  list) give a well-linked list in both directions, with the head, the tail and the length
  right, the value in its place and every other node unmoved; nothing outside changes.
\<close>

theorem adlist_insert_correct:
  assumes "list_rep h l (ys @ (a, w) # zs)" and "h new = None"
  shows "(\<exists>h' l'. listAddNodeHead new h l v = Some (h', l') \<and> list_rep h' l' ((new, v) # ys @ (a, w) # zs)
        \<and> (\<forall>b. b \<notin> insert new (fst ` set (ys @ (a, w) # zs)) \<longrightarrow> h' b = h b))
    \<and> (\<exists>h' l'. listAddNodeTail new h l v = Some (h', l') \<and> list_rep h' l' ((ys @ (a, w) # zs) @ [(new, v)])
        \<and> (\<forall>b. b \<notin> insert new (fst ` set (ys @ (a, w) # zs)) \<longrightarrow> h' b = h b))
    \<and> (\<exists>h' l'. listInsertNode new h l a v after = Some (h', l')
        \<and> list_rep h' l' (if after then ys @ (a, w) # (new, v) # zs else ys @ (new, v) # (a, w) # zs)
        \<and> (\<forall>b. b \<notin> insert new (fst ` set (ys @ (a, w) # zs)) \<longrightarrow> h' b = h b))"
  using listAddNodeHead_rep [OF assms, of v] listAddNodeTail_rep [OF assms, of v]
    listInsertNode_rep [OF assms, of v after] by blast

text \<open>
  C21: deleting a node of a list unlinks it from both neighbours, frees it, hands its value
  to the free method when there is one, and leaves a well-linked list of the other nodes;
  rotating moves the last node to the front. Neither follows a dangling pointer or changes
  a node outside the list.
\<close>

theorem adlist_remove_correct:
  assumes "list_rep h l (ys @ (a, v) # zs)"
  shows "(\<exists>h' l'. listDelNode h l a = Some (h', l', if l_free l then [v] else []) \<and> list_rep h' l' (ys @ zs)
        \<and> h' a = None \<and> (\<forall>b. b \<notin> fst ` set (ys @ (a, v) # zs) \<longrightarrow> h' b = h b))
    \<and> (zs = [] \<and> ys \<noteq> [] \<longrightarrow> (\<exists>h' l'. listRotate h l = Some (h', l') \<and> list_rep h' l' ((a, v) # ys)
        \<and> (\<forall>b. b \<notin> fst ` set (ys @ [(a, v)]) \<longrightarrow> h' b = h b)))"
  using listDelNode_rep [OF assms] listRotate_rep [of h l ys a v] assms by auto

text \<open>
  The reading operations of a well-linked list end and agree with the list:
  \<open>listIndex\<close> counts from the head, or from the tail for negative indexes, and is null out of
  range; \<open>listSearchKey\<close> returns the first node whose value matches.
\<close>

theorem adlist_reads_correct:
  assumes "list_rep h l xs"
  shows "listIndex h l i = Some (if 0 \<le> i then if nat i < length xs then Some (fst (xs ! nat i)) else None
      else if nat (- i - 1) < length xs then Some (fst (xs ! (length xs - 1 - nat (- i - 1)))) else None)
    \<and> listSearchKey h l key = Some (map_option fst
        (find (\<lambda>(a, v). case l_match l of Some mt \<Rightarrow> mt v key | None \<Rightarrow> key = v) xs))"
proof -
  have c: "chain h None xs None" "l_head l = first_ptr xs None" "l_tail l = last_ptr None xs"
    using assms by (simp_all add: list_rep_def)
  show ?thesis
    using walk_next [OF c(1), of "nat i"] walk_prev [OF c(1), of "nat (- i - 1)"] search_loop_spec [OF c(1), of l key] c(2,3)
    by (auto simp: listIndex_def listSearchKey_def listGetIterator_def)
qed

definition ex_heap :: "nat heap" where
  "ex_heap = [5 \<mapsto> \<lparr>node_prev = None, node_next = Some 9, node_value = 50\<rparr>,
              9 \<mapsto> \<lparr>node_prev = Some 5, node_next = None, node_value = 90\<rparr>]"

definition ex_hdr :: "nat list_hdr" where
  "ex_hdr = listCreate\<lparr>l_head := Some 5, l_tail := Some 9, l_len := 2, l_free := True\<rparr>"

lemma ex_list_rep: "list_rep ex_heap ex_hdr ([(5, 50)] @ (9, 90) # [])" "ex_heap 7 = None"
  by (simp_all add: list_rep_def ex_heap_def ex_hdr_def listCreate_def last_ptr_def)

theorem adlist_insert_correct_witness:
  "(\<exists>h' l'. listInsertNode 7 ex_heap ex_hdr 9 70 False = Some (h', l') \<and> list_rep h' l' [(5, 50), (7, 70), (9, 90)])"
  using adlist_insert_correct [OF ex_list_rep, of 70 False] by auto

theorem adlist_remove_correct_witness:
  "(\<exists>h' l'. listDelNode ex_heap ex_hdr 9 = Some (h', l', [90]) \<and> list_rep h' l' [(5, 50)] \<and> h' 9 = None)
   \<and> (\<exists>h' l'. listRotate ex_heap ex_hdr = Some (h', l') \<and> list_rep h' l' [(9, 90), (5, 50)])"
  using adlist_remove_correct [OF ex_list_rep(1)] by (auto simp: ex_hdr_def)

theorem adlist_reads_correct_witness:
  "listIndex ex_heap ex_hdr (-1) = Some (Some 9) \<and> listSearchKey ex_heap ex_hdr 90 = Some (Some 9)"
  using adlist_reads_correct [OF ex_list_rep(1), of "-1" 90] by (simp add: ex_hdr_def listCreate_def)

end
