(* ===== verification/Ziplist.thy ===== *)
theory Ziplist
  imports Util
begin

text \<open>
  The ziplist of \<^verbatim>\<open>ziplist.c\<close>: a sequence of strings and integers packed into one block of
  memory. Every entry starts with the raw length of the one before it (one byte, or 254 and
  four bytes), so the list can be walked in both directions; a change of an entry's length
  may therefore cascade through its successors. The model works on the bytes; a pointer into
  the block is an offset. Sums of disjoint bit fields are written with \<open>+\<close> and shifts with
  \<open>div\<close> and \<open>*\<close>. A \<open>None\<close> is an access outside the block or a failed assertion; the loops
  whose number of rounds depends on the content of the block are \<open>partial_function\<close>s, for
  which a diverging run is \<open>None\<close>, too.
\<close>

section \<open>Layout\<close>

abbreviation ZIP_END :: nat where "ZIP_END \<equiv> 255"
abbreviation ZIP_BIGLEN :: nat where "ZIP_BIGLEN \<equiv> 254"
abbreviation ZIP_STR_MASK :: nat where "ZIP_STR_MASK \<equiv> 192"
abbreviation ZIP_STR_06B :: nat where "ZIP_STR_06B \<equiv> 0"
abbreviation ZIP_STR_14B :: nat where "ZIP_STR_14B \<equiv> 64"
abbreviation ZIP_STR_32B :: nat where "ZIP_STR_32B \<equiv> 128"
abbreviation ZIP_INT_16B :: nat where "ZIP_INT_16B \<equiv> 192"
abbreviation ZIP_INT_32B :: nat where "ZIP_INT_32B \<equiv> 208"
abbreviation ZIP_INT_64B :: nat where "ZIP_INT_64B \<equiv> 224"
abbreviation ZIP_INT_24B :: nat where "ZIP_INT_24B \<equiv> 240"
abbreviation ZIP_INT_8B :: nat where "ZIP_INT_8B \<equiv> 254"
abbreviation ZIP_INT_IMM_MIN :: nat where "ZIP_INT_IMM_MIN \<equiv> 241"
abbreviation ZIP_INT_IMM_MAX :: nat where "ZIP_INT_IMM_MAX \<equiv> 253"
abbreviation ZIPLIST_HEADER_SIZE :: nat where "ZIPLIST_HEADER_SIZE \<equiv> 10"

text \<open>A byte of the block, as the unsigned number that the code reads.\<close>

definition byte_at :: "mem \<Rightarrow> nat \<Rightarrow> nat option" where
  "byte_at m i = map_option unat (get_at m i)"

definition load :: "mem \<Rightarrow> nat \<Rightarrow> nat \<Rightarrow> nat option" where
  "load m off n = map_option (\<lambda>bs. nat (le_uint bs)) (read_bytes m off n)"

definition store :: "mem \<Rightarrow> nat \<Rightarrow> nat \<Rightarrow> int \<Rightarrow> mem option" where
  "store m off n v = write_bytes m off (le_bytes n v)"

definition ZIPLIST_BYTES :: "mem \<Rightarrow> nat option" where "ZIPLIST_BYTES zl = load zl 0 4"

definition ZIPLIST_TAIL_OFFSET :: "mem \<Rightarrow> nat option" where "ZIPLIST_TAIL_OFFSET zl = load zl 4 4"

definition ZIPLIST_LENGTH :: "mem \<Rightarrow> nat option" where "ZIPLIST_LENGTH zl = load zl 8 2"

definition set_tail_offset :: "mem \<Rightarrow> int \<Rightarrow> mem option" where
  "set_tail_offset zl v = store zl 4 4 v"

definition ZIPLIST_INCR_LENGTH :: "mem \<Rightarrow> int \<Rightarrow> mem option" where
  "ZIPLIST_INCR_LENGTH zl incr = do {
     n \<leftarrow> ZIPLIST_LENGTH zl;
     if n < 65535 then store zl 8 2 (int n + incr) else Some zl }"

definition ZIP_IS_STR :: "nat \<Rightarrow> bool" where
  "ZIP_IS_STR enc \<longleftrightarrow> (enc div 64) * 64 < ZIP_STR_MASK"

record zlentry =
  prevrawlensize :: nat
  prevrawlen :: nat
  lensize :: nat
  e_len :: nat
  headersize :: nat
  e_encoding :: nat
  e_p :: nat

section \<open>Headers of entries\<close>

definition zipIntSize :: "nat \<Rightarrow> nat" where
  "zipIntSize enc = (if enc = ZIP_INT_8B then 1 else if enc = ZIP_INT_16B then 2
     else if enc = ZIP_INT_24B then 3 else if enc = ZIP_INT_32B then 4
     else if enc = ZIP_INT_64B then 8 else 0)"

text \<open>The bytes that \<open>zipEncodeLength\<close> builds; with a null pointer only their number is used.\<close>

definition length_bytes :: "nat \<Rightarrow> nat \<Rightarrow> byte list" where
  "length_bytes enc rawlen =
     (if ZIP_IS_STR enc then
        if rawlen \<le> 63 then [of_nat (ZIP_STR_06B + rawlen)]
        else if rawlen \<le> 16383 then
          [of_nat (ZIP_STR_14B + (rawlen div 256) mod 64), of_nat (rawlen mod 256)]
        else [of_nat ZIP_STR_32B, of_nat ((rawlen div 2 ^ 24) mod 256), of_nat ((rawlen div 2 ^ 16) mod 256),
              of_nat ((rawlen div 2 ^ 8) mod 256), of_nat (rawlen mod 256)]
      else [of_nat enc])"

definition zipEncodeLength :: "mem \<Rightarrow> nat \<Rightarrow> nat \<Rightarrow> nat \<Rightarrow> (mem \<times> nat) option" where
  "zipEncodeLength m p enc rawlen =
     (let buf = length_bytes enc rawlen in
      map_option (\<lambda>m. (m, length buf)) (write_bytes m p buf))"

definition ZIP_ENTRY_ENCODING :: "mem \<Rightarrow> nat \<Rightarrow> nat option" where
  "ZIP_ENTRY_ENCODING m p = do {
     e \<leftarrow> byte_at m p;
     Some (if e < ZIP_STR_MASK then (e div 64) * 64 else e) }"

definition ZIP_DECODE_LENGTH :: "mem \<Rightarrow> nat \<Rightarrow> (nat \<times> nat \<times> nat) option" where
  "ZIP_DECODE_LENGTH m p = do {
     enc \<leftarrow> ZIP_ENTRY_ENCODING m p;
     if enc < ZIP_STR_MASK then
       if enc = ZIP_STR_06B then do { b0 \<leftarrow> byte_at m p; Some (enc, 1, b0 mod 64) }
       else if enc = ZIP_STR_14B then do {
         b0 \<leftarrow> byte_at m p; b1 \<leftarrow> byte_at m (p + 1); Some (enc, 2, (b0 mod 64) * 256 + b1) }
       else if enc = ZIP_STR_32B then do {
         b1 \<leftarrow> byte_at m (p + 1); b2 \<leftarrow> byte_at m (p + 2);
         b3 \<leftarrow> byte_at m (p + 3); b4 \<leftarrow> byte_at m (p + 4);
         Some (enc, 5, b1 * 2 ^ 24 + b2 * 2 ^ 16 + b3 * 2 ^ 8 + b4) }
       else None
     else Some (enc, 1, zipIntSize enc) }"

definition prev_bytes :: "nat \<Rightarrow> byte list" where
  "prev_bytes len = (if len < ZIP_BIGLEN then [of_nat len] else of_nat ZIP_BIGLEN # le_bytes 4 (int len))"

definition zipPrevEncodeLength_size :: "nat \<Rightarrow> nat" where
  "zipPrevEncodeLength_size len = (if len < ZIP_BIGLEN then 1 else 5)"

definition zipPrevEncodeLength :: "mem \<Rightarrow> nat \<Rightarrow> nat \<Rightarrow> (mem \<times> nat) option" where
  "zipPrevEncodeLength m p len = map_option (\<lambda>m. (m, length (prev_bytes len))) (write_bytes m p (prev_bytes len))"

definition zipPrevEncodeLengthForceLarge :: "mem \<Rightarrow> nat \<Rightarrow> nat \<Rightarrow> mem option" where
  "zipPrevEncodeLengthForceLarge m p len = write_bytes m p (of_nat ZIP_BIGLEN # le_bytes 4 (int len))"

definition ZIP_DECODE_PREVLENSIZE :: "mem \<Rightarrow> nat \<Rightarrow> nat option" where
  "ZIP_DECODE_PREVLENSIZE m p = do { b \<leftarrow> byte_at m p; Some (if b < ZIP_BIGLEN then 1 else 5) }"

definition ZIP_DECODE_PREVLEN :: "mem \<Rightarrow> nat \<Rightarrow> (nat \<times> nat) option" where
  "ZIP_DECODE_PREVLEN m p = do {
     size \<leftarrow> ZIP_DECODE_PREVLENSIZE m p;
     len \<leftarrow> (if size = 1 then byte_at m p else load m (p + 1) 4);
     Some (size, len) }"

definition zipPrevLenByteDiff :: "mem \<Rightarrow> nat \<Rightarrow> nat \<Rightarrow> int option" where
  "zipPrevLenByteDiff m p len = do {
     size \<leftarrow> ZIP_DECODE_PREVLENSIZE m p;
     Some (int (zipPrevEncodeLength_size len) - int size) }"

definition zipRawEntryLength :: "mem \<Rightarrow> nat \<Rightarrow> nat option" where
  "zipRawEntryLength m p = do {
     size \<leftarrow> ZIP_DECODE_PREVLENSIZE m p;
     (enc, lsize, len) \<leftarrow> ZIP_DECODE_LENGTH m (p + size);
     Some (size + lsize + len) }"

section \<open>Integers\<close>

text \<open>The encoding of a value; the value and encoding of a text that is an integer.\<close>

definition int_encoding :: "int \<Rightarrow> nat" where
  "int_encoding v =
     (if 0 \<le> v \<and> v \<le> 12 then ZIP_INT_IMM_MIN + nat v
      else if - (2 ^ 7) \<le> v \<and> v \<le> 2 ^ 7 - 1 then ZIP_INT_8B
      else if - (2 ^ 15) \<le> v \<and> v \<le> 2 ^ 15 - 1 then ZIP_INT_16B
      else if - (2 ^ 23) \<le> v \<and> v \<le> 2 ^ 23 - 1 then ZIP_INT_24B
      else if - (2 ^ 31) \<le> v \<and> v \<le> 2 ^ 31 - 1 then ZIP_INT_32B
      else ZIP_INT_64B)"

definition zipTryEncoding :: "byte list \<Rightarrow> (int \<times> nat) option" where
  "zipTryEncoding s =
     (if length s \<ge> 32 \<or> length s = 0 then None
      else case string2ll s of None \<Rightarrow> None | Some v \<Rightarrow> Some (v, int_encoding v))"

text \<open>
  In the 24-bit case the value, shifted left by eight bits, is converted to 32 bits and its
  upper three bytes are copied.
\<close>

definition zipSaveInteger :: "mem \<Rightarrow> nat \<Rightarrow> int \<Rightarrow> nat \<Rightarrow> mem option" where
  "zipSaveInteger m p v enc =
     (if enc = ZIP_INT_8B then write_bytes m p (le_bytes 1 v)
      else if enc = ZIP_INT_16B then write_bytes m p (le_bytes 2 v)
      else if enc = ZIP_INT_24B then write_bytes m p (drop 1 (le_bytes 4 (v * 2 ^ 8)))
      else if enc = ZIP_INT_32B then write_bytes m p (le_bytes 4 v)
      else if enc = ZIP_INT_64B then write_bytes m p (le_bytes 8 v)
      else if enc \<ge> ZIP_INT_IMM_MIN \<and> enc \<le> ZIP_INT_IMM_MAX then Some m
      else None)"

definition zipLoadInteger :: "mem \<Rightarrow> nat \<Rightarrow> nat \<Rightarrow> int option" where
  "zipLoadInteger m p enc =
     (if enc = ZIP_INT_8B then map_option le_int (read_bytes m p 1)
      else if enc = ZIP_INT_16B then map_option le_int (read_bytes m p 2)
      else if enc = ZIP_INT_32B then map_option le_int (read_bytes m p 4)
      else if enc = ZIP_INT_24B then map_option (\<lambda>bs. le_int (0 # bs) div 2 ^ 8) (read_bytes m p 3)
      else if enc = ZIP_INT_64B then map_option le_int (read_bytes m p 8)
      else if enc \<ge> ZIP_INT_IMM_MIN \<and> enc \<le> ZIP_INT_IMM_MAX then Some (int (enc mod 16) - 1)
      else None)"

definition zipEntry :: "mem \<Rightarrow> nat \<Rightarrow> zlentry option" where
  "zipEntry m p = do {
     (psize, plen) \<leftarrow> ZIP_DECODE_PREVLEN m p;
     (enc, lsize, len) \<leftarrow> ZIP_DECODE_LENGTH m (p + psize);
     Some \<lparr>prevrawlensize = psize, prevrawlen = plen, lensize = lsize, e_len = len,
           headersize = psize + lsize, e_encoding = enc, e_p = p\<rparr> }"

section \<open>The list\<close>

definition ziplistNew :: "(nat \<Rightarrow> byte) \<Rightarrow> mem option" where
  "ziplistNew junk = do {
     let bytes = ZIPLIST_HEADER_SIZE + 1;
     zl \<leftarrow> store (map junk [0..<bytes]) 0 4 (int bytes);
     zl \<leftarrow> set_tail_offset zl (int ZIPLIST_HEADER_SIZE);
     zl \<leftarrow> store zl 8 2 0;
     set_at zl (bytes - 1) (of_nat ZIP_END) }"

definition ziplistResize :: "(nat \<Rightarrow> byte) \<Rightarrow> mem \<Rightarrow> int \<Rightarrow> mem option" where
  "ziplistResize junk zl len = do {
     let n = u32_of len;
     zl \<leftarrow> store (zrealloc junk zl n) 0 4 (int n);
     set_at zl (n - 1) (of_nat ZIP_END) }"

partial_function (option) cascade_loop :: "(nat \<Rightarrow> byte) \<Rightarrow> mem \<Rightarrow> nat \<Rightarrow> nat \<Rightarrow> mem option" where
  "cascade_loop junk zl p curlen =
     Option.bind (byte_at zl p) (\<lambda>b0. if b0 = ZIP_END then Some zl else
     Option.bind (zipEntry zl p) (\<lambda>cur.
       let rawlen = headersize cur + e_len cur; rawlensize = zipPrevEncodeLength_size rawlen in
     Option.bind (byte_at zl (p + rawlen)) (\<lambda>b1. if b1 = ZIP_END then Some zl else
     Option.bind (zipEntry zl (p + rawlen)) (\<lambda>nxt.
       if prevrawlen nxt = rawlen then Some zl
       else if prevrawlensize nxt < rawlensize then
         let extra = rawlensize - prevrawlensize nxt in
         Option.bind (ziplistResize junk zl (int (curlen + extra))) (\<lambda>zl.
         Option.bind (ZIPLIST_TAIL_OFFSET zl) (\<lambda>tail.
         let np = p + rawlen in
         Option.bind (if tail \<noteq> np then set_tail_offset zl (int tail + int extra) else Some zl) (\<lambda>zl.
         Option.bind (memmove zl (np + rawlensize) (np + prevrawlensize nxt) (curlen - np - prevrawlensize nxt - 1)) (\<lambda>zl.
         Option.bind (zipPrevEncodeLength zl np rawlen) (\<lambda>(zl, _).
         cascade_loop junk zl (p + rawlen) (curlen + extra))))))
       else if prevrawlensize nxt > rawlensize then zipPrevEncodeLengthForceLarge zl (p + rawlen) rawlen
       else map_option fst (zipPrevEncodeLength zl (p + rawlen) rawlen)))))"

declare cascade_loop.simps [code]

definition ziplistCascadeUpdate :: "(nat \<Rightarrow> byte) \<Rightarrow> mem \<Rightarrow> nat \<Rightarrow> mem option" where
  "ziplistCascadeUpdate junk zl p = do { curlen \<leftarrow> ZIPLIST_BYTES zl; cascade_loop junk zl p curlen }"

fun delete_skip :: "nat \<Rightarrow> mem \<Rightarrow> nat \<Rightarrow> nat \<Rightarrow> (nat \<times> nat) option" where
  "delete_skip 0 zl p deleted = do { b \<leftarrow> byte_at zl p; Some (p, deleted) }"
| "delete_skip (Suc i) zl p deleted = do {
     b \<leftarrow> byte_at zl p;
     if b = ZIP_END then Some (p, deleted)
     else do { n \<leftarrow> zipRawEntryLength zl p; delete_skip i zl (p + n) (deleted + 1) } }"

definition ziplistDelete_at :: "(nat \<Rightarrow> byte) \<Rightarrow> mem \<Rightarrow> nat \<Rightarrow> nat \<Rightarrow> mem option" where
  "ziplistDelete_at junk zl p0 num = do {
     first \<leftarrow> zipEntry zl p0;
     (p, deleted) \<leftarrow> delete_skip num zl p0 0;
     let totlen = p - p0;
     if totlen = 0 then Some zl
     else do {
       b \<leftarrow> byte_at zl p;
       (zl, nextdiff) \<leftarrow>
         (if b \<noteq> ZIP_END then do {
            nextdiff \<leftarrow> zipPrevLenByteDiff zl p (prevrawlen first);
            let p = nat (int p - nextdiff);
            (zl, _) \<leftarrow> zipPrevEncodeLength zl p (prevrawlen first);
            toff \<leftarrow> ZIPLIST_TAIL_OFFSET zl;
            zl \<leftarrow> set_tail_offset zl (int toff - int totlen);
            tail \<leftarrow> zipEntry zl p;
            e \<leftarrow> byte_at zl (p + headersize tail + e_len tail);
            zl \<leftarrow> (if e \<noteq> ZIP_END then do {
                     toff \<leftarrow> ZIPLIST_TAIL_OFFSET zl; set_tail_offset zl (int toff + nextdiff) }
                   else Some zl);
            bytes \<leftarrow> ZIPLIST_BYTES zl;
            zl \<leftarrow> memmove zl p0 p (bytes - p - 1);
            Some (zl, nextdiff) }
          else do {
            zl \<leftarrow> set_tail_offset zl (int p0 - int (prevrawlen first));
            Some (zl, 0) });
       bytes \<leftarrow> ZIPLIST_BYTES zl;
       zl \<leftarrow> ziplistResize junk zl (int bytes - int totlen + nextdiff);
       zl \<leftarrow> ZIPLIST_INCR_LENGTH zl (- int deleted);
       if nextdiff \<noteq> 0 then ziplistCascadeUpdate junk zl p0 else Some zl } }"

definition ziplistInsert_at :: "(nat \<Rightarrow> byte) \<Rightarrow> mem \<Rightarrow> nat \<Rightarrow> byte list \<Rightarrow> mem option" where
  "ziplistInsert_at junk zl p s = do {
     curlen \<leftarrow> ZIPLIST_BYTES zl;
     b \<leftarrow> byte_at zl p;
     prevlen \<leftarrow>
       (if b \<noteq> ZIP_END then map_option snd (ZIP_DECODE_PREVLEN zl p)
        else do {
          ptail \<leftarrow> ZIPLIST_TAIL_OFFSET zl;
          t \<leftarrow> byte_at zl ptail;
          if t \<noteq> ZIP_END then zipRawEntryLength zl ptail else Some 0 });
     let (val, enc, reqlen) =
       (case zipTryEncoding s of
          Some (v, enc) \<Rightarrow> (v, enc, zipIntSize enc)
        | None \<Rightarrow> (123456789, 0, length s));
     let reqlen = reqlen + zipPrevEncodeLength_size prevlen + length (length_bytes enc (length s));
     nextdiff \<leftarrow> (if b \<noteq> ZIP_END then zipPrevLenByteDiff zl p reqlen else Some 0);
     zl \<leftarrow> ziplistResize junk zl (int curlen + int reqlen + nextdiff);
     b \<leftarrow> byte_at zl p;
     zl \<leftarrow>
       (if b \<noteq> ZIP_END then do {
          zl \<leftarrow> memmove zl (p + reqlen) (nat (int p - nextdiff)) (nat (int curlen - int p - 1 + nextdiff));
          (zl, _) \<leftarrow> zipPrevEncodeLength zl (p + reqlen) reqlen;
          toff \<leftarrow> ZIPLIST_TAIL_OFFSET zl;
          zl \<leftarrow> set_tail_offset zl (int toff + int reqlen);
          tail \<leftarrow> zipEntry zl (p + reqlen);
          e \<leftarrow> byte_at zl (p + reqlen + headersize tail + e_len tail);
          if e \<noteq> ZIP_END then do {
            toff \<leftarrow> ZIPLIST_TAIL_OFFSET zl; set_tail_offset zl (int toff + nextdiff) }
          else Some zl }
        else set_tail_offset zl (int p));
     zl \<leftarrow> (if nextdiff \<noteq> 0 then ziplistCascadeUpdate junk zl (p + reqlen) else Some zl);
     (zl, n) \<leftarrow> zipPrevEncodeLength zl p prevlen;
     (zl, k) \<leftarrow> zipEncodeLength zl (p + n) enc (length s);
     zl \<leftarrow> (if ZIP_IS_STR enc then write_bytes zl (p + n + k) s else zipSaveInteger zl (p + n + k) val enc);
     ZIPLIST_INCR_LENGTH zl 1 }"

definition ziplistPush :: "(nat \<Rightarrow> byte) \<Rightarrow> mem \<Rightarrow> byte list \<Rightarrow> bool \<Rightarrow> mem option" where
  "ziplistPush junk zl s at_head = do {
     p \<leftarrow> (if at_head then Some ZIPLIST_HEADER_SIZE else do { n \<leftarrow> ZIPLIST_BYTES zl; Some (n - 1) });
     ziplistInsert_at junk zl p s }"

section \<open>Walking\<close>

text \<open>The two loops of \<open>ziplistIndex\<close>; the second component is the final \<open>index\<close>.\<close>

fun index_backward :: "nat \<Rightarrow> mem \<Rightarrow> nat \<Rightarrow> nat \<Rightarrow> (nat \<times> int) option" where
  "index_backward 0 zl p prevlen = Some (p, if prevlen > 0 then -1 else 0)"
| "index_backward (Suc i) zl p prevlen =
     (if prevlen > 0 then do {
        (_, prevlen') \<leftarrow> (if prevlen \<le> p then ZIP_DECODE_PREVLEN zl (p - prevlen) else None);
        index_backward i zl (p - prevlen) prevlen' }
      else Some (p, int (Suc i)))"

fun index_forward :: "nat \<Rightarrow> mem \<Rightarrow> nat \<Rightarrow> (nat \<times> int) option" where
  "index_forward 0 zl p = do { b \<leftarrow> byte_at zl p; Some (p, if b \<noteq> ZIP_END then -1 else 0) }"
| "index_forward (Suc i) zl p = do {
     b \<leftarrow> byte_at zl p;
     if b \<noteq> ZIP_END then do { n \<leftarrow> zipRawEntryLength zl p; index_forward i zl (p + n) }
     else Some (p, int (Suc i)) }"

text \<open>A null pointer is \<open>Some None\<close>.\<close>

definition ziplistIndex :: "mem \<Rightarrow> int \<Rightarrow> nat option option" where
  "ziplistIndex zl index = do {
     (p, index) \<leftarrow>
       (if index < 0 then do {
          p \<leftarrow> ZIPLIST_TAIL_OFFSET zl;
          b \<leftarrow> byte_at zl p;
          if b \<noteq> ZIP_END then do {
            (_, prevlen) \<leftarrow> ZIP_DECODE_PREVLEN zl p;
            index_backward (nat (- index - 1)) zl p prevlen }
          else Some (p, - index - 1) }
        else index_forward (nat index) zl ZIPLIST_HEADER_SIZE);
     b \<leftarrow> byte_at zl p;
     Some (if b = ZIP_END \<or> index > 0 then None else Some p) }"

definition ziplistNext :: "mem \<Rightarrow> nat \<Rightarrow> nat option option" where
  "ziplistNext zl p = do {
     b \<leftarrow> byte_at zl p;
     if b = ZIP_END then Some None
     else do {
       n \<leftarrow> zipRawEntryLength zl p;
       b \<leftarrow> byte_at zl (p + n);
       Some (if b = ZIP_END then None else Some (p + n)) } }"

definition ziplistPrev :: "mem \<Rightarrow> nat \<Rightarrow> nat option option" where
  "ziplistPrev zl p = do {
     b \<leftarrow> byte_at zl p;
     if b = ZIP_END then do {
       p \<leftarrow> ZIPLIST_TAIL_OFFSET zl;
       b \<leftarrow> byte_at zl p;
       Some (if b = ZIP_END then None else Some p) }
     else if p = ZIPLIST_HEADER_SIZE then Some None
     else do {
       (_, prevlen) \<leftarrow> ZIP_DECODE_PREVLEN zl p;
       if prevlen > 0 \<and> prevlen \<le> p then Some (Some (p - prevlen)) else None } }"

datatype zval = ZStr "byte list" | ZInt int

definition ziplistGet :: "mem \<Rightarrow> nat option \<Rightarrow> zval option option" where
  "ziplistGet zl ptr =
     (case ptr of
        None \<Rightarrow> Some None
      | Some p \<Rightarrow> do {
          b \<leftarrow> byte_at zl p;
          if b = ZIP_END then Some None
          else do {
            entry \<leftarrow> zipEntry zl p;
            if ZIP_IS_STR (e_encoding entry)
            then map_option (\<lambda>s. Some (ZStr s)) (read_bytes zl (p + headersize entry) (e_len entry))
            else map_option (\<lambda>v. Some (ZInt v)) (zipLoadInteger zl (p + headersize entry) (e_encoding entry)) } })"

definition ziplistInsert :: "(nat \<Rightarrow> byte) \<Rightarrow> mem \<Rightarrow> nat \<Rightarrow> byte list \<Rightarrow> mem option" where
  "ziplistInsert junk zl p s = ziplistInsert_at junk zl p s"

definition ziplistDelete :: "(nat \<Rightarrow> byte) \<Rightarrow> mem \<Rightarrow> nat \<Rightarrow> (mem \<times> nat) option" where
  "ziplistDelete junk zl p = map_option (\<lambda>zl. (zl, p)) (ziplistDelete_at junk zl p 1)"

definition ziplistDeleteRange :: "(nat \<Rightarrow> byte) \<Rightarrow> mem \<Rightarrow> int \<Rightarrow> nat \<Rightarrow> mem option" where
  "ziplistDeleteRange junk zl index num = do {
     p \<leftarrow> ziplistIndex zl index;
     (case p of None \<Rightarrow> Some zl | Some p \<Rightarrow> ziplistDelete_at junk zl p num) }"

definition ziplistCompare :: "mem \<Rightarrow> nat \<Rightarrow> byte list \<Rightarrow> bool option" where
  "ziplistCompare zl p sstr = do {
     b \<leftarrow> byte_at zl p;
     if b = ZIP_END then Some False
     else do {
       entry \<leftarrow> zipEntry zl p;
       if ZIP_IS_STR (e_encoding entry) then
         if e_len entry = length sstr
         then map_option (\<lambda>s. s = sstr) (read_bytes zl (p + headersize entry) (length sstr))
         else Some False
       else (case zipTryEncoding sstr of
               Some (sval, _) \<Rightarrow> map_option (\<lambda>zval. zval = sval) (zipLoadInteger zl (p + headersize entry) (e_encoding entry))
             | None \<Rightarrow> Some False) } }"

text \<open>
  The value searched for is tried as an integer once, at the first integer entry; the code
  caches the outcome in \<open>vencoding\<close>, here it is recomputed.
\<close>

partial_function (option) find_loop :: "mem \<Rightarrow> byte list \<Rightarrow> nat \<Rightarrow> nat \<Rightarrow> nat \<Rightarrow> nat option option" where
  "find_loop zl vstr skip p skipcnt =
     Option.bind (byte_at zl p) (\<lambda>b. if b = ZIP_END then Some None else
     Option.bind (ZIP_DECODE_PREVLENSIZE zl p) (\<lambda>psize.
     Option.bind (ZIP_DECODE_LENGTH zl (p + psize)) (\<lambda>(enc, lsize, len).
       let q = p + psize + lsize in
       if skipcnt = 0 then
         Option.bind
           (if ZIP_IS_STR enc then
              if len = length vstr then map_option (\<lambda>s. s = vstr) (read_bytes zl q len) else Some False
            else (case zipTryEncoding vstr of
                    None \<Rightarrow> Some False
                  | Some (vll, _) \<Rightarrow> map_option (\<lambda>ll. ll = vll) (zipLoadInteger zl q enc)))
           (\<lambda>found. if found then Some (Some p) else find_loop zl vstr skip (q + len) skip)
       else find_loop zl vstr skip (q + len) (skipcnt - 1))))"

declare find_loop.simps [code]

definition ziplistFind :: "mem \<Rightarrow> nat \<Rightarrow> byte list \<Rightarrow> nat \<Rightarrow> nat option option" where
  "ziplistFind zl p vstr skip = find_loop zl vstr skip p 0"

partial_function (option) count_loop :: "mem \<Rightarrow> nat \<Rightarrow> nat \<Rightarrow> nat option" where
  "count_loop zl p len =
     Option.bind (byte_at zl p) (\<lambda>b. if b = ZIP_END then Some len else
     Option.bind (zipRawEntryLength zl p) (\<lambda>n. count_loop zl (p + n) (len + 1)))"

declare count_loop.simps [code]

text \<open>The length, and the block in which it may have been stored again.\<close>

definition ziplistLen :: "mem \<Rightarrow> (nat \<times> mem) option" where
  "ziplistLen zl = do {
     n \<leftarrow> ZIPLIST_LENGTH zl;
     if n < 65535 then Some (n, zl)
     else do {
       len \<leftarrow> count_loop zl ZIPLIST_HEADER_SIZE 0;
       zl \<leftarrow> (if len < 65535 then store zl 8 2 (int len) else Some zl);
       Some (len, zl) } }"

definition ziplistBlobLen :: "mem \<Rightarrow> nat option" where
  "ziplistBlobLen zl = ZIPLIST_BYTES zl"

end
