(* ===== verification/Ziplist_Rep.thy ===== *)
theory Ziplist_Rep
  imports Ziplist
begin

text \<open>
  What the bytes of a ziplist stand for. An entry is the length field of its predecessor,
  in the short or the long form, and the bytes of its value; \<open>zl_rep\<close> relates a block to the
  list of its entries. The lemmas read and write a block through the splitting of its bytes
  around an entry; every one of them is independent of what stands before and after it.
\<close>

section \<open>Access below a prefix\<close>

named_theorems shift_simps \<open>accesses to a block behind a prefix\<close>

lemma read_shift [shift_simps]: "read_bytes (a @ m) (length a + i) n = read_bytes m i n"
  by (simp add: read_bytes_def)

lemma write_shift [shift_simps]: "write_bytes (a @ m) (length a + i) bs = map_option (\<lambda>x. a @ x) (write_bytes m i bs)"
  by (simp add: write_bytes_def)

lemma byte_shift [shift_simps]: "byte_at (a @ m) (length a + i) = byte_at m i"
  by (simp add: byte_at_def get_at_def nth_append)

lemma load_shift [shift_simps]: "load (a @ m) (length a + i) n = load m i n"
  by (simp add: load_def read_shift)

lemma byte_at_0 [simp]: "byte_at (b # m) 0 = Some (unat b)"
  by (simp add: byte_at_def get_at_def)

lemma byte_at_Cons [simp]: "byte_at (b # m) (Suc i) = byte_at m i"
  by (simp add: byte_at_def get_at_def)

lemma byte_at_numeral [simp]:
  "byte_at (b # m) 1 = byte_at m 0" "byte_at (b # m) (numeral k) = byte_at m (pred_numeral k)"
  by (simp_all only: One_nat_def byte_at_Cons numeral_eq_Suc)

lemma byte_at_head: "byte_at (a @ b # m) (length a) = Some (unat b)"
  using byte_shift [of a "b # m" 0] by simp

lemma read_head: "read_bytes (a @ b @ m) (length a) (length b) = Some b"
  by (rule read_bytes_append)

lemma load_head: "0 \<le> v \<Longrightarrow> v < 256 ^ n \<Longrightarrow> load (a @ le_bytes n v @ m) (length a) n = Some (nat v)"
  using read_head [of a "le_bytes n v" m] by (simp add: load_def le_uint_le_bytes)

lemma memmove_shift [shift_simps]:
  "memmove (a @ m) (length a + i) (length a + j) n = map_option (\<lambda>x. a @ x) (memmove m i j n)"
  by (cases "read_bytes m j n") (simp_all add: memmove_def read_shift write_shift)

lemma memmove_up:
  "length x = k \<Longrightarrow> memmove (x @ y @ z) (k + d) k (length y) = Some (take (k + d) (x @ y @ z) @ y @ drop (k + d + length y) (x @ y @ z))"
  if "d \<le> length z"
  using that by (simp add: memmove_def read_bytes_def write_bytes_def)

section \<open>Values\<close>

definition int_bytes :: "int \<Rightarrow> byte list" where
  "int_bytes v =
     (let enc = int_encoding v in
      if enc = ZIP_INT_8B then le_bytes 1 v else if enc = ZIP_INT_16B then le_bytes 2 v
      else if enc = ZIP_INT_24B then drop 1 (le_bytes 4 (v * 2 ^ 8)) else if enc = ZIP_INT_32B then le_bytes 4 v
      else if enc = ZIP_INT_64B then le_bytes 8 v else [])"

fun payload :: "zval \<Rightarrow> byte list" where
  "payload (ZStr s) = length_bytes 0 (length s) @ s"
| "payload (ZInt v) = of_nat (int_encoding v) # int_bytes v"

fun val_ok :: "zval \<Rightarrow> bool" where
  "val_ok (ZStr s) = (length s < 2 ^ 32)"
| "val_ok (ZInt v) = fits 8 v"

text \<open>The encoding, the size of the length field and the length that are read back.\<close>

fun val_enc :: "zval \<Rightarrow> nat" where
  "val_enc (ZStr s) = (if length s \<le> 63 then ZIP_STR_06B else if length s \<le> 16383 then ZIP_STR_14B else ZIP_STR_32B)"
| "val_enc (ZInt v) = int_encoding v"

fun val_lsize :: "zval \<Rightarrow> nat" where
  "val_lsize (ZStr s) = length (length_bytes 0 (length s))"
| "val_lsize (ZInt v) = 1"

fun val_len :: "zval \<Rightarrow> nat" where
  "val_len (ZStr s) = length s"
| "val_len (ZInt v) = length (int_bytes v)"

lemma int_encoding_range: "int_encoding v < 256 \<and> ZIP_STR_MASK \<le> int_encoding v"
  by (auto simp: int_encoding_def)

lemma int_encoding_cases:
  "(0 \<le> v \<and> v \<le> 12 \<and> int_encoding v = ZIP_INT_IMM_MIN + nat v) \<or> (fits 1 v \<and> int_encoding v = ZIP_INT_8B)
   \<or> (fits 2 v \<and> int_encoding v = ZIP_INT_16B) \<or> (fits 3 v \<and> int_encoding v = ZIP_INT_24B)
   \<or> (fits 4 v \<and> int_encoding v = ZIP_INT_32B) \<or> int_encoding v = ZIP_INT_64B"
  by (auto simp: int_encoding_def fits_def)

lemma length_int_bytes: "length (int_bytes v) = zipIntSize (int_encoding v)"
  using int_encoding_cases [of v] by (auto simp: int_bytes_def zipIntSize_def Let_def)

lemma unat_of_nat_byte: "n < 256 \<Longrightarrow> unat (of_nat n :: byte) = n"
  by (simp add: unat_of_nat)

lemma length_bytes_len: "length (length_bytes 0 n) = (if n \<le> 63 then 1 else if n \<le> 16383 then 2 else 5)"
  by (simp add: length_bytes_def ZIP_IS_STR_def)

lemma is_str_val [simp]: "ZIP_IS_STR (val_enc v) \<longleftrightarrow> (\<exists>s. v = ZStr s)"
proof (cases v)
  case (ZInt i)
  have "3 \<le> int_encoding i div 64" using int_encoding_range [of i] by (simp add: less_eq_div_iff_mult_less_eq)
  then show ?thesis using ZInt by (simp add: ZIP_IS_STR_def)
qed (simp add: ZIP_IS_STR_def)

lemma split_u32: "n < 2 ^ 32 \<Longrightarrow>
   n div 2 ^ 24 mod 256 * 2 ^ 24 + n div 2 ^ 16 mod 256 * 2 ^ 16 + n div 2 ^ 8 mod 256 * 2 ^ 8 + n mod 256 = (n :: nat)"
  using mod_mult2_eq [of n "2 ^ 8" 256] mod_mult2_eq [of n "2 ^ 16" 256] mod_mult2_eq [of n "2 ^ 24" 256] by simp

lemma decode_str:
  assumes "length s < 2 ^ 32"
  shows "ZIP_DECODE_LENGTH (length_bytes 0 (length s) @ r) 0
    = Some (val_enc (ZStr s), val_lsize (ZStr s), length s)"
proof -
  define n where "n = length s"
  consider "n \<le> 63" | "63 < n" "n \<le> 16383" | "16383 < n" by linarith
  then show ?thesis
  proof cases
    case 1
    then show ?thesis
      by (simp add: ZIP_DECODE_LENGTH_def ZIP_ENTRY_ENCODING_def length_bytes_def ZIP_IS_STR_def n_def [symmetric]
          unat_of_nat_byte)
  next
    case 2
    define b where "b = 64 + n div 256 mod 64"
    have b: "b < 256" "b div 64 = 1" "b < ZIP_STR_MASK" "b mod 64 * 256 + n mod 256 = n"
      using 2 by (auto simp: b_def)
    then have "unat (of_nat b :: byte) = b" "unat (of_nat (n mod 256) :: byte) = n mod 256"
      by (simp_all add: unat_of_nat_byte)
    moreover have "length_bytes 0 n = [of_nat b, of_nat (n mod 256)]"
      using 2 by (simp add: length_bytes_def ZIP_IS_STR_def b_def)
    ultimately show ?thesis using 2 b
      by (simp add: ZIP_DECODE_LENGTH_def ZIP_ENTRY_ENCODING_def n_def [symmetric] del: of_nat_add of_nat_mult)
  next
    case 3
    have "unat (of_nat (k mod 256) :: byte) = k mod 256" for k by (simp add: unat_of_nat_byte)
    moreover have "unat (of_nat (n div 2 ^ 24) :: byte) = n div 2 ^ 24"
      using assms by (intro unat_of_nat_byte) (simp add: n_def div_less_iff_less_mult)
    moreover have "length_bytes 0 n = [128, of_nat (n div 2 ^ 24 mod 256), of_nat (n div 2 ^ 16 mod 256),
        of_nat (n div 2 ^ 8 mod 256), of_nat (n mod 256)]"
      using 3 by (simp add: length_bytes_def ZIP_IS_STR_def)
    ultimately show ?thesis using 3 split_u32 [of n] assms
      by (simp add: ZIP_DECODE_LENGTH_def ZIP_ENTRY_ENCODING_def n_def [symmetric])
  qed
qed

lemma decode_length:
  assumes "val_ok v"
  shows "ZIP_DECODE_LENGTH (a @ payload v @ b) (length a) = Some (val_enc v, val_lsize v, val_len v)"
proof -
  have sh: "ZIP_DECODE_LENGTH (a @ m) (length a) = ZIP_DECODE_LENGTH m 0" for m
    by (simp only: ZIP_DECODE_LENGTH_def ZIP_ENTRY_ENCODING_def byte_shift
        byte_shift [of a m 0, unfolded add_0_right] add_0)
  show ?thesis
  proof (cases v)
    case (ZStr s)
    then show ?thesis using assms decode_str [of s "s @ b"] by (simp add: sh)
  next
    case (ZInt i)
    have "unat (of_nat (int_encoding i) :: byte) = int_encoding i"
      using int_encoding_range [of i] by (simp add: unat_of_nat_byte)
    then show ?thesis unfolding ZInt sh using int_encoding_range [of i]
      by (simp add: ZIP_DECODE_LENGTH_def ZIP_ENTRY_ENCODING_def length_int_bytes)
  qed
qed

lemma le_int_24: "fits 3 v \<Longrightarrow> le_int (0 # drop 1 (le_bytes 4 (v * 2 ^ 8))) div 2 ^ 8 = v"
proof -
  assume f: "fits 3 v"
  have "le_bytes 4 (v * 2 ^ 8) = 0 # drop 1 (le_bytes 4 (v * 2 ^ 8))"
    using uint_byte_of_int [of "v * 256"] by (simp add: numeral_eq_Suc uint_0_iff)
  moreover have "le_int (le_bytes 4 (v * 2 ^ 8)) = v * 2 ^ 8"
    using f by (intro le_int_le_bytes) (simp add: fits_def)
  ultimately show ?thesis by simp
qed

lemma le_int_8: "fits 1 v \<Longrightarrow> le_int [word_of_int v] = v"
  using le_int_le_bytes [of 1 v] by simp

text \<open>Integers survive the round trip through their encoding.\<close>

lemma load_integer:
  assumes "fits 8 v"
  shows "zipLoadInteger (a @ int_bytes v @ b) (length a) (int_encoding v) = Some v"
  using int_encoding_cases [of v]
proof (elim disjE conjE)
  assume "0 \<le> v" "v \<le> 12" and e: "int_encoding v = ZIP_INT_IMM_MIN + nat v"
  moreover have "(241 + k) mod 16 = 1 + k" if "k \<le> 12" for k :: nat using that by presburger
  then have "(241 + nat v) mod 16 = 1 + nat v" using \<open>v \<le> 12\<close> by simp
  ultimately have "int (int_encoding v mod 16) - 1 = v" "241 \<le> int_encoding v" "int_encoding v \<le> 253"
    by simp_all
  then show ?thesis by (auto simp: zipLoadInteger_def)
next
  assume e: "int_encoding v = ZIP_INT_24B" "fits 3 v"
  then have b: "int_bytes v = drop 1 (le_bytes 4 (v * 2 ^ 8))" by (simp add: int_bytes_def)
  then have "read_bytes (a @ int_bytes v @ b) (length a) 3 = Some (int_bytes v)"
    using read_head [of a "int_bytes v" b] by simp
  then show ?thesis using e le_int_24 b by (simp add: zipLoadInteger_def)
qed (use assms read_head [of a "int_bytes v" b] in \<open>simp_all add: zipLoadInteger_def int_bytes_def le_int_le_bytes le_int_8\<close>)

section \<open>Entries\<close>

text \<open>The length of the predecessor, whether it has the long form, and the value.\<close>

type_synonym zent = "nat \<times> bool \<times> zval"

definition prev_field :: "nat \<Rightarrow> bool \<Rightarrow> byte list" where
  "prev_field plen large = (if large then of_nat ZIP_BIGLEN # le_bytes 4 (int plen) else [of_nat plen])"

definition prev_ok :: "nat \<Rightarrow> bool \<Rightarrow> bool" where
  "prev_ok plen large \<longleftrightarrow> plen < 2 ^ 32 \<and> (large \<or> plen < ZIP_BIGLEN)"

definition entry_bytes :: "zent \<Rightarrow> byte list" where
  "entry_bytes e = (case e of (plen, large, v) \<Rightarrow> prev_field plen large @ payload v)"

abbreviation ent_val :: "zent \<Rightarrow> zval" where "ent_val e \<equiv> snd (snd e)"

definition ent_ok :: "zent \<Rightarrow> bool" where
  "ent_ok e \<longleftrightarrow> prev_ok (fst e) (fst (snd e)) \<and> val_ok (ent_val e)"

lemma length_prev_field: "length (prev_field plen large) = (if large then 5 else 1)"
  by (simp add: prev_field_def)

lemma length_payload: "length (payload v) = val_lsize v + val_len v"
  by (cases v) auto

lemma length_entry: "length (entry_bytes (plen, large, v)) = (if large then 5 else 1) + val_lsize v + val_len v"
  by (simp add: entry_bytes_def length_prev_field length_payload)

lemma prev_bytes_field: "prev_bytes n = prev_field n (ZIP_BIGLEN \<le> n)"
  by (simp add: prev_bytes_def prev_field_def)

lemma prev_size: "zipPrevEncodeLength_size n = length (prev_bytes n)"
  by (simp add: zipPrevEncodeLength_size_def prev_bytes_def)

lemma entry_first_byte:
  assumes "prev_ok plen large"
  shows "byte_at (a @ prev_field plen large @ b) (length a) = Some (if large then ZIP_BIGLEN else plen)"
  using assms by (auto simp: prev_field_def prev_ok_def byte_at_head intro!: unat_of_nat_byte)

lemma decode_prevlensize:
  assumes "prev_ok plen large"
  shows "ZIP_DECODE_PREVLENSIZE (a @ prev_field plen large @ b) (length a) = Some (if large then 5 else 1)"
  using assms by (auto simp: ZIP_DECODE_PREVLENSIZE_def entry_first_byte prev_ok_def)

lemma decode_prevlen:
  assumes "prev_ok plen large"
  shows "ZIP_DECODE_PREVLEN (a @ prev_field plen large @ b) (length a) = Some (if large then 5 else 1, plen)"
proof -
  have "load (a @ prev_field plen True @ b) (length a + 1) 4 = Some plen" if "plen < 2 ^ 32"
    using load_head [of "int plen" 4 "a @ [254]" b] that by (simp add: prev_field_def)
  then show ?thesis using assms decode_prevlensize [OF assms] entry_first_byte [OF assms]
    by (cases large) (auto simp: ZIP_DECODE_PREVLEN_def prev_ok_def)
qed

lemma entry_body:
  assumes "val_ok v" and m: "m = a @ prev_field plen large @ payload v @ b"
    and q: "q = length a + ((if large then 5 else 1) + val_lsize v)"
  shows "v = ZStr s \<Longrightarrow> read_bytes m q (length s) = Some s"
    and "v = ZInt i \<Longrightarrow> zipLoadInteger m q (int_encoding i) = Some i"
proof -
  have hd: "q = length (a @ prev_field plen large @ take (val_lsize v) (payload v))"
    by (simp add: q length_prev_field length_payload)
  show "read_bytes m q (length s) = Some s" if "v = ZStr s"
    unfolding hd using that read_head [of "a @ prev_field plen large @ length_bytes 0 (length s)" s b]
    by (simp add: m)
  show "zipLoadInteger m q (int_encoding i) = Some i" if "v = ZInt i"
    unfolding hd using that load_integer [of i "a @ prev_field plen large @ [of_nat (int_encoding i)]" b] assms(1)
    by (simp add: m)
qed

text \<open>Reading an entry anywhere in a block.\<close>

lemma entry_reads:
  assumes "ent_ok (plen, large, v)" and m0: "m = a @ entry_bytes (plen, large, v) @ b"
  shows "\<exists>c. byte_at m (length a) = Some c \<and> c \<noteq> ZIP_END"
    and "ZIP_DECODE_PREVLENSIZE m (length a) = Some (if large then 5 else 1)"
    and "ZIP_DECODE_PREVLEN m (length a) = Some (if large then 5 else 1, plen)"
    and "ZIP_DECODE_LENGTH m (length a + (if large then 5 else 1)) = Some (val_enc v, val_lsize v, val_len v)"
    and "zipRawEntryLength m (length a) = Some (length (entry_bytes (plen, large, v)))"
    and "zipEntry m (length a) = Some \<lparr>prevrawlensize = (if large then 5 else 1), prevrawlen = plen,
       lensize = val_lsize v, e_len = val_len v, headersize = (if large then 5 else 1) + val_lsize v,
       e_encoding = val_enc v, e_p = length a\<rparr>"
    and "ziplistGet m (Some (length a)) = Some (Some v)"
proof -
  have ok: "prev_ok plen large" "val_ok v" using assms(1) by (simp_all add: ent_ok_def)
  have m: "m = a @ prev_field plen large @ payload v @ b" by (simp add: m0 entry_bytes_def)
  show b0: "\<exists>c. byte_at m (length a) = Some c \<and> c \<noteq> ZIP_END"
    using entry_first_byte [OF ok(1), of a] ok(1) by (auto simp: m prev_ok_def)
  show ps: "ZIP_DECODE_PREVLENSIZE m (length a) = Some (if large then 5 else 1)"
    unfolding m by (rule decode_prevlensize [OF ok(1)])
  show pl: "ZIP_DECODE_PREVLEN m (length a) = Some (if large then 5 else 1, plen)"
    unfolding m by (rule decode_prevlen [OF ok(1)])
  show dl: "ZIP_DECODE_LENGTH m (length a + (if large then 5 else 1)) = Some (val_enc v, val_lsize v, val_len v)"
    using decode_length [OF ok(2), of "a @ prev_field plen large" b] by (simp add: m length_prev_field)
  show "zipRawEntryLength m (length a) = Some (length (entry_bytes (plen, large, v)))"
    using ps dl by (simp add: zipRawEntryLength_def length_entry)
  show ze: "zipEntry m (length a) = Some \<lparr>prevrawlensize = (if large then 5 else 1), prevrawlen = plen,
       lensize = val_lsize v, e_len = val_len v, headersize = (if large then 5 else 1) + val_lsize v,
       e_encoding = val_enc v, e_p = length a\<rparr>"
    using pl dl by (simp add: zipEntry_def)
  show "ziplistGet m (Some (length a)) = Some (Some v)"
    using b0 ze is_str_val [of v] entry_body [OF ok(2) m refl] by (cases v) (auto simp: ziplistGet_def)
qed

section \<open>Blocks\<close>

text \<open>The entries of a list: each holds the raw length of the one before it.\<close>

fun entries_ok :: "nat \<Rightarrow> zent list \<Rightarrow> bool" where
  "entries_ok q [] = True"
| "entries_ok q (e # es) = (fst e = q \<and> ent_ok e \<and> entries_ok (length (entry_bytes e)) es)"

definition flat :: "zent list \<Rightarrow> byte list" where
  "flat es = concat (map entry_bytes es)"

lemma flat_simps [simp]: "flat [] = []" "flat (e # es) = entry_bytes e @ flat es" "flat (xs @ ys) = flat xs @ flat ys"
  by (simp_all add: flat_def)

definition hdr :: "nat \<Rightarrow> nat \<Rightarrow> nat \<Rightarrow> byte list" where
  "hdr l t c = le_bytes 4 (int l) @ le_bytes 4 (int t) @ le_bytes 2 (int c)"

lemma length_hdr [simp]: "length (hdr l t c) = 10"
  by (simp add: hdr_def)

definition zl_end :: "byte list" where
  "zl_end = [of_nat ZIP_END]"

lemma length_zl_end [simp]: "length zl_end = 1"
  by (simp add: zl_end_def)

text \<open>Where the last entry starts, from the start of the entries.\<close>

definition tail_off :: "zent list \<Rightarrow> nat" where
  "tail_off es = length (flat (butlast es))"

lemma tail_off_simps [simp]:
  "tail_off [] = 0" "tail_off [e] = 0" "tail_off (xs @ [e]) = length (flat xs)"
  "tail_off (e # e' # es) = length (entry_bytes e) + tail_off (e' # es)"
  by (simp_all add: tail_off_def)

lemma tail_off_append: "ys \<noteq> [] \<Longrightarrow> tail_off (xs @ ys) = length (flat xs) + tail_off ys"
  by (simp add: tail_off_def butlast_append)

lemma tail_off_le: "tail_off es \<le> length (flat es)"
  by (induction es rule: rev_induct) auto

definition zl_block :: "nat \<Rightarrow> zent list \<Rightarrow> mem" where
  "zl_block c es = hdr (length (flat es) + 11) (10 + tail_off es) c @ flat es @ zl_end"

definition zl_rep :: "mem \<Rightarrow> zent list \<Rightarrow> bool" where
  "zl_rep zl es \<longleftrightarrow> entries_ok 0 es \<and> length (flat es) + 11 < 2 ^ 32
     \<and> (\<exists>c \<le> 65535. zl = zl_block c es \<and> (c < 65535 \<longrightarrow> c = length es))"

text \<open>The header fields.\<close>

lemma bytes_hdr [simp]: "l < 2 ^ 32 \<Longrightarrow> ZIPLIST_BYTES (hdr l t c @ m) = Some l"
  using load_head [of "int l" 4 "[]"] by (simp add: ZIPLIST_BYTES_def hdr_def)

lemma tail_hdr [simp]: "t < 2 ^ 32 \<Longrightarrow> ZIPLIST_TAIL_OFFSET (hdr l t c @ m) = Some t"
  using load_head [of "int t" 4 "le_bytes 4 (int l)"] by (simp add: ZIPLIST_TAIL_OFFSET_def hdr_def)

lemma length_hdr_field [simp]: "c \<le> 65535 \<Longrightarrow> ZIPLIST_LENGTH (hdr l t c @ m) = Some c"
  using load_head [of "int c" 2 "le_bytes 4 (int l) @ le_bytes 4 (int t)"] by (simp add: ZIPLIST_LENGTH_def hdr_def)

lemma set_tail_hdr [simp]: "set_tail_offset (hdr l t c @ m) (int t') = Some (hdr l t' c @ m)"
  using write_bytes_append [of "le_bytes 4 (int t')" "le_bytes 4 (int t)" "le_bytes 4 (int l)" "le_bytes 2 (int c) @ m"]
  by (simp add: set_tail_offset_def store_def hdr_def)

lemma store_len_hdr: "store (hdr l t c @ m) 8 2 (int c') = Some (hdr l t c' @ m)"
  using write_bytes_append [of "le_bytes 2 (int c')" "le_bytes 2 (int c)" "le_bytes 4 (int l) @ le_bytes 4 (int t)" m]
  by (simp add: store_def hdr_def)

lemma store_bytes_hdr: "store (hdr l t c @ m) 0 4 (int l') = Some (hdr l' t c @ m)"
  using write_bytes_append [of "le_bytes 4 (int l')" "le_bytes 4 (int l)" "[]" "le_bytes 4 (int t) @ le_bytes 2 (int c) @ m"]
  by (simp add: store_def hdr_def)

lemma byte_at_end: "length a = n \<Longrightarrow> byte_at (a @ zl_end) n = Some ZIP_END"
  using byte_at_head [of a "255" "[]"] by (auto simp: zl_end_def)

section \<open>Reading\<close>

text \<open>Offset of the entry with a given index.\<close>

definition off :: "zent list \<Rightarrow> nat \<Rightarrow> nat" where
  "off es i = 10 + length (flat (take i es))"

lemma entries_ok_append:
  "entries_ok q (xs @ ys) \<longleftrightarrow> entries_ok q xs \<and> entries_ok (if xs = [] then q else length (entry_bytes (last xs))) ys"
  by (induction xs arbitrary: q) auto

lemma zl_repE:
  assumes "zl_rep zl es"
  obtains c where "c \<le> 65535" "zl = hdr (length (flat es) + 11) (10 + tail_off es) c @ flat es @ zl_end"
    "c < 65535 \<Longrightarrow> c = length es" "entries_ok 0 es" "length (flat es) + 11 < 2 ^ 32"
  using assms by (auto simp: zl_rep_def zl_block_def)

lemma ent_cases: obtains plen large v where "e = ((plen, large, v) :: zent)"
  by (cases e) auto

text \<open>What is read at the offset of an entry, and at the end.\<close>

lemma rep_split:
  assumes "zl_rep zl es" "i < length es"
  obtains a b where "zl = a @ entry_bytes (es ! i) @ b" "length a = off es i" "ent_ok (es ! i)"
    "b = flat (drop (Suc i) es) @ zl_end"
    "fst (es ! i) = (if i = 0 then 0 else length (entry_bytes (es ! (i - 1))))"
proof -
  obtain c where c: "zl = hdr (length (flat es) + 11) (10 + tail_off es) c @ flat es @ zl_end" "entries_ok 0 es"
    using assms(1) by (elim zl_repE)
  have es: "es = take i es @ es ! i # drop (Suc i) es" using assms(2) by (rule id_take_nth_drop)
  have "flat es = flat (take i es) @ entry_bytes (es ! i) @ flat (drop (Suc i) es)"
    using arg_cong [OF es, of flat] by (simp only: flat_simps)
  then have "zl = (hdr (length (flat es) + 11) (10 + tail_off es) c @ flat (take i es)) @ entry_bytes (es ! i)
      @ flat (drop (Suc i) es) @ zl_end"
    using c(1) by simp
  moreover have ok: "entries_ok 0 (take i es @ es ! i # drop (Suc i) es)" using c(2) es by simp
  have "fst (es ! i) = (if i = 0 then 0 else length (entry_bytes (es ! (i - 1))))"
  proof (cases "i = 0")
    case False
    then have "last (take i es) = es ! (i - 1)" using assms(2)
      by (cases i) (simp_all add: take_Suc_conv_app_nth)
    then show ?thesis using ok False assms(2) by (auto simp: entries_ok_append split: if_splits)
  qed (use ok in \<open>simp add: entries_ok_append\<close>)
  moreover have "ent_ok (es ! i)" using ok by (simp add: entries_ok_append)
  ultimately show thesis using that by (simp add: off_def)
qed

lemma rep_read:
  assumes "zl_rep zl es" "i < length es"
  shows "\<exists>b. byte_at zl (off es i) = Some b \<and> b \<noteq> ZIP_END"
    and "\<exists>psize. ZIP_DECODE_PREVLEN zl (off es i) = Some (psize, if i = 0 then 0 else length (entry_bytes (es ! (i - 1))))"
    and "zipRawEntryLength zl (off es i) = Some (length (entry_bytes (es ! i)))"
    and "ziplistGet zl (Some (off es i)) = Some (Some (ent_val (es ! i)))"
proof -
  obtain a b where s: "zl = a @ entry_bytes (es ! i) @ b" "length a = off es i" "ent_ok (es ! i)"
    "fst (es ! i) = (if i = 0 then 0 else length (entry_bytes (es ! (i - 1))))"
    using rep_split [OF assms] .
  obtain plen large v where e: "es ! i = (plen, large, v)" by (rule ent_cases)
  note r = entry_reads [OF s(3) [unfolded e] s(1) [unfolded e], unfolded s(2)]
  show "\<exists>b. byte_at zl (off es i) = Some b \<and> b \<noteq> ZIP_END" by (rule r)
  show "\<exists>psize. ZIP_DECODE_PREVLEN zl (off es i) = Some (psize, if i = 0 then 0 else length (entry_bytes (es ! (i - 1))))"
    using r(3) s(4) e by auto
  show "zipRawEntryLength zl (off es i) = Some (length (entry_bytes (es ! i)))" using r(5) e by simp
  show "ziplistGet zl (Some (off es i)) = Some (Some (ent_val (es ! i)))" using r(7) e by simp
qed

lemma off_Suc: "i < length es \<Longrightarrow> off es (Suc i) = off es i + length (entry_bytes (es ! i))"
  by (simp add: off_def take_Suc_conv_app_nth)

lemma off_0: "off es 0 = 10"
  by (simp add: off_def)

lemma off_end: "length es \<le> i \<Longrightarrow> off es i = 10 + length (flat es)"
  by (simp add: off_def)

lemma off_tail: "off es (length es - 1) = 10 + tail_off es"
  by (simp add: off_def tail_off_def butlast_conv_take)

lemma rep_end: "zl_rep zl es \<Longrightarrow> byte_at zl (off es (length es)) = Some ZIP_END"
  by (elim zl_repE) (use byte_at_end [of "hdr _ _ _ @ flat es"] in \<open>simp add: off_end\<close>)

lemma length_entry_pos: "0 < length (entry_bytes e)"
  by (cases e rule: ent_cases) (simp add: length_entry)

lemma off_ge: "10 \<le> off es i"
  by (simp add: off_def)

lemma off_pos: "0 < i \<Longrightarrow> i \<le> length es \<Longrightarrow> 10 < off es i"
  using length_entry_pos [of "es ! (i - 1)"] off_ge [of es "i - 1"] by (cases i) (simp_all add: off_Suc del: length_greater_0_conv)

lemma next_ok:
  assumes "zl_rep zl es" "i < length es"
  shows "ziplistNext zl (off es i) = Some (if Suc i < length es then Some (off es (Suc i)) else None)"
proof (cases "Suc i < length es")
  case True
  then show ?thesis using rep_read [OF assms] rep_read(1) [OF assms(1) True]
    by (auto simp: ziplistNext_def off_Suc [OF assms(2), symmetric])
next
  case False
  then have "Suc i = length es" using assms(2) by simp
  then show ?thesis using rep_read [OF assms] rep_end [OF assms(1)]
    by (auto simp: ziplistNext_def off_Suc [OF assms(2), symmetric])
qed

lemma tail_ok: "zl_rep zl es \<Longrightarrow> ZIPLIST_TAIL_OFFSET zl = Some (off es (length es - 1))"
  by (elim zl_repE) (use tail_off_le [of es] in \<open>simp add: off_tail [unfolded One_nat_def]\<close>)

lemma prev_at_ok:
  assumes "zl_rep zl es" "i \<le> length es"
  shows "ziplistPrev zl (off es i) = Some (if i = 0 then None else Some (off es (i - 1)))"
proof (cases "i = length es")
  case True
  show ?thesis
  proof (cases "es = []")
    case True
    then show ?thesis using \<open>i = length es\<close> rep_end [OF assms(1)] tail_ok [OF assms(1)]
      by (simp add: ziplistPrev_def)
  next
    case False
    then show ?thesis using True rep_end [OF assms(1)] tail_ok [OF assms(1)]
        rep_read(1) [OF assms(1), of "length es - 1"] by (auto simp: ziplistPrev_def)
  qed
next
  case False
  then have i: "i < length es" using assms(2) by simp
  show ?thesis
  proof (cases i)
    case (Suc j)
    then have o: "off es i = off es j + length (entry_bytes (es ! j))" using i by (simp add: off_Suc)
    then show ?thesis using rep_read [OF assms(1) i] off_pos [of i es] i Suc length_entry_pos [of "es ! j"]
      by (auto simp: ziplistPrev_def)
  qed (use rep_read(1) [OF assms(1) i] in \<open>auto simp: ziplistPrev_def off_0\<close>)
qed

lemma forward_ok:
  assumes "zl_rep zl es" "j \<le> length es"
  shows "\<exists>k. index_forward n zl (off es j) = Some (off es (min (j + n) (length es)), k)
    \<and> (0 < k \<longleftrightarrow> length es < j + n)"
  using assms(2)
proof (induction n arbitrary: j)
  case 0
  then show ?case using rep_end [OF assms(1)] rep_read(1) [OF assms(1), of j]
    by (cases "j = length es") auto
next
  case (Suc n)
  show ?case
  proof (cases "j = length es")
    case True
    then show ?thesis using rep_end [OF assms(1)] by simp
  next
    case False
    then have "j < length es" "Suc j \<le> length es" using Suc.prems by simp_all
    then show ?thesis using Suc.IH [of "Suc j"] rep_read [OF assms(1), of j] by (auto simp: off_Suc)
  qed
qed

lemma backward_ok:
  assumes "zl_rep zl es" "j < length es" "prevlen = (if j = 0 then 0 else length (entry_bytes (es ! (j - 1))))"
  shows "\<exists>k. index_backward n zl (off es j) prevlen = Some (off es (j - n), k) \<and> (0 < k \<longleftrightarrow> j < n)"
  using assms(2,3)
proof (induction n arbitrary: j prevlen)
  case (Suc n)
  show ?case
  proof (cases j)
    case (Suc i)
    then have o: "off es j = off es i + prevlen" "0 < prevlen"
      using Suc.prems length_entry_pos [of "es ! i"] by (simp_all add: off_Suc)
    have i: "i < length es" using Suc Suc.prems by simp
    obtain ps where "ZIP_DECODE_PREVLEN zl (off es i) = Some (ps, if i = 0 then 0 else length (entry_bytes (es ! (i - 1))))"
      using rep_read(2) [OF assms(1) i] by auto
    then show ?thesis using Suc.IH [OF i refl] o Suc by simp
  qed (use Suc.prems in simp)
qed simp

definition zl_index :: "'a list \<Rightarrow> int \<Rightarrow> nat option" where
  "zl_index es i = (let n = int (length es); j = (if i < 0 then n + i else i) in
     if 0 \<le> j \<and> j < n then Some (nat j) else None)"

lemma index_ok:
  assumes rep: "zl_rep zl es"
  shows "ziplistIndex zl i = Some (map_option (off es) (zl_index es i))"
proof (cases "i < 0")
  case False
  obtain k where k: "index_forward (nat i) zl (off es 0) = Some (off es (min (nat i) (length es)), k)"
    "0 < k \<longleftrightarrow> length es < nat i" using forward_ok [OF rep, of 0 "nat i"] by auto
  show ?thesis
  proof (cases "nat i < length es")
    case True
    then show ?thesis using k False rep_read(1) [OF rep True]
      by (auto simp: ziplistIndex_def zl_index_def off_0 min_def)
  next
    case nlt: False
    then show ?thesis using k False rep_end [OF rep]
      by (auto simp: ziplistIndex_def zl_index_def off_0 min_def)
  qed
next
  case neg: True
  show ?thesis
  proof (cases "es = []")
    case True
    then show ?thesis using neg rep_end [OF rep] tail_ok [OF rep] by (simp add: ziplistIndex_def zl_index_def)
  next
    case False
    then have l: "length es - 1 < length es" by simp
    obtain ps pl where p: "ZIP_DECODE_PREVLEN zl (off es (length es - 1)) = Some (ps, pl)"
      "pl = (if length es - 1 = 0 then 0 else length (entry_bytes (es ! (length es - 1 - 1))))"
      using rep_read(2) [OF rep l] by auto
    obtain k where k: "index_backward (nat (- i - 1)) zl (off es (length es - 1)) pl
       = Some (off es (length es - 1 - nat (- i - 1)), k)" "0 < k \<longleftrightarrow> length es - 1 < nat (- i - 1)"
      using backward_ok [OF rep l p(2)] by blast
    have "length es - 1 - nat (- i - 1) < length es" using False by (simp add: less_imp_diff_less)
    then obtain b where b: "byte_at zl (off es (length es - 1 - nat (- i - 1))) = Some b" "b \<noteq> ZIP_END"
      using rep_read(1) [OF rep] by blast
    have e: "length es - 1 - nat (- i - 1) = nat (int (length es) + i)" using neg by linarith
    have "0 < k \<longleftrightarrow> int (length es) + i < 0" using k(2) neg False by (cases es) auto
    then show ?thesis using neg p(1) tail_ok [OF rep] rep_read(1) [OF rep l] k(1) b e
      by (auto simp: ziplistIndex_def zl_index_def Let_def)
  qed
qed

lemma count_ok:
  assumes "zl_rep zl es" "j \<le> length es"
  shows "count_loop zl (off es j) n = Some (n + (length es - j))"
  using assms(2)
proof (induction "length es - j" arbitrary: j n)
  case 0
  then have "j = length es" by simp
  then show ?case using rep_end [OF assms(1)] by (subst count_loop.simps) simp
next
  case (Suc d)
  then have j: "j < length es" by simp
  have "count_loop zl (off es (Suc j)) (n + 1) = Some (n + 1 + (length es - Suc j))"
    using Suc j by (intro Suc.hyps) simp_all
  then show ?case using rep_read [OF assms(1) j] j by (subst count_loop.simps) (auto simp: off_Suc)
qed

lemma len_ok:
  assumes "zl_rep zl es"
  shows "\<exists>zl'. ziplistLen zl = Some (length es, zl') \<and> zl_rep zl' es"
  using assms
proof (rule zl_repE)
  fix c
  assume c: "c \<le> 65535" "zl = hdr (length (flat es) + 11) (10 + tail_off es) c @ flat es @ zl_end"
    "c < 65535 \<Longrightarrow> c = length es" "entries_ok 0 es" "length (flat es) + 11 < 2 ^ 32"
  have n: "ZIPLIST_LENGTH zl = Some c" using c(1,2) by simp
  have "zl_rep (zl_block (length es) es) es" if "length es < 65535"
    using c(4,5) that by (auto simp: zl_rep_def intro!: exI [of _ "length es"])
  then show ?thesis using c(3) n count_ok [OF assms, of 0 0] assms
    by (auto simp: ziplistLen_def off_0 c(2) store_len_hdr zl_block_def)
qed

section \<open>Searching\<close>

text \<open>The text that a value stands for; an entry matches a text when it stands for it.\<close>

fun zval_text :: "zval \<Rightarrow> byte list" where
  "zval_text (ZStr s) = s"
| "zval_text (ZInt v) = decimal v"

lemma try_encoding_iff: "(\<exists>e. zipTryEncoding s = Some (v, e)) \<longleftrightarrow> fits 8 v \<and> s = decimal v"
proof
  assume "\<exists>e. zipTryEncoding s = Some (v, e)"
  then have "string2ll s = Some v" by (auto simp: zipTryEncoding_def split: if_splits option.splits)
  then show "fits 8 v \<and> s = decimal v" by (simp add: string2ll_iff)
next
  assume d: "fits 8 v \<and> s = decimal v"
  then have "length s < 32" "s \<noteq> []" using length_decimal_i64 [of v] by (auto simp: decimal_def)
  then show "\<exists>e. zipTryEncoding s = Some (v, e)" using d by (simp add: zipTryEncoding_def string2ll_decimal)
qed

text \<open>The comparison of an entry's value with a text, as \<open>ziplistFind\<close> and \<open>ziplistCompare\<close> do it.\<close>

lemma int_match:
  assumes "fits 8 i" "zipLoadInteger zl q enc = Some i"
  shows "(case zipTryEncoding s of None \<Rightarrow> Some False | Some (v, e) \<Rightarrow> map_option (\<lambda>x. x = v) (zipLoadInteger zl q enc))
    = Some (decimal i = s)"
proof (cases "zipTryEncoding s")
  case None
  then show ?thesis using try_encoding_iff [of s i] assms(1) by auto
next
  case (Some p)
  obtain v e where p: "p = (v, e)" by (cases p)
  have "i = v \<longleftrightarrow> decimal i = s" using try_encoding_iff [of s v] try_encoding_iff [of s i] assms(1) Some p by auto
  then show ?thesis using Some p assms(2) by simp
qed

lemma entry_match:
  assumes "val_ok v" and "\<And>t. v = ZStr t \<Longrightarrow> read_bytes zl q (length t) = Some t"
    and "\<And>i. v = ZInt i \<Longrightarrow> zipLoadInteger zl q (int_encoding i) = Some i"
  shows "(if ZIP_IS_STR (val_enc v) then
      if val_len v = length s then map_option (\<lambda>t. t = s) (read_bytes zl q (val_len v)) else Some False
      else case zipTryEncoding s of None \<Rightarrow> Some False
         | Some (vll, _) \<Rightarrow> map_option (\<lambda>ll. ll = vll) (zipLoadInteger zl q (val_enc v)))
    = Some (zval_text v = s)"
proof (cases v)
  case (ZStr t)
  then show ?thesis using assms(2) [OF ZStr] is_str_val [of v] by auto
next
  case (ZInt j)
  then have f: "fits 8 j" "\<not> ZIP_IS_STR (val_enc v)" using assms(1) is_str_val [of v] by simp_all
  show ?thesis using int_match [OF f(1) assms(3) [OF ZInt], of s] f(2) unfolding ZInt val_enc.simps by simp
qed

fun find_from :: "byte list \<Rightarrow> nat \<Rightarrow> nat \<Rightarrow> zval list \<Rightarrow> nat option" where
  "find_from s skip cnt [] = None"
| "find_from s skip 0 (v # vs) = (if zval_text v = s then Some 0 else map_option Suc (find_from s skip skip vs))"
| "find_from s skip (Suc cnt) (v # vs) = map_option Suc (find_from s skip cnt vs)"

lemma rep_entry:
  assumes "zl_rep zl es" "i < length es"
  obtains a b plen large v where "es ! i = (plen, large, v)" "zl = a @ entry_bytes (plen, large, v) @ b"
    "off es i = length a" "ent_ok (plen, large, v)"
proof (cases "es ! i" rule: ent_cases)
  case (1 plen large v)
  with rep_split [OF assms] show thesis using that by metis
qed

lemma compare_ok:
  assumes "zl_rep zl es" "i < length es"
  shows "ziplistCompare zl (off es i) s = Some (zval_text (ent_val (es ! i)) = s)"
proof -
  obtain a b plen large v where e: "es ! i = (plen, large, v)" "zl = a @ entry_bytes (plen, large, v) @ b"
    "off es i = length a" "ent_ok (plen, large, v)" using rep_entry [OF assms] .
  note r = entry_reads [OF e(4,2)]
  have ok: "val_ok v" using e(4) by (simp add: ent_ok_def)
  have m: "zl = a @ prev_field plen large @ payload v @ b" using e(2) by (simp add: entry_bytes_def)
  note mt = entry_match [OF ok entry_body [OF ok m refl], of s]
  obtain c where c: "byte_at zl (length a) = Some c" "c \<noteq> ZIP_END" using r(1) by blast
  show ?thesis unfolding ziplistCompare_def e(1,3) snd_conv c(1) r(6) Option.bind.bind_lunit
      zlentry.simps using mt by (simp only: c(2) if_False cong: if_cong)
qed

lemma find_ok:
  assumes rep: "zl_rep zl es" and "i \<le> length es"
  shows "find_loop zl s skip (off es i) cnt
    = Some (map_option (\<lambda>j. off es (i + j)) (find_from s skip cnt (map ent_val (drop i es))))"
  using assms(2)
proof (induction "length es - i" arbitrary: i cnt)
  case 0
  then have "i = length es" by simp
  then show ?case using rep_end [OF rep] by (subst find_loop.simps) simp
next
  case (Suc d)
  then have i: "i < length es" by simp
  obtain a b plen large v where e: "es ! i = (plen, large, v)" "zl = a @ entry_bytes (plen, large, v) @ b"
    "off es i = length a" "ent_ok (plen, large, v)" using rep_entry [OF rep i] .
  note r = entry_reads [OF e(4,2)]
  have ok: "val_ok v" using e(4) by (simp add: ent_ok_def)
  have m: "zl = a @ prev_field plen large @ payload v @ b" using e(2) by (simp add: entry_bytes_def)
  note match = entry_match [OF ok entry_body [OF ok m refl], of s, unfolded add.assoc [symmetric]]
  have d: "drop i es = (plen, large, v) # drop (Suc i) es" using i e(1) by (simp add: Cons_nth_drop_Suc [symmetric])
  have o: "off es (Suc i) = length a + (if large then 5 else 1) + val_lsize v + val_len v"
    using i e(1,3) by (simp add: off_Suc length_entry)
  define K where "K cnt = find_loop zl s skip (off es (Suc i)) cnt" for cnt
  have K: "K cnt = Some (map_option (\<lambda>j. off es (Suc i + j)) (find_from s skip cnt (map ent_val (drop (Suc i) es))))" for cnt
    unfolding K_def using Suc i by (intro Suc.hyps) simp_all
  obtain c where c: "byte_at zl (length a) = Some c" "c \<noteq> ZIP_END" using r(1) by blast
  have "find_loop zl s skip (off es i) cnt =
     (if cnt = 0 then if zval_text v = s then Some (Some (off es i)) else K skip else K (cnt - 1))"
    unfolding K_def o e(3) by (subst find_loop.simps) (simp add: c r(2,4) Let_def match del: is_str_val)
  then show ?case unfolding d
    by (cases cnt) (auto simp: K option.map_comp comp_def)
qed

text \<open>
  C23: on a block that holds the entries \<open>es\<close>, \<open>ziplistIndex\<close> finds the entry with a given
  index from the head or (negative) from the tail, the null pointer for an index outside;
  \<open>ziplistGet\<close> returns the value of the entry it is given, \<open>ziplistNext\<close> and \<open>ziplistPrev\<close> step
  to its neighbours, \<open>ziplistCompare\<close> and \<open>ziplistFind\<close> compare with the text the entry stands
  for, and \<open>ziplistLen\<close> returns the number of entries even when the 16-bit counter has
  overflowed. No access leaves the block and every loop ends.
\<close>

theorem ziplist_reads_correct:
  assumes "zl_rep zl es"
  shows "ziplistIndex zl i = Some (map_option (off es) (zl_index es i))
    \<and> (\<forall>k < length es.
         ziplistGet zl (Some (off es k)) = Some (Some (ent_val (es ! k)))
       \<and> ziplistNext zl (off es k) = Some (if Suc k < length es then Some (off es (Suc k)) else None)
       \<and> ziplistCompare zl (off es k) s = Some (zval_text (ent_val (es ! k)) = s))
    \<and> (\<forall>k \<le> length es. ziplistPrev zl (off es k) = Some (if k = 0 then None else Some (off es (k - 1)))
       \<and> ziplistFind zl (off es k) s skip
         = Some (map_option (\<lambda>j. off es (k + j)) (find_from s skip 0 (map ent_val (drop k es)))))
    \<and> (\<exists>zl'. ziplistLen zl = Some (length es, zl') \<and> zl_rep zl' es)"
  using index_ok [OF assms] rep_read(4) [OF assms] next_ok [OF assms] compare_ok [OF assms] prev_at_ok [OF assms]
    find_ok [OF assms] len_ok [OF assms]
  by (simp add: ziplistFind_def)

text \<open>Two entries, a text and an integer; the texts are \<open>ab\<close> and \<open>5\<close>.\<close>

definition two_entries :: "zent list" where
  "two_entries = [(0, False, ZStr [97, 98]), (4, False, ZInt 5)]"

lemma two_entries_rep: "zl_rep (zl_block 2 two_entries) two_entries"
  by (auto simp: zl_rep_def two_entries_def ent_ok_def prev_ok_def length_entry length_bytes_len length_int_bytes
      zipIntSize_def int_encoding_def fits_def intro!: exI [of _ 2])

theorem ziplist_reads_correct_witness:
  "zl_rep (zl_block 2 two_entries) two_entries
    \<and> ziplistIndex (zl_block 2 two_entries) (-1) = Some (Some 14)
    \<and> ziplistFind (zl_block 2 two_entries) 10 [53] 0 = Some (Some 14)"
proof -
  have o: "off two_entries 0 = 10" "off two_entries (Suc 0) = 14"
    by (simp_all add: off_def two_entries_def length_entry length_bytes_len)
  have i: "zl_index two_entries (-1) = Some (Suc 0)" by (simp add: zl_index_def two_entries_def)
  have f: "find_from [53] 0 0 (map ent_val (drop 0 two_entries)) = Some (Suc 0)"
    by (simp add: two_entries_def decimal_def decimal_nat.simps)
  show ?thesis
    using ziplist_reads_correct [OF two_entries_rep, of "-1" "[53]" 0, unfolded i] two_entries_rep f o
    by (auto dest!: spec [of _ 0])
qed

end
