(* ===== verification/Ziplist_Ops.thy ===== *)
theory Ziplist_Ops
  imports Ziplist_Rep
begin

text \<open>
  The operations that change a ziplist, against lists of entries: creation, insertion and
  deletion with the cascade of updates they cause. The reference of the cascade is \<open>fix_prev\<close>;
  it changes the length fields only, never a value.
\<close>

section \<open>The cascade on entries\<close>

fun fix_prev :: "nat \<Rightarrow> zent list \<Rightarrow> zent list" where
  "fix_prev q [] = []"
| "fix_prev q ((plen, large, v) # es) =
     (if plen = q then (plen, large, v) # es
      else if \<not> large \<and> ZIP_BIGLEN \<le> q then (q, True, v) # fix_prev (length (entry_bytes (q, True, v))) es
      else (q, large, v) # es)"

definition next_fixed :: "nat \<Rightarrow> zent list \<Rightarrow> zent list" where
  "next_fixed q es =
     (case es of
        [] \<Rightarrow> []
      | (plen, large, v) # es' \<Rightarrow>
          let e = (q, ZIP_BIGLEN \<le> q, v) in e # fix_prev (length (entry_bytes e)) es')"

lemma fix_prev_id: "entries_ok q es \<Longrightarrow> fix_prev q es = es"
  by (cases es) auto

lemma vals_fix_prev [simp]: "map ent_val (fix_prev q es) = map ent_val es"
  by (induction q es rule: fix_prev.induct) auto

lemma vals_next_fixed [simp]: "map ent_val (next_fixed q es) = map ent_val es"
  by (cases es) (auto simp: next_fixed_def Let_def)

lemma length_fix_prev [simp]: "length (fix_prev q es) = length es"
  using arg_cong [OF vals_fix_prev [of q es], of length] by (simp only: length_map)

lemma length_next_fixed [simp]: "length (next_fixed q es) = length es"
  using arg_cong [OF vals_next_fixed [of q es], of length] by (simp only: length_map)

lemma length_entry_cong: "length (entry_bytes (p, l, v)) = length (entry_bytes (q, l, v))"
  by (simp add: length_entry)

lemma entries_fix_prev:
  assumes "entries_ok q0 es" "q < 2 ^ 32" "length (flat (fix_prev q es)) < 2 ^ 32"
  shows "entries_ok q (fix_prev q es)"
  using assms
proof (induction q es arbitrary: q0 rule: fix_prev.induct)
  case (2 q plen large v es)
  then show ?case using length_entry_cong [of plen large v q]
    by (auto simp: ent_ok_def prev_ok_def split: if_splits)
qed simp

lemma length_flat_fix_prev: "length (flat es) \<le> length (flat (fix_prev q es))"
  by (induction q es rule: fix_prev.induct) (auto simp: length_entry)

lemma length_flat_next: "entries_ok q0 es \<Longrightarrow> length (flat es) \<le> length (flat (next_fixed q es)) + 4"
proof (cases es)
  case (Cons e es')
  obtain plen large v where e: "e = (plen, large, v)" by (rule ent_cases)
  define n where "n = length (entry_bytes (q, ZIP_BIGLEN \<le> q, v))"
  have "length (entry_bytes e) \<le> n + 4" by (simp add: e n_def length_entry)
  moreover have "next_fixed q es = (q, ZIP_BIGLEN \<le> q, v) # fix_prev n es'"
    by (simp add: Cons e next_fixed_def Let_def n_def)
  ultimately show ?thesis using length_flat_fix_prev [of es' n] by (simp add: Cons n_def)
qed simp

lemma entries_next_fixed:
  assumes "entries_ok q0 es" "q < 2 ^ 32" "length (flat (next_fixed q es)) < 2 ^ 32"
  shows "entries_ok q (next_fixed q es)"
proof (cases es)
  case (Cons e es')
  obtain plen large v where e: "e = (plen, large, v)" by (rule ent_cases)
  show ?thesis using assms Cons e
    by (auto simp: next_fixed_def Let_def ent_ok_def prev_ok_def intro!: entries_fix_prev)
qed (simp add: next_fixed_def)

section \<open>Resizing\<close>

lemma set_at_last: "x \<noteq> [] \<Longrightarrow> set_at (a @ x) (length a + length x - 1) v = Some (a @ butlast x @ [v])"
  by (cases x rule: rev_cases) (simp_all add: list_update_append)

lemma resize_grow:
  assumes "length R + 11 + d < 2 ^ 32" "n = int (length R + 11 + d)"
  obtains G where "ziplistResize junk (hdr l t c @ R @ zl_end) n = Some (hdr (length R + 11 + d) t c @ R @ G @ zl_end)"
    "length G = d" "0 < d \<Longrightarrow> hd G = of_nat ZIP_END"
proof -
  define m where "m = hdr l t c @ R @ zl_end"
  define J where "J = map junk [length m..<length m + d]"
  have lm: "length m = length R + 11" by (simp add: m_def)
  have J: "length J = d" by (simp add: J_def)
  have "u32_of n = length m + d" using assms by (simp add: lm)
  then have "ziplistResize junk m n = Option.bind (store (m @ J) 0 4 (int (length m + d))) (\<lambda>zl.
      set_at zl (length m + d - 1) (of_nat ZIP_END))"
    by (simp only: ziplistResize_def Let_def zrealloc_grow [OF le_add1] J_def)
  also have "store (m @ J) 0 4 (int (length m + d)) = Some ((hdr (length m + d) t c @ R) @ zl_end @ J)"
    using store_bytes_hdr [of l t c "R @ zl_end @ J" "length m + d"] by (simp add: m_def)
  also have "length m + d - 1 = length (hdr (length m + d) t c @ R) + length (zl_end @ J) - 1"
    by (simp add: lm J)
  also have "Option.bind (Some ((hdr (length m + d) t c @ R) @ zl_end @ J)) (\<lambda>zl. set_at zl
      (length (hdr (length m + d) t c @ R) + length (zl_end @ J) - 1) (of_nat ZIP_END))
      = Some ((hdr (length m + d) t c @ R) @ butlast (zl_end @ J) @ zl_end)"
    unfolding Option.bind.bind_lunit
    by (subst set_at_last) (simp_all add: zl_end_def)
  finally show thesis
    using that [of "butlast (zl_end @ J)"] J unfolding m_def [symmetric] lm
    by (cases J) (simp_all add: zl_end_def butlast.simps(2) [of 255] del: butlast.simps)
qed

lemma nat_int_11: "nat (int k + 11) = k + 11"
  by linarith

lemma resize_shrink:
  assumes "length R + 11 < 2 ^ 32" "n = int (length R + 11)"
  shows "ziplistResize junk (hdr l t c @ R @ r # S) n = Some (hdr (length R + 11) t c @ R @ zl_end)"
proof -
  have "zrealloc junk ((hdr l t c @ R @ [r]) @ S) (length R + 11) = hdr l t c @ R @ [r]"
    by (rule zrealloc_cut) simp
  then have "ziplistResize junk (hdr l t c @ R @ r # S) n
      = set_at ((hdr (length R + 11) t c @ R) @ [r]) (10 + length R) (of_nat ZIP_END)"
    using assms u32_of_small [of "int (length R + 11)"] by (simp add: ziplistResize_def Let_def nat_int_11
        store_bytes_hdr [of l t c "R @ [r]" "length R + 11", simplified])
  also have "\<dots> = Some (hdr (length R + 11) t c @ R @ zl_end)"
    using set_at_last [of "[r]" "hdr (length R + 11) t c @ R" "of_nat ZIP_END"] by (simp add: zl_end_def)
  finally show ?thesis .
qed

section \<open>Moving\<close>

lemma memmove_to:
  assumes "m = a @ src @ b" "m = c @ x @ r" "length x = length src"
  shows "memmove m (length c) (length a) (length src) = Some (c @ src @ r)"
proof -
  have "read_bytes m (length a) (length src) = Some src" unfolding assms(1) by (rule read_head)
  moreover have "write_bytes m (length c) src = Some (c @ src @ r)"
    unfolding assms(2) using assms(3) by (intro write_bytes_append) simp
  ultimately show ?thesis by (simp add: memmove_def)
qed

lemma write_over: "length x = length b \<Longrightarrow> write_bytes (a @ x @ r) (length a) b = Some (a @ b @ r)"
  by (rule write_bytes_append) simp

section \<open>The cascade\<close>

text \<open>A block whose entries start behind a prefix that is not looked at.\<close>

definition part :: "nat \<Rightarrow> nat \<Rightarrow> byte list \<Rightarrow> zent list \<Rightarrow> mem" where
  "part t c X es = hdr (length X + length (flat es) + 11) t c @ X @ flat es @ zl_end"

lemma part_app: "part t c X (e # es) = part t c (X @ entry_bytes e) es"
  by (simp add: part_def add.assoc)

lemma part_end: "byte_at (part t c X []) (10 + length X) = Some ZIP_END"
  using byte_at_end [of "hdr _ _ _ @ X"] by (simp add: part_def)

lemma part_entry:
  assumes "ent_ok (plen, large, v)"
  shows "\<exists>c. byte_at (part t n X ((plen, large, v) # es)) (10 + length X) = Some c \<and> c \<noteq> ZIP_END"
    and "ZIP_DECODE_PREVLENSIZE (part t n X ((plen, large, v) # es)) (10 + length X) = Some (if large then 5 else 1)"
    and "zipEntry (part t n X ((plen, large, v) # es)) (10 + length X) = Some \<lparr>prevrawlensize = (if large then 5 else 1),
       prevrawlen = plen, lensize = val_lsize v, e_len = val_len v, headersize = (if large then 5 else 1) + val_lsize v,
       e_encoding = val_enc v, e_p = 10 + length X\<rparr>"
proof -
  define a where "a = hdr (length X + length (flat ((plen, large, v) # es)) + 11) t n @ X"
  have m: "part t n X ((plen, large, v) # es) = a @ entry_bytes (plen, large, v) @ flat es @ zl_end"
    and a: "length a = 10 + length X"
    by (simp_all add: part_def a_def)
  note r = entry_reads [OF assms m, unfolded a]
  show "\<exists>c. byte_at (part t n X ((plen, large, v) # es)) (10 + length X) = Some c \<and> c \<noteq> ZIP_END"
    and "ZIP_DECODE_PREVLENSIZE (part t n X ((plen, large, v) # es)) (10 + length X) = Some (if large then 5 else 1)"
    and "zipEntry (part t n X ((plen, large, v) # es)) (10 + length X) = Some \<lparr>prevrawlensize = (if large then 5 else 1),
       prevrawlen = plen, lensize = val_lsize v, e_len = val_len v, headersize = (if large then 5 else 1) + val_lsize v,
       e_encoding = val_enc v, e_p = 10 + length X\<rparr>"
    by (rule r)+
qed

text \<open>Rewriting the length field of an entry in the form it has.\<close>

lemma part_rewrite:
  assumes "length (prev_field q large') = length (prev_field plen large)"
  shows "write_bytes (part t c X ((plen, large, v) # es)) (10 + length X) (prev_field q large')
    = Some (part t c X ((q, large', v) # es))"
proof -
  have "length (entry_bytes (q, large', v)) = length (entry_bytes (plen, large, v))"
    using assms by (simp add: entry_bytes_def)
  then show ?thesis
    using write_over [OF assms [symmetric], of "hdr (length X + length (flat ((plen, large, v) # es)) + 11) t c @ X"
        "payload v @ flat es @ zl_end"]
    by (simp add: part_def entry_bytes_def)
qed

text \<open>Enlarging the length field of an entry: the bytes behind it move up by four.\<close>

lemma enlarge_bytes:
  assumes "length X + length F + 16 < 2 ^ 32" "t < 2 ^ 32" "ZIP_BIGLEN \<le> q"
  shows "Option.bind (ziplistResize junk (hdr l t c @ (X @ b # F) @ zl_end) (int (length X + length F + 16))) (\<lambda>zl.
         Option.bind (ZIPLIST_TAIL_OFFSET zl) (\<lambda>tail.
         Option.bind (if tail \<noteq> 10 + length X then set_tail_offset zl (int tail + int 4) else Some zl) (\<lambda>zl.
         Option.bind (memmove zl (10 + length X + 5) (10 + length X + 1) (length F)) (\<lambda>zl.
         zipPrevEncodeLength zl (10 + length X) q))))
    = Some (hdr (length X + length F + 16) (if t = 10 + length X then t else t + 4) c
         @ X @ prev_field q True @ F @ zl_end, 5)"
proof -
  define L where "L = length X + length F + 16"
  define t' where "t' = (if t = 10 + length X then t else t + 4)"
  obtain G where G: "ziplistResize junk (hdr l t c @ (X @ b # F) @ zl_end) (int L)
      = Some (hdr L t c @ (X @ b # F) @ G @ zl_end)" "length G = 4"
    by (rule resize_grow [of "X @ b # F" 4 "int L" junk l t c]) (use assms(1) in \<open>simp_all add: L_def ac_simps\<close>)
  have tl: "(if t \<noteq> 10 + length X then set_tail_offset (hdr L t c @ m) (int t + int 4) else Some (hdr L t c @ m))
      = Some (hdr L t' c @ m)" for m
    using set_tail_hdr [of L t c m "t + 4"] by (auto simp: t'_def)
  have tl0: "ZIPLIST_TAIL_OFFSET (hdr L t c @ m) = Some t" for m using assms(2) by simp
  define y where "y = take 4 (F @ G)"
  define A where "A = hdr L t' c @ X"
  have y: "length y = 4" "length (drop 4 (F @ G)) = length F" "F @ G = y @ drop 4 (F @ G)"
    using G(2) by (simp_all add: y_def del: take_append drop_append)
  have A: "length A = 10 + length X" by (simp add: A_def)
  have "memmove ((A @ [b]) @ F @ G @ zl_end) (length (A @ [b] @ y)) (length (A @ [b])) (length F)
      = Some ((A @ [b] @ y) @ F @ zl_end)"
    by (rule memmove_to [OF refl _ y(2)]) (use y(3) in \<open>metis append.assoc\<close>)
  then have mv: "memmove (hdr L t' c @ (X @ b # F) @ G @ zl_end) (10 + length X + 5) (10 + length X + 1) (length F)
      = Some (A @ (b # y) @ F @ zl_end)"
    using y(1) A by (simp add: A_def)
  have pb: "prev_bytes q = prev_field q True" "length (prev_field q True) = 5"
    using assms(3) by (simp_all add: prev_bytes_field length_prev_field)
  have "zipPrevEncodeLength (A @ (b # y) @ F @ zl_end) (10 + length X) q = Some (A @ prev_field q True @ F @ zl_end, 5)"
    using write_over [of "b # y" "prev_bytes q" A "F @ zl_end"] pb y(1) A by (simp add: zipPrevEncodeLength_def)
  then show ?thesis unfolding L_def [symmetric] t'_def [symmetric]
    by (simp only: G(1) Option.bind.bind_lunit tl0 tl mv) (simp add: A_def)
qed

lemma part_byte:
  "part t c X ((plen, False, v) # es) = hdr (length X + length (payload v @ flat es) + 12) t c
     @ (X @ of_nat plen # payload v @ flat es) @ zl_end"
  by (simp add: part_def entry_bytes_def prev_field_def ac_simps)

lemma cascade_end:
  assumes "byte_at zl p = Some b" "b \<noteq> ZIP_END" "zipEntry zl p = Some cur" "rawlen = headersize cur + e_len cur"
    "byte_at zl (p + rawlen) = Some ZIP_END"
  shows "cascade_loop junk zl p curlen = Some zl"
  using assms by (subst cascade_loop.simps) simp

lemma cascade_step:
  assumes "byte_at zl p = Some b" "b \<noteq> ZIP_END" "zipEntry zl p = Some cur" "rawlen = headersize cur + e_len cur"
    "p + rawlen = np" "byte_at zl np = Some b'" "b' \<noteq> ZIP_END" "zipEntry zl np = Some nxt"
    "prevrawlensize nxt = ps" "prevrawlen nxt = pl" "rawlensize = zipPrevEncodeLength_size rawlen"
  shows "cascade_loop junk zl p curlen =
    (if pl = rawlen then Some zl
     else if ps < rawlensize then
       Option.bind (Option.bind (ziplistResize junk zl (int (curlen + (rawlensize - ps)))) (\<lambda>zl.
         Option.bind (ZIPLIST_TAIL_OFFSET zl) (\<lambda>tail.
         Option.bind (if tail \<noteq> np then set_tail_offset zl (int tail + int (rawlensize - ps)) else Some zl) (\<lambda>zl.
         Option.bind (memmove zl (np + rawlensize) (np + ps) (curlen - np - ps - 1)) (\<lambda>zl.
         zipPrevEncodeLength zl np rawlen)))))
       (\<lambda>(zl, _). cascade_loop junk zl np (curlen + (rawlensize - ps)))
     else if ps > rawlensize then zipPrevEncodeLengthForceLarge zl np rawlen
     else map_option fst (zipPrevEncodeLength zl np rawlen))"
  by (subst cascade_loop.simps) (simp only: assms(1,3,6,8,9,10) assms(2,7) [THEN if_not_P] Option.bind.bind_lunit Let_def
      assms(4) [symmetric] assms(5) assms(11) [symmetric] bind_assoc if_False)

lemma part_enlarge:
  assumes "length X + length (flat ((plen, False, v) # es)) + 15 < 2 ^ 32" "t < 2 ^ 32" "ZIP_BIGLEN \<le> q"
    "np = 10 + length X" "curlen = length X + length (flat ((plen, False, v) # es)) + 11"
  shows "Option.bind (ziplistResize junk (part t c X ((plen, False, v) # es)) (int (curlen + 4))) (\<lambda>zl.
         Option.bind (ZIPLIST_TAIL_OFFSET zl) (\<lambda>tail.
         Option.bind (if tail \<noteq> np then set_tail_offset zl (int tail + int 4) else Some zl) (\<lambda>zl.
         Option.bind (memmove zl (np + 5) (np + 1) (curlen - np - 1 - 1)) (\<lambda>zl.
         zipPrevEncodeLength zl np q))))
    = Some (part (if t = np then t else t + 4) c X ((q, True, v) # es), 5)"
proof -
  define F where "F = payload v @ flat es"
  have l: "length (flat ((plen, False, v) # es)) = length F + 1" "length (flat ((q, True, v) # es)) = length F + 5"
    by (simp_all add: F_def length_entry length_payload)
  have n: "curlen + 4 = length X + length F + 16" "curlen - np - 1 - 1 = length F"
    using assms(4,5) l by simp_all
  have f: "hdr (length X + length F + 16) (if t = np then t else t + 4) c @ X @ prev_field q True @ F @ zl_end
      = part (if t = np then t else t + 4) c X ((q, True, v) # es)"
    unfolding part_def l by (simp add: F_def entry_bytes_def add.assoc)
  show ?thesis unfolding part_byte n unfolding F_def [symmetric] assms(4)
    by (subst enlarge_bytes) (use assms l f in simp_all)
qed

lemma tail_off_enlarge: "10 + k + tail_off ((q, True, v) # es)
    = (if 10 + k + tail_off ((plen, False, v) # es) = 10 + k then 10 + k + tail_off ((plen, False, v) # es)
       else 10 + k + tail_off ((plen, False, v) # es) + 4)"
  using length_entry_pos by (cases es) (simp_all add: length_entry)

lemma tail_off_same: "length (entry_bytes n) = length (entry_bytes n') \<Longrightarrow> tail_off (n # es) = tail_off (n' # es)"
  by (cases es) simp_all

lemma length_flat_enlarge: "length (flat ((q, True, v) # es)) = length (flat ((plen, False, v) # es)) + 4"
  by (simp add: length_entry)

lemma cascade_ok:
  assumes "ent_ok e" "entries_ok q0 es" "length X + length (flat (e # fix_prev (length (entry_bytes e)) es)) + 11 < 2 ^ 32"
  shows "cascade_loop junk (part (10 + length X + tail_off (e # es)) c X (e # es)) (10 + length X)
      (length X + length (flat (e # es)) + 11)
    = Some (part (10 + length X + tail_off (e # fix_prev (length (entry_bytes e)) es)) c X
        (e # fix_prev (length (entry_bytes e)) es))"
  using assms
proof (induction es arbitrary: e X q0)
  case Nil
  obtain plen large v where e: "e = (plen, large, v)" by (rule ent_cases)
  note r = part_entry [of plen large v "10 + length X + tail_off [e]" c X "[]", folded e, OF Nil.prems(1)]
  obtain b where b: "byte_at (part (10 + length X + tail_off [e]) c X [e]) (10 + length X) = Some b" "b \<noteq> ZIP_END"
    using r(1) by blast
  have "byte_at (part (10 + length X + tail_off [e]) c X [e]) (10 + length X + length (entry_bytes e)) = Some ZIP_END"
    using part_end [of "10 + length X" c "X @ entry_bytes e"] by (simp add: part_app add.assoc)
  from cascade_end [OF b r(3) _ this] show ?case by (simp add: e length_entry)
next
  case (Cons n es)
  obtain ple la ve where e: "e = (ple, la, ve)" by (rule ent_cases)
  obtain plen large v where n: "n = (plen, large, v)" by (rule ent_cases)
  define t where "t = 10 + length X + tail_off (e # n # es)"
  define zl where "zl = part t c X (e # n # es)"
  define Y where "Y = X @ entry_bytes e"
  define rawlen where "rawlen = length (entry_bytes e)"
  define curlen where "curlen = length X + length (flat (e # n # es)) + 11"
  have np: "10 + length X + rawlen = 10 + length Y" by (simp add: Y_def rawlen_def)
  have tY: "t = 10 + length Y + tail_off (n # es)" by (simp add: t_def Y_def)
  have zY: "zl = part t c Y (n # es)" by (simp add: zl_def Y_def part_app)
  have cY: "curlen = length Y + length (flat (n # es)) + 11" by (simp add: curlen_def Y_def)
  have okn: "ent_ok n" "entries_ok (length (entry_bytes n)) es" using Cons.prems(2) by simp_all
  note r = part_entry [of ple la ve t c X "n # es", folded e, folded zl_def, OF Cons.prems(1)]
  note rn = part_entry [of plen large v t c Y es, folded n, folded zY, OF okn(1)]
  obtain b b' where b: "byte_at zl (10 + length X) = Some b" "b \<noteq> ZIP_END"
    "byte_at zl (10 + length Y) = Some b'" "b' \<noteq> ZIP_END" using r(1) rn(1) by blast
  define rs where "rs = zipPrevEncodeLength_size rawlen"
  have rs: "rs = (if rawlen < ZIP_BIGLEN then 1 else 5)" by (simp add: rs_def zipPrevEncodeLength_size_def)
  have step: "cascade_loop junk zl (10 + length X) curlen =
    (if plen = rawlen then Some zl
     else if (if large then 5 else 1) < rs then
       Option.bind (Option.bind (ziplistResize junk zl (int (curlen + (rs - (if large then 5 else 1))))) (\<lambda>zl.
         Option.bind (ZIPLIST_TAIL_OFFSET zl) (\<lambda>tail.
         Option.bind (if tail \<noteq> 10 + length Y then set_tail_offset zl (int tail + int (rs - (if large then 5 else 1))) else Some zl) (\<lambda>zl.
         Option.bind (memmove zl (10 + length Y + rs) (10 + length Y + (if large then 5 else 1))
            (curlen - (10 + length Y) - (if large then 5 else 1) - 1)) (\<lambda>zl.
         zipPrevEncodeLength zl (10 + length Y) rawlen)))))
       (\<lambda>(zl, _). cascade_loop junk zl (10 + length Y) (curlen + (rs - (if large then 5 else 1))))
     else if (if large then 5 else 1) > rs then zipPrevEncodeLengthForceLarge zl (10 + length Y) rawlen
     else map_option fst (zipPrevEncodeLength zl (10 + length Y) rawlen))"
    by (rule cascade_step [OF b(1,2) r(3) _ np b(3,4) rn(3) _ _ rs_def]) (simp_all add: e rawlen_def length_entry)
  consider (stop) "plen = rawlen" | (grow) "plen \<noteq> rawlen" "\<not> large" "ZIP_BIGLEN \<le> rawlen"
    | (force) "plen \<noteq> rawlen" "large" "rawlen < ZIP_BIGLEN" | (same) "plen \<noteq> rawlen" "large \<longleftrightarrow> ZIP_BIGLEN \<le> rawlen"
    by linarith
  then have "cascade_loop junk zl (10 + length X) curlen
    = Some (part (10 + length Y + tail_off (fix_prev rawlen (n # es))) c Y (fix_prev rawlen (n # es)))"
  proof cases
    case stop
    then show ?thesis using step by (simp add: n tY zY)
  next
    case grow
    define n' where "n' = (rawlen, True, v)"
    define t' where "t' = (if t = 10 + length Y then t else t + 4)"
    have fx: "fix_prev rawlen (n # es) = n' # fix_prev (length (entry_bytes n')) es"
      using grow by (simp add: n n'_def)
    have big: "length Y + length (flat (n' # fix_prev (length (entry_bytes n')) es)) + 11 < 2 ^ 32"
      using Cons.prems(3) fx by (simp add: Y_def rawlen_def [symmetric])
    have l': "length (flat (n' # es)) = length (flat (n # es)) + 4"
      unfolding n n'_def using grow(2) length_flat_enlarge by simp
    have len: "length Y + length (flat (n # es)) + 15 < 2 ^ 32" "t < 2 ^ 32"
      using big length_flat_fix_prev [of es "length (entry_bytes n')"] l' tail_off_le [of "n # es"] tY by simp_all
    have okn': "ent_ok n'" using okn(1) big by (simp add: n n'_def ent_ok_def prev_ok_def Y_def rawlen_def)
    have "cascade_loop junk zl (10 + length X) curlen = cascade_loop junk (part t' c Y (n' # es)) (10 + length Y) (curlen + 4)"
    proof -
      have z: "zl = part t c Y ((plen, False, v) # es)" using zY n grow(2) by simp
      have ps: "(if large then 5 else 1) = (1::nat)" "rs = 5" "(5::nat) - 1 = 4" using grow rs by simp_all
      have en: "Option.bind (ziplistResize junk zl (int (curlen + 4))) (\<lambda>zl.
         Option.bind (ZIPLIST_TAIL_OFFSET zl) (\<lambda>tail.
         Option.bind (if tail \<noteq> 10 + length Y then set_tail_offset zl (int tail + int 4) else Some zl) (\<lambda>zl.
         Option.bind (memmove zl (10 + length Y + 5) (10 + length Y + 1) (curlen - (10 + length Y) - 1 - 1)) (\<lambda>zl.
         zipPrevEncodeLength zl (10 + length Y) rawlen)))) = Some (part t' c Y (n' # es), 5)"
        unfolding z t'_def n'_def by (rule part_enlarge) (use len cY grow n in simp_all)
      show ?thesis unfolding step ps en using grow(1) by simp
    qed
    also have "t' = 10 + length Y + tail_off (n' # es)"
      using tail_off_enlarge [of "length Y" rawlen v es plen] grow(2) by (simp add: t'_def tY n n'_def)
    also have "curlen + 4 = length Y + length (flat (n' # es)) + 11" using cY l' by simp
    also note Cons.IH [OF okn' okn(2) big]
    finally show ?thesis using fx by simp
  next
    case force
    then show ?thesis using step part_rewrite [of rawlen True plen True t c Y v es] length_entry_cong [of rawlen True v plen]
        tail_off_same [of "(rawlen, True, v)" n es]
      by (simp add: rs zipPrevEncodeLengthForceLarge_def prev_field_def n zY tY)
  next
    case same
    then show ?thesis using step part_rewrite [of rawlen large plen large t c Y v es] length_entry_cong [of rawlen large v plen]
        tail_off_same [of "(rawlen, large, v)" n es]
      by (simp add: rs zipPrevEncodeLength_def prev_bytes_field n zY tY length_prev_field)
  qed
  moreover have "fix_prev rawlen (n # es) \<noteq> []" using length_fix_prev [of rawlen "n # es"] by force
  then have "10 + length Y + tail_off (fix_prev rawlen (n # es)) = 10 + length X + tail_off (e # fix_prev rawlen (n # es))"
    using tail_off_append [of "fix_prev rawlen (n # es)" "[e]"] by (simp add: Y_def)
  ultimately show ?case unfolding zl_def t_def curlen_def Y_def rawlen_def part_app [symmetric] by (simp only:)
qed

section \<open>Writing an entry\<close>

definition zval_of :: "byte list \<Rightarrow> zval" where
  "zval_of s = (case zipTryEncoding s of Some (v, _) \<Rightarrow> ZInt v | None \<Rightarrow> ZStr s)"

definition new_entry :: "nat \<Rightarrow> byte list \<Rightarrow> zent" where
  "new_entry q s = (q, ZIP_BIGLEN \<le> q, zval_of s)"

lemma zval_of_cases:
  obtains (int) v where "zipTryEncoding s = Some (v, int_encoding v)" "zval_of s = ZInt v" "fits 8 v" "s = decimal v"
  | (str) "zipTryEncoding s = None" "zval_of s = ZStr s"
proof (cases "zipTryEncoding s")
  case (Some p)
  obtain v e where p: "p = (v, e)" by (cases p)
  then have "e = int_encoding v" using Some by (auto simp: zipTryEncoding_def split: if_splits option.splits)
  then show ?thesis using int [of v] Some p try_encoding_iff [of s v] by (simp add: zval_of_def)
qed (simp add: str zval_of_def)

lemma text_zval_of [simp]: "zval_text (zval_of s) = s"
  by (cases s rule: zval_of_cases) auto

lemma val_ok_zval_of: "length s < 2 ^ 32 \<Longrightarrow> val_ok (zval_of s)"
  by (cases s rule: zval_of_cases) auto

lemma not_is_str_int [simp]: "\<not> ZIP_IS_STR (int_encoding v)"
  using is_str_val [of "ZInt v"] by simp

lemma save_integer:
  "length W = length (int_bytes v) \<Longrightarrow> zipSaveInteger (A @ W @ B) (length A) v (int_encoding v) = Some (A @ int_bytes v @ B)"
  using int_encoding_cases [of v]
  by (auto simp: zipSaveInteger_def int_bytes_def write_over Let_def)

definition insert_code :: "byte list \<Rightarrow> int \<times> nat \<times> nat" where
  "insert_code s = (case zipTryEncoding s of
     Some (v, enc) \<Rightarrow> (v, enc, zipIntSize enc) | None \<Rightarrow> (123456789, 0, length s))"

lemma new_entry_length:
  assumes "insert_code s = (val, enc, n)"
  shows "n + zipPrevEncodeLength_size q + length (length_bytes enc (length s)) = length (entry_bytes (new_entry q s))"
  using assms
  by (cases s rule: zval_of_cases)
    (auto simp: insert_code_def new_entry_def length_entry zipPrevEncodeLength_size_def length_int_bytes length_bytes_def)

lemma write_entry:
  assumes "insert_code s = (val, enc, n)" "length W = length (entry_bytes (new_entry q s))"
  shows "Option.bind (zipPrevEncodeLength (A @ W @ B) (length A) q) (\<lambda>(zl, n).
     Option.bind (zipEncodeLength zl (length A + n) enc (length s)) (\<lambda>(zl, k).
     if ZIP_IS_STR enc then write_bytes zl (length A + n + k) s else zipSaveInteger zl (length A + n + k) val enc))
   = Some (A @ entry_bytes (new_entry q s) @ B)"
proof -
  define P where "P = prev_bytes q"
  define Q where "Q = length_bytes enc (length s)"
  define D where "D = (if ZIP_IS_STR enc then s else int_bytes val)"
  have eb: "entry_bytes (new_entry q s) = P @ Q @ D"
    using assms(1) by (cases s rule: zval_of_cases)
      (auto simp: insert_code_def new_entry_def entry_bytes_def prev_bytes_field P_def Q_def D_def length_bytes_def ZIP_IS_STR_def [of 0])
  define W1 where "W1 = take (length P) W"
  define W2 where "W2 = take (length Q) (drop (length P) W)"
  define W3 where "W3 = drop (length P + length Q) W"
  have W: "W = W1 @ W2 @ W3" by (simp add: W1_def W2_def W3_def) (metis append_take_drop_id drop_drop add.commute)
  have l: "length W1 = length P" "length W2 = length Q" "length W3 = length D"
    using assms(2) eb by (simp_all add: W1_def W2_def W3_def)
  have "zipPrevEncodeLength (A @ W @ B) (length A) q = Some (A @ P @ W2 @ W3 @ B, length P)"
    using write_over [OF l(1), of A "W2 @ W3 @ B"] by (simp add: zipPrevEncodeLength_def P_def [symmetric] W)
  moreover have "zipEncodeLength (A @ P @ W2 @ W3 @ B) (length A + length P) enc (length s)
      = Some (A @ P @ Q @ W3 @ B, length Q)"
    using write_over [OF l(2), of "A @ P" "W3 @ B"] by (simp add: zipEncodeLength_def Q_def [symmetric])
  moreover have "(if ZIP_IS_STR enc then write_bytes (A @ P @ Q @ W3 @ B) (length A + length P + length Q) s
      else zipSaveInteger (A @ P @ Q @ W3 @ B) (length A + length P + length Q) val enc) = Some (A @ P @ Q @ D @ B)"
  proof (cases "ZIP_IS_STR enc")
    case True
    then show ?thesis using write_over [OF l(3), of "A @ P @ Q" B] by (simp add: D_def add.assoc)
  next
    case False
    then have "enc = int_encoding val" using assms(1)
      by (cases s rule: zval_of_cases) (auto simp: insert_code_def ZIP_IS_STR_def)
    then show ?thesis using save_integer [of W3 val "A @ P @ Q" B] l(3) False by (simp add: D_def add.assoc)
  qed
  ultimately show ?thesis by (simp add: eb)
qed

section \<open>Insertion\<close>

definition prev_len :: "zent list \<Rightarrow> nat \<Rightarrow> nat" where
  "prev_len es i = (if i = 0 then 0 else length (entry_bytes (es ! (i - 1))))"

lemma insert_prevlen:
  assumes "zl_rep zl es" "i \<le> length es"
  obtains b where "byte_at zl (off es i) = Some b" "b \<noteq> ZIP_END \<longleftrightarrow> i < length es"
    "(if b \<noteq> ZIP_END then map_option snd (ZIP_DECODE_PREVLEN zl (off es i))
      else Option.bind (ZIPLIST_TAIL_OFFSET zl) (\<lambda>ptail.
           Option.bind (byte_at zl ptail) (\<lambda>t.
           if t \<noteq> ZIP_END then zipRawEntryLength zl ptail else Some 0))) = Some (prev_len es i)"
proof (cases "i < length es")
  case True
  obtain b where "byte_at zl (off es i) = Some b" "b \<noteq> ZIP_END" using rep_read(1) [OF assms(1) True] by auto
  then show thesis using that rep_read(2) [OF assms(1) True] True by (auto simp: prev_len_def)
next
  case False
  then have i: "i = length es" using assms(2) by simp
  note e = rep_end [OF assms(1)] tail_ok [OF assms(1)]
  have "Option.bind (byte_at zl (off es (length es - 1))) (\<lambda>t.
      if t \<noteq> ZIP_END then zipRawEntryLength zl (off es (length es - 1)) else Some 0) = Some (prev_len es i)"
  proof (cases "es = []")
    case True
    then show ?thesis using e(1) i by (simp add: prev_len_def)
  next
    case False
    then have l: "length es - 1 < length es" by simp
    show ?thesis using rep_read(1,3) [OF assms(1) l] i False by (auto simp: prev_len_def)
  qed
  then show thesis using that [of ZIP_END] e i by (simp del: One_nat_def)
qed

text \<open>
  The entries behind the new one move up; the bytes in front of the length field of the
  first of them (or the first bytes of the field) become part of the new field.
\<close>

lemma insert_move:
  assumes M: "M = A @ f @ P @ G @ zl_end" and nd: "nd = int (zipPrevEncodeLength_size r) - int (length f)"
    and G: "int (length G) = int r + nd" and A: "length A = p" "10 \<le> p" and cur: "curlen = p + length f + length P + 1"
  shows "\<exists>W. length W = r \<and>
    Option.bind (memmove M (p + r) (nat (int p - nd)) (nat (int curlen - int p - 1 + nd))) (\<lambda>zl.
      zipPrevEncodeLength zl (p + r) r) = Some (A @ W @ prev_bytes r @ P @ zl_end, length (prev_bytes r))"
proof -
  define pb where "pb = length (prev_bytes r)"
  have pb: "zipPrevEncodeLength_size r = pb" "pb \<le> 5" by (simp_all add: pb_def prev_size prev_bytes_field length_prev_field)
  define k where "k = p + length f - pb"
  define u where "u = drop k (A @ f)"
  define B where "B = f @ P @ G"
  define W where "W = take r B"
  have u: "length u = pb" "A @ f = take k (A @ f) @ u" using A pb by (simp_all add: u_def k_def del: take_append drop_append)
  have lB: "length B = r + length (u @ P)" using G nd u pb by (simp add: B_def)
  have src: "M = take k (A @ f) @ (u @ P) @ G @ zl_end" using M u(2) by (metis append.assoc)
  have dst: "M = (A @ W) @ drop r B @ zl_end" using M by (simp add: W_def B_def del: take_append drop_append)
  have W: "length W = r" "length (drop r B) = length (u @ P)" using lB by (simp_all add: W_def)
  have n: "nat (int p - nd) = length (take k (A @ f))" "nat (int curlen - int p - 1 + nd) = length (u @ P)"
    using nd pb u A cur by (auto simp: k_def)
  have "memmove M (p + r) (nat (int p - nd)) (nat (int curlen - int p - 1 + nd)) = Some ((A @ W) @ u @ P @ zl_end)"
    using memmove_to [OF src dst W(2)] W(1) A by (simp only: n length_append append.assoc)
  moreover have "zipPrevEncodeLength ((A @ W) @ u @ P @ zl_end) (p + r) r = Some ((A @ W) @ prev_bytes r @ P @ zl_end, pb)"
    using write_over [of u "prev_bytes r" "A @ W" "P @ zl_end"] u(1) W(1) A by (simp add: zipPrevEncodeLength_def pb_def)
  ultimately show ?thesis using W(1) by (auto simp: pb_def)
qed

text \<open>The offset of the last entry moves with it, and with its own growth unless it is the one that grew.\<close>

lemma part_byte_end:
  assumes "entries_ok q0 es"
  obtains b where "byte_at (part t c X es) (10 + length X) = Some b" "b = ZIP_END \<longleftrightarrow> es = []"
proof (cases es)
  case Nil
  then show thesis using that part_end by simp
next
  case (Cons e es')
  obtain plen large v where e: "e = (plen, large, v)" by (rule ent_cases)
  show thesis using part_entry(1) [of plen large v t c X es'] that assms Cons e by auto
qed

lemma set_tail_part: "0 \<le> t' \<Longrightarrow> set_tail_offset (part t c X es) t' = Some (part (nat t') c X es)"
  using set_tail_hdr [of _ t c "X @ flat es @ zl_end" "nat t'"] by (simp add: part_def)

lemma tail_part: "t < 2 ^ 32 \<Longrightarrow> ZIPLIST_TAIL_OFFSET (part t c X es) = Some t"
  by (simp add: part_def)

lemma move_tail:
  assumes ok: "ent_ok e'" "entries_ok q0 es" and t: "t < 2 ^ 32" "0 \<le> int t + d" "int t + d < 2 ^ 32"
    and t': "int t' = int t + d + (if es = [] then 0 else nd)"
  shows "Option.bind (ZIPLIST_TAIL_OFFSET (part t c X (e' # es))) (\<lambda>toff.
      Option.bind (set_tail_offset (part t c X (e' # es)) (int toff + d)) (\<lambda>zl.
      Option.bind (zipEntry zl (10 + length X)) (\<lambda>tail.
      Option.bind (byte_at zl (10 + length X + headersize tail + e_len tail)) (\<lambda>e.
      if e \<noteq> ZIP_END then
        Option.bind (ZIPLIST_TAIL_OFFSET zl) (\<lambda>toff. set_tail_offset zl (int toff + nd))
      else Some zl)))) = Some (part t' c X (e' # es))"
proof -
  obtain plen large v where e': "e' = (plen, large, v)" by (rule ent_cases)
  define t1 where "t1 = nat (int t + d)"
  have t1: "int t + d = int t1" "t1 < 2 ^ 32" using t by (simp_all add: t1_def)
  define z where "z = part t1 c X (e' # es)"
  have a: "ZIPLIST_TAIL_OFFSET (part t c X (e' # es)) = Some t" "ZIPLIST_TAIL_OFFSET z = Some t1"
    using t(1) t1(2) by (simp_all add: z_def tail_part)
  have b: "set_tail_offset (part t c X (e' # es)) (int t + d) = Some z" using t(2) by (simp add: set_tail_part z_def t1_def)
  note r = part_entry(3) [OF ok(1) [unfolded e'], of t1 c X es, folded e', folded z_def]
  obtain x where x: "byte_at z (10 + length X + length (entry_bytes e')) = Some x" "x = ZIP_END \<longleftrightarrow> es = []"
    using part_byte_end [OF ok(2), of t1 c "X @ entry_bytes e'"] by (auto simp: z_def part_app add.assoc)
  have h: "10 + length X + ((if large then 5 else 1) + val_lsize v) + val_len v = 10 + length X + length (entry_bytes e')"
    by (simp add: e' length_entry)
  have s: "set_tail_offset z (int t1 + nd) = Some (part t' c X (e' # es))" if "es \<noteq> []"
  proof -
    have "int t1 + nd = int t'" using t' t1(1) that by simp
    then show ?thesis by (simp add: z_def set_tail_part)
  qed
  have "(if x \<noteq> ZIP_END then Option.bind (ZIPLIST_TAIL_OFFSET z) (\<lambda>toff. set_tail_offset z (int toff + nd)) else Some z)
      = Some (part t' c X (e' # es))"
    using x(2) t' t1(1) a(2) s by (auto simp: z_def)
  then show ?thesis by (simp only: a b r h x Option.bind.bind_lunit zlentry.simps)
qed

lemma bytes_part: "length X + length (flat es) + 11 < 2 ^ 32 \<Longrightarrow>
    ZIPLIST_BYTES (part t c X es) = Some (length X + length (flat es) + 11)"
  by (simp add: part_def)

lemma cascade_update_ok:
  assumes "ent_ok e" "entries_ok q0 es" "length X + length (flat (e # fix_prev (length (entry_bytes e)) es)) + 11 < 2 ^ 32"
  shows "ziplistCascadeUpdate junk (part (10 + length X + tail_off (e # es)) c X (e # es)) (10 + length X)
    = Some (part (10 + length X + tail_off (e # fix_prev (length (entry_bytes e)) es)) c X
        (e # fix_prev (length (entry_bytes e)) es))"
proof -
  have "length X + length (flat (e # es)) + 11 < 2 ^ 32"
    using assms(3) length_flat_fix_prev [of es "length (entry_bytes e)"] by simp
  then show ?thesis using cascade_ok [OF assms] by (simp only: ziplistCascadeUpdate_def bytes_part Option.bind.bind_lunit)
qed

lemma tail_off_next: "int (tail_off ((q, l', v) # es)) =
    int (tail_off ((plen, l, v) # es)) + (if es = [] then 0 else (if l' then 5 else 1) - (if l then 5 else 1))"
  by (cases es) (simp_all add: length_entry)

text \<open>The cascade is started when the length field behind the change has changed its size.\<close>

lemma cascade_if:
  assumes e: "e = (plen, large, v)" "e' = (q, ZIP_BIGLEN \<le> q, v)"
    and ok: "ent_ok e'" "entries_ok (length (entry_bytes e)) es"
    and nd: "nd = int (zipPrevEncodeLength_size q) - (if large then 5 else 1)"
    and size: "length X + length (flat (next_fixed q (e # es))) + 11 < 2 ^ 32"
  shows "(if nd \<noteq> 0 then ziplistCascadeUpdate junk (part (10 + length X + tail_off (e' # es)) c X (e' # es)) (10 + length X)
      else Some (part (10 + length X + tail_off (e' # es)) c X (e' # es)))
    = Some (part (10 + length X + tail_off (next_fixed q (e # es))) c X (next_fixed q (e # es)))"
proof -
  have fx: "next_fixed q (e # es) = e' # fix_prev (length (entry_bytes e')) es" by (simp add: next_fixed_def e Let_def)
  show ?thesis
  proof (cases "nd = 0")
    case True
    then have "(if ZIP_BIGLEN \<le> q then 5 else 1 :: int) = (if large then 5 else 1)"
      using nd unfolding zipPrevEncodeLength_size_def by (cases "ZIP_BIGLEN \<le> q") simp_all
    then have "(ZIP_BIGLEN \<le> q) = large" by (cases large; cases "ZIP_BIGLEN \<le> q") simp_all
    then have "length (entry_bytes e') = length (entry_bytes e)" by (simp add: e length_entry)
    then have "fix_prev (length (entry_bytes e')) es = es" using ok(2) by (intro fix_prev_id) simp
    then show ?thesis unfolding fx using True by simp
  next
    case False
    from cascade_update_ok [OF ok size [unfolded fx], of junk c] False show ?thesis
      unfolding fx by (simp only: simp_thms if_True)
  qed
qed

text \<open>
  Everything between the new size and the new entry's own bytes: the block with a hole of
  \<open>r\<close> bytes for it.
\<close>

lemma insert_shift:
  assumes e: "e = (plen, large, v)" and ok: "ent_ok e" "entries_ok (length (entry_bytes e)) es"
    and zl: "zl = part (10 + length X + tail_off (e # es)) c X (e # es)"
    and cur: "curlen = length X + length (flat (e # es)) + 11"
    and nd: "nd = int (zipPrevEncodeLength_size r) - (if large then 5 else 1)" "0 \<le> int r + nd"
    and size: "length X + r + length (flat (next_fixed r (e # es))) + 15 < 2 ^ 32"
  shows "\<exists>W. length W = r \<and>
    Option.bind (ziplistResize junk zl (int curlen + int r + nd)) (\<lambda>zl.
    Option.bind (byte_at zl (10 + length X)) (\<lambda>b.
    Option.bind (if b \<noteq> ZIP_END then
        Option.bind (memmove zl (10 + length X + r) (nat (int (10 + length X) - nd))
          (nat (int curlen - int (10 + length X) - 1 + nd))) (\<lambda>zl.
        Option.bind (zipPrevEncodeLength zl (10 + length X + r) r) (\<lambda>(zl, _).
        Option.bind (ZIPLIST_TAIL_OFFSET zl) (\<lambda>toff.
        Option.bind (set_tail_offset zl (int toff + int r)) (\<lambda>zl.
        Option.bind (zipEntry zl (10 + length X + r)) (\<lambda>tail.
        Option.bind (byte_at zl (10 + length X + r + headersize tail + e_len tail)) (\<lambda>e.
        if e \<noteq> ZIP_END then
          Option.bind (ZIPLIST_TAIL_OFFSET zl) (\<lambda>toff. set_tail_offset zl (int toff + nd))
        else Some zl))))))
      else set_tail_offset zl (int (10 + length X))) (\<lambda>zl.
    if nd \<noteq> 0 then ziplistCascadeUpdate junk zl (10 + length X + r) else Some zl)))
    = Some (part (10 + length X + r + tail_off (next_fixed r (e # es))) c (X @ W) (next_fixed r (e # es)))"
proof -
  define e' where "e' = (r, ZIP_BIGLEN \<le> r, v)"
  define t where "t = 10 + length X + tail_off (e # es)"
  define P where "P = payload v @ flat es"
  define f where "f = prev_field plen large"
  have fx: "next_fixed r (e # es) = e' # fix_prev (length (entry_bytes e')) es" by (simp add: next_fixed_def e e'_def Let_def)
  have ef: "entry_bytes e @ flat es = f @ P" by (simp add: e entry_bytes_def f_def P_def)
  have lf: "int (length f) = (if large then 5 else 1)" by (simp add: f_def length_prev_field)
  define pb where "pb = length (prev_bytes r)"
  have pb: "zipPrevEncodeLength_size r = pb" "pb = (if ZIP_BIGLEN \<le> r then 5 else 1)"
    by (simp_all add: pb_def prev_size prev_bytes_field length_prev_field)
  have le': "length (flat (e' # es)) = pb + length P"
    by (simp add: e'_def P_def entry_bytes_def pb(2) length_prev_field)
  have size': "length X + r + (pb + length P) + 15 < 2 ^ 32"
    using size length_flat_fix_prev [of es "length (entry_bytes e')"] unfolding fx le' [symmetric] by simp
  define d where "d = nat (int r + nd)"
  have d: "int d = int r + nd" "length f + d = r + pb" using nd lf pb(1) by (simp_all add: d_def)
  define L' where "L' = length (X @ f @ P) + 11 + d"
  have cur': "curlen = 10 + length X + length f + length P + 1" using cur arg_cong [OF ef, of length] by simp
  obtain G where G: "ziplistResize junk zl (int curlen + int r + nd) = Some (hdr L' t c @ (X @ f @ P) @ G @ zl_end)" "length G = d"
  proof (rule resize_grow [of "X @ f @ P" d "int curlen + int r + nd" junk curlen t c])
    show "length (X @ f @ P) + 11 + d < 2 ^ 32" using size' d(2) by simp
    show "int curlen + int r + nd = int (length (X @ f @ P) + 11 + d)" using cur' d(1) by simp
  qed (use zl ef cur that in \<open>auto simp: part_def t_def L'_def\<close>)
  define A where "A = hdr L' t c @ X"
  define M where "M = A @ f @ P @ G @ zl_end"
  have A: "length A = 10 + length X" by (simp add: A_def)
  have MG: "ziplistResize junk zl (int curlen + int r + nd) = Some M" using G(1) by (simp add: M_def A_def)
  obtain b where b: "byte_at M (10 + length X) = Some b" "b \<noteq> ZIP_END"
    using entry_first_byte [of plen large A "P @ G @ zl_end"] ok(1) A
    by (auto simp: e ent_ok_def M_def f_def prev_ok_def split: if_splits)
  obtain W where W: "length W = r" "Option.bind (memmove M (10 + length X + r) (nat (int (10 + length X) - nd))
      (nat (int curlen - int (10 + length X) - 1 + nd))) (\<lambda>zl. zipPrevEncodeLength zl (10 + length X + r) r)
      = Some (A @ W @ prev_bytes r @ P @ zl_end, pb)"
    using insert_move [OF M_def _ _ A _ cur', of nd r] nd(1) lf d(1) G(2) by (auto simp: pb_def)
  define z where "z = part t c (X @ W) (e' # es)"
  have zA: "A @ W @ prev_bytes r @ P @ zl_end = z"
  proof -
    have "L' = length (X @ W) + length (flat (e' # es)) + 11" using d(2) W(1) le' by (simp add: L'_def)
    then show ?thesis by (simp add: z_def part_def A_def P_def e'_def entry_bytes_def prev_bytes_field)
  qed
  define t' where "t' = 10 + length X + r + tail_off (e' # es)"
  have oke: "ent_ok e'" using ok(1) size' by (auto simp: e e'_def ent_ok_def prev_ok_def)
  have q: "10 + length (X @ W) = 10 + length X + r" using W(1) by simp
  have "int (tail_off (e' # es)) = int (tail_off (e # es)) + (if es = [] then 0 else nd)"
    using tail_off_next [of r "ZIP_BIGLEN \<le> r" v es plen large] nd(1) pb by (simp add: e e'_def)
  then have t': "int t' = int t + int r + (if es = [] then 0 else nd)" by (simp add: t'_def t_def)
  have "- 4 \<le> nd" using nd(1) by (simp add: zipPrevEncodeLength_size_def)
  then have "t + r \<le> t' + 4" using t' by (simp split: if_splits)
  moreover have "t' + 4 < 2 ^ 32" using size' tail_off_le [of "e' # es"] le' by (simp add: t'_def)
  ultimately have tb: "t < 2 ^ 32" "0 \<le> int t + int r" "int t + int r < 2 ^ 32" by simp_all
  note mt = move_tail [OF oke ok(2) tb t', of c "X @ W", unfolded q, folded z_def]
  define y where "y = part t' c (X @ W) (e' # es)"
  have cu: "(if nd \<noteq> 0 then ziplistCascadeUpdate junk y (10 + length X + r) else Some y)
      = Some (part (10 + length X + r + tail_off (next_fixed r (e # es))) c (X @ W) (next_fixed r (e # es)))"
    unfolding q [symmetric] y_def t'_def
    by (rule cascade_if [OF e e'_def oke ok(2) nd(1)]) (use size W(1) in simp)
  obtain m where m: "memmove M (10 + length X + r) (nat (int (10 + length X) - nd))
      (nat (int curlen - int (10 + length X) - 1 + nd)) = Some m" "zipPrevEncodeLength m (10 + length X + r) r = Some (z, pb)"
    using W(2) zA by (auto simp: bind_eq_Some_conv)
  show ?thesis
    by (intro exI [of _ W] conjI, rule W(1))
      (simp only: MG Option.bind.bind_lunit b(1) m prod.case mt y_def [symmetric] cu b(2) simp_thms if_True)
qed

text \<open>The steps of an insertion, in three parts.\<close>

definition shift_part :: "(nat \<Rightarrow> byte) \<Rightarrow> mem \<Rightarrow> nat \<Rightarrow> nat \<Rightarrow> nat \<Rightarrow> int \<Rightarrow> mem option" where
  "shift_part junk zl p curlen r nd =
    Option.bind (ziplistResize junk zl (int curlen + int r + nd)) (\<lambda>zl.
    Option.bind (byte_at zl p) (\<lambda>b.
    Option.bind (if b \<noteq> ZIP_END then
        Option.bind (memmove zl (p + r) (nat (int p - nd)) (nat (int curlen - int p - 1 + nd))) (\<lambda>zl.
        Option.bind (zipPrevEncodeLength zl (p + r) r) (\<lambda>(zl, _).
        Option.bind (ZIPLIST_TAIL_OFFSET zl) (\<lambda>toff.
        Option.bind (set_tail_offset zl (int toff + int r)) (\<lambda>zl.
        Option.bind (zipEntry zl (p + r)) (\<lambda>tail.
        Option.bind (byte_at zl (p + r + headersize tail + e_len tail)) (\<lambda>e.
        if e \<noteq> ZIP_END then
          Option.bind (ZIPLIST_TAIL_OFFSET zl) (\<lambda>toff. set_tail_offset zl (int toff + nd))
        else Some zl))))))
      else set_tail_offset zl (int p)) (\<lambda>zl.
    if nd \<noteq> 0 then ziplistCascadeUpdate junk zl (p + r) else Some zl)))"

definition write_part :: "mem \<Rightarrow> nat \<Rightarrow> nat \<Rightarrow> byte list \<Rightarrow> int \<Rightarrow> nat \<Rightarrow> mem option" where
  "write_part zl p q s val enc =
    Option.bind (zipPrevEncodeLength zl p q) (\<lambda>(zl, n).
    Option.bind (zipEncodeLength zl (p + n) enc (length s)) (\<lambda>(zl, k).
    if ZIP_IS_STR enc then write_bytes zl (p + n + k) s else zipSaveInteger zl (p + n + k) val enc))"

lemma insert_parts:
  assumes "ZIPLIST_BYTES zl = Some curlen" "byte_at zl p = Some b"
    "(if b \<noteq> ZIP_END then map_option snd (ZIP_DECODE_PREVLEN zl p)
      else Option.bind (ZIPLIST_TAIL_OFFSET zl) (\<lambda>ptail.
           Option.bind (byte_at zl ptail) (\<lambda>t.
           if t \<noteq> ZIP_END then zipRawEntryLength zl ptail else Some 0))) = Some q"
    "insert_code s = (val, enc, n)" "n + zipPrevEncodeLength_size q + length (length_bytes enc (length s)) = r"
    "(if b \<noteq> ZIP_END then zipPrevLenByteDiff zl p r else Some 0) = Some nd"
  shows "ziplistInsert_at junk zl p s = Option.bind (shift_part junk zl p curlen r nd) (\<lambda>zl.
     Option.bind (write_part zl p q s val enc) (\<lambda>zl. ZIPLIST_INCR_LENGTH zl 1))"
  unfolding ziplistInsert_at_def assms(1-3) Option.bind.bind_lunit insert_code_def [symmetric] assms(4)
  by (simp only: case_prod_unfold fst_conv snd_conv Let_def assms(5,6)
      Option.bind.bind_lunit shift_part_def write_part_def bind_assoc)

lemma incr_part: "c \<le> 65535 \<Longrightarrow> c < 65535 \<longrightarrow> 0 \<le> int c + d \<Longrightarrow>
   ZIPLIST_INCR_LENGTH (part t c X es) d = Some (part t (if c < 65535 then nat (int c + d) else c) X es)"
  using store_len_hdr [of _ t c "X @ flat es @ zl_end" "nat (int c + d)"]
  by (cases "c < 65535") (simp_all add: ZIPLIST_INCR_LENGTH_def part_def)

text \<open>Insertion on lists of entries.\<close>

definition zl_insert :: "zent list \<Rightarrow> nat \<Rightarrow> byte list \<Rightarrow> zent list" where
  "zl_insert es i s = (let n = new_entry (prev_len es i) s in
     take i es @ n # next_fixed (length (entry_bytes n)) (drop i es))"

text \<open>
  The entry at the place of insertion has its length field in the short form, or the new
  entry has at least four bytes.
\<close>

definition insert_safe :: "zent list \<Rightarrow> nat \<Rightarrow> byte list \<Rightarrow> bool" where
  "insert_safe es i s \<longleftrightarrow> (i < length es \<longrightarrow> fst (snd (es ! i)) \<longrightarrow>
     4 \<le> length (entry_bytes (new_entry (prev_len es i) s)))"

lemma shift_end:
  assumes "zl = part (10 + tail_off es) c (flat es) []" "curlen = length (flat es) + 11" "0 < r" "length (flat es) + r + 11 < 2 ^ 32"
  shows "\<exists>W. length W = r \<and> shift_part junk zl (10 + length (flat es)) curlen r 0
    = Some (part (10 + length (flat es)) c (flat es @ W) [])"
proof -
  define X where "X = flat es"
  define t where "t = 10 + tail_off es"
  obtain G where G: "ziplistResize junk zl (int curlen + int r + 0) = Some (hdr (length X + 11 + r) t c @ X @ G @ zl_end)"
    "length G = r" "hd G = of_nat ZIP_END"
    by (rule resize_grow [of X r "int curlen + int r + 0" junk curlen t c])
      (use assms in \<open>auto simp: X_def t_def part_def\<close>)
  obtain g G' where g: "G = g # G'" using G(2) assms(3) by (cases G) auto
  have b: "byte_at (hdr (length X + 11 + r) t c @ X @ G @ zl_end) (10 + length X) = Some ZIP_END"
    using byte_at_head [of "hdr (length X + 11 + r) t c @ X" "of_nat ZIP_END" "G' @ zl_end"] G(3) g by simp
  have "set_tail_offset (hdr (length X + 11 + r) t c @ X @ G @ zl_end) (int (10 + length X))
     = Some (part (10 + length X) c (X @ G) [])"
    using set_tail_hdr [of "length X + 11 + r" t c "X @ G @ zl_end" "10 + length X"] G(2)
    by (simp add: part_def ac_simps)
  then show ?thesis unfolding shift_part_def X_def [symmetric] G(1) Option.bind.bind_lunit b
    using G(2) by (intro exI [of _ G]) simp
qed

lemma shift_ok:
  assumes rep: "zl_rep zl es" and i: "i \<le> length es" and safe: "insert_safe es i s"
    and r: "r = length (entry_bytes (new_entry (prev_len es i) s))"
    and size: "length (flat (zl_insert es i s)) + 15 < 2 ^ 32"
    and b: "byte_at zl (off es i) = Some b" "b \<noteq> ZIP_END \<longleftrightarrow> i < length es"
  shows "\<exists>nd W c. length W = r \<and> c \<le> 65535 \<and> (c < 65535 \<longrightarrow> c = length es)
    \<and> (if b \<noteq> ZIP_END then zipPrevLenByteDiff zl (off es i) r else Some 0) = Some nd
    \<and> shift_part junk zl (off es i) (length (flat es) + 11) r nd
     = Some (part (10 + tail_off (zl_insert es i s)) c (flat (take i es) @ W) (next_fixed r (drop i es)))"
proof -
  obtain c where c: "c \<le> 65535" "zl = hdr (length (flat es) + 11) (10 + tail_off es) c @ flat es @ zl_end"
    "c < 65535 \<longrightarrow> c = length es" "entries_ok 0 es" using rep by (auto elim: zl_repE)
  show ?thesis
  proof (cases "i = length es")
    case True
    have "length (flat es) + r + 11 < 2 ^ 32" using size True r by (simp add: zl_insert_def next_fixed_def)
    moreover have "0 < r" unfolding r by (rule length_entry_pos)
    moreover have "zl = part (10 + tail_off es) c (flat es) []" by (simp add: c(2) part_def)
    ultimately obtain W where "length W = r" "shift_part junk zl (10 + length (flat es)) (length (flat es) + 11) r 0
        = Some (part (10 + length (flat es)) c (flat es @ W) [])"
      using shift_end [of zl es c "length (flat es) + 11" r junk] by auto
    then show ?thesis using c(1,3) True b
      by (intro exI [of _ 0] exI [of _ W] exI [of _ c]) (simp add: off_end zl_insert_def next_fixed_def)
  next
    case False
    then have il: "i < length es" using i by simp
    define X where "X = flat (take i es)"
    define es2 where "es2 = drop (Suc i) es"
    obtain plen large v where e: "es ! i = (plen, large, v)" by (rule ent_cases)
    define n where "n = es ! i"
    have es: "es = take i es @ n # es2" "drop i es = n # es2"
      using il id_take_nth_drop [of i es] by (simp_all add: n_def es2_def Cons_nth_drop_Suc)
    have fl: "flat es = X @ flat (n # es2)" using arg_cong [OF es(1), of flat] by (simp add: X_def)
    have tl: "tail_off es = length X + tail_off (n # es2)"
      using arg_cong [OF es(1), of tail_off] tail_off_append [of "n # es2" "take i es"] by (simp add: X_def)
    have zp: "zl = part (10 + length X + tail_off (n # es2)) c X (n # es2)"
      by (simp add: c(2) fl tl part_def add.assoc)
    have ok: "ent_ok n" "entries_ok (length (entry_bytes n)) es2"
      using c(4) es(1) entries_ok_append [of 0 "take i es" "n # es2"] by simp_all
    define nd where "nd = int (zipPrevEncodeLength_size r) - (if large then 5 else 1)"
    have ins: "zl_insert es i s = take i es @ new_entry (prev_len es i) s # next_fixed r (n # es2)"
      by (simp add: zl_insert_def Let_def es(2) r)
    have nfx: "next_fixed r (n # es2) \<noteq> []" using length_next_fixed [of r "n # es2"] by force
    have t': "10 + tail_off (zl_insert es i s) = 10 + length X + r + tail_off (next_fixed r (n # es2))"
      unfolding ins using nfx tail_off_append [of "next_fixed r (n # es2)" "take i es @ [new_entry (prev_len es i) s]"]
      by (simp add: X_def r)
    have nd0: "0 \<le> int r + nd"
      using safe il e r length_entry_pos [folded r] by (auto simp: insert_safe_def nd_def zipPrevEncodeLength_size_def)
    have sz: "length X + r + length (flat (next_fixed r (n # es2))) + 15 < 2 ^ 32"
      using size unfolding ins by (simp add: X_def r)
    have o: "off es i = 10 + length X" by (simp add: off_def X_def)
    have "\<exists>W. length W = r \<and> shift_part junk zl (10 + length X) (length (flat es) + 11) r nd
      = Some (part (10 + length X + r + tail_off (next_fixed r (n # es2))) c (X @ W) (next_fixed r (n # es2)))"
      unfolding shift_part_def
      by (rule insert_shift [OF e [folded n_def] ok zp _ nd_def nd0 sz]) (simp add: fl)
    moreover have "ZIP_DECODE_PREVLENSIZE zl (10 + length X) = Some (if large then 5 else 1)"
      using part_entry(2) [OF ok(1) [unfolded n_def e]] zp unfolding n_def e by simp
    then have "zipPrevLenByteDiff zl (10 + length X) r = Some nd" by (simp add: zipPrevLenByteDiff_def nd_def)
    ultimately show ?thesis using b c(1,3) il unfolding o t' es(2) X_def [symmetric] by auto
  qed
qed

lemma entries_zl_insert:
  assumes "entries_ok 0 es" "i \<le> length es" "length s < 2 ^ 32" "length (flat (zl_insert es i s)) < 2 ^ 32"
  shows "entries_ok 0 (zl_insert es i s)"
proof -
  define q where "q = prev_len es i"
  have ap: "entries_ok 0 (take i es @ drop i es)" using assms(1) by simp
  have q: "(if take i es = [] then 0 else length (entry_bytes (last (take i es)))) = q"
    using assms(2) by (cases i) (auto simp: q_def prev_len_def take_Suc_conv_app_nth)
  have "length (flat (take i es)) \<le> length (flat (zl_insert es i s))"
    by (simp add: zl_insert_def Let_def)
  then have "q < 2 ^ 32"
    using assms(2,4) unfolding q [symmetric] by (cases "take i es" rule: rev_cases) auto
  moreover have "length (entry_bytes (new_entry q s)) < 2 ^ 32" using assms(4) by (simp add: zl_insert_def Let_def q_def)
  ultimately show ?thesis using ap assms(3,4) q val_ok_zval_of [OF assms(3)]
    unfolding zl_insert_def Let_def entries_ok_append q_def [symmetric]
    by (auto simp: new_entry_def ent_ok_def prev_ok_def intro!: entries_next_fixed)
qed

lemma length_zl_insert: "i \<le> length es \<Longrightarrow> length (zl_insert es i s) = Suc (length es)"
  by (simp add: zl_insert_def Let_def)

lemma vals_zl_insert:
  "map ent_val (zl_insert es i s) = take i (map ent_val es) @ zval_of s # drop i (map ent_val es)"
  by (simp add: zl_insert_def Let_def take_map drop_map new_entry_def)

lemma insert_ok:
  assumes rep: "zl_rep zl es" and i: "i \<le> length es" and s: "length s < 2 ^ 32" and safe: "insert_safe es i s"
    and size: "length (flat (zl_insert es i s)) + 15 < 2 ^ 32"
  shows "\<exists>zl'. ziplistInsert_at junk zl (off es i) s = Some zl' \<and> zl_rep zl' (zl_insert es i s)"
proof -
  define q where "q = prev_len es i"
  define n where "n = new_entry q s"
  define r where "r = length (entry_bytes n)"
  obtain b where b: "byte_at zl (off es i) = Some b" "b \<noteq> ZIP_END \<longleftrightarrow> i < length es"
    "(if b \<noteq> ZIP_END then map_option snd (ZIP_DECODE_PREVLEN zl (off es i))
      else Option.bind (ZIPLIST_TAIL_OFFSET zl) (\<lambda>ptail.
           Option.bind (byte_at zl ptail) (\<lambda>t.
           if t \<noteq> ZIP_END then zipRawEntryLength zl ptail else Some 0))) = Some q"
    unfolding q_def by (rule insert_prevlen [OF rep i])
  obtain val enc k where code: "insert_code s = (val, enc, k)" by (cases "insert_code s")
  note r = new_entry_length [OF code, of q, folded n_def, folded r_def]
  obtain nd W c where sh: "length W = r" "c \<le> 65535" "c < 65535 \<longrightarrow> c = length es"
    "(if b \<noteq> ZIP_END then zipPrevLenByteDiff zl (off es i) r else Some 0) = Some nd"
    "shift_part junk zl (off es i) (length (flat es) + 11) r nd
     = Some (part (10 + tail_off (zl_insert es i s)) c (flat (take i es) @ W) (next_fixed r (drop i es)))"
    using shift_ok [OF rep i safe _ size b(1,2), of r junk] by (auto simp: r_def n_def q_def)
  define X where "X = flat (take i es)"
  define t where "t = 10 + tail_off (zl_insert es i s)"
  have ins: "flat (zl_insert es i s) = X @ entry_bytes n @ flat (next_fixed r (drop i es))"
    by (simp add: zl_insert_def Let_def X_def n_def q_def r_def)
  define A where "A = hdr (length (flat (zl_insert es i s)) + 11) t c @ X"
  define B where "B = flat (next_fixed r (drop i es)) @ zl_end"
  have "write_part (A @ W @ B) (length A) q s val enc = Some (A @ entry_bytes n @ B)"
    unfolding write_part_def n_def by (rule write_entry [OF code]) (use sh(1) in \<open>simp add: r_def n_def\<close>)
  moreover have "part t c (X @ W) (next_fixed r (drop i es)) = A @ W @ B"
    "part t c (X @ entry_bytes n) (next_fixed r (drop i es)) = A @ entry_bytes n @ B" "off es i = length A"
    using sh(1) by (simp_all add: A_def B_def part_def ins r_def off_def X_def add.assoc)
  ultimately have "write_part (part t c (X @ W) (next_fixed r (drop i es))) (off es i) q s val enc
     = Some (part t c (X @ entry_bytes n) (next_fixed r (drop i es)))" by (simp only:)
  moreover have "ZIPLIST_BYTES zl = Some (length (flat es) + 11)"
    using rep by (elim zl_repE) simp
  ultimately have "ziplistInsert_at junk zl (off es i) s
     = Some (part t (if c < 65535 then c + 1 else c) (X @ entry_bytes n) (next_fixed r (drop i es)))"
    using sh(2) by (simp add: insert_parts [OF _ b(1,3) code r sh(4)] sh(5) X_def t_def incr_part nat_add_distrib)
  also have "\<dots> = Some (zl_block (if c < 65535 then c + 1 else c) (zl_insert es i s))"
    by (simp add: zl_block_def part_def ins t_def add.assoc)
  finally show ?thesis
    using entries_zl_insert [OF _ i s] rep size sh(2,3) length_zl_insert [OF i, of s]
    by (auto simp: zl_rep_def intro!: exI [of _ "if c < 65535 then c + 1 else c"])
qed

end
