(* ===== verification/Ziplist_Delete.thy ===== *)
theory Ziplist_Delete
  imports Ziplist_Ops
begin

text \<open>
  Deletion from a ziplist and the theorems about the operations that change one: creation,
  insertion, deletion, and the insertion that the sources get wrong.
\<close>

section \<open>Deletion\<close>

lemma delete_skip_ok:
  assumes "zl_rep zl es" "i \<le> length es"
  shows "delete_skip n zl (off es i) d = Some (off es (min (i + n) (length es)), d + min n (length es - i))"
  using assms(2)
proof (induction n arbitrary: i d)
  case 0
  then obtain b where "byte_at zl (off es i) = Some b"
    using rep_end [OF assms(1)] rep_read(1) [OF assms(1), of i] by (cases "i = length es") auto
  then show ?case using 0 by simp
next
  case (Suc n)
  show ?case
  proof (cases "i = length es")
    case True
    then show ?thesis using rep_end [OF assms(1)] by simp
  next
    case False
    then have i: "i < length es" using Suc.prems by simp
    then show ?thesis using rep_read(1,3) [OF assms(1) i] Suc.IH [of "Suc i" "d + 1"] i
      by (auto simp: off_Suc [OF i, symmetric] min_def)
  qed
qed

text \<open>The entries behind the deleted ones move down over them.\<close>

lemma delete_move:
  assumes e: "e = (plen, large, v)" and ok: "ent_ok e" "entries_ok (length (entry_bytes e)) es" and q: "q < 2 ^ 32"
    and nd: "nd = int (zipPrevEncodeLength_size q) - (if large then 5 else 1)" "nd \<le> int (length D)"
    and zl: "zl = part (10 + length X + length D + tail_off (e # es)) c (X @ D) (e # es)"
    and size: "length (X @ D) + length (flat (e # es)) + 11 < 2 ^ 32"
    and p: "p = nat (int (10 + length X + length D) - nd)" and p0: "p0 = 10 + length X"
    and e': "e' = (q, ZIP_BIGLEN \<le> q, v)"
  shows "Option.bind (zipPrevEncodeLength zl p q) (\<lambda>(zl, _).
     Option.bind (Option.bind (ZIPLIST_TAIL_OFFSET zl) (\<lambda>toff.
       Option.bind (set_tail_offset zl (int toff - int (length D))) (\<lambda>zl.
       Option.bind (zipEntry zl p) (\<lambda>tail.
       Option.bind (byte_at zl (p + headersize tail + e_len tail)) (\<lambda>b.
       if b \<noteq> ZIP_END then
        Option.bind (ZIPLIST_TAIL_OFFSET zl) (\<lambda>toff. set_tail_offset zl (int toff + nd)) else Some zl))))) (\<lambda>zl.
     Option.bind (ZIPLIST_BYTES zl) (\<lambda>bytes.
     Option.bind (memmove zl p0 p (bytes - p - 1)) (\<lambda>zl.
     Option.bind (ZIPLIST_BYTES zl) (\<lambda>bytes.
     ziplistResize junk zl (int bytes - int (length D) + nd))))))
    = Some (part (10 + length X + tail_off (e' # es)) c X (e' # es))"
proof -
  define P where "P = payload v @ flat es"
  define f where "f = prev_field plen large"
  define pb where "pb = length (prev_bytes q)"
  define L where "L = length (X @ D) + length (flat (e # es)) + 11"
  define t where "t = 10 + length X + length D + tail_off (e # es)"
  have pb: "zipPrevEncodeLength_size q = pb" "pb = (if ZIP_BIGLEN \<le> q then 5 else 1)"
    by (simp_all add: pb_def prev_size prev_bytes_field length_prev_field)
  have lf: "length f = (if large then 5 else 1)" by (simp add: f_def length_prev_field)
  define k where "k = length D + length f - pb"
  have k: "k + pb = length D + length f" "int k = int (length D) - nd" using nd pb lf by (auto simp: k_def)
  define D' where "D' = take k (D @ f)"
  define u where "u = drop k (D @ f)"
  have D': "length D' = k" "length u = pb" "D @ f = D' @ u" using k by (simp_all add: D'_def u_def del: take_append drop_append)
  have p': "p = 10 + length (X @ D')" using p k(2) D'(1) by simp
  have le': "length (flat (e' # es)) = pb + length P" "entry_bytes e' @ flat es = prev_bytes q @ P"
    by (simp_all add: e' P_def entry_bytes_def pb(2) length_prev_field prev_bytes_field)
  have le: "length (flat (e # es)) = length f + length P" "entry_bytes e @ flat es = f @ P"
    by (simp_all add: e P_def entry_bytes_def f_def)
  have L: "L = length (X @ D') + length (flat (e' # es)) + 11" using k(1) D'(1) le le' by (simp add: L_def)
  have oke: "ent_ok e'" using ok(1) q by (auto simp: e e' ent_ok_def prev_ok_def)
  have w: "zipPrevEncodeLength zl p q = Some (part t c (X @ D') (e' # es), pb)"
  proof -
    have "zl = (hdr L t c @ X @ D') @ u @ P @ zl_end"
      using D'(3) le(2) by (simp add: zl part_def L_def t_def)
    then show ?thesis using write_over [of u "prev_bytes q" "hdr L t c @ X @ D'" "P @ zl_end"] D'(2) p' L le'(2)
      by (simp add: zipPrevEncodeLength_def part_def pb_def)
  qed
  define t' where "t' = 10 + length X + tail_off (e' # es)"
  have "int (tail_off (e' # es)) = int (tail_off (e # es)) + (if es = [] then 0 else nd)"
    using tail_off_next [of q "ZIP_BIGLEN \<le> q" v es plen large] nd(1) pb by (simp add: e e')
  then have t': "int t' = int t + - int (length D) + (if es = [] then 0 else nd)" by (simp add: t'_def t_def)
  have "t < 2 ^ 32" using size tail_off_le [of "e # es"] by (simp add: t_def)
  then have tb: "t < 2 ^ 32" "0 \<le> int t + - int (length D)" "int t + - int (length D) < 2 ^ 32" by (simp_all add: t_def)
  note mt = move_tail [OF oke ok(2) tb t', of c "X @ D'", folded p', unfolded add_uminus_conv_diff]
  define S where "S = flat (e' # es)"
  define y where "y = part t' c (X @ D') (e' # es)"
  have L32: "L < 2 ^ 32" using size by (simp add: L_def)
  have yS: "y = (hdr L t' c @ X @ D') @ S @ zl_end" by (simp add: y_def part_def S_def L)
  have by1: "ZIPLIST_BYTES y = Some L" using L32 by (simp add: yS)
  define B where "B = D' @ S @ zl_end"
  obtain r R where B: "drop (length S) B = r # R" by (cases "drop (length S) B") (simp_all add: B_def zl_end_def)
  have mv: "memmove y p0 p (L - p - 1) = Some (hdr L t' c @ (X @ S) @ r # R)"
  proof -
    have "memmove y (length (hdr L t' c @ X)) (length (hdr L t' c @ X @ D')) (length S)
        = Some ((hdr L t' c @ X) @ S @ drop (length S) B)"
      by (rule memmove_to [where x = "take (length S) B"]) (simp_all add: yS B_def del: take_append drop_append)
    moreover have "L - p - 1 = length S" using L p' by (simp add: S_def)
    ultimately show ?thesis using p0 p' unfolding B by simp
  qed
  have rs: "ziplistResize junk (hdr L t' c @ (X @ S) @ r # R) (int L - int (length D) + nd)
      = Some (part t' c X (e' # es))"
    using resize_shrink [of "X @ S" "int L - int (length D) + nd" junk L t' c r R] L L32 D'(1) k(2)
    by (simp add: part_def S_def add.assoc)
  have by2: "ZIPLIST_BYTES (hdr L t' c @ (X @ S) @ r # R) = Some L" using L32 by simp
  show ?thesis
    by (simp only: w prod.case Option.bind.bind_lunit mt y_def [symmetric] by1 mv by2 rs) (simp add: t'_def)
qed

lemma delete_mid:
  assumes "zipEntry zl p0 = Some first" "prevrawlen first = q" "delete_skip num zl p0 0 = Some (p, deleted)"
    "p - p0 = totlen" "0 < totlen" "byte_at zl p = Some b" "b \<noteq> ZIP_END" "zipPrevLenByteDiff zl p q = Some nd"
  shows "ziplistDelete_at junk zl p0 num = Option.bind
    (let p = nat (int p - nd) in Option.bind (zipPrevEncodeLength zl p q) (\<lambda>(zl, _).
     Option.bind (Option.bind (ZIPLIST_TAIL_OFFSET zl) (\<lambda>toff.
       Option.bind (set_tail_offset zl (int toff - int totlen)) (\<lambda>zl.
       Option.bind (zipEntry zl p) (\<lambda>tail.
       Option.bind (byte_at zl (p + headersize tail + e_len tail)) (\<lambda>b.
       if b \<noteq> ZIP_END then
        Option.bind (ZIPLIST_TAIL_OFFSET zl) (\<lambda>toff. set_tail_offset zl (int toff + nd)) else Some zl))))) (\<lambda>zl.
     Option.bind (ZIPLIST_BYTES zl) (\<lambda>bytes.
     Option.bind (memmove zl p0 p (bytes - p - 1)) (\<lambda>zl.
     Option.bind (ZIPLIST_BYTES zl) (\<lambda>bytes.
     ziplistResize junk zl (int bytes - int totlen + nd)))))))
    (\<lambda>zl. Option.bind (ZIPLIST_INCR_LENGTH zl (- int deleted)) (\<lambda>zl.
     if nd \<noteq> 0 then ziplistCascadeUpdate junk zl p0 else Some zl))"
  unfolding ziplistDelete_at_def assms(1,3) Option.bind.bind_lunit prod.case Let_def assms(4)
  using assms(5,7)
  by (simp only: assms(2,6,8) Option.bind.bind_lunit case_prod_unfold fst_conv snd_conv bind_assoc if_True simp_thms
      less_numeral_extra(3) neq0_conv [symmetric] if_False)

lemma delete_tail:
  assumes "zipEntry zl p0 = Some first" "prevrawlen first = q" "delete_skip num zl p0 0 = Some (p, deleted)"
    "p - p0 = totlen" "0 < totlen" "byte_at zl p = Some ZIP_END"
  shows "ziplistDelete_at junk zl p0 num = Option.bind (set_tail_offset zl (int p0 - int q)) (\<lambda>zl.
     Option.bind (ZIPLIST_BYTES zl) (\<lambda>bytes.
     Option.bind (ziplistResize junk zl (int bytes - int totlen)) (\<lambda>zl. ZIPLIST_INCR_LENGTH zl (- int deleted))))"
  unfolding ziplistDelete_at_def assms(1,3) Option.bind.bind_lunit prod.case Let_def assms(4)
  using assms(5) by (simp add: assms(2,6))

text \<open>Deletion on lists of entries.\<close>

definition zl_delete :: "zent list \<Rightarrow> nat \<Rightarrow> nat \<Rightarrow> zent list" where
  "zl_delete es i n = take i es @ next_fixed (prev_len es i) (drop (i + n) es)"

lemma vals_zl_delete: "map ent_val (zl_delete es i n) = take i (map ent_val es) @ drop (i + n) (map ent_val es)"
  by (simp add: zl_delete_def take_map drop_map)

lemma length_zl_delete: "i \<le> length es \<Longrightarrow> length (zl_delete es i n) = length es - min n (length es - i)"
  by (simp add: zl_delete_def min_def)

lemma entries_split:
  assumes "entries_ok 0 es" "i \<le> length es"
  shows "entries_ok 0 (take i es)" "entries_ok (prev_len es i) (drop i es)"
proof -
  have "(if take i es = [] then 0 else length (entry_bytes (last (take i es)))) = prev_len es i"
    using assms(2) by (cases i) (auto simp: prev_len_def take_Suc_conv_app_nth)
  then show "entries_ok 0 (take i es)" "entries_ok (prev_len es i) (drop i es)"
    using assms(1) entries_ok_append [of 0 "take i es" "drop i es"] by simp_all
qed

lemma prev_len_le: "i \<le> length es \<Longrightarrow> prev_len es i \<le> length (flat (take i es))"
  by (cases i) (auto simp: prev_len_def take_Suc_conv_app_nth)

lemma tail_off_prev: "i \<le> length es \<Longrightarrow> tail_off (take i es) = length (flat (take i es)) - prev_len es i"
  by (cases i) (auto simp: prev_len_def take_Suc_conv_app_nth)

lemma entries_zl_delete:
  assumes "entries_ok 0 es" "i \<le> length es" "length (flat (zl_delete es i n)) < 2 ^ 32"
  shows "entries_ok 0 (zl_delete es i n)"
proof -
  have "\<exists>q. entries_ok q (drop (i + n) es)"
    using entries_split [OF assms(1), of "i + n"] by (cases "i + n \<le> length es") auto
  moreover have "prev_len es i < 2 ^ 32" using prev_len_le [OF assms(2)] assms(3) by (simp add: zl_delete_def)
  moreover have "(if take i es = [] then 0 else length (entry_bytes (last (take i es)))) = prev_len es i"
    using assms(2) by (cases i) (auto simp: prev_len_def take_Suc_conv_app_nth)
  ultimately show ?thesis using entries_split [OF assms(1,2)] assms(3)
    unfolding zl_delete_def entries_ok_append by (auto intro!: entries_next_fixed)
qed

lemma first_entry:
  assumes "zl_rep zl es" "i < length es"
  obtains e where "zipEntry zl (off es i) = Some e" "prevrawlen e = prev_len es i"
proof -
  obtain a b where s: "zl = a @ entry_bytes (es ! i) @ b" "length a = off es i" "ent_ok (es ! i)"
    "fst (es ! i) = prev_len es i"
    using rep_split [OF assms] unfolding prev_len_def by metis
  obtain plen large v where e: "es ! i = (plen, large, v)" by (rule ent_cases)
  show thesis using that entry_reads(6) [OF s(3) [unfolded e] s(1) [unfolded e]] s(2,4) e by auto
qed

lemma large_field: "ent_ok (plen, large, v) \<Longrightarrow> ZIP_BIGLEN \<le> plen \<Longrightarrow> 5 \<le> length (entry_bytes (plen, large, v))"
  by (auto simp: length_entry ent_ok_def prev_ok_def)

lemma delete_suffix:
  assumes rep: "zl_rep zl es" and i: "i < length es" and n: "length es \<le> i + n"
    and c: "c \<le> 65535" "zl = zl_block c es" "c < 65535 \<longrightarrow> c = length es" "length (flat es) + 11 < 2 ^ 32"
    and k: "k = length es - i"
  shows "ziplistDelete_at junk zl (off es i) n
    = Some (zl_block (if c < 65535 then nat (int c + - int k) else c) (take i es))"
proof -
  define X where "X = flat (take i es)"
  define D where "D = flat (drop i es)"
  define q where "q = prev_len es i"
  have fl: "flat es = X @ D" unfolding X_def D_def flat_simps [symmetric] by simp
  obtain first where fe: "zipEntry zl (off es i) = Some first" "prevrawlen first = q"
    using first_entry [OF rep i] unfolding q_def .
  have sk: "delete_skip n zl (off es i) 0 = Some (off es (length es), k)"
    using delete_skip_ok [OF rep, of i n 0] i n by (simp add: k min_absorb2)
  have oi: "off es i = 10 + length X" by (simp add: off_def X_def)
  have tot: "off es (length es) - off es i = length D" "0 < length D"
    using length_entry_pos [of "es ! i"] i by (simp_all add: oi off_end fl D_def Cons_nth_drop_Suc [symmetric])
  have b: "byte_at zl (off es (length es)) = Some ZIP_END" by (rule rep_end [OF rep])
  have qX: "q \<le> length X" using prev_len_le [of i es] i by (simp add: q_def X_def)
  obtain r R where rR: "D @ zl_end = r # R" by (cases "D @ zl_end") (simp_all add: zl_end_def)
  define L where "L = length X + length D + 11"
  define t where "t = 10 + tail_off es"
  define t' where "t' = 10 + length X - q"
  have zl: "zl = hdr L t c @ X @ r # R" unfolding c(2) zl_block_def by (simp add: fl rR L_def t_def)
  have st: "set_tail_offset zl (int (10 + length X) - int q) = Some (hdr L t' c @ X @ r # R)"
    using set_tail_hdr [of L t c "X @ r # R" t'] qX by (simp add: zl t'_def of_nat_diff)
  have bt: "ZIPLIST_BYTES (hdr L t' c @ X @ r # R) = Some L" using c(4) by (simp add: L_def fl)
  have rs: "ziplistResize junk (hdr L t' c @ X @ r # R) (int L - int (length D)) = Some (part t' c X [])"
    using resize_shrink [of X "int L - int (length D)" junk L t' c r R] c(4) by (simp add: L_def part_def fl)
  have bl: "part t' c' X [] = zl_block c' (take i es)" for c'
    using tail_off_prev [of i es] i qX by (simp add: part_def zl_block_def X_def q_def t'_def)
  have "c < 65535 \<longrightarrow> 0 \<le> int c + - int k" using c(3) k i by auto
  from incr_part [OF c(1) this] show ?thesis unfolding delete_tail [OF fe sk tot b] unfolding oi bl [symmetric]
    by (simp only: st bt rs Option.bind.bind_lunit)
qed

lemma delete_inner:
  assumes rep: "zl_rep zl es" and n: "0 < n" "i + n < length es"
    and c: "c \<le> 65535" "zl = zl_block c es" "c < 65535 \<longrightarrow> c = length es" "length (flat es) + 11 < 2 ^ 32" "entries_ok 0 es"
    and size: "length (flat (zl_delete es i n)) + 11 < 2 ^ 32"
  shows "ziplistDelete_at junk zl (off es i) n
    = Some (zl_block (if c < 65535 then nat (int c + - int n) else c) (zl_delete es i n))"
proof -
  define X where "X = flat (take i es)"
  define ds where "ds = take n (drop i es)"
  define D where "D = flat ds"
  define q where "q = prev_len es i"
  define e where "e = es ! (i + n)"
  define ys where "ys = drop (Suc (i + n)) es"
  have i: "i < length es" using n by simp
  have dr: "drop (i + n) es = e # ys" using n(2) by (simp add: e_def ys_def Cons_nth_drop_Suc)
  have sp: "drop i es = ds @ e # ys" unfolding ds_def dr [symmetric] by (metis add.commute append_take_drop_id drop_drop)
  have es: "es = (take i es @ ds) @ e # ys" unfolding append.assoc sp [symmetric] by simp
  have fl: "flat es = X @ D @ flat (e # ys)" using arg_cong [OF es, of flat] by (simp add: X_def D_def)
  have tl: "tail_off es = length X + length D + tail_off (e # ys)"
    using arg_cong [OF es, of tail_off] tail_off_append [of "e # ys" "take i es @ ds"] by (simp add: X_def D_def)
  have ok: "entries_ok q (ds @ e # ys)" using entries_split(2) [OF c(5), of i] i by (simp add: sp q_def)
  obtain plen large v where e: "e = (plen, large, v)" by (rule ent_cases)
  define e' where "e' = (q, ZIP_BIGLEN \<le> q, v)"
  define nd where "nd = int (zipPrevEncodeLength_size q) - (if large then 5 else 1)"
  have oke: "ent_ok e" "entries_ok (length (entry_bytes e)) ys" using ok by (simp_all add: entries_ok_append)
  have zp: "zl = part (10 + length X + length D + tail_off (e # ys)) c (X @ D) (e # ys)"
    by (simp add: c(2) zl_block_def part_def fl tl add.assoc)
  have oi: "off es i = 10 + length X" by (simp add: off_def X_def)
  have "take (i + n) es = take i es @ ds" by (simp add: ds_def take_add)
  then have oj: "off es (i + n) = 10 + length X + length D" by (simp add: off_def X_def D_def)
  obtain d ds' where ds: "ds = d # ds'" using n i by (cases ds) (auto simp: ds_def)
  have tot: "off es (i + n) - off es i = length D" "0 < length D"
    using length_entry_pos [of d] by (simp_all add: oi oj D_def ds)
  obtain first where fe: "zipEntry zl (off es i) = Some first" "prevrawlen first = q"
    using first_entry [OF rep i] unfolding q_def .
  have sk: "delete_skip n zl (off es i) 0 = Some (off es (i + n), n)"
    using delete_skip_ok [OF rep, of i n 0] n i by (simp add: min_absorb1)
  obtain b where b: "byte_at zl (off es (i + n)) = Some b" "b \<noteq> ZIP_END" using rep_read(1) [OF rep n(2)] by blast
  have diff: "zipPrevLenByteDiff zl (off es (i + n)) q = Some nd"
    using part_entry(2) [OF oke(1) [unfolded e], of _ c "X @ D" ys]
    unfolding zp e by (simp add: zipPrevLenByteDiff_def nd_def oj add.assoc)
  have q32: "q < 2 ^ 32" using prev_len_le [of i es] i c(4) by (simp add: q_def fl X_def)
  have ndD: "nd \<le> int (length D)"
  proof -
    obtain pd ld vd where d: "d = (pd, ld, vd)" by (rule ent_cases)
    have "ent_ok d" "pd = q" using ok by (auto simp: ds d)
    then show ?thesis using large_field [of pd ld vd] by (auto simp: nd_def zipPrevEncodeLength_size_def D_def ds d)
  qed
  have big: "length (X @ D) + length (flat (e # ys)) + 11 < 2 ^ 32" using c(4) fl by simp
  have fx: "zl_delete es i n = take i es @ e' # fix_prev (length (entry_bytes e')) ys"
    by (simp add: zl_delete_def dr next_fixed_def e e'_def Let_def q_def)
  define t' where "t' = 10 + length X + tail_off (e' # ys)"
  define c' where "c' = (if c < 65535 then nat (int c + - int n) else c)"
  have pos: "c < 65535 \<longrightarrow> 0 \<le> int c + - int n" using c(3) n by auto
  have "ziplistDelete_at junk zl (off es i) n = Option.bind (ZIPLIST_INCR_LENGTH (part t' c X (e' # ys)) (- int n)) (\<lambda>zl.
     if nd \<noteq> 0 then ziplistCascadeUpdate junk zl (off es i) else Some zl)"
    unfolding delete_mid [OF fe sk tot b diff] Let_def unfolding oj oi
    by (simp only: delete_move [OF e oke q32 nd_def ndD zp big refl refl e'_def, of junk] Option.bind.bind_lunit t'_def)
  also have "\<dots> = (if nd \<noteq> 0 then ziplistCascadeUpdate junk (part t' c' X (e' # ys)) (off es i) else Some (part t' c' X (e' # ys)))"
    using incr_part [OF c(1) pos] by (simp only: c'_def Option.bind.bind_lunit)
  also have "\<dots> = Some (part (10 + length X + tail_off (next_fixed q (e # ys))) c' X (next_fixed q (e # ys)))"
    unfolding oi t'_def
    by (rule cascade_if [OF e e'_def _ oke(2) nd_def])
      (use size oke(1) q32 in \<open>auto simp: zl_delete_def dr X_def q_def e e'_def ent_ok_def prev_ok_def\<close>)
  also have "\<dots> = Some (zl_block c' (zl_delete es i n))"
    using tail_off_append [of "next_fixed q (e # ys)" "take i es"] length_next_fixed [of q "e # ys"]
    by (cases "next_fixed q (e # ys)") (simp_all add: zl_delete_def dr q_def [symmetric] zl_block_def part_def X_def add.assoc)
  finally show ?thesis by (simp add: c'_def)
qed

lemma delete_ok:
  assumes rep: "zl_rep zl es" and i: "i < length es" and n: "0 < n"
    and size: "length (flat (zl_delete es i n)) + 11 < 2 ^ 32"
  shows "\<exists>zl'. ziplistDelete_at junk zl (off es i) n = Some zl' \<and> zl_rep zl' (zl_delete es i n)"
proof -
  obtain c where c: "c \<le> 65535" "zl = zl_block c es" "c < 65535 \<longrightarrow> c = length es"
    "length (flat es) + 11 < 2 ^ 32" "entries_ok 0 es" using rep unfolding zl_rep_def by blast
  define k where "k = min n (length es - i)"
  define c' where "c' = (if c < 65535 then nat (int c + - int k) else c)"
  have "ziplistDelete_at junk zl (off es i) n = Some (zl_block c' (zl_delete es i n))"
  proof (cases "i + n < length es")
    case True
    then show ?thesis using delete_inner [OF rep n True c size] by (simp add: c'_def k_def min_absorb1)
  next
    case False
    then show ?thesis using delete_suffix [OF rep i _ c(1-4) refl, of n junk]
      by (simp add: c'_def k_def min_absorb2 zl_delete_def next_fixed_def)
  qed
  moreover have "c' \<le> 65535 \<and> (c' < 65535 \<longrightarrow> c' = length (zl_delete es i n))"
    using c(1,3) i length_zl_delete [of i es n] by (auto simp: c'_def k_def)
  ultimately show ?thesis using entries_zl_delete [OF c(5), of i n] i size
    by (auto simp: zl_rep_def)
qed

section \<open>Properties\<close>

lemma new_ok: "\<exists>zl. ziplistNew junk = Some zl \<and> zl_rep zl []"
proof -
  have [simp]: "[0..<11] = [0, 1, 2, 3, 4, 5, 6, 7, 8, 9, 10]" by (simp add: upt_rec)
  have "ziplistNew junk = Some (zl_block 0 [])"
    by (simp add: ziplistNew_def Let_def store_def set_tail_offset_def write_bytes_def zl_block_def hdr_def zl_end_def
        numeral_eq_Suc)
  then show ?thesis by (simp add: zl_rep_def) (metis le0)
qed

text \<open>
  C10: a new ziplist is empty. Inserting a text at the offset of an entry, or pushing it at
  either end, yields a well-formed block (all length fields, the total size, the tail offset and
  the counter are right again, after any cascade of updates) whose values are the old ones with
  the new one at that place, stored as an integer when the text is one; no access leaves the
  block. The place must not hold an entry with a long length field when the new entry is
  shorter than four bytes, and the result must stay below the 32-bit size.
\<close>

theorem ziplist_insert_correct:
  assumes "zl_rep zl es" "i \<le> length es" "length s < 2 ^ 32" "insert_safe es i s"
    and "length (flat (zl_insert es i s)) + 15 < 2 ^ 32"
  shows "(\<exists>new. ziplistNew junk = Some new \<and> zl_rep new [])
    \<and> (\<exists>zl'. ziplistInsert junk zl (off es i) s = Some zl' \<and> zl_rep zl' (zl_insert es i s)
         \<and> (i = 0 \<longrightarrow> ziplistPush junk zl s True = Some zl')
         \<and> (i = length es \<longrightarrow> ziplistPush junk zl s False = Some zl'))
    \<and> map ent_val (zl_insert es i s) = take i (map ent_val es) @ zval_of s # drop i (map ent_val es)
    \<and> zval_text (zval_of s) = s"
proof -
  obtain zl' where zl': "ziplistInsert_at junk zl (off es i) s = Some zl'" "zl_rep zl' (zl_insert es i s)"
    using insert_ok [OF assms] by blast
  have "ZIPLIST_BYTES zl = Some (length (flat es) + 11)" using assms(1) by (elim zl_repE) simp
  then have "i = length es \<longrightarrow> ziplistPush junk zl s False = Some zl'"
    using zl'(1) by (auto simp: ziplistPush_def off_end)
  moreover have "i = 0 \<longrightarrow> ziplistPush junk zl s True = Some zl'" using zl'(1) by (auto simp: ziplistPush_def off_0)
  ultimately show ?thesis using new_ok zl' vals_zl_insert [of es i s] by (auto simp: ziplistInsert_def)
qed

lemma zl_index_Some: "zl_index es k = Some i \<Longrightarrow> i < length es"
  by (auto simp: zl_index_def Let_def split: if_splits)

text \<open>
  C11: \<open>ziplistDelete\<close> removes the entry it is given and leaves the pointer at its successor;
  \<open>ziplistDeleteRange\<close> removes \<open>num\<close> entries from an index on (fewer at the end of the list, none
  for an index outside). The block is well formed again and holds the other values in order.
\<close>

theorem ziplist_delete_correct:
  assumes "zl_rep zl es" "i < length es" "0 < n" "length (flat (zl_delete es i n)) + 11 < 2 ^ 32"
  shows "(n = 1 \<longrightarrow> (\<exists>zl'. ziplistDelete junk zl (off es i) = Some (zl', off (zl_delete es i 1) i) \<and> zl_rep zl' (zl_delete es i 1)))
    \<and> (zl_index es k = Some i \<longrightarrow> (\<exists>zl'. ziplistDeleteRange junk zl k n = Some zl' \<and> zl_rep zl' (zl_delete es i n)))
    \<and> (\<forall>j. zl_index es j = None \<longrightarrow> ziplistDeleteRange junk zl j n = Some zl)
    \<and> map ent_val (zl_delete es i n) = take i (map ent_val es) @ drop (i + n) (map ent_val es)"
proof -
  obtain zl' where zl': "ziplistDelete_at junk zl (off es i) n = Some zl'" "zl_rep zl' (zl_delete es i n)"
    using delete_ok [OF assms(1-4)] by blast
  have "off (zl_delete es i 1) i = off es i" using assms(2) by (simp add: off_def zl_delete_def)
  then show ?thesis using zl' index_ok [OF assms(1)] vals_zl_delete [of es i n]
    by (auto simp: ziplistDelete_def ziplistDeleteRange_def)
qed

section \<open>The insertion that leaves the block\<close>

text \<open>
  An entry keeps the long form of its length field when its predecessor shrinks. An insertion
  of a two-byte entry in front of it shortens the block by two bytes before the entries are
  moved, and the move then reads past the end of the block.
\<close>

lemma shift_outside:
  assumes e: "e = (plen, True, v)" and ok: "ent_ok e" and zl: "zl = part t c X (e # es)"
    and cur: "curlen = length X + length (flat (e # es)) + 11" "curlen < 2 ^ 32"
  shows "shift_part junk zl (10 + length X) curlen 2 (- 4) = None"
proof -
  define f where "f = le_bytes 4 (int plen) @ payload v @ flat es"
  have ef: "flat (e # es) = 254 # f" by (simp add: e entry_bytes_def prev_field_def f_def)
  have lf: "3 \<le> length f" by (simp add: f_def)
  define g where "g = take (length f - 2) f"
  obtain a b where ab: "drop (length f - 2) f = [a, b]"
  proof -
    have "length (drop (length f - 2) f) = Suc (Suc 0)" using lf by simp
    then show thesis unfolding length_Suc_conv length_0_conv using that by blast
  qed
  have f: "f = g @ [a, b]" unfolding g_def ab [symmetric] by (rule append_take_drop_id [symmetric])
  define M where "M = hdr (length (X @ 254 # g) + 11) t c @ (X @ 254 # g) @ zl_end"
  have c2: "curlen = length X + length g + 14" using cur(1) f unfolding ef by simp
  have "zl = hdr curlen t c @ (X @ 254 # g) @ a # b # zl_end" unfolding zl part_def cur(1) ef by (simp add: f)
  then have "ziplistResize junk zl (int curlen + int 2 + - 4) = Some M"
    unfolding M_def by (simp only:) (rule resize_shrink, use c2 cur(2) in simp_all)
  moreover have "byte_at M (10 + length X) = Some ZIP_BIGLEN"
    using byte_at_head [of "hdr (length (X @ 254 # g) + 11) t c @ X" 254 "g @ zl_end"] by (simp add: M_def)
  moreover have "read_bytes M (nat (int (10 + length X) - - 4)) (nat (int curlen - int (10 + length X) - 1 + - 4)) = None"
  proof -
    have "nat (int (10 + length X) - - 4) + nat (int curlen - int (10 + length X) - 1 + - 4) = curlen - 1"
      using c2 lf arg_cong [OF f, of length] by simp
    then show ?thesis using c2 by (simp add: read_bytes_def M_def)
  qed
  ultimately show ?thesis by (simp add: shift_part_def memmove_def)
qed

lemma insert_outside:
  assumes rep: "zl_rep zl es" and i: "i < length es" "fst (snd (es ! i))"
    and r: "length (entry_bytes (new_entry (prev_len es i) s)) = 2"
  shows "ziplistInsert_at junk zl (off es i) s = None"
proof -
  obtain c where c: "zl = hdr (length (flat es) + 11) (10 + tail_off es) c @ flat es @ zl_end"
    "entries_ok 0 es" "length (flat es) + 11 < 2 ^ 32" using rep by (blast elim: zl_repE)
  define X where "X = flat (take i es)"
  define ys where "ys = drop (Suc i) es"
  obtain plen v where e: "es ! i = (plen, True, v)" using i(2) by (cases "es ! i") auto
  have es: "es = take i es @ es ! i # ys" using id_take_nth_drop [OF i(1)] by (simp add: ys_def)
  have fl: "flat es = X @ flat (es ! i # ys)" using arg_cong [OF es, of flat] by (simp add: X_def)
  have ok: "ent_ok (es ! i)" using c(2) es entries_ok_append [of 0 "take i es" "es ! i # ys"] by simp
  have zp: "zl = part (10 + tail_off es) c X (es ! i # ys)" by (simp add: c(1) fl part_def add.assoc)
  have o: "off es i = 10 + length X" by (simp add: off_def X_def)
  obtain b where b: "byte_at zl (off es i) = Some b" "b \<noteq> ZIP_END \<longleftrightarrow> i < length es"
    "(if b \<noteq> ZIP_END then map_option snd (ZIP_DECODE_PREVLEN zl (off es i))
      else Option.bind (ZIPLIST_TAIL_OFFSET zl) (\<lambda>ptail.
           Option.bind (byte_at zl ptail) (\<lambda>t.
           if t \<noteq> ZIP_END then zipRawEntryLength zl ptail else Some 0))) = Some (prev_len es i)"
    by (rule insert_prevlen [OF rep, of i]) (use i(1) in simp)
  obtain val enc k where code: "insert_code s = (val, enc, k)" by (cases "insert_code s")
  note rr = new_entry_length [OF code, of "prev_len es i", unfolded r]
  have "ZIP_DECODE_PREVLENSIZE zl (off es i) = Some 5"
    using part_entry(2) [OF ok [unfolded e], of _ c X ys] by (simp add: zp e o)
  then have nd: "(if b \<noteq> ZIP_END then zipPrevLenByteDiff zl (off es i) 2 else Some 0) = Some (- 4)"
    using b(2) i(1) by (simp add: zipPrevLenByteDiff_def zipPrevEncodeLength_size_def)
  have by0: "ZIPLIST_BYTES zl = Some (length (flat es) + 11)" using c(1,3) by simp
  have "shift_part junk zl (off es i) (length (flat es) + 11) 2 (- 4) = None"
    unfolding o by (rule shift_outside [OF e ok zp]) (use c(3) fl in simp_all)
  then show ?thesis unfolding insert_parts [OF by0 b(1,3) code rr nd] by simp
qed

text \<open>The list of the property below, and its entries.\<close>

definition outside_example :: "(nat \<Rightarrow> byte) \<Rightarrow> mem option" where
  "outside_example junk = do {
     zl \<leftarrow> ziplistNew junk;
     zl \<leftarrow> ziplistPush junk zl (replicate 252 97) False;
     zl \<leftarrow> ziplistPush junk zl (replicate 250 98) False;
     zl \<leftarrow> ziplistPush junk zl (replicate 32 99) False;
     (zl, p) \<leftarrow> ziplistDelete junk zl ZIPLIST_HEADER_SIZE;
     Some zl }"

lemma push_tail_ok:
  assumes "zl_rep zl es" "length s < 2 ^ 32" "length (flat (zl_insert es (length es) s)) + 15 < 2 ^ 32"
  shows "\<exists>zl'. ziplistPush junk zl s False = Some zl' \<and> zl_rep zl' (zl_insert es (length es) s)"
proof -
  have "ZIPLIST_BYTES zl = Some (length (flat es) + 11)" using assms(1) by (elim zl_repE) simp
  then show ?thesis using insert_ok [OF assms(1) le_refl assms(2) _ assms(3), of junk]
    by (auto simp: ziplistPush_def off_end insert_safe_def)
qed

lemma long_text: "32 \<le> length s \<Longrightarrow> zval_of s = ZStr s"
  by (simp add: zval_of_def zipTryEncoding_def)

lemma outside_example_rep:
  "\<exists>zl. outside_example junk = Some zl \<and> zl_rep zl [(0, False, ZStr (replicate 250 98)), (253, True, ZStr (replicate 32 99))]"
proof -
  let ?a = "(0, False, ZStr (replicate 252 97)) :: zent" and ?b = "(255, True, ZStr (replicate 250 98)) :: zent"
  let ?c = "(257, True, ZStr (replicate 32 99)) :: zent"
  note sm = zl_insert_def new_entry_def long_text next_fixed_def prev_len_def length_entry length_bytes_len
  have ins: "zl_insert [] 0 (replicate 252 97) = [?a]" "zl_insert [?a] 1 (replicate 250 98) = [?a, ?b]"
    "zl_insert [?a, ?b] (Suc (Suc 0)) (replicate 32 99) = [?a, ?b, ?c]"
    by (simp_all add: sm)
  obtain z0 where z0: "ziplistNew junk = Some z0" "zl_rep z0 []" using new_ok by blast
  obtain z1 where z1: "ziplistPush junk z0 (replicate 252 97) False = Some z1" "zl_rep z1 [?a]"
    using push_tail_ok [OF z0(2), of "replicate 252 97" junk] ins(1) by (auto simp: length_entry length_bytes_len)
  obtain z2 where z2: "ziplistPush junk z1 (replicate 250 98) False = Some z2" "zl_rep z2 [?a, ?b]"
    using push_tail_ok [OF z1(2), of "replicate 250 98" junk] ins(2) by (auto simp: length_entry length_bytes_len)
  obtain z3 where z3: "ziplistPush junk z2 (replicate 32 99) False = Some z3" "zl_rep z3 [?a, ?b, ?c]"
    using push_tail_ok [OF z2(2), of "replicate 32 99" junk] ins(3) by (auto simp: length_entry length_bytes_len)
  have del: "zl_delete [?a, ?b, ?c] 0 1 = [(0, False, ZStr (replicate 250 98)), (253, True, ZStr (replicate 32 99))]"
    by (simp add: zl_delete_def next_fixed_def prev_len_def length_entry length_bytes_len)
  obtain z4 where "ziplistDelete_at junk z3 (off [?a, ?b, ?c] 0) 1 = Some z4" "zl_rep z4 (zl_delete [?a, ?b, ?c] 0 1)"
    using delete_ok [OF z3(2), of 0 1 junk] del by (auto simp: length_entry length_bytes_len)
  then show ?thesis using z0(1) z1(1) z2(1) z3(1) del
    by (auto simp: outside_example_def ziplistDelete_def off_0)
qed

text \<open>
  C31: not every insertion stays within the block. The ziplist that results from pushing texts
  of 252, 250 and 32 bytes and deleting the first is well formed; inserting the text
  \<open>1\<close> in front of its second entry (at offset 263) shrinks the block to two bytes less before it
  moves the entries and reads beyond its end. The property also says that the block as such
  is fine: every entry reads back.
\<close>

theorem ziplist_insert_outside:
  "\<exists>zl. outside_example junk = Some zl
    \<and> ziplistGet zl (Some 10) = Some (Some (ZStr (replicate 250 98)))
    \<and> ziplistGet zl (Some 263) = Some (Some (ZStr (replicate 32 99)))
    \<and> ziplistInsert junk zl 263 [CH_1] = None"
proof -
  let ?es = "[(0, False, ZStr (replicate 250 98)), (253, True, ZStr (replicate 32 99))] :: zent list"
  obtain zl where zl: "outside_example junk = Some zl" "zl_rep zl ?es" using outside_example_rep by blast
  have o: "off ?es 0 = 10" "off ?es 1 = 263" by (simp_all add: off_def length_entry length_bytes_len)
  have "zval_of [CH_1] = ZInt 1" by (simp add: zval_of_def zipTryEncoding_def string2ll_def)
  then have "length (entry_bytes (new_entry (prev_len ?es 1) [CH_1])) = 2"
    by (simp add: new_entry_def prev_len_def length_entry length_bytes_len length_int_bytes zipIntSize_def int_encoding_def)
  then have "ziplistInsert_at junk zl 263 [CH_1] = None"
    using insert_outside [OF zl(2), of 1 "[CH_1]" junk] o by simp
  then show ?thesis using zl(1) rep_read(4) [OF zl(2), of 0] rep_read(4) [OF zl(2), of 1] o
    by (simp add: ziplistInsert_def)
qed

theorem ziplist_insert_correct_witness:
  "zl_rep (zl_block 2 two_entries) two_entries \<and> insert_safe two_entries 1 [CH_1]
    \<and> (\<exists>zl'. ziplistInsert (\<lambda>_. 0) (zl_block 2 two_entries) (off two_entries 1) [CH_1] = Some zl'
         \<and> zl_rep zl' (zl_insert two_entries 1 [CH_1]))"
proof -
  have v: "zval_of [CH_1] = ZInt 1" by (simp add: zval_of_def zipTryEncoding_def string2ll_def)
  have s: "insert_safe two_entries 1 [CH_1]" by (simp add: insert_safe_def two_entries_def)
  have "length (flat (zl_insert two_entries 1 [CH_1])) + 15 < 2 ^ 32"
    by (simp add: zl_insert_def two_entries_def new_entry_def prev_len_def v next_fixed_def length_entry length_bytes_len
        length_int_bytes zipIntSize_def int_encoding_def)
  from ziplist_insert_correct [OF two_entries_rep _ _ s this, of "\<lambda>_. 0"] show ?thesis
    using s two_entries_rep by (auto simp: two_entries_def)
qed

theorem ziplist_delete_correct_witness:
  "zl_rep (zl_block 2 two_entries) two_entries
    \<and> (\<exists>zl'. ziplistDeleteRange (\<lambda>_. 0) (zl_block 2 two_entries) (-2) 1 = Some zl' \<and> zl_rep zl' (zl_delete two_entries 0 1))"
proof -
  have i: "zl_index two_entries (-2) = Some 0" by (simp add: zl_index_def two_entries_def)
  have "length (flat (zl_delete two_entries 0 1)) + 11 < 2 ^ 32"
    by (simp add: zl_delete_def two_entries_def prev_len_def next_fixed_def length_entry length_int_bytes
        zipIntSize_def int_encoding_def)
  from ziplist_delete_correct [OF two_entries_rep _ _ this, of "\<lambda>_. 0" "-2"] show ?thesis
    using i two_entries_rep by (auto simp: two_entries_def)
qed

end
