(* ===== verification/Sds.thy ===== *)
theory Sds
  imports Util
begin

text \<open>
  Dynamic strings, \<^verbatim>\<open>sds.c\<close>: a header with the used and the free length of a buffer that
  holds the text, a terminating NUL and the free space. The operations work on the buffer;
  \<open>sds_text\<close> is the string a client sees and \<open>sds_wf\<close> the invariant. \<open>zmalloc\<close> aborts the
  process when memory is exhausted, so the branches for a null pointer are dead and left
  out; fresh memory is \<open>junk\<close>. A \<open>None\<close> is an access outside a buffer or a failed assertion.
\<close>

section \<open>The header and its operations\<close>

record sdshdr =
  sds_len :: nat
  sds_free :: nat
  sds_buf :: mem

abbreviation SDS_MAX_PREALLOC :: nat where "SDS_MAX_PREALLOC \<equiv> 1024 * 1024"

definition sdslen :: "sdshdr \<Rightarrow> nat" where "sdslen s = sds_len s"

definition sdsavail :: "sdshdr \<Rightarrow> nat" where "sdsavail s = sds_free s"

definition sdsnewlen :: "(nat \<Rightarrow> byte) \<Rightarrow> mem option \<Rightarrow> nat \<Rightarrow> sdshdr option" where
  "sdsnewlen junk init initlen = do {
     let buf = (case init of Some t \<Rightarrow> map junk [0..<initlen + 1] | None \<Rightarrow> replicate (initlen + 1) 0);
     buf \<leftarrow> (case init of
               Some t \<Rightarrow> if initlen \<noteq> 0 then do { bs \<leftarrow> read_bytes t 0 initlen; write_bytes buf 0 bs } else Some buf
             | None \<Rightarrow> Some buf);
     buf \<leftarrow> set_at buf initlen CH_NUL;
     Some \<lparr>sds_len = u32_of (int initlen), sds_free = 0, sds_buf = buf\<rparr> }"

text \<open>\<open>strlen\<close> of a C string; \<open>None\<close> when there is no terminator.\<close>

fun c_strlen :: "mem \<Rightarrow> nat option" where
  "c_strlen [] = None"
| "c_strlen (c # cs) = (if c = CH_NUL then Some 0 else map_option Suc (c_strlen cs))"

definition sdsempty :: "(nat \<Rightarrow> byte) \<Rightarrow> sdshdr option" where
  "sdsempty junk = sdsnewlen junk (Some [CH_NUL]) 0"

definition sdsnew :: "(nat \<Rightarrow> byte) \<Rightarrow> mem option \<Rightarrow> sdshdr option" where
  "sdsnew junk init = do {
     n \<leftarrow> (case init of None \<Rightarrow> Some 0 | Some t \<Rightarrow> c_strlen t);
     sdsnewlen junk init n }"

definition sdsdup :: "(nat \<Rightarrow> byte) \<Rightarrow> sdshdr \<Rightarrow> sdshdr option" where
  "sdsdup junk s = sdsnewlen junk (Some (sds_buf s)) (sdslen s)"

definition sdsupdatelen :: "sdshdr \<Rightarrow> sdshdr option" where
  "sdsupdatelen s = do {
     reallen \<leftarrow> c_strlen (sds_buf s);
     Some (s\<lparr>sds_free := u32_of (int (sds_free s) + (int (sds_len s) - int reallen)), sds_len := reallen\<rparr>) }"

definition sdsclear :: "sdshdr \<Rightarrow> sdshdr option" where
  "sdsclear s = do {
     buf \<leftarrow> set_at (sds_buf s) 0 CH_NUL;
     Some (s\<lparr>sds_free := u32_of (int (sds_free s) + int (sds_len s)), sds_len := 0, sds_buf := buf\<rparr>) }"

definition sdsMakeRoomFor :: "(nat \<Rightarrow> byte) \<Rightarrow> sdshdr \<Rightarrow> nat \<Rightarrow> sdshdr" where
  "sdsMakeRoomFor junk s addlen =
     (if sdsavail s \<ge> addlen then s
      else let len = sdslen s; newlen = len + addlen;
               newlen = (if newlen < SDS_MAX_PREALLOC then newlen * 2 else newlen + SDS_MAX_PREALLOC)
           in s\<lparr>sds_buf := zrealloc junk (sds_buf s) (newlen + 1),
                sds_free := u32_of (int newlen - int len)\<rparr>)"

definition sdsRemoveFreeSpace :: "(nat \<Rightarrow> byte) \<Rightarrow> sdshdr \<Rightarrow> sdshdr" where
  "sdsRemoveFreeSpace junk s =
     s\<lparr>sds_buf := zrealloc junk (sds_buf s) (sds_len s + 1), sds_free := 0\<rparr>"

text \<open>The header has 8 bytes.\<close>

definition sdsAllocSize :: "sdshdr \<Rightarrow> nat" where
  "sdsAllocSize s = 8 + sds_len s + sds_free s + 1"

definition sdsIncrLen :: "sdshdr \<Rightarrow> int \<Rightarrow> sdshdr option" where
  "sdsIncrLen s incr =
     (if incr \<ge> 0 \<and> \<not> int (sds_free s) \<ge> incr then None
      else if incr < 0 \<and> \<not> int (sds_len s) \<ge> - incr then None
      else do {
        let len = u32_of (int (sds_len s) + incr);
        let free = u32_of (int (sds_free s) - incr);
        buf \<leftarrow> set_at (sds_buf s) len CH_NUL;
        Some (s\<lparr>sds_len := len, sds_free := free, sds_buf := buf\<rparr>) })"

definition sdsgrowzero :: "(nat \<Rightarrow> byte) \<Rightarrow> sdshdr \<Rightarrow> nat \<Rightarrow> sdshdr option" where
  "sdsgrowzero junk s len =
     (let curlen = sds_len s in
      if len \<le> curlen then Some s
      else do {
        let s = sdsMakeRoomFor junk s (len - curlen);
        buf \<leftarrow> write_bytes (sds_buf s) curlen (replicate (len - curlen + 1) 0);
        let totlen = sds_len s + sds_free s;
        Some (s\<lparr>sds_buf := buf, sds_len := u32_of (int len), sds_free := u32_of (int totlen - int len)\<rparr>) })"

definition sdscatlen :: "(nat \<Rightarrow> byte) \<Rightarrow> sdshdr \<Rightarrow> mem \<Rightarrow> nat \<Rightarrow> sdshdr option" where
  "sdscatlen junk s t len = do {
     let curlen = sdslen s;
     let s = sdsMakeRoomFor junk s len;
     bs \<leftarrow> read_bytes t 0 len;
     buf \<leftarrow> write_bytes (sds_buf s) curlen bs;
     let free = u32_of (int (sds_free s) - int len);
     buf \<leftarrow> set_at buf (curlen + len) CH_NUL;
     Some (s\<lparr>sds_buf := buf, sds_len := u32_of (int curlen + int len), sds_free := free\<rparr>) }"

definition sdscat :: "(nat \<Rightarrow> byte) \<Rightarrow> sdshdr \<Rightarrow> mem \<Rightarrow> sdshdr option" where
  "sdscat junk s t = do { n \<leftarrow> c_strlen t; sdscatlen junk s t n }"

definition sdscatsds :: "(nat \<Rightarrow> byte) \<Rightarrow> sdshdr \<Rightarrow> sdshdr \<Rightarrow> sdshdr option" where
  "sdscatsds junk s t = sdscatlen junk s (sds_buf t) (sdslen t)"

definition sdscpylen :: "(nat \<Rightarrow> byte) \<Rightarrow> sdshdr \<Rightarrow> mem \<Rightarrow> nat \<Rightarrow> sdshdr option" where
  "sdscpylen junk s t len = do {
     let s = (if sds_free s + sds_len s < len then sdsMakeRoomFor junk s (len - sds_len s) else s);
     let totlen = sds_free s + sds_len s;
     bs \<leftarrow> read_bytes t 0 len;
     buf \<leftarrow> write_bytes (sds_buf s) 0 bs;
     buf \<leftarrow> set_at buf len CH_NUL;
     Some (s\<lparr>sds_buf := buf, sds_len := u32_of (int len), sds_free := u32_of (int totlen - int len)\<rparr>) }"

definition sdscpy :: "(nat \<Rightarrow> byte) \<Rightarrow> sdshdr \<Rightarrow> mem \<Rightarrow> sdshdr option" where
  "sdscpy junk s t = do { n \<leftarrow> c_strlen t; sdscpylen junk s t n }"

section \<open>Printing integers\<close>

abbreviation SDS_LLSTR_SIZE :: nat where "SDS_LLSTR_SIZE \<equiv> 21"

function digits_loop :: "mem \<Rightarrow> nat \<Rightarrow> nat \<Rightarrow> (mem \<times> nat) option" where
  "digits_loop s p v =
     (case set_at s p (48 + of_nat (v mod 10)) of
        None \<Rightarrow> None
      | Some s' \<Rightarrow> if v div 10 \<noteq> 0 then digits_loop s' (p + 1) (v div 10) else Some (s', p + 1))"
  by pat_completeness auto
termination by (relation "measure (\<lambda>(s, p, v). v)") auto

function reverse_loop :: "mem \<Rightarrow> nat \<Rightarrow> nat \<Rightarrow> mem option" where
  "reverse_loop m s p =
     (if s < p then
        (case swap_at m s p of None \<Rightarrow> None | Some m' \<Rightarrow> reverse_loop m' (s + 1) (p - 1))
      else Some m)"
  by pat_completeness auto
termination by (relation "measure (\<lambda>(m, s, p). p - s)") auto

declare digits_loop.simps [simp del] reverse_loop.simps [simp del]

definition sdsll2str :: "mem \<Rightarrow> int \<Rightarrow> (nat \<times> mem) option" where
  "sdsll2str s val = do {
     let v = nat ((if val < 0 then - val else val) mod 2 ^ 64);
     (s, p) \<leftarrow> digits_loop s 0 v;
     (s, p) \<leftarrow> (if val < 0 then do { s \<leftarrow> set_at s p CH_MINUS; Some (s, p + 1) } else Some (s, p));
     s \<leftarrow> set_at s p CH_NUL;
     s \<leftarrow> reverse_loop s 0 (p - 1);
     Some (p, s) }"

definition sdsull2str :: "mem \<Rightarrow> nat \<Rightarrow> (nat \<times> mem) option" where
  "sdsull2str s v = do {
     (s, p) \<leftarrow> digits_loop s 0 v;
     s \<leftarrow> set_at s p CH_NUL;
     s \<leftarrow> reverse_loop s 0 (p - 1);
     Some (p, s) }"

definition sdsfromlonglong :: "(nat \<Rightarrow> byte) \<Rightarrow> int \<Rightarrow> sdshdr option" where
  "sdsfromlonglong junk val = do {
     (len, buf) \<leftarrow> sdsll2str (map junk [0..<SDS_LLSTR_SIZE]) val;
     sdsnewlen junk (Some buf) len }"

section \<open>Formatting\<close>

text \<open>The variable arguments, by the type with which the format reads them.\<close>

datatype fmt_arg = ArgStr mem | ArgSds sdshdr | ArgInt int | ArgUInt nat

text \<open>
  Appending \<open>l\<close> bytes at position \<open>i\<close>, with the test for room; and appending one byte
  where room for one is already known.
\<close>

definition fmt_put :: "(nat \<Rightarrow> byte) \<Rightarrow> sdshdr \<Rightarrow> nat \<Rightarrow> mem \<Rightarrow> nat \<Rightarrow> (sdshdr \<times> nat) option" where
  "fmt_put junk s i str l = do {
     let s = (if sds_free s < l then sdsMakeRoomFor junk s l else s);
     bs \<leftarrow> read_bytes str 0 l;
     buf \<leftarrow> write_bytes (sds_buf s) i bs;
     Some (s\<lparr>sds_buf := buf, sds_len := u32_of (int (sds_len s) + int l),
             sds_free := u32_of (int (sds_free s) - int l)\<rparr>, i + l) }"

definition fmt_putc :: "sdshdr \<Rightarrow> nat \<Rightarrow> byte \<Rightarrow> (sdshdr \<times> nat) option" where
  "fmt_putc s i c = do {
     buf \<leftarrow> set_at (sds_buf s) i c;
     Some (s\<lparr>sds_buf := buf, sds_len := u32_of (int (sds_len s) + 1),
             sds_free := u32_of (int (sds_free s) - 1)\<rparr>, i + 1) }"

definition fmt_directive ::
  "(nat \<Rightarrow> byte) \<Rightarrow> sdshdr \<Rightarrow> nat \<Rightarrow> byte \<Rightarrow> fmt_arg list \<Rightarrow> (sdshdr \<times> nat \<times> fmt_arg list) option" where
  "fmt_directive junk s i nxt args =
     (if nxt = 115 then \<comment> \<open>s\<close>
        (case args of
           ArgStr str # args' \<Rightarrow> do {
             l \<leftarrow> c_strlen str; (s, i) \<leftarrow> fmt_put junk s i str l; Some (s, i, args') }
         | _ \<Rightarrow> None)
      else if nxt = 83 then \<comment> \<open>S\<close>
        (case args of
           ArgSds t # args' \<Rightarrow> do {
             (s, i) \<leftarrow> fmt_put junk s i (sds_buf t) (sdslen t); Some (s, i, args') }
         | _ \<Rightarrow> None)
      else if nxt = 105 \<or> nxt = 73 then \<comment> \<open>i, I\<close>
        (case args of
           ArgInt num # args' \<Rightarrow> do {
             (l, buf) \<leftarrow> sdsll2str (map junk [0..<SDS_LLSTR_SIZE]) num;
             (s, i) \<leftarrow> fmt_put junk s i buf l; Some (s, i, args') }
         | _ \<Rightarrow> None)
      else if nxt = 117 \<or> nxt = 85 then \<comment> \<open>u, U\<close>
        (case args of
           ArgUInt unum # args' \<Rightarrow> do {
             (l, buf) \<leftarrow> sdsull2str (map junk [0..<SDS_LLSTR_SIZE]) unum;
             (s, i) \<leftarrow> fmt_put junk s i buf l; Some (s, i, args') }
         | _ \<Rightarrow> None)
      else do { (s, i) \<leftarrow> fmt_putc s i nxt; Some (s, i, args) })"

fun catfmt_loop :: "(nat \<Rightarrow> byte) \<Rightarrow> sdshdr \<Rightarrow> nat \<Rightarrow> mem \<Rightarrow> fmt_arg list \<Rightarrow> (sdshdr \<times> nat) option" where
  "catfmt_loop junk s i [] args = None"
| "catfmt_loop junk s i (c # f) args =
     (if c = CH_NUL then Some (s, i)
      else let s = (if sds_free s = 0 then sdsMakeRoomFor junk s 1 else s) in
        if c = CH_PERCENT then
          (case f of
             [] \<Rightarrow> None
           | nxt # f' \<Rightarrow>
               (case fmt_directive junk s i nxt args of
                  None \<Rightarrow> None
                | Some (s, i, args) \<Rightarrow> catfmt_loop junk s i f' args))
        else
          (case fmt_putc s i c of
             None \<Rightarrow> None
           | Some (s, i) \<Rightarrow> catfmt_loop junk s i f args))"

definition sdscatfmt :: "(nat \<Rightarrow> byte) \<Rightarrow> sdshdr \<Rightarrow> mem \<Rightarrow> fmt_arg list \<Rightarrow> sdshdr option" where
  "sdscatfmt junk s fmt args = do {
     (s, i) \<leftarrow> catfmt_loop junk s (sdslen s) fmt args;
     buf \<leftarrow> set_at (sds_buf s) i CH_NUL;
     Some (s\<lparr>sds_buf := buf\<rparr>) }"

section \<open>Trimming and ranges\<close>

text \<open>\<open>strchr(cset, c) != NULL\<close>: the terminator of the C string \<open>cset\<close> is found, too.\<close>

definition in_cset :: "byte list \<Rightarrow> byte \<Rightarrow> bool" where
  "in_cset cset c \<longleftrightarrow> c = CH_NUL \<or> c \<in> set cset"

function trim_left :: "byte list \<Rightarrow> mem \<Rightarrow> int \<Rightarrow> int \<Rightarrow> int option" where
  "trim_left cset buf sp en =
     (if sp \<le> en then
        (case get_at buf (nat sp) of
           None \<Rightarrow> None
         | Some c \<Rightarrow> if in_cset cset c then trim_left cset buf (sp + 1) en else Some sp)
      else Some sp)"
  by pat_completeness auto
termination by (relation "measure (\<lambda>(cset, buf, sp, en). nat (en + 1 - sp))") auto

function trim_right :: "byte list \<Rightarrow> mem \<Rightarrow> int \<Rightarrow> int option" where
  "trim_right cset buf ep =
     (if ep > 0 then
        (case get_at buf (nat ep) of
           None \<Rightarrow> None
         | Some c \<Rightarrow> if in_cset cset c then trim_right cset buf (ep - 1) else Some ep)
      else Some ep)"
  by pat_completeness auto
termination by (relation "measure (\<lambda>(cset, buf, ep). nat ep)") auto

declare trim_left.simps [simp del] trim_right.simps [simp del]

definition sdstrim :: "sdshdr \<Rightarrow> byte list \<Rightarrow> sdshdr option" where
  "sdstrim s cset = do {
     let en = int (sdslen s) - 1;
     sp \<leftarrow> trim_left cset (sds_buf s) 0 en;
     ep \<leftarrow> trim_right cset (sds_buf s) en;
     let len = (if sp > ep then 0 else nat ((ep - sp) + 1));
     buf \<leftarrow> (if sp \<noteq> 0 then memmove (sds_buf s) 0 (nat sp) len else Some (sds_buf s));
     buf \<leftarrow> set_at buf len CH_NUL;
     Some (s\<lparr>sds_buf := buf, sds_free := u32_of (int (sds_free s) + (int (sds_len s) - int len)),
             sds_len := u32_of (int len)\<rparr>) }"

definition sdsrange :: "sdshdr \<Rightarrow> int \<Rightarrow> int \<Rightarrow> sdshdr option" where
  "sdsrange s start en =
     (let len = int (sdslen s) in
      if len = 0 then Some s
      else
        let start = (if start < 0 then max 0 (len + start) else start);
            en = (if en < 0 then max 0 (len + en) else en);
            newlen = (if start > en then 0 else (en - start) + 1);
            (start, newlen) =
              (if newlen \<noteq> 0 then
                 if start \<ge> len then (start, 0)
                 else if en \<ge> len then
                   let en = len - 1 in (start, if start > en then 0 else (en - start) + 1)
                 else (start, newlen)
               else (0, newlen))
        in do {
          buf \<leftarrow> (if start \<noteq> 0 \<and> newlen \<noteq> 0 then memmove (sds_buf s) 0 (nat start) (nat newlen)
                 else Some (sds_buf s));
          buf \<leftarrow> set_at buf (nat newlen) 0;
          Some (s\<lparr>sds_buf := buf, sds_free := u32_of (int (sds_free s) + (len - newlen)),
                  sds_len := u32_of newlen\<rparr>) })"

section \<open>Characters and comparison\<close>

text \<open>The loop \<open>for (j = 0; j < len; j++) s[j] = f(s[j])\<close>.\<close>

fun map_prefix :: "(byte \<Rightarrow> byte) \<Rightarrow> nat \<Rightarrow> mem \<Rightarrow> mem option" where
  "map_prefix f 0 m = Some m"
| "map_prefix f (Suc n) [] = None"
| "map_prefix f (Suc n) (c # m) = map_option (\<lambda>m'. f c # m') (map_prefix f n m)"

definition sdstolower :: "sdshdr \<Rightarrow> sdshdr option" where
  "sdstolower s = map_option (\<lambda>b. s\<lparr>sds_buf := b\<rparr>) (map_prefix tolower (sdslen s) (sds_buf s))"

definition sdstoupper :: "sdshdr \<Rightarrow> sdshdr option" where
  "sdstoupper s = map_option (\<lambda>b. s\<lparr>sds_buf := b\<rparr>) (map_prefix toupper (sdslen s) (sds_buf s))"

text \<open>The byte that replaces \<open>c\<close>: the one at the first position of \<open>c\<close> in \<open>from\<close>.\<close>

fun mapchar :: "byte list \<Rightarrow> byte list \<Rightarrow> byte \<Rightarrow> byte" where
  "mapchar (a # as) (b # bs) c = (if c = a then b else mapchar as bs c)"
| "mapchar _ _ c = c"

definition sdsmapchars :: "sdshdr \<Rightarrow> byte list \<Rightarrow> byte list \<Rightarrow> sdshdr option" where
  "sdsmapchars s from to = map_option (\<lambda>b. s\<lparr>sds_buf := b\<rparr>) (map_prefix (mapchar from to) (sdslen s) (sds_buf s))"

text \<open>\<open>memcmp\<close>: only the sign of its result is specified.\<close>

fun memcmp :: "byte list \<Rightarrow> byte list \<Rightarrow> int" where
  "memcmp (a # as) (b # bs) = (if a = b then memcmp as bs else if a < b then -1 else 1)"
| "memcmp _ _ = 0"

definition sdscmp :: "sdshdr \<Rightarrow> sdshdr \<Rightarrow> int option" where
  "sdscmp s1 s2 = do {
     let l1 = sdslen s1; let l2 = sdslen s2;
     let minlen = (if l1 < l2 then l1 else l2);
     a \<leftarrow> read_bytes (sds_buf s1) 0 minlen;
     b \<leftarrow> read_bytes (sds_buf s2) 0 minlen;
     let cmp = memcmp a b;
     Some (if cmp = 0 then cast_int (int l1 - int l2) else cmp) }"

fun join_loop :: "(nat \<Rightarrow> byte) \<Rightarrow> sdshdr \<Rightarrow> mem list \<Rightarrow> mem \<Rightarrow> sdshdr option" where
  "join_loop junk s [] sep = Some s"
| "join_loop junk s (a # argv) sep = do {
     s \<leftarrow> sdscat junk s a;
     s \<leftarrow> (if argv \<noteq> [] then sdscat junk s sep else Some s);
     join_loop junk s argv sep }"

definition sdsjoin :: "(nat \<Rightarrow> byte) \<Rightarrow> mem list \<Rightarrow> mem \<Rightarrow> sdshdr option" where
  "sdsjoin junk argv sep = do { s \<leftarrow> sdsempty junk; join_loop junk s argv sep }"

section \<open>The invariant\<close>

definition sds_text :: "sdshdr \<Rightarrow> byte list" where
  "sds_text s = take (sds_len s) (sds_buf s)"

definition sds_wf :: "sdshdr \<Rightarrow> bool" where
  "sds_wf s \<longleftrightarrow> length (sds_buf s) = sds_len s + sds_free s + 1
     \<and> sds_buf s ! sds_len s = CH_NUL \<and> sds_len s + sds_free s < 2 ^ 31"

text \<open>The buffer, taken apart.\<close>

definition sds_rep :: "sdshdr \<Rightarrow> byte list \<Rightarrow> bool" where
  "sds_rep s t \<longleftrightarrow> (\<exists>r. sds_buf s = t @ CH_NUL # r \<and> sds_len s = length t \<and> sds_free s = length r
     \<and> length t + length r < 2 ^ 31)"

lemma sds_rep_iff: "sds_rep s t \<longleftrightarrow> sds_wf s \<and> sds_text s = t"
proof
  assume "sds_rep s t"
  then show "sds_wf s \<and> sds_text s = t" by (auto simp: sds_rep_def sds_wf_def sds_text_def nth_append)
next
  assume a: "sds_wf s \<and> sds_text s = t"
  then have "sds_buf s = t @ sds_buf s ! sds_len s # drop (Suc (sds_len s)) (sds_buf s)"
    using id_take_nth_drop [of "sds_len s" "sds_buf s"] by (auto simp: sds_wf_def sds_text_def)
  with a show "sds_rep s t" by (auto simp: sds_rep_def sds_wf_def sds_text_def)
qed

lemma sds_repI:
  "sds_buf s = t @ CH_NUL # r \<Longrightarrow> sds_len s = length t \<Longrightarrow> sds_free s = length r \<Longrightarrow>
   length t + length r < 2 ^ 31 \<Longrightarrow> sds_rep s t"
  by (auto simp: sds_rep_def)

lemma sds_repE:
  assumes "sds_rep s t"
  obtains r where "s = \<lparr>sds_len = length t, sds_free = length r, sds_buf = t @ CH_NUL # r\<rparr>"
    and "length t + length r < 2 ^ 31"
  using assms by (cases s) (auto simp: sds_rep_def)

section \<open>Growing and appending\<close>

lemma sdsnewlen_rep:
  assumes "n \<le> length t" and "n < 2 ^ 31"
  shows "\<exists>s. sdsnewlen junk (Some t) n = Some s \<and> sds_rep s (take n t)"
proof -
  have "set_at (take n t @ [x]) n CH_NUL = Some (take n t @ [CH_NUL])" for x
    using assms(1) by (simp add: list_update_append)
  then show ?thesis using assms
    by (cases "n = 0") (auto simp: sdsnewlen_def read_bytes_def write_bytes_def Let_def sds_rep_def min_def)
qed

text \<open>Making room keeps the buffer and adds free space at its end.\<close>

lemma sdsMakeRoomFor_grow:
  assumes "length (sds_buf s) = sds_len s + sds_free s + 1" and "sds_len s + sds_free s < 2 ^ 31"
    and "2 * (sds_len s + n) + SDS_MAX_PREALLOC < 2 ^ 31"
  shows "\<exists>J. sdsMakeRoomFor junk s n = s\<lparr>sds_buf := sds_buf s @ J, sds_free := sds_free s + length J\<rparr>
    \<and> n \<le> sds_free s + length J \<and> sds_len s + sds_free s + length J < 2 ^ 31"
proof (cases "n \<le> sds_free s")
  case True
  then show ?thesis using assms(2) by (intro exI [of _ "[]"]) (simp add: sdsMakeRoomFor_def sdsavail_def)
next
  case False
  define m where "m = (if sds_len s + n < SDS_MAX_PREALLOC then (sds_len s + n) * 2 else sds_len s + n + SDS_MAX_PREALLOC)"
  have m: "sds_len s + n \<le> m" "sds_len s + sds_free s < m" "m < 2 ^ 31" using assms(3) False by (auto simp: m_def)
  have "sdsMakeRoomFor junk s n
      = s\<lparr>sds_buf := zrealloc junk (sds_buf s) (m + 1), sds_free := u32_of (int m - int (sds_len s))\<rparr>"
    using False by (simp add: sdsMakeRoomFor_def sdsavail_def sdslen_def m_def Let_def)
  then show ?thesis using m assms(1)
    by (intro exI [of _ "map junk [sds_len s + sds_free s + 1..<m + 1]"]) (simp add: zrealloc_grow)
qed

lemma sdsMakeRoomFor_rep:
  assumes "sds_rep s t" and "2 * (length t + n) + SDS_MAX_PREALLOC < 2 ^ 31"
  shows "sds_rep (sdsMakeRoomFor junk s n) t \<and> n \<le> sds_free (sdsMakeRoomFor junk s n)"
proof -
  obtain r where s: "s = \<lparr>sds_len = length t, sds_free = length r, sds_buf = t @ CH_NUL # r\<rparr>"
    "length t + length r < 2 ^ 31" by (rule sds_repE [OF assms(1)])
  then show ?thesis
    using sdsMakeRoomFor_grow [of s n junk] assms(2) by (auto intro!: sds_repI)
qed

lemma append_write:
  assumes "length bs \<le> length r"
  shows "\<exists>r'. length r' = length r - length bs \<and>
    write_bytes (t @ CH_NUL # r) (length t) bs = Some (t @ bs @ drop (length bs) (CH_NUL # r)) \<and>
    set_at (t @ bs @ drop (length bs) (CH_NUL # r)) (length t + length bs) CH_NUL = Some (t @ bs @ CH_NUL # r')"
proof -
  obtain x r' where "drop (length bs) (CH_NUL # r) = x # r'" "length r' = length r - length bs"
    using assms by (cases "drop (length bs) (CH_NUL # r)") (auto dest: arg_cong [where f = length])
  then show ?thesis using assms
    by (auto simp: write_bytes_def list_update_append)
qed

lemma sdscatlen_rep:
  assumes "sds_rep s t" and "n \<le> length u" and "2 * (length t + n) + SDS_MAX_PREALLOC < 2 ^ 31"
  shows "\<exists>s'. sdscatlen junk s u n = Some s' \<and> sds_rep s' (t @ take n u)"
proof -
  let ?s = "sdsMakeRoomFor junk s n"
  obtain r where r: "?s = \<lparr>sds_len = length t, sds_free = length r, sds_buf = t @ CH_NUL # r\<rparr>"
    "length t + length r < 2 ^ 31" "n \<le> length r"
    using sdsMakeRoomFor_rep [OF assms(1,3), of junk] by (metis sds_repE sdshdr.select_convs(2))
  have len: "sdslen s = length t" using assms(1) by (auto simp: sdslen_def sds_rep_def)
  have ltn: "length (take n u) = n" using assms(2) by simp
  obtain r' where "length r' = length r - n"
    "write_bytes (t @ CH_NUL # r) (length t) (take n u) = Some (t @ take n u @ drop n (CH_NUL # r))"
    "set_at (t @ take n u @ drop n (CH_NUL # r)) (length t + n) CH_NUL = Some (t @ take n u @ CH_NUL # r')"
    using append_write [of "take n u" r t, unfolded ltn] r(3) by blast
  then have "sdscatlen junk s u n = Some \<lparr>sds_len = length t + n, sds_free = length r',
      sds_buf = t @ take n u @ CH_NUL # r'\<rparr>"
    using r assms(2) len by (simp add: sdscatlen_def read_bytes_def Let_def)
  then show ?thesis using \<open>length r' = length r - n\<close> r(2,3) assms(2)
    by (auto intro!: sds_repI simp: min_def)
qed

section \<open>Numbers\<close>

lemma digits_loop_spec:
  assumes "p + length (decimal_nat v) \<le> length s"
  shows "digits_loop s p v = Some (take p s @ rev (decimal_nat v) @ drop (p + length (decimal_nat v)) s,
    p + length (decimal_nat v))"
  using assms
proof (induction s p v rule: digits_loop.induct)
  case (1 s p v)
  let ?d = "48 + of_nat (v mod 10) :: byte"
  have p: "p < length s" using "1.prems" length_decimal_pos [of v] by linarith
  show ?case
  proof (cases "v < 10")
    case True
    then have "decimal_nat v = [?d]" by (subst decimal_nat.simps) simp
    with True p show ?thesis by (subst digits_loop.simps) (simp add: list_update_split)
  next
    case False
    then have d: "decimal_nat v = decimal_nat (v div 10) @ [?d]"
      by (subst decimal_nat.simps) simp
    have "digits_loop (s[p := ?d]) (p + 1) (v div 10) =
      Some (take (p + 1) (s[p := ?d]) @ rev (decimal_nat (v div 10)) @ drop (p + 1 + length (decimal_nat (v div 10))) (s[p := ?d]),
        p + 1 + length (decimal_nat (v div 10)))"
      by (rule "1.IH") (use p False "1.prems" d in \<open>auto simp: div_eq_0_iff\<close>)
    then show ?thesis using p False d
      by (subst digits_loop.simps) (simp add: take_Suc_conv_app_nth div_eq_0_iff)
  qed
qed

lemma reverse_loop_spec:
  "p + 1 = n + length xs \<or> xs = [] \<Longrightarrow> n = length a \<Longrightarrow> xs = [] \<longrightarrow> p \<le> n \<Longrightarrow>
   reverse_loop (a @ xs @ b) n p = Some (a @ rev xs @ b)"
proof (induction "length xs" arbitrary: xs a b n p rule: less_induct)
  case less
  consider "length xs \<le> 1" | x ys y where "xs = x # ys @ [y]"
    by (cases xs; cases "tl xs" rule: rev_cases) auto
  then show ?case
  proof cases
    case 1
    then show ?thesis using less.prems by (cases xs) (auto simp: reverse_loop.simps)
  next
    case (2 x ys y)
    have "swap_at (a @ x # ys @ y # b) n p = Some (a @ y # ys @ x # b)"
      using less.prems 2 by (auto simp: swap_at_def list_update_append nth_append)
    moreover have "reverse_loop ((a @ [y]) @ ys @ (x # b)) (n + 1) (p - 1) = Some ((a @ [y]) @ rev ys @ (x # b))"
      using less.prems 2 by (intro less.hyps) auto
    ultimately show ?thesis using less.prems 2 by (subst reverse_loop.simps) simp
  qed
qed

text \<open>Both printers produce the decimal numeral.\<close>

lemma print_reversed:
  assumes "length t < length buf" and "0 < length t"
  shows "\<exists>b. set_at (rev t @ drop (length t) buf) (length t) CH_NUL = Some b
    \<and> reverse_loop b 0 (length t - 1) = Some (t @ CH_NUL # drop (length t + 1) buf)"
proof -
  have "drop (length t) buf = buf ! length t # drop (length t + 1) buf"
    using assms(1) by (simp add: Cons_nth_drop_Suc)
  then have "set_at (rev t @ drop (length t) buf) (length t) CH_NUL = Some (rev t @ CH_NUL # drop (length t + 1) buf)"
    by (simp add: list_update_append)
  moreover have "reverse_loop (rev t @ CH_NUL # drop (length t + 1) buf) 0 (length t - 1)
      = Some (t @ CH_NUL # drop (length t + 1) buf)"
    using reverse_loop_spec [of "length t - 1" 0 "rev t" "[]"] assms(2) by simp
  ultimately show ?thesis by blast
qed

lemma sdsull2str_spec:
  assumes "length (decimal_nat v) < length buf"
  shows "sdsull2str buf v = Some (length (decimal_nat v), decimal_nat v @ CH_NUL # drop (length (decimal_nat v) + 1) buf)"
  using print_reversed [OF assms] digits_loop_spec [of 0 v buf] assms
  by (auto simp: sdsull2str_def)

lemma sdsll2str_spec:
  assumes "fits 8 v" and "length (decimal v) < length buf"
  shows "sdsll2str buf v = Some (length (decimal v), decimal v @ CH_NUL # drop (length (decimal v) + 1) buf)"
proof -
  define w where "w = nat ((if v < 0 then - v else v) mod 2 ^ 64)"
  have w: "w = nat \<bar>v\<bar>" using assms(1) by (auto simp: w_def fits_def)
  have dec: "decimal v = (if v < 0 then [CH_MINUS] else []) @ decimal_nat w"
    by (simp add: decimal_def w)
  have dl: "digits_loop buf 0 w = Some (rev (decimal_nat w) @ drop (length (decimal_nat w)) buf, length (decimal_nat w))"
    using digits_loop_spec [of 0 w buf] assms(2) dec by simp
  have "(if v < 0 then do { s \<leftarrow> set_at (rev (decimal_nat w) @ drop (length (decimal_nat w)) buf) (length (decimal_nat w)) CH_MINUS;
        Some (s, length (decimal_nat w) + 1) } else Some (rev (decimal_nat w) @ drop (length (decimal_nat w)) buf, length (decimal_nat w)))
      = Some (rev (decimal v) @ drop (length (decimal v)) buf, length (decimal v))"
  proof -
    have "drop (length (decimal_nat w)) buf = buf ! length (decimal_nat w) # drop (Suc (length (decimal_nat w))) buf"
      using assms(2) dec by (simp add: Cons_nth_drop_Suc)
    then show ?thesis using assms(2) dec by (simp add: list_update_append)
  qed
  then show ?thesis
    using print_reversed [OF assms(2)] dl dec
    unfolding sdsll2str_def w_def [symmetric] Let_def by auto
qed

section \<open>Formatting\<close>

text \<open>What a format stands for; \<open>None\<close> for an argument of the wrong type or a final percent sign.\<close>

definition arg_text :: "byte \<Rightarrow> fmt_arg \<Rightarrow> byte list option" where
  "arg_text d a = (case a of
       ArgStr m \<Rightarrow> if d = 115 then do { n \<leftarrow> c_strlen m; Some (take n m) } else None
     | ArgSds s \<Rightarrow> if d = 83 \<and> sds_wf s then Some (sds_text s) else None
     | ArgInt v \<Rightarrow> if (d = 105 \<or> d = 73) \<and> fits 8 v then Some (decimal v) else None
     | ArgUInt v \<Rightarrow> if (d = 117 \<or> d = 85) \<and> v < 2 ^ 64 then Some (decimal_nat v) else None)"

fun fmt_text :: "byte list \<Rightarrow> fmt_arg list \<Rightarrow> byte list option" where
  "fmt_text [] args = Some []"
| "fmt_text (c # f) args =
     (if c \<noteq> CH_PERCENT then map_option (\<lambda>t. c # t) (fmt_text f args)
      else case f of
        [] \<Rightarrow> None
      | d # f' \<Rightarrow>
          if d \<in> {115, 83, 105, 73, 117, 85} then
            (case args of
               [] \<Rightarrow> None
             | a # args' \<Rightarrow> do {
                 t \<leftarrow> arg_text d a;
                 map_option (\<lambda>u. t @ u) (fmt_text f' args') })
          else map_option (\<lambda>t. d # t) (fmt_text f' args))"

declare fmt_text.simps(2) [simp del] catfmt_loop.simps(2) [simp del]

text \<open>The state inside the loop: the text is in place, the terminator is not.\<close>

definition sds_open :: "sdshdr \<Rightarrow> byte list \<Rightarrow> bool" where
  "sds_open s t \<longleftrightarrow> (\<exists>r. sds_buf s = t @ r \<and> sds_len s = length t \<and> length r = sds_free s + 1
     \<and> length t + sds_free s < 2 ^ 31)"

lemma sds_rep_open: "sds_rep s t \<Longrightarrow> sds_open s t"
  by (auto simp: sds_rep_def sds_open_def)

lemma sds_open_room:
  assumes "sds_open s t" and "2 * (length t + n) + SDS_MAX_PREALLOC < 2 ^ 31"
  shows "sds_open (sdsMakeRoomFor junk s n) t \<and> n \<le> sds_free (sdsMakeRoomFor junk s n)"
proof -
  have "length (sds_buf s) = sds_len s + sds_free s + 1" "sds_len s + sds_free s < 2 ^ 31"
    using assms(1) by (auto simp: sds_open_def)
  from sdsMakeRoomFor_grow [OF this, of n junk] assms show ?thesis
    by (auto simp: sds_open_def)
qed

lemma fmt_putc_open:
  assumes "sds_open s t" and "0 < sds_free s"
  shows "\<exists>s'. fmt_putc s (length t) c = Some (s', length t + 1) \<and> sds_open s' (t @ [c])"
proof -
  obtain x r where "sds_buf s = t @ x # r" "sds_len s = length t" "length r = sds_free s"
    "length t + sds_free s < 2 ^ 31"
    using assms(1) by (auto simp: sds_open_def length_Suc_conv)
  then show ?thesis using assms(2)
    by (auto simp: fmt_putc_def sds_open_def list_update_append nat_add_distrib nat_diff_distrib)
qed

lemma fmt_put_open:
  assumes "sds_open s t" and "n \<le> length u" and "2 * (length t + n) + SDS_MAX_PREALLOC < 2 ^ 31"
  shows "\<exists>s'. fmt_put junk s (length t) u n = Some (s', length t + n) \<and> sds_open s' (t @ take n u)"
proof -
  define s1 where "s1 = (if sds_free s < n then sdsMakeRoomFor junk s n else s)"
  have s1: "sds_open s1 t" "n \<le> sds_free s1"
    using sds_open_room [OF assms(1,3), of junk] assms(1) by (auto simp: s1_def)
  then obtain r where r: "sds_buf s1 = t @ r" "sds_len s1 = length t" "length r = sds_free s1 + 1"
    "length t + sds_free s1 < 2 ^ 31" by (auto simp: sds_open_def)
  have "write_bytes (t @ r) (length t) (take n u) = Some (t @ take n u @ drop n r)"
    using r(3) s1(2) assms(2) by (simp add: write_bytes_def min_def)
  then have "fmt_put junk s (length t) u n = Some (s1\<lparr>sds_buf := t @ take n u @ drop n r,
      sds_len := length t + n, sds_free := sds_free s1 - n\<rparr>, length t + n)"
    using r s1(2) assms(2) by (simp add: fmt_put_def s1_def [symmetric] read_bytes_def Let_def)
  then show ?thesis using r s1(2) assms(2) by (auto simp: sds_open_def min_def)
qed

lemma c_strlen_bound: "c_strlen m = Some n \<Longrightarrow> n < length m"
  by (induction m arbitrary: n) (auto split: if_splits)

lemma fmt_directive_open:
  assumes "sds_open s t" and "arg_text d a = Some u" and "2 * (length t + length u) + SDS_MAX_PREALLOC < 2 ^ 31"
  shows "\<exists>s'. fmt_directive junk s (length t) d (a # args) = Some (s', length t + length u, args)
    \<and> sds_open s' (t @ u)"
proof (cases a)
  case (ArgStr m)
  then obtain n where n: "d = 115" "c_strlen m = Some n" "u = take n m"
    using assms(2) by (auto simp: arg_text_def bind_eq_Some_conv split: if_splits)
  then show ?thesis
    using fmt_put_open [OF assms(1), of n m junk] c_strlen_bound [OF n(2)] assms(3) ArgStr
    by (auto simp: fmt_directive_def)
next
  case (ArgSds x)
  then have n: "d = 83" "sds_wf x" "u = sds_text x"
    using assms(2) by (auto simp: arg_text_def split: if_splits)
  then have "u = take (sdslen x) (sds_buf x)" "sdslen x \<le> length (sds_buf x)"
    by (auto simp: sds_text_def sdslen_def sds_wf_def)
  then show ?thesis
    using fmt_put_open [OF assms(1), of "sdslen x" "sds_buf x" junk] assms(3) ArgSds n(1)
    by (auto simp: fmt_directive_def)
next
  case (ArgInt v)
  then have n: "d = 105 \<or> d = 73" "fits 8 v" "u = decimal v"
    using assms(2) by (auto simp: arg_text_def split: if_splits)
  then show ?thesis
    using sdsll2str_spec [OF n(2), of "map junk [0..<SDS_LLSTR_SIZE]"] length_decimal_i64 [OF n(2)]
      fmt_put_open [OF assms(1), of "length u" "u @ CH_NUL # drop (length u + 1) (map junk [0..<SDS_LLSTR_SIZE])" junk]
      assms(3) ArgInt by (auto simp: fmt_directive_def)
next
  case (ArgUInt v)
  then have n: "d = 117 \<or> d = 85" "v < 2 ^ 64" "u = decimal_nat v"
    using assms(2) by (auto simp: arg_text_def split: if_splits)
  then show ?thesis
    using sdsull2str_spec [of v "map junk [0..<SDS_LLSTR_SIZE]"] length_decimal_u64 [OF n(2)]
      fmt_put_open [OF assms(1), of "length u" "u @ CH_NUL # drop (length u + 1) (map junk [0..<SDS_LLSTR_SIZE])" junk]
      assms(3) ArgUInt by (auto simp: fmt_directive_def)
qed

lemma fmt_directive_other:
  "d \<notin> {115, 83, 105, 73, 117, 85} \<Longrightarrow>
   fmt_directive junk s i d args = map_option (\<lambda>(s, i). (s, i, args)) (fmt_putc s i d)"
  by (cases "fmt_putc s i d") (auto simp: fmt_directive_def)

lemma catfmt_loop_spec:
  assumes "fmt_text f args = Some u" and "CH_NUL \<notin> set f" and "sds_open s t"
    and "2 * (length t + length u + 1) + SDS_MAX_PREALLOC < 2 ^ 31"
  shows "\<exists>s'. catfmt_loop junk s (length t) (f @ CH_NUL # rest) args = Some (s', length t + length u)
    \<and> sds_open s' (t @ u)"
  using assms
proof (induction f args arbitrary: s t u rule: fmt_text.induct)
  case (1 args)
  then show ?case by (simp add: catfmt_loop.simps(2))
next
  case (2 c f args)
  define s1 where "s1 = (if sds_free s = 0 then sdsMakeRoomFor junk s 1 else s)"
  have s1: "sds_open s1 t" "0 < sds_free s1"
    using sds_open_room [OF "2.prems"(3), of 1 junk] "2.prems"(3,4) by (auto simp: s1_def)
  have c: "c \<noteq> CH_NUL" using "2.prems"(2) by auto
  show ?case
  proof (cases "c = CH_PERCENT")
    case False
    then obtain u' where u': "fmt_text f args = Some u'" "u = c # u'"
      using "2.prems"(1) by (auto simp: fmt_text.simps(2))
    from fmt_putc_open [OF s1, of c] obtain s2 where
      s2: "fmt_putc s1 (length t) c = Some (s2, length t + 1)" "sds_open s2 (t @ [c])" by blast
    from "2.IH"(1) [OF False u'(1) _ s2(2)] obtain s3 where
      "catfmt_loop junk s2 (length t + 1) (f @ CH_NUL # rest) args = Some (s3, length t + length u)"
      "sds_open s3 (t @ u)" using "2.prems"(2,4) u'(2) by auto
    then show ?thesis using False c s2(1)
      by (auto simp: catfmt_loop.simps(2) s1_def [symmetric] Let_def)
  next
    case True
    then obtain d f' where f: "f = d # f'" using "2.prems"(1) by (cases f) (auto simp: fmt_text.simps(2))
    have "\<exists>s2 v args2 u'. fmt_directive junk s1 (length t) d args = Some (s2, length t + length v, args2)
        \<and> sds_open s2 (t @ v) \<and> fmt_text f' args2 = Some u' \<and> u = v @ u'
        \<and> (\<forall>s t u. fmt_text f' args2 = Some u \<longrightarrow> CH_NUL \<notin> set f' \<longrightarrow> sds_open s t \<longrightarrow>
             2 * (length t + length u + 1) + SDS_MAX_PREALLOC < 2 ^ 31 \<longrightarrow>
             (\<exists>s'. catfmt_loop junk s (length t) (f' @ CH_NUL # rest) args2 = Some (s', length t + length u)
               \<and> sds_open s' (t @ u)))"
    proof (cases "d \<in> {115, 83, 105, 73, 117, 85}")
      case d: True
      then obtain a args' v u' where a: "args = a # args'" "arg_text d a = Some v"
        "fmt_text f' args' = Some u'" "u = v @ u'"
        using "2.prems"(1) True f by (cases args) (auto simp: fmt_text.simps(2) bind_eq_Some_conv)
      obtain s2 where "fmt_directive junk s1 (length t) d args = Some (s2, length t + length v, args')"
        "sds_open s2 (t @ v)"
        using fmt_directive_open [OF s1(1) a(2), of junk args'] a(1,4) "2.prems"(4) by auto
      moreover note "2.IH"(2) [OF _ f d a(1,2)]
      ultimately show ?thesis using True a(3,4) by blast
    next
      case d: False
      then obtain u' where u': "fmt_text f' args = Some u'" "u = d # u'"
        using "2.prems"(1) True f by (auto simp: fmt_text.simps(2))
      obtain s2 where "fmt_putc s1 (length t) d = Some (s2, length t + 1)" "sds_open s2 (t @ [d])"
        using fmt_putc_open [OF s1, of d] by blast
      moreover note "2.IH"(3) [OF _ f d]
      ultimately show ?thesis using True u' fmt_directive_other [OF d, of junk s1 "length t" args]
        by (intro exI [of _ s2] exI [of _ "[d]"] exI [of _ args] exI [of _ u']) auto
    qed
    then obtain s2 v args2 u' where s2: "fmt_directive junk s1 (length t) d args = Some (s2, length t + length v, args2)"
        "sds_open s2 (t @ v)" "fmt_text f' args2 = Some u'" "u = v @ u'"
      and ih: "\<And>s t u. fmt_text f' args2 = Some u \<Longrightarrow> CH_NUL \<notin> set f' \<Longrightarrow> sds_open s t \<Longrightarrow>
             2 * (length t + length u + 1) + SDS_MAX_PREALLOC < 2 ^ 31 \<Longrightarrow>
             (\<exists>s'. catfmt_loop junk s (length t) (f' @ CH_NUL # rest) args2 = Some (s', length t + length u)
               \<and> sds_open s' (t @ u))" by blast
    obtain s3 where "catfmt_loop junk s2 (length t + length v) (f' @ CH_NUL # rest) args2 = Some (s3, length t + length u)"
      "sds_open s3 (t @ u)" using ih [OF s2(3) _ s2(2)] "2.prems"(2,4) f s2(4) by auto
    then show ?thesis using True c s2(1) f
      by (auto simp: catfmt_loop.simps(2) s1_def [symmetric] Let_def)
  qed
qed

lemma sdscatfmt_rep:
  assumes "sds_rep s t" and "fmt_text f args = Some u" and "CH_NUL \<notin> set f"
    and "2 * (length t + length u + 1) + SDS_MAX_PREALLOC < 2 ^ 31"
  shows "\<exists>s'. sdscatfmt junk s (f @ CH_NUL # rest) args = Some s' \<and> sds_rep s' (t @ u)"
proof -
  have len: "sdslen s = length t" using assms(1) by (auto simp: sds_rep_def sdslen_def)
  obtain s' where s': "catfmt_loop junk s (length t) (f @ CH_NUL # rest) args = Some (s', length t + length u)"
    "sds_open s' (t @ u)" using catfmt_loop_spec [OF assms(2,3) sds_rep_open [OF assms(1)] assms(4)] by blast
  then obtain x r where "sds_buf s' = (t @ u) @ x # r" "sds_len s' = length (t @ u)" "length r = sds_free s'"
    "length (t @ u) + sds_free s' < 2 ^ 31" by (auto simp: sds_open_def length_Suc_conv)
  then show ?thesis using s'(1) len
    by (auto simp: sdscatfmt_def list_update_append intro!: sds_repI)
qed

section \<open>Shortening\<close>

text \<open>The common end of the operations that keep a part of the text.\<close>

lemma cut_rep:
  assumes "sds_rep s t" and "length b = length (sds_buf s)" and "take (length u) b = u" and "length u \<le> length t"
  shows "\<exists>b'. set_at b (length u) CH_NUL = Some b' \<and>
    sds_rep (s\<lparr>sds_buf := b', sds_free := u32_of (int (sds_free s) + (int (length t) - int (length u))),
      sds_len := u32_of (int (length u))\<rparr>) u"
proof -
  obtain r where s: "s = \<lparr>sds_len = length t, sds_free = length r, sds_buf = t @ CH_NUL # r\<rparr>"
    "length t + length r < 2 ^ 31" by (rule sds_repE [OF assms(1)])
  have b: "b = u @ drop (length u) b" using assms(3) append_take_drop_id [of "length u" b] by metis
  obtain x r' where x: "drop (length u) b = x # r'" "length r' = length t + length r - length u"
    using assms(2,4) s(1) by (cases "drop (length u) b") (auto dest: arg_cong [where f = length])
  have "set_at b (length u) CH_NUL = Some (u @ CH_NUL # r')"
    using b x(1) by (metis append_Cons list_update_length set_at_Some length_append less_add_same_cancel1
        length_greater_0_conv list.discI)
  moreover have "u32_of (int (length r) + (int (length t) - int (length u))) = length r'"
    using s(2) x(2) assms(4) by simp
  ultimately show ?thesis using s x(2) assms(4) by (auto intro!: sds_repI)
qed

definition redis_range :: "int \<Rightarrow> int \<Rightarrow> 'a list \<Rightarrow> 'a list" where
  "redis_range start en t =
     (let n = int (length t);
          st = (if start < 0 then max 0 (n + start) else start);
          e = min (n - 1) (if en < 0 then max 0 (n + en) else en)
      in if st > e then [] else take (nat (e - st + 1)) (drop (nat st) t))"

lemma range_core:
  fixes st e :: int
  assumes rep: "sds_rep s t" and nn: "0 \<le> st" "0 \<le> e" and len: "len = int (length t)" "t \<noteq> []"
  shows "\<exists>s'. (let newlen = (if st > e then 0 else (e - st) + 1);
            (start, newlen) =
              (if newlen \<noteq> 0 then
                 if st \<ge> len then (st, 0)
                 else if e \<ge> len then
                   let en = len - 1 in (st, if st > en then 0 else (en - st) + 1)
                 else (st, newlen)
               else (0, newlen))
        in do {
          buf \<leftarrow> (if start \<noteq> 0 \<and> newlen \<noteq> 0 then memmove (sds_buf s) 0 (nat start) (nat newlen)
                 else Some (sds_buf s));
          buf \<leftarrow> set_at buf (nat newlen) 0;
          Some (s\<lparr>sds_buf := buf, sds_free := u32_of (int (sds_free s) + (len - newlen)),
                  sds_len := u32_of newlen\<rparr>) }) = Some s'
    \<and> sds_rep s' (if st > min (len - 1) e then [] else take (nat (min (len - 1) e - st + 1)) (drop (nat st) t))"
proof -
  define k where "k = (if st > min (len - 1) e then 0 else min (len - 1) e - st + 1)"
  define st' where "st' = (if st > e then 0 else st)"
  define u where "u = take (nat k) (drop (nat st) t)"
  have "0 < len" using len by simp
  then have k: "0 \<le> k" "k \<noteq> 0 \<longrightarrow> st' = st \<and> st + k \<le> len"
    using nn by (auto simp: k_def st'_def)
  then have lu: "length u = nat k" "nat k \<le> length t" "int (length u) = k"
    using nn len by (auto simp: u_def)
  have u: "(if st > min (len - 1) e then [] else take (nat (min (len - 1) e - st + 1)) (drop (nat st) t)) = u"
    by (simp add: u_def k_def)
  obtain r where r: "sds_buf s = t @ CH_NUL # r" using rep by (auto simp: sds_rep_def)
  have st'k: "(if (if st > e then 0 else (e - st) + 1) \<noteq> 0 then
                 if st \<ge> len then (st, 0)
                 else if e \<ge> len then (st, if st > len - 1 then 0 else (len - 1 - st) + 1)
                 else (st, if st > e then 0 else (e - st) + 1)
               else (0, if st > e then 0 else (e - st) + 1)) = (st', k)"
    using \<open>0 < len\<close> by (auto simp: st'_def k_def)
  have "\<exists>b. (if st' \<noteq> 0 \<and> k \<noteq> 0 then memmove (sds_buf s) 0 (nat st') (nat k) else Some (sds_buf s)) = Some b
      \<and> length b = length (sds_buf s) \<and> take (length u) b = u"
  proof (cases "st' \<noteq> 0 \<and> k \<noteq> 0")
    case True
    then have "nat st + nat k \<le> length t" using k nn len by linarith
    then show ?thesis using True k(2) r
      by (simp add: memmove_def read_bytes_def write_bytes_def u_def)
  next
    case False
    then have "take (nat k) t = u" using k(2) by (cases "k = 0") (auto simp: u_def)
    then show ?thesis unfolding lu(1) if_not_P [OF False] using r lu(2) by simp
  qed
  then obtain b where b: "(if st' \<noteq> 0 \<and> k \<noteq> 0 then memmove (sds_buf s) 0 (nat st') (nat k) else Some (sds_buf s)) = Some b"
    "length b = length (sds_buf s)" "take (length u) b = u" by blast
  obtain b' where "set_at b (nat k) CH_NUL = Some b'"
    "sds_rep (s\<lparr>sds_buf := b', sds_free := u32_of (int (sds_free s) + (len - k)), sds_len := u32_of k\<rparr>) u"
    using cut_rep [OF rep b(2,3)] lu len(1) by auto
  then show ?thesis unfolding u Let_def st'k using b(1) by simp
qed

lemma sdsrange_rep:
  assumes "sds_rep s t"
  shows "\<exists>s'. sdsrange s start en = Some s' \<and> sds_rep s' (redis_range start en t)"
proof (cases "t = []")
  case True
  moreover have "sdslen s = length t" using assms by (auto simp: sds_rep_def sdslen_def)
  ultimately show ?thesis using assms by (auto simp: sdsrange_def redis_range_def Let_def)
next
  case False
  have len: "int (sdslen s) = int (length t)" using assms by (auto simp: sds_rep_def sdslen_def)
  show ?thesis
    using range_core [OF assms _ _ len False, of "if start < 0 then max 0 (int (length t) + start) else start"
        "if en < 0 then max 0 (int (length t) + en) else en"] False
    unfolding sdsrange_def redis_range_def len Let_def by simp
qed

text \<open>Trimming.\<close>

abbreviation trim_end :: "('a \<Rightarrow> bool) \<Rightarrow> 'a list \<Rightarrow> 'a list" where
  "trim_end f xs \<equiv> rev (dropWhile f (rev xs))"

lemma trim_left_spec:
  "n = length pre \<Longrightarrow> en = int n + int (length xs) - 1 \<Longrightarrow>
   trim_left cset (pre @ xs @ r) (int n) en = Some (int n + int (length (takeWhile (in_cset cset) xs)))"
proof (induction xs arbitrary: pre n)
  case Nil
  then show ?case by (subst trim_left.simps) simp
next
  case (Cons x xs)
  have "trim_left cset ((pre @ [x]) @ xs @ r) (int (n + 1)) en
      = Some (int (n + 1) + int (length (takeWhile (in_cset cset) xs)))"
    by (rule Cons.IH) (use Cons.prems in simp_all)
  then show ?case using Cons.prems by (subst trim_left.simps) (simp add: add.commute)
qed

lemma trim_right_spec:
  "trim_right cset (xs @ r) (int (length xs) - 1)
     = Some (if trim_end (in_cset cset) xs = [] then min 0 (int (length xs) - 1)
             else int (length (trim_end (in_cset cset) xs)) - 1)"
proof (induction xs arbitrary: r rule: rev_induct)
  case Nil
  then show ?case by (simp add: trim_right.simps)
next
  case (snoc x xs)
  show ?case
  proof (cases "xs = []")
    case True
    then show ?thesis by (simp add: trim_right.simps)
  next
    case False
    with snoc [of "x # r"] show ?thesis
      by (subst trim_right.simps) (simp add: nth_append)
  qed
qed

lemma trim_end_split: "xs = trim_end f xs @ rev (takeWhile f (rev xs))"
  by (metis rev_append rev_rev_ident takeWhile_dropWhile_id)

lemma trim_both:
  "trim_end f t = (if trim_end f (dropWhile f t) = [] then [] else takeWhile f t @ trim_end f (dropWhile f t))"
  "trim_end f (dropWhile f t) = [] \<longrightarrow> dropWhile f t = []"
proof -
  have e: "rev t = rev (dropWhile f t) @ rev (takeWhile f t)"
    by (metis rev_append takeWhile_dropWhile_id)
  show "trim_end f (dropWhile f t) = [] \<longrightarrow> dropWhile f t = []"
  proof
    assume "trim_end f (dropWhile f t) = []"
    then have "\<forall>x \<in> set (dropWhile f t). f x" by simp
    then show "dropWhile f t = []" using hd_dropWhile hd_in_set by blast
  qed
  show "trim_end f t = (if trim_end f (dropWhile f t) = [] then [] else takeWhile f t @ trim_end f (dropWhile f t))"
    unfolding e by (auto simp: dropWhile_append dest: set_takeWhileD)
qed

lemma sdstrim_rep:
  assumes "sds_rep s t"
  shows "\<exists>s'. sdstrim s cset = Some s'
    \<and> sds_rep s' (trim_end (in_cset cset) (dropWhile (in_cset cset) t))"
proof -
  let ?f = "in_cset cset"
  define u where "u = trim_end ?f (dropWhile ?f t)"
  obtain r where r: "sds_buf s = t @ CH_NUL # r" "sdslen s = length t" "sds_len s = length t"
    using assms by (auto simp: sds_rep_def sdslen_def)
  define sp where "sp = length (takeWhile ?f t)"
  define ep where "ep = (if trim_end ?f t = [] then min 0 (int (length t) - 1) else int (length (trim_end ?f t)) - 1)"
  have lt: "trim_left cset (sds_buf s) 0 (int (length t) - 1) = Some (int sp)"
    using trim_left_spec [of 0 "[]" "int (length t) - 1" t cset "CH_NUL # r"] r by (simp add: sp_def)
  have rt: "trim_right cset (sds_buf s) (int (length t) - 1) = Some ep"
    using trim_right_spec [of cset t "CH_NUL # r"] r by (simp add: ep_def)
  have tu: "trim_end ?f t = (if u = [] then [] else takeWhile ?f t @ u)" "u = [] \<longrightarrow> dropWhile ?f t = []"
    unfolding u_def by (rule trim_both)+
  obtain c where c: "dropWhile ?f t = u @ c" using trim_end_split [of "dropWhile ?f t" ?f] u_def by metis
  have "drop sp t = dropWhile ?f t" by (simp add: sp_def dropWhile_eq_drop)
  moreover have lent: "length t = sp + length (dropWhile ?f t)"
    unfolding sp_def length_append [symmetric] by simp
  ultimately have dr: "drop sp t = u @ c" "sp + length u \<le> length t" using c by simp_all
  have len: "(if int sp > ep then 0 else nat (ep - int sp + 1)) = length u"
  proof (cases "u = []")
    case True
    then have "dropWhile ?f t = []" using tu(2) by blast
    then have "sp = length t" using lent by (simp only: list.size)
    then show ?thesis using tu(1) True by (simp add: ep_def)
  next
    case False
    then show ?thesis using tu(1) by (simp add: ep_def sp_def)
  qed
  obtain b where b: "(if int sp \<noteq> 0 then memmove (sds_buf s) 0 (nat (int sp)) (length u) else Some (sds_buf s)) = Some b"
    "length b = length (sds_buf s)" "take (length u) b = u"
    using dr r(1) by (cases "sp = 0") (auto simp: memmove_def read_bytes_def write_bytes_def)
  obtain b' where b': "set_at b (length u) CH_NUL = Some b'"
    "sds_rep (s\<lparr>sds_buf := b', sds_free := u32_of (int (sds_free s) + (int (length t) - int (length u))),
      sds_len := u32_of (int (length u))\<rparr>) u"
    using cut_rep [OF assms b(2,3)] dr(2) by auto
  then show ?thesis
    unfolding sdstrim_def r(2,3) Let_def lt rt bind.bind_lunit len b(1) b'(1) u_def [symmetric] by blast
qed

section \<open>The other operations\<close>

lemma sdscpylen_rep:
  assumes "sds_rep s t" and "n \<le> length u" and "2 * max n (length t) + SDS_MAX_PREALLOC < 2 ^ 31"
  shows "\<exists>s'. sdscpylen junk s u n = Some s' \<and> sds_rep s' (take n u)"
proof -
  define s1 where "s1 = (if sds_free s + sds_len s < n then sdsMakeRoomFor junk s (n - sds_len s) else s)"
  have len: "sds_len s = length t" using assms(1) by (auto simp: sds_rep_def)
  have "sds_rep s1 t \<and> n \<le> sds_free s1 + length t"
  proof (cases "sds_free s + sds_len s < n")
    case True
    then have "2 * (length t + (n - length t)) + SDS_MAX_PREALLOC < 2 ^ 31" using assms(3) len by simp
    from sdsMakeRoomFor_rep [OF assms(1) this, of junk] show ?thesis using True len unfolding s1_def by simp linarith
  next
    case False
    then show ?thesis using assms(1) len by (simp add: s1_def)
  qed
  then obtain r where r: "s1 = \<lparr>sds_len = length t, sds_free = length r, sds_buf = t @ CH_NUL # r\<rparr>"
    "length t + length r < 2 ^ 31" "n \<le> length r + length t"
    by (metis sds_repE sdshdr.select_convs(2))
  obtain x r' where x: "drop n (t @ CH_NUL # r) = x # r'" "length r' = length t + length r - n"
    using r(3) by (cases "drop n (t @ CH_NUL # r)") (auto dest: arg_cong [where f = length])
  have "write_bytes (t @ CH_NUL # r) 0 (take n u) = Some (take n u @ x # r')"
    using x(1) r(3) assms(2) by (simp add: write_bytes_def min_def)
  then have "sdscpylen junk s u n = Some \<lparr>sds_len = n, sds_free = length r', sds_buf = take n u @ CH_NUL # r'\<rparr>"
    using r x(2) assms(2) unfolding sdscpylen_def s1_def [symmetric] Let_def
    by (simp add: read_bytes_def list_update_append add.commute)
  then show ?thesis using assms(2) r x(2) by (auto intro!: sds_repI)
qed

lemma sdsgrowzero_rep:
  assumes "sds_rep s t" and "2 * n + SDS_MAX_PREALLOC < 2 ^ 31"
  shows "\<exists>s'. sdsgrowzero junk s n = Some s' \<and> sds_rep s' (t @ replicate (n - length t) 0)"
proof (cases "n \<le> length t")
  case True
  then show ?thesis using assms(1) by (auto simp: sdsgrowzero_def sds_rep_def)
next
  case False
  have len: "sds_len s = length t" using assms(1) by (auto simp: sds_rep_def)
  let ?k = "n - length t"
  obtain r where r: "sdsMakeRoomFor junk s ?k = \<lparr>sds_len = length t, sds_free = length r, sds_buf = t @ CH_NUL # r\<rparr>"
    "length t + length r < 2 ^ 31" "?k \<le> length r"
    using sdsMakeRoomFor_rep [OF assms(1), of ?k junk] assms(2) False by (metis sds_repE sdshdr.select_convs(2)
        add_diff_inverse_nat less_or_eq_imp_le linorder_not_le)
  have "write_bytes (t @ CH_NUL # r) (length t) (replicate (?k + 1) 0)
      = Some (t @ replicate ?k 0 @ CH_NUL # drop ?k r)"
    using r(3) by (simp add: write_bytes_def replicate_append_same [symmetric])
  then have "sdsgrowzero junk s n = Some \<lparr>sds_len = n, sds_free = length (drop ?k r),
      sds_buf = (t @ replicate ?k 0) @ CH_NUL # drop ?k r\<rparr>"
    using r False len assms(2) by (simp add: sdsgrowzero_def Let_def)
  then show ?thesis using r(2,3) False by (auto intro!: sds_repI)
qed

lemma sdsclear_rep:
  assumes "sds_rep s t"
  shows "\<exists>s'. sdsclear s = Some s' \<and> sds_rep s' [] \<and> sds_len s' + sds_free s' = sds_len s + sds_free s"
proof -
  obtain r where r: "s = \<lparr>sds_len = length t, sds_free = length r, sds_buf = t @ CH_NUL # r\<rparr>"
    "length t + length r < 2 ^ 31" by (rule sds_repE [OF assms])
  obtain x r' where "t @ CH_NUL # r = x # r'" "length r' = length t + length r"
    by (cases t) auto
  then show ?thesis using r by (auto simp: sdsclear_def intro!: sds_repI)
qed

lemma map_prefix_spec: "n \<le> length m \<Longrightarrow> map_prefix f n m = Some (map f (take n m) @ drop n m)"
  by (induction f n m rule: map_prefix.induct) auto

lemma sdstolower_rep:
  "sds_rep s t \<Longrightarrow> \<exists>s'. sdstolower s = Some s' \<and> sds_rep s' (map tolower t)"
  by (auto simp: sds_rep_def sdstolower_def sdslen_def map_prefix_spec)

section \<open>Properties\<close>

text \<open>
  The operations that build a string, on a well-formed one and within the 31-bit
  lengths of the header: appending, overwriting and growing with zeros stay inside the
  buffer, whatever its free space and the content of fresh memory, give a well-formed
  string, and have the effect on the text that their names say.
\<close>

theorem sds_build_correct:
  assumes "sds_wf s" and "n \<le> length u" and "2 * (sdslen s + n) + SDS_MAX_PREALLOC < 2 ^ 31"
  shows "\<exists>a b c. sdscatlen junk s u n = Some a \<and> sds_wf a \<and> sds_text a = sds_text s @ take n u
    \<and> sdscpylen junk s u n = Some b \<and> sds_wf b \<and> sds_text b = take n u
    \<and> sdsgrowzero junk s n = Some c \<and> sds_wf c
    \<and> sds_text c = sds_text s @ replicate (n - sdslen s) 0"
proof -
  have rep: "sds_rep s (sds_text s)" using assms(1) by (simp add: sds_rep_iff)
  have len: "sdslen s = length (sds_text s)" using assms(1) by (simp add: sds_wf_def sds_text_def sdslen_def)
  obtain a where "sdscatlen junk s u n = Some a" "sds_rep a (sds_text s @ take n u)"
    using sdscatlen_rep [OF rep assms(2)] assms(3) len by auto
  moreover obtain b where "sdscpylen junk s u n = Some b" "sds_rep b (take n u)"
    using sdscpylen_rep [OF rep assms(2)] assms(3) len by auto
  moreover obtain c where "sdsgrowzero junk s n = Some c" "sds_rep c (sds_text s @ replicate (n - length (sds_text s)) 0)"
    using sdsgrowzero_rep [OF rep, of n junk] assms(3) len by auto
  ultimately show ?thesis unfolding sds_rep_iff len by blast
qed

text \<open>
  The operations that keep a part of a well-formed string work in place without
  leaving the buffer: \<open>sdsrange\<close> keeps the bytes between two indexes, where negative ones
  count from the end and those out of range are clipped, and \<open>sdstrim\<close> removes the bytes of
  a set from both ends. As \<open>strchr\<close> finds the terminator of the set, NUL bytes at the ends
  are removed by every \<open>sdstrim\<close>.
\<close>

theorem sds_cut_correct:
  assumes "sds_wf s"
  shows "\<exists>a b. sdsrange s start en = Some a \<and> sds_wf a \<and> sds_text a = redis_range start en (sds_text s)
    \<and> sdstrim s cset = Some b \<and> sds_wf b
    \<and> sds_text b = trim_end (\<lambda>c. c = CH_NUL \<or> c \<in> set cset)
         (dropWhile (\<lambda>c. c = CH_NUL \<or> c \<in> set cset) (sds_text s))"
proof -
  have rep: "sds_rep s (sds_text s)" using assms by (simp add: sds_rep_iff)
  from sdsrange_rep [OF rep, of start en] sdstrim_rep [OF rep, of cset] show ?thesis
    unfolding sds_rep_iff in_cset_def [abs_def] by blast
qed


definition ex_sds :: sdshdr where
  "ex_sds = \<lparr>sds_len = 5, sds_free = 1, sds_buf = bytes_of '' abc '' @ [CH_NUL, 7]\<rparr>"

lemma ex_sds_wf: "sds_wf ex_sds" "sdslen ex_sds = 5"
  by (simp_all add: ex_sds_def sds_wf_def bytes_of_def sdslen_def)

theorem sds_build_correct_witness:
  "\<exists>a b c. sdscatlen (\<lambda>_. 170) ex_sds [1, 2, 3] 2 = Some a \<and> sds_wf a \<and> sds_text a = sds_text ex_sds @ take 2 [1, 2, 3]
    \<and> sdscpylen (\<lambda>_. 170) ex_sds [1, 2, 3] 2 = Some b \<and> sds_wf b \<and> sds_text b = take 2 [1, 2, 3]
    \<and> sdsgrowzero (\<lambda>_. 170) ex_sds 2 = Some c \<and> sds_wf c
    \<and> sds_text c = sds_text ex_sds @ replicate (2 - sdslen ex_sds) 0"
  by (rule sds_build_correct) (simp_all add: ex_sds_wf)

theorem sds_cut_correct_witness:
  "\<exists>a b. sdsrange ex_sds (-3) (-1) = Some a \<and> sds_wf a \<and> sds_text a = redis_range (-3) (-1) (sds_text ex_sds)
    \<and> sdstrim ex_sds [CH_SPACE] = Some b \<and> sds_wf b
    \<and> sds_text b = trim_end (\<lambda>c. c = CH_NUL \<or> c \<in> set [CH_SPACE])
         (dropWhile (\<lambda>c. c = CH_NUL \<or> c \<in> set [CH_SPACE]) (sds_text ex_sds))"
  by (rule sds_cut_correct) (rule ex_sds_wf)


end
