(* ===== verification/Sds_Args.thy ===== *)
theory Sds_Args
  imports Sds "HOL-Library.Sublist"
begin

text \<open>
  Splitting and quoting of \<^verbatim>\<open>sds.c\<close>: \<open>sdssplitlen\<close> (by a separator), \<open>sdscatrepr\<close> (the
  quoted, printable form of a string) and \<open>sdssplitargs\<close> (the parser of configuration lines
  and inline commands, with its two kinds of quotes). The main theorem is their round trip.
\<close>

section \<open>Splitting by a separator\<close>

text \<open>
  \<open>slots\<close> is the capacity of the array of tokens, which doubles; a token stored outside it
  is a fault. The tokens found so far are \<open>tokens\<close>.
\<close>

definition store_token :: "nat \<Rightarrow> sdshdr list \<Rightarrow> sdshdr \<Rightarrow> sdshdr list option" where
  "store_token slots tokens tok = (if length tokens < slots then Some (tokens @ [tok]) else None)"

function splitlen_loop ::
  "(nat \<Rightarrow> byte) \<Rightarrow> mem \<Rightarrow> nat \<Rightarrow> byte list \<Rightarrow> nat \<Rightarrow> sdshdr list \<Rightarrow> nat \<Rightarrow> nat \<Rightarrow> sdshdr list option" where
  "splitlen_loop junk s len sep slots tokens start j =
     (if sep = [] then None
      else if int j < int len - (int (length sep) - 1) then
        (let slots = (if slots < length tokens + 2 then slots * 2 else slots) in
         case read_bytes s j (length sep) of
           None \<Rightarrow> None
         | Some w \<Rightarrow>
             if w = sep then
               (case sdsnewlen junk (Some (drop start s)) (j - start) of
                  None \<Rightarrow> None
                | Some tok \<Rightarrow>
                    (case store_token slots tokens tok of
                       None \<Rightarrow> None
                     | Some tokens' \<Rightarrow>
                         splitlen_loop junk s len sep slots tokens' (j + length sep) (j + length sep)))
             else splitlen_loop junk s len sep slots tokens start (j + 1))
      else do {
        tok \<leftarrow> sdsnewlen junk (Some (drop start s)) (len - start);
        store_token slots tokens tok })"
  by pat_completeness auto
termination
  by (relation "measure (\<lambda>(junk, s, len, sep, slots, tokens, start, j). len - j)") (auto simp: neq_Nil_conv)

declare splitlen_loop.simps [simp del]

text \<open>The inner \<open>None\<close> is the null pointer; the count is the length of the list.\<close>

definition sdssplitlen ::
  "(nat \<Rightarrow> byte) \<Rightarrow> mem \<Rightarrow> int \<Rightarrow> byte list \<Rightarrow> sdshdr list option option" where
  "sdssplitlen junk s len sep =
     (if int (length sep) < 1 \<or> len < 0 then Some None
      else if len = 0 then Some (Some [])
      else map_option Some (splitlen_loop junk s (nat len) sep 5 [] 0 0))"

section \<open>Quoting\<close>

definition hex_char :: "nat \<Rightarrow> byte" where
  "hex_char d = (if d < 10 then 48 + of_nat d else 87 + of_nat d)"

definition repr_char :: "byte \<Rightarrow> byte list" where
  "repr_char c =
     (if c = CH_BACKSLASH \<or> c = CH_DQUOTE then [CH_BACKSLASH, c]
      else if c = CH_LF then [CH_BACKSLASH, 110]
      else if c = CH_CR then [CH_BACKSLASH, 114]
      else if c = CH_TAB then [CH_BACKSLASH, 116]
      else if c = 7 then [CH_BACKSLASH, 97]
      else if c = 8 then [CH_BACKSLASH, 98]
      else if isprint c then [c]
      else [CH_BACKSLASH, 120, hex_char (unat c div 16), hex_char (unat c mod 16)])"

text \<open>
  \<open>sdscatprintf\<close> with the formats used here appends a short text without NUL bytes; it is
  \<open>sdscatlen\<close> of that text.
\<close>

fun catrepr_loop :: "(nat \<Rightarrow> byte) \<Rightarrow> sdshdr \<Rightarrow> byte list \<Rightarrow> sdshdr option" where
  "catrepr_loop junk s [] = Some s"
| "catrepr_loop junk s (c # p) = do {
     s \<leftarrow> sdscatlen junk s (repr_char c) (length (repr_char c));
     catrepr_loop junk s p }"

definition sdscatrepr :: "(nat \<Rightarrow> byte) \<Rightarrow> sdshdr \<Rightarrow> byte list \<Rightarrow> sdshdr option" where
  "sdscatrepr junk s p = do {
     s \<leftarrow> sdscatlen junk s [CH_DQUOTE] 1;
     s \<leftarrow> catrepr_loop junk s p;
     sdscatlen junk s [CH_DQUOTE] 1 }"

section \<open>Parsing arguments\<close>

definition is_hex_digit :: "byte \<Rightarrow> bool" where
  "is_hex_digit c \<longleftrightarrow> (48 \<le> c \<and> c \<le> 57) \<or> (97 \<le> c \<and> c \<le> 102) \<or> (65 \<le> c \<and> c \<le> 70)"

definition hex_digit_to_int :: "byte \<Rightarrow> nat" where
  "hex_digit_to_int c =
     (if 48 \<le> c \<and> c \<le> 57 then unat c - 48
      else if 97 \<le> c \<and> c \<le> 102 then unat c - 87
      else if 65 \<le> c \<and> c \<le> 70 then unat c - 55
      else 0)"

definition unescape :: "byte \<Rightarrow> byte" where
  "unescape c = (if c = 110 then CH_LF else if c = 114 then CH_CR else if c = 116 then CH_TAB
     else if c = 98 then 8 else if c = 97 then 7 else c)"

datatype quoting = Plain | InQ | InSq

text \<open>
  One token: \<open>None\<close> is a read past the end of the line, \<open>Some None\<close> unbalanced quotes. The
  string \<open>current\<close> that the code appends to byte by byte is kept as its text.
\<close>

function (sequential) args_token :: "quoting \<Rightarrow> mem \<Rightarrow> byte list \<Rightarrow> (byte list \<times> mem) option option" where
  "args_token q [] cur = None"
| "args_token InQ (c # p) cur =
     (if c = CH_BACKSLASH then
        (case p of
           [] \<Rightarrow> None
         | d # p2 \<Rightarrow>
             let plain = (if d \<noteq> CH_NUL then args_token InQ p2 (cur @ [unescape d])
                          else args_token InQ p (cur @ [c])) in
             if d = 120 then
               (case p2 of
                  [] \<Rightarrow> None
                | e # p3 \<Rightarrow>
                    if is_hex_digit e then
                      (case p3 of
                         [] \<Rightarrow> None
                       | f # p4 \<Rightarrow>
                           if is_hex_digit f
                           then args_token InQ p4 (cur @ [of_nat (hex_digit_to_int e * 16 + hex_digit_to_int f)])
                           else plain)
                    else plain)
             else plain)
      else if c = CH_DQUOTE then
        (case p of
           [] \<Rightarrow> None
         | d # p2 \<Rightarrow> if d \<noteq> CH_NUL \<and> \<not> isspace d then Some None else Some (Some (cur, p)))
      else if c = CH_NUL then Some None
      else args_token InQ p (cur @ [c]))"
| "args_token InSq (c # p) cur =
     (if c = CH_BACKSLASH then
        (case p of
           [] \<Rightarrow> None
         | d # p2 \<Rightarrow> if d = CH_SQUOTE then args_token InSq p2 (cur @ [CH_SQUOTE])
                    else args_token InSq p (cur @ [c]))
      else if c = CH_SQUOTE then
        (case p of
           [] \<Rightarrow> None
         | d # p2 \<Rightarrow> if d \<noteq> CH_NUL \<and> \<not> isspace d then Some None else Some (Some (cur, p)))
      else if c = CH_NUL then Some None
      else args_token InSq p (cur @ [c]))"
| "args_token Plain (c # p) cur =
     (if c = CH_SPACE \<or> c = CH_LF \<or> c = CH_CR \<or> c = CH_TAB then Some (Some (cur, p))
      else if c = CH_NUL then Some (Some (cur, c # p))
      else if c = CH_DQUOTE then args_token InQ p cur
      else if c = CH_SQUOTE then args_token InSq p cur
      else args_token Plain p (cur @ [c]))"
  by pat_completeness auto
termination by (relation "measure (\<lambda>(q, p, cur). length p)") auto

declare args_token.simps(2-4) [simp del]

fun skip_space :: "mem \<Rightarrow> mem option" where
  "skip_space [] = None"
| "skip_space (c # p) = (if c \<noteq> CH_NUL \<and> isspace c then skip_space p else Some (c # p))"

lemma args_token_bound:
  "length p \<le> n \<Longrightarrow>
   pred_option (pred_option (\<lambda>(t, p'). length p' \<le> n)) (args_token q p cur)"
proof (induction q p cur rule: args_token.induct)
  case (2 c p cur)
  then show ?case by (subst args_token.simps) (auto simp: Let_def split: list.split)
next
  case (3 c p cur)
  then show ?case by (subst args_token.simps) (auto split: list.split)
next
  case (4 c p cur)
  then show ?case by (subst args_token.simps) auto
qed simp

lemma skip_space_length: "skip_space p = Some p' \<Longrightarrow> length p' \<le> length p \<and> (\<exists>c q. p' = c # q \<and> (c = CH_NUL \<or> \<not> isspace c))"
  by (induction p) (auto split: if_splits)

lemma args_token_progress:
  assumes "args_token Plain (c # p) [] = Some (Some (t, p'))" and "c \<noteq> CH_NUL" and "\<not> isspace c"
  shows "length p' \<le> length p"
proof -
  have "args_token Plain (c # p) [] = (if c = CH_DQUOTE then args_token InQ p []
      else if c = CH_SQUOTE then args_token InSq p [] else args_token Plain p [c])"
    using assms(2,3) by (subst args_token.simps) (auto simp: isspace_def)
  then obtain q cur where "args_token q p cur = Some (Some (t, p'))" using assms(1) by (metis)
  with args_token_bound [of p "length p" q cur] show ?thesis by simp
qed

function args_loop :: "mem \<Rightarrow> byte list list \<Rightarrow> byte list list option option" where
  "args_loop p vector =
     (case skip_space p of
        None \<Rightarrow> None
      | Some [] \<Rightarrow> None
      | Some (c # p1) \<Rightarrow>
          if c = CH_NUL then Some (Some vector)
          else
            (case args_token Plain (c # p1) [] of
               None \<Rightarrow> None
             | Some None \<Rightarrow> Some None
             | Some (Some (tok, p2)) \<Rightarrow> args_loop p2 (vector @ [tok])))"
  by pat_completeness auto
termination
  by (relation "measure (\<lambda>(p, vector). length p)") (auto dest!: skip_space_length args_token_progress)

declare args_loop.simps [simp del]

definition sdssplitargs :: "mem \<Rightarrow> byte list list option option" where
  "sdssplitargs line = args_loop line []"

section \<open>The round trip of quoting and parsing\<close>

definition repr_text :: "byte list \<Rightarrow> byte list" where
  "repr_text t = CH_DQUOTE # concat (map repr_char t) @ [CH_DQUOTE]"

lemma byte_range: "unat (c :: byte) < 256"
proof -
  have "unat c < 2 ^ LENGTH(8)" by (rule unsigned_less)
  then show ?thesis by simp
qed

lemma hex_char_digit:
  assumes "d < 16"
  shows "is_hex_digit (hex_char d)" and "hex_digit_to_int (hex_char d) = d"
proof -
  have "unat (48 + of_nat d :: byte) = 48 + d" "unat (87 + of_nat d :: byte) = 87 + d"
    using assms by (simp_all add: unat_word_ariths unat_of_nat)
  then show "is_hex_digit (hex_char d)" "hex_digit_to_int (hex_char d) = d"
    using assms by (auto simp: is_hex_digit_def hex_digit_to_int_def hex_char_def word_le_nat_alt)
qed

lemma hex_pair: "of_nat (hex_digit_to_int (hex_char (unat c div 16)) * 16 + hex_digit_to_int (hex_char (unat c mod 16))) = (c :: byte)"
  using byte_range [of c] by (simp add: hex_char_digit less_mult_imp_div_less)

lemma args_token_repr_char:
  "args_token InQ (repr_char c @ p) cur = args_token InQ p (cur @ [c])"
proof -
  let ?e = "hex_char (unat c div 16)" and ?f = "hex_char (unat c mod 16)"
  have "is_hex_digit ?e" "is_hex_digit ?f"
    using byte_range [of c] by (simp_all add: hex_char_digit less_mult_imp_div_less)
  then have "args_token InQ (CH_BACKSLASH # 120 # ?e # ?f # p) cur = args_token InQ p (cur @ [c])"
    by (subst args_token.simps) (simp add: hex_pair del: of_nat_add of_nat_mult)
  moreover have "args_token InQ (CH_BACKSLASH # d # p) cur = args_token InQ p (cur @ [unescape d])"
    if "d \<noteq> 120" "d \<noteq> CH_NUL" for d
    using that by (subst args_token.simps) simp
  moreover have "args_token InQ (c # p) cur = args_token InQ p (cur @ [c])"
    if "c \<noteq> CH_BACKSLASH" "c \<noteq> CH_DQUOTE" "isprint c"
    using that by (subst args_token.simps) (auto simp: isprint_def)
  ultimately show ?thesis
    by (simp add: repr_char_def unescape_def)
qed

lemma args_token_repr:
  "args_token InQ (concat (map repr_char t) @ p) cur = args_token InQ p (cur @ t)"
  by (induction t arbitrary: cur) (simp_all add: args_token_repr_char)

lemma args_token_quoted:
  assumes "d = CH_NUL \<or> isspace d"
  shows "args_token Plain (repr_text t @ d # p) [] = Some (Some (t, d # p))"
proof -
  have "args_token Plain (repr_text t @ d # p) [] = args_token InQ (concat (map repr_char t) @ CH_DQUOTE # d # p) []"
    by (simp add: repr_text_def args_token.simps(4))
  also have "\<dots> = args_token InQ (CH_DQUOTE # d # p) t" by (simp add: args_token_repr)
  also have "\<dots> = Some (Some (t, d # p))" using assms by (subst args_token.simps) simp
  finally show ?thesis .
qed

lemma args_loop_quoted:
  assumes "list_all isspace gap" and "gap \<noteq> [] \<or> ts = []"
  shows "args_loop (gap @ concat (map (\<lambda>t. repr_text t @ gap) ts) @ CH_NUL # rest) vector = Some (Some (vector @ ts))"
proof -
  have sk: "skip_space (gap @ c # q) = Some (c # q)" if "c = CH_NUL \<or> \<not> isspace c" for c q
    using assms(1) that by (induction gap) (auto simp: isspace_def)
  show ?thesis
    using assms(2)
  proof (induction ts arbitrary: vector)
    case Nil
    then show ?case using sk [of CH_NUL rest] by (subst args_loop.simps) simp
  next
    case (Cons t ts)
    let ?rest = "gap @ concat (map (\<lambda>t. repr_text t @ gap) ts) @ CH_NUL # rest"
    obtain d g where g: "gap = d # g" "isspace d" using assms(1) Cons.prems by (cases gap) auto
    have "args_token Plain (repr_text t @ ?rest) [] = Some (Some (t, ?rest))"
      using args_token_quoted [of d t] g by simp
    moreover have "skip_space (gap @ repr_text t @ ?rest) = Some (repr_text t @ ?rest)"
      using sk [of CH_DQUOTE] by (simp add: repr_text_def isspace_def)
    moreover have "hd (repr_text t @ ?rest) \<noteq> CH_NUL" by (simp add: repr_text_def)
    ultimately have "args_loop (gap @ repr_text t @ ?rest) vector = args_loop ?rest (vector @ [t])"
      by (subst args_loop.simps) (simp add: repr_text_def)
    with Cons show ?case by simp
  qed
qed

lemma catrepr_loop_rep:
  assumes "sds_rep s t" and "2 * (length t + length (concat (map repr_char p))) + SDS_MAX_PREALLOC < 2 ^ 31"
  shows "\<exists>s'. catrepr_loop junk s p = Some s' \<and> sds_rep s' (t @ concat (map repr_char p))"
  using assms
proof (induction p arbitrary: s t)
  case (Cons c p)
  obtain s1 where s1: "sdscatlen junk s (repr_char c) (length (repr_char c)) = Some s1" "sds_rep s1 (t @ repr_char c)"
    using sdscatlen_rep [OF Cons.prems(1), of "length (repr_char c)" "repr_char c" junk] Cons.prems(2) by auto
  from Cons.IH [OF s1(2)] Cons.prems(2) s1(1) show ?case by auto
qed simp

lemma sdscatrepr_rep:
  assumes "sds_rep s t" and "2 * (length t + length (repr_text p)) + SDS_MAX_PREALLOC < 2 ^ 31"
  shows "\<exists>s'. sdscatrepr junk s p = Some s' \<and> sds_rep s' (t @ repr_text p)"
proof -
  obtain s1 where s1: "sdscatlen junk s [CH_DQUOTE] 1 = Some s1" "sds_rep s1 (t @ [CH_DQUOTE])"
    using sdscatlen_rep [OF assms(1), of 1 "[CH_DQUOTE]" junk] assms(2) by (auto simp: repr_text_def)
  obtain s2 where s2: "catrepr_loop junk s1 p = Some s2" "sds_rep s2 ((t @ [CH_DQUOTE]) @ concat (map repr_char p))"
    using catrepr_loop_rep [OF s1(2), of p junk] assms(2) by (auto simp: repr_text_def)
  from sdscatlen_rep [OF s2(2), of 1 "[CH_DQUOTE]" junk] assms(2) s1(1) s2(1) show ?thesis
    by (auto simp: sdscatrepr_def repr_text_def)
qed

section \<open>Splitting\<close>

text \<open>The separator does not start at any of the positions from \<open>a\<close> below \<open>b\<close>.\<close>

definition no_sep :: "byte list \<Rightarrow> byte list \<Rightarrow> nat \<Rightarrow> nat \<Rightarrow> bool" where
  "no_sep sep t a b \<longleftrightarrow> (\<forall>k. a \<le> k \<and> k < b \<longrightarrow> take (length sep) (drop k t) \<noteq> sep)"

definition join :: "byte list \<Rightarrow> byte list list \<Rightarrow> byte list" where
  "join sep ts = concat (map (\<lambda>t. t @ sep) (butlast ts)) @ last ts"

lemma join_Cons: "ts \<noteq> [] \<Longrightarrow> join sep (t # ts) = t @ sep @ join sep ts"
  by (simp add: join_def)

lemma token_no_sep:
  assumes "no_sep sep t a b" and "b \<le> length t" and "sep \<noteq> []"
  shows "\<not> sublist sep (take (b - a) (drop a t))"
proof
  assume "sublist sep (take (b - a) (drop a t))"
  then obtain xs ys where e: "take (b - a) (drop a t) = xs @ sep @ ys" by (auto simp: sublist_def)
  have l: "length xs + length sep \<le> b - a" using arg_cong [OF e, of length] by simp
  then have k: "a + length xs < b" using assms(3) by (cases sep) auto
  have "take (length sep) (drop (length xs) (take (b - a) (drop a t))) = sep" unfolding e by simp
  then have "take (length sep) (drop (a + length xs) t) = sep"
  proof -
    have "length sep \<le> b - (a + length xs)" using l by linarith
    with \<open>take (length sep) (drop (length xs) _) = sep\<close> show ?thesis
      by (simp add: drop_take min_def add.commute)
  qed
  with assms(1) k show False by (auto simp: no_sep_def)
qed

lemma splitlen_step:
  assumes "sep \<noteq> []" and "int j < int len - (int (length sep) - 1)" and "read_bytes s j (length sep) = Some w"
    and "slots' = (if slots < length tokens + 2 then slots * 2 else slots)"
  shows "w \<noteq> sep \<Longrightarrow> splitlen_loop junk s len sep slots tokens start j
      = splitlen_loop junk s len sep slots' tokens start (j + 1)"
    and "w = sep \<Longrightarrow> sdsnewlen junk (Some (drop start s)) (j - start) = Some tok \<Longrightarrow>
      store_token slots' tokens tok = Some tokens' \<Longrightarrow>
      splitlen_loop junk s len sep slots tokens start j
        = splitlen_loop junk s len sep slots' tokens' (j + length sep) (j + length sep)"
  by (subst splitlen_loop.simps, use assms in \<open>simp add: Let_def\<close>)+

lemma splitlen_loop_spec:
  assumes "length tokens < slots" and "start \<le> j" and "start \<le> length t" and "sep \<noteq> []" and "length t < 2 ^ 31"
    and "no_sep sep t start j" and "j \<le> length t"
  shows "\<exists>toks. splitlen_loop junk (t @ r) (length t) sep slots tokens start j = Some (tokens @ toks) \<and> toks \<noteq> []
    \<and> list_all sds_wf toks \<and> join sep (map sds_text toks) = drop start t
    \<and> (\<forall>x \<in> set toks. \<not> sublist sep (sds_text x))"
  using assms
proof (induction junk "t @ r" "length t" sep slots tokens start j rule: splitlen_loop.induct)
  case (1 junk sep slots tokens start j)
  note p = "1.prems"
  define slots' where "slots' = (if slots < length tokens + 2 then slots * 2 else slots)"
  have sl: "length tokens + 2 \<le> slots'" using p(1) by (auto simp: slots'_def)
  show ?case
  proof (cases "int j < int (length t) - (int (length sep) - 1)")
    case False
    have "length t - start \<le> length (drop start (t @ r))" "length t - start < 2 ^ 31" using p(3,5) by simp_all
    from sdsnewlen_rep [OF this, of junk] obtain tok where
      tok: "sdsnewlen junk (Some (drop start (t @ r))) (length t - start) = Some tok"
        "sds_rep tok (take (length t - start) (drop start (t @ r)))" by blast
    then have tx: "sds_text tok = drop start t" "sds_wf tok" using p(3) by (simp_all add: sds_rep_iff)
    have "no_sep sep t start (length t)" unfolding no_sep_def
    proof (intro allI impI)
      fix k assume k: "start \<le> k \<and> k < length t"
      show "take (length sep) (drop k t) \<noteq> sep"
      proof (cases "k < j")
        case False
        then have "length (take (length sep) (drop k t)) < length sep"
          using \<open>\<not> int j < _\<close> k p(4) by (cases sep) auto
        then show ?thesis by auto
      qed (use p(6) k in \<open>simp add: no_sep_def\<close>)
    qed
    from token_no_sep [OF this] tx p(4) have "\<not> sublist sep (sds_text tok)" by simp
    then show ?thesis using False tok(1) tx p(1,4)
      by (subst splitlen_loop.simps) (auto simp: store_token_def join_def intro!: exI [of _ "[tok]"])
  next
    case True
    then have rd: "read_bytes (t @ r) j (length sep) = Some (take (length sep) (drop j t))"
      by (simp add: read_bytes_def)
    show ?thesis
    proof (cases "take (length sep) (drop j t) = sep")
      case sep: True
      have "j - start \<le> length (drop start (t @ r))" "j - start < 2 ^ 31" using p(2,3,5,7) by simp_all
      from sdsnewlen_rep [OF this, of junk] obtain tok where
        tok: "sdsnewlen junk (Some (drop start (t @ r))) (j - start) = Some tok"
          "sds_rep tok (take (j - start) (drop start (t @ r)))" by blast
      then have tx: "sds_text tok = take (j - start) (drop start t)" "sds_wf tok"
        using p by (simp_all add: sds_rep_iff)
      have st: "store_token slots' tokens tok = Some (tokens @ [tok])" using sl by (simp add: store_token_def)
      have jl: "j + length sep \<le> length t" using True by simp
      obtain toks where toks: "splitlen_loop junk (t @ r) (length t) sep slots' (tokens @ [tok]) (j + length sep) (j + length sep)
          = Some ((tokens @ [tok]) @ toks)" "toks \<noteq> []" "list_all sds_wf toks"
        "join sep (map sds_text toks) = drop (j + length sep) t" "\<forall>x \<in> set toks. \<not> sublist sep (sds_text x)"
        using "1.hyps"(1) [OF p(4) True slots'_def rd sep tok(1) st] sl p jl
        by (auto simp: no_sep_def)
      have "drop start t = sds_text tok @ sep @ drop (j + length sep) t"
      proof -
        have "drop start t = take (j - start) (drop start t) @ drop j t"
          using append_take_drop_id [of "j - start" "drop start t"] p(2) by simp
        moreover have "drop j t = sep @ drop (j + length sep) t"
          using append_take_drop_id [of "length sep" "drop j t"] sep by (simp add: add.commute)
        ultimately show ?thesis by (simp add: tx)
      qed
      moreover have "\<not> sublist sep (sds_text tok)"
        using token_no_sep [OF p(6,7,4)] tx by simp
      moreover have "splitlen_loop junk (t @ r) (length t) sep slots tokens start j
          = Some (tokens @ tok # toks)"
        using splitlen_step(2) [OF p(4) True rd slots'_def sep tok(1) st] toks(1) by simp
      ultimately show ?thesis using toks(2-5) tx(2)
        by (intro exI [of _ "tok # toks"]) (simp add: join_Cons)
    next
      case ns: False
      have "no_sep sep t start (j + 1)" using p(6) ns by (auto simp: no_sep_def less_Suc_eq)
      moreover have "j + 1 \<le> length t" using True p(4) by (cases sep) auto
      ultimately show ?thesis
        using "1.hyps"(2) [OF p(4) True slots'_def rd ns] sl p True
          splitlen_step(1) [OF p(4) True rd slots'_def ns] by simp
    qed
  qed
qed

section \<open>Properties\<close>

text \<open>
  C26: \<open>sdscatrepr\<close> and \<open>sdssplitargs\<close> are inverse to each other: a binary string (NUL bytes,
  quotes and control characters included) appended in quoted form, then NUL-terminated by
  the string library, parses back as one argument, which is the string.
\<close>

theorem repr_roundtrip:
  assumes "sds_wf s" and "sdslen s = 0" and "2 * length (repr_text p) + SDS_MAX_PREALLOC < 2 ^ 31"
  shows "\<exists>s'. sdscatrepr junk s p = Some s' \<and> sds_wf s' \<and> sdssplitargs (sds_buf s') = Some (Some [p])"
proof -
  have "sds_rep s []" using assms(1,2) by (simp add: sds_rep_iff sds_text_def sdslen_def)
  from sdscatrepr_rep [OF this, of p junk] assms(3) obtain s' where
    s': "sdscatrepr junk s p = Some s'" "sds_rep s' (repr_text p)" by auto
  then obtain r where r: "sds_buf s' = repr_text p @ CH_NUL # r" by (auto simp: sds_rep_def)
  have "skip_space (repr_text p @ CH_NUL # r) = Some (repr_text p @ CH_NUL # r)"
    by (simp add: repr_text_def isspace_def)
  then have "args_loop (repr_text p @ CH_NUL # r) [] = args_loop (CH_NUL # r) [p]"
    using args_token_quoted [of CH_NUL p r] by (subst args_loop.simps) (simp add: repr_text_def)
  also have "\<dots> = Some (Some [p])" by (subst args_loop.simps) simp
  finally show ?thesis using s' r by (auto simp: sdssplitargs_def sds_rep_iff)
qed

theorem repr_roundtrip_witness:
  "\<exists>s'. sdscatrepr (\<lambda>_. 170) \<lparr>sds_len = 0, sds_free = 0, sds_buf = [CH_NUL]\<rparr> [CH_NUL, CH_DQUOTE, 200] = Some s'
    \<and> sds_wf s' \<and> sdssplitargs (sds_buf s') = Some (Some [[CH_NUL, CH_DQUOTE, 200]])"
  by (rule repr_roundtrip) (simp_all add: sds_wf_def sdslen_def repr_text_def repr_char_def isprint_def)

text \<open>
  A line of quoted strings separated by blanks is parsed into those strings, whatever
  follows the terminator.
\<close>

theorem sdssplitargs_quoted:
  assumes "list_all isspace gap" and "gap \<noteq> []"
  shows "sdssplitargs (gap @ concat (map (\<lambda>t. repr_text t @ gap) ts) @ CH_NUL # rest) = Some (Some ts)"
  using args_loop_quoted [OF assms(1), of ts rest "[]"] assms(2) by (simp add: sdssplitargs_def)

theorem sdssplitargs_quoted_witness:
  "sdssplitargs ([CH_SPACE] @ concat (map (\<lambda>t. repr_text t @ [CH_SPACE]) [[97, CH_SQUOTE], []]) @ CH_NUL # [])
    = Some (Some [[97, CH_SQUOTE], []])"
  by (rule sdssplitargs_quoted) (simp_all add: isspace_def)

text \<open>
  \<open>sdssplitlen\<close> with a non-empty separator stays inside the text and the (growing)
  array of tokens; joining the tokens with the separator gives the text back, and no token
  contains the separator.
\<close>

theorem sdssplitlen_correct:
  assumes "sep \<noteq> []" and "t \<noteq> []" and "length t < 2 ^ 31"
  shows "\<exists>toks. sdssplitlen junk (t @ r) (int (length t)) sep = Some (Some toks) \<and> list_all sds_wf toks
    \<and> join sep (map sds_text toks) = t \<and> (\<forall>x \<in> set toks. \<not> sublist sep (sds_text x))"
proof -
  have "1 \<le> length sep" using assms(1) by (cases sep) auto
  moreover have "no_sep sep t 0 0" by (simp add: no_sep_def)
  ultimately show ?thesis
    using splitlen_loop_spec [of "[]" 5 0 0 t sep junk r] assms by (auto simp: sdssplitlen_def)
qed

theorem sdssplitlen_correct_witness:
  "\<exists>toks. sdssplitlen (\<lambda>_. 170) ([97, 44, 44, 98] @ [CH_NUL]) (int (length [97, 44, 44, 98 :: byte])) [44] = Some (Some toks)
    \<and> list_all sds_wf toks \<and> join [44] (map sds_text toks) = [97, 44, 44, 98]
    \<and> (\<forall>x \<in> set toks. \<not> sublist [44] (sds_text x))"
  by (rule sdssplitlen_correct) simp_all

end
