(* ===== verification/Protocol.thy ===== *)
theory Protocol
  imports Sds_Args
begin

text \<open>
  The request parser of \<^verbatim>\<open>networking.c\<close>: inline requests, multi bulk requests, the loop over
  the query buffer and the read handler. The query buffer is the text of its dynamic string
  (the theorems on \<open>sdsrange\<close>, \<open>sdsMakeRoomFor\<close> and \<open>sdsIncrLen\<close> give the texts), so \<open>sdsrange\<close> is
  \<^const>\<open>redis_range\<close> and \<open>sdsMakeRoomFor\<close> leaves it as it is. \<open>reply\<close> is the output queued for the
  client. \<open>None\<close> is a failed assertion or an access outside an allocation.
\<close>

section \<open>Clients\<close>

datatype request_type = REQ_NONE | REQ_INLINE | REQ_MULTIBULK

record client =
  querybuf :: "byte list"
  querybuf_peak :: nat
  argv :: "byte list list"
  argv_size :: nat
  reqtype :: request_type
  multibulklen :: int
  bulklen :: int
  reply :: "byte list"
  fl_slave :: bool
  fl_master :: bool
  fl_multi :: bool
  fl_blocked :: bool
  fl_asking :: bool
  fl_close_after_reply :: bool
  cmd_is_asking :: bool
  lastinteraction :: int
  repl_ack_time :: int
  reploff :: int

abbreviation REDIS_IOBUF_LEN :: nat where "REDIS_IOBUF_LEN \<equiv> 1024 * 16"
abbreviation REDIS_INLINE_MAX_SIZE :: nat where "REDIS_INLINE_MAX_SIZE \<equiv> 1024 * 64"
abbreviation REDIS_MBULK_BIG_ARG :: nat where "REDIS_MBULK_BIG_ARG \<equiv> 1024 * 32"

abbreviation CRLF :: "byte list" where "CRLF \<equiv> [CH_CR, CH_LF]"

text \<open>
  Output is refused for a master and after the client is marked to be closed; otherwise it is
  appended to what is queued.
\<close>

definition addReplyString :: "client \<Rightarrow> byte list \<Rightarrow> client" where
  "addReplyString c s = (if fl_master c \<or> fl_close_after_reply c then c else c\<lparr>reply := reply c @ s\<rparr>)"

definition addReplyErrorLength :: "client \<Rightarrow> byte list \<Rightarrow> client" where
  "addReplyErrorLength c s = addReplyString (addReplyString (addReplyString c (bytes_of ''-ERR '')) s) CRLF"

definition addReplyError :: "client \<Rightarrow> string \<Rightarrow> client" where
  "addReplyError c err = addReplyErrorLength c (bytes_of err)"

text \<open>
  The formatted text of \<open>addReplyErrorFormat\<close>: it ends at a zero byte, and line ends in it become
  spaces.
\<close>

definition addReplyErrorFormat :: "client \<Rightarrow> byte list \<Rightarrow> client" where
  "addReplyErrorFormat c s =
     addReplyErrorLength c (map (\<lambda>b. if b = CH_CR \<or> b = CH_LF then CH_SPACE else b) (takeWhile (\<lambda>b. b \<noteq> CH_NUL) s))"

text \<open>\<open>strchr\<close> on a terminated string, as an index.\<close>

fun str_index :: "byte \<Rightarrow> byte list \<Rightarrow> nat option" where
  "str_index c [] = None"
| "str_index c (x # xs) = (if x = c then Some 0 else if x = CH_NUL then None else map_option Suc (str_index c xs))"

definition resetClient :: "client \<Rightarrow> client" where
  "resetClient c =
     c\<lparr>argv := [], reqtype := REQ_NONE, multibulklen := 0, bulklen := -1,
       fl_asking := (if \<not> fl_multi c \<and> \<not> cmd_is_asking c then False else fl_asking c), cmd_is_asking := False\<rparr>"

definition setProtocolError :: "client \<Rightarrow> nat \<Rightarrow> client" where
  "setProtocolError c p = c\<lparr>fl_close_after_reply := True, querybuf := redis_range (int p) (-1) (querybuf c)\<rparr>"

section \<open>Inline requests\<close>

text \<open>The result \<open>True\<close> is \<open>REDIS_OK\<close>.\<close>

definition processInlineBuffer :: "int \<Rightarrow> client \<Rightarrow> (bool \<times> client) option" where
  "processInlineBuffer unixtime c =
     (case str_index CH_LF (querybuf c) of
        None \<Rightarrow>
          Some (False, if length (querybuf c) > REDIS_INLINE_MAX_SIZE
                       then setProtocolError (addReplyError c ''Protocol error: too big inline request'') 0 else c)
      | Some newline \<Rightarrow>
          let newline = (if newline \<noteq> 0 \<and> querybuf c ! (newline - 1) = CH_CR then newline - 1 else newline);
              querylen = newline;
              aux = take querylen (querybuf c)
          in do {
            args \<leftarrow> sdssplitargs (aux @ [CH_NUL]);
            (case args of
               None \<Rightarrow> Some (False, setProtocolError (addReplyError c ''Protocol error: unbalanced quotes in request'') 0)
             | Some args \<Rightarrow>
                 let c = (if querylen = 0 \<and> fl_slave c then c\<lparr>repl_ack_time := unixtime\<rparr> else c);
                     c = c\<lparr>querybuf := redis_range (int (querylen + 2)) (-1) (querybuf c)\<rparr>;
                     c = (if args \<noteq> [] then c\<lparr>argv_size := length args\<rparr> else c)
                 in Some (True, c\<lparr>argv := filter (\<lambda>a. a \<noteq> []) args\<rparr>)) })"

section \<open>Multi bulk requests\<close>

datatype parse_ctl = Return bool client | Break nat client | Next nat client

text \<open>The count of the arguments: the part of \<open>processMultibulkBuffer\<close> for a new request.\<close>

definition read_multibulklen :: "client \<Rightarrow> parse_ctl option" where
  "read_multibulklen c =
     (if argv c \<noteq> [] then None
      else case str_index CH_CR (querybuf c) of
        None \<Rightarrow>
          Some (Return False
            (if length (querybuf c) > REDIS_INLINE_MAX_SIZE
             then setProtocolError (addReplyError c ''Protocol error: too big mbulk count string'') 0 else c))
      | Some newline \<Rightarrow>
          if int newline > cast_int (int (length (querybuf c))) - 2 then Some (Return False c)
          else if querybuf c ! 0 \<noteq> CH_STAR then None
          else
            let ok = string2ll (take (newline - 1) (drop 1 (querybuf c))) in
            if ok = None \<or> the ok > 1024 * 1024 then
              Some (Return False (setProtocolError (addReplyError c ''Protocol error: invalid multibulk length'') 0))
            else
              let ll = the ok; p = newline + 2 in
              if ll \<le> 0 then Some (Return True (c\<lparr>querybuf := redis_range (int p) (-1) (querybuf c)\<rparr>))
              else Some (Next p (c\<lparr>multibulklen := ll, argv_size := nat ll\<rparr>)))"

text \<open>The length of the next argument, when it is not known yet.\<close>

definition read_bulklen :: "nat \<Rightarrow> client \<Rightarrow> parse_ctl option" where
  "read_bulklen p c =
     (if bulklen c \<noteq> -1 then Some (Next p c)
      else if p > length (querybuf c) then None
      else case str_index CH_CR (drop p (querybuf c)) of
        None \<Rightarrow>
          Some (if length (querybuf c) > REDIS_INLINE_MAX_SIZE
                then Return False (setProtocolError (addReplyError c ''Protocol error: too big bulk count string'') 0)
                else Break p c)
      | Some n \<Rightarrow>
          let newline = p + n in
          if int newline > cast_int (int (length (querybuf c))) - 2 then Some (Break p c)
          else if querybuf c ! p \<noteq> CH_DOLLAR then
            Some (Return False (setProtocolError
              (addReplyErrorFormat c (bytes_of ''Protocol error: expected '' @ [CH_SQUOTE, CH_DOLLAR, CH_SQUOTE]
                 @ bytes_of '', got '' @ [CH_SQUOTE, querybuf c ! p, CH_SQUOTE])) p))
          else
            let ok = string2ll (take (n - 1) (drop (p + 1) (querybuf c))) in
            if ok = None \<or> the ok < 0 \<or> the ok > 512 * 1024 * 1024 then
              Some (Return False (setProtocolError (addReplyError c ''Protocol error: invalid bulk length'') p))
            else
              let ll = the ok; p = newline + 2;
                  (p, c) = (if ll \<ge> int REDIS_MBULK_BIG_ARG then (0, c\<lparr>querybuf := redis_range (int p) (-1) (querybuf c)\<rparr>)
                            else (p, c))
              in Some (Next p (c\<lparr>bulklen := ll\<rparr>)))"

text \<open>\<open>c->argv[c->argc++] = \<dots>\<close>\<close>

definition push_arg :: "client \<Rightarrow> byte list \<Rightarrow> client option" where
  "push_arg c a = (if length (argv c) < argv_size c then Some (c\<lparr>argv := argv c @ [a]\<rparr>) else None)"

text \<open>The argument itself; a large one that fills the buffer is taken over with its string.\<close>

definition read_bulk :: "nat \<Rightarrow> client \<Rightarrow> parse_ctl option" where
  "read_bulk p c =
     (let len = length (querybuf c) in
      if (int len - int p) mod 2 ^ 64 < (bulklen c + 2) mod 2 ^ 32 then Some (Break p c)
      else do {
        (p, c) \<leftarrow>
          (if p = 0 \<and> bulklen c \<ge> int REDIS_MBULK_BIG_ARG \<and> cast_int (int len) = bulklen c + 2 then do {
             c \<leftarrow> push_arg c (take (len - 2) (querybuf c));
             Some (0, c\<lparr>querybuf := []\<rparr>) }
           else do {
             a \<leftarrow> read_bytes (querybuf c) p (nat (bulklen c));
             c \<leftarrow> push_arg c a;
             Some (p + nat (bulklen c) + 2, c) });
        Some (Next p (c\<lparr>bulklen := -1, multibulklen := multibulklen c - 1\<rparr>)) })"

text \<open>The loop; its rounds are the arguments that are missing.\<close>

fun multibulk_loop :: "nat \<Rightarrow> nat \<Rightarrow> client \<Rightarrow> parse_ctl option" where
  "multibulk_loop 0 p c = Some (Break p c)"
| "multibulk_loop (Suc n) p c = do {
     r \<leftarrow> read_bulklen p c;
     (case r of
        Next p c \<Rightarrow> do {
          r \<leftarrow> read_bulk p c;
          (case r of Next p c \<Rightarrow> multibulk_loop n p c | r \<Rightarrow> Some r) }
      | r \<Rightarrow> Some r) }"

definition processMultibulkBuffer :: "client \<Rightarrow> (bool \<times> client) option" where
  "processMultibulkBuffer c = do {
     r \<leftarrow> (if multibulklen c = 0 then read_multibulklen c else Some (Next 0 c));
     (case r of
        Next p c \<Rightarrow>
          if multibulklen c \<le> 0 then None
          else do {
            r \<leftarrow> multibulk_loop (nat (multibulklen c)) p c;
            (case r of
               Break p c \<Rightarrow>
                 let c = (if p \<noteq> 0 then c\<lparr>querybuf := redis_range (int p) (-1) (querybuf c)\<rparr> else c)
                 in Some (multibulklen c = 0, c)
             | Return ok c \<Rightarrow> Some (ok, c)
             | Next p c \<Rightarrow> None) }
      | Return ok c \<Rightarrow> Some (ok, c)
      | Break p c \<Rightarrow> None) }"

section \<open>The input loop\<close>

text \<open>
  The execution of a command is the argument \<open>processCommand\<close>: it takes the client and the rest
  of the server and tells whether the client is to be reset. \<open>paused\<close> is \<open>clientsArePaused\<close>.
\<close>

type_synonym 's command_proc = "client \<Rightarrow> 's \<Rightarrow> bool \<times> client \<times> 's"

partial_function (option) processInputBuffer :: "'s command_proc \<Rightarrow> ('s \<Rightarrow> bool) \<Rightarrow> int \<Rightarrow> client \<Rightarrow> 's \<Rightarrow> (client \<times> 's) option" where
  "processInputBuffer processCommand paused unixtime c s =
     (if querybuf c = [] then Some (c, s)
      else if \<not> fl_slave c \<and> paused s then Some (c, s)
      else if fl_blocked c then Some (c, s)
      else if fl_close_after_reply c then Some (c, s)
      else
        let c = (if reqtype c = REQ_NONE
                 then c\<lparr>reqtype := (if querybuf c ! 0 = CH_STAR then REQ_MULTIBULK else REQ_INLINE)\<rparr> else c)
        in Option.bind (if reqtype c = REQ_INLINE then processInlineBuffer unixtime c else processMultibulkBuffer c)
             (\<lambda>(ok, c).
                if \<not> ok then Some (c, s)
                else if argv c = [] then processInputBuffer processCommand paused unixtime (resetClient c) s
                else let (reset, c, s) = processCommand c s
                     in processInputBuffer processCommand paused unixtime (if reset then resetClient c else c) s))"

declare processInputBuffer.simps [code]

text \<open>
  One call of the read handler that finds the bytes \<open>input\<close> waiting: how many it asks for, and
  what it does with those it gets. \<open>False\<close> is a client that is freed.
\<close>

definition read_length :: "client \<Rightarrow> int" where
  "read_length c =
     (if reqtype c = REQ_MULTIBULK \<and> multibulklen c \<noteq> 0 \<and> bulklen c \<noteq> -1 \<and> bulklen c \<ge> int REDIS_MBULK_BIG_ARG
      then min (int REDIS_IOBUF_LEN) (cast_int ((bulklen c + 2) mod 2 ^ 32 - int (length (querybuf c))))
      else int REDIS_IOBUF_LEN)"

definition readQueryFromClient ::
  "'s command_proc \<Rightarrow> ('s \<Rightarrow> bool) \<Rightarrow> int \<Rightarrow> nat \<Rightarrow> byte list \<Rightarrow> client \<Rightarrow> 's \<Rightarrow> (bool \<times> client \<times> 's) option" where
  "readQueryFromClient processCommand paused unixtime client_max_querybuf_len input c s =
     (let c = c\<lparr>querybuf_peak := max (querybuf_peak c) (length (querybuf c))\<rparr>;
          data = take (nat (read_length c)) input; nread = length data in
      if nread = 0 then Some (False, c, s)
      else
        let c = c\<lparr>querybuf := querybuf c @ data, lastinteraction := unixtime,
                  reploff := reploff c + (if fl_master c then int nread else 0)\<rparr> in
        if length (querybuf c) > client_max_querybuf_len then Some (False, c, s)
        else map_option (\<lambda>(c, s). (True, c, s)) (processInputBuffer processCommand paused unixtime c s))"

end
