(* ===== verification/Protocol_Parse.thy ===== *)
theory Protocol_Parse
  imports Protocol
begin

text \<open>
  The request parser accepts what the protocol specification calls a request: however the
  network cuts a stream of requests into pieces, each request is executed once, with its own
  arguments, in order.
\<close>

section \<open>Requests\<close>

definition enc_arg :: "byte list \<Rightarrow> byte list" where
  "enc_arg a = CH_DOLLAR # decimal_nat (length a) @ CRLF @ a @ CRLF"

definition enc_args :: "byte list list \<Rightarrow> byte list" where
  "enc_args as = concat (map enc_arg as)"

definition enc_req :: "byte list list \<Rightarrow> byte list" where
  "enc_req args = CH_STAR # decimal_nat (length args) @ CRLF @ enc_args args"

definition arg_ok :: "byte list \<Rightarrow> bool" where
  "arg_ok a \<longleftrightarrow> length a \<le> 512 * 1024 * 1024"

definition req_ok :: "byte list list \<Rightarrow> bool" where
  "req_ok args \<longleftrightarrow> args \<noteq> [] \<and> length args \<le> 1024 * 1024 \<and> list_all arg_ok args"

lemma enc_args_simps [simp]: "enc_args [] = []" "enc_args (a # as) = enc_arg a @ enc_args as"
  by (simp_all add: enc_args_def)

lemma redis_range_drop: "redis_range (int p) (-1) xs = drop p xs"
  by (cases "xs = []") (auto simp: redis_range_def Let_def nat_diff_distrib' drop_all)

section \<open>Lines\<close>

lemma digits_no_end: "set (decimal_nat n) \<inter> {CH_CR, CH_LF, CH_NUL} = {}"
  using decimal_nat_parse [of n] by (auto simp: isdigit_def list_all_iff)

lemma str_index_app: "c \<notin> set xs \<Longrightarrow> CH_NUL \<notin> set xs \<Longrightarrow> str_index c (xs @ ys) = map_option (\<lambda>n. n + length xs) (str_index c ys)"
  by (induction xs) (auto simp: option.map_comp o_def option.map_ident)

lemma str_index_none: "c \<notin> set xs \<Longrightarrow> str_index c xs = None"
  by (induction xs) auto

text \<open>A line: a type byte, a numeral, the line end; \<open>h\<close> is its length.\<close>

definition head_line :: "byte \<Rightarrow> nat \<Rightarrow> byte list" where
  "head_line x n = x # decimal_nat n @ CRLF"

lemma line_index:
  assumes "x \<noteq> CH_CR" "x \<noteq> CH_NUL"
  shows "str_index CH_CR (head_line x n @ r) = Some (length (head_line x n) - 2)"
  using str_index_app [of CH_CR "x # decimal_nat n" "CRLF @ r"] digits_no_end [of n] assms by (auto simp: head_line_def)

lemma line_short:
  assumes "x \<noteq> CH_CR" "b = take (length b) (head_line x n)" "length b < length (head_line x n)"
  shows "str_index CH_CR b = None \<or> (\<exists>i. str_index CH_CR b = Some i \<and> int i > int (length b) - 2)"
proof (cases "length b \<le> 1 + length (decimal_nat n)")
  case True
  have "take (length b) (head_line x n) = take (length b) (x # decimal_nat n)" using True by (simp add: head_line_def take_Cons')
  then have "b = take (length b) (x # decimal_nat n)" using assms(2) by simp
  then have "set b \<subseteq> set (x # decimal_nat n)" by (metis set_take_subset)
  then have "CH_CR \<notin> set b" using assms(1) digits_no_end [of n] by auto
  then show ?thesis by (simp add: str_index_none)
next
  case False
  then have "length b = 2 + length (decimal_nat n)" using assms(3) by (simp add: head_line_def)
  moreover have "i < length b" if "str_index CH_CR b = Some i" for i
    using that by (induction b arbitrary: i) (auto split: if_splits)
  moreover note assms(2)
  ultimately have b: "b = (x # decimal_nat n) @ [CH_CR]" by (simp add: head_line_def)
  show ?thesis
  proof (cases "x = CH_NUL")
    case True
    then show ?thesis using b by simp
  next
    case False
    have "str_index CH_CR b = Some (1 + length (decimal_nat n))"
      unfolding b using False digits_no_end [of n] assms(1) by (subst str_index_app) auto
    then show ?thesis by (simp add: b)
  qed
qed

lemma prefix_long:
  assumes "prefix b (h @ s)" "length h \<le> length b"
  obtains b' where "b = h @ b'" "prefix b' s"
  using assms by (metis prefix_append prefix_length_prefix prefix_order.antisym same_prefix_prefix prefixE append_Nil2 prefix_def)

lemma prefix_short: "prefix b (h @ s) \<Longrightarrow> length b \<le> length h \<Longrightarrow> b = take (length b) h"
  by (metis append_eq_append_conv_if append_take_drop_id prefix_def take_all_iff)

lemma head_line_length: "n \<le> 512 * 1024 * 1024 \<Longrightarrow> length (head_line x n) \<le> 13"
  using length_decimal_le [of n 10] by (simp add: head_line_def)

lemma line_number: "n < 2 ^ 63 \<Longrightarrow> string2ll (decimal_nat n) = Some (int n)"
  using string2ll_decimal [of "int n"] by (simp add: decimal_def fits_def)

section \<open>A request being read\<close>

text \<open>
  A client that has read the arguments \<open>argv\<close> of a request and waits for \<open>todo\<close>, and the bytes
  that are missing.
\<close>

definition reading :: "client \<Rightarrow> byte list list \<Rightarrow> bool" where
  "reading c todo \<longleftrightarrow> multibulklen c = int (length todo) \<and> argv_size c = length (argv c) + length todo \<and> list_all arg_ok todo
     \<and> (bulklen c = -1 \<or> (todo \<noteq> [] \<and> bulklen c = int (length (hd todo))))"

definition pending :: "client \<Rightarrow> byte list list \<Rightarrow> byte list" where
  "pending c todo = (if bulklen c = -1 then enc_args todo else hd todo @ CRLF @ enc_args (tl todo))"

text \<open>The part of the buffer that is not consumed, and the fields the parser leaves alone.\<close>

definition unread :: "nat \<Rightarrow> client \<Rightarrow> byte list" where
  "unread p c = drop p (querybuf c)"

definition frame :: "client \<Rightarrow> client" where
  "frame c = c\<lparr>querybuf := [], argv := [], argv_size := 0, bulklen := 0, multibulklen := 0\<rparr>"

text \<open>The buffer is small, or it holds a part of one large argument only.\<close>

definition buffer_ok :: "nat \<Rightarrow> client \<Rightarrow> bool" where
  "buffer_ok p c \<longleftrightarrow> p \<le> length (querybuf c)
     \<and> (length (querybuf c) \<le> REDIS_INLINE_MAX_SIZE
        \<or> (p = 0 \<and> int REDIS_MBULK_BIG_ARG \<le> bulklen c \<and> bulklen c \<le> 512 * 1024 * 1024 \<and> int (length (querybuf c)) \<le> bulklen c + 2))"

lemma buffer_cast: "buffer_ok p c \<Longrightarrow> cast_int (int (length (querybuf c))) = int (length (querybuf c))"
  by (rule cast_int_id) (auto simp: buffer_ok_def)

lemma enc_arg_line: "enc_arg a = head_line CH_DOLLAR (length a) @ a @ CRLF"
  by (simp add: enc_arg_def head_line_def)

lemma line_digits: "take (length (head_line x n) - 3) (drop 1 (head_line x n @ r)) = decimal_nat n"
  by (simp add: head_line_def)

lemma read_bulklen_short:
  assumes "bulklen c = -1" "buffer_ok p c" "prefix (unread p c) (head_line CH_DOLLAR n @ r)" "length (unread p c) < length (head_line CH_DOLLAR n)"
  shows "read_bulklen p c = Some (Break p c)"
proof -
  have len: "length (querybuf c) \<le> REDIS_INLINE_MAX_SIZE" "p \<le> length (querybuf c)" using assms(1,2) by (auto simp: buffer_ok_def)
  have b: "unread p c = take (length (unread p c)) (head_line CH_DOLLAR n)" using prefix_short [OF assms(3)] assms(4) by simp
  from line_short [OF _ b assms(4)] show ?thesis
    using len assms(1) buffer_cast [OF assms(2)] by (auto simp: read_bulklen_def unread_def)
qed

lemma read_bulklen_line:
  assumes "bulklen c = -1" "buffer_ok p c" "unread p c = head_line CH_DOLLAR n @ b" "n \<le> 512 * 1024 * 1024"
  obtains p' c' where "read_bulklen p c = Some (Next p' c')" "unread p' c' = b" "buffer_ok p' c'" "bulklen c' = int n"
    "argv c' = argv c" "argv_size c' = argv_size c" "multibulklen c' = multibulklen c" "frame c' = frame c"
    "int REDIS_MBULK_BIG_ARG \<le> int n \<Longrightarrow> p' = 0"
proof -
  define h where "h = length (head_line CH_DOLLAR n)"
  have len: "length (querybuf c) \<le> REDIS_INLINE_MAX_SIZE" "p \<le> length (querybuf c)" using assms(1,2) by (auto simp: buffer_ok_def)
  have h: "p + h \<le> length (querybuf c)" "3 \<le> h" "drop (p + h) (querybuf c) = b"
  proof -
    have "length (unread p c) = h + length b" using assms(3) by (simp add: h_def)
    then show "p + h \<le> length (querybuf c)" using len(2) by (simp add: unread_def)
    show "3 \<le> h" using length_decimal_pos [of n] by (simp add: h_def head_line_def)
    show "drop (p + h) (querybuf c) = b" using arg_cong [OF assms(3), of "drop h"] by (simp add: h_def unread_def add.commute)
  qed
  have idx: "str_index CH_CR (drop p (querybuf c)) = Some (h - 2)" using assms(3) line_index [of CH_DOLLAR n b] by (simp add: unread_def h_def)
  have "querybuf c ! p = unread p c ! 0" using h by (simp add: unread_def)
  then have dollar: "querybuf c ! p = CH_DOLLAR" unfolding assms(3) by (simp add: head_line_def)
  have "drop (p + 1) (querybuf c) = drop 1 (unread p c)" by (simp add: unread_def)
  then have "take (h - 2 - 1) (drop (p + 1) (querybuf c)) = decimal_nat n"
    using line_digits [of CH_DOLLAR n b] unfolding assms(3) by (simp add: h_def)
  then have num: "string2ll (take (h - 2 - 1) (drop (p + 1) (querybuf c))) = Some (int n)" using line_number [of n] assms(4) by simp
  have nl: "\<not> int (p + (h - 2)) > cast_int (int (length (querybuf c))) - 2" using h buffer_cast [OF assms(2)] by simp
  define c1 where "c1 = c\<lparr>querybuf := b, bulklen := int n\<rparr>"
  define c2 where "c2 = c\<lparr>bulklen := int n\<rparr>"
  have step: "read_bulklen p c = Some (if int n \<ge> int REDIS_MBULK_BIG_ARG then Next 0 c1 else Next (p + h) c2)"
    using assms(1,4) len(2) h unfolding read_bulklen_def idx
    by (simp add: buffer_cast [OF assms(2)] dollar num [simplified] Let_def redis_range_drop [of "p + h", simplified] c1_def c2_def)
      arith
  show thesis
  proof (cases "int n \<ge> int REDIS_MBULK_BIG_ARG")
    case True
    have "length b \<le> length (querybuf c)" using h(3) by auto
    then show thesis using that [of 0 c1] True step len assms(4) by (simp add: unread_def buffer_ok_def c1_def frame_def)
  next
    case False
    then show thesis using that [of "p + h" c2] step len h by (simp add: unread_def buffer_ok_def c2_def frame_def)
  qed
qed

lemma read_bulk_short:
  assumes "0 \<le> bulklen c" "bulklen c \<le> 512 * 1024 * 1024" "buffer_ok p c" "int (length (unread p c)) < bulklen c + 2"
  shows "read_bulk p c = Some (Break p c)"
proof -
  have "int (length (querybuf c)) - int p = int (length (unread p c))" using assms(3) by (simp add: buffer_ok_def unread_def of_nat_diff)
  then show ?thesis using assms(1,2,4) by (simp add: read_bulk_def)
qed

lemma read_bulk_arg:
  assumes "bulklen c = int (length a)" "arg_ok a" "buffer_ok p c" "unread p c = a @ CRLF @ b" "length (argv c) < argv_size c"
  obtains p' c' where "read_bulk p c = Some (Next p' c')" "unread p' c' = b" "buffer_ok p' c'" "bulklen c' = -1"
    "argv c' = argv c @ [a]" "argv_size c' = argv_size c" "multibulklen c' = multibulklen c - 1" "frame c' = frame c"
proof -
  have p: "p \<le> length (querybuf c)" using assms(3) by (simp add: buffer_ok_def)
  have len: "length (querybuf c) = p + length a + 2 + length b" using arg_cong [OF assms(4), of length] p by (simp add: unread_def)
  have small: "length a \<le> 512 * 1024 * 1024" using assms(2) by (simp add: arg_ok_def)
  have len64: "length (querybuf c) < 2 ^ 64" using assms(3) small assms(1) by (auto simp: buffer_ok_def)
  have "int (length (querybuf c)) - int p = int (length a + 2 + length b)" using len by simp
  then have long: "\<not> (int (length (querybuf c)) - int p) mod 2 ^ 64 < (bulklen c + 2) mod 2 ^ 32"
    using small len64 len by (simp add: assms(1))
  have dr: "drop (p + length a + 2) (querybuf c) = b"
    using arg_cong [OF assms(4), of "drop (length a + 2)"] by (simp add: unread_def ac_simps)
  have tk: "take (length a) (drop p (querybuf c)) = a" using arg_cong [OF assms(4), of "take (length a)"] by (simp add: unread_def)
  define whole where "whole \<longleftrightarrow> p = 0 \<and> bulklen c \<ge> int REDIS_MBULK_BIG_ARG \<and> cast_int (int (length (querybuf c))) = bulklen c + 2"
  show thesis
  proof (cases whole)
    case True
    then have w: "p = 0" "b = []" using len buffer_cast [OF assms(3)] by (auto simp: whole_def assms(1))
    define c' where "c' = c\<lparr>argv := argv c @ [a], querybuf := [], bulklen := -1, multibulklen := multibulklen c - 1\<rparr>"
    have "take (length (querybuf c) - 2) (querybuf c) = a" using tk w len by simp
    then have "read_bulk p c = Some (Next 0 c')"
      using True long assms(5) unfolding whole_def by (simp add: read_bulk_def Let_def push_arg_def c'_def)
    then show thesis using that [of 0 c'] w by (simp add: c'_def unread_def buffer_ok_def frame_def)
  next
    case False
    define c' where "c' = c\<lparr>argv := argv c @ [a], bulklen := -1, multibulklen := multibulklen c - 1\<rparr>"
    have "read_bytes (querybuf c) p (length a) = Some a" using tk len by (simp add: read_bytes_def)
    moreover have "(if p = 0 \<and> bulklen c \<ge> int REDIS_MBULK_BIG_ARG \<and> cast_int (int (length (querybuf c))) = bulklen c + 2 then x else y) = y" for x y :: "(nat \<times> client) option"
      using False unfolding whole_def by (rule if_not_P)
    ultimately have "read_bulk p c = Some (Next (p + length a + 2) c')"
      using long assms(5) unfolding read_bulk_def Let_def by (simp add: assms(1) push_arg_def c'_def)
    moreover have "length (querybuf c) \<le> REDIS_INLINE_MAX_SIZE"
      using False assms(3) len buffer_cast [OF assms(3)] by (auto simp: whole_def buffer_ok_def assms(1))
    ultimately show thesis using that [of "p + length a + 2" c'] dr len by (simp add: c'_def unread_def buffer_ok_def frame_def)
  qed
qed

text \<open>
  The client \<open>c'\<close> has gone on from \<open>c\<close> by the bytes \<open>u\<close> and can go no further with what is left.
\<close>

definition stuck :: "nat \<Rightarrow> client \<Rightarrow> byte list list \<Rightarrow> bool" where
  "stuck p c todo \<longleftrightarrow> (if bulklen c = -1 then length (unread p c) < length (head_line CH_DOLLAR (length (hd todo)))
                      else int (length (unread p c)) < bulklen c + 2)"

definition went_on :: "nat \<Rightarrow> client \<Rightarrow> byte list list \<Rightarrow> byte list \<Rightarrow> nat \<Rightarrow> client \<Rightarrow> byte list list \<Rightarrow> bool" where
  "went_on p c todo u p' c' todo' \<longleftrightarrow> reading c' todo' \<and> argv c' @ todo' = argv c @ todo \<and> buffer_ok p' c'
     \<and> unread p c = u @ unread p' c' \<and> pending c todo = u @ pending c' todo'
     \<and> argv_size c' = argv_size c \<and> frame c' = frame c"

lemma went_on_refl: "reading c todo \<Longrightarrow> buffer_ok p c \<Longrightarrow> went_on p c todo [] p c todo"
  by (simp add: went_on_def)

lemma went_on_trans: "went_on p c todo u p1 c1 todo1 \<Longrightarrow> went_on p1 c1 todo1 v p2 c2 todo2 \<Longrightarrow> went_on p c todo (u @ v) p2 c2 todo2"
  by (simp add: went_on_def)

lemma went_on_prefix:
  "went_on p c todo u p' c' todo' \<Longrightarrow> prefix (unread p c) (pending c todo @ rest) \<Longrightarrow> prefix (unread p' c') (pending c' todo' @ rest)"
  by (simp add: went_on_def)

lemma length_round:
  assumes "reading c (a # as)" "bulklen c = -1" "buffer_ok p c" "prefix (unread p c) (pending c (a # as) @ rest)"
  shows "(read_bulklen p c = Some (Break p c) \<and> stuck p c (a # as))
    \<or> (\<exists>u p' c'. read_bulklen p c = Some (Next p' c') \<and> went_on p c (a # as) u p' c' (a # as) \<and> bulklen c' \<noteq> -1)"
proof (cases "length (unread p c) < length (head_line CH_DOLLAR (length a))")
  case True
  then show ?thesis using read_bulklen_short [OF assms(2,3), of "length a"] assms(2,4) by (auto simp: stuck_def pending_def enc_arg_line)
next
  case False
  have pre: "prefix (unread p c) (head_line CH_DOLLAR (length a) @ a @ CRLF @ enc_args as @ rest)"
    using assms(2,4) by (simp add: pending_def enc_arg_line)
  obtain b where b: "unread p c = head_line CH_DOLLAR (length a) @ b" by (rule prefix_long [OF pre]) (use False in auto)
  have "length a \<le> 512 * 1024 * 1024" using assms(1) by (simp add: reading_def arg_ok_def)
  from read_bulklen_line [OF assms(2,3) b this] obtain p' c' where r: "read_bulklen p c = Some (Next p' c')" "unread p' c' = b"
    "buffer_ok p' c'" "bulklen c' = int (length a)" "argv c' = argv c" "argv_size c' = argv_size c"
    "multibulklen c' = multibulklen c" "frame c' = frame c" by metis
  then have "went_on p c (a # as) (head_line CH_DOLLAR (length a)) p' c' (a # as)"
    using assms(1,2) b by (auto simp: went_on_def reading_def pending_def enc_arg_line)
  then show ?thesis using r(1,4) by auto
qed

lemma bulk_round:
  assumes "reading c (a # as)" "bulklen c \<noteq> -1" "buffer_ok p c" "prefix (unread p c) (pending c (a # as) @ rest)"
  shows "(read_bulk p c = Some (Break p c) \<and> stuck p c (a # as))
    \<or> (\<exists>u p' c'. read_bulk p c = Some (Next p' c') \<and> went_on p c (a # as) u p' c' as)"
proof (cases "int (length (unread p c)) < bulklen c + 2")
  case True
  then show ?thesis using read_bulk_short [of c p] assms(1-3) by (auto simp: stuck_def reading_def arg_ok_def)
next
  case False
  have blen: "bulklen c = int (length a)" using assms(1,2) by (simp add: reading_def)
  have pre: "prefix (unread p c) ((a @ CRLF) @ enc_args as @ rest)" using assms(2,4) by (simp add: pending_def)
  obtain b where b: "unread p c = (a @ CRLF) @ b" by (rule prefix_long [OF pre]) (use False blen in auto)
  have "arg_ok a" "length (argv c) < argv_size c" using assms(1) by (simp_all add: reading_def)
  from read_bulk_arg [OF blen this(1) assms(3) _ this(2)] obtain p' c' where r: "read_bulk p c = Some (Next p' c')" "unread p' c' = b"
    "buffer_ok p' c'" "bulklen c' = -1" "argv c' = argv c @ [a]" "argv_size c' = argv_size c"
    "multibulklen c' = multibulklen c - 1" "frame c' = frame c" using b by (metis append.assoc)
  then have "went_on p c (a # as) (a @ CRLF) p' c' as"
    using assms(1,2) b by (auto simp: went_on_def reading_def pending_def)
  then show ?thesis using r(1) by blast
qed

lemma loop_end: "went_on p c todo u p' c' todo' \<Longrightarrow> reading c' todo' \<and> buffer_ok p' c'"
  by (simp add: went_on_def)

lemma multibulk_loop_spec:
  assumes "reading c todo" "buffer_ok p c" "prefix (unread p c) (pending c todo @ rest)"
  shows "\<exists>u p' c' todo'. multibulk_loop (length todo) p c = Some (Break p' c') \<and> went_on p c todo u p' c' todo'
    \<and> (todo' = [] \<or> stuck p' c' todo')"
  using assms
proof (induction todo arbitrary: p c)
  case Nil
  then show ?case using went_on_refl by fastforce
next
  case (Cons a as)
  have "(read_bulklen p c = Some (Break p c) \<and> stuck p c (a # as))
    \<or> (\<exists>u p' c'. read_bulklen p c = Some (Next p' c') \<and> went_on p c (a # as) u p' c' (a # as) \<and> bulklen c' \<noteq> -1)"
  proof (cases "bulklen c = -1")
    case False
    then show ?thesis using went_on_refl [OF Cons.prems(1,2)] by (auto simp: read_bulklen_def)
  qed (rule length_round [OF Cons.prems(1) _ Cons.prems(2,3)])
  then show ?case
  proof (elim disjE exE conjE)
    assume "read_bulklen p c = Some (Break p c)" "stuck p c (a # as)"
    then show ?case using went_on_refl [OF Cons.prems(1,2)] by fastforce
  next
    fix u p1 c1
    assume 1: "read_bulklen p c = Some (Next p1 c1)" "went_on p c (a # as) u p1 c1 (a # as)" "bulklen c1 \<noteq> -1"
    note pre1 = went_on_prefix [OF 1(2) Cons.prems(3)]
    from bulk_round [OF _ 1(3) _ pre1] loop_end [OF 1(2)]
    consider "read_bulk p1 c1 = Some (Break p1 c1)" "stuck p1 c1 (a # as)"
      | v p2 c2 where "read_bulk p1 c1 = Some (Next p2 c2)" "went_on p1 c1 (a # as) v p2 c2 as" by blast
    then show ?case
    proof cases
      case 1
      then show ?thesis using \<open>read_bulklen p c = _\<close> \<open>went_on p c (a # as) u p1 c1 (a # as)\<close> by fastforce
    next
      case (2 v p2 c2)
      note w = went_on_trans [OF \<open>went_on p c (a # as) u p1 c1 (a # as)\<close> 2(2)]
      from Cons.IH [OF _ _ went_on_prefix [OF 2(2) pre1]] loop_end [OF 2(2)] obtain u' p3 c3 todo3 where
        3: "multibulk_loop (length as) p2 c2 = Some (Break p3 c3)" "went_on p2 c2 as u' p3 c3 todo3" "todo3 = [] \<or> stuck p3 c3 todo3" by blast
      have "multibulk_loop (length (a # as)) p c = Some (Break p3 c3)" using 2(1) 3(1) \<open>read_bulklen p c = _\<close> by simp
      then show ?thesis using went_on_trans [OF w 3(2)] 3(3) by blast
    qed
  qed
qed

section \<open>A call of the parser\<close>

text \<open>
  A client within the request \<open>args\<close>; \<open>P\<close> are the bytes from the start of its buffer to the end
  of the request.
\<close>

definition in_request :: "client \<Rightarrow> byte list list \<Rightarrow> byte list \<Rightarrow> bool" where
  "in_request c args P \<longleftrightarrow> req_ok args
     \<and> ((multibulklen c = 0 \<and> argv c = [] \<and> bulklen c = -1 \<and> P = enc_req args)
        \<or> (\<exists>todo. todo \<noteq> [] \<and> reading c todo \<and> argv c @ todo = args \<and> P = pending c todo))"

text \<open>What a call leaves in the buffer when the request is not complete.\<close>

definition leftover :: "client \<Rightarrow> bool" where
  "leftover c \<longleftrightarrow> (if bulklen c = -1 then length (querybuf c) \<le> 13
                  else 0 \<le> bulklen c \<and> bulklen c \<le> 512 * 1024 * 1024 \<and> int (length (querybuf c)) < bulklen c + 2)"

lemma stuck_pending:
  assumes "reading c todo" "todo \<noteq> []" "stuck p c todo"
  shows "length (unread p c) < length (pending c todo)"
  using assms by (cases todo) (auto simp: stuck_def pending_def reading_def enc_arg_line split: if_splits)

lemma stuck_leftover:
  assumes "reading c todo" "todo \<noteq> []" "stuck p c todo"
  shows "leftover (c\<lparr>querybuf := unread p c\<rparr>)"
proof -
  have "length (hd todo) \<le> 512 * 1024 * 1024" using assms(1,2) by (cases todo) (auto simp: reading_def arg_ok_def)
  then show ?thesis using assms head_line_length [of "length (hd todo)" CH_DOLLAR] by (auto simp: stuck_def leftover_def reading_def)
qed

lemma trim_unread: "(if p \<noteq> 0 then c\<lparr>querybuf := redis_range (int p) (-1) (querybuf c)\<rparr> else c) = c\<lparr>querybuf := unread p c\<rparr>"
  by (cases c) (simp add: redis_range_drop unread_def)

lemma reading_upd [simp]: "reading (c\<lparr>querybuf := b\<rparr>) todo = reading c todo" "pending (c\<lparr>querybuf := b\<rparr>) todo = pending c todo"
  by (simp_all add: reading_def pending_def)

text \<open>From a state in which the count is known, \<open>rest\<close> being what follows the request.\<close>

definition call_post :: "client \<Rightarrow> byte list \<Rightarrow> byte list list \<Rightarrow> bool \<Rightarrow> client \<Rightarrow> bool" where
  "call_post c P args ok c' \<longleftrightarrow> frame c' = frame c \<and>
     (if length P \<le> length (querybuf c)
      then ok \<and> argv c' = args \<and> querybuf c' = drop (length P) (querybuf c) \<and> multibulklen c' = 0 \<and> bulklen c' = -1
      else \<not> ok \<and> (\<exists>P' u. in_request c' args P' \<and> P = u @ P' \<and> querybuf c = u @ querybuf c') \<and> leftover c')"

lemma body_spec:
  assumes "reading c todo" "todo \<noteq> []" "buffer_ok p c" "prefix (unread p c) (pending c todo @ rest)" "req_ok (argv c @ todo)"
  shows "\<exists>p' c1. multibulk_loop (nat (multibulklen c)) p c = Some (Break p' c1)
    \<and> call_post (c\<lparr>querybuf := unread p c\<rparr>) (pending c todo) (argv c @ todo) (multibulklen c1 = 0) (c1\<lparr>querybuf := unread p' c1\<rparr>)"
proof -
  from multibulk_loop_spec [OF assms(1,3,4)] obtain u p' c' todo' where
    l: "multibulk_loop (length todo) p c = Some (Break p' c')" "went_on p c todo u p' c' todo'" "todo' = [] \<or> stuck p' c' todo'" by blast
  have n: "nat (multibulklen c) = length todo" using assms(1) by (simp add: reading_def)
  have w: "reading c' todo'" "argv c' @ todo' = argv c @ todo" "unread p c = u @ unread p' c'" "pending c todo = u @ pending c' todo'" "frame c' = frame c"
    using l(2) by (simp_all add: went_on_def)
  have fr: "frame (c'\<lparr>querybuf := unread p' c'\<rparr>) = frame (c\<lparr>querybuf := unread p c\<rparr>)" using w(5) by (simp add: frame_def)
  show ?thesis
  proof (cases "todo' = []")
    case True
    then have "multibulklen c' = 0" "bulklen c' = -1" "pending c' todo' = []" using w(1) by (auto simp: reading_def pending_def)
    then have "call_post (c\<lparr>querybuf := unread p c\<rparr>) (pending c todo) (argv c @ todo) (multibulklen c' = 0) (c'\<lparr>querybuf := unread p' c'\<rparr>)"
      using w(2-4) fr True by (simp add: call_post_def)
    then show ?thesis using l(1) n by metis
  next
    case False
    then have st: "stuck p' c' todo'" using l(3) by simp
    have "in_request (c'\<lparr>querybuf := unread p' c'\<rparr>) (argv c @ todo) (pending c' todo')"
      using False w(1,2) assms(5) by (auto simp: in_request_def)
    moreover have "multibulklen c' \<noteq> 0" using False w(1) by (simp add: reading_def)
    ultimately have "call_post (c\<lparr>querybuf := unread p c\<rparr>) (pending c todo) (argv c @ todo) (multibulklen c' = 0) (c'\<lparr>querybuf := unread p' c'\<rparr>)"
      using w(3,4) fr stuck_pending [OF w(1) False st] stuck_leftover [OF w(1) False st] by (auto simp: call_post_def)
    then show ?thesis using l(1) n by metis
  qed
qed

lemma read_multibulklen_short:
  assumes "argv c = []" "bulklen c = -1" "buffer_ok 0 c" "prefix (querybuf c) (head_line CH_STAR n @ r)" "length (querybuf c) < length (head_line CH_STAR n)"
  shows "read_multibulklen c = Some (Return False c)"
proof -
  have len: "length (querybuf c) \<le> REDIS_INLINE_MAX_SIZE" using assms(2,3) by (auto simp: buffer_ok_def)
  have b: "querybuf c = take (length (querybuf c)) (head_line CH_STAR n)" using prefix_short [OF assms(4)] assms(5) by simp
  from line_short [OF _ b assms(5)] show ?thesis using len assms(1) buffer_cast [OF assms(3)] by (auto simp: read_multibulklen_def)
qed

lemma read_multibulklen_line:
  assumes "argv c = []" "buffer_ok 0 c" "querybuf c = head_line CH_STAR n @ b" "n \<le> 1024 * 1024" "n \<noteq> 0"
  shows "read_multibulklen c = Some (Next (length (head_line CH_STAR n)) (c\<lparr>multibulklen := int n, argv_size := n\<rparr>))"
proof -
  define h where "h = length (head_line CH_STAR n)"
  have h: "h \<le> length (querybuf c)" "3 \<le> h" using length_decimal_pos [of n] by (simp_all add: h_def head_line_def assms(3))
  have idx: "str_index CH_CR (querybuf c) = Some (h - 2)" using line_index [of CH_STAR n b] by (simp add: h_def assms(3))
  have star: "querybuf c ! 0 = CH_STAR" unfolding assms(3) by (simp add: head_line_def)
  have "take (h - 2 - 1) (drop 1 (querybuf c)) = decimal_nat n" using line_digits [of CH_STAR n b] by (simp add: assms(3) h_def)
  then have num: "string2ll (take (h - 2 - 1) (drop 1 (querybuf c))) = Some (int n)" using line_number [of n] assms(4) by simp
  show ?thesis unfolding read_multibulklen_def idx h_def [symmetric]
    using h assms(1,4,5) by (simp add: buffer_cast [OF assms(2)] star num [simplified] Let_def)
qed

lemma enc_req_line: "enc_req args = head_line CH_STAR (length args) @ enc_args args"
  by (simp add: enc_req_def head_line_def)

lemma processMultibulkBuffer_spec:
  assumes "in_request c args P" "buffer_ok 0 c" "prefix (querybuf c) (P @ rest)"
  shows "\<exists>ok c'. processMultibulkBuffer c = Some (ok, c') \<and> call_post c P args ok c'"
proof -
  have req: "req_ok args" using assms(1) by (simp add: in_request_def)
  consider (fresh) "multibulklen c = 0" "argv c = []" "bulklen c = -1" "P = enc_req args"
    | (mid) todo where "todo \<noteq> []" "reading c todo" "argv c @ todo = args" "P = pending c todo"
    using assms(1) by (auto simp: in_request_def)
  then show ?thesis
  proof cases
    case mid
    have u0: "c\<lparr>querybuf := unread 0 c\<rparr> = c" by (cases c) (simp add: unread_def)
    from body_spec [OF mid(2,1) assms(2), of rest] obtain p' c1 where b: "multibulk_loop (nat (multibulklen c)) 0 c = Some (Break p' c1)"
      "call_post c P args (multibulklen c1 = 0) (c1\<lparr>querybuf := unread p' c1\<rparr>)"
      using assms(3) mid(3,4) req u0 by (auto simp: unread_def)
    have "0 < multibulklen c" using mid(1,2) by (simp add: reading_def)
    then show ?thesis using b trim_unread [of p' c1] by (auto simp: processMultibulkBuffer_def Let_def)
  next
    case fresh
    show ?thesis
    proof (cases "length (querybuf c) < length (head_line CH_STAR (length args))")
      case True
      have pre: "prefix (querybuf c) (head_line CH_STAR (length args) @ enc_args args @ rest)" using assms(3) fresh(4) by (simp add: enc_req_line)
      have "length args \<le> 512 * 1024 * 1024" using req by (simp add: req_ok_def)
      then have "leftover c" using True fresh(3) head_line_length [of "length args" CH_STAR] by (simp add: leftover_def)
      moreover have "\<not> length P \<le> length (querybuf c)" using True fresh(4) by (simp add: enc_req_line)
      ultimately have "call_post c P args False c" using assms(1) by (auto simp: call_post_def)
      then show ?thesis using fresh(1) read_multibulklen_short [OF fresh(2,3) assms(2) pre True]
        by (auto simp: processMultibulkBuffer_def)
    next
      case False
      have pre: "prefix (querybuf c) (head_line CH_STAR (length args) @ enc_args args @ rest)" using assms(3) fresh(4) by (simp add: enc_req_line)
      obtain b where b: "querybuf c = head_line CH_STAR (length args) @ b" "prefix b (enc_args args @ rest)"
        by (rule prefix_long [OF pre]) (use False in auto)
      define h where "h = length (head_line CH_STAR (length args))"
      define c1 where "c1 = c\<lparr>multibulklen := int (length args), argv_size := length args\<rparr>"
      have rd: "reading c1 args" "pending c1 args = enc_args args" "argv c1 = []" using fresh req by (auto simp: reading_def c1_def req_ok_def pending_def)
      have un: "unread h c1 = b" using b(1) by (simp add: unread_def c1_def h_def)
      have ok1: "buffer_ok h c1" using assms(2) b(1) fresh(3) by (auto simp: buffer_ok_def c1_def h_def)
      have ne: "args \<noteq> []" using req by (simp add: req_ok_def)
      from body_spec [OF rd(1) ne ok1, of rest] obtain p' c2 where l: "multibulk_loop (nat (multibulklen c1)) h c1 = Some (Break p' c2)"
        "call_post (c1\<lparr>querybuf := b\<rparr>) (enc_args args) args (multibulklen c2 = 0) (c2\<lparr>querybuf := unread p' c2\<rparr>)"
        using b(2) rd req un by auto
      have "call_post c P args (multibulklen c2 = 0) (c2\<lparr>querybuf := unread p' c2\<rparr>)"
        using l(2) b(1) unfolding call_post_def fresh(4) enc_req_line by (auto simp: c1_def frame_def)
      moreover have "read_multibulklen c = Some (Next h c1)"
        using read_multibulklen_line [OF fresh(2) assms(2) b(1)] req by (simp add: req_ok_def h_def c1_def)
      moreover have "0 < multibulklen c1" using ne by (simp add: c1_def)
      ultimately show ?thesis using fresh(1) l(1) trim_unread [of p' c2] by (auto simp: processMultibulkBuffer_def Let_def)
    qed
  qed
qed

section \<open>A stream of requests\<close>

text \<open>
  A client whose input, from the start of its buffer on, is \<open>S\<close>: what is left of the requests
  \<open>reqs\<close>.
\<close>

definition fresh :: "client \<Rightarrow> bool" where
  "fresh c \<longleftrightarrow> multibulklen c = 0 \<and> argv c = [] \<and> bulklen c = -1"

definition waiting :: "client \<Rightarrow> byte list list list \<Rightarrow> byte list \<Rightarrow> bool" where
  "waiting c reqs S \<longleftrightarrow> \<not> fl_blocked c \<and> \<not> fl_close_after_reply c \<and> list_all req_ok reqs
     \<and> ((reqtype c = REQ_NONE \<and> fresh c \<and> S = concat (map enc_req reqs))
        \<or> (reqtype c = REQ_MULTIBULK \<and> (\<exists>args nxt P. reqs = args # nxt \<and> in_request c args P \<and> S = P @ concat (map enc_req nxt))))"

text \<open>
  A command that does its work on the server and leaves the connection open.
\<close>

definition plain_command :: "'s command_proc \<Rightarrow> (byte list list \<Rightarrow> 's \<Rightarrow> 's) \<Rightarrow> bool" where
  "plain_command processCommand step \<longleftrightarrow>
     (\<forall>c s. case processCommand c s of (reset, c', s') \<Rightarrow> reset \<and> s' = step (argv c) s \<and> querybuf c' = querybuf c
        \<and> fl_blocked c' = fl_blocked c \<and> fl_close_after_reply c' = fl_close_after_reply c)"

lemma plain_commandD:
  assumes "plain_command pc step"
  obtains c' where "pc c s = (True, c', step (argv c) s)" "querybuf c' = querybuf c"
    "fl_blocked c' = fl_blocked c" "fl_close_after_reply c' = fl_close_after_reply c"
proof -
  obtain r c' s' where p: "pc c s = (r, c', s')" by (cases "pc c s")
  have "case pc c s of (reset, c', s') \<Rightarrow> reset \<and> s' = step (argv c) s \<and> querybuf c' = querybuf c
        \<and> fl_blocked c' = fl_blocked c \<and> fl_close_after_reply c' = fl_close_after_reply c"
    by (rule assms [unfolded plain_command_def, THEN spec, THEN spec])
  then show thesis using that [of c'] p by simp
qed

lemma frame_flags:
  "frame c' = frame c \<Longrightarrow> fl_blocked c' = fl_blocked c \<and> fl_close_after_reply c' = fl_close_after_reply c \<and> reqtype c' = reqtype c"
  by (cases c, cases c') (simp add: frame_def)

lemma pending_not_Nil: "todo \<noteq> [] \<Longrightarrow> pending c todo \<noteq> []"
  by (cases todo) (simp_all add: pending_def enc_arg_def)

lemma in_request_cases:
  assumes "in_request c args P"
  obtains (fresh) "multibulklen c = 0" "argv c = []" "bulklen c = -1" "P = enc_req args"
    | (mid) todo where "todo \<noteq> []" "reading c todo" "argv c @ todo = args" "P = pending c todo"
  using assms unfolding in_request_def by metis

lemma in_request_empty:
  assumes "in_request c args P" "querybuf c = []"
  shows "leftover c \<and> P \<noteq> []"
  using assms(1)
proof (cases rule: in_request_cases)
  case fresh
  then show ?thesis using assms(2) by (simp add: leftover_def enc_req_def)
next
  case (mid todo)
  then have "bulklen c = -1 \<or> (0 \<le> bulklen c \<and> bulklen c \<le> 512 * 1024 * 1024)"
    by (cases todo) (auto simp: reading_def arg_ok_def)
  then show ?thesis using assms(2) mid pending_not_Nil [of todo c] by (auto simp: leftover_def)
qed

text \<open>After a complete request the buffer is small again.\<close>

lemma buffer_after:
  assumes "in_request c args P" "buffer_ok 0 c" "length P \<le> length (querybuf c)"
  shows "length (drop (length P) (querybuf c)) \<le> REDIS_INLINE_MAX_SIZE"
proof (cases "length (querybuf c) \<le> REDIS_INLINE_MAX_SIZE")
  case False
  then have b: "int REDIS_MBULK_BIG_ARG \<le> bulklen c" "int (length (querybuf c)) \<le> bulklen c + 2" using assms(2) by (auto simp: buffer_ok_def)
  then obtain todo where "todo \<noteq> []" "reading c todo" "P = pending c todo" using assms(1) by (auto simp: in_request_def)
  then have "bulklen c + 2 \<le> int (length P)" using b(1) by (auto simp: reading_def pending_def)
  then show ?thesis using b(2) by simp
qed simp

definition handled :: "client \<Rightarrow> byte list list list \<Rightarrow> byte list \<Rightarrow> byte list list list \<Rightarrow> client \<Rightarrow> bool" where
  "handled c reqs S done c' \<longleftrightarrow> (\<exists>rest S' u. reqs = done @ rest \<and> waiting c' rest S' \<and> S = u @ S' \<and> querybuf c = u @ querybuf c'
     \<and> leftover c' \<and> (rest = [] \<or> length (querybuf c') < length S'))"

lemma multibulk_start:
  assumes "waiting c (args # nxt) S" "querybuf c \<noteq> []" "prefix (querybuf c) S"
  obtains c1 P where "c1 = (if reqtype c = REQ_NONE then c\<lparr>reqtype := (if querybuf c ! 0 = CH_STAR then REQ_MULTIBULK else REQ_INLINE)\<rparr> else c)"
    "reqtype c1 = REQ_MULTIBULK" "in_request c1 args P" "S = P @ concat (map enc_req nxt)" "querybuf c1 = querybuf c" "bulklen c1 = bulklen c"
    "fl_blocked c1 = fl_blocked c" "fl_close_after_reply c1 = fl_close_after_reply c"
proof (cases "reqtype c = REQ_NONE")
  case True
  then have f: "fresh c" "S = enc_req args @ concat (map enc_req nxt)" "req_ok args" using assms(1) by (auto simp: waiting_def)
  have "querybuf c ! 0 = S ! 0" using assms(2,3) by (cases "querybuf c") (auto simp: prefix_def)
  then have "querybuf c ! 0 = CH_STAR" by (simp add: f(2) enc_req_def)
  then show thesis using that [of "c\<lparr>reqtype := REQ_MULTIBULK\<rparr>" "enc_req args"] f True by (simp add: in_request_def fresh_def)
next
  case False
  then obtain P where "reqtype c = REQ_MULTIBULK" "in_request c args P" "S = P @ concat (map enc_req nxt)" using assms(1) by (auto simp: waiting_def)
  then show thesis using that [of c P] by simp
qed

lemma handled_wait:
  assumes "in_request c' args P'" "S = u @ P' @ concat (map enc_req nxt)" "querybuf c = u @ querybuf c'" "leftover c'"
    "reqtype c' = REQ_MULTIBULK" "\<not> fl_blocked c'" "\<not> fl_close_after_reply c'" "list_all req_ok (args # nxt)" "length (querybuf c') < length P'"
  shows "handled c (args # nxt) S [] c'"
  unfolding handled_def using assms
  by (intro exI [of _ "args # nxt"] exI [of _ "P' @ concat (map enc_req nxt)"] exI [of _ u]) (auto simp: waiting_def)

lemma handled_step:
  assumes "handled c2 nxt (concat (map enc_req nxt)) done c'" "S = P @ concat (map enc_req nxt)" "querybuf c = P @ querybuf c2"
  shows "handled c (args # nxt) S (args # done) c'"
proof -
  from assms(1) obtain rest S' u where h: "nxt = done @ rest" "waiting c' rest S'" "concat (map enc_req nxt) = u @ S'" "querybuf c2 = u @ querybuf c'"
    "leftover c'" "rest = [] \<or> length (querybuf c') < length S'" unfolding handled_def by blast
  have "S = (P @ u) @ S'" using assms(2) unfolding h(3) by simp
  moreover have "querybuf c = (P @ u) @ querybuf c'" using assms(3) h(4) by simp
  moreover have "args # nxt = (args # done) @ rest" using h(1) by simp
  ultimately show ?thesis using h(2,5,6) unfolding handled_def by blast
qed

lemma processInputBuffer_spec:
  assumes pc: "plain_command pc step" and pz: "\<forall>s. \<not> paused s"
    and c: "waiting c reqs S" "buffer_ok 0 c" "prefix (querybuf c) S"
  shows "\<exists>done c'. processInputBuffer pc paused t c s = Some (c', fold step done s) \<and> handled c reqs S done c'"
  using c
proof (induction reqs arbitrary: c s S)
  case Nil
  then have "querybuf c = []" "S = []" "bulklen c = -1" by (auto simp: waiting_def fresh_def)
  then have "handled c [] S [] c" using Nil.prems(1) by (auto simp: handled_def leftover_def)
  then show ?case using \<open>querybuf c = []\<close> by (intro exI [of _ "[]"] exI [of _ c]) (simp add: processInputBuffer.simps)
next
  case (Cons args nxt)
  have fl: "\<not> fl_blocked c" "\<not> fl_close_after_reply c" "list_all req_ok (args # nxt)" using Cons.prems(1) by (auto simp: waiting_def)
  show ?case
  proof (cases "querybuf c = []")
    case True
    have "leftover c \<and> S \<noteq> []"
    proof (cases "reqtype c = REQ_NONE")
      case True
      then show ?thesis using Cons.prems(1) \<open>querybuf c = []\<close> by (auto simp: waiting_def fresh_def leftover_def enc_req_def)
    next
      case False
      then show ?thesis using Cons.prems(1) in_request_empty [OF _ True] by (auto simp: waiting_def)
    qed
    then have "handled c (args # nxt) S [] c" using Cons.prems(1) True by (auto simp: handled_def)
    then show ?thesis using True by (intro exI [of _ "[]"] exI [of _ c]) (simp add: processInputBuffer.simps)
  next
    case False
    obtain c1 P where c1: "c1 = (if reqtype c = REQ_NONE then c\<lparr>reqtype := (if querybuf c ! 0 = CH_STAR then REQ_MULTIBULK else REQ_INLINE)\<rparr> else c)"
      "reqtype c1 = REQ_MULTIBULK" "in_request c1 args P" "S = P @ concat (map enc_req nxt)" "querybuf c1 = querybuf c" "bulklen c1 = bulklen c"
      "fl_blocked c1 = fl_blocked c" "fl_close_after_reply c1 = fl_close_after_reply c"
      by (rule multibulk_start [OF Cons.prems(1) False Cons.prems(3)])
    have b1: "buffer_ok 0 c1" using Cons.prems(2) c1(5,6) by (simp add: buffer_ok_def)
    have pre: "prefix (querybuf c1) (P @ concat (map enc_req nxt))" using Cons.prems(3) c1(4,5) by simp
    obtain ok c2 where m: "processMultibulkBuffer c1 = Some (ok, c2)" "call_post c1 P args ok c2"
      using processMultibulkBuffer_spec [OF c1(3) b1 pre] by blast
    have fr: "\<not> fl_blocked c2" "\<not> fl_close_after_reply c2" "reqtype c2 = REQ_MULTIBULK"
      using frame_flags [of c2 c1] m(2) fl c1 by (simp_all add: call_post_def)
    have unf: "processInputBuffer pc paused t c s = (if \<not> ok then Some (c2, s)
       else if argv c2 = [] then processInputBuffer pc paused t (resetClient c2) s
       else case pc c2 s of (reset, c3, s') \<Rightarrow> processInputBuffer pc paused t (if reset then resetClient c3 else c3) s')"
      using False pz fl c1(2) m(1) by (subst processInputBuffer.simps) (simp add: c1(1) [symmetric] Let_def)
    show ?thesis
    proof (cases "length P \<le> length (querybuf c1)")
      case True
      then have ok: ok "argv c2 = args" "querybuf c2 = drop (length P) (querybuf c1)" using m(2) by (auto simp: call_post_def)
      obtain c3 where c3: "pc c2 s = (True, c3, step args s)" "querybuf c3 = querybuf c2" "fl_blocked c3 = fl_blocked c2" "fl_close_after_reply c3 = fl_close_after_reply c2"
        by (rule plain_commandD [OF pc, of c2 s, unfolded ok(2)])
      have ne: "args \<noteq> []" using fl(3) by (auto simp: req_ok_def)
      obtain b where b: "querybuf c1 = P @ b" "prefix b (concat (map enc_req nxt))" by (rule prefix_long [OF pre True])
      define c4 where "c4 = resetClient c3"
      have c4: "querybuf c4 = b" "waiting c4 nxt (concat (map enc_req nxt))" "bulklen c4 = -1"
        using c3 fr fl(3) ok(3) b(1) by (simp_all add: c4_def resetClient_def waiting_def fresh_def)
      have "buffer_ok 0 c4" using buffer_after [OF c1(3) b1 True] c4(1) b(1) by (simp add: buffer_ok_def)
      from Cons.IH [OF c4(2) this, of "step args s"] c4(1) b(2) obtain d c' where
        i: "processInputBuffer pc paused t c4 (step args s) = Some (c', fold step d (step args s))" "handled c4 nxt (concat (map enc_req nxt)) d c'" by auto
      have "processInputBuffer pc paused t c s = Some (c', fold step (args # d) s)"
        using unf ok(1,2) ne c3(1) i(1) by (simp add: c4_def)
      moreover have "handled c (args # nxt) S (args # d) c'"
        by (rule handled_step [OF i(2) c1(4)]) (use b(1) c1(5) c4(1) in simp)
      ultimately show ?thesis by blast
    next
      case False
      then obtain P' u where p: "\<not> ok" "in_request c2 args P'" "P = u @ P'" "querybuf c1 = u @ querybuf c2" "leftover c2" using m(2) by (auto simp: call_post_def)
      have "handled c (args # nxt) S [] c2"
        by (rule handled_wait [OF p(2) _ _ p(5) fr(3,1,2) fl(3)]) (use p(3,4) c1(4,5) False in auto)
      then show ?thesis using unf p(1) by (intro exI [of _ "[]"] exI [of _ c2]) simp
    qed
  qed
qed

section \<open>Reading from the network\<close>

text \<open>
  A connection: \<open>S\<close> is what the peer has yet to deliver; each event of the list makes that many
  bytes of it available, and the handler takes as many as it asks for.
\<close>

fun serve :: "'s command_proc \<Rightarrow> ('s \<Rightarrow> bool) \<Rightarrow> int \<Rightarrow> nat \<Rightarrow> nat list \<Rightarrow> byte list \<Rightarrow> client \<Rightarrow> 's \<Rightarrow> (byte list \<times> client \<times> 's) option" where
  "serve pc paused t maxlen [] S c s = Some (S, c, s)"
| "serve pc paused t maxlen (n # ns) S c s =
     (if take n S = [] then serve pc paused t maxlen ns S c s
      else do {
        (alive, c', s') \<leftarrow> readQueryFromClient pc paused t maxlen (take n S) c s;
        if alive then serve pc paused t maxlen ns (drop (min n (nat (read_length c))) S) c' s' else None })"

lemma waiting_upd:
  assumes "multibulklen c' = multibulklen c" "argv c' = argv c" "argv_size c' = argv_size c" "bulklen c' = bulklen c"
    "reqtype c' = reqtype c" "fl_blocked c' = fl_blocked c" "fl_close_after_reply c' = fl_close_after_reply c"
  shows "waiting c' reqs S = waiting c reqs S"
  using assms by (simp add: waiting_def fresh_def in_request_def reading_def pending_def)

text \<open>Between two events: the client waits, with little in its buffer.\<close>

definition between :: "client \<Rightarrow> byte list list list \<Rightarrow> byte list \<Rightarrow> bool" where
  "between c rest S \<longleftrightarrow> waiting c rest (querybuf c @ S) \<and> leftover c \<and> (rest = [] \<or> S \<noteq> [])"

lemma read_length_bounds:
  assumes "waiting c reqs S" "leftover c"
  shows "0 < read_length c" "read_length c \<le> int REDIS_IOBUF_LEN"
    "bulklen c \<noteq> -1 \<Longrightarrow> int REDIS_MBULK_BIG_ARG \<le> bulklen c \<Longrightarrow> int (length (querybuf c)) + read_length c \<le> bulklen c + 2"
proof -
  have mid: "reqtype c = REQ_MULTIBULK \<and> multibulklen c \<noteq> 0" if "bulklen c \<noteq> -1"
    using assms(1) that unfolding waiting_def fresh_def by (auto elim!: in_request_cases simp: reading_def)
  have "cast_int ((bulklen c + 2) mod 2 ^ 32 - int (length (querybuf c))) = bulklen c + 2 - int (length (querybuf c))" if "bulklen c \<noteq> -1"
    using assms(2) that by (simp add: leftover_def cast_int_id)
  then show "0 < read_length c" "read_length c \<le> int REDIS_IOBUF_LEN"
    "bulklen c \<noteq> -1 \<Longrightarrow> int REDIS_MBULK_BIG_ARG \<le> bulklen c \<Longrightarrow> int (length (querybuf c)) + read_length c \<le> bulklen c + 2"
    using assms(2) mid by (auto simp: read_length_def leftover_def split: if_splits)
qed

lemma read_length_peak: "read_length (c\<lparr>querybuf_peak := m\<rparr>) = read_length c"
  by (simp add: read_length_def)

lemma read_spec:
  assumes "plain_command pc step" "\<forall>s. \<not> paused s" "512 * 1024 * 1024 + 2 \<le> maxlen" "between c reqs S" "take n S \<noteq> []"
  obtains d c' rest where "readQueryFromClient pc paused t maxlen (take n S) c s = Some (True, c', fold step d s)" "reqs = d @ rest"
    "between c' rest (drop (min n (nat (read_length c))) S)"
proof -
  have w: "waiting c reqs (querybuf c @ S)" "leftover c" using assms(4) by (simp_all add: between_def)
  note rl = read_length_bounds [OF w]
  define k where "k = min n (nat (read_length c))"
  define data where "data = take k S"
  have k: "0 < k" using assms(5) rl(1) by (simp add: k_def)
  have data: "take (nat (read_length c)) (take n S) = data" "data \<noteq> []" "length data \<le> nat (read_length c)"
    using assms(5) k by (auto simp: data_def k_def min.commute [of n])
  define c1 where "c1 = c\<lparr>querybuf_peak := max (querybuf_peak c) (length (querybuf c)), querybuf := querybuf c @ data, lastinteraction := t,
      reploff := reploff c + (if fl_master c then int (length data) else 0)\<rparr>"
  have w1: "waiting c1 reqs (querybuf c @ S)" using w(1) by (subst waiting_upd [of c1 c]) (simp_all add: c1_def)
  have b1: "buffer_ok 0 c1"
    using w(2) data(3) rl by (cases "int REDIS_MBULK_BIG_ARG \<le> bulklen c") (auto simp: buffer_ok_def c1_def leftover_def split: if_splits)
  have pre: "prefix (querybuf c1) (querybuf c @ S)" by (simp add: c1_def data_def take_is_prefix)
  obtain d c' where p: "processInputBuffer pc paused t c1 s = Some (c', fold step d s)" "handled c1 reqs (querybuf c @ S) d c'"
    using processInputBuffer_spec [OF assms(1,2) w1 b1 pre] by blast
  then obtain rest S' u where h: "reqs = d @ rest" "waiting c' rest S'" "querybuf c @ S = u @ S'" "querybuf c1 = u @ querybuf c'" "leftover c'"
    "rest = [] \<or> length (querybuf c') < length S'" unfolding handled_def by blast
  have "querybuf c @ S = querybuf c1 @ drop k S" by (simp add: c1_def data_def)
  then have S': "S' = querybuf c' @ drop k S" using h(3,4) by simp
  have "between c' rest (drop k S)" using h(2,5,6) by (auto simp: between_def S')
  moreover have "length (querybuf c1) \<le> maxlen" using b1 assms(3) by (auto simp: buffer_ok_def)
  then have "readQueryFromClient pc paused t maxlen (take n S) c s = Some (True, c', fold step d s)"
    unfolding readQueryFromClient_def Let_def read_length_peak data(1)
    using p(1) data(2) by (cases "fl_master c") (simp_all add: c1_def)
  ultimately show thesis using that [OF _ h(1)] by (simp add: k_def)
qed

lemma serve_spec:
  assumes "plain_command pc step" "\<forall>s. \<not> paused s" "512 * 1024 * 1024 + 2 \<le> maxlen" "between c reqs S"
  shows "\<exists>d c' rest S'. serve pc paused t maxlen ns S c s = Some (S', c', fold step d s) \<and> reqs = d @ rest \<and> between c' rest S'
    \<and> (list_all (\<lambda>n. 0 < n) ns \<longrightarrow> length S \<le> length ns \<longrightarrow> S' = [])"
  using assms(4)
proof (induction ns arbitrary: c s reqs S)
  case Nil
  then show ?case by (intro exI [of _ "[]"]) auto
next
  case (Cons n ns)
  show ?case
  proof (cases "take n S = []")
    case True
    then have "S = []" if "0 < n" using that by (cases S) auto
    then show ?thesis using Cons.IH [OF Cons.prems, of s] True by (cases "0 < n") auto
  next
    case False
    from read_spec [OF assms(1-3) Cons.prems False, of t s] obtain d c1 rest where
      r: "readQueryFromClient pc paused t maxlen (take n S) c s = Some (True, c1, fold step d s)" "reqs = d @ rest"
      "between c1 rest (drop (min n (nat (read_length c))) S)" by blast
    from Cons.IH [OF r(3), of "fold step d s"] obtain d' c2 rest' S' where
      i: "serve pc paused t maxlen ns (drop (min n (nat (read_length c))) S) c1 (fold step d s) = Some (S', c2, fold step d' (fold step d s))"
      "rest = d' @ rest'" "between c2 rest' S'"
      "list_all (\<lambda>n. 0 < n) ns \<longrightarrow> length (drop (min n (nat (read_length c))) S) \<le> length ns \<longrightarrow> S' = []" by blast
    have "0 < read_length c" using read_length_bounds(1) [of c reqs] Cons.prems by (auto simp: between_def)
    then have "length (drop (min n (nat (read_length c))) S) \<le> length ns" if "length S \<le> length (n # ns)" "0 < n" using that by auto
    then show ?thesis using i r(1,2) False by (intro exI [of _ "d @ d'"] exI [of _ c2] exI [of _ rest'] exI [of _ S']) auto
  qed
qed

section \<open>Properties\<close>


definition ex_client :: client where
  "ex_client = \<lparr>querybuf = [], querybuf_peak = 0, argv = [], argv_size = 0, reqtype = REQ_NONE, multibulklen = 0, bulklen = -1,
     reply = [], fl_slave = False, fl_master = False, fl_multi = False, fl_blocked = False, fl_asking = False,
     fl_close_after_reply = False, cmd_is_asking = False, lastinteraction = 0, repl_ack_time = 0, reploff = 0\<rparr>"

text \<open>A server that keeps a log of the commands, and two requests that arrive byte by byte.\<close>

definition log_command :: "(byte list list list) command_proc" where
  "log_command c s = (True, c, s @ [argv c])"

lemma log_command_plain: "plain_command log_command (\<lambda>a s. s @ [a])"
  by (simp add: plain_command_def log_command_def)

definition ex_requests :: "byte list list list" where
  "ex_requests = [[bytes_of ''SET'', [CH_CR, CH_LF, CH_NUL]], [bytes_of ''PING'']]"


text \<open>
  A line that ends in a line feed only, which the parser of inline requests accepts, costs
  the request after it its first byte: the code skips two bytes for the line end in any case.
\<close>

theorem inline_skips_byte:
  "\<exists>c. processInputBuffer log_command (\<lambda>_. False) 0 (ex_client\<lparr>querybuf := [97, CH_LF, 98, 99, CH_LF]\<rparr>) []
     = Some (c, [[[97]], [[99]]]) \<and> querybuf c = []"
proof -
  have split: "sdssplitargs [97, CH_NUL] = Some (Some [[97]])" "sdssplitargs [99, CH_NUL] = Some (Some [[99]])"
    by code_simp+
  have a: "processInlineBuffer 0 (ex_client\<lparr>querybuf := [97, CH_LF, 98, 99, CH_LF], reqtype := REQ_INLINE\<rparr>)
      = Some (True, ex_client\<lparr>querybuf := [99, CH_LF], reqtype := REQ_INLINE, argv_size := 1, argv := [[97]]\<rparr>)"
    by (simp add: processInlineBuffer_def split ex_client_def redis_range_def Let_def)
  have b: "processInlineBuffer 0 (ex_client\<lparr>querybuf := [99, CH_LF], reqtype := REQ_INLINE, argv_size := 1\<rparr>)
      = Some (True, ex_client\<lparr>querybuf := [], reqtype := REQ_INLINE, argv_size := 1, argv := [[99]]\<rparr>)"
    by (simp add: processInlineBuffer_def split ex_client_def redis_range_def Let_def)
  have r: "resetClient (ex_client\<lparr>querybuf := q, reqtype := REQ_INLINE, argv_size := 1, argv := v\<rparr>) = ex_client\<lparr>querybuf := q, argv_size := 1\<rparr>" for q v
    by (simp add: resetClient_def ex_client_def)
  have f: "fl_slave ex_client = False" "fl_blocked ex_client = False" "fl_close_after_reply ex_client = False" "reqtype ex_client = REQ_NONE"
    by (simp_all add: ex_client_def)
  have 3: "processInputBuffer log_command (\<lambda>_. False) 0 (ex_client\<lparr>querybuf := [], argv_size := 1\<rparr>) s
      = Some (ex_client\<lparr>querybuf := [], argv_size := 1\<rparr>, s)" for s
    by (subst processInputBuffer.simps) simp
  have e: "(ex_client\<lparr>querybuf := [99, CH_LF], argv_size := 1\<rparr>)\<lparr>reqtype := REQ_INLINE\<rparr>
      = ex_client\<lparr>querybuf := [99, CH_LF], reqtype := REQ_INLINE, argv_size := 1\<rparr>"
    by (simp add: ex_client_def)
  have 2: "processInputBuffer log_command (\<lambda>_. False) 0 (ex_client\<lparr>querybuf := [99, CH_LF], argv_size := 1\<rparr>) [[[97]]]
      = Some (ex_client\<lparr>querybuf := [], argv_size := 1\<rparr>, [[[97]], [[99]]])"
    by (subst processInputBuffer.simps) (simp add: f e b r 3 log_command_def del: One_nat_def)
  show ?thesis
    by (subst processInputBuffer.simps) (simp add: f a r 2 log_command_def del: One_nat_def)
qed

section \<open>Arbitrary input\<close>

text \<open>The state between two calls, for input that need not be a request.\<close>

definition bulk_ok :: "nat \<Rightarrow> client \<Rightarrow> bool" where
  "bulk_ok n c \<longleftrightarrow> length (querybuf c) < 2 ^ 31 \<and> multibulklen c = int n \<and> argv_size c = length (argv c) + n
     \<and> (bulklen c = -1 \<or> (n \<noteq> 0 \<and> 0 \<le> bulklen c \<and> bulklen c \<le> 512 * 1024 * 1024))"

definition parse_inv :: "client \<Rightarrow> bool" where
  "parse_inv c \<longleftrightarrow>
     (multibulklen c = 0 \<and> bulklen c = -1 \<and> argv c = [] \<and> length (querybuf c) < 2 ^ 31 \<and> (querybuf c = [] \<or> hd (querybuf c) = CH_STAR))
     \<or> (\<exists>n. n \<noteq> 0 \<and> bulk_ok n c)"

text \<open>What a piece of the parser may do: report an error and mark the client, stop, or go on.\<close>

definition safe_ctl :: "nat \<Rightarrow> (nat \<Rightarrow> nat \<Rightarrow> client \<Rightarrow> bool) \<Rightarrow> nat \<Rightarrow> parse_ctl option \<Rightarrow> bool" where
  "safe_ctl m Q len r \<longleftrightarrow> (case r of
     Some (Return ok c) \<Rightarrow> \<not> ok \<and> fl_close_after_reply c \<and> length (querybuf c) \<le> len
   | Some (Break p c) \<Rightarrow> p \<le> length (querybuf c) \<and> length (querybuf c) \<le> len \<and> (\<exists>n. n \<le> m \<and> bulk_ok n c)
   | Some (Next p c) \<Rightarrow> Q m p c \<and> p \<le> length (querybuf c) \<and> length (querybuf c) \<le> len
   | None \<Rightarrow> False)"

lemma str_index_bound: "str_index c xs = Some n \<Longrightarrow> n < length xs \<and> xs ! n = c"
  by (induction xs arbitrary: n) (auto split: if_splits)

lemma length_range_drop [simp]: "length (redis_range (int p) (-1) xs) = length xs - p"
  by (simp add: redis_range_drop)

lemma close_error [simp]: "fl_close_after_reply (setProtocolError c p)" "length (querybuf (setProtocolError c p)) = length (querybuf c) - p"
  by (simp_all add: setProtocolError_def)

lemma reply_querybuf [simp]: "querybuf (addReplyError c e) = querybuf c" "querybuf (addReplyErrorFormat c f) = querybuf c"
  by (simp_all add: addReplyError_def addReplyErrorFormat_def addReplyErrorLength_def addReplyString_def)

lemma cast_len: "length xs < 2 ^ 31 \<Longrightarrow> cast_int (int (length xs)) = int (length xs)"
  by (rule cast_int_id) simp_all

lemma read_bulklen_safe:
  assumes "bulk_ok n c" "n \<noteq> 0" "p \<le> length (querybuf c)"
  shows "safe_ctl n (\<lambda>n p c. bulk_ok n c \<and> bulklen c \<noteq> -1) (length (querybuf c)) (read_bulklen p c)"
proof (cases "bulklen c = -1")
  case True
  have len: "length (querybuf c) < 2 ^ 31" using assms(1) by (simp add: bulk_ok_def)
  show ?thesis
  proof (cases "str_index CH_CR (drop p (querybuf c))")
    case None
    then show ?thesis using True assms by (auto simp: safe_ctl_def read_bulklen_def)
  next
    case (Some m)
    define ok where "ok = string2ll (take (m - 1) (drop (p + 1) (querybuf c)))"
    have m: "p + m < length (querybuf c)" using str_index_bound [OF Some] by auto
    have upd: "bulk_ok n (c\<lparr>bulklen := b\<rparr>) \<and> bulk_ok n (c\<lparr>querybuf := drop k (querybuf c), bulklen := b\<rparr>)" if "0 \<le> b" "b \<le> 512 * 1024 * 1024" for b k
      using assms(1,2) that by (auto simp: bulk_ok_def)
    consider "int (p + m) > int (length (querybuf c)) - 2"
      | "p + m + 2 \<le> length (querybuf c)" "querybuf c ! p \<noteq> CH_DOLLAR"
      | "p + m + 2 \<le> length (querybuf c)" "querybuf c ! p = CH_DOLLAR" "ok = None \<or> the ok < 0 \<or> the ok > 512 * 1024 * 1024"
      | b where "p + m + 2 \<le> length (querybuf c)" "querybuf c ! p = CH_DOLLAR" "ok = Some b" "0 \<le> b" "b \<le> 512 * 1024 * 1024"
      by force
    then show ?thesis
    proof cases
      case 1
      then show ?thesis using True Some assms len by (auto simp: safe_ctl_def read_bulklen_def cast_len)
    next
      case 2
      then show ?thesis using True Some assms len by (auto simp: safe_ctl_def read_bulklen_def cast_len)
    next
      case 3
      then show ?thesis using True Some assms len unfolding read_bulklen_def by (auto simp: safe_ctl_def cast_len ok_def [simplified, symmetric] Let_def)
    next
      case (4 b)
      then show ?thesis using True Some assms len upd [of b] unfolding read_bulklen_def redis_range_drop [of "p + m + 2", simplified]
        by (auto simp: safe_ctl_def cast_len ok_def [simplified, symmetric] Let_def redis_range_drop [of "Suc (Suc (p + m))", simplified])
    qed
  qed
qed (use assms in \<open>auto simp: safe_ctl_def read_bulklen_def\<close>)

lemma read_bulk_safe:
  assumes "bulk_ok (Suc n) c" "bulklen c \<noteq> -1" "p \<le> length (querybuf c)"
  shows "safe_ctl (Suc n) (\<lambda>m p c. bulk_ok n c) (length (querybuf c)) (read_bulk p c)"
proof (cases "int (length (querybuf c)) - int p < bulklen c + 2")
  case True
  have "(int (length (querybuf c)) - int p) mod 2 ^ 64 < (bulklen c + 2) mod 2 ^ 32"
    using True assms by (auto simp: bulk_ok_def)
  then show ?thesis using assms by (auto simp: safe_ctl_def read_bulk_def)
next
  case False
  have b: "0 \<le> bulklen c" "bulklen c \<le> 512 * 1024 * 1024" "length (argv c) < argv_size c" using assms(1,2) by (auto simp: bulk_ok_def)
  have "\<not> (int (length (querybuf c)) - int p) mod 2 ^ 64 < (bulklen c + 2) mod 2 ^ 32"
    using False assms(1) b by (auto simp: bulk_ok_def)
  moreover have "p + nat (bulklen c) + 2 \<le> length (querybuf c)" using False b(1) by arith
  ultimately show ?thesis using b assms unfolding read_bulk_def Let_def
    by (auto simp: safe_ctl_def push_arg_def read_bytes_def bulk_ok_def)
qed

lemma safe_ctl_mono:
  "safe_ctl n (\<lambda>_ _ _. False) len r \<Longrightarrow> n \<le> n' \<Longrightarrow> len \<le> len' \<Longrightarrow> safe_ctl n' (\<lambda>_ _ _. False) len' r"
  by (auto simp: safe_ctl_def split: option.splits parse_ctl.splits intro: order_trans)

lemma multibulk_loop_safe:
  assumes "bulk_ok n c" "p \<le> length (querybuf c)"
  shows "safe_ctl n (\<lambda>_ _ _. False) (length (querybuf c)) (multibulk_loop n p c)"
  using assms
proof (induction n arbitrary: p c)
  case 0
  then show ?case by (auto simp: safe_ctl_def)
next
  case (Suc n)
  note a = read_bulklen_safe [OF Suc.prems(1) _ Suc.prems(2)]
  obtain r where r: "read_bulklen p c = Some r" using a by (auto simp: safe_ctl_def split: option.splits)
  show ?case
  proof (cases r)
    case (Next p1 c1)
    have n1: "bulk_ok (Suc n) c1" "bulklen c1 \<noteq> -1" "p1 \<le> length (querybuf c1)" "length (querybuf c1) \<le> length (querybuf c)"
      using a r Next by (auto simp: safe_ctl_def)
    note b = read_bulk_safe [OF n1(1-3)]
    obtain r2 where r2: "read_bulk p1 c1 = Some r2" using b by (auto simp: safe_ctl_def split: option.splits)
    show ?thesis
    proof (cases r2)
      case (Next p2 c2)
      then have "bulk_ok n c2" "p2 \<le> length (querybuf c2)" "length (querybuf c2) \<le> length (querybuf c1)" using b r2 by (auto simp: safe_ctl_def)
      then show ?thesis using safe_ctl_mono [OF Suc.IH [of c2 p2]] r r2 \<open>r = Next p1 c1\<close> Next n1(4) by simp
    qed (use b r r2 \<open>r = Next p1 c1\<close> n1(4) in \<open>auto simp: safe_ctl_def\<close>)
  qed (use a r in \<open>auto simp: safe_ctl_def\<close>)
qed

lemma bulk_ok_trim: "bulk_ok n c \<Longrightarrow> bulk_ok n (if p \<noteq> 0 then c\<lparr>querybuf := redis_range (int p) (-1) (querybuf c)\<rparr> else c)"
  by (simp add: bulk_ok_def less_imp_diff_less)

text \<open>
  C30: no sequence of bytes makes the parser of multi bulk requests fail: from every state that
  its own calls leave, with any content of the buffer, it returns, no assertion fails, no byte
  outside the buffer and no slot outside the argument vector is touched, and the buffer does
  not grow. Its answer is a complete request, or it waits in such a state again, or the client
  is marked to be closed after an error reply.
\<close>

theorem processMultibulkBuffer_safe:
  assumes "parse_inv c"
  shows "\<exists>ok c'. processMultibulkBuffer c = Some (ok, c') \<and> length (querybuf c') \<le> length (querybuf c)
    \<and> (if ok then multibulklen c' = 0 \<and> bulklen c' = -1 else fl_close_after_reply c' \<or> parse_inv c')"
proof -
  have body: "\<exists>ok c'. (case multibulk_loop (nat (multibulklen c1)) p c1 of None \<Rightarrow> None
      | Some (Break p c) \<Rightarrow> Some (multibulklen c = 0, if p \<noteq> 0 then c\<lparr>querybuf := redis_range (int p) (-1) (querybuf c)\<rparr> else c)
      | Some (Return ok c) \<Rightarrow> Some (ok, c) | Some (Next p c) \<Rightarrow> None) = Some (ok, c') \<and> length (querybuf c') \<le> length (querybuf c1)
    \<and> (if ok then multibulklen c' = 0 \<and> bulklen c' = -1 else fl_close_after_reply c' \<or> parse_inv c')"
    if c1: "bulk_ok n c1" "p \<le> length (querybuf c1)" for n p c1
  proof -
    have n: "nat (multibulklen c1) = n" using c1 by (simp add: bulk_ok_def)
    note l = multibulk_loop_safe [OF c1]
    obtain r where r: "multibulk_loop n p c1 = Some r" using l by (auto simp: safe_ctl_def split: option.splits)
    show ?thesis
    proof (cases r)
      case (Break p' c')
      then obtain m where m: "bulk_ok m c'" "length (querybuf c') \<le> length (querybuf c1)" using l r by (auto simp: safe_ctl_def)
      have "m \<noteq> 0 \<longrightarrow> parse_inv (if p' \<noteq> 0 then c'\<lparr>querybuf := redis_range (int p') (-1) (querybuf c')\<rparr> else c')"
        using bulk_ok_trim [OF m(1), of p'] unfolding parse_inv_def by blast
      then show ?thesis using m r Break n by (auto simp: bulk_ok_def)
    qed (use l r n in \<open>auto simp: safe_ctl_def\<close>)
  qed
  have pm: "processMultibulkBuffer c = (case multibulk_loop (nat (multibulklen c1)) p c1 of None \<Rightarrow> None
      | Some (Break p c) \<Rightarrow> Some (multibulklen c = 0, if p \<noteq> 0 then c\<lparr>querybuf := redis_range (int p) (-1) (querybuf c)\<rparr> else c)
      | Some (Return ok c) \<Rightarrow> Some (ok, c) | Some (Next p c) \<Rightarrow> None)"
    if "(if multibulklen c = 0 then read_multibulklen c else Some (Next 0 c)) = Some (Next p c1)" "0 < multibulklen c1" for p c1
    using that by (auto simp: processMultibulkBuffer_def Let_def split: option.splits parse_ctl.splits bind_splits)
  show ?thesis
  proof (cases "multibulklen c = 0")
    case False
    then obtain n where n: "n \<noteq> 0" "bulk_ok n c" using assms by (auto simp: parse_inv_def)
    then have "0 < multibulklen c" by (simp add: bulk_ok_def)
    then show ?thesis using body [OF n(2), of 0] pm [of 0 c] False by simp
  next
    case True
    then have f: "bulklen c = -1" "argv c = []" "length (querybuf c) < 2 ^ 31" "querybuf c = [] \<or> hd (querybuf c) = CH_STAR" "parse_inv c"
      using assms by (auto simp: parse_inv_def bulk_ok_def)
    show ?thesis
    proof (cases "str_index CH_CR (querybuf c)")
      case None
      then show ?thesis using f True by (auto simp: processMultibulkBuffer_def read_multibulklen_def)
    next
      case (Some m)
      define ok where "ok = string2ll (take (m - 1) (drop 1 (querybuf c)))"
      have m: "m < length (querybuf c)" using str_index_bound [OF Some] by simp
      then have star: "querybuf c ! 0 = CH_STAR" using f(4) by (cases "querybuf c") auto
      consider "int m > int (length (querybuf c)) - 2" | "m + 2 \<le> length (querybuf c)" "ok = None \<or> the ok > 1024 * 1024"
        | b where "m + 2 \<le> length (querybuf c)" "ok = Some b" "b \<le> 0"
        | b where "m + 2 \<le> length (querybuf c)" "ok = Some b" "0 < b" "b \<le> 1024 * 1024"
        by (cases ok; cases "m + 2 \<le> length (querybuf c)"; cases "the ok \<le> 0"; cases "the ok \<le> 1024 * 1024"; simp add: not_le)
      then show ?thesis
      proof cases
        case 1
        then show ?thesis using f True Some by (auto simp: processMultibulkBuffer_def read_multibulklen_def cast_len)
      next
        case 2
        then show ?thesis using f True Some star unfolding processMultibulkBuffer_def read_multibulklen_def
          by (auto simp: cast_len ok_def [simplified, symmetric] Let_def)
      next
        case (3 b)
        then show ?thesis using f True Some star unfolding processMultibulkBuffer_def read_multibulklen_def
          by (auto simp: cast_len ok_def [simplified, symmetric] Let_def redis_range_drop [of "Suc (Suc m)", simplified])
      next
        case (4 b)
        define c1 where "c1 = c\<lparr>multibulklen := b, argv_size := nat b\<rparr>"
        have "read_multibulklen c = Some (Next (m + 2) c1)"
          using 4 f Some star unfolding read_multibulklen_def by (simp add: cast_len ok_def [simplified, symmetric] Let_def c1_def)
        moreover have "bulk_ok (nat b) c1" "m + 2 \<le> length (querybuf c1)" "0 < multibulklen c1" using 4 f by (auto simp: bulk_ok_def c1_def)
        moreover have "querybuf c1 = querybuf c" by (simp add: c1_def)
        ultimately show ?thesis using body [of "nat b" c1 "m + 2"] pm [of "m + 2" c1] True by simp
      qed
    qed
  qed
qed

theorem processMultibulkBuffer_safe_witness:
  "\<exists>ok c'. processMultibulkBuffer (ex_client\<lparr>querybuf := [CH_STAR, CH_1, CH_CR, CH_LF, CH_0]\<rparr>) = Some (ok, c')
    \<and> length (querybuf c') \<le> 5"
  using processMultibulkBuffer_safe [of "ex_client\<lparr>querybuf := [CH_STAR, CH_1, CH_CR, CH_LF, CH_0]\<rparr>"]
  by (auto simp: parse_inv_def ex_client_def)

end
