(* ===== verification/Dict_Types.thy ===== *)
theory Dict_Types
  imports Dict_Ops Util
begin

text \<open>
  The hash functions of \<^verbatim>\<open>dict.c\<close> and the dictionary types that the server uses
  (\<^verbatim>\<open>redis.c\<close>): keys are texts, or string objects whose value is a text or an integer. The
  interface \<open>key_type\<close> of the dictionary theories is interpreted on them, so their theorems
  hold for the dictionaries of the server. The seed of the hash functions, a static variable
  of the file, is an argument.
\<close>

section \<open>Hash functions\<close>

definition dictIntHashFunction :: "u32 \<Rightarrow> u32" where
  "dictIntHashFunction key =
     (let key = key + NOT (push_bit 15 key);
          key = key XOR drop_bit 10 key;
          key = key + push_bit 3 key;
          key = key XOR drop_bit 6 key;
          key = key + NOT (push_bit 11 key)
      in key XOR drop_bit 16 key)"

abbreviation MURMUR_M :: u32 where "MURMUR_M \<equiv> 0x5bd1e995"

text \<open>The loop over the groups of four bytes: the hash so far and the bytes that are left.\<close>

fun gen_hash_loop :: "u32 \<Rightarrow> byte list \<Rightarrow> u32 \<times> byte list" where
  "gen_hash_loop h (b0 # b1 # b2 # b3 # data) =
     (let k = word_of_int (le_uint [b0, b1, b2, b3]);
          k = k * MURMUR_M;
          k = k XOR drop_bit 24 k;
          k = k * MURMUR_M;
          h = h * MURMUR_M
      in gen_hash_loop (h XOR k) data)"
| "gen_hash_loop h data = (h, data)"

text \<open>
  The \<open>switch\<close> falls through from the third byte to the first; \<open>data[2] << 16\<close> is a shift of an
  \<open>int\<close>. A negative length leaves both the loop and the \<open>switch\<close> without effect.
\<close>

definition gen_hash_rest :: "u32 \<Rightarrow> byte list \<Rightarrow> u32" where
  "gen_hash_rest h data =
     (let h = (if length data = 3 then h XOR push_bit 16 (ucast (data ! 2)) else h);
          h = (if length data \<ge> 2 then h XOR push_bit 8 (ucast (data ! 1)) else h)
      in if length data \<ge> 1 then (h XOR ucast (data ! 0)) * MURMUR_M else h)"

definition dictGenHashFunction :: "u32 \<Rightarrow> byte list \<Rightarrow> int \<Rightarrow> u32" where
  "dictGenHashFunction seed key len =
     (let h = seed XOR word_of_int len;
          (h, data) = gen_hash_loop h (take (nat len) key);
          h = gen_hash_rest h data;
          h = h XOR drop_bit 13 h;
          h = h * MURMUR_M
      in h XOR drop_bit 15 h)"

definition dictGenCaseHashFunction :: "u32 \<Rightarrow> byte list \<Rightarrow> int \<Rightarrow> u32" where
  "dictGenCaseHashFunction seed buf len =
     foldl (\<lambda>hash c. (push_bit 5 hash + hash) + ucast (tolower c)) seed (take (nat len) buf)"

section \<open>Keys of the server's dictionaries\<close>

text \<open>
  Texts are shorter than \<open>2 ^ 31\<close> bytes (the server bounds them by 512 MB), so the conversions of
  their lengths to \<open>int\<close> keep the value.
\<close>

definition dictSdsHash :: "u32 \<Rightarrow> byte list \<Rightarrow> u32" where
  "dictSdsHash seed key = dictGenHashFunction seed key (int (length key))"

definition dictSdsCaseHash :: "u32 \<Rightarrow> byte list \<Rightarrow> u32" where
  "dictSdsCaseHash seed key = dictGenCaseHashFunction seed key (int (length key))"

definition dictSdsKeyCompare :: "byte list \<Rightarrow> byte list \<Rightarrow> bool" where
  "dictSdsKeyCompare key1 key2 =
     (let l1 = length key1; l2 = length key2 in
      if l1 \<noteq> l2 then False else take l1 key1 = take l1 key2)"

text \<open>\<open>strcasecmp\<close> compares up to the first zero byte.\<close>

definition dictSdsKeyCaseCompare :: "byte list \<Rightarrow> byte list \<Rightarrow> bool" where
  "dictSdsKeyCaseCompare key1 key2 \<longleftrightarrow>
     map tolower (takeWhile (\<lambda>c. c \<noteq> CH_NUL) key1) = map tolower (takeWhile (\<lambda>c. c \<noteq> CH_NUL) key2)"

text \<open>
  A string object holds a text, or (encoding \<open>REDIS_ENCODING_INT\<close>) a \<open>long\<close> in place of the
  pointer. Reference counts are not part of the model.
\<close>

datatype str_obj = SdsObj "byte list" | IntObj "64 word"

definition int_obj_text :: "64 word \<Rightarrow> byte list" where
  "int_obj_text w = (case ll2string (replicate 32 0) 32 (sint w) of Some (len, buf) \<Rightarrow> take len buf | None \<Rightarrow> [])"

definition getDecodedObject :: "str_obj \<Rightarrow> byte list" where
  "getDecodedObject o1 = (case o1 of SdsObj s \<Rightarrow> s | IntObj w \<Rightarrow> int_obj_text w)"

definition dictObjHash :: "u32 \<Rightarrow> byte list \<Rightarrow> u32" where
  "dictObjHash seed key = dictGenHashFunction seed key (int (length key))"

definition dictObjKeyCompare :: "byte list \<Rightarrow> byte list \<Rightarrow> bool" where
  "dictObjKeyCompare o1 o2 = dictSdsKeyCompare o1 o2"

definition dictEncObjHash :: "u32 \<Rightarrow> str_obj \<Rightarrow> u32" where
  "dictEncObjHash seed key =
     (case key of
        SdsObj s \<Rightarrow> dictGenHashFunction seed s (int (length s))
      | IntObj w \<Rightarrow> let buf = int_obj_text w in dictGenHashFunction seed buf (int (length buf)))"

definition dictEncObjKeyCompare :: "str_obj \<Rightarrow> str_obj \<Rightarrow> bool" where
  "dictEncObjKeyCompare o1 o2 =
     (case (o1, o2) of
        (IntObj v, IntObj w) \<Rightarrow> v = w
      | _ \<Rightarrow> dictSdsKeyCompare (getDecodedObject o1) (getDecodedObject o2))"

section \<open>Dictionary types\<close>

definition setDictType :: "u32 \<Rightarrow> (str_obj, 'v) dictType" where
  "setDictType seed = \<lparr>hashFunction = dictEncObjHash seed, keyDup = None, valDup = None,
     keyCompare = Some dictEncObjKeyCompare\<rparr>"

definition zsetDictType :: "u32 \<Rightarrow> (str_obj, 'v) dictType" where
  "zsetDictType seed = \<lparr>hashFunction = dictEncObjHash seed, keyDup = None, valDup = None,
     keyCompare = Some dictEncObjKeyCompare\<rparr>"

definition dbDictType :: "u32 \<Rightarrow> (byte list, 'v) dictType" where
  "dbDictType seed = \<lparr>hashFunction = dictSdsHash seed, keyDup = None, valDup = None,
     keyCompare = Some dictSdsKeyCompare\<rparr>"

definition shaScriptObjectDictType :: "u32 \<Rightarrow> (byte list, 'v) dictType" where
  "shaScriptObjectDictType seed = \<lparr>hashFunction = dictSdsCaseHash seed, keyDup = None, valDup = None,
     keyCompare = Some dictSdsKeyCaseCompare\<rparr>"

definition keyptrDictType :: "u32 \<Rightarrow> (byte list, 'v) dictType" where
  "keyptrDictType seed = \<lparr>hashFunction = dictSdsHash seed, keyDup = None, valDup = None,
     keyCompare = Some dictSdsKeyCompare\<rparr>"

definition commandTableDictType :: "u32 \<Rightarrow> (byte list, 'v) dictType" where
  "commandTableDictType seed = \<lparr>hashFunction = dictSdsCaseHash seed, keyDup = None, valDup = None,
     keyCompare = Some dictSdsKeyCaseCompare\<rparr>"

definition hashDictType :: "u32 \<Rightarrow> (str_obj, 'v) dictType" where
  "hashDictType seed = \<lparr>hashFunction = dictEncObjHash seed, keyDup = None, valDup = None,
     keyCompare = Some dictEncObjKeyCompare\<rparr>"

definition keylistDictType :: "u32 \<Rightarrow> (byte list, 'v) dictType" where
  "keylistDictType seed = \<lparr>hashFunction = dictObjHash seed, keyDup = None, valDup = None,
     keyCompare = Some dictObjKeyCompare\<rparr>"

definition clusterNodesDictType :: "u32 \<Rightarrow> (byte list, 'v) dictType" where
  "clusterNodesDictType seed = \<lparr>hashFunction = dictSdsHash seed, keyDup = None, valDup = None,
     keyCompare = Some dictSdsKeyCompare\<rparr>"

definition migrateCacheDictType :: "u32 \<Rightarrow> (byte list, 'v) dictType" where
  "migrateCacheDictType seed = \<lparr>hashFunction = dictSdsHash seed, keyDup = None, valDup = None,
     keyCompare = Some dictSdsKeyCompare\<rparr>"

section \<open>The laws of the keys\<close>

lemma sds_compare_eq: "dictSdsKeyCompare = (=)"
  by (auto simp: dictSdsKeyCompare_def Let_def fun_eq_iff)

lemma fits_sint64: "fits 8 (sint (w :: 64 word))"
  using sint_greater_eq [of w] sint_less [of w] by (simp add: fits_def)

lemma int_obj_text: "int_obj_text w = decimal (sint w)"
proof -
  define d where "d = decimal (sint w)"
  have "length d < 32" using length_decimal_i64 [OF fits_sint64 [of w]] by (simp add: d_def)
  then have "ll2string (replicate 32 0) 32 (sint w) = Some (length d, d @ CH_NUL # drop (length d + 1) (replicate 32 0))"
    using ll2string_spec [OF fits_sint64 [of w], of 32 "replicate 32 0"] unfolding d_def [symmetric] length_replicate by simp
  then show ?thesis by (simp add: int_obj_text_def d_def [symmetric])
qed

lemma decimal_inj: "fits 8 v \<Longrightarrow> fits 8 w \<Longrightarrow> decimal v = decimal w \<longleftrightarrow> v = w"
  by (metis option.inject string2ll_decimal)

text \<open>Two objects are the same key when they stand for the same text, whatever their encodings.\<close>

lemma enc_compare_iff: "dictEncObjKeyCompare a b \<longleftrightarrow> getDecodedObject a = getDecodedObject b"
  by (auto simp: dictEncObjKeyCompare_def getDecodedObject_def sds_compare_eq int_obj_text decimal_inj fits_sint64
      signed_word_eqI split: str_obj.split)

lemma enc_hash: "dictEncObjHash seed a = dictSdsHash seed (getDecodedObject a)"
  by (simp add: dictEncObjHash_def dictSdsHash_def getDecodedObject_def Let_def split: str_obj.split)

interpretation sds_key: key_type "dictSdsHash seed" dictSdsKeyCompare id for seed
  by unfold_locales (auto simp: sds_compare_eq identity_equivp)

interpretation enc_key: key_type "dictEncObjHash seed" dictEncObjKeyCompare id for seed
  by unfold_locales (auto simp: enc_compare_iff enc_hash equivp_def fun_eq_iff)

text \<open>
  The case-insensitive keys obey the law about hashes for texts without a zero byte: the
  comparison stops at the first zero byte, the hash does not.
\<close>

lemma case_hash_agrees:
  assumes "dictSdsKeyCaseCompare a b" "CH_NUL \<notin> set a" "CH_NUL \<notin> set b"
  shows "dictSdsCaseHash seed a = dictSdsCaseHash seed b"
proof -
  have h: "dictSdsCaseHash seed s = foldl (\<lambda>hash c. (push_bit 5 hash + hash) + ucast c) seed (map tolower s)" for s
    by (simp add: dictSdsCaseHash_def dictGenCaseHashFunction_def foldl_map)
  have tw: "takeWhile (\<lambda>c. c \<noteq> CH_NUL) s = s" if "CH_NUL \<notin> set s" for s
    using that by (auto simp: takeWhile_eq_all_conv)
  have "map tolower a = map tolower b"
    using assms(1) unfolding dictSdsKeyCaseCompare_def tw [OF assms(2)] tw [OF assms(3)] .
  then show ?thesis by (simp add: h)
qed

lemma case_compare_equiv: "equivp dictSdsKeyCaseCompare"
  by (auto simp: equivp_def dictSdsKeyCaseCompare_def fun_eq_iff)


end
