(* ===== verification/Dict_Map.thy ===== *)
theory Dict_Map
  imports Dict_Types
begin

text \<open>
  Dictionaries as the rest of the server uses them: an interface over a dictionary type
  whose keys are equal when they have the same text. Each operation of \<^verbatim>\<open>dict.c\<close> keeps the
  invariant of the interface and has its effect on the finite map the dictionary stands for.
  The interface is interpreted on the dictionary types of the key space, of the expiry times,
  of sets and of sorted sets.
\<close>

section \<open>Table sizes\<close>

definition tabs :: "('k, 'v) dict \<Rightarrow> nat" where
  "tabs d = max (ht_size (ht0 d)) (ht_size (ht1 d))"

lemma dict_room_tabs: "dict_room d \<longleftrightarrow> tabs d \<le> 2 ^ 31 \<and> dictSize d \<le> 2 ^ 30"
  by (simp add: dict_room_def tabs_def)

lemma tabs_same_content: "same_content d d' \<Longrightarrow> tabs d' \<le> tabs d"
  by (simp add: same_content_def tabs_def)

lemma tabs_set_ht:
  "ht_size h = ht_size (ht_of d t) \<Longrightarrow> tabs (set_ht d t h) = tabs d \<and> dtype (set_ht d t h) = dtype d"
  by (simp add: tabs_def set_ht_def ht_of_def)

lemma tabs_dictSetVal: "dictSetVal d r v = Some d' \<Longrightarrow> tabs d' = tabs d \<and> dtype d' = dtype d"
  by (auto simp: dictSetVal_def bind_eq_Some_conv tabs_set_ht split: prod.splits)

lemma tabs_unlink: "unlink_entry d r = Some (e, d') \<Longrightarrow> tabs d' = tabs d \<and> dtype d' = dtype d"
  by (auto simp: unlink_entry_def bind_eq_Some_conv tabs_set_ht split: prod.splits)

lemma tabs_rehash:
  assumes "dict_wf d" "rehash_if_needed env d = Some d'"
  shows "tabs d' \<le> tabs d" "dtype d' = dtype d" "dictSize d' = dictSize d" "dict_wf d'"
proof -
  have d': "dict_wf d'" "same_content d d'" using rehash_if_needed_spec [OF assms(1), of env] assms(2) by auto
  then show "tabs d' \<le> tabs d" "dict_wf d'" "dtype d' = dtype d" "dictSize d' = dictSize d"
    using same_entries_dictSize [OF assms(1) d'(1) same_content_entries] by (simp_all add: tabs_same_content same_content_def)
qed

lemma tabs_dictKeyIndex:
  assumes "dict_wf d" "dict_room d" "dictKeyIndex env d k = Some (i, d')"
  shows "tabs d' \<le> 2 ^ 31"
  using dictExpandIfNeeded_spec [OF assms(1,2), of env] assms(3)
  by (auto simp: dictKeyIndex_def tabs_def bind_eq_Some_conv Let_def split: option.splits)

lemma tabs_dictAddRaw:
  assumes "dict_wf d" "dict_room d" "dictAddRaw env v0 d k = Some (r, d')"
  shows "tabs d' \<le> 2 ^ 31"
proof -
  from assms(3) obtain d1 i d2 where d1: "rehash_if_needed env d = Some d1" and d2: "dictKeyIndex env d1 k = Some (i, d2)"
    and d': "tabs d' = tabs d2"
    by (auto simp: dictAddRaw_def bind_eq_Some_conv Let_def tabs_set_ht split: if_splits)
  have "dict_room d1" using order_trans [OF tabs_rehash(1) [OF assms(1) d1]] tabs_rehash(3) [OF assms(1) d1] assms(2) by (simp add: dict_room_tabs)
  then have "tabs d2 \<le> 2 ^ 31" using tabs_dictKeyIndex [OF tabs_rehash(4) [OF assms(1) d1] _ d2] by simp
  then show ?thesis using d' by simp
qed

lemma tabs_dictAdd:
  assumes "dict_wf d" "dict_room d" "dictAdd env v0 d k v = Some (st, d')"
  shows "tabs d' \<le> 2 ^ 31"
  using assms(3) tabs_dictAddRaw [OF assms(1,2)] tabs_dictSetVal
  by (fastforce simp: dictAdd_def bind_eq_Some_conv split: option.splits)

lemma tabs_dictFind:
  assumes "dict_wf d" "dictFind env d k = Some (r, d')"
  shows "tabs d' \<le> tabs d" "dtype d' = dtype d"
  using assms tabs_rehash [OF assms(1)] by (auto simp: dictFind_def bind_eq_Some_conv split: if_splits)

lemma tabs_dictGenericDelete:
  assumes "dict_wf d" "dictGenericDelete env d k nofree = Some (st, es, d')"
  shows "tabs d' \<le> tabs d" "dtype d' = dtype d"
  using assms tabs_rehash [OF assms(1)] tabs_unlink
  by (fastforce simp: dictGenericDelete_def bind_eq_Some_conv split: if_splits option.splits)+

section \<open>The interface\<close>

text \<open>
  The invariant: well-formed, of the given type, with tables that a bucket index of the code
  can address.
\<close>

definition dict_inv :: "('k, 'v) dictType \<Rightarrow> ('k, 'v) dict \<Rightarrow> bool" where
  "dict_inv ty d \<longleftrightarrow> dict_wf d \<and> dtype d = ty \<and> tabs d \<le> 2 ^ 31"

abbreviation MAX_ENTRIES :: nat where "MAX_ENTRIES \<equiv> 2 ^ 30"

lemma dict_inv_room: "dict_inv ty d \<Longrightarrow> dictSize d \<le> MAX_ENTRIES \<Longrightarrow> dict_room d"
  by (simp add: dict_inv_def dict_room_def tabs_def)

lemma dict_inv_create: "dictType_ok ty \<Longrightarrow> dict_inv ty (dictCreate ty) \<and> dict_map (dictCreate ty) = Map.empty \<and> dictSize (dictCreate ty) = 0"
  by (auto simp: dict_inv_def dict_wf_def dictCreate_def dictInit_def dictIsRehashing_def dict_entries_def tabs_def dict_map_def dictSize_def)

locale text_keys =
  fixes ty :: "('k, 'v) dictType" and ktext :: "'k \<Rightarrow> byte list"
  assumes type_ok: "dictType_ok ty"
    and compare: "(case keyCompare ty of Some cmp \<Rightarrow> cmp a b | None \<Rightarrow> a = b) \<longleftrightarrow> ktext a = ktext b"
    and no_dup: "valDup ty = None"
begin

lemma compare_inv: "dict_inv ty d \<Longrightarrow> dictCompareKeys d a b \<longleftrightarrow> ktext a = ktext b"
  using compare [of a b] by (simp add: dict_inv_def dictCompareKeys_def)

lemma dup_inv: "dict_inv ty d \<Longrightarrow> dup_val d v = v"
  using no_dup by (simp add: dict_inv_def dup_val_def)

lemma map_text: "dict_inv ty d \<Longrightarrow> ktext a = ktext b \<Longrightarrow> dict_map d a = dict_map d b"
  by (simp add: dict_map_def compare_inv)

lemma dom_entries:
  assumes "dict_inv ty d"
  shows "ktext ` dom (dict_map d) = set (map (\<lambda>e. ktext (fst e)) (dict_entries d))"
proof -
  have "dict_map d k = None \<longleftrightarrow> \<not> (\<exists>e \<in> set (dict_entries d). ktext k = ktext (fst e))" for k
    by (auto simp add: dict_map_def compare_inv [OF assms] find_None_iff)
  then have "dom (dict_map d) = {k. \<exists>e \<in> set (dict_entries d). ktext k = ktext (fst e)}" by (auto simp: dom_def)
  then show ?thesis by (auto simp: image_iff)
qed

lemma size_dom:
  assumes "dict_inv ty d"
  shows "dictSize d = card (ktext ` dom (dict_map d))" "finite (ktext ` dom (dict_map d))"
proof -
  have "distinct (map (\<lambda>e. dictCompareKeys d (fst e)) (dict_entries d))" using assms by (simp add: dict_inv_def dict_wf_def)
  then have "distinct (map (\<lambda>t k. t = ktext k) (map (\<lambda>e. ktext (fst e)) (dict_entries d)))"
    unfolding fun_eq_iff compare_inv [OF assms] map_map comp_def by (simp add: compare_inv [OF assms])
  then have "distinct (map (\<lambda>e. ktext (fst e)) (dict_entries d))" by (metis distinct_map)
  then show "dictSize d = card (ktext ` dom (dict_map d))"
    using dictSize_entries [of d] assms dom_entries [OF assms] distinct_card by (fastforce simp: dict_inv_def)
  show "finite (ktext ` dom (dict_map d))" unfolding dom_entries [OF assms] by simp
qed

lemma create: "dict_inv ty (dictCreate ty)" "dict_map (dictCreate ty) = Map.empty" "dictSize (dictCreate ty) = 0"
  using dict_inv_create [OF type_ok] by auto

lemma find:
  assumes "dict_inv ty d"
  obtains r d' where "dictFind env d k = Some (r, d')" "dict_inv ty d'" "dict_map d' = dict_map d" "dictSize d' = dictSize d"
    "r = None \<longleftrightarrow> dict_map d k = None" "\<forall>ref. r = Some ref \<longrightarrow> holds d' ref k"
proof -
  have wf: "dict_wf d" using assms by (simp add: dict_inv_def)
  from dictFind_spec [OF wf, of env k] obtain r d' where r: "dictFind env d k = Some (r, d')" "dict_wf d'" "same_content d d'"
    "r = None \<longrightarrow> dict_map d' k = None" "\<forall>ref. r = Some ref \<longrightarrow> holds d' ref k" by blast
  note m = same_content_map [OF wf r(3)] same_entries_dictSize [OF wf r(2) same_content_entries [OF r(3)]]
  have "dict_inv ty d'" using tabs_dictFind [OF wf r(1)] r(2) assms by (simp add: dict_inv_def)
  moreover have "r = None \<longleftrightarrow> dict_map d k = None" using r(4,5) m(1) holds_entry [OF r(2)] by (cases r) fastforce+
  ultimately show thesis using that [OF r(1)] m r(5) by blast
qed

lemma entry:
  assumes "dict_inv ty d" "holds d ref k"
  obtains e where "entry_at d ref = Some e" "ktext (fst e) = ktext k" "dict_map d k = Some (snd e)"
  using holds_entry [of d ref k] assms compare_inv [OF assms(1)] by (auto simp: dict_inv_def)

lemma add:
  assumes "dict_inv ty d" "dictSize d \<le> MAX_ENTRIES"
  obtains st d' where "dictAdd env w d k v = Some (st, d')" "dict_inv ty d'" "st = DICT_OK \<longleftrightarrow> dict_map d k = None"
    "dictSize d' = dictSize d + (if st = DICT_OK then 1 else 0)"
    "\<forall>k'. dict_map d' k' = (if st = DICT_OK \<and> ktext k' = ktext k then Some v else dict_map d k')"
proof -
  have wf: "dict_wf d" using assms by (simp add: dict_inv_def)
  note room = dict_inv_room [OF assms]
  from dictAdd_spec [OF wf room, of env w k v] obtain st d' where r: "dictAdd env w d k v = Some (st, d')" "dict_wf d'" "dtype d' = dtype d"
    "st = DICT_OK \<longleftrightarrow> dict_map d k = None" "dictSize d' = dictSize d + (if st = DICT_OK then 1 else 0)"
    "\<forall>k'. dict_map d' k' = (if st = DICT_OK \<and> dictCompareKeys d k' k then Some (dup_val d v) else dict_map d k')" by (elim exE conjE) (rule that)
  have "dict_inv ty d'" using tabs_dictAdd [OF wf room r(1)] r(2,3) assms(1) by (simp add: dict_inv_def)
  then show thesis using that [OF r(1) _ r(4,5)] r(6) unfolding compare_inv [OF assms(1)] dup_inv [OF assms(1)] by blast
qed

lemma add_raw:
  assumes "dict_inv ty d" "dictSize d \<le> MAX_ENTRIES" "dict_map d k = None"
  obtains ref d' where "dictAddRaw env w d k = Some (Some ref, d')" "dict_inv ty d'" "holds d' ref k" "dictSize d' = dictSize d + 1"
    "\<forall>k'. dict_map d' k' = (if ktext k' = ktext k then Some w else dict_map d k')"
proof -
  have wf: "dict_wf d" using assms by (simp add: dict_inv_def)
  note room = dict_inv_room [OF assms(1,2)]
  from dictAddRaw_spec [OF wf room, of env w k] assms(3) obtain ref d' where r: "dictAddRaw env w d k = Some (Some ref, d')" "dict_wf d'" "dtype d' = dtype d"
    "holds d' ref k" "dictSize d' = dictSize d + 1" "\<forall>k'. dict_map d' k' = (if dictCompareKeys d k' k then Some w else dict_map d k')" by (elim exE conjE) auto
  have "dict_inv ty d'" using tabs_dictAddRaw [OF wf room r(1)] r(2,3) assms(1) by (simp add: dict_inv_def)
  then show thesis using that [OF r(1)] r(4-6) compare_inv [OF assms(1)] by simp
qed

lemma set_val:
  assumes "dict_inv ty d" "holds d ref k"
  obtains d' where "dictSetVal d ref v = Some d'" "dict_inv ty d'" "dictSize d' = dictSize d"
    "\<forall>k'. dict_map d' k' = (if ktext k' = ktext k then Some v else dict_map d k')"
proof -
  have wf: "dict_wf d" using assms by (simp add: dict_inv_def)
  from dictSetVal_spec [OF wf assms(2), of v] obtain d' where r: "dictSetVal d ref v = Some d'" "dict_wf d'" "dtype d' = dtype d" "dictSize d' = dictSize d"
    "\<forall>k'. dict_map d' k' = (if dictCompareKeys d k' k then Some (dup_val d v) else dict_map d k')" by (elim exE conjE) (rule that)
  have "dict_inv ty d'" using tabs_dictSetVal [OF r(1)] r(2) assms(1) by (simp add: dict_inv_def)
  then show thesis using that [OF r(1)] r(4,5) compare_inv [OF assms(1)] dup_inv [OF assms(1)] by simp
qed

lemma replace_raw:
  assumes "dict_inv ty d" "dictSize d \<le> MAX_ENTRIES"
  obtains ref d' where "dictReplaceRaw env w d k = Some (Some ref, d')" "dict_inv ty d'" "holds d' ref k"
    "dictSize d' = dictSize d + (if dict_map d k = None then 1 else 0)"
    "\<forall>k'. ktext k' \<noteq> ktext k \<longrightarrow> dict_map d' k' = dict_map d k'"
proof -
  obtain r d1 where 1: "dictFind env d k = Some (r, d1)" "dict_inv ty d1" "dict_map d1 = dict_map d" "dictSize d1 = dictSize d"
    "r = None \<longleftrightarrow> dict_map d k = None" "\<forall>ref. r = Some ref \<longrightarrow> holds d1 ref k" by (rule find [OF assms(1), where env = env and k = k])
  show thesis
  proof (cases r)
    case (Some ref)
    then show thesis using that [of ref d1] 1 by (simp add: dictReplaceRaw_def)
  next
    case None
    then have "dict_map d1 k = None" "dictSize d1 \<le> MAX_ENTRIES" using 1(3-5) assms(2) by simp_all
    from add_raw [OF 1(2) this(2,1)] obtain ref d' where "dictAddRaw env w d1 k = Some (Some ref, d')" "dict_inv ty d'" "holds d' ref k"
      "dictSize d' = dictSize d1 + 1" "\<forall>k'. dict_map d' k' = (if ktext k' = ktext k then Some w else dict_map d1 k')" by blast
    then show thesis using that [of ref d'] 1 None by (simp add: dictReplaceRaw_def)
  qed
qed

lemma delete:
  assumes "dict_inv ty d"
  obtains st es d' where "dictDelete env d k = Some (st, es, d')" "dict_inv ty d'" "st = DICT_OK \<longleftrightarrow> dict_map d k \<noteq> None"
    "dictSize d' + (if st = DICT_OK then 1 else 0) = dictSize d" "\<forall>k'. dict_map d' k' = (if ktext k' = ktext k then None else dict_map d k')"
proof -
  have wf: "dict_wf d" using assms by (simp add: dict_inv_def)
  from dictGenericDelete_spec [OF wf, of env k False] obtain st es d' where r: "dictGenericDelete env d k False = Some (st, es, d')" "dict_wf d'"
    "st = DICT_OK \<longleftrightarrow> dict_map d k \<noteq> None" "dictSize d' + (if st = DICT_OK then 1 else 0) = dictSize d"
    "\<forall>k'. dict_map d' k' = (if dictCompareKeys d k' k then None else dict_map d k')" by (elim exE conjE) (rule that)
  have "dict_inv ty d'" using tabs_dictGenericDelete [OF wf r(1)] r(2) assms by (simp add: dict_inv_def)
  then show thesis using that [of st es d'] r compare_inv [OF assms] by (simp add: dictDelete_def)
qed

lemma replace:
  assumes "dict_inv ty d" "dictSize d \<le> MAX_ENTRIES"
  obtains n old d' where "dictReplace env w d k v = Some (n, old, d')" "dict_inv ty d'" "old = dict_map d k"
    "dictSize d' = dictSize d + (if dict_map d k = None then 1 else 0)"
    "\<forall>k'. dict_map d' k' = (if ktext k' = ktext k then Some v else dict_map d k')"
proof -
  obtain st d1 where 1: "dictAdd env w d k v = Some (st, d1)" "dict_inv ty d1" "st = DICT_OK \<longleftrightarrow> dict_map d k = None"
    "dictSize d1 = dictSize d + (if st = DICT_OK then 1 else 0)"
    "\<forall>k'. dict_map d1 k' = (if st = DICT_OK \<and> ktext k' = ktext k then Some v else dict_map d k')" by (rule add [OF assms, where env = env and w = w and k = k and v = v])
  show thesis
  proof (cases "st = DICT_OK")
    case True
    then show thesis using that [of 1 None d1] 1 by (simp add: dictReplace_def)
  next
    case False
    then have m1: "dict_map d1 = dict_map d" using 1(5) by auto
    obtain r d2 where 2: "dictFind env d1 k = Some (r, d2)" "dict_inv ty d2" "dict_map d2 = dict_map d1" "dictSize d2 = dictSize d1"
      "r = None \<longleftrightarrow> dict_map d1 k = None" "\<forall>ref. r = Some ref \<longrightarrow> holds d2 ref k" by (rule find [OF 1(2), where env = env and k = k])
    then obtain ref where ref: "r = Some ref" "holds d2 ref k" using False 1(3) m1 by (cases r) auto
    obtain e where e: "entry_at d2 ref = Some e" "dict_map d2 k = Some (snd e)" by (rule entry [OF 2(2) ref(2)])
    obtain d3 where 3: "dictSetVal d2 ref v = Some d3" "dict_inv ty d3" "dictSize d3 = dictSize d2"
      "\<forall>k'. dict_map d3 k' = (if ktext k' = ktext k then Some v else dict_map d2 k')" by (rule set_val [OF 2(2) ref(2), where v = v])
    show thesis using that [of 0 "Some (snd e)" d3] False 1 2 3 e ref m1 by (simp add: dictReplace_def)
  qed
qed

text \<open>Tables of another size: the entries stay.\<close>

lemma expand:
  assumes "dict_inv ty d" "sz \<le> MAX_ENTRIES"
  obtains st d' where "dictExpand d sz = Some (st, d')" "dict_inv ty d'" "dict_map d' = dict_map d" "dictSize d' = dictSize d"
proof -
  have wf: "dict_wf d" "tabs d \<le> 2 ^ 31" using assms(1) by (simp_all add: dict_inv_def)
  from dictExpand_spec [OF wf(1), of sz] assms(2) obtain st d' n where e: "dictExpand d sz = Some (st, d')" "dict_wf d'" "same_entries d d'"
    "dictNextPower sz = Some (2 ^ n)" "st = DICT_ERR \<longrightarrow> d' = d"
    "st = DICT_OK \<longrightarrow> max (ht_size (ht0 d')) (ht_size (ht1 d')) \<le> max (ht_size (ht0 d)) (2 ^ n)" by auto
  have "(2::nat) ^ n \<le> 2 ^ 31" by (rule dictNextPower_room [OF e(4)]) (use assms(2) in simp)
  then have "tabs d' \<le> 2 ^ 31" using e(5,6) wf(2) by (cases st) (auto simp: tabs_def)
  then have "dict_inv ty d'" using e(2,3) assms(1) by (simp add: dict_inv_def same_entries_def)
  then show thesis using that [OF e(1)] same_entries_map [OF wf(1) e(3)] same_entries_dictSize [OF wf(1) e(2,3)] by simp
qed

lemma resize:
  assumes "dict_inv ty d" "dictSize d \<le> MAX_ENTRIES"
  obtains st d' where "dictResize env d = Some (st, d')" "dict_inv ty d'" "dict_map d' = dict_map d" "dictSize d' = dictSize d"
proof (cases "\<not> dict_can_resize env \<or> dictIsRehashing d")
  case True
  then show thesis using that [of DICT_ERR d] assms(1) by (simp add: dictResize_def)
next
  case False
  define sz where "sz = nat (if cast_int (int (ht_used (ht0 d))) < int DICT_HT_INITIAL_SIZE then int DICT_HT_INITIAL_SIZE
    else cast_int (int (ht_used (ht0 d))))"
  have "int (ht_used (ht0 d)) \<le> 2 ^ 30" using assms(2) by (simp add: dictSize_def)
  then have "cast_int (int (ht_used (ht0 d))) = int (ht_used (ht0 d))"
    unfolding cast_int_def by (intro signed_take_bit_int_eq_self) simp_all
  then have "sz \<le> MAX_ENTRIES" using \<open>int (ht_used (ht0 d)) \<le> 2 ^ 30\<close> by (simp add: sz_def)
  then obtain st d' where "dictExpand d sz = Some (st, d')" "dict_inv ty d'" "dict_map d' = dict_map d" "dictSize d' = dictSize d"
    by (rule expand [OF assms(1)])
  then show thesis using that False by (simp add: dictResize_def sz_def Let_def)
qed

end

interpretation db_keys: text_keys "dbDictType seed" "\<lambda>k. k" for seed
  by unfold_locales (auto simp: dictType_ok_def dbDictType_def sds_key.key_type_axioms [unfolded sds_compare_eq] sds_compare_eq)

interpretation expire_keys: text_keys "keyptrDictType seed" "\<lambda>k. k" for seed
  by unfold_locales (auto simp: dictType_ok_def keyptrDictType_def sds_key.key_type_axioms [unfolded sds_compare_eq] sds_compare_eq)

interpretation zset_keys: text_keys "zsetDictType seed" getDecodedObject for seed
  by unfold_locales (auto simp: dictType_ok_def zsetDictType_def enc_key.key_type_axioms enc_compare_iff)

interpretation hash_keys: text_keys "hashDictType seed" getDecodedObject for seed
  by unfold_locales (auto simp: dictType_ok_def hashDictType_def enc_key.key_type_axioms enc_compare_iff)

interpretation set_keys: text_keys "setDictType seed" getDecodedObject for seed
  by unfold_locales (auto simp: dictType_ok_def setDictType_def enc_key.key_type_axioms enc_compare_iff)

end
