(* ===== verification/Dict_Iter.thy ===== *)
theory Dict_Iter
  imports Dict_Ops
begin

text \<open>
  Iterators and random sampling of \<^verbatim>\<open>dict.c\<close>. A pointer into a chain is the list of the entries
  from there on, \<open>NULL\<close> the empty list, so that a saved \<open>nextEntry\<close> stays valid when the entry before
  it is deleted. The addresses of the tables, which the fingerprint of an unsafe iterator
  mixes in, are arguments; so is the sequence of the values that \<open>random\<close> returns.
\<close>

section \<open>Iterators\<close>

record ('k, 'v) dictIterator =
  it_index :: int
  it_table :: nat
  it_safe :: bool
  it_entry :: "('k, 'v) dictEntry list"
  it_nextEntry :: "('k, 'v) dictEntry list"
  it_fingerprint :: u64

text \<open>Tomas Wang's integer hash; the right shifts are arithmetic.\<close>

definition wang_hash :: "u64 \<Rightarrow> u64" where
  "wang_hash hash =
     (let hash = NOT hash + push_bit 21 hash;
          hash = hash XOR signed_drop_bit 24 hash;
          hash = (hash + push_bit 3 hash) + push_bit 8 hash;
          hash = hash XOR signed_drop_bit 14 hash;
          hash = (hash + push_bit 2 hash) + push_bit 4 hash;
          hash = hash XOR signed_drop_bit 28 hash
      in hash + push_bit 31 hash)"

definition dictFingerprint :: "u64 \<Rightarrow> u64 \<Rightarrow> ('k, 'v) dict \<Rightarrow> u64" where
  "dictFingerprint addr0 addr1 d =
     foldl (\<lambda>hash x. wang_hash (hash + x)) 0
       [addr0, of_nat (ht_size (ht0 d)), of_nat (ht_used (ht0 d)),
        addr1, of_nat (ht_size (ht1 d)), of_nat (ht_used (ht1 d))]"

definition dictGetIterator :: "('k, 'v) dict \<Rightarrow> ('k, 'v) dictIterator" where
  "dictGetIterator d = \<lparr>it_index = -1, it_table = 0, it_safe = False, it_entry = [], it_nextEntry = [], it_fingerprint = 0\<rparr>"

definition dictGetSafeIterator :: "('k, 'v) dict \<Rightarrow> ('k, 'v) dictIterator" where
  "dictGetSafeIterator d = (dictGetIterator d)\<lparr>it_safe := True\<rparr>"

definition iter_start :: "u64 \<Rightarrow> u64 \<Rightarrow> ('k, 'v) dict \<Rightarrow> ('k, 'v) dictIterator \<Rightarrow> ('k, 'v) dictIterator \<times> ('k, 'v) dict" where
  "iter_start addr0 addr1 d iter =
     (if it_index iter = -1 \<and> it_table iter = 0 then
        if it_safe iter then (iter, d\<lparr>iterators := iterators d + 1\<rparr>)
        else (iter\<lparr>it_fingerprint := dictFingerprint addr0 addr1 d\<rparr>, d)
      else (iter, d))"

partial_function (option) dictNext :: "u64 \<Rightarrow> u64 \<Rightarrow> ('k, 'v) dict \<Rightarrow> ('k, 'v) dictIterator \<Rightarrow>
    (('k, 'v) dictEntry option \<times> ('k, 'v) dictIterator \<times> ('k, 'v) dict) option" where
  "dictNext addr0 addr1 d iter =
     Option.bind
       (if it_entry iter = [] then
          let (iter, d) = iter_start addr0 addr1 d iter;
              iter = iter\<lparr>it_index := it_index iter + 1\<rparr>
          in if it_index iter \<ge> int (ht_size (ht_of d (it_table iter))) then
               if dictIsRehashing d \<and> it_table iter = 0 then
                 map_option (\<lambda>de. (False, iter\<lparr>it_table := 1, it_index := 0, it_entry := de\<rparr>, d))
                   (get_at (ht_table (ht1 d)) 0)
               else Some (True, iter, d)
             else map_option (\<lambda>de. (False, iter\<lparr>it_entry := de\<rparr>, d))
                    (get_at (ht_table (ht_of d (it_table iter))) (nat (it_index iter)))
        else Some (False, iter\<lparr>it_entry := it_nextEntry iter\<rparr>, d))
       (\<lambda>(fin, iter, d).
          if fin then Some (None, iter, d)
          else case it_entry iter of
                 de # nextde \<Rightarrow> Some (Some de, iter\<lparr>it_nextEntry := nextde\<rparr>, d)
               | [] \<Rightarrow> dictNext addr0 addr1 d iter)"

declare dictNext.simps [code]

definition dictReleaseIterator :: "u64 \<Rightarrow> u64 \<Rightarrow> ('k, 'v) dict \<Rightarrow> ('k, 'v) dictIterator \<Rightarrow> ('k, 'v) dict option" where
  "dictReleaseIterator addr0 addr1 d iter =
     (if \<not> (it_index iter = -1 \<and> it_table iter = 0) then
        if it_safe iter then Some (d\<lparr>iterators := iterators d - 1\<rparr>)
        else if it_fingerprint iter = dictFingerprint addr0 addr1 d then Some d else None
      else Some d)"

section \<open>Iterating to the end\<close>

fun iter_all :: "nat \<Rightarrow> u64 \<Rightarrow> u64 \<Rightarrow> ('k, 'v) dict \<Rightarrow> ('k, 'v) dictIterator \<Rightarrow>
    (('k, 'v) dictEntry list \<times> ('k, 'v) dictIterator \<times> ('k, 'v) dict) option" where
  "iter_all 0 a0 a1 d iter = None"
| "iter_all (Suc n) a0 a1 d iter = do {
     (e, iter, d) \<leftarrow> dictNext a0 a1 d iter;
     (case e of
        None \<Rightarrow> Some ([], iter, d)
      | Some de \<Rightarrow> do { (es, iter, d) \<leftarrow> iter_all n a0 a1 d iter; Some (de # es, iter, d) }) }"

text \<open>The tables of a dictionary as an iterator needs them.\<close>

definition tables_ok :: "('k, 'v) dict \<Rightarrow> bool" where
  "tables_ok d \<longleftrightarrow> length (ht_table (ht0 d)) = ht_size (ht0 d) \<and> length (ht_table (ht1 d)) = ht_size (ht1 d)
     \<and> (if dictIsRehashing d then ht_table (ht1 d) \<noteq> [] else ht_table (ht1 d) = [])"

lemma dict_wf_tables: "dict_wf d \<Longrightarrow> tables_ok d"
  using dict_wfD [of d] ht_live_size [of "dictHashKey d"] ht_live_nonempty [of "dictHashKey d" "ht1 d"]
  by (cases "dictIsRehashing d") (auto simp: tables_ok_def)

text \<open>The entries an iterator has still to return.\<close>

definition iter_rest :: "('k, 'v) dict \<Rightarrow> ('k, 'v) dictIterator \<Rightarrow> ('k, 'v) dictEntry list" where
  "iter_rest d iter = (if it_entry iter = [] then [] else it_nextEntry iter)
     @ concat (drop (nat (it_index iter + 1)) (ht_table (ht_of d (it_table iter))))
     @ (if it_table iter = 0 then ht_entries (ht1 d) else [])"

definition iter_ok :: "('k, 'v) dict \<Rightarrow> ('k, 'v) dictIterator \<Rightarrow> bool" where
  "iter_ok d iter \<longleftrightarrow> - 1 \<le> it_index iter \<and> it_table iter \<le> 1 \<and> (it_table iter = 1 \<longrightarrow> dictIsRehashing d \<and> 0 \<le> it_index iter)
     \<and> (it_index iter = - 1 \<longrightarrow> it_entry iter = [])"

definition buckets_left :: "('k, 'v) dict \<Rightarrow> ('k, 'v) dictIterator \<Rightarrow> nat" where
  "buckets_left d iter = length (ht_table (ht_of d (it_table iter))) - nat (it_index iter + 1)
     + (if it_table iter = 0 then Suc (length (ht_table (ht1 d))) else 0)"

text \<open>One round of the loop of \<open>dictNext\<close> from a pointer that is null, and what follows it.\<close>

definition advance :: "('k, 'v) dict \<Rightarrow> ('k, 'v) dictIterator \<Rightarrow> (bool \<times> ('k, 'v) dictIterator \<times> ('k, 'v) dict) option" where
  "advance d iter =
     (let iter = iter\<lparr>it_index := it_index iter + 1\<rparr>
      in if it_index iter \<ge> int (ht_size (ht_of d (it_table iter))) then
           if dictIsRehashing d \<and> it_table iter = 0 then
             map_option (\<lambda>de. (False, iter\<lparr>it_table := 1, it_index := 0, it_entry := de\<rparr>, d))
               (get_at (ht_table (ht1 d)) 0)
           else Some (True, iter, d)
         else map_option (\<lambda>de. (False, iter\<lparr>it_entry := de\<rparr>, d))
                (get_at (ht_table (ht_of d (it_table iter))) (nat (it_index iter))))"

definition deliver where
  "deliver a0 a1 = (\<lambda>(fin, iter, d).
     if fin then Some (None, iter, d)
     else case it_entry iter of
            de # nextde \<Rightarrow> Some (Some de, iter\<lparr>it_nextEntry := nextde\<rparr>, d)
          | [] \<Rightarrow> dictNext a0 a1 d iter)"

lemma dictNext_advance:
  "it_entry iter = [] \<Longrightarrow> dictNext a0 a1 d iter =
     (case iter_start a0 a1 d iter of (iter, d) \<Rightarrow> Option.bind (advance d iter) (deliver a0 a1))"
  by (subst dictNext.simps) (simp add: advance_def deliver_def split: prod.split)

lemma iter_start_started: "0 \<le> it_index iter \<Longrightarrow> iter_start a0 a1 d iter = (iter, d)"
  by (simp add: iter_start_def)

lemma concat_drop_nth: "i < length xs \<Longrightarrow> concat (drop i xs) = xs ! i @ concat (drop (Suc i) xs)"
  by (simp add: Cons_nth_drop_Suc [symmetric])

text \<open>What the round reaches: the end, or a bucket with the entries that were left.\<close>

lemma advance_spec:
  assumes ok: "tables_ok d" "iter_ok d iter" "it_entry iter = []"
  obtains (fin) it' where "advance d iter = Some (True, it', d)" "iter_rest d iter = []" "0 \<le> it_index it'"
      "it_safe it' = it_safe iter" "it_fingerprint it' = it_fingerprint iter"
  | (bucket) it' where "advance d iter = Some (False, it', d)" "iter_rest d iter = it_entry it' @ iter_rest d (it'\<lparr>it_entry := []\<rparr>)"
      "0 \<le> it_index it'" "it_safe it' = it_safe iter" "it_fingerprint it' = it_fingerprint iter"
      "\<And>e n. iter_ok d (it'\<lparr>it_entry := e, it_nextEntry := n\<rparr>)" "buckets_left d it' < buckets_left d iter"
proof -
  define t where "t = it_table iter"
  define T where "T = ht_table (ht_of d t)"
  define i where "i = nat (it_index iter + 1)"
  have t: "t = 0 \<or> t = 1" using ok(2) by (auto simp: iter_ok_def t_def)
  have T: "length T = ht_size (ht_of d t)" using ok(1) t by (auto simp: T_def tables_ok_def ht_of_def)
  have idx: "it_index iter + 1 = int i" using ok(2) by (simp add: i_def iter_ok_def)
  have rest: "iter_rest d iter = concat (drop i T) @ (if t = 0 then ht_entries (ht1 d) else [])"
    by (simp add: iter_rest_def ok(3) T_def t_def i_def)
  show thesis
  proof (cases "i < length T")
    case True
    define it' where "it' = iter\<lparr>it_index := int i, it_entry := T ! i\<rparr>"
    have "advance d iter = Some (False, it', d)"
      using True idx T by (simp add: advance_def t_def [symmetric] T_def [symmetric] it'_def)
    moreover have "iter_rest d iter = it_entry it' @ iter_rest d (it'\<lparr>it_entry := []\<rparr>)"
      unfolding rest by (simp add: concat_drop_nth [OF True] iter_rest_def it'_def t_def [symmetric] T_def [symmetric] nat_add_distrib)
    moreover have "buckets_left d it' < buckets_left d iter"
      using True by (simp add: buckets_left_def it'_def t_def [symmetric] T_def [symmetric] i_def [symmetric] nat_add_distrib)
    moreover have "iter_ok d (it'\<lparr>it_entry := e, it_nextEntry := n\<rparr>)" for e n
      using ok(2) by (auto simp: iter_ok_def it'_def)
    ultimately show thesis using bucket by (simp add: it'_def)
  next
    case end_T: False
    show thesis
    proof (cases "dictIsRehashing d \<and> t = 0")
      case True
      then obtain b bs where bs: "ht_table (ht1 d) = b # bs" using ok(1) by (auto simp: tables_ok_def neq_Nil_conv)
      define it' where "it' = iter\<lparr>it_table := 1, it_index := 0, it_entry := b\<rparr>"
      have "advance d iter = Some (False, it', d)"
        using True end_T idx T bs by (simp add: advance_def t_def [symmetric] T_def [symmetric] it'_def)
      moreover have "iter_rest d iter = it_entry it' @ iter_rest d (it'\<lparr>it_entry := []\<rparr>)"
        unfolding rest using end_T True bs by (simp add: iter_rest_def it'_def ht_of_def ht_entries_def)
      moreover have "buckets_left d it' < buckets_left d iter"
        using True bs by (simp add: buckets_left_def it'_def t_def [symmetric] ht_of_def)
      moreover have "iter_ok d (it'\<lparr>it_entry := e, it_nextEntry := n\<rparr>)" for e n
        using True by (auto simp: iter_ok_def it'_def)
      ultimately show thesis using bucket by (simp add: it'_def)
    next
      case False
      then have "(if t = 0 then ht_entries (ht1 d) else []) = []" using ok(1) by (auto simp: tables_ok_def ht_entries_def)
      then have "iter_rest d iter = []" unfolding rest using end_T by simp
      moreover have "advance d iter = Some (True, iter\<lparr>it_index := int i\<rparr>, d)"
        using False end_T idx T by (auto simp: advance_def t_def [symmetric] T_def [symmetric])
      ultimately show thesis using fin by simp
    qed
  qed
qed

lemma deliver_spec:
  assumes "tables_ok d" "iter_ok d iter" "it_entry iter = []"
  shows "\<exists>e it'. Option.bind (advance d iter) (deliver a0 a1) = Some (e, it', d) \<and> 0 \<le> it_index it'
    \<and> it_safe it' = it_safe iter \<and> it_fingerprint it' = it_fingerprint iter
    \<and> (case iter_rest d iter of [] \<Rightarrow> e = None | x # xs \<Rightarrow> e = Some x \<and> iter_rest d it' = xs \<and> iter_ok d it')"
  using assms
proof (induction "buckets_left d iter" arbitrary: iter rule: less_induct)
  case less
  show ?case
  proof (cases rule: advance_spec [OF less.prems, case_names fin bucket])
    case (fin it')
    then show ?thesis by (simp add: deliver_def)
  next
    case (bucket it')
    show ?thesis
    proof (cases "it_entry it'")
      case (Cons de nextde)
      then have "iter_rest d (it'\<lparr>it_nextEntry := nextde\<rparr>) = nextde @ iter_rest d (it'\<lparr>it_entry := []\<rparr>)"
        by (simp add: iter_rest_def)
      moreover have "iter_ok d (it'\<lparr>it_nextEntry := nextde\<rparr>)" using bucket(6) [of nextde "it_entry it'"] by simp
      ultimately show ?thesis using bucket Cons by (simp add: deliver_def)
    next
      case Nil
      have "dictNext a0 a1 d it' = Option.bind (advance d it') (deliver a0 a1)"
        using Nil bucket(3) by (simp add: dictNext_advance iter_start_started)
      moreover have eq: "it'\<lparr>it_entry := []\<rparr> = it'" using Nil by (cases it') simp
      moreover have "iter_ok d it'" using bucket(6) [of "it_nextEntry it'" "[]"] eq by simp
      moreover have "iter_rest d iter = iter_rest d it'" using bucket(2) unfolding eq Nil by simp
      moreover have "deliver a0 a1 (False, it', d) = dictNext a0 a1 d it'" using Nil by (simp add: deliver_def)
      ultimately show ?thesis using less.hyps [OF bucket(7) less.prems(1) _ Nil] bucket(1,4,5) by simp
    qed
  qed
qed

lemma next_spec:
  assumes "tables_ok d" "iter_ok d iter"
  shows "\<exists>e it' d'. dictNext a0 a1 d iter = Some (e, it', d') \<and> 0 \<le> it_index it' \<and> it_safe it' = it_safe iter
    \<and> d' = snd (iter_start a0 a1 d iter) \<and> it_fingerprint it' = it_fingerprint (fst (iter_start a0 a1 d iter))
    \<and> (case iter_rest d iter of [] \<Rightarrow> e = None | x # xs \<Rightarrow> e = Some x \<and> iter_rest d' it' = xs \<and> iter_ok d' it')"
proof (cases "it_entry iter")
  case Nil
  obtain it1 d1 where st: "iter_start a0 a1 d iter = (it1, d1)" by (cases "iter_start a0 a1 d iter")
  then have i1: "tables_ok d1" "iter_ok d1 it1" "it_entry it1 = []" "iter_rest d1 it1 = iter_rest d iter" "it_safe it1 = it_safe iter"
    using assms Nil by (auto simp: iter_start_def tables_ok_def iter_ok_def iter_rest_def dictIsRehashing_def ht_of_def split: if_splits)
  show ?thesis using deliver_spec [OF i1(1-3), of a0 a1] i1(4,5) Nil st by (auto simp: dictNext_advance)
next
  case (Cons x xs)
  then have i0: "0 \<le> it_index iter" using assms(2) by (auto simp: iter_ok_def)
  show ?thesis
  proof (cases "it_nextEntry iter")
    case (Cons de nextde)
    then show ?thesis using \<open>it_entry iter = x # xs\<close> i0 assms(2)
      by (subst dictNext.simps) (auto simp: iter_start_started iter_rest_def iter_ok_def)
  next
    case Nil
    define it1 where "it1 = iter\<lparr>it_entry := []\<rparr>"
    have "dictNext a0 a1 d iter = dictNext a0 a1 d it1"
      using \<open>it_entry iter = x # xs\<close> Nil by (subst dictNext.simps) (simp add: it1_def)
    also have "\<dots> = Option.bind (advance d it1) (deliver a0 a1)"
      using i0 by (simp add: dictNext_advance it1_def iter_start_started)
    finally have n: "dictNext a0 a1 d iter = Option.bind (advance d it1) (deliver a0 a1)" .
    have "iter_ok d it1" "it_entry it1 = []" "iter_rest d it1 = iter_rest d iter" "it_safe it1 = it_safe iter"
      "it_fingerprint it1 = it_fingerprint iter"
      using assms(2) Nil by (auto simp: iter_ok_def it1_def iter_rest_def)
    then show ?thesis using deliver_spec [OF assms(1), of it1 a0 a1] n i0 by (auto simp: iter_start_started)
  qed
qed

lemma iter_all_started:
  assumes "tables_ok d" "iter_ok d iter" "0 \<le> it_index iter" "length (iter_rest d iter) < n"
  shows "\<exists>it'. iter_all n a0 a1 d iter = Some (iter_rest d iter, it', d) \<and> 0 \<le> it_index it'
    \<and> it_safe it' = it_safe iter \<and> it_fingerprint it' = it_fingerprint iter"
  using assms(2-)
proof (induction n arbitrary: iter)
  case (Suc n)
  from next_spec [OF assms(1) Suc.prems(1), of a0 a1] obtain e it1 where s: "dictNext a0 a1 d iter = Some (e, it1, d)"
    "0 \<le> it_index it1" "it_safe it1 = it_safe iter" "it_fingerprint it1 = it_fingerprint iter"
    "case iter_rest d iter of [] \<Rightarrow> e = None | x # xs \<Rightarrow> e = Some x \<and> iter_rest d it1 = xs \<and> iter_ok d it1"
    using Suc.prems(2) by (auto simp: iter_start_started)
  show ?case
  proof (cases "iter_rest d iter")
    case (Cons x xs)
    then show ?thesis using s Suc.IH [of it1] Suc.prems(3) by auto
  qed (use s in simp)
qed simp

lemma iter_rest_fresh: "it_index iter = -1 \<Longrightarrow> it_table iter = 0 \<Longrightarrow> it_entry iter = [] \<Longrightarrow> iter_rest d iter = dict_entries d"
  by (simp add: iter_rest_def dict_entries_def ht_entries_def ht_of_def)

lemma iter_all_fresh:
  assumes "tables_ok d" "it \<in> {dictGetIterator d, dictGetSafeIterator d}" "length (dict_entries d) < n"
  shows "\<exists>it' d'. iter_all n a0 a1 d it = Some (dict_entries d, it', d') \<and> 0 \<le> it_index it' \<and> it_safe it' = it_safe it
    \<and> d' = d\<lparr>iterators := iterators d + (if it_safe it then 1 else 0)\<rparr>
    \<and> (\<not> it_safe it \<longrightarrow> it_fingerprint it' = dictFingerprint a0 a1 d)"
proof -
  have fresh: "it_index it = -1" "it_table it = 0" "it_entry it = []"
    using assms(2) by (auto simp: dictGetSafeIterator_def dictGetIterator_def)
  then have ok: "iter_ok d it" by (simp add: iter_ok_def)
  obtain m where n: "n = Suc m" using assms(3) by (cases n) auto
  from next_spec [OF assms(1) ok, of a0 a1] obtain e it1 d1 where s: "dictNext a0 a1 d it = Some (e, it1, d1)"
    "0 \<le> it_index it1" "it_safe it1 = it_safe it" "d1 = snd (iter_start a0 a1 d it)"
    "it_fingerprint it1 = it_fingerprint (fst (iter_start a0 a1 d it))"
    "case dict_entries d of [] \<Rightarrow> e = None | x # xs \<Rightarrow> e = Some x \<and> iter_rest d1 it1 = xs \<and> iter_ok d1 it1"
    using iter_rest_fresh [OF fresh] by auto
  have d1: "d1 = d\<lparr>iterators := iterators d + (if it_safe it then 1 else 0)\<rparr>" 
    using s(4) fresh by (cases d) (simp add: iter_start_def)
  have fp: "\<not> it_safe it \<longrightarrow> it_fingerprint it1 = dictFingerprint a0 a1 d" using s(5) fresh by (simp add: iter_start_def)
  have t1: "tables_ok d1" using assms(1) by (simp add: d1 tables_ok_def dictIsRehashing_def)
  show ?thesis
  proof (cases "dict_entries d")
    case Nil
    then show ?thesis using s(1,2,3,6) d1 fp by (simp add: n)
  next
    case (Cons x xs)
    then have r: "e = Some x" "iter_rest d1 it1 = xs" "iter_ok d1 it1" using s(6) by simp_all
    from iter_all_started [OF t1 r(3) s(2), of m a0 a1] obtain it2 where
      "iter_all m a0 a1 d1 it1 = Some (xs, it2, d1)" "0 \<le> it_index it2" "it_safe it2 = it_safe it1" "it_fingerprint it2 = it_fingerprint it1"
      using assms(3) by (auto simp: Cons n r(2))
    then show ?thesis using s(1,3) d1 fp r(1) by (simp add: n Cons)
  qed
qed

text \<open>
  An iterator over a well-formed dictionary, safe or not, in the middle of a rehash or not,
  never reads outside a table, returns every entry once, in the order of the tables, and then
  ends; a safe iterator holds rehashing back while it runs, an unsafe one passes the check of
  its fingerprint, and releasing either gives the dictionary back as it was.
\<close>

theorem dictIterator_complete:
  assumes "dict_wf d" "it \<in> {dictGetIterator d, dictGetSafeIterator d}" "dictSize d < n"
  shows "\<exists>it' d'. iter_all n a0 a1 d it = Some (dict_entries d, it', d')
    \<and> (it_safe it \<longrightarrow> iterators d' = iterators d + 1) \<and> dictReleaseIterator a0 a1 d' it' = Some d"
proof -
  have "length (dict_entries d) < n" using assms(1,3) dictSize_entries [of d] by simp
  from iter_all_fresh [OF dict_wf_tables [OF assms(1)] assms(2) this, of a0 a1] obtain it' d' where
    r: "iter_all n a0 a1 d it = Some (dict_entries d, it', d')" "0 \<le> it_index it'" "it_safe it' = it_safe it"
    "d' = d\<lparr>iterators := iterators d + (if it_safe it then 1 else 0)\<rparr>"
    "\<not> it_safe it \<longrightarrow> it_fingerprint it' = dictFingerprint a0 a1 d" by blast
  then have "dictReleaseIterator a0 a1 d' it' = Some d" by (cases "it_safe it") (simp_all add: dictReleaseIterator_def)
  then show ?thesis using r(1,4) by simp
qed

theorem dictIterator_complete_witness:
  "\<exists>it' d'. iter_all 7 0 0 ex_dict (dictGetSafeIterator ex_dict) = Some (dict_entries ex_dict, it', d')
    \<and> iterators d' = iterators ex_dict + 1 \<and> dictReleaseIterator 0 0 d' it' = Some ex_dict"
  using dictIterator_complete [OF ex_dict_wf, of "dictGetSafeIterator ex_dict" 7 0 0]
  by (simp add: dictSize_def ex_dict_def dictGetSafeIterator_def)

section \<open>Random sampling\<close>

text \<open>
  The values of \<open>random\<close> are \<open>rnd 0\<close>, \<open>rnd 1\<close>, \<dots>; the loops pass on the number of those used.
\<close>

partial_function (option) pick_rehashing :: "(nat \<Rightarrow> nat) \<Rightarrow> nat \<Rightarrow> ('k, 'v) dict \<Rightarrow> (nat \<times> ('k, 'v) dictEntry list) option" where
  "pick_rehashing rnd p d =
     (let idx = nat (rehashidx d); s0 = ht_size (ht0 d); m = s0 + ht_size (ht1 d) - idx; h = (idx + rnd p mod m) mod 2 ^ 32 in
      if m = 0 then None
      else Option.bind (if h \<ge> s0 then get_at (ht_table (ht1 d)) (h - s0) else get_at (ht_table (ht0 d)) h)
             (\<lambda>he. if he = [] then pick_rehashing rnd (p + 1) d else Some (p + 1, he)))"

partial_function (option) pick_bucket :: "(nat \<Rightarrow> nat) \<Rightarrow> nat \<Rightarrow> ('k, 'v) dict \<Rightarrow> (nat \<times> ('k, 'v) dictEntry list) option" where
  "pick_bucket rnd p d =
     (let h = (rnd p AND ht_sizemask (ht0 d)) mod 2 ^ 32 in
      Option.bind (get_at (ht_table (ht0 d)) h)
        (\<lambda>he. if he = [] then pick_bucket rnd (p + 1) d else Some (p + 1, he)))"

declare pick_rehashing.simps [code] pick_bucket.simps [code]

definition dictGetRandomKey :: "dict_env \<Rightarrow> (nat \<Rightarrow> nat) \<Rightarrow> ('k, 'v) dict \<Rightarrow> (('k, 'v) dictEntry option \<times> ('k, 'v) dict) option" where
  "dictGetRandomKey env rnd d =
     (if dictSize d = 0 then Some (None, d)
      else do {
        d \<leftarrow> rehash_if_needed env d;
        (p, he) \<leftarrow> (if dictIsRehashing d then pick_rehashing rnd 0 d else pick_bucket rnd 0 d);
        let listlen = length he;
        let listele = rnd p mod listlen;
        e \<leftarrow> get_at he listele;
        Some (Some e, d) })"

text \<open>Every value of 31 bits comes back.\<close>

definition rnd_fair :: "(nat \<Rightarrow> nat) \<Rightarrow> bool" where
  "rnd_fair rnd \<longleftrightarrow> (\<forall>v < 2 ^ 31. \<forall>p. \<exists>q \<ge> p. rnd q = v)"

definition idx_ok :: "('k, 'v) dict \<Rightarrow> bool" where
  "idx_ok d \<longleftrightarrow> (dictIsRehashing d \<longrightarrow> rehashidx d \<le> int (ht_size (ht0 d)))"

lemma rehash_idx_ok:
  assumes "dict_wf d" "idx_ok d" "rehash_if_needed env d = Some d'"
  shows "idx_ok d'"
proof -
  from dictRehash_spec [OF assms(1), of 1 env] obtain r d1 where
    r: "dictRehash env d 1 = Some (r, d1)" "\<not> g_IsForkedProcess env \<longrightarrow> dictIsRehashing d \<longrightarrow> rehash_post 1 d r d1" by auto
  have "idx_ok d1"
  proof (cases "g_IsForkedProcess env \<or> \<not> dictIsRehashing d")
    case True
    then have "d1 = d" using r(1) unfolding dictRehash_def by (auto split: if_splits)
    then show ?thesis using assms(2) by simp
  next
    case False
    then show ?thesis using r(2) by (auto simp: rehash_post_def idx_ok_def)
  qed
  then show ?thesis using assms(2,3) r(1) by (auto simp: rehash_if_needed_def dictRehashStep_def split: if_splits)
qed

text \<open>A loop that draws until its test succeeds ends when a draw that passes comes up.\<close>

lemma draw_ends:
  assumes step: "\<And>p. f p = (case g (rnd p :: nat) of [] \<Rightarrow> f (p + 1) | x # xs \<Rightarrow> Some (p + 1, x # xs))"
    and hit: "rnd q = v" "g v \<noteq> []" "(p :: nat) \<le> q"
  shows "\<exists>p' u. f p = Some (p', g u) \<and> g u \<noteq> []"
  using hit(3)
proof (induction "q - p" arbitrary: p rule: less_induct)
  case less
  show ?case
  proof (cases "g (rnd p)")
    case Nil
    then have "p < q" using hit less.prems by (cases "p = q") auto
    then show ?thesis using less.hyps [of "p + 1"] step [of p] Nil by simp
  qed (use step [of p] in \<open>metis list.simps(5) neq_Nil_conv\<close>)
qed

lemma used_bucket:
  assumes "e \<in> set (ht_entries h)"
  obtains b where "b < length (ht_table h)" "ht_table h ! b \<noteq> []"
  using assms by (fastforce simp: ht_entries_def in_set_conv_nth)

lemma entries_bucket: "b < length (ht_table h) \<Longrightarrow> set (ht_table h ! b) \<subseteq> set (ht_entries h)"
  unfolding ht_entries_def using nth_mem [of b "ht_table h"] by fastforce

lemma pick_bucket_spec:
  assumes d: "dict_wf d" "\<not> dictIsRehashing d" "dict_entries d \<noteq> []" "ht_size (ht0 d) \<le> 2 ^ 31" and fair: "rnd_fair rnd"
  shows "\<exists>p' he. pick_bucket rnd p d = Some (p', he) \<and> he \<noteq> [] \<and> set he \<subseteq> set (dict_entries d)"
proof -
  have h1: "ht1 d = dictReset" using dict_wfD(8) [OF d(1,2)] .
  then have "ht_entries (ht0 d) \<noteq> []" using d(3) by (simp add: dict_entries_def)
  then have live: "ht_live (dictHashKey d) (ht0 d)" using dict_wfD(2) [OF d(1)] by auto
  obtain b where b: "b < length (ht_table (ht0 d))" "ht_table (ht0 d) ! b \<noteq> []"
    using used_bucket \<open>ht_entries (ht0 d) \<noteq> []\<close> by (metis list.set_sel(1))
  obtain k where k: "ht_size (ht0 d) = 2 ^ k" "ht_sizemask (ht0 d) = 2 ^ k - 1" "length (ht_table (ht0 d)) = 2 ^ k"
    using live by (auto simp: ht_live_def)
  define g where "g u = ht_table (ht0 d) ! (u AND ht_sizemask (ht0 d))" for u
  have in_range: "(u AND ht_sizemask (ht0 d)) mod 2 ^ 32 = u AND ht_sizemask (ht0 d)" "u AND ht_sizemask (ht0 d) < length (ht_table (ht0 d))" for u
    using ht_live_idx [OF live, of u] d(4) k by simp_all
  have b2: "b AND ht_sizemask (ht0 d) = b" using b(1) k by (simp only: and_mask_nat) simp
  have gb: "g b \<noteq> []" unfolding g_def b2 by (rule b(2))
  have "b < 2 ^ 31" using b(1) k d(4) by simp
  then obtain q where q: "p \<le> q" "rnd q = b" using fair by (auto simp: rnd_fair_def)
  have "\<exists>p' u. pick_bucket rnd p d = Some (p', g u) \<and> g u \<noteq> []"
    by (rule draw_ends [where g = g and rnd = rnd, OF _ q(2) gb q(1)])
      (subst pick_bucket.simps, simp only: in_range(1) Let_def get_at_Some [OF in_range(2)] g_def, simp split: list.split)
  then show ?thesis using entries_bucket [OF in_range(2)] by (fastforce simp: g_def dict_entries_def)
qed

lemma pick_rehashing_spec:
  assumes d: "dict_wf d" "dictIsRehashing d" "idx_ok d" "dict_entries d \<noteq> []" and sz: "ht_size (ht0 d) \<le> 2 ^ 30" "ht_size (ht1 d) \<le> 2 ^ 30"
    and fair: "rnd_fair rnd"
  shows "\<exists>p' he. pick_rehashing rnd p d = Some (p', he) \<and> he \<noteq> [] \<and> set he \<subseteq> set (dict_entries d)"
proof -
  define s0 s1 idx where "s0 = ht_size (ht0 d)" and "s1 = ht_size (ht1 d)" and "idx = nat (rehashidx d)"
  define m where "m = s0 + s1 - idx"
  have len: "length (ht_table (ht0 d)) = s0" "length (ht_table (ht1 d)) = s1"
    using ht_live_size [OF dict_wfD(5) [OF d(1,2)]] ht_live_size [OF dict_wfD(6) [OF d(1,2)]] by (simp_all add: s0_def s1_def)
  have s1: "0 < s1" using ht_live_nonempty [OF dict_wfD(6) [OF d(1,2)]] by (simp add: s1_def)
  have idx: "idx \<le> s0" using d(2,3) dict_wfD(4) [OF d(1,2)] by (simp add: idx_ok_def idx_def s0_def)
  have m: "0 < m" "idx + m = s0 + s1" "s0 + s1 \<le> 2 ^ 31" using idx s1 sz by (simp_all add: m_def s0_def s1_def)
  define g where "g u = (let h = idx + u mod m in if s0 \<le> h then ht_table (ht1 d) ! (h - s0) else ht_table (ht0 d) ! h)" for u
  have h: "idx + u mod m < s0 + s1" "(idx + u mod m) mod 2 ^ 32 = idx + u mod m" for u
  proof -
    show "idx + u mod m < s0 + s1" using m mod_less_divisor [OF m(1), of u] by linarith
    then show "(idx + u mod m) mod 2 ^ 32 = idx + u mod m" using m(3) by simp
  qed
  have gsub: "set (g u) \<subseteq> set (dict_entries d)" for u
    using h(1) [of u] len entries_bucket [of "idx + u mod m" "ht0 d"] entries_bucket [of "idx + u mod m - s0" "ht1 d"]
    by (cases "s0 \<le> idx + u mod m") (simp_all add: g_def Let_def dict_entries_def le_supI1 le_supI2)
  obtain v where v: "v < m" "g v \<noteq> []"
  proof (cases "ht_entries (ht0 d) = []")
    case True
    then obtain b where b: "b < s1" "ht_table (ht1 d) ! b \<noteq> []"
      using used_bucket [of _ "ht1 d"] d(4) len by (metis append_Nil dict_entries_def list.set_sel(1))
    show thesis by (rule that [of "s0 + b - idx"]) (use b idx in \<open>auto simp: g_def m_def Let_def\<close>)
  next
    case False
    then obtain b where b: "b < s0" "ht_table (ht0 d) ! b \<noteq> []"
      using used_bucket [of _ "ht0 d"] len by (metis list.set_sel(1))
    then have "idx \<le> b" using dict_wfD(7) [OF d(1,2), of b] len by (fastforce simp: idx_def)
    show thesis by (rule that [of "b - idx"]) (use b idx \<open>idx \<le> b\<close> s1 in \<open>auto simp: g_def m_def Let_def\<close>)
  qed
  then have "v < 2 ^ 31" using m by linarith
  then obtain q where q: "p \<le> q" "rnd q = v" using fair by (auto simp: rnd_fair_def)
  have "\<exists>p' u. pick_rehashing rnd p d = Some (p', g u) \<and> g u \<noteq> []"
  proof (rule draw_ends [where g = g and rnd = rnd, OF _ q(2) v(2) q(1)])
    show "pick_rehashing rnd p d = (case g (rnd p) of [] \<Rightarrow> pick_rehashing rnd (p + 1) d | x # xs \<Rightarrow> Some (p + 1, x # xs))" for p
      using h [of "rnd p"] len m(1)
      by (subst pick_rehashing.simps) (auto simp: s0_def [symmetric] s1_def [symmetric] idx_def [symmetric] m_def [symmetric] g_def Let_def split: list.split)
  qed
  then show ?thesis using gsub by blast
qed

lemma dictGetRandomKey_spec:
  assumes "dict_wf d" "idx_ok d" "ht_size (ht0 d) \<le> 2 ^ 30" "ht_size (ht1 d) \<le> 2 ^ 30" "rnd_fair rnd"
  shows "\<exists>r d'. dictGetRandomKey env rnd d = Some (r, d') \<and> dict_wf d' \<and> same_content d d' \<and> idx_ok d'
    \<and> (case r of None \<Rightarrow> dict_entries d = [] | Some e \<Rightarrow> e \<in> set (dict_entries d))"
proof (cases "dictSize d = 0")
  case True
  then show ?thesis using assms(1,2) dictSize_entries [of d] by (simp add: dictGetRandomKey_def)
next
  case False
  then have ne: "dict_entries d \<noteq> []" using dictSize_entries [OF assms(1)] by auto
  obtain d1 where d1: "rehash_if_needed env d = Some d1" "dict_wf d1" "same_content d d1" using rehash_if_needed_spec [OF assms(1)] by blast
  have es: "set (dict_entries d1) = set (dict_entries d)" "dict_entries d1 \<noteq> []"
    using d1(3) ne by (auto simp: same_content_def dest: mset_eq_setD)
  have sz: "ht_size (ht0 d1) \<le> 2 ^ 30" "ht_size (ht1 d1) \<le> 2 ^ 30" using d1(3) assms(3,4) by (auto simp: same_content_def)
  have ok: "idx_ok d1" using rehash_idx_ok [OF assms(1,2) d1(1)] .
  obtain p he where he: "(if dictIsRehashing d1 then pick_rehashing rnd 0 d1 else pick_bucket rnd 0 d1) = Some (p, he)"
    "he \<noteq> []" "set he \<subseteq> set (dict_entries d)"
    using pick_rehashing_spec [OF d1(2) _ ok es(2) sz assms(5), of 0] pick_bucket_spec [OF d1(2) _ es(2) _ assms(5), of 0] sz es(1)
    by (cases "dictIsRehashing d1") auto
  then have "rnd p mod length he < length he" by simp
  then show ?thesis using False d1 he ok nth_mem [of "rnd p mod length he" he] by (auto simp: dictGetRandomKey_def)
qed

lemma table_entries:
  "get_at (ht_table (ht0 d)) i = Some he \<Longrightarrow> set he \<subseteq> set (dict_entries d)"
  "get_at (ht_table (ht1 d)) i = Some he \<Longrightarrow> set he \<subseteq> set (dict_entries d)"
  by (auto simp: get_at_def dict_entries_def ht_entries_def split: if_splits)

lemma pick_rehashing_sound:
  assumes "pick_rehashing rnd p d = Some x"
  shows "set (snd x) \<subseteq> set (dict_entries d)"
  by (rule pick_rehashing.raw_induct [OF _ assms, where P = "\<lambda>_ _ d x. set (snd x) \<subseteq> set (dict_entries d)"])
     (fastforce simp: Let_def bind_eq_Some_conv split: if_splits dest: table_entries)

lemma pick_bucket_sound:
  assumes "pick_bucket rnd p d = Some x"
  shows "set (snd x) \<subseteq> set (dict_entries d)"
  by (rule pick_bucket.raw_induct [OF _ assms, where P = "\<lambda>_ _ d x. set (snd x) \<subseteq> set (dict_entries d)"])
     (fastforce simp: Let_def bind_eq_Some_conv split: if_splits dest: table_entries)

lemma dictGetRandomKey_sound:
  assumes "dict_wf d" "dictGetRandomKey env rnd d = Some (r, d')"
  shows "dict_wf d' \<and> same_content d d' \<and> (r = None \<longrightarrow> dict_entries d = []) \<and> (\<forall>e. r = Some e \<longrightarrow> e \<in> set (dict_entries d))"
proof (cases "dictSize d = 0")
  case True
  then show ?thesis using assms dictSize_entries [OF assms(1)] by (auto simp: dictGetRandomKey_def)
next
  case False
  obtain d1 where d1: "rehash_if_needed env d = Some d1" "dict_wf d1" "same_content d d1" using rehash_if_needed_spec [OF assms(1)] by blast
  then have es: "set (dict_entries d1) = set (dict_entries d)" by (auto simp: same_content_def dest: mset_eq_setD)
  from assms(2) False d1(1) obtain p he where
    he: "(if dictIsRehashing d1 then pick_rehashing rnd 0 d1 else pick_bucket rnd 0 d1) = Some (p, he)" and
    r: "rnd p mod length he < length he" "r = Some (he ! (rnd p mod length he))" "d' = d1"
    by (auto simp: dictGetRandomKey_def bind_eq_Some_conv Let_def get_at_def split: if_splits)
  have "set he \<subseteq> set (dict_entries d1)"
    using he pick_rehashing_sound [of rnd 0 d1 "(p, he)"] pick_bucket_sound [of rnd 0 d1 "(p, he)"] by (auto split: if_splits)
  then show ?thesis using r d1 es nth_mem [OF r(1)] by auto
qed

text \<open>
  On a well-formed dictionary with entries, whatever its state of rehashing,
  \<open>dictGetRandomKey\<close> ends as soon as the random numbers are fair, reads inside the tables only,
  and returns an entry of the dictionary; at most one step of rehashing has been made. On an
  empty dictionary it returns \<open>NULL\<close>.
\<close>

theorem dictGetRandomKey_member:
  assumes "dict_wf d" "idx_ok d" "ht_size (ht0 d) \<le> 2 ^ 30" "ht_size (ht1 d) \<le> 2 ^ 30" "rnd_fair rnd"
  shows "\<exists>r d'. dictGetRandomKey env rnd d = Some (r, d') \<and> dict_wf d' \<and> same_content d d' \<and> idx_ok d'
    \<and> (case r of None \<Rightarrow> dict_entries d = [] | Some e \<Rightarrow> e \<in> set (dict_entries d))"
  by (rule dictGetRandomKey_spec [OF assms])

lemma counter_fair: "rnd_fair (\<lambda>q. q mod 2 ^ 31)"
  unfolding rnd_fair_def
proof (intro allI impI)
  fix v p :: nat
  assume "v < 2 ^ 31"
  then show "\<exists>q \<ge> p. q mod 2 ^ 31 = v" by (intro exI [of _ "v + p * 2 ^ 31"]) simp
qed

theorem dictGetRandomKey_member_witness:
  "\<exists>r d'. dictGetRandomKey ex_env (\<lambda>q. q mod 2 ^ 31) ex_dict = Some (r, d') \<and> dict_wf d' \<and> same_content ex_dict d' \<and> idx_ok d'
    \<and> (case r of None \<Rightarrow> dict_entries ex_dict = [] | Some e \<Rightarrow> e \<in> set (dict_entries ex_dict))"
  by (rule dictGetRandomKey_member [OF ex_dict_wf _ _ _ counter_fair]) (simp_all add: idx_ok_def ex_dict_def)

section \<open>Sampling several keys\<close>

text \<open>
  The state of the loops of \<open>dictGetSomeKeys\<close>: the index, the run of empty buckets, the
  random numbers used and the entries written to \<open>des\<close>, whose number is \<open>stored\<close>.
\<close>

type_synonym ('k, 'v) sample = "nat \<times> nat \<times> nat \<times> ('k, 'v) dictEntry list"

fun rehash_some :: "dict_env \<Rightarrow> nat \<Rightarrow> ('k, 'v) dict \<Rightarrow> ('k, 'v) dict option" where
  "rehash_some env 0 d = Some d"
| "rehash_some env (Suc n) d =
     (if dictIsRehashing d then do { d \<leftarrow> dictRehashStep env d; rehash_some env n d } else Some d)"

fun collect_bucket :: "nat \<Rightarrow> ('k, 'v) dictEntry list \<Rightarrow> ('k, 'v) dictEntry list \<Rightarrow> bool \<times> ('k, 'v) dictEntry list" where
  "collect_bucket cnt des [] = (False, des)"
| "collect_bucket cnt des (he # nexthe) =
     (let des = des @ [he] in if length des = cnt then (True, des) else collect_bucket cnt des nexthe)"

definition sample_table :: "(nat \<Rightarrow> nat) \<Rightarrow> nat \<Rightarrow> nat \<Rightarrow> ('k, 'v) dict \<Rightarrow> nat \<Rightarrow> nat \<Rightarrow> ('k, 'v) sample \<Rightarrow> (bool \<times> ('k, 'v) sample) option" where
  "sample_table rnd cnt maxsizemask d tables j = (\<lambda>(i, emptylen, p, des).
     if tables = 2 \<and> j = 0 \<and> i < nat (rehashidx d) mod 2 ^ 32 then
       Some (False, (if i \<ge> ht_size (ht1 d) then nat (rehashidx d) mod 2 ^ 32 else i), emptylen, p, des)
     else if i \<ge> ht_size (ht_of d j) then Some (False, i, emptylen, p, des)
     else do {
       he \<leftarrow> get_at (ht_table (ht_of d j)) i;
       if he = [] then
         let emptylen = emptylen + 1
         in if emptylen \<ge> 5 \<and> emptylen > cnt then Some (False, rnd p AND maxsizemask, 0, p + 1, des)
            else Some (False, i, emptylen, p, des)
       else let (full, des) = collect_bucket cnt des he in Some (full, i, 0, p, des) })"

fun sample_tables :: "(nat \<Rightarrow> nat) \<Rightarrow> nat \<Rightarrow> nat \<Rightarrow> ('k, 'v) dict \<Rightarrow> nat \<Rightarrow> nat list \<Rightarrow> ('k, 'v) sample \<Rightarrow> (bool \<times> ('k, 'v) sample) option" where
  "sample_tables rnd cnt maxsizemask d tables [] st = Some (False, st)"
| "sample_tables rnd cnt maxsizemask d tables (j # js) st = do {
     (full, st) \<leftarrow> sample_table rnd cnt maxsizemask d tables j st;
     if full then Some (True, st) else sample_tables rnd cnt maxsizemask d tables js st }"

fun sample_loop :: "(nat \<Rightarrow> nat) \<Rightarrow> nat \<Rightarrow> nat \<Rightarrow> ('k, 'v) dict \<Rightarrow> nat \<Rightarrow> nat \<Rightarrow> ('k, 'v) sample \<Rightarrow> ('k, 'v) dictEntry list option" where
  "sample_loop rnd cnt maxsizemask d tables 0 (i, emptylen, p, des) = Some des"
| "sample_loop rnd cnt maxsizemask d tables (Suc maxsteps) (i, emptylen, p, des) =
     (if length des < cnt then do {
        (full, i, emptylen, p, des) \<leftarrow> sample_tables rnd cnt maxsizemask d tables [0..<tables] (i, emptylen, p, des);
        if full then Some des
        else sample_loop rnd cnt maxsizemask d tables maxsteps ((i + 1) mod 2 ^ 32 AND maxsizemask, emptylen, p, des) }
      else Some des)"

definition dictGetSomeKeys :: "dict_env \<Rightarrow> (nat \<Rightarrow> nat) \<Rightarrow> ('k, 'v) dict \<Rightarrow> nat \<Rightarrow> (('k, 'v) dictEntry list \<times> ('k, 'v) dict) option" where
  "dictGetSomeKeys env rnd d cnt = do {
     let cnt = (if dictSize d < cnt then dictSize d else cnt);
     let maxsteps = (cnt * 10) mod 2 ^ 32;
     d \<leftarrow> rehash_some env cnt d;
     let tables = (if dictIsRehashing d then 2 else 1);
     let mask0 = ht_sizemask (ht0 d) mod 2 ^ 32;
     let maxsizemask = (if tables > 1 \<and> mask0 < ht_sizemask (ht1 d) then ht_sizemask (ht1 d) mod 2 ^ 32 else mask0);
     des \<leftarrow> sample_loop rnd cnt maxsizemask d tables maxsteps (rnd 0 AND maxsizemask, 0, 1, []);
     Some (des, d) }"

lemma rehash_some_spec:
  "dict_wf d \<Longrightarrow> \<exists>d'. rehash_some env n d = Some d' \<and> dict_wf d' \<and> same_content d d'"
proof (induction n arbitrary: d)
  case (Suc n)
  obtain d1 where d1: "rehash_if_needed env d = Some d1" "dict_wf d1" "same_content d d1"
    using rehash_if_needed_spec [OF Suc.prems] by blast
  then show ?case using Suc.IH [OF d1(2)] same_content_trans [OF d1(3)] Suc.prems by (auto simp: rehash_if_needed_def)
qed simp

lemma collect_bucket_spec:
  "length des < cnt \<Longrightarrow> collect_bucket cnt des he = (full, des') \<Longrightarrow>
     des' = des @ take (cnt - length des) he \<and> (full \<longleftrightarrow> cnt \<le> length des + length he)"
proof (induction he arbitrary: des)
  case (Cons x xs)
  then have n: "cnt - length des = Suc (cnt - Suc (length des))" by simp
  show ?case
  proof (cases "Suc (length des) = cnt")
    case False
    then have "Suc (length des) < cnt" using Cons.prems(1) by simp
    then show ?thesis using Cons.IH [of "des @ [x]"] Cons.prems(2) n by simp
  qed (use Cons.prems n in auto)
qed auto

text \<open>What the sampling keeps: no more entries than asked for, all of them of the dictionary.\<close>

definition sample_ok :: "nat \<Rightarrow> ('k, 'v) dict \<Rightarrow> ('k, 'v) dictEntry list \<Rightarrow> bool" where
  "sample_ok cnt d des \<longleftrightarrow> length des \<le> cnt \<and> set des \<subseteq> set (dict_entries d)"

lemma sample_table_spec:
  assumes "tables_ok d" "sample_ok cnt d des" "length des < cnt"
  shows "\<exists>full i' e' p' des'. sample_table rnd cnt msk d tables j (i, e, p, des) = Some (full, i', e', p', des')
    \<and> sample_ok cnt d des' \<and> (\<not> full \<longrightarrow> length des' < cnt)"
proof (cases "(tables = 2 \<and> j = 0 \<and> i < nat (rehashidx d) mod 2 ^ 32) \<or> i \<ge> ht_size (ht_of d j)")
  case True
  then show ?thesis using assms by (auto simp: sample_table_def)
next
  case False
  then have i: "i < length (ht_table (ht_of d j))" using assms(1) by (auto simp: tables_ok_def ht_of_def)
  have sub: "set (ht_table (ht_of d j) ! i) \<subseteq> set (dict_entries d)"
    using entries_bucket [OF i] by (auto simp: dict_entries_def ht_of_def split: if_splits)
  obtain full des' where c: "collect_bucket cnt des (ht_table (ht_of d j) ! i) = (full, des')" by fastforce
  have "sample_ok cnt d des'" "\<not> full \<longrightarrow> length des' < cnt"
    using collect_bucket_spec [OF assms(3) c] assms(2,3) sub set_take_subset [of "cnt - length des" "ht_table (ht_of d j) ! i"]
    by (auto simp: sample_ok_def)
  then show ?thesis using False i c assms(2,3) by (auto simp: sample_table_def Let_def)
qed

lemma sample_tables_spec:
  assumes "tables_ok d" "sample_ok cnt d des" "length des < cnt"
  shows "\<exists>full i' e' p' des'. sample_tables rnd cnt msk d tables js (i, e, p, des) = Some (full, i', e', p', des')
    \<and> sample_ok cnt d des' \<and> (\<not> full \<longrightarrow> length des' < cnt)"
  using assms(2,3)
proof (induction js arbitrary: i e p des)
  case (Cons j js)
  obtain full i' e' p' des' where s: "sample_table rnd cnt msk d tables j (i, e, p, des) = Some (full, i', e', p', des')"
    "sample_ok cnt d des'" "\<not> full \<longrightarrow> length des' < cnt"
    using sample_table_spec [OF assms(1) Cons.prems] by blast
  then show ?case using Cons.IH [of des' i' e' p'] by (cases full) auto
qed auto

lemma sample_loop_spec:
  assumes "tables_ok d" "sample_ok cnt d des"
  shows "\<exists>des'. sample_loop rnd cnt msk d tables n (i, e, p, des) = Some des' \<and> sample_ok cnt d des'"
  using assms(2)
proof (induction n arbitrary: i e p des)
  case (Suc n)
  show ?case
  proof (cases "length des < cnt")
    case True
    obtain full i' e' p' des' where s: "sample_tables rnd cnt msk d tables [0..<tables] (i, e, p, des) = Some (full, i', e', p', des')"
      "sample_ok cnt d des'"
      using sample_tables_spec [OF assms(1) Suc.prems True] by blast
    then show ?thesis using True Suc.IH [OF s(2), of "(i' + 1) mod 2 ^ 32 AND msk" e' p'] by (cases full) simp_all
  qed (use Suc.prems in simp)
qed simp

text \<open>
  C32: \<open>dictGetSomeKeys\<close> always ends, whatever the random numbers are; it reads inside the tables
  only, writes no more entries than the caller asked for and no more than there are, and every
  one of them is an entry of the dictionary.
\<close>

theorem dictGetSomeKeys_bounds:
  assumes "dict_wf d"
  shows "\<exists>des d'. dictGetSomeKeys env rnd d cnt = Some (des, d') \<and> dict_wf d' \<and> same_content d d'
    \<and> length des \<le> cnt \<and> length des \<le> dictSize d \<and> set des \<subseteq> set (dict_entries d)"
proof -
  define c where "c = (if dictSize d < cnt then dictSize d else cnt)"
  obtain d' where d': "rehash_some env c d = Some d'" "dict_wf d'" "same_content d d'" using rehash_some_spec [OF assms] by blast
  have es: "set (dict_entries d') = set (dict_entries d)" using d'(3) by (auto simp: same_content_def dest: mset_eq_setD)
  have "sample_ok c d' []" by (simp add: sample_ok_def)
  note loop = sample_loop_spec [OF dict_wf_tables [OF d'(2)] this]
  have c: "c \<le> cnt" "c \<le> dictSize d" by (auto simp: c_def)
  have "\<exists>des. dictGetSomeKeys env rnd d cnt = Some (des, d') \<and> sample_ok c d' des"
    unfolding dictGetSomeKeys_def c_def [symmetric] Let_def d'(1) bind.bind_lunit
    by (metis (no_types, lifting) loop bind.bind_lunit)
  then show ?thesis using d' es c by (fastforce simp: sample_ok_def)
qed

theorem dictGetSomeKeys_bounds_witness:
  "\<exists>des d'. dictGetSomeKeys ex_env (\<lambda>q. q) ex_dict 3 = Some (des, d') \<and> dict_wf d' \<and> same_content ex_dict d'
    \<and> length des \<le> 3 \<and> length des \<le> dictSize ex_dict \<and> set des \<subseteq> set (dict_entries ex_dict)"
  by (rule dictGetSomeKeys_bounds [OF ex_dict_wf])

end
