(* ===== verification/Objects.thy ===== *)
theory Objects
  imports Dict_Types Sds
begin

text \<open>
  String objects (\<^verbatim>\<open>object.c\<close>): a text, or an integer in place of the pointer. The encodings
  \<open>raw\<close> and \<open>embstr\<close> are one constructor: they differ in where the text is stored. What matters to the
  rest of the server is that an object behaves as its text whatever its encoding.
\<close>

section \<open>Operations\<close>

definition createStringObjectFromLongLong :: "int \<Rightarrow> str_obj" where
  "createStringObjectFromLongLong val = IntObj (word_of_int val)"

definition isObjectRepresentableAsLongLong :: "str_obj \<Rightarrow> int option" where
  "isObjectRepresentableAsLongLong o1 = (case o1 of IntObj w \<Rightarrow> Some (sint w) | SdsObj s \<Rightarrow> string2ll s)"

text \<open>An object that is shared (\<open>refcount > 1\<close>) is left alone.\<close>

definition tryObjectEncoding :: "nat \<Rightarrow> str_obj \<Rightarrow> str_obj" where
  "tryObjectEncoding refcount o1 =
     (case o1 of
        IntObj w \<Rightarrow> o1
      | SdsObj s \<Rightarrow>
          if refcount > 1 then o1
          else if length s \<le> 21 then (case string2l s of Some val \<Rightarrow> IntObj (word_of_int val) | None \<Rightarrow> o1)
          else o1)"

text \<open>The text of an object and its length as the comparison takes them, with a buffer for an integer.\<close>

definition object_text :: "nat \<Rightarrow> str_obj \<Rightarrow> byte list option" where
  "object_text bufsize o1 =
     (case o1 of
        SdsObj s \<Rightarrow> Some s
      | IntObj w \<Rightarrow> map_option (\<lambda>(len, buf). take len buf) (ll2string (replicate bufsize 0) bufsize (sint w)))"

definition compareStringObjects :: "str_obj \<Rightarrow> str_obj \<Rightarrow> int option" where
  "compareStringObjects a b =
     (if a = b then Some 0
      else do {
        astr \<leftarrow> object_text 128 a;
        bstr \<leftarrow> object_text 128 b;
        let minlen = min (length astr) (length bstr);
        let cmp = memcmp (take minlen astr) (take minlen bstr);
        if cmp = 0 then Some (cast_int (int (length astr) - int (length bstr))) else Some cmp })"

definition equalStringObjects :: "str_obj \<Rightarrow> str_obj \<Rightarrow> bool option" where
  "equalStringObjects a b =
     (case (a, b) of
        (IntObj v, IntObj w) \<Rightarrow> Some (v = w)
      | _ \<Rightarrow> map_option (\<lambda>c. c = 0) (compareStringObjects a b))"

definition stringObjectLen :: "str_obj \<Rightarrow> nat option" where
  "stringObjectLen o1 = map_option length (object_text 32 o1)"

text \<open>
  \<open>strtoll\<close> in base ten on a terminated string: blanks, a sign, digits. The result is the value,
  the number of bytes used (none when there is no digit) and whether it is out of range.
\<close>

definition strtoll10 :: "byte list \<Rightarrow> int \<times> nat \<times> bool" where
  "strtoll10 s =
     (let p = dropWhile isspace s;
          sgn = (if p \<noteq> [] \<and> (hd p = CH_MINUS \<or> hd p = CH_PLUS) then 1 else 0);
          neg = (p \<noteq> [] \<and> hd p = CH_MINUS);
          ds = takeWhile isdigit (drop sgn p);
          n = int (foldl (\<lambda>v c. v * 10 + (unat c - 48)) 0 ds); v = (if neg then - n else n)
      in if ds = [] then (0, 0, False)
         else (max (- (2 ^ 63)) (min (2 ^ 63 - 1) v), length s - length p + sgn + length ds, v < - (2 ^ 63) \<or> v > 2 ^ 63 - 1))"

definition getLongLongFromObject :: "str_obj option \<Rightarrow> int option" where
  "getLongLongFromObject o1 =
     (case o1 of
        None \<Rightarrow> Some 0
      | Some (SdsObj s) \<Rightarrow>
          let (v, used, erange) = strtoll10 s; str = s @ [CH_NUL] in
          if isspace (hd str) \<or> str ! used \<noteq> CH_NUL \<or> erange then None else Some v
      | Some (IntObj w) \<Rightarrow> Some (sint w))"

section \<open>Properties\<close>

lemma object_text_decoded:
  assumes "32 \<le> n"
  shows "object_text n o1 = Some (getDecodedObject o1)"
proof (cases o1)
  case (IntObj w)
  define d where "d = decimal (sint w)"
  have "length d < n" using length_decimal_i64 [OF fits_sint64 [of w]] assms by (simp add: d_def)
  then have "ll2string (replicate n 0) n (sint w) = Some (length d, d @ CH_NUL # drop (length d + 1) (replicate n 0))"
    using ll2string_spec [OF fits_sint64 [of w], of n "replicate n 0"] unfolding d_def [symmetric] length_replicate by simp
  then show ?thesis by (simp add: IntObj object_text_def getDecodedObject_def int_obj_text d_def)
qed (simp add: object_text_def getDecodedObject_def)

lemma decoded_int: "fits 8 v \<Longrightarrow> getDecodedObject (IntObj (word_of_int v)) = decimal v"
  by (simp add: getDecodedObject_def int_obj_text sint_sbintrunc' fits_def signed_take_bit_int_eq_self)

lemma string2l_iff: "string2l s = Some v \<longleftrightarrow> string2ll s = Some v"
  using string2ll_iff [of s v] by (auto simp: string2l_def fits_def split: option.splits)

lemma decoded_encoding: "getDecodedObject (tryObjectEncoding n o1) = getDecodedObject o1"
  by (auto simp: tryObjectEncoding_def string2l_iff string2ll_iff decoded_int getDecodedObject_def [of "SdsObj _"]
      split: str_obj.split option.split)

lemma representable_iff: "isObjectRepresentableAsLongLong o1 = Some v \<longleftrightarrow> fits 8 v \<and> getDecodedObject o1 = decimal v"
  by (cases o1) (auto simp: isObjectRepresentableAsLongLong_def string2ll_iff getDecodedObject_def int_obj_text fits_sint64 decimal_inj)

lemma memcmp_0: "length a = length b \<Longrightarrow> memcmp a b = 0 \<longleftrightarrow> a = b"
  by (induction a b rule: memcmp.induct) (auto simp: word_unat_eq_iff)

lemma compare_text:
  assumes "length (getDecodedObject a) < 2 ^ 31" "length (getDecodedObject b) < 2 ^ 31"
  shows "\<exists>r. compareStringObjects a b = Some r \<and> (r = 0 \<longleftrightarrow> getDecodedObject a = getDecodedObject b)
    \<and> (r < 0 \<longleftrightarrow> (getDecodedObject a, getDecodedObject b) \<in> lexord {(x, y). x < y})"
proof -
  define s t where "s = getDecodedObject a" and "t = getDecodedObject b"
  define m where "m = min (length s) (length t)"
  define cmp where "cmp = memcmp (take m s) (take m t)"
  have lex: "(if memcmp (take (min (length s) (length t)) s) (take (min (length s) (length t)) t) = 0 then length s < length t
       else memcmp (take (min (length s) (length t)) s) (take (min (length s) (length t)) t) < 0)
      \<longleftrightarrow> (s, t) \<in> lexord {(x, y). x < y}" for s t :: "byte list"
    by (induction s t rule: memcmp.induct) (auto simp: neq_Nil_conv)
  have eq: "cmp = 0 \<longleftrightarrow> take m s = take m t" unfolding cmp_def by (rule memcmp_0) (simp add: m_def)
  have len: "cast_int (int (length s) - int (length t)) = int (length s) - int (length t)"
    using assms by (intro cast_int_id) (simp_all add: s_def t_def)
  have st: "s = t \<longleftrightarrow> cmp = 0 \<and> length s = length t" using eq by (auto simp: m_def)
  show ?thesis
  proof (cases "a = b")
    case True
    then show ?thesis by (simp add: compareStringObjects_def lexord_irreflexive)
  next
    case False
    then have "compareStringObjects a b = Some (if cmp = 0 then int (length s) - int (length t) else cmp)"
      using object_text_decoded [of 128] len by (simp add: compareStringObjects_def s_def [symmetric] t_def [symmetric] m_def [symmetric] cmp_def [symmetric])
    then show ?thesis using st lex [of s t] unfolding s_def [symmetric] t_def [symmetric] m_def [symmetric] cmp_def [symmetric] by auto
  qed
qed

lemma equal_text:
  assumes "length (getDecodedObject a) < 2 ^ 31" "length (getDecodedObject b) < 2 ^ 31"
  shows "equalStringObjects a b = Some (getDecodedObject a = getDecodedObject b)"
  using compare_text [OF assms] by (cases a; cases b)
    (auto simp: equalStringObjects_def getDecodedObject_def int_obj_text decimal_inj fits_sint64 signed_word_eqI)

text \<open>
  A string object behaves as its text, whatever its encoding: trying to encode it as an
  integer keeps the text, it is representable as an integer exactly when the text is the
  numeral of a 64-bit integer, its length is the length of the text, two objects are equal
  when their texts are, and comparing them is the lexicographic comparison of the bytes.
\<close>

theorem string_object_text:
  assumes "length (getDecodedObject a) < 2 ^ 31" "length (getDecodedObject b) < 2 ^ 31"
  shows "getDecodedObject (tryObjectEncoding n a) = getDecodedObject a
    \<and> (isObjectRepresentableAsLongLong a = Some v \<longleftrightarrow> fits 8 v \<and> getDecodedObject a = decimal v)
    \<and> stringObjectLen a = Some (length (getDecodedObject a))
    \<and> equalStringObjects a b = Some (getDecodedObject a = getDecodedObject b)
    \<and> (\<exists>r. compareStringObjects a b = Some r \<and> (r = 0 \<longleftrightarrow> getDecodedObject a = getDecodedObject b)
          \<and> (r < 0 \<longleftrightarrow> (getDecodedObject a, getDecodedObject b) \<in> lexord {(x, y). x < y}))"
  using equal_text [OF assms] decoded_encoding representable_iff compare_text [OF assms] object_text_decoded [of 32]
  by (simp add: stringObjectLen_def)

theorem string_object_text_witness:
  "getDecodedObject (tryObjectEncoding 1 (SdsObj [49])) = [49]
   \<and> equalStringObjects (SdsObj [49]) (IntObj 1) = Some (getDecodedObject (SdsObj [49]) = getDecodedObject (IntObj 1))"
  using string_object_text [of "SdsObj [49]" "IntObj 1" 1] decoded_int [of 1] length_decimal_i64 [of 1]
  by (simp add: getDecodedObject_def [of "SdsObj _"] fits_def)

text \<open>
  The integer a command takes from its argument need not be a numeral: the empty text
  counts as zero, and a text is read up to its first zero byte.
\<close>

theorem getLongLongFromObject_lenient:
  "getLongLongFromObject (Some (SdsObj [])) = Some 0
   \<and> getLongLongFromObject (Some (SdsObj ([CH_1, CH_NUL] @ rest))) = Some 1
   \<and> string2ll [] = None \<and> string2ll ([CH_1, CH_NUL] @ rest) = None"
  by (simp add: getLongLongFromObject_def strtoll10_def isspace_def isdigit_def string2ll_def Let_def)

end
