(* ===== verification/Keyspace.thy ===== *)
theory Keyspace
  imports Dict_Map Dict_Iter Objects Protocol "HOL-Library.Signed_Division"
begin

text \<open>
  The key space of \<^verbatim>\<open>db.c\<close>: a database is a dictionary of values and a dictionary of expiry
  times. A value is an object with its type, its access time and a payload of any type; a
  pointer to an object that is changed in place is written back to the dictionary. What the
  code sends to other parts of the server is logged in the server state: commands for the
  append only file and the replicas, keyspace events, keys whose watchers are touched. The
  readings of the clock are arguments. Cluster mode is off.
\<close>

section \<open>State\<close>

datatype obj_type = REDIS_STRING | REDIS_LIST | REDIS_SET | REDIS_ZSET | REDIS_HASH

record 'v robj =
  o_type :: obj_type
  o_lru :: nat
  o_ptr :: 'v

record 'v redisDb =
  db_dict :: "(byte list, 'v robj) dict"
  db_expires :: "(byte list, int) dict"
  db_id :: int

datatype aof_state = AOF_OFF | AOF_ON | AOF_WAIT_REWRITE

record server =
  dictenv :: dict_env
  loading :: bool
  masterhost :: bool
  lua_caller :: bool
  lua_time_start :: int
  child_running :: bool
  lruclock :: nat
  stat_keyspace_hits :: nat
  stat_keyspace_misses :: nat
  stat_expiredkeys :: nat
  dirty :: int
  aof :: aof_state
  aof_feed :: "(int \<times> byte list list) list"
  slaves_feed :: "(int \<times> byte list list) list"
  events :: "(string \<times> byte list \<times> int) list"
  touched :: "(int \<times> byte list) list"
  flushed :: "int list"
  ready_lists :: "(int \<times> byte list) list"

definition notifyKeyspaceEvent :: "server \<Rightarrow> string \<Rightarrow> byte list \<Rightarrow> int \<Rightarrow> server" where
  "notifyKeyspaceEvent srv event key dbid = srv\<lparr>events := events srv @ [(event, key, dbid)]\<rparr>"

definition signalModifiedKey :: "server \<Rightarrow> 'v redisDb \<Rightarrow> byte list \<Rightarrow> server" where
  "signalModifiedKey srv db key = srv\<lparr>touched := touched srv @ [(db_id db, key)]\<rparr>"

section \<open>The C-level interface\<close>

definition lookupKey :: "server \<Rightarrow> 'v redisDb \<Rightarrow> byte list \<Rightarrow> ('v robj option \<times> 'v redisDb) option" where
  "lookupKey srv db key = do {
     (r, d) \<leftarrow> dictFind (dictenv srv) (db_dict db) key;
     (case r of
        None \<Rightarrow> Some (None, db\<lparr>db_dict := d\<rparr>)
      | Some de \<Rightarrow> do {
          e \<leftarrow> entry_at d de;
          let val = snd e;
          if \<not> child_running srv then do {
            let val = val\<lparr>o_lru := lruclock srv\<rparr>;
            d \<leftarrow> dictSetVal d de val;
            Some (Some val, db\<lparr>db_dict := d\<rparr>) }
          else Some (Some val, db\<lparr>db_dict := d\<rparr>) }) }"

definition dbAdd :: "server \<Rightarrow> 'v redisDb \<Rightarrow> byte list \<Rightarrow> 'v robj \<Rightarrow> (server \<times> 'v redisDb) option" where
  "dbAdd srv db key val = do {
     (retval, d) \<leftarrow> dictAdd (dictenv srv) val (db_dict db) key val;
     if retval \<noteq> DICT_OK then None
     else Some (if o_type val = REDIS_LIST then srv\<lparr>ready_lists := ready_lists srv @ [(db_id db, key)]\<rparr> else srv,
                db\<lparr>db_dict := d\<rparr>) }"

definition dbOverwrite :: "server \<Rightarrow> 'v redisDb \<Rightarrow> byte list \<Rightarrow> 'v robj \<Rightarrow> 'v redisDb option" where
  "dbOverwrite srv db key val = do {
     (de, d) \<leftarrow> dictFind (dictenv srv) (db_dict db) key;
     if de = None then None
     else do {
       (_, _, d) \<leftarrow> dictReplace (dictenv srv) val d key val;
       Some (db\<lparr>db_dict := d\<rparr>) } }"

definition dbExists :: "server \<Rightarrow> 'v redisDb \<Rightarrow> byte list \<Rightarrow> (bool \<times> 'v redisDb) option" where
  "dbExists srv db key = do {
     (de, d) \<leftarrow> dictFind (dictenv srv) (db_dict db) key;
     Some (de \<noteq> None, db\<lparr>db_dict := d\<rparr>) }"

definition dbDelete :: "server \<Rightarrow> 'v redisDb \<Rightarrow> byte list \<Rightarrow> (bool \<times> 'v redisDb) option" where
  "dbDelete srv db key = do {
     db \<leftarrow> (if dictSize (db_expires db) > 0 then do {
              (_, _, e) \<leftarrow> dictDelete (dictenv srv) (db_expires db) key;
              Some (db\<lparr>db_expires := e\<rparr>) }
            else Some db);
     (st, _, d) \<leftarrow> dictDelete (dictenv srv) (db_dict db) key;
     Some (st = DICT_OK, db\<lparr>db_dict := d\<rparr>) }"

section \<open>Expiry times\<close>

definition removeExpire :: "server \<Rightarrow> 'v redisDb \<Rightarrow> byte list \<Rightarrow> (bool \<times> 'v redisDb) option" where
  "removeExpire srv db key = do {
     (de, d) \<leftarrow> dictFind (dictenv srv) (db_dict db) key;
     if de = None then None
     else do {
       (st, _, e) \<leftarrow> dictDelete (dictenv srv) (db_expires db) key;
       Some (st = DICT_OK, db\<lparr>db_dict := d, db_expires := e\<rparr>) } }"

text \<open>The key is the one of the main dictionary; the new entry's value is written at once.\<close>

definition setExpire :: "server \<Rightarrow> 'v redisDb \<Rightarrow> byte list \<Rightarrow> int \<Rightarrow> 'v redisDb option" where
  "setExpire srv db key when = do {
     (kde, d) \<leftarrow> dictFind (dictenv srv) (db_dict db) key;
     (case kde of
        None \<Rightarrow> None
      | Some kde \<Rightarrow> do {
          kv \<leftarrow> entry_at d kde;
          (de, e) \<leftarrow> dictReplaceRaw (dictenv srv) when (db_expires db) (fst kv);
          (case de of
             None \<Rightarrow> None
           | Some de \<Rightarrow> do {
               e \<leftarrow> dictSetVal e de when;
               Some (db\<lparr>db_dict := d, db_expires := e\<rparr>) }) }) }"

definition getExpire :: "server \<Rightarrow> 'v redisDb \<Rightarrow> byte list \<Rightarrow> (int \<times> 'v redisDb) option" where
  "getExpire srv db key =
     (if dictSize (db_expires db) = 0 then Some (-1, db)
      else do {
        (de, e) \<leftarrow> dictFind (dictenv srv) (db_expires db) key;
        (case de of
           None \<Rightarrow> Some (-1, db\<lparr>db_expires := e\<rparr>)
         | Some de \<Rightarrow> do {
             (r, d) \<leftarrow> dictFind (dictenv srv) (db_dict db) key;
             if r = None then None
             else do {
               x \<leftarrow> entry_at e de;
               Some (snd x, db\<lparr>db_dict := d, db_expires := e\<rparr>) } }) })"

definition propagateExpire :: "server \<Rightarrow> 'v redisDb \<Rightarrow> byte list \<Rightarrow> server" where
  "propagateExpire srv db key =
     (let args = [bytes_of ''DEL'', key];
          srv = (if aof srv \<noteq> AOF_OFF then srv\<lparr>aof_feed := aof_feed srv @ [(db_id db, args)]\<rparr> else srv)
      in srv\<lparr>slaves_feed := slaves_feed srv @ [(db_id db, args)]\<rparr>)"

definition expireIfNeeded :: "int \<Rightarrow> server \<Rightarrow> 'v redisDb \<Rightarrow> byte list \<Rightarrow> (bool \<times> server \<times> 'v redisDb) option" where
  "expireIfNeeded mstime srv db key = do {
     (when, db) \<leftarrow> getExpire srv db key;
     if when < 0 then Some (False, srv, db)
     else if loading srv then Some (False, srv, db)
     else
       (let now = (if lua_caller srv then lua_time_start srv else mstime) in
        if masterhost srv then Some (now > when, srv, db)
        else if now \<le> when then Some (False, srv, db)
        else
          (let srv = srv\<lparr>stat_expiredkeys := stat_expiredkeys srv + 1\<rparr>;
               srv = propagateExpire srv db key;
               srv = notifyKeyspaceEvent srv ''expired'' key (db_id db)
           in do { (r, db) \<leftarrow> dbDelete srv db key; Some (r, srv, db) })) }"

definition lookupKeyRead :: "int \<Rightarrow> server \<Rightarrow> 'v redisDb \<Rightarrow> byte list \<Rightarrow> ('v robj option \<times> server \<times> 'v redisDb) option" where
  "lookupKeyRead mstime srv db key = do {
     (_, srv, db) \<leftarrow> expireIfNeeded mstime srv db key;
     (val, db) \<leftarrow> lookupKey srv db key;
     let srv = (if val = None then srv\<lparr>stat_keyspace_misses := stat_keyspace_misses srv + 1\<rparr>
                else srv\<lparr>stat_keyspace_hits := stat_keyspace_hits srv + 1\<rparr>);
     Some (val, srv, db) }"

definition lookupKeyWrite :: "int \<Rightarrow> server \<Rightarrow> 'v redisDb \<Rightarrow> byte list \<Rightarrow> ('v robj option \<times> server \<times> 'v redisDb) option" where
  "lookupKeyWrite mstime srv db key = do {
     (_, srv, db) \<leftarrow> expireIfNeeded mstime srv db key;
     (val, db) \<leftarrow> lookupKey srv db key;
     Some (val, srv, db) }"

definition setKey :: "int \<Rightarrow> server \<Rightarrow> 'v redisDb \<Rightarrow> byte list \<Rightarrow> 'v robj \<Rightarrow> (server \<times> 'v redisDb) option" where
  "setKey mstime srv db key val = do {
     (o1, srv, db) \<leftarrow> lookupKeyWrite mstime srv db key;
     (srv, db) \<leftarrow> (if o1 = None then dbAdd srv db key val
                   else do { db \<leftarrow> dbOverwrite srv db key val; Some (srv, db) });
     (_, db) \<leftarrow> removeExpire srv db key;
     Some (signalModifiedKey srv db key, db) }"

text \<open>
  A random key that has not expired: each round draws from its own random numbers and reads
  the clock anew.
\<close>

partial_function (option) dbRandomKey ::
  "(nat \<Rightarrow> nat \<Rightarrow> nat) \<Rightarrow> (nat \<Rightarrow> int) \<Rightarrow> nat \<Rightarrow> server \<Rightarrow> 'v redisDb \<Rightarrow> (byte list option \<times> server \<times> 'v redisDb) option" where
  "dbRandomKey rnd mstime n srv db =
     Option.bind (dictGetRandomKey (dictenv srv) (rnd n) (db_dict db)) (\<lambda>(de, d).
       (case de of
          None \<Rightarrow> Some (None, srv, db\<lparr>db_dict := d\<rparr>)
        | Some kv \<Rightarrow>
            Option.bind (dictFind (dictenv srv) (db_expires db) (fst kv)) (\<lambda>(x, e).
              if x \<noteq> None then
                Option.bind (expireIfNeeded (mstime n) srv (db\<lparr>db_dict := d, db_expires := e\<rparr>) (fst kv)) (\<lambda>(r, srv, db).
                  if r then dbRandomKey rnd mstime (n + 1) srv db else Some (Some (fst kv), srv, db))
              else Some (Some (fst kv), srv, db\<lparr>db_dict := d, db_expires := e\<rparr>))))"

declare dbRandomKey.simps [code]

text \<open>The databases of the server; the client has the number of one.\<close>

definition selectDb :: "'v redisDb list \<Rightarrow> int \<Rightarrow> nat option" where
  "selectDb dbs dbid = (if dbid < 0 \<or> dbid \<ge> int (length dbs) then None else Some (nat dbid))"

fun emptyDb :: "'v redisDb list \<Rightarrow> (nat \<times> 'v redisDb list) option" where
  "emptyDb [] = Some (0, [])"
| "emptyDb (db # dbs) = do {
     let n = dictSize (db_dict db);
     (_, d) \<leftarrow> dictEmpty (db_dict db);
     (_, e) \<leftarrow> dictEmpty (db_expires db);
     (removed, dbs) \<leftarrow> emptyDb dbs;
     Some (n + removed, db\<lparr>db_dict := d, db_expires := e\<rparr> # dbs) }"

section \<open>Commands\<close>

text \<open>
  A command takes the arguments of the client and gives the text of its reply. The texts of
  the shared objects it uses:
\<close>

definition shared_czero :: "byte list" where "shared_czero = bytes_of '':0'' @ CRLF"
definition shared_cone :: "byte list" where "shared_cone = bytes_of '':1'' @ CRLF"
definition shared_ok :: "byte list" where "shared_ok = bytes_of ''+OK'' @ CRLF"
definition shared_nokeyerr :: "byte list" where "shared_nokeyerr = bytes_of ''-ERR no such key'' @ CRLF"
definition shared_sameobjecterr :: "byte list" where
  "shared_sameobjecterr = bytes_of ''-ERR source and destination objects are the same'' @ CRLF"

definition addReplyLongLong :: "int \<Rightarrow> byte list" where
  "addReplyLongLong ll =
     (if ll = 0 then shared_czero else if ll = 1 then shared_cone else bytes_of '':'' @ decimal ll @ CRLF)"

fun del_loop :: "int \<Rightarrow> byte list list \<Rightarrow> int \<Rightarrow> server \<Rightarrow> 'v redisDb \<Rightarrow> (int \<times> server \<times> 'v redisDb) option" where
  "del_loop mstime [] deleted srv db = Some (deleted, srv, db)"
| "del_loop mstime (key # keys) deleted srv db = do {
     (_, srv, db) \<leftarrow> expireIfNeeded mstime srv db key;
     (r, db) \<leftarrow> dbDelete srv db key;
     if r then
       del_loop mstime keys (deleted + 1)
         ((notifyKeyspaceEvent (signalModifiedKey srv db key) ''del'' key (db_id db))\<lparr>dirty := dirty srv + 1\<rparr>) db
     else del_loop mstime keys deleted srv db }"

definition delCommand :: "int \<Rightarrow> byte list list \<Rightarrow> server \<Rightarrow> 'v redisDb \<Rightarrow> (byte list \<times> server \<times> 'v redisDb) option" where
  "delCommand mstime args srv db = do {
     (deleted, srv, db) \<leftarrow> del_loop mstime (drop 1 args) 0 srv db;
     Some (addReplyLongLong deleted, srv, db) }"

fun exists_loop :: "int \<Rightarrow> byte list list \<Rightarrow> int \<Rightarrow> server \<Rightarrow> 'v redisDb \<Rightarrow> (int \<times> server \<times> 'v redisDb) option" where
  "exists_loop mstime [] n srv db = Some (n, srv, db)"
| "exists_loop mstime (key # keys) n srv db = do {
     (_, srv, db) \<leftarrow> expireIfNeeded mstime srv db key;
     (r, db) \<leftarrow> dbExists srv db key;
     exists_loop mstime keys (if r then n + 1 else n) srv db }"

definition existsCommand :: "int \<Rightarrow> byte list list \<Rightarrow> server \<Rightarrow> 'v redisDb \<Rightarrow> (byte list \<times> server \<times> 'v redisDb) option" where
  "existsCommand mstime args srv db = do {
     (n, srv, db) \<leftarrow> exists_loop mstime (drop 1 args) 0 srv db;
     Some (addReplyLongLong n, srv, db) }"

definition renameGenericCommand ::
  "int \<Rightarrow> byte list \<Rightarrow> byte list \<Rightarrow> bool \<Rightarrow> server \<Rightarrow> 'v redisDb \<Rightarrow> (byte list \<times> server \<times> 'v redisDb) option" where
  "renameGenericCommand mstime key newkey nx srv db =
     (if key = newkey then Some (shared_sameobjecterr, srv, db)
      else do {
        (o1, srv, db) \<leftarrow> lookupKeyWrite mstime srv db key;
        (case o1 of
           None \<Rightarrow> Some (shared_nokeyerr, srv, db)
         | Some val \<Rightarrow> do {
             (expire, db) \<leftarrow> getExpire srv db key;
             (o2, srv, db) \<leftarrow> lookupKeyWrite mstime srv db newkey;
             if o2 \<noteq> None \<and> nx then Some (shared_czero, srv, db)
             else do {
               db \<leftarrow> (if o2 \<noteq> None then map_option snd (dbDelete srv db newkey) else Some db);
               (srv, db) \<leftarrow> dbAdd srv db newkey val;
               db \<leftarrow> (if expire \<noteq> -1 then setExpire srv db newkey expire else Some db);
               (_, db) \<leftarrow> dbDelete srv db key;
               let srv = signalModifiedKey (signalModifiedKey srv db key) db newkey;
               let srv = notifyKeyspaceEvent (notifyKeyspaceEvent srv ''rename_from'' key (db_id db)) ''rename_to'' newkey (db_id db);
               Some (if nx then shared_cone else shared_ok, srv\<lparr>dirty := dirty srv + 1\<rparr>, db) } }) })"

text \<open>
  \<open>when *= 1000\<close> and \<open>when += basetime\<close> on 64-bit integers; \<open>now1\<close> and \<open>now2\<close> are the readings of the
  clock in the lookup and in the comparison. The command that is propagated in place of the
  one received is part of the result when it is rewritten.
\<close>

definition expireGenericCommand ::
  "int \<Rightarrow> bool \<Rightarrow> int \<Rightarrow> int \<Rightarrow> byte list \<Rightarrow> byte list \<Rightarrow> server \<Rightarrow> 'v redisDb \<Rightarrow>
     (byte list \<times> byte list list option \<times> server \<times> 'v redisDb) option" where
  "expireGenericCommand basetime unit_seconds now1 now2 key param srv db =
     (case getLongLongFromObject (Some (SdsObj param)) of
        None \<Rightarrow> Some (bytes_of ''-ERR value is not an integer or out of range'' @ CRLF, None, srv, db)
      | Some when0 \<Rightarrow> do {
          let when1 = (if unit_seconds then signed_take_bit 63 (when0 * 1000) else when0);
          let when = signed_take_bit 63 (when1 + basetime);
          (o1, srv, db) \<leftarrow> lookupKeyRead now1 srv db key;
          if o1 = None then Some (shared_czero, None, srv, db)
          else if when \<le> now2 \<and> \<not> loading srv \<and> \<not> masterhost srv then do {
            (r, db) \<leftarrow> dbDelete srv db key;
            if \<not> r then None
            else
              let srv = srv\<lparr>dirty := dirty srv + 1\<rparr>;
                  srv = notifyKeyspaceEvent (signalModifiedKey srv db key) ''del'' key (db_id db)
              in Some (shared_cone, Some [bytes_of ''DEL'', key], srv, db) }
          else do {
            db \<leftarrow> setExpire srv db key when;
            let srv = notifyKeyspaceEvent (signalModifiedKey srv db key) ''expire'' key (db_id db);
            Some (shared_cone, None, srv\<lparr>dirty := dirty srv + 1\<rparr>, db) } })"

text \<open>The remaining time is the difference of two 64-bit integers, rounded to seconds for TTL.\<close>

definition ttlGenericCommand ::
  "bool \<Rightarrow> int \<Rightarrow> int \<Rightarrow> byte list \<Rightarrow> server \<Rightarrow> 'v redisDb \<Rightarrow> (byte list \<times> server \<times> 'v redisDb) option" where
  "ttlGenericCommand output_ms now1 now2 key srv db = do {
     (o1, srv, db) \<leftarrow> lookupKeyRead now1 srv db key;
     if o1 = None then Some (addReplyLongLong (-2), srv, db)
     else do {
       (expire, db) \<leftarrow> getExpire srv db key;
       let ttl = (if expire \<noteq> -1 then (let ttl = signed_take_bit 63 (expire - now2) in if ttl < 0 then 0 else ttl) else -1);
       Some (addReplyLongLong (if ttl = -1 then -1 else if output_ms then ttl else signed_take_bit 63 (ttl + 500) sdiv 1000), srv, db) } }"

definition persistCommand :: "byte list \<Rightarrow> server \<Rightarrow> 'v redisDb \<Rightarrow> (byte list \<times> server \<times> 'v redisDb) option" where
  "persistCommand key srv db = do {
     (de, d) \<leftarrow> dictFind (dictenv srv) (db_dict db) key;
     let db = db\<lparr>db_dict := d\<rparr>;
     if de = None then Some (shared_czero, srv, db)
     else do {
       (r, db) \<leftarrow> removeExpire srv db key;
       if r then Some (shared_cone, srv\<lparr>dirty := dirty srv + 1\<rparr>, db) else Some (shared_czero, srv, db) } }"

definition flushdbCommand :: "server \<Rightarrow> 'v redisDb \<Rightarrow> (byte list \<times> server \<times> 'v redisDb) option" where
  "flushdbCommand srv db = do {
     let srv = srv\<lparr>dirty := dirty srv + int (dictSize (db_dict db)), flushed := flushed srv @ [db_id db]\<rparr>;
     (_, d) \<leftarrow> dictEmpty (db_dict db);
     (_, e) \<leftarrow> dictEmpty (db_expires db);
     Some (shared_ok, srv, db\<lparr>db_dict := d, db_expires := e\<rparr>) }"

definition shared_outofrangeerr :: "byte list" where
  "shared_outofrangeerr = bytes_of ''-ERR index out of range'' @ CRLF"

text \<open>The number is narrowed to an \<open>int\<close> before it is compared with the number of databases.\<close>

definition selectCommand :: "'v redisDb list \<Rightarrow> nat \<Rightarrow> byte list \<Rightarrow> byte list \<times> nat" where
  "selectCommand dbs cur arg =
     (case getLongLongFromObject (Some (SdsObj arg)) of
        None \<Rightarrow> (bytes_of ''-ERR invalid DB index'' @ CRLF, cur)
      | Some dbid \<Rightarrow>
          (case selectDb dbs (signed_take_bit 31 dbid) of
             None \<Rightarrow> (bytes_of ''-ERR invalid DB index'' @ CRLF, cur)
           | Some db \<Rightarrow> (shared_ok, db)))"

definition moveCommand ::
  "int \<Rightarrow> int \<Rightarrow> byte list \<Rightarrow> byte list \<Rightarrow> server \<Rightarrow> 'v redisDb list \<Rightarrow> nat \<Rightarrow> (byte list \<times> server \<times> 'v redisDb list) option" where
  "moveCommand now1 now2 key arg srv dbs srcid =
     (case getLongLongFromObject (Some (SdsObj arg)) of
        None \<Rightarrow> Some (shared_outofrangeerr, srv, dbs)
      | Some dbid \<Rightarrow>
          if dbid < - (2 ^ 31) \<or> dbid > 2 ^ 31 - 1 then Some (shared_outofrangeerr, srv, dbs)
          else (case selectDb dbs dbid of
             None \<Rightarrow> Some (shared_outofrangeerr, srv, dbs)
           | Some dstid \<Rightarrow>
               if dstid = srcid then Some (shared_sameobjecterr, srv, dbs)
               else do {
                 src \<leftarrow> get_at dbs srcid;
                 dst \<leftarrow> get_at dbs dstid;
                 (o1, srv, src) \<leftarrow> lookupKeyWrite now1 srv src key;
                 (case o1 of
                    None \<Rightarrow> Some (shared_czero, srv, dbs[srcid := src])
                  | Some val \<Rightarrow> do {
                      (expire, src) \<leftarrow> getExpire srv src key;
                      (o2, srv, dst) \<leftarrow> lookupKeyWrite now2 srv dst key;
                      if o2 \<noteq> None then Some (shared_czero, srv, dbs[srcid := src, dstid := dst])
                      else do {
                        (srv, dst) \<leftarrow> dbAdd srv dst key val;
                        dst \<leftarrow> (if expire \<noteq> -1 then setExpire srv dst key expire else Some dst);
                        (_, src) \<leftarrow> dbDelete srv src key;
                        Some (shared_cone, srv\<lparr>dirty := dirty srv + 1\<rparr>, dbs[srcid := src, dstid := dst]) } }) }))"

end
