(* ===== verification/Keyspace_Spec.thy ===== *)
theory Keyspace_Spec
  imports Keyspace
begin

text \<open>
  What the key space promises: it is a map of values and a map of expiry times for keys that
  exist. Each operation is shown to have its effect on the two maps, whatever the state of
  the dictionaries, and to keep the invariant.
\<close>

section \<open>The abstract key space\<close>

definition payload :: "'v robj \<Rightarrow> obj_type \<times> 'v" where
  "payload o1 = (o_type o1, o_ptr o1)"

type_synonym 'v valmap = "byte list \<rightharpoonup> (obj_type \<times> 'v)"
type_synonym expiries = "byte list \<rightharpoonup> int"

definition db_values :: "'v redisDb \<Rightarrow> 'v valmap" where
  "db_values db k = map_option payload (dict_map (db_dict db) k)"

definition db_times :: "'v redisDb \<Rightarrow> expiries" where
  "db_times db = dict_map (db_expires db)"

text \<open>The invariant: both dictionaries are well-formed, and only keys that exist have an expiry time.\<close>

definition db_ok :: "u32 \<Rightarrow> 'v redisDb \<Rightarrow> bool" where
  "db_ok seed db \<longleftrightarrow> dict_inv (dbDictType seed) (db_dict db) \<and> dict_inv (keyptrDictType seed) (db_expires db)
     \<and> dom (db_times db) \<subseteq> dom (db_values db)"

definition db_rel :: "u32 \<Rightarrow> 'v redisDb \<Rightarrow> 'v valmap \<Rightarrow> expiries \<Rightarrow> int \<Rightarrow> bool" where
  "db_rel seed db V E i \<longleftrightarrow> db_ok seed db \<and> db_values db = V \<and> db_times db = E \<and> db_id db = i"

lemma db_rel_iff:
  "db_rel seed db V E i \<longleftrightarrow> dict_inv (dbDictType seed) (db_dict db) \<and> dict_inv (keyptrDictType seed) (db_expires db)
     \<and> dom E \<subseteq> dom V
     \<and> (\<forall>k. V k = map_option payload (dict_map (db_dict db) k)) \<and> E = dict_map (db_expires db) \<and> db_id db = i"
proof -
  have "db_values db = V \<longleftrightarrow> (\<forall>k. V k = map_option payload (dict_map (db_dict db) k))"
    by (auto simp: db_values_def fun_eq_iff)
  then show ?thesis unfolding db_rel_def db_ok_def by (metis db_times_def)
qed

lemma db_relD:
  assumes "db_rel seed db V E i"
  shows "dict_inv (dbDictType seed) (db_dict db)" "dict_inv (keyptrDictType seed) (db_expires db)"
    "dom E \<subseteq> dom V" "V k = map_option payload (dict_map (db_dict db) k)" "E = dict_map (db_expires db)" "db_id db = i"
  using assms unfolding db_rel_iff by blast+

lemma db_relI:
  assumes "dict_inv (dbDictType seed) (db_dict db)" "dict_inv (keyptrDictType seed) (db_expires db)"
    "dom E \<subseteq> dom V" "\<And>k. V k = map_option payload (dict_map (db_dict db) k)" "\<And>k. E k = dict_map (db_expires db) k" "db_id db = i"
  shows "db_rel seed db V E i"
  using assms unfolding db_rel_iff by (metis ext)

lemma db_rel_sizes:
  assumes "db_rel seed db V E i"
  shows "dictSize (db_dict db) = card (dom V)" "finite (dom V)" "dictSize (db_expires db) = card (dom E)" "card (dom E) \<le> card (dom V)"
proof -
  note D = db_relD [OF assms]
  have V: "dom V = dom (dict_map (db_dict db))" using D(4) by (auto simp: dom_def)
  show "dictSize (db_dict db) = card (dom V)" "finite (dom V)" using db_keys.size_dom [OF D(1)] V by simp_all
  then show "dictSize (db_expires db) = card (dom E)" "card (dom E) \<le> card (dom V)"
    using expire_keys.size_dom [OF D(2)] D(3,5) card_mono by simp_all
qed

section \<open>Operations\<close>

lemma lookupKey_rel:
  assumes "db_rel seed db V E i"
  obtains val db' where "lookupKey srv db k = Some (val, db')" "map_option payload val = V k" "db_rel seed db' V E i"
proof -
  note D = db_relD [OF assms]
  obtain r d where r: "dictFind (dictenv srv) (db_dict db) k = Some (r, d)" "dict_inv (dbDictType seed) d" "dict_map d = dict_map (db_dict db)"
    "dictSize d = dictSize (db_dict db)" "r = None \<longleftrightarrow> dict_map (db_dict db) k = None" "\<forall>ref. r = Some ref \<longrightarrow> holds d ref k"
    by (rule db_keys.find [OF D(1), where env = "dictenv srv" and k = k])
  have R: "db_rel seed (db\<lparr>db_dict := d\<rparr>) V E i" by (rule db_relI) (use D r in simp_all)
  show thesis
  proof (cases r)
    case None
    then show thesis using that [of None "db\<lparr>db_dict := d\<rparr>"] R r(1,5) D(4) [of k] by (simp add: lookupKey_def)
  next
    case (Some ref)
    then have h: "holds d ref k" using r(6) by simp
    obtain e where e: "entry_at d ref = Some e" "dict_map d k = Some (snd e)" by (rule db_keys.entry [OF r(2) h])
    define val where "val = (snd e)\<lparr>o_lru := lruclock srv\<rparr>"
    have pv: "payload val = payload (snd e)" by (simp add: val_def payload_def)
    obtain d' where d': "dictSetVal d ref val = Some d'" "dict_inv (dbDictType seed) d'" "dictSize d' = dictSize d"
      "\<forall>k'. dict_map d' k' = (if k' = k then Some val else dict_map d k')" by (rule db_keys.set_val [OF r(2) h, where v = val])
    have "db_rel seed (db\<lparr>db_dict := d'\<rparr>) V E i"
      by (rule db_relI) (use D(1-3,5,6) r(2-4) d' e pv in \<open>simp_all add: D(4)\<close>)
    then show thesis
      using that [of "Some val" "db\<lparr>db_dict := d'\<rparr>"] that [of "Some (snd e)" "db\<lparr>db_dict := d\<rparr>"] R r(1,3) D(4) [of k] Some e d'(1) pv
      by (cases "child_running srv") (simp_all add: lookupKey_def val_def)
  qed
qed

lemma dbExists_rel:
  assumes "db_rel seed db V E i"
  obtains db' where "dbExists srv db k = Some (V k \<noteq> None, db')" "db_rel seed db' V E i"
proof -
  note D = db_relD [OF assms]
  obtain r d where r: "dictFind (dictenv srv) (db_dict db) k = Some (r, d)" "dict_inv (dbDictType seed) d" "dict_map d = dict_map (db_dict db)"
    "dictSize d = dictSize (db_dict db)" "r = None \<longleftrightarrow> dict_map (db_dict db) k = None"
    by (rule db_keys.find [OF D(1), where env = "dictenv srv" and k = k])
  have "db_rel seed (db\<lparr>db_dict := d\<rparr>) V E i" by (rule db_relI) (use D r in simp_all)
  then show thesis using that [of "db\<lparr>db_dict := d\<rparr>"] r(1,5) by (simp add: dbExists_def D(4) del: not_None_eq)
qed

lemma dbAdd_rel:
  assumes "db_rel seed db V E i" "V k = None" "card (dom V) \<le> MAX_ENTRIES"
  obtains srv' db' where "dbAdd srv db k val = Some (srv', db')" "db_rel seed db' (V(k \<mapsto> payload val)) E i"
    "srv' = (if o_type val = REDIS_LIST then srv\<lparr>ready_lists := ready_lists srv @ [(i, k)]\<rparr> else srv)"
proof -
  note D = db_relD [OF assms(1)]
  have "dictSize (db_dict db) \<le> MAX_ENTRIES" using db_rel_sizes(1) [OF assms(1)] assms(3) by simp
  then obtain st d where
    d: "dictAdd (dictenv srv) val (db_dict db) k val = Some (st, d)" "dict_inv (dbDictType seed) d" "st = DICT_OK \<longleftrightarrow> dict_map (db_dict db) k = None"
    "dictSize d = dictSize (db_dict db) + (if st = DICT_OK then 1 else 0)"
    "\<forall>k'. dict_map d k' = (if st = DICT_OK \<and> k' = k then Some val else dict_map (db_dict db) k')"
    by (rule db_keys.add [OF D(1), where env = "dictenv srv" and w = val and k = k and v = val])
  have st: "st = DICT_OK" using d(3) assms(2) D(4) [of k] by simp
  have "db_rel seed (db\<lparr>db_dict := d\<rparr>) (V(k \<mapsto> payload val)) E i"
    by (rule db_relI) (use D(1-3,5,6) d st in \<open>simp_all add: D(4) subset_insertI2\<close>)
  then show thesis using that [OF _ _ refl] d(1) st D(6) by (simp add: dbAdd_def)
qed

lemma dbOverwrite_rel:
  assumes "db_rel seed db V E i" "V k \<noteq> None" "card (dom V) \<le> MAX_ENTRIES"
  obtains db' where "dbOverwrite srv db k val = Some db'" "db_rel seed db' (V(k \<mapsto> payload val)) E i"
proof -
  note D = db_relD [OF assms(1)]
  obtain r d where r: "dictFind (dictenv srv) (db_dict db) k = Some (r, d)" "dict_inv (dbDictType seed) d" "dict_map d = dict_map (db_dict db)"
    "dictSize d = dictSize (db_dict db)" "r = None \<longleftrightarrow> dict_map (db_dict db) k = None"
    by (rule db_keys.find [OF D(1), where env = "dictenv srv" and k = k])
  have k: "dict_map d k \<noteq> None" "r \<noteq> None" using assms(2) D(4) [of k] r(3,5) by auto
  have "dictSize d \<le> MAX_ENTRIES" using db_rel_sizes(1) [OF assms(1)] assms(3) r(4) by simp
  then obtain m old d' where d': "dictReplace (dictenv srv) val d k val = Some (m, old, d')" "dict_inv (dbDictType seed) d'"
    "\<forall>k'. dict_map d' k' = (if k' = k then Some val else dict_map d k')"
    by (rule db_keys.replace [OF r(2), where env = "dictenv srv" and w = val and k = k and v = val])
  have "db_rel seed (db\<lparr>db_dict := d'\<rparr>) (V(k \<mapsto> payload val)) E i"
    by (rule db_relI) (use D(1-3,5,6) r(2-4) d' k(1) in \<open>simp_all add: D(4) subset_insertI2\<close>)
  then show thesis using that [of "db\<lparr>db_dict := d'\<rparr>"] r(1) d'(1) k(2) by (simp add: dbOverwrite_def)
qed

lemma dbDelete_rel:
  assumes "db_rel seed db V E i"
  obtains db' where "dbDelete srv db k = Some (V k \<noteq> None, db')" "db_rel seed db' (V(k := None)) (E(k := None)) i"
proof -
  note D = db_relD [OF assms]
  obtain db1 where 1: "(if dictSize (db_expires db) > 0 then do {
       (_, _, e) \<leftarrow> dictDelete (dictenv srv) (db_expires db) k; Some (db\<lparr>db_expires := e\<rparr>) } else Some db) = Some db1"
    "db_dict db1 = db_dict db" "db_id db1 = i" "dict_inv (keyptrDictType seed) (db_expires db1)"
    "\<And>k'. dict_map (db_expires db1) k' = (E(k := None)) k'"
  proof (cases "dictSize (db_expires db) > 0")
    case True
    obtain st es e where e: "dictDelete (dictenv srv) (db_expires db) k = Some (st, es, e)" "dict_inv (keyptrDictType seed) e"
      "dictSize e + (if st = DICT_OK then 1 else 0) = dictSize (db_expires db)"
      "\<forall>k'. dict_map e k' = (if k' = k then None else dict_map (db_expires db) k')"
      by (rule expire_keys.delete [OF D(2), where env = "dictenv srv" and k = k])
    then show thesis using that [of "db\<lparr>db_expires := e\<rparr>"] True D by simp
  next
    case False
    then have "dict_entries (db_expires db) = []" using dictSize_entries [of "db_expires db"] D(2) by (simp add: dict_inv_def)
    then have "E = Map.empty" using D(5) by (simp add: dict_map_def fun_eq_iff)
    then show thesis using that [of db] False D by simp
  qed
  obtain st es d where d: "dictDelete (dictenv srv) (db_dict db) k = Some (st, es, d)" "dict_inv (dbDictType seed) d"
    "st = DICT_OK \<longleftrightarrow> dict_map (db_dict db) k \<noteq> None" "dictSize d + (if st = DICT_OK then 1 else 0) = dictSize (db_dict db)"
    "\<forall>k'. dict_map d k' = (if k' = k then None else dict_map (db_dict db) k')"
    by (rule db_keys.delete [OF D(1), where env = "dictenv srv" and k = k])
  have "db_rel seed (db1\<lparr>db_dict := d\<rparr>) (V(k := None)) (E(k := None)) i"
    by (rule db_relI) (use D(3) 1(3-5) d in \<open>auto simp: D(4) [symmetric]\<close>)
  moreover have "dbDelete srv db k = Some (V k \<noteq> None, db1\<lparr>db_dict := d\<rparr>)"
    unfolding dbDelete_def 1(1) using d(1,3) 1(2) D(4) [of k] by simp
  ultimately show thesis using that by blast
qed

lemma getExpire_rel:
  assumes "db_rel seed db V E i"
  obtains db' where "getExpire srv db k = Some (case E k of None \<Rightarrow> -1 | Some t \<Rightarrow> t, db')" "db_rel seed db' V E i"
proof -
  note D = db_relD [OF assms]
  show thesis
  proof (cases "dictSize (db_expires db) = 0")
    case True
    then have "dom E = {}" using db_rel_sizes [OF assms] D(3) finite_subset by fastforce
    then show thesis using that [of db] assms True by (simp add: getExpire_def)
  next
    case False
    obtain re e where e: "dictFind (dictenv srv) (db_expires db) k = Some (re, e)" "dict_inv (keyptrDictType seed) e" "dict_map e = dict_map (db_expires db)"
      "re = None \<longleftrightarrow> dict_map (db_expires db) k = None" "\<forall>ref. re = Some ref \<longrightarrow> holds e ref k"
      by (rule expire_keys.find [OF D(2), where env = "dictenv srv" and k = k])
    show thesis
    proof (cases re)
      case None
      have "db_rel seed (db\<lparr>db_expires := e\<rparr>) V E i" by (rule db_relI) (use D e in simp_all)
      then show thesis using that [of "db\<lparr>db_expires := e\<rparr>"] False None e(1,4) D(5) by (simp add: getExpire_def)
    next
      case (Some ref)
      obtain x where x: "entry_at e ref = Some x" "dict_map e k = Some (snd x)"
        by (rule expire_keys.entry [OF e(2), of ref k]) (use e(5) Some in simp_all)
      then have E: "E k = Some (snd x)" using e(3) D(5) by simp
      then have "V k \<noteq> None" using D(3) by blast
      moreover obtain r d where r: "dictFind (dictenv srv) (db_dict db) k = Some (r, d)" "dict_inv (dbDictType seed) d"
        "dict_map d = dict_map (db_dict db)" "r = None \<longleftrightarrow> dict_map (db_dict db) k = None"
        by (rule db_keys.find [OF D(1), where env = "dictenv srv" and k = k])
      ultimately have "r \<noteq> None" using D(4) [of k] by auto
      moreover have "db_rel seed (db\<lparr>db_dict := d, db_expires := e\<rparr>) V E i" by (rule db_relI) (use D e r in simp_all)
      ultimately show thesis using that [of "db\<lparr>db_dict := d, db_expires := e\<rparr>"] False Some e(1) r(1) x(1) E by (simp add: getExpire_def)
    qed
  qed
qed

lemma removeExpire_rel:
  assumes "db_rel seed db V E i" "V k \<noteq> None"
  obtains db' where "removeExpire srv db k = Some (E k \<noteq> None, db')" "db_rel seed db' V (E(k := None)) i"
proof -
  note D = db_relD [OF assms(1)]
  obtain r d where r: "dictFind (dictenv srv) (db_dict db) k = Some (r, d)" "dict_inv (dbDictType seed) d"
    "dict_map d = dict_map (db_dict db)" "r = None \<longleftrightarrow> dict_map (db_dict db) k = None"
    by (rule db_keys.find [OF D(1), where env = "dictenv srv" and k = k])
  then have "r \<noteq> None" using D(4) [of k] assms(2) by auto
  obtain st es e where e: "dictDelete (dictenv srv) (db_expires db) k = Some (st, es, e)" "dict_inv (keyptrDictType seed) e"
    "st = DICT_OK \<longleftrightarrow> dict_map (db_expires db) k \<noteq> None" "\<forall>k'. dict_map e k' = (if k' = k then None else dict_map (db_expires db) k')"
    by (rule expire_keys.delete [OF D(2), where env = "dictenv srv" and k = k])
  have "db_rel seed (db\<lparr>db_dict := d, db_expires := e\<rparr>) V (E(k := None)) i"
    by (rule db_relI) (use D(1-3,5,6) e r in \<open>auto simp: D(4)\<close>)
  then show thesis using that [of "db\<lparr>db_dict := d, db_expires := e\<rparr>"] \<open>r \<noteq> None\<close> r(1) e(1,3) D(5) by (simp add: removeExpire_def)
qed

lemma removeExpire_missing:
  assumes "db_rel seed db V E i" "V k = None"
  shows "removeExpire srv db k = None"
proof -
  note D = db_relD [OF assms(1)]
  obtain r d where r: "dictFind (dictenv srv) (db_dict db) k = Some (r, d)" "r = None \<longleftrightarrow> dict_map (db_dict db) k = None"
    by (rule db_keys.find [OF D(1), where env = "dictenv srv" and k = k])
  then have "r = None" using D(4) [of k] assms(2) by auto
  then show ?thesis using r(1) by (simp add: removeExpire_def)
qed

lemma setExpire_rel:
  assumes "db_rel seed db V E i" "V k \<noteq> None" "card (dom V) \<le> MAX_ENTRIES"
  obtains db' where "setExpire srv db k t = Some db'" "db_rel seed db' V (E(k \<mapsto> t)) i"
proof -
  note D = db_relD [OF assms(1)]
  obtain r d where r: "dictFind (dictenv srv) (db_dict db) k = Some (r, d)" "dict_inv (dbDictType seed) d"
    "dict_map d = dict_map (db_dict db)" "r = None \<longleftrightarrow> dict_map (db_dict db) k = None" "\<forall>ref. r = Some ref \<longrightarrow> holds d ref k"
    by (rule db_keys.find [OF D(1), where env = "dictenv srv" and k = k])
  obtain kref where kref: "r = Some kref" "holds d kref k" using r(4,5) D(4) [of k] assms(2) by (cases r) auto
  obtain kv where kv: "entry_at d kref = Some kv" "fst kv = k" by (rule db_keys.entry [OF r(2) kref(2)])
  have "dictSize (db_expires db) \<le> MAX_ENTRIES" using db_rel_sizes [OF assms(1)] assms(3) by simp
  then obtain ref e where e: "dictReplaceRaw (dictenv srv) t (db_expires db) k = Some (Some ref, e)" "dict_inv (keyptrDictType seed) e" "holds e ref k"
    "\<forall>k'. k' \<noteq> k \<longrightarrow> dict_map e k' = dict_map (db_expires db) k'"
    by (rule expire_keys.replace_raw [OF D(2), where env = "dictenv srv" and w = t and k = k])
  obtain e' where e': "dictSetVal e ref t = Some e'" "dict_inv (keyptrDictType seed) e'" "\<forall>k'. dict_map e' k' = (if k' = k then Some t else dict_map e k')"
    by (rule expire_keys.set_val [OF e(2,3), where v = t])
  have "db_rel seed (db\<lparr>db_dict := d, db_expires := e'\<rparr>) V (E(k \<mapsto> t)) i"
    by (rule db_relI) (use D(1-3,5,6) e e' r assms(2) in \<open>auto simp: D(4)\<close>)
  then show thesis using that r(1) kref(1) kv e(1) e'(1) by (simp add: setExpire_def)
qed

section \<open>Expiry\<close>

text \<open>
  A key has expired when its time is past: \<open>key_expired\<close>. A master then deletes it, counts it,
  sends a DEL to the append only file and the replicas and notifies the event; a replica
  keeps it until the master's DEL arrives.
\<close>

definition key_expired :: "int \<Rightarrow> server \<Rightarrow> expiries \<Rightarrow> byte list \<Rightarrow> bool" where
  "key_expired now srv E k =
     (case E k of None \<Rightarrow> False
      | Some t \<Rightarrow> 0 \<le> t \<and> \<not> loading srv \<and> t < (if lua_caller srv then lua_time_start srv else now))"

definition evicts :: "int \<Rightarrow> server \<Rightarrow> expiries \<Rightarrow> byte list \<Rightarrow> bool" where
  "evicts now srv E k \<longleftrightarrow> key_expired now srv E k \<and> \<not> masterhost srv"

definition drop_expired :: "int \<Rightarrow> server \<Rightarrow> expiries \<Rightarrow> byte list \<Rightarrow> (byte list \<rightharpoonup> 'a) \<Rightarrow> (byte list \<rightharpoonup> 'a)" where
  "drop_expired now srv E k M = (if evicts now srv E k then M(k := None) else M)"

definition log_expired :: "int \<Rightarrow> server \<Rightarrow> expiries \<Rightarrow> int \<Rightarrow> byte list \<Rightarrow> server" where
  "log_expired now srv E i k =
     (if evicts now srv E k then
        srv\<lparr>stat_expiredkeys := stat_expiredkeys srv + 1,
            aof_feed := aof_feed srv @ (if aof srv \<noteq> AOF_OFF then [(i, [bytes_of ''DEL'', k])] else []),
            slaves_feed := slaves_feed srv @ [(i, [bytes_of ''DEL'', k])],
            events := events srv @ [(''expired'', k, i)]\<rparr>
      else srv)"

lemma drop_expired_dom: "dom (drop_expired now srv E k M) \<subseteq> dom M"
  by (auto simp: drop_expired_def)

lemma card_drop_expired: "finite (dom M) \<Longrightarrow> card (dom (drop_expired now srv E k M)) \<le> card (dom M)"
  by (rule card_mono [OF _ drop_expired_dom])

lemma expireIfNeeded_rel:
  assumes "db_rel seed db V E i"
  obtains db' where "expireIfNeeded now srv db k = Some (key_expired now srv E k, log_expired now srv E i k, db')"
    "db_rel seed db' (drop_expired now srv E k V) (drop_expired now srv E k E) i"
proof -
  obtain db1 where 1: "getExpire srv db k = Some (case E k of None \<Rightarrow> -1 | Some t \<Rightarrow> t, db1)" "db_rel seed db1 V E i"
    by (rule getExpire_rel [OF assms])
  have i: "db_id db1 = i" by (rule db_relD(6) [OF 1(2)])
  show thesis
  proof (cases "evicts now srv E k")
    case False
    then show thesis using that [of db1] 1
      by (cases "E k") (auto simp: expireIfNeeded_def evicts_def key_expired_def log_expired_def drop_expired_def Let_def)
  next
    case True
    then obtain t where t: "E k = Some t" "0 \<le> t" "\<not> loading srv" "\<not> masterhost srv" "t < (if lua_caller srv then lua_time_start srv else now)"
      by (auto simp: evicts_def key_expired_def split: option.splits)
    then have "V k \<noteq> None" using db_relD(3) [OF assms] by blast
    define srv' where "srv' = notifyKeyspaceEvent (propagateExpire (srv\<lparr>stat_expiredkeys := stat_expiredkeys srv + 1\<rparr>) db1 k) ''expired'' k i"
    have srv': "srv' = log_expired now srv E i k"
      using True by (simp add: srv'_def log_expired_def notifyKeyspaceEvent_def propagateExpire_def Let_def i)
    obtain db2 where 2: "dbDelete srv' db1 k = Some (V k \<noteq> None, db2)" "db_rel seed db2 (V(k := None)) (E(k := None)) i"
      by (rule dbDelete_rel [OF 1(2)])
    have "expireIfNeeded now srv db k = Some (True, srv', db2)"
      using t 1(1) 2(1) \<open>V k \<noteq> None\<close> by (simp add: expireIfNeeded_def Let_def i srv'_def)
    then show thesis using that [of db2] 2(2) True srv' by (simp add: drop_expired_def evicts_def)
  qed
qed

section \<open>Lookups and writes\<close>

lemma map_option_None_eq: "map_option f x = y \<Longrightarrow> y = None \<longleftrightarrow> x = None"
  by auto

lemma lookupKeyWrite_rel:
  assumes "db_rel seed db V E i"
  obtains val db' where "lookupKeyWrite now srv db k = Some (val, log_expired now srv E i k, db')"
    "map_option payload val = drop_expired now srv E k V k"
    "db_rel seed db' (drop_expired now srv E k V) (drop_expired now srv E k E) i"
proof -
  obtain db1 where 1: "expireIfNeeded now srv db k = Some (key_expired now srv E k, log_expired now srv E i k, db1)"
    "db_rel seed db1 (drop_expired now srv E k V) (drop_expired now srv E k E) i" by (rule expireIfNeeded_rel [OF assms])
  obtain val db2 where "lookupKey (log_expired now srv E i k) db1 k = Some (val, db2)" "map_option payload val = drop_expired now srv E k V k"
    "db_rel seed db2 (drop_expired now srv E k V) (drop_expired now srv E k E) i" by (rule lookupKey_rel [OF 1(2)])
  then show thesis using that 1(1) by (simp add: lookupKeyWrite_def)
qed

definition count_lookup :: "bool \<Rightarrow> server \<Rightarrow> server" where
  "count_lookup hit srv = (if hit then srv\<lparr>stat_keyspace_hits := stat_keyspace_hits srv + 1\<rparr>
                           else srv\<lparr>stat_keyspace_misses := stat_keyspace_misses srv + 1\<rparr>)"

lemma lookupKeyRead_Write:
  "lookupKeyRead now srv db k = map_option (\<lambda>(val, srv, db). (val, count_lookup (val \<noteq> None) srv, db)) (lookupKeyWrite now srv db k)"
  by (auto simp: lookupKeyRead_def lookupKeyWrite_def count_lookup_def Let_def split: Option.bind_splits)

lemma lookupKeyRead_rel:
  assumes "db_rel seed db V E i"
  obtains val db' where "lookupKeyRead now srv db k =
      Some (val, count_lookup (drop_expired now srv E k V k \<noteq> None) (log_expired now srv E i k), db')"
    "map_option payload val = drop_expired now srv E k V k"
    "db_rel seed db' (drop_expired now srv E k V) (drop_expired now srv E k E) i"
proof -
  obtain val db' where 1: "lookupKeyWrite now srv db k = Some (val, log_expired now srv E i k, db')"
    "map_option payload val = drop_expired now srv E k V k"
    "db_rel seed db' (drop_expired now srv E k V) (drop_expired now srv E k E) i" by (rule lookupKeyWrite_rel [OF assms])
  have "val \<noteq> None \<longleftrightarrow> drop_expired now srv E k V k \<noteq> None" using map_option_None_eq [OF 1(2)] by simp
  then show thesis using that [OF _ 1(2,3)] 1(1) by (simp add: lookupKeyRead_Write)
qed

definition log_added :: "server \<Rightarrow> int \<Rightarrow> byte list \<Rightarrow> 'v robj \<Rightarrow> server" where
  "log_added srv i k val = (if o_type val = REDIS_LIST then srv\<lparr>ready_lists := ready_lists srv @ [(i, k)]\<rparr> else srv)"

definition log_touched :: "server \<Rightarrow> int \<Rightarrow> byte list \<Rightarrow> server" where
  "log_touched srv i k = srv\<lparr>touched := touched srv @ [(i, k)]\<rparr>"

lemma signalModifiedKey_log: "db_id db = i \<Longrightarrow> signalModifiedKey srv db k = log_touched srv i k"
  by (simp add: signalModifiedKey_def log_touched_def)

lemma setKey_rel:
  assumes "db_rel seed db V E i" "card (dom V) \<le> MAX_ENTRIES"
  obtains db' where "setKey now srv db k val =
      Some (log_touched (if drop_expired now srv E k V k = None then log_added (log_expired now srv E i k) i k val
                         else log_expired now srv E i k) i k, db')"
    "db_rel seed db' (V(k \<mapsto> payload val)) (E(k := None)) i"
proof -
  define V1 where "V1 = drop_expired now srv E k V"
  define E1 where "E1 = drop_expired now srv E k E"
  define s1 where "s1 = log_expired now srv E i k"
  note defs = V1_def E1_def s1_def
  obtain o1 db1 where 1: "lookupKeyWrite now srv db k = Some (o1, s1, db1)" "map_option payload o1 = V1 k" "db_rel seed db1 V1 E1 i"
    by (rule lookupKeyWrite_rel [OF assms(1), where now = now and srv = srv and k = k, folded defs])
  have c: "card (dom V1) \<le> MAX_ENTRIES"
    using card_drop_expired [OF db_rel_sizes(2) [OF assms(1)]] assms(2) order_trans unfolding V1_def by blast
  have V2: "V1(k \<mapsto> payload val) = V(k \<mapsto> payload val)" and E2: "E1(k := None) = E(k := None)"
    by (auto simp: V1_def E1_def drop_expired_def)
  obtain s2 db2 where 2: "(if o1 = None then dbAdd s1 db1 k val else do { db \<leftarrow> dbOverwrite s1 db1 k val; Some (s1, db) }) = Some (s2, db2)"
    "db_rel seed db2 (V(k \<mapsto> payload val)) E1 i" "s2 = (if V1 k = None then log_added s1 i k val else s1)"
  proof (cases "o1 = None")
    case True
    then have "V1 k = None" using 1(2) by simp
    then obtain s2 db2 where "dbAdd s1 db1 k val = Some (s2, db2)" "db_rel seed db2 (V1(k \<mapsto> payload val)) E1 i"
       "s2 = (if o_type val = REDIS_LIST then s1\<lparr>ready_lists := ready_lists s1 @ [(i, k)]\<rparr> else s1)"
      by (rule dbAdd_rel [OF 1(3) _ c, where k = k and srv = s1 and val = val])
    then show thesis using that [of s2 db2] True \<open>V1 k = None\<close> V2 by (simp add: log_added_def)
  next
    case False
    then have k: "V1 k \<noteq> None" using map_option_None_eq [OF 1(2)] by simp
    then obtain db2 where "dbOverwrite s1 db1 k val = Some db2" "db_rel seed db2 (V1(k \<mapsto> payload val)) E1 i"
      by (rule dbOverwrite_rel [OF 1(3) _ c, where k = k and srv = s1 and val = val])
    then show thesis using that [of s1 db2] False k V2 by simp
  qed
  obtain db3 where 3: "removeExpire s2 db2 k = Some (E1 k \<noteq> None, db3)" "db_rel seed db3 (V(k \<mapsto> payload val)) (E1(k := None)) i"
    by (rule removeExpire_rel [OF 2(2), where k = k]) simp_all
  have "setKey now srv db k val = Some (log_touched s2 i k, db3)"
    using 1(1) 2(1) 3(1) signalModifiedKey_log [OF db_relD(6) [OF 3(2)], of s2 k] by (simp add: setKey_def)
  then show thesis using that [of db3] 3(2) 2(3) E2 unfolding defs by simp
qed

end
