(* ===== verification/Keyspace_Calls.thy ===== *)
theory Keyspace_Calls
  imports Keyspace_Spec
begin

text \<open>
  The C-level interface of the key space as the commands use it: sequences of calls of
  \<^verbatim>\<open>db.c\<close>, run on the dictionaries and on two finite maps. Both give the same results, the
  same failures of assertions and the same effects on the server.
\<close>

section \<open>Calls\<close>

datatype 'v db_op =
    LookupRead int "byte list"
  | LookupWrite int "byte list"
  | SetKey int "byte list" "'v robj"
  | Add "byte list" "'v robj"
  | Overwrite "byte list" "'v robj"
  | Exists "byte list"
  | Delete "byte list"
  | SetExpire "byte list" int
  | GetExpire "byte list"
  | RemoveExpire "byte list"
  | ExpireIfNeeded int "byte list"

datatype 'v db_result = Value "(obj_type \<times> 'v) option" | Flag bool | Time int | Done

fun db_call :: "'v db_op \<Rightarrow> server \<times> 'v redisDb \<Rightarrow> ('v db_result \<times> server \<times> 'v redisDb) option" where
  "db_call (LookupRead now k) (srv, db) =
     do { (val, srv, db) \<leftarrow> lookupKeyRead now srv db k; Some (Value (map_option payload val), srv, db) }"
| "db_call (LookupWrite now k) (srv, db) =
     do { (val, srv, db) \<leftarrow> lookupKeyWrite now srv db k; Some (Value (map_option payload val), srv, db) }"
| "db_call (SetKey now k val) (srv, db) = do { (srv, db) \<leftarrow> setKey now srv db k val; Some (Done, srv, db) }"
| "db_call (Add k val) (srv, db) = do { (srv, db) \<leftarrow> dbAdd srv db k val; Some (Done, srv, db) }"
| "db_call (Overwrite k val) (srv, db) = do { db \<leftarrow> dbOverwrite srv db k val; Some (Done, srv, db) }"
| "db_call (Exists k) (srv, db) = do { (r, db) \<leftarrow> dbExists srv db k; Some (Flag r, srv, db) }"
| "db_call (Delete k) (srv, db) = do { (r, db) \<leftarrow> dbDelete srv db k; Some (Flag r, srv, db) }"
| "db_call (SetExpire k t) (srv, db) = do { db \<leftarrow> setExpire srv db k t; Some (Done, srv, db) }"
| "db_call (GetExpire k) (srv, db) = do { (t, db) \<leftarrow> getExpire srv db k; Some (Time t, srv, db) }"
| "db_call (RemoveExpire k) (srv, db) = do { (r, db) \<leftarrow> removeExpire srv db k; Some (Flag r, srv, db) }"
| "db_call (ExpireIfNeeded now k) (srv, db) = do { (r, srv, db) \<leftarrow> expireIfNeeded now srv db k; Some (Flag r, srv, db) }"

text \<open>The specification: a map of values and a map of times.\<close>

fun spec_call :: "int \<Rightarrow> 'v db_op \<Rightarrow> server \<times> 'v valmap \<times> expiries \<Rightarrow> ('v db_result \<times> server \<times> 'v valmap \<times> expiries) option" where
  "spec_call i (LookupRead now k) (srv, V, E) =
     (let V' = drop_expired now srv E k V in
      Some (Value (V' k), count_lookup (V' k \<noteq> None) (log_expired now srv E i k), V', drop_expired now srv E k E))"
| "spec_call i (LookupWrite now k) (srv, V, E) =
     (let V' = drop_expired now srv E k V in Some (Value (V' k), log_expired now srv E i k, V', drop_expired now srv E k E))"
| "spec_call i (SetKey now k val) (srv, V, E) =
     (let srv' = log_expired now srv E i k in
      Some (Done, log_touched (if drop_expired now srv E k V k = None then log_added srv' i k val else srv') i k,
            V(k \<mapsto> payload val), E(k := None)))"
| "spec_call i (Add k val) (srv, V, E) =
     (if V k = None then Some (Done, log_added srv i k val, V(k \<mapsto> payload val), E) else None)"
| "spec_call i (Overwrite k val) (srv, V, E) = (if V k = None then None else Some (Done, srv, V(k \<mapsto> payload val), E))"
| "spec_call i (Exists k) (srv, V, E) = Some (Flag (V k \<noteq> None), srv, V, E)"
| "spec_call i (Delete k) (srv, V, E) = Some (Flag (V k \<noteq> None), srv, V(k := None), E(k := None))"
| "spec_call i (SetExpire k t) (srv, V, E) = (if V k = None then None else Some (Done, srv, V, E(k \<mapsto> t)))"
| "spec_call i (GetExpire k) (srv, V, E) = Some (Time (case E k of None \<Rightarrow> -1 | Some t \<Rightarrow> t), srv, V, E)"
| "spec_call i (RemoveExpire k) (srv, V, E) = (if V k = None then None else Some (Flag (E k \<noteq> None), srv, V, E(k := None)))"
| "spec_call i (ExpireIfNeeded now k) (srv, V, E) =
     Some (Flag (key_expired now srv E k), log_expired now srv E i k, drop_expired now srv E k V, drop_expired now srv E k E)"

definition call_rel :: "u32 \<Rightarrow> int \<Rightarrow> server \<times> 'v redisDb \<Rightarrow> server \<times> 'v valmap \<times> expiries \<Rightarrow> bool" where
  "call_rel seed i = (\<lambda>(srv, db) (srv', V, E). srv' = srv \<and> db_rel seed db V E i)"

definition call_keys :: "server \<times> 'v valmap \<times> expiries \<Rightarrow> nat" where
  "call_keys = (\<lambda>(srv, V, E). card (dom V))"

section \<open>Failures\<close>

lemma dictFind_missing:
  assumes "db_rel seed db V E i" "V k = None"
  obtains d where "dictFind (dictenv srv) (db_dict db) k = Some (None, d)"
proof -
  note D = db_relD [OF assms(1)]
  obtain r d where "dictFind (dictenv srv) (db_dict db) k = Some (r, d)" "r = None \<longleftrightarrow> dict_map (db_dict db) k = None"
    by (rule db_keys.find [OF D(1), where env = "dictenv srv" and k = k])
  then show thesis using that D(4) [of k] assms(2) by simp
qed

lemma missing_key_fails:
  assumes "db_rel seed db V E i" "V k = None"
  shows "dbOverwrite srv db k val = None" "setExpire srv db k t = None" "removeExpire srv db k = None"
proof -
  obtain d where d: "dictFind (dictenv srv) (db_dict db) k = Some (None, d)" by (rule dictFind_missing [OF assms])
  show "dbOverwrite srv db k val = None" "setExpire srv db k t = None" "removeExpire srv db k = None"
    using d by (simp_all add: dbOverwrite_def setExpire_def removeExpire_def)
qed

lemma present_key_add_fails:
  assumes "db_rel seed db V E i" "V k \<noteq> None" "card (dom V) \<le> MAX_ENTRIES"
  shows "dbAdd srv db k val = None"
proof -
  note D = db_relD [OF assms(1)]
  have "dictSize (db_dict db) \<le> MAX_ENTRIES" using db_rel_sizes(1) [OF assms(1)] assms(3) by simp
  then obtain st d where d: "dictAdd (dictenv srv) val (db_dict db) k val = Some (st, d)" "st = DICT_OK \<longleftrightarrow> dict_map (db_dict db) k = None"
    by (rule db_keys.add [OF D(1), where env = "dictenv srv" and w = val and k = k and v = val])
  then have "st \<noteq> DICT_OK" using assms(2) D(4) [of k] by simp
  then show ?thesis using d(1) by (simp add: dbAdd_def)
qed

section \<open>The simulation\<close>

lemma db_call_simulates:
  assumes rel: "db_rel seed db V E i" and room: "card (dom V) \<le> MAX_ENTRIES"
  shows "case spec_call i op (srv, V, E) of
      None \<Rightarrow> db_call op (srv, db) = None
    | Some (r, srv', V', E') \<Rightarrow> \<exists>db'. db_call op (srv, db) = Some (r, srv', db') \<and> db_rel seed db' V' E' i"
proof (cases op)
  case (LookupRead now k)
  show ?thesis by (rule lookupKeyRead_rel [OF rel, of now srv k]) (simp add: LookupRead Let_def)
next
  case (LookupWrite now k)
  show ?thesis by (rule lookupKeyWrite_rel [OF rel, of now srv k]) (simp add: LookupWrite Let_def)
next
  case (SetKey now k val)
  show ?thesis by (rule setKey_rel [OF rel room, of now srv k val]) (simp add: SetKey Let_def)
next
  case (Add k val)
  show ?thesis
  proof (cases "V k = None")
    case True
    show ?thesis by (rule dbAdd_rel [OF rel True room, of srv val]) (simp add: Add True log_added_def)
  next
    case False
    show ?thesis using present_key_add_fails [OF rel False room] False by (simp add: Add)
  qed
next
  case (Overwrite k val)
  show ?thesis
  proof (cases "V k = None")
    case False
    show ?thesis by (rule dbOverwrite_rel [OF rel False room, of srv val]) (simp add: Overwrite False)
  qed (use Overwrite missing_key_fails [OF rel] in simp)
next
  case (Exists k)
  show ?thesis by (rule dbExists_rel [OF rel, of srv k]) (simp add: Exists)
next
  case (Delete k)
  show ?thesis by (rule dbDelete_rel [OF rel, of srv k]) (simp add: Delete)
next
  case (SetExpire k t)
  show ?thesis
  proof (cases "V k = None")
    case False
    show ?thesis by (rule setExpire_rel [OF rel False room, of srv t]) (simp add: SetExpire False)
  qed (use SetExpire missing_key_fails [OF rel] in simp)
next
  case (GetExpire k)
  show ?thesis by (rule getExpire_rel [OF rel, of srv k]) (simp add: GetExpire)
next
  case (RemoveExpire k)
  show ?thesis
  proof (cases "V k = None")
    case False
    show ?thesis by (rule removeExpire_rel [OF rel False, of srv]) (simp add: RemoveExpire False)
  qed (use RemoveExpire missing_key_fails [OF rel] in simp)
next
  case (ExpireIfNeeded now k)
  show ?thesis by (rule expireIfNeeded_rel [OF rel, of now srv k]) (simp add: ExpireIfNeeded)
qed

lemma spec_call_keys:
  assumes "finite (dom V)" "spec_call i op (srv, V, E) = Some (r, srv', V', E')"
  shows "card (dom V') \<le> Suc (card (dom V))"
proof -
  have put: "card (insert k (dom V)) \<le> Suc (card (dom V))" for k using assms(1) by (simp add: card_insert_if)
  have del: "card (dom V - {k}) \<le> Suc (card (dom V))" for k using card_Diff1_le [of "dom V" k] by simp
  have drop: "card (dom (drop_expired now srv E k V)) \<le> Suc (card (dom V))" for now k
    using card_drop_expired [OF assms(1)] le_SucI by blast
  show ?thesis using assms(2) by (cases op) (auto simp: Let_def put del drop split: if_splits)
qed

interpretation keyspace: simulation db_call "spec_call i" "call_rel seed i" call_keys MAX_ENTRIES for seed i
proof unfold_locales
  fix s :: "server \<times> 'a redisDb" and a op
  assume A: "call_rel seed i s a" "call_keys a < MAX_ENTRIES"
  obtain srv db V E where sa: "s = (srv, db)" "a = (srv, V, E)" and rel: "db_rel seed db V E i"
    using A(1) by (cases s, cases a) (auto simp: call_rel_def)
  have room: "card (dom V) \<le> MAX_ENTRIES" using A(2) sa by (simp add: call_keys_def)
  show "case spec_call i op a of None \<Rightarrow> db_call op s = None
      | Some (r, a') \<Rightarrow> \<exists>s'. db_call op s = Some (r, s') \<and> call_rel seed i s' a'"
    using db_call_simulates [OF rel room, of op srv] unfolding sa
    by (cases "spec_call i op (srv, V, E)") (auto simp: call_rel_def)
next
  fix s :: "server \<times> 'a redisDb" and a op r a'
  assume A: "call_rel seed i s a" "spec_call i op a = Some (r, a')"
  obtain srv db V E srv' V' E' where sa: "a = (srv, V, E)" "a' = (srv', V', E')" and rel: "db_rel seed db V E i"
    using A(1) by (cases s, cases a, cases a') (auto simp: call_rel_def)
  show "call_keys a' \<le> call_keys a + 1"
    using spec_call_keys [OF db_rel_sizes(2) [OF rel]] A(2) unfolding sa by (simp add: call_keys_def)
qed

section \<open>The key space refines two maps\<close>

definition newDb :: "u32 \<Rightarrow> int \<Rightarrow> 'v redisDb" where
  "newDb seed i = \<lparr>db_dict = dictCreate (dbDictType seed), db_expires = dictCreate (keyptrDictType seed), db_id = i\<rparr>"

lemma newDb_rel: "db_rel seed (newDb seed i) Map.empty Map.empty i"
  by (rule db_relI) (simp_all add: newDb_def db_keys.create expire_keys.create)

text \<open>
  C1: any sequence of at most \<open>2 ^ 30\<close> calls of the key space, on a fresh database, with the
  clock and the state of the server (loading, replica, inside a script, child running, growing
  tables) as they may be, gives what the same calls give on a map of values and a map of
  expiry times: the same results, the same commands sent to the append only file and the
  replicas, the same events, counters and watched keys touched, and the same failed
  assertions. The invariant of the two dictionaries is kept.
\<close>

theorem keyspace_refines_maps:
  assumes "length ops \<le> MAX_ENTRIES"
  shows "case run_calls (spec_call i) ops (srv, Map.empty, Map.empty) of
      None \<Rightarrow> run_calls db_call ops (srv, newDb seed i) = None
    | Some (rs, srv', V, E) \<Rightarrow> \<exists>db. run_calls db_call ops (srv, newDb seed i) = Some (rs, srv', db) \<and> db_rel seed db V E i"
proof -
  have "call_rel seed i (srv, newDb seed i) (srv, Map.empty, Map.empty)" by (simp add: call_rel_def newDb_rel)
  from keyspace.runs [OF this, of ops] assms show ?thesis
    by (auto simp: call_keys_def call_rel_def split: option.splits prod.splits)
qed

definition ex_server :: server where
  "ex_server = \<lparr>dictenv = ex_env, loading = False, masterhost = False, lua_caller = False, lua_time_start = 0,
     child_running = False, lruclock = 7, stat_keyspace_hits = 0, stat_keyspace_misses = 0, stat_expiredkeys = 0,
     dirty = 0, aof = AOF_ON, aof_feed = [], slaves_feed = [], events = [], touched = [], flushed = [], ready_lists = []\<rparr>"

definition ex_ops :: "int db_op list" where
  "ex_ops = [SetKey 10 [97] \<lparr>o_type = REDIS_STRING, o_lru = 0, o_ptr = 5\<rparr>, SetExpire [97] 20,
     LookupRead 15 [97], LookupRead 30 [97], GetExpire [97]]"

lemma ex_ops_length: "length ex_ops \<le> MAX_ENTRIES"
  by (simp add: ex_ops_def)

lemma ex_ops_spec:
  "\<exists>srv'. run_calls (spec_call 0) ex_ops (ex_server, Map.empty, Map.empty)
     = Some ([Done, Done, Value (Some (REDIS_STRING, 5)), Value None, Time (-1)], srv', Map.empty, Map.empty)
     \<and> slaves_feed srv' = [(0, [bytes_of ''DEL'', [97]])] \<and> stat_expiredkeys srv' = 1"
  by (simp add: ex_ops_def ex_server_def drop_expired_def evicts_def key_expired_def log_expired_def log_touched_def log_added_def
      count_lookup_def payload_def Let_def)

theorem keyspace_refines_maps_witness:
  "\<exists>srv' db. run_calls db_call ex_ops (ex_server, newDb 0 0)
       = Some ([Done, Done, Value (Some (REDIS_STRING, 5)), Value None, Time (-1)], srv', db)
     \<and> slaves_feed srv' = [(0, [bytes_of ''DEL'', [97]])] \<and> stat_expiredkeys srv' = 1 \<and> db_rel 0 db Map.empty Map.empty 0"
  using keyspace_refines_maps [OF ex_ops_length, where i = 0 and srv = ex_server and seed = 0] ex_ops_spec
  by (elim exE conjE) auto

end
