(* ===== verification/Keyspace_Commands.thy ===== *)
theory Keyspace_Commands
  imports Keyspace_Calls
begin

text \<open>
  The commands on keys of \<^verbatim>\<open>db.c\<close>, on top of the two maps: which keys and expiry times exist
  after DEL, RENAME, EXPIRE and PERSIST, what the client is told, and when the search for a
  random key ends.
\<close>

section \<open>Deleting\<close>

text \<open>A log that keeps what decides whether a key has expired.\<close>

definition same_mode :: "server \<Rightarrow> server \<Rightarrow> bool" where
  "same_mode srv srv' \<longleftrightarrow> loading srv' = loading srv \<and> masterhost srv' = masterhost srv \<and> lua_caller srv' = lua_caller srv
     \<and> lua_time_start srv' = lua_time_start srv"

lemma same_mode_evicts: "same_mode srv srv' \<Longrightarrow> evicts now srv' E k = evicts now srv E k"
  by (simp add: same_mode_def evicts_def key_expired_def split: option.splits)

lemma same_mode_trans: "same_mode a b \<Longrightarrow> same_mode b c \<Longrightarrow> same_mode a c"
  by (simp add: same_mode_def)

lemma same_mode_log [simp]:
  "same_mode srv srv" "same_mode srv (log_expired now srv E i k)" "same_mode srv (log_touched srv i k)"
  "same_mode srv (log_added srv i k val)" "same_mode srv (notifyKeyspaceEvent srv e k i)" "same_mode srv (srv\<lparr>dirty := n\<rparr>)"
  "same_mode srv (count_lookup h srv)"
  by (simp_all add: same_mode_def log_expired_def log_touched_def log_added_def notifyKeyspaceEvent_def count_lookup_def)

lemma evicts_other: "E' k = E k \<Longrightarrow> evicts now srv E' k = evicts now srv E k"
  by (simp add: evicts_def key_expired_def)

definition live :: "int \<Rightarrow> server \<Rightarrow> 'v valmap \<Rightarrow> expiries \<Rightarrow> byte list \<Rightarrow> bool" where
  "live now srv V E k \<longleftrightarrow> V k \<noteq> None \<and> \<not> evicts now srv E k"

lemma drop_expired_live: "drop_expired now srv E k V k \<noteq> None \<longleftrightarrow> live now srv V E k"
  by (simp add: drop_expired_def live_def)

lemma del_loop_rel:
  assumes "db_rel seed db V E i"
  shows "\<exists>srv' db'. del_loop now keys n srv db = Some (n + int (card {k \<in> set keys. live now srv V E k}), srv', db')
    \<and> dirty srv' = dirty srv + int (card {k \<in> set keys. live now srv V E k})
    \<and> db_rel seed db' (V |` (- set keys)) (E |` (- set keys)) i"
  using assms
proof (induction keys arbitrary: n srv db V E)
  case Nil
  then show ?case by simp
next
  case (Cons k keys)
  let ?V = "drop_expired now srv E k V" and ?E = "drop_expired now srv E k E"
  define s1 where "s1 = log_expired now srv E i k"
  obtain db1 where 1: "expireIfNeeded now srv db k = Some (key_expired now srv E k, s1, db1)" "db_rel seed db1 ?V ?E i"
    unfolding s1_def by (rule expireIfNeeded_rel [OF Cons.prems])
  obtain db2 where 2: "dbDelete s1 db1 k = Some (?V k \<noteq> None, db2)" "db_rel seed db2 (?V(k := None)) (?E(k := None)) i"
    by (rule dbDelete_rel [OF 1(2)])
  have m: "?V(k := None) = V(k := None)" "?E(k := None) = E(k := None)" by (auto simp: drop_expired_def)
  define s2 where "s2 = (if ?V k \<noteq> None then (notifyKeyspaceEvent (signalModifiedKey s1 db2 k) ''del'' k (db_id db2))\<lparr>dirty := dirty s1 + 1\<rparr> else s1)"
  define n2 where "n2 = (if ?V k \<noteq> None then n + 1 else n)"
  have mode: "same_mode srv s2" "dirty s2 = dirty srv + (if ?V k \<noteq> None then 1 else 0)"
    by (auto simp: s2_def s1_def same_mode_def log_expired_def notifyKeyspaceEvent_def signalModifiedKey_def)
  have lv: "live now s2 (V(k := None)) (E(k := None)) k' \<longleftrightarrow> k' \<noteq> k \<and> live now srv V E k'" for k'
    using same_mode_evicts [OF mode(1)] evicts_other [of "E(k := None)" k' E now srv] by (auto simp: live_def)
  from Cons.IH [OF 2(2) [unfolded m], of n2 s2, unfolded lv] obtain s3 db3 where
    3: "del_loop now keys n2 s2 db2 = Some (n2 + int (card {k' \<in> set keys. k' \<noteq> k \<and> live now srv V E k'}), s3, db3)"
       "dirty s3 = dirty s2 + int (card {k' \<in> set keys. k' \<noteq> k \<and> live now srv V E k'})"
       "db_rel seed db3 (V(k := None) |` (- set keys)) (E(k := None) |` (- set keys)) i" by blast
  have restr: "V(k := None) |` (- set keys) = V |` (- set (k # keys))" "E(k := None) |` (- set keys) = E |` (- set (k # keys))"
    by (auto simp: restrict_map_def)
  have "{k' \<in> set (k # keys). live now srv V E k'} =
      (if live now srv V E k then insert k {k' \<in> set keys. k' \<noteq> k \<and> live now srv V E k'} else {k' \<in> set keys. k' \<noteq> k \<and> live now srv V E k'})"
    by auto
  then have "int (card {k' \<in> set (k # keys). live now srv V E k'}) =
      (if ?V k \<noteq> None then 1 else 0) + int (card {k' \<in> set keys. k' \<noteq> k \<and> live now srv V E k'})"
    using drop_expired_live [of now srv E k V] by simp
  moreover have "del_loop now (k # keys) n srv db = del_loop now keys n2 s2 db2"
    using 1(1) 2(1) by (simp add: n2_def s2_def)
  ultimately show ?case using 3 mode(2) unfolding restr n2_def by (simp del: not_None_eq)
qed

text \<open>
  DEL removes every key it names, with its expiry time, and tells the client how many of
  them existed: a key named twice is counted once, and on a master a key whose time is past
  does not count. The keys it does not name keep their values and times.
\<close>

theorem del_command:
  assumes "db_rel seed db V E i"
  shows "\<exists>srv' db'. delCommand now (cmd # keys) srv db
      = Some (addReplyLongLong (int (card {k \<in> set keys. live now srv V E k})), srv', db')
    \<and> dirty srv' = dirty srv + int (card {k \<in> set keys. live now srv V E k})
    \<and> db_rel seed db' (V |` (- set keys)) (E |` (- set keys)) i"
  using del_loop_rel [OF assms, of now keys 0 srv] by (auto simp: delCommand_def)

theorem del_command_witness:
  "\<exists>srv' db'. delCommand 5 [bytes_of ''DEL'', [97], [98], [97]] ex_server (newDb 0 0 :: int redisDb)
     = Some (addReplyLongLong 0, srv', db') \<and> dirty srv' = 0 \<and> db_rel 0 db' (Map.empty |` (- {[97], [98]})) (Map.empty |` (- {[97], [98]})) 0"
  using del_command [OF newDb_rel, of 5 "bytes_of ''DEL''" "[[97], [98], [97]]" ex_server 0 0]
  by (simp add: live_def ex_server_def)

section \<open>Renaming\<close>

text \<open>Storing a value under a new key with an expiry time read from another.\<close>

lemma copy_value:
  assumes rel: "db_rel seed db V E i" and new: "V new = None" and room: "card (dom V) < MAX_ENTRIES" and t: "T \<noteq> Some (-1)"
  obtains db2 db3 where "dbAdd srv db new val = Some (log_added srv i new val, db2)"
    "(if (case T of None \<Rightarrow> -1 | Some t \<Rightarrow> t) \<noteq> -1 then setExpire (log_added srv i new val) db2 new (case T of None \<Rightarrow> -1 | Some t \<Rightarrow> t)
      else Some db2) = Some db3"
    "db_rel seed db3 (V(new \<mapsto> payload val)) (E(new := T)) i"
proof -
  have "card (dom V) \<le> MAX_ENTRIES" using room by simp
  then obtain s2 db2 where 2: "dbAdd srv db new val = Some (s2, db2)" "db_rel seed db2 (V(new \<mapsto> payload val)) E i"
    "s2 = (if o_type val = REDIS_LIST then srv\<lparr>ready_lists := ready_lists srv @ [(i, new)]\<rparr> else srv)"
    by (rule dbAdd_rel [OF rel new, where srv = srv and val = val])
  then have s2: "s2 = log_added srv i new val" by (simp add: log_added_def)
  have E: "E new = None" using new db_relD(3) [OF rel] by blast
  show thesis
  proof (cases T)
    case None
    then show thesis using that [OF 2(1) [unfolded s2]] 2(2) E by (simp add: fun_upd_idem)
  next
    case (Some x)
    have c: "card (dom (V(new \<mapsto> payload val))) \<le> MAX_ENTRIES" using room db_rel_sizes(2) [OF rel] new by (simp add: card_insert_if)
    have k: "(V(new \<mapsto> payload val)) new \<noteq> None" by simp
    obtain db3 where "setExpire (log_added srv i new val) db2 new x = Some db3" "db_rel seed db3 (V(new \<mapsto> payload val)) (E(new \<mapsto> x)) i"
      by (rule setExpire_rel [OF 2(2) k c])
    then show thesis using that [OF 2(1) [unfolded s2]] Some t by simp
  qed
qed

lemma drop_expired_maps:
  assumes "live now srv V E key"
  shows "drop_expired now srv E key V = V" "drop_expired now srv E key E = E" "log_expired now srv E i key = srv"
  using assms by (simp_all add: live_def drop_expired_def log_expired_def)

lemma rename_rel:
  assumes rel: "db_rel seed db V E i" and ne: "key \<noteq> new" and room: "card (dom V) < MAX_ENTRIES" and t: "E key \<noteq> Some (-1)"
    and key: "live now srv V E key" and go: "nx \<longrightarrow> \<not> live now srv V E new"
  shows "\<exists>srv' db'. renameGenericCommand now key new nx srv db = Some (if nx then shared_cone else shared_ok, srv', db')
    \<and> dirty srv' = dirty srv + 1 \<and> touched srv' = touched srv @ [(i, key), (i, new)]
    \<and> db_rel seed db' (V(new := V key, key := None)) (E(new := E key, key := None)) i"
proof -
  obtain o1 db1 where 1: "lookupKeyWrite now srv db key = Some (o1, srv, db1)" "map_option payload o1 = V key" "db_rel seed db1 V E i"
    by (rule lookupKeyWrite_rel [OF rel, where now = now and srv = srv and k = key, unfolded drop_expired_maps [OF key]])
  obtain val where val: "o1 = Some val" "V key = Some (payload val)" using 1(2) key by (cases o1) (auto simp: live_def)
  obtain db2 where 2: "getExpire srv db1 key = Some (case E key of None \<Rightarrow> -1 | Some t \<Rightarrow> t, db2)" "db_rel seed db2 V E i"
    by (rule getExpire_rel [OF 1(3)])
  let ?V = "drop_expired now srv E new V" and ?E = "drop_expired now srv E new E"
  define s3 where "s3 = log_expired now srv E i new"
  obtain o2 db3 where 3: "lookupKeyWrite now srv db2 new = Some (o2, s3, db3)" "map_option payload o2 = ?V new" "db_rel seed db3 ?V ?E i"
    unfolding s3_def by (rule lookupKeyWrite_rel [OF 2(2)])
  have o2: "o2 \<noteq> None \<longleftrightarrow> live now srv V E new"
    using map_option_None_eq [OF 3(2)] drop_expired_live [of now srv E new V] by simp
  obtain db4 where 4: "(if o2 \<noteq> None then map_option snd (dbDelete s3 db3 new) else Some db3) = Some db4"
    "db_rel seed db4 (V(new := None)) (E(new := None)) i"
  proof (cases "o2 \<noteq> None")
    case True
    have m: "?V(new := None) = V(new := None)" "?E(new := None) = E(new := None)" by (auto simp: drop_expired_def)
    obtain db4 where "dbDelete s3 db3 new = Some (?V new \<noteq> None, db4)" "db_rel seed db4 (?V(new := None)) (?E(new := None)) i"
      by (rule dbDelete_rel [OF 3(3)])
    then show thesis using that [of db4] True unfolding m by simp
  next
    case False
    have "?V new = None" using False map_option_None_eq [OF 3(2)] by simp
    then have "?E new = None" using db_relD(3) [OF 3(3)] by blast
    then have "?V = V(new := None)" "?E = E(new := None)" using \<open>?V new = None\<close>
      by (auto simp: drop_expired_def fun_eq_iff split: if_splits)
    then show thesis using that [of db3] False 3(3) by simp
  qed
  have c: "card (dom (V(new := None))) < MAX_ENTRIES" using card_Diff1_le [of "dom V" new] room by simp
  have k: "(V(new := None)) new = None" by simp
  obtain db5 db6 where 5: "dbAdd s3 db4 new val = Some (log_added s3 i new val, db5)"
    "(if (case E key of None \<Rightarrow> -1 | Some t \<Rightarrow> t) \<noteq> -1 then setExpire (log_added s3 i new val) db5 new (case E key of None \<Rightarrow> -1 | Some t \<Rightarrow> t)
      else Some db5) = Some db6"
    "db_rel seed db6 (V(new := None, new \<mapsto> payload val)) (E(new := None, new := E key)) i"
    by (rule copy_value [OF 4(2) k c t])
  obtain db7 where 7: "dbDelete (log_added s3 i new val) db6 key = Some ((V(new := None, new \<mapsto> payload val)) key \<noteq> None, db7)"
    "db_rel seed db7 (V(new := None, new \<mapsto> payload val, key := None)) (E(new := None, new := E key, key := None)) i"
    by (rule dbDelete_rel [OF 5(3)])
  have go': "\<not> (o2 \<noteq> None \<and> nx)" using go o2 by blast
  show ?thesis
    using ne go' 1(1) 2(1) 3(1) 4(1) 5(1,2) 7 db_relD(6) [OF 7(2)]
    by (auto simp: renameGenericCommand_def val Let_def notifyKeyspaceEvent_def signalModifiedKey_def log_added_def s3_def log_expired_def)
qed

lemma rename_refused:
  assumes rel: "db_rel seed db V E i" and ne: "key \<noteq> new" and key: "live now srv V E key" and new: "live now srv V E new"
  shows "\<exists>db'. renameGenericCommand now key new True srv db = Some (shared_czero, srv, db') \<and> db_rel seed db' V E i"
proof -
  obtain o1 db1 where 1: "lookupKeyWrite now srv db key = Some (o1, srv, db1)" "map_option payload o1 = V key" "db_rel seed db1 V E i"
    by (rule lookupKeyWrite_rel [OF rel, where now = now and srv = srv and k = key, unfolded drop_expired_maps [OF key]])
  obtain val where val: "o1 = Some val" using 1(2) key by (cases o1) (auto simp: live_def)
  obtain db2 where 2: "getExpire srv db1 key = Some (case E key of None \<Rightarrow> -1 | Some t \<Rightarrow> t, db2)" "db_rel seed db2 V E i"
    by (rule getExpire_rel [OF 1(3)])
  obtain o2 db3 where 3: "lookupKeyWrite now srv db2 new = Some (o2, srv, db3)" "map_option payload o2 = V new" "db_rel seed db3 V E i"
    by (rule lookupKeyWrite_rel [OF 2(2), where now = now and srv = srv and k = new, unfolded drop_expired_maps [OF new]])
  have "o2 \<noteq> None" using map_option_None_eq [OF 3(2)] new by (simp add: live_def)
  then show ?thesis using ne 1(1) 2(1) 3(1,3) by (simp add: renameGenericCommand_def val)
qed

lemma rename_missing:
  assumes rel: "db_rel seed db V E i" and ne: "key \<noteq> new" and key: "\<not> live now srv V E key"
  shows "\<exists>db'. renameGenericCommand now key new nx srv db = Some (shared_nokeyerr, log_expired now srv E i key, db')
    \<and> db_rel seed db' (drop_expired now srv E key V) (drop_expired now srv E key E) i"
proof -
  obtain o1 db1 where 1: "lookupKeyWrite now srv db key = Some (o1, log_expired now srv E i key, db1)"
    "map_option payload o1 = drop_expired now srv E key V key" "db_rel seed db1 (drop_expired now srv E key V) (drop_expired now srv E key E) i"
    by (rule lookupKeyWrite_rel [OF rel])
  have "o1 = None" using map_option_None_eq [OF 1(2)] key drop_expired_live [of now srv E key V] by simp
  then show ?thesis using ne 1(1,3) by (simp add: renameGenericCommand_def)
qed


text \<open>A database with one key that expires.\<close>

lemma ex_db_rel:
  "\<exists>srv db. run_calls db_call [SetKey 10 [97] \<lparr>o_type = REDIS_STRING, o_lru = 0, o_ptr = 5\<rparr>, SetExpire [97] 20] (ex_server, newDb 0 0)
     = Some ([Done, Done], srv, db) \<and> db_rel 0 db [[97] \<mapsto> (REDIS_STRING, 5::int)] [[97] \<mapsto> 20] 0"
proof -
  have "call_rel 0 0 (ex_server, newDb 0 0) (ex_server, Map.empty, Map.empty)" by (simp add: call_rel_def newDb_rel)
  from keyspace.runs [OF this, of "[SetKey 10 [97] \<lparr>o_type = REDIS_STRING, o_lru = 0, o_ptr = 5::int\<rparr>, SetExpire [97] 20]"]
  show ?thesis by (auto simp: call_keys_def call_rel_def payload_def Let_def simp del: db_call.simps)
qed


section \<open>Expiry commands\<close>

text \<open>PERSIST reads the dictionary directly.\<close>

lemma persist_rel:
  assumes "db_rel seed db V E i" "E k = Some t"
  shows "\<exists>db'. persistCommand k srv db = Some (shared_cone, srv\<lparr>dirty := dirty srv + 1\<rparr>, db') \<and> db_rel seed db' V (E(k := None)) i"
proof -
  note D = db_relD [OF assms(1)]
  have "V k \<noteq> None" using D(3) assms(2) by blast
  obtain r d where r: "dictFind (dictenv srv) (db_dict db) k = Some (r, d)" "dict_inv (dbDictType seed) d" "dict_map d = dict_map (db_dict db)"
    "r = None \<longleftrightarrow> dict_map (db_dict db) k = None"
    by (rule db_keys.find [OF D(1), where env = "dictenv srv" and k = k])
  have R: "db_rel seed (db\<lparr>db_dict := d\<rparr>) V E i" by (rule db_relI) (use D r in simp_all)
  obtain db' where "removeExpire srv (db\<lparr>db_dict := d\<rparr>) k = Some (E k \<noteq> None, db')" "db_rel seed db' V (E(k := None)) i"
    by (rule removeExpire_rel [OF R \<open>V k \<noteq> None\<close>])
  moreover have "r \<noteq> None" using r(4) D(4) [of k] \<open>V k \<noteq> None\<close> by auto
  ultimately show ?thesis using r(1) assms(2) by (auto simp: persistCommand_def Let_def)
qed



text \<open>
  EXPIRE, PEXPIRE, EXPIREAT and PEXPIREAT: \<open>expire_when\<close> is the time they compute. On a master
  that is not loading, a time that is not in the future deletes the key and the command is
  replaced by a DEL; in any other state the time is set.
\<close>

definition expire_when :: "int \<Rightarrow> bool \<Rightarrow> int \<Rightarrow> int" where
  "expire_when basetime unit_seconds w =
     signed_take_bit 63 ((if unit_seconds then signed_take_bit 63 (w * 1000) else w) + basetime)"

lemma expire_rel:
  assumes rel: "db_rel seed db V E i" and w: "getLongLongFromObject (Some (SdsObj param)) = Some w"
    and key: "live now1 srv V E k" and room: "card (dom V) \<le> MAX_ENTRIES" and t_def: "t = expire_when basetime u w"
  shows "\<exists>srv' db'. expireGenericCommand basetime u now1 now2 k param srv db =
      Some (shared_cone, if t \<le> now2 \<and> \<not> loading srv \<and> \<not> masterhost srv then Some [bytes_of ''DEL'', k] else None, srv', db')
    \<and> (if t \<le> now2 \<and> \<not> loading srv \<and> \<not> masterhost srv then db_rel seed db' (V(k := None)) (E(k := None)) i
       else db_rel seed db' V (E(k \<mapsto> t)) i)
    \<and> dirty srv' = dirty srv + 1 \<and> touched srv' = touched srv @ [(i, k)]"
proof -
  define s1 where "s1 = count_lookup True srv"
  have Vk: "V k \<noteq> None" using key by (simp add: live_def)
  obtain o1 db1 where 1: "lookupKeyRead now1 srv db k = Some (o1, s1, db1)" "map_option payload o1 = V k" "db_rel seed db1 V E i"
  proof (rule lookupKeyRead_rel [OF rel, where now = now1 and srv = srv and k = k, unfolded drop_expired_maps [OF key]])
    fix val db'
    assume "lookupKeyRead now1 srv db k = Some (val, count_lookup (V k \<noteq> None) srv, db')" "map_option payload val = V k" "db_rel seed db' V E i"
    then show thesis using that Vk by (simp add: s1_def)
  qed
  have o1: "o1 \<noteq> None" using map_option_None_eq [OF 1(2)] Vk by simp
  have s1: "loading s1 = loading srv" "masterhost s1 = masterhost srv" "dirty s1 = dirty srv" "touched s1 = touched srv"
    by (simp_all add: s1_def count_lookup_def)
  obtain db2 where 2: "dbDelete s1 db1 k = Some (V k \<noteq> None, db2)" "db_rel seed db2 (V(k := None)) (E(k := None)) i"
    by (rule dbDelete_rel [OF 1(3)])
  obtain db3 where 3: "setExpire s1 db1 k t = Some db3" "db_rel seed db3 V (E(k \<mapsto> t)) i"
    by (rule setExpire_rel [OF 1(3) Vk room])
  show ?thesis
  proof (cases "t \<le> now2 \<and> \<not> loading srv \<and> \<not> masterhost srv")
    case True
    then show ?thesis using w 1(1) o1 2 Vk db_relD(6) [OF 2(2)] s1 unfolding t_def
      by (simp add: expireGenericCommand_def expire_when_def Let_def notifyKeyspaceEvent_def signalModifiedKey_def)
  next
    case False
    then show ?thesis using w 1(1) o1 3 db_relD(6) [OF 3(2)] s1 unfolding t_def
      by (auto simp: expireGenericCommand_def expire_when_def Let_def notifyKeyspaceEvent_def signalModifiedKey_def)
  qed
qed

text \<open>
  The product of the number of seconds and 1000 wraps around: asked to expire a key in
  \<open>2 ^ 63 - 1\<close> seconds, the longest time that EXPIRE accepts, a master deletes it at once.
\<close>

lemma longest_expire_deletes:
  assumes "db_rel seed db V E i" "live now srv V E k" "card (dom V) \<le> MAX_ENTRIES" "\<not> loading srv" "\<not> masterhost srv"
    "0 \<le> now" "now < 2 ^ 62"
  shows "\<exists>srv' db'. expireGenericCommand now True now now k (bytes_of ''9223372036854775807'') srv db =
      Some (shared_cone, Some [bytes_of ''DEL'', k], srv', db') \<and> db_rel seed db' (V(k := None)) (E(k := None)) i"
proof -
  have w: "getLongLongFromObject (Some (SdsObj (bytes_of ''9223372036854775807''))) = Some (2 ^ 63 - 1)"
    by (simp add: getLongLongFromObject_def strtoll10_def isspace_def isdigit_def Let_def bytes_of_def)
  have "signed_take_bit 63 ((2 ^ 63 - 1) * 1000 :: int) = - 1000" by simp
  moreover have "signed_take_bit 63 (now - 1000) = now - 1000"
    by (rule signed_take_bit_int_eq_self) (use assms(6,7) in simp_all)
  ultimately have "expire_when now True (2 ^ 63 - 1) = now - 1000" by (simp add: expire_when_def)
  then show ?thesis using expire_rel [OF assms(1) w assms(2,3) refl, of now True now] assms(4,5) by auto
qed

text \<open>
  SELECT narrows the number it is given to 32 bits: \<open>2 ^ 32\<close> selects the first database.
\<close>

lemma select_narrows:
  assumes "dbs \<noteq> []"
  shows "selectCommand dbs cur (bytes_of ''4294967296'') = (shared_ok, 0)"
proof -
  have "getLongLongFromObject (Some (SdsObj (bytes_of ''4294967296''))) = Some (2 ^ 32)"
    by (simp add: getLongLongFromObject_def strtoll10_def isspace_def isdigit_def Let_def bytes_of_def)
  moreover have "signed_take_bit 31 (2 ^ 32 :: int) = 0" by simp
  ultimately show ?thesis using assms by (simp add: selectCommand_def selectDb_def)
qed

end
