(* ===== verification/Keyspace_Random.thy ===== *)
theory Keyspace_Random
  imports Keyspace_Commands
begin

text \<open>
  The search for a random key that has not expired. On a master every key the search finds
  expired is deleted, so that it ends; on a replica the key stays, and a database that holds
  expired keys only keeps the search going for ever.
\<close>

section \<open>What sampling needs of the dictionary\<close>

definition sampled :: "('k, 'v) dict \<Rightarrow> bool" where
  "sampled d \<longleftrightarrow> idx_ok d \<and> tabs d \<le> 2 ^ 30"

lemma sampled_rehash: "dict_wf d \<Longrightarrow> sampled d \<Longrightarrow> rehash_if_needed env d = Some d' \<Longrightarrow> sampled d'"
  using rehash_idx_ok tabs_rehash(1) by (fastforce simp: sampled_def)

lemma sampled_find: "dict_wf d \<Longrightarrow> sampled d \<Longrightarrow> dictFind env d k = Some (r, d') \<Longrightarrow> sampled d'"
  by (auto simp: dictFind_def bind_eq_Some_conv sampled_rehash split: if_splits)

lemma idx_set_ht: "ht_size h = ht_size (ht_of d t) \<Longrightarrow> idx_ok (set_ht d t h) = idx_ok d"
  by (simp add: idx_ok_def set_ht_def ht_of_def dictIsRehashing_def)

lemma idx_unlink: "unlink_entry d r = Some (e, d') \<Longrightarrow> idx_ok d' = idx_ok d"
  by (auto simp: unlink_entry_def bind_eq_Some_conv idx_set_ht split: prod.splits)

lemma sampled_delete: "dict_wf d \<Longrightarrow> sampled d \<Longrightarrow> dictDelete env d k = Some (st, es, d') \<Longrightarrow> sampled d'"
  using tabs_dictGenericDelete(1) [of d env k False st es d'] idx_unlink rehash_idx_ok
  by (fastforce simp: dictDelete_def dictGenericDelete_def bind_eq_Some_conv sampled_def split: if_splits option.splits)

lemma sampled_dbDelete:
  assumes "dict_wf (db_dict db)" "sampled (db_dict db)" "dbDelete srv db k = Some (r, db')"
  shows "sampled (db_dict db')"
  using assms by (auto simp: dbDelete_def bind_eq_Some_conv sampled_delete split: if_splits)

lemma sampled_getExpire:
  assumes "dict_wf (db_dict db)" "sampled (db_dict db)" "getExpire srv db k = Some (t, db')"
  shows "sampled (db_dict db')"
  using assms by (auto simp: getExpire_def bind_eq_Some_conv sampled_find split: if_splits option.splits)

lemma sampled_expireIfNeeded:
  assumes "db_rel seed db V E i" "sampled (db_dict db)" "expireIfNeeded now srv db k = Some (r, srv', db')"
  shows "sampled (db_dict db')"
proof -
  obtain db1 where 1: "getExpire srv db k = Some (case E k of None \<Rightarrow> -1 | Some t \<Rightarrow> t, db1)" "db_rel seed db1 V E i"
    by (rule getExpire_rel [OF assms(1)])
  have wf: "dict_wf (db_dict db)" "dict_wf (db_dict db1)"
    using db_relD(1) [OF assms(1)] db_relD(1) [OF 1(2)] by (simp_all add: dict_inv_def)
  have "sampled (db_dict db1)" by (rule sampled_getExpire [OF wf(1) assms(2) 1(1)])
  then show ?thesis using assms(3) 1(1) sampled_dbDelete [OF wf(2)]
    by (auto simp: expireIfNeeded_def bind_eq_Some_conv Let_def split: if_splits)
qed

section \<open>One round\<close>

lemma random_draw:
  assumes rel: "db_rel seed db V E i" and s: "sampled (db_dict db)" and fair: "rnd_fair rnd"
  obtains de d where "dictGetRandomKey (dictenv srv) rnd (db_dict db) = Some (de, d)"
proof -
  have "dict_wf (db_dict db)" using db_relD(1) [OF rel] by (simp add: dict_inv_def)
  moreover have "idx_ok (db_dict db)" "ht_size (ht0 (db_dict db)) \<le> 2 ^ 30" "ht_size (ht1 (db_dict db)) \<le> 2 ^ 30"
    using s by (simp_all add: sampled_def tabs_def)
  ultimately show thesis using dictGetRandomKey_spec [OF _ _ _ _ fair, of "db_dict db" "dictenv srv"] that by blast
qed

lemma random_draw_rel:
  assumes rel: "db_rel seed db V E i" and draw: "dictGetRandomKey (dictenv srv) rnd (db_dict db) = Some (de, d)"
  shows "db_rel seed (db\<lparr>db_dict := d\<rparr>) V E i" "de = None \<Longrightarrow> V = Map.empty" "de = Some kv \<Longrightarrow> V (fst kv) \<noteq> None"
    "sampled (db_dict db) \<Longrightarrow> sampled d"
proof -
  note D = db_relD [OF rel]
  have wf: "dict_wf (db_dict db)" using D(1) by (simp add: dict_inv_def)
  have s: "dict_wf d" "same_content (db_dict db) d" "de = None \<longrightarrow> dict_entries (db_dict db) = []"
    "\<forall>e. de = Some e \<longrightarrow> e \<in> set (dict_entries (db_dict db))" using dictGetRandomKey_sound [OF wf draw] by blast+
  have t: "tabs d \<le> tabs (db_dict db)" by (rule tabs_same_content [OF s(2)])
  have "dtype d = dtype (db_dict db)" using s(2) by (simp add: same_content_def)
  then have d: "dict_map d = dict_map (db_dict db)" "dict_inv (dbDictType seed) d"
    using same_content_map [OF wf s(2)] s(1) t D(1) by (simp_all add: dict_inv_def)
  show "db_rel seed (db\<lparr>db_dict := d\<rparr>) V E i" by (rule db_relI) (use D d in simp_all)
  show "V = Map.empty" if "de = None"
    by (rule ext) (use s(3) that in \<open>simp add: D(4) dict_map_def\<close>)
  show "V (fst kv) \<noteq> None" if "de = Some kv"
  proof -
    have "kv \<in> set (dict_entries (db_dict db))" using s(4) that by simp
    then have "fst kv \<in> dom (dict_map (db_dict db))" using db_keys.dom_entries [OF D(1)] by simp
    then show ?thesis using D(4) [of "fst kv"] by auto
  qed
  show "sampled d" if "sampled (db_dict db)"
    using that draw sampled_rehash [OF wf that]
    by (cases "dictSize (db_dict db) = 0") (auto simp: dictGetRandomKey_def bind_eq_Some_conv Let_def)
qed

lemma random_find:
  assumes rel: "db_rel seed db V E i"
  obtains x e where "dictFind (dictenv srv) (db_expires db) k = Some (x, e)" "x \<noteq> None \<longleftrightarrow> E k \<noteq> None"
    "db_rel seed (db\<lparr>db_expires := e\<rparr>) V E i"
proof -
  note D = db_relD [OF rel]
  obtain x e where x: "dictFind (dictenv srv) (db_expires db) k = Some (x, e)" "dict_inv (keyptrDictType seed) e"
    "dict_map e = dict_map (db_expires db)" "x = None \<longleftrightarrow> dict_map (db_expires db) k = None"
    by (rule expire_keys.find [OF D(2), where env = "dictenv srv" and k = k])
  have "db_rel seed (db\<lparr>db_expires := e\<rparr>) V E i" by (rule db_relI) (use D x in simp_all)
  then show thesis using that [OF x(1)] x(4) D(5) by simp
qed

section \<open>A master\<close>

lemma dbRandomKey_round:
  assumes rel: "db_rel seed db V E i" and s: "sampled (db_dict db)" and fair: "rnd_fair (rnd n)" and master: "\<not> masterhost srv"
  obtains (none) db' where "dbRandomKey rnd now n srv db = Some (None, srv, db')" "V = Map.empty" "db_rel seed db' V E i"
    | (found) k db' where "dbRandomKey rnd now n srv db = Some (Some k, srv, db')" "V k \<noteq> None" "\<not> evicts (now n) srv E k" "db_rel seed db' V E i"
    | (again) k db' where "dbRandomKey rnd now n srv db = dbRandomKey rnd now (n + 1) (log_expired (now n) srv E i k) db'"
        "V k \<noteq> None" "evicts (now n) srv E k" "db_rel seed db' (V(k := None)) (E(k := None)) i" "sampled (db_dict db')"
proof -
  obtain de d where draw: "dictGetRandomKey (dictenv srv) (rnd n) (db_dict db) = Some (de, d)" by (rule random_draw [OF rel s fair])
  note r = random_draw_rel [OF rel draw]
  show thesis
  proof (cases de)
    case None
    have "dbRandomKey rnd now n srv db = Some (None, srv, db\<lparr>db_dict := d\<rparr>)" by (subst dbRandomKey.simps) (simp add: draw None)
    then show thesis by (rule none) (use r None in simp_all)
  next
    case (Some kv)
    define k where "k = fst kv"
    have Vk: "V k \<noteq> None" using r(3) Some by (simp add: k_def)
    obtain x e where x: "dictFind (dictenv srv) (db_expires (db\<lparr>db_dict := d\<rparr>)) k = Some (x, e)" "x \<noteq> None \<longleftrightarrow> E k \<noteq> None"
      "db_rel seed (db\<lparr>db_dict := d\<rparr>\<lparr>db_expires := e\<rparr>) V E i" by (rule random_find [OF r(1)])
    let ?db = "db\<lparr>db_dict := d, db_expires := e\<rparr>"
    have rel1: "db_rel seed ?db V E i" using x(3) by simp
    show thesis
    proof (cases "E k")
      case None
      have "dbRandomKey rnd now n srv db = Some (Some k, srv, ?db)"
        by (subst dbRandomKey.simps) (use draw Some x(1,2) None in \<open>simp add: k_def\<close>)
      then show thesis by (rule found) (use Vk rel1 None in \<open>simp_all add: evicts_def key_expired_def\<close>)
    next
      case t: (Some t)
      obtain db2 where 2: "expireIfNeeded (now n) srv ?db k = Some (key_expired (now n) srv E k, log_expired (now n) srv E i k, db2)"
        "db_rel seed db2 (drop_expired (now n) srv E k V) (drop_expired (now n) srv E k E) i" by (rule expireIfNeeded_rel [OF rel1])
      have ev: "key_expired (now n) srv E k = evicts (now n) srv E k" using master by (simp add: evicts_def)
      have step: "dbRandomKey rnd now n srv db = (if evicts (now n) srv E k then dbRandomKey rnd now (n + 1) (log_expired (now n) srv E i k) db2
          else Some (Some k, log_expired (now n) srv E i k, db2))"
        by (subst dbRandomKey.simps) (use draw Some x(1,2) t 2(1) ev in \<open>simp add: k_def\<close>)
      show thesis
      proof (cases "evicts (now n) srv E k")
        case True
        have "sampled (db_dict db2)" using sampled_expireIfNeeded [OF rel1 _ 2(1)] r(4) s by simp
        with True step 2(2) Vk show thesis by (intro again [of k db2]) (simp_all add: drop_expired_def)
      next
        case False
        with step 2(2) Vk show thesis by (intro found [of k db2]) (simp_all add: drop_expired_def log_expired_def)
      qed
    qed
  qed
qed

lemma evicts_log:
  "evicts now' (log_expired now srv E i k) E' k' = evicts now' srv E' k'"
  by (rule same_mode_evicts) simp

lemma dbRandomKey_master_ends:
  assumes "db_rel seed db V E i" "sampled (db_dict db)" "\<forall>n. rnd_fair (rnd n)" "\<not> masterhost srv"
  shows "\<exists>r srv' db' V' E'. dbRandomKey rnd now n srv db = Some (r, srv', db') \<and> db_rel seed db' V' E' i \<and> V' \<subseteq>\<^sub>m V
    \<and> (\<forall>k \<in> dom V - dom V'. \<exists>m. evicts (now m) srv E k)
    \<and> (case r of None \<Rightarrow> V' = Map.empty | Some k \<Rightarrow> V' k \<noteq> None \<and> (\<exists>m. \<not> evicts (now m) srv E k))"
  using assms(1,2,4)
proof (induction "card (dom V)" arbitrary: n srv db V E rule: less_induct)
  case less
  have fair: "rnd_fair (rnd n)" using assms(3) by simp
  from less.prems(1,2) fair less.prems(3) show ?case
  proof (rule dbRandomKey_round [where now = now])
    fix db' assume "dbRandomKey rnd now n srv db = Some (None, srv, db')" "V = Map.empty" "db_rel seed db' V E i"
    then show ?case by (intro exI [of _ None] exI [of _ srv] exI [of _ db'] exI [of _ V] exI [of _ E]) simp
  next
    fix k db' assume "dbRandomKey rnd now n srv db = Some (Some k, srv, db')" "V k \<noteq> None" "\<not> evicts (now n) srv E k" "db_rel seed db' V E i"
    then show ?case by (intro exI [of _ "Some k"] exI [of _ srv] exI [of _ db'] exI [of _ V] exI [of _ E]) auto
  next
    fix k db1
    assume k: "dbRandomKey rnd now n srv db = dbRandomKey rnd now (n + 1) (log_expired (now n) srv E i k) db1"
      "V k \<noteq> None" "evicts (now n) srv E k" "db_rel seed db1 (V(k := None)) (E(k := None)) i" "sampled (db_dict db1)"
    have c: "card (dom (V(k := None))) < card (dom V)"
      using k(2) db_rel_sizes(2) [OF less.prems(1)] by (simp add: card_Diff1_less domIff del: card_Diff_insert)
    have "\<not> masterhost (log_expired (now n) srv E i k)" using less.prems(3) by (simp add: log_expired_def)
    from less.hyps [OF c k(4,5) this, of "n + 1", unfolded evicts_log]
    obtain r srv' db' V' E' where r: "dbRandomKey rnd now (n + 1) (log_expired (now n) srv E i k) db1 = Some (r, srv', db')"
      "db_rel seed db' V' E' i" "V' \<subseteq>\<^sub>m V(k := None)" "\<forall>k' \<in> dom (V(k := None)) - dom V'. \<exists>m. evicts (now m) srv (E(k := None)) k'"
      "case r of None \<Rightarrow> V' = Map.empty | Some k' \<Rightarrow> V' k' \<noteq> None \<and> (\<exists>m. \<not> evicts (now m) srv (E(k := None)) k')"
      by (elim exE conjE) (rule that)
    have other: "evicts (now m) srv (E(k := None)) k' = evicts (now m) srv E k'" if "k' \<noteq> k" for m k'
      by (rule evicts_other) (use that in simp)
    have "V' k = None" using r(3) by (metis domIff fun_upd_same map_le_def)
    have "\<forall>k' \<in> dom V - dom V'. \<exists>m. evicts (now m) srv E k'"
    proof
      fix k' assume "k' \<in> dom V - dom V'"
      then have "k' \<noteq> k \<Longrightarrow> k' \<in> dom (V(k := None)) - dom V'" by simp
      then show "\<exists>m. evicts (now m) srv E k'" using bspec [OF r(4), of k'] k(3) other [of k'] by (cases "k' = k") (simp_all, blast)
    qed
    moreover have "case r of None \<Rightarrow> V' = Map.empty | Some k' \<Rightarrow> V' k' \<noteq> None \<and> (\<exists>m. \<not> evicts (now m) srv E k')"
    proof (cases r)
      case (Some k')
      then have "k' \<noteq> k" using r(5) \<open>V' k = None\<close> by auto
      then show ?thesis using r(5) Some other [of k'] by simp
    qed (use r(5) in simp)
    moreover have "V' \<subseteq>\<^sub>m V" using r(3) \<open>V' k = None\<close> by (auto simp: map_le_def split: if_splits)
    ultimately show ?case
      by (intro exI [of _ r] exI [of _ srv'] exI [of _ db'] exI [of _ V'] exI [of _ E'] conjI) (use r(1,2) k(1) in simp_all)
  qed
qed

section \<open>A replica\<close>

text \<open>All keys of a database have expired, at every time the clock shows.\<close>

definition all_expired :: "(nat \<Rightarrow> int) \<Rightarrow> server \<Rightarrow> 'v valmap \<Rightarrow> expiries \<Rightarrow> bool" where
  "all_expired now srv V E \<longleftrightarrow> V \<noteq> Map.empty \<and> (\<forall>k. V k \<noteq> None \<longrightarrow> (\<forall>n. key_expired (now n) srv E k))"

lemma replica_step:
  assumes ih: "\<And>n srv db y seed V E i. f rnd now n srv db = Some y \<Longrightarrow> masterhost srv \<Longrightarrow> db_rel seed db V E i \<Longrightarrow> \<not> all_expired now srv V E"
    and some: "Option.bind (dictGetRandomKey (dictenv srv) (rnd n) (db_dict db)) (\<lambda>(de, d).
       (case de of
          None \<Rightarrow> Some (None, srv, db\<lparr>db_dict := d\<rparr>)
        | Some kv \<Rightarrow>
            Option.bind (dictFind (dictenv srv) (db_expires db) (fst kv)) (\<lambda>(x, e).
              if x \<noteq> None then
                Option.bind (expireIfNeeded (now n) srv (db\<lparr>db_dict := d, db_expires := e\<rparr>) (fst kv)) (\<lambda>(r, srv, db).
                  if r then f rnd now (n + 1) srv db else Some (Some (fst kv), srv, db))
              else Some (Some (fst kv), srv, db\<lparr>db_dict := d, db_expires := e\<rparr>)))) = Some y"
    and rel: "masterhost srv" "db_rel seed db V E i"
  shows "\<not> all_expired now srv V E"
proof
  assume all: "all_expired now srv V E"
  obtain de d where draw: "dictGetRandomKey (dictenv srv) (rnd n) (db_dict db) = Some (de, d)"
    using some by (cases "dictGetRandomKey (dictenv srv) (rnd n) (db_dict db)") auto
  note r = random_draw_rel [OF rel(2) draw]
  obtain kv where de: "de = Some kv" using r(2) all by (cases de) (auto simp: all_expired_def)
  have ke: "key_expired (now n) srv E (fst kv)" using r(3) [OF de] all unfolding all_expired_def by blast
  then have "E (fst kv) \<noteq> None" by (auto simp: key_expired_def split: option.splits)
  obtain x e where x: "dictFind (dictenv srv) (db_expires (db\<lparr>db_dict := d\<rparr>)) (fst kv) = Some (x, e)" "x \<noteq> None \<longleftrightarrow> E (fst kv) \<noteq> None"
    "db_rel seed (db\<lparr>db_dict := d\<rparr>\<lparr>db_expires := e\<rparr>) V E i" by (rule random_find [OF r(1)])
  obtain db2 where 2: "expireIfNeeded (now n) srv (db\<lparr>db_dict := d\<rparr>\<lparr>db_expires := e\<rparr>) (fst kv) =
      Some (key_expired (now n) srv E (fst kv), log_expired (now n) srv E i (fst kv), db2)"
    "db_rel seed db2 (drop_expired (now n) srv E (fst kv) V) (drop_expired (now n) srv E (fst kv) E) i" by (rule expireIfNeeded_rel [OF x(3)])
  have same: "log_expired (now n) srv E i (fst kv) = srv" "drop_expired (now n) srv E (fst kv) V = V" "drop_expired (now n) srv E (fst kv) E = E"
    using rel(1) by (simp_all add: log_expired_def drop_expired_def evicts_def)
  have "f rnd now (n + 1) srv db2 = Some y"
    using some draw de x(1,2) \<open>E (fst kv) \<noteq> None\<close> 2(1) ke unfolding same by simp
  then show False using ih [OF _ rel(1) 2(2) [unfolded same]] all by blast
qed

lemma dbRandomKey_replica:
  assumes "dbRandomKey rnd now n srv db = Some y" "masterhost srv" "db_rel seed db V E i"
  shows "\<not> all_expired now srv V E"
proof -
  have "\<forall>seed V E i. masterhost srv \<longrightarrow> db_rel seed db V E i \<longrightarrow> \<not> all_expired now srv V E"
  proof (rule dbRandomKey.raw_induct [OF _ assms(1), where P = "\<lambda>_ now _ srv db _. \<forall>seed V E i. masterhost srv \<longrightarrow> db_rel seed db V E i
      \<longrightarrow> \<not> all_expired now srv V E"], intro allI impI)
    fix f rnd now n srv db y seed V E i
    assume ih: "\<And>rnd now n srv db y. f rnd now n srv db = Some y \<Longrightarrow> \<forall>seed V E i. masterhost srv \<longrightarrow> db_rel seed db V E i \<longrightarrow> \<not> all_expired now srv V E"
      and some: "Option.bind (dictGetRandomKey (dictenv srv) (rnd n) (db_dict db)) (\<lambda>(de, d).
       (case de of
          None \<Rightarrow> Some (None, srv, db\<lparr>db_dict := d\<rparr>)
        | Some kv \<Rightarrow>
            Option.bind (dictFind (dictenv srv) (db_expires db) (fst kv)) (\<lambda>(x, e).
              if x \<noteq> None then
                Option.bind (expireIfNeeded (now n) srv (db\<lparr>db_dict := d, db_expires := e\<rparr>) (fst kv)) (\<lambda>(r, srv, db).
                  if r then f rnd now (n + 1) srv db else Some (Some (fst kv), srv, db))
              else Some (Some (fst kv), srv, db\<lparr>db_dict := d, db_expires := e\<rparr>)))) = Some y"
      and rel: "masterhost srv" "db_rel seed db V E i"
    show "\<not> all_expired now srv V E" by (rule replica_step [where f = f and rnd = rnd and n = n, OF _ some rel]) (use ih in blast)
  qed
  then show ?thesis using assms(2,3) by blast
qed

section \<open>Properties\<close>


lemma newDb_sampled: "sampled (db_dict (newDb seed i))"
  by (simp add: newDb_def sampled_def idx_ok_def tabs_def dictCreate_def dictInit_def dictIsRehashing_def)




end
