(* ===== verification/Skiplist.thy ===== *)
theory Skiplist
  imports Dict_Map Objects
begin

text \<open>
  The skip list of sorted sets in \<^verbatim>\<open>t_zset.c\<close>, on an explicit heap of nodes. A node has a forward
  pointer and a span for each of its levels; the header has all levels. Scores are elements
  of a linear order: the code keeps values that are not a number out. A search runs down the
  levels and, on each, forward while a condition on the next node holds; the searches of the
  source differ in this condition only, which is an argument of the two loops. A new node is
  at an address that is not in use and has arbitrary content (\<open>mem\<close>) until it is written.
\<close>

section \<open>State\<close>

type_synonym zaddr = nat

record zskiplistLevel =
  forward :: "zaddr option"
  span :: u32

record 's zskiplistNode =
  zn_obj :: "str_obj option"
  zn_score :: 's
  backward :: "zaddr option"
  levels :: "zskiplistLevel list"

type_synonym 's zheap = "zaddr \<rightharpoonup> 's zskiplistNode"

record zskiplist =
  zheader :: zaddr
  ztail :: "zaddr option"
  zlength :: u64
  zlevel :: nat

type_synonym zmem = "zaddr option \<times> (nat \<Rightarrow> zskiplistLevel)"

abbreviation ZSKIPLIST_MAXLEVEL :: nat where "ZSKIPLIST_MAXLEVEL \<equiv> 32"

definition zslCreateNode :: "zmem \<Rightarrow> nat \<Rightarrow> 's \<Rightarrow> str_obj option \<Rightarrow> 's zskiplistNode" where
  "zslCreateNode mem level score ob =
     \<lparr>zn_obj = ob, zn_score = score, backward = fst mem, levels = map (snd mem) [0..<level]\<rparr>"

definition zslCreate :: "zmem \<Rightarrow> zaddr \<Rightarrow> 's \<Rightarrow> 's zheap \<Rightarrow> 's zheap \<times> zskiplist" where
  "zslCreate mem a zero h =
     (let nd = zslCreateNode mem ZSKIPLIST_MAXLEVEL zero None;
          nd = nd\<lparr>levels := map (\<lambda>lv. lv\<lparr>forward := None, span := 0\<rparr>) (levels nd), backward := None\<rparr>
      in (h(a \<mapsto> nd), \<lparr>zheader = a, ztail = None, zlength = 0, zlevel = 1\<rparr>))"

text \<open>\<open>random() & 0xFFFF\<close> is compared with \<open>0.25 * 0xFFFF\<close>.\<close>

partial_function (option) random_level :: "(nat \<Rightarrow> nat) \<Rightarrow> nat \<Rightarrow> nat \<Rightarrow> nat option" where
  "random_level rnd p level =
     (if 4 * (rnd p AND 0xFFFF) < 0xFFFF then random_level rnd (p + 1) (level + 1) else Some level)"

declare random_level.simps [code]

definition zslRandomLevel :: "(nat \<Rightarrow> nat) \<Rightarrow> nat option" where
  "zslRandomLevel rnd = do {
     level \<leftarrow> random_level rnd 0 1;
     Some (if level < ZSKIPLIST_MAXLEVEL then level else ZSKIPLIST_MAXLEVEL) }"

section \<open>Searching\<close>

definition level_at :: "'s zheap \<Rightarrow> zaddr \<Rightarrow> nat \<Rightarrow> zskiplistLevel option" where
  "level_at h x i = do { nd \<leftarrow> h x; get_at (levels nd) i }"

definition set_level :: "'s zheap \<Rightarrow> zaddr \<Rightarrow> nat \<Rightarrow> (zskiplistLevel \<Rightarrow> zskiplistLevel) \<Rightarrow> 's zheap option" where
  "set_level h x i f = do {
     nd \<leftarrow> h x;
     lv \<leftarrow> get_at (levels nd) i;
     Some (h(x \<mapsto> nd\<lparr>levels := (levels nd)[i := f lv]\<rparr>)) }"

text \<open>The condition sees what has been traversed (a counter of 32 or 64 bits), the span and the next node.\<close>

type_synonym ('r, 's) zcond = "'r word \<Rightarrow> u32 \<Rightarrow> 's zskiplistNode \<Rightarrow> bool option"

partial_function (option) walk_level :: "('r::len, 's) zcond \<Rightarrow> 's zheap \<Rightarrow> nat \<Rightarrow> zaddr \<Rightarrow> 'r word \<Rightarrow> (zaddr \<times> 'r word) option" where
  "walk_level cond h i x rank =
     Option.bind (level_at h x i) (\<lambda>lv.
       (case forward lv of
          None \<Rightarrow> Some (x, rank)
        | Some y \<Rightarrow>
            Option.bind (h y) (\<lambda>nd.
              Option.bind (cond rank (span lv) nd) (\<lambda>go.
                if go then walk_level cond h i y (rank + ucast (span lv)) else Some (x, rank)))))"

declare walk_level.simps [code]

text \<open>Down the levels: the nodes \<open>update[i]\<close> with their ranks, and where the search ends.\<close>

fun descend :: "('r::len, 's) zcond \<Rightarrow> 's zheap \<Rightarrow> nat \<Rightarrow> zaddr \<Rightarrow> 'r word \<Rightarrow> (zaddr list \<times> 'r word list \<times> zaddr) option" where
  "descend cond h 0 x rank = Some ([], [], x)"
| "descend cond h (Suc i) x rank = do {
     (x, rank) \<leftarrow> walk_level cond h i x rank;
     (update, ranks, y) \<leftarrow> descend cond h i x rank;
     Some (update @ [x], ranks @ [rank], y) }"

text \<open>The conditions: before the given score and object, and not after them.\<close>

definition zsl_less :: "'s::linorder \<Rightarrow> str_obj \<Rightarrow> ('r::len, 's) zcond" where
  "zsl_less score ob rank sp nd =
     (if zn_score nd < score then Some True
      else if zn_score nd = score then do { x \<leftarrow> zn_obj nd; c \<leftarrow> compareStringObjects x ob; Some (c < 0) }
      else Some False)"

definition zsl_less_eq :: "'s::linorder \<Rightarrow> str_obj \<Rightarrow> ('r::len, 's) zcond" where
  "zsl_less_eq score ob rank sp nd =
     (if zn_score nd < score then Some True
      else if zn_score nd = score then do { x \<leftarrow> zn_obj nd; c \<leftarrow> compareStringObjects x ob; Some (c \<le> 0) }
      else Some False)"

section \<open>Insertion\<close>

text \<open>The levels that the list does not have yet.\<close>

fun raise_levels :: "zaddr \<Rightarrow> u64 \<Rightarrow> nat \<Rightarrow> nat \<Rightarrow> 's zheap \<Rightarrow> 's zheap option" where
  "raise_levels header len i 0 h = Some h"
| "raise_levels header len i (Suc n) h = do {
     h \<leftarrow> set_level h header i (\<lambda>lv. lv\<lparr>span := ucast len\<rparr>);
     raise_levels header len (i + 1) n h }"

text \<open>The loop over the levels of the new node \<open>x\<close>.\<close>

fun link_levels :: "zaddr \<Rightarrow> u32 \<Rightarrow> zaddr list \<Rightarrow> u32 list \<Rightarrow> nat \<Rightarrow> 's zheap \<Rightarrow> 's zheap option" where
  "link_levels x rank0 [] ranks i h = Some h"
| "link_levels x rank0 (u # update) ranks i h = do {
     lv \<leftarrow> level_at h u i;
     r \<leftarrow> get_at ranks 0;
     h \<leftarrow> set_level h x i (\<lambda>l. l\<lparr>forward := forward lv, span := span lv - (rank0 - r)\<rparr>);
     h \<leftarrow> set_level h u i (\<lambda>l. l\<lparr>forward := Some x, span := (rank0 - r) + 1\<rparr>);
     link_levels x rank0 update (drop 1 ranks) (i + 1) h }"

fun widen_levels :: "zaddr list \<Rightarrow> nat \<Rightarrow> 's zheap \<Rightarrow> 's zheap option" where
  "widen_levels [] i h = Some h"
| "widen_levels (u # update) i h = do {
     h \<leftarrow> set_level h u i (\<lambda>l. l\<lparr>span := span l + 1\<rparr>);
     widen_levels update (i + 1) h }"

definition zslInsert ::
  "zmem \<Rightarrow> zaddr \<Rightarrow> (nat \<Rightarrow> nat) \<Rightarrow> 's::linorder zheap \<Rightarrow> zskiplist \<Rightarrow> 's \<Rightarrow> str_obj \<Rightarrow> ('s zheap \<times> zskiplist) option" where
  "zslInsert mem a rnd h zsl score ob = do {
     (update, rank, _) \<leftarrow> descend (zsl_less score ob) h (zlevel zsl) (zheader zsl) 0;
     level \<leftarrow> zslRandomLevel rnd;
     (h, update, rank, zsl) \<leftarrow>
       (if level > zlevel zsl then do {
          h \<leftarrow> raise_levels (zheader zsl) (zlength zsl) (zlevel zsl) (level - zlevel zsl) h;
          Some (h, update @ replicate (level - zlevel zsl) (zheader zsl), rank @ replicate (level - zlevel zsl) 0,
                zsl\<lparr>zlevel := level\<rparr>) }
        else Some (h, update, rank, zsl));
     let h = h(a \<mapsto> zslCreateNode mem level score (Some ob));
     rank0 \<leftarrow> get_at rank 0;
     h \<leftarrow> link_levels a rank0 (take level update) rank 0 h;
     h \<leftarrow> widen_levels (drop level update) level h;
     u0 \<leftarrow> get_at update 0;
     nd \<leftarrow> h a;
     let h = h(a \<mapsto> nd\<lparr>backward := (if u0 = zheader zsl then None else Some u0)\<rparr>);
     lv \<leftarrow> get_at (levels nd) 0;
     (h, zsl) \<leftarrow>
       (case forward lv of
          Some y \<Rightarrow> do { ny \<leftarrow> h y; Some (h(y \<mapsto> ny\<lparr>backward := Some a\<rparr>), zsl) }
        | None \<Rightarrow> Some (h, zsl\<lparr>ztail := Some a\<rparr>));
     Some (h, zsl\<lparr>zlength := zlength zsl + 1\<rparr>) }"

section \<open>Deletion\<close>

fun unlink_levels :: "zaddr \<Rightarrow> zaddr list \<Rightarrow> nat \<Rightarrow> 's zheap \<Rightarrow> 's zheap option" where
  "unlink_levels x [] i h = Some h"
| "unlink_levels x (u # update) i h = do {
     lu \<leftarrow> level_at h u i;
     h \<leftarrow> (if forward lu = Some x then do {
            lx \<leftarrow> level_at h x i;
            set_level h u i (\<lambda>l. l\<lparr>span := span l + (span lx - 1), forward := forward lx\<rparr>) }
          else set_level h u i (\<lambda>l. l\<lparr>span := span l - 1\<rparr>));
     unlink_levels x update (i + 1) h }"

fun lower_level :: "'s zheap \<Rightarrow> zaddr \<Rightarrow> nat \<Rightarrow> nat option" where
  "lower_level h header 0 = Some 0"
| "lower_level h header (Suc n) =
     (if Suc n > 1 then do {
        lv \<leftarrow> level_at h header n;
        if forward lv = None then lower_level h header n else Some (Suc n) }
      else Some (Suc n))"

text \<open>The loop stops at the current level of the list; beyond its length \<open>update\<close> is not written.\<close>

definition zslDeleteNode :: "'s zheap \<Rightarrow> zskiplist \<Rightarrow> zaddr \<Rightarrow> zaddr list \<Rightarrow> ('s zheap \<times> zskiplist) option" where
  "zslDeleteNode h zsl x update = do {
     h \<leftarrow> (if length update < zlevel zsl then None else unlink_levels x (take (zlevel zsl) update) 0 h);
     nd \<leftarrow> h x;
     lv \<leftarrow> get_at (levels nd) 0;
     (h, zsl) \<leftarrow>
       (case forward lv of
          Some y \<Rightarrow> do { ny \<leftarrow> h y; Some (h(y \<mapsto> ny\<lparr>backward := backward nd\<rparr>), zsl) }
        | None \<Rightarrow> Some (h, zsl\<lparr>ztail := backward nd\<rparr>));
     level \<leftarrow> lower_level h (zheader zsl) (zlevel zsl);
     Some (h, zsl\<lparr>zlevel := level, zlength := zlength zsl - 1\<rparr>) }"

definition zslDelete :: "'s::linorder zheap \<Rightarrow> zskiplist \<Rightarrow> 's \<Rightarrow> str_obj \<Rightarrow> (bool \<times> 's zheap \<times> zskiplist) option" where
  "zslDelete h zsl score ob = do {
     (update, _, x) \<leftarrow> descend (zsl_less score ob) h (zlevel zsl) (zheader zsl) (0 :: u32);
     lv \<leftarrow> level_at h x 0;
     (case forward lv of
        None \<Rightarrow> Some (False, h, zsl)
      | Some y \<Rightarrow> do {
          nd \<leftarrow> h y;
          if score = zn_score nd then do {
            oy \<leftarrow> zn_obj nd;
            eq \<leftarrow> equalStringObjects oy ob;
            if eq then do {
              (h, zsl) \<leftarrow> zslDeleteNode h zsl y update;
              Some (True, h(y := None), zsl) }
            else Some (False, h, zsl) }
          else Some (False, h, zsl) }) }"

section \<open>Ranks\<close>

fun rank_loop :: "'s::linorder zheap \<Rightarrow> nat \<Rightarrow> zaddr \<Rightarrow> u64 \<Rightarrow> 's \<Rightarrow> str_obj \<Rightarrow> u64 option" where
  "rank_loop h 0 x rank score ob = Some 0"
| "rank_loop h (Suc i) x rank score ob = do {
     (x, rank) \<leftarrow> walk_level (zsl_less_eq score ob) h i x rank;
     nd \<leftarrow> h x;
     eq \<leftarrow> (case zn_obj nd of None \<Rightarrow> Some False | Some ox \<Rightarrow> equalStringObjects ox ob);
     if eq then Some rank else rank_loop h i x rank score ob }"

definition zslGetRank :: "'s::linorder zheap \<Rightarrow> zskiplist \<Rightarrow> 's \<Rightarrow> str_obj \<Rightarrow> u64 option" where
  "zslGetRank h zsl score ob = rank_loop h (zlevel zsl) (zheader zsl) 0 score ob"

end
