(* ===== verification/Skiplist_Rep.thy ===== *)
theory Skiplist_Rep
  imports Skiplist
begin

text \<open>
  What a skip list stands for: a list of items, each with its address, its number of levels,
  its score and its object. \<open>link\<close> says what every forward pointer and every span must be: the
  pointer leads to the next item with enough levels, the span is the distance to it, or to
  the last item when there is none.
\<close>

section \<open>Items and links\<close>

type_synonym 's zitem = "zaddr \<times> nat \<times> 's \<times> str_obj"

abbreviation ad :: "'s zitem \<Rightarrow> zaddr" where "ad x \<equiv> fst x"
abbreviation ht :: "'s zitem \<Rightarrow> nat" where "ht x \<equiv> fst (snd x)"
abbreviation sc :: "'s zitem \<Rightarrow> 's" where "sc x \<equiv> fst (snd (snd x))"
abbreviation ob :: "'s zitem \<Rightarrow> str_obj" where "ob x \<equiv> snd (snd (snd x))"

text \<open>Position 0 is the header, position \<open>p + 1\<close> the item with index \<open>p\<close>.\<close>

definition ad_at :: "zaddr \<Rightarrow> 's zitem list \<Rightarrow> nat \<Rightarrow> zaddr" where
  "ad_at hdr xs p = (if p = 0 then hdr else ad (xs ! (p - 1)))"

definition ht_at :: "'s zitem list \<Rightarrow> nat \<Rightarrow> nat" where
  "ht_at xs p = (if p = 0 then ZSKIPLIST_MAXLEVEL else ht (xs ! (p - 1)))"

definition gap :: "'s zitem list \<Rightarrow> nat \<Rightarrow> nat \<Rightarrow> nat" where
  "gap xs i p = length (takeWhile (\<lambda>x. ht x \<le> i) (drop p xs))"

definition link :: "'s zitem list \<Rightarrow> nat \<Rightarrow> nat \<Rightarrow> zskiplistLevel" where
  "link xs i p =
     (let k = gap xs i p in
      if p + k < length xs then \<lparr>forward = Some (ad (xs ! (p + k))), span = of_nat (k + 1)\<rparr>
      else \<lparr>forward = None, span = of_nat k\<rparr>)"

text \<open>The last position up to \<open>r\<close> with more than \<open>i\<close> levels.\<close>

fun prv :: "'s zitem list \<Rightarrow> nat \<Rightarrow> nat \<Rightarrow> nat" where
  "prv xs i 0 = 0"
| "prv xs i (Suc r) = (if ht (xs ! r) > i then Suc r else prv xs i r)"

lemma gap_le: "p \<le> length xs \<Longrightarrow> p + gap xs i p \<le> length xs"
  using length_takeWhile_le [of "\<lambda>x. ht x \<le> i" "drop p xs"] by (simp add: gap_def)

lemma gap_below: "p \<le> q \<Longrightarrow> q < p + gap xs i p \<Longrightarrow> ht (xs ! q) \<le> i"
proof -
  assume a: "p \<le> q" "q < p + gap xs i p"
  let ?t = "takeWhile (\<lambda>x. ht x \<le> i) (drop p xs)"
  have l: "q - p < length ?t" using a by (simp add: gap_def)
  then have "q - p < length (drop p xs)" using length_takeWhile_le less_le_trans by blast
  moreover have "?t ! (q - p) = drop p xs ! (q - p)" by (rule takeWhile_nth [OF l])
  moreover have "ht (?t ! (q - p)) \<le> i" using nth_mem [OF l] set_takeWhileD by fastforce
  ultimately show ?thesis using a(1) by simp
qed

lemma gap_stop: "p + gap xs i p < length xs \<Longrightarrow> i < ht (xs ! (p + gap xs i p))"
  using nth_length_takeWhile [of "\<lambda>x. ht x \<le> i" "drop p xs"] by (simp add: gap_def not_le)

lemma prv_le: "prv xs i r \<le> r"
  by (induction r) auto

lemma prv_ht: "i < ZSKIPLIST_MAXLEVEL \<Longrightarrow> i < ht_at xs (prv xs i r)"
  by (induction r) (auto simp: ht_at_def)

lemma prv_below: "prv xs i r \<le> q \<Longrightarrow> q < r \<Longrightarrow> ht (xs ! q) \<le> i"
  by (induction r) (auto simp: less_Suc_eq split: if_splits)

lemma prv_eq:
  assumes "p \<le> r" "i < ht_at xs p" "\<forall>q. p \<le> q \<and> q < r \<longrightarrow> ht (xs ! q) \<le> i"
  shows "prv xs i r = p"
  using assms
proof (induction r)
  case (Suc r)
  show ?case
  proof (cases "p = Suc r")
    case True
    then show ?thesis using Suc.prems(2) by (simp add: ht_at_def)
  next
    case False
    then have "ht (xs ! r) \<le> i" "prv xs i r = p" using Suc by auto
    then show ?thesis by simp
  qed
qed simp

lemma prv_0: "\<forall>x \<in> set xs. 1 \<le> ht x \<Longrightarrow> r \<le> length xs \<Longrightarrow> prv xs 0 r = r"
  by (cases r) (auto simp: Suc_le_eq)

lemma prv_top: "\<forall>x \<in> set xs. ht x \<le> i \<Longrightarrow> r \<le> length xs \<Longrightarrow> prv xs i r = 0"
  by (induction r) (auto simp: not_less)

section \<open>The representation\<close>

definition zsl_node :: "'s zitem list \<Rightarrow> nat \<Rightarrow> 's zskiplistNode" where
  "zsl_node xs p = \<lparr>zn_obj = Some (ob (xs ! p)), zn_score = sc (xs ! p),
     backward = (if p = 0 then None else Some (ad (xs ! (p - 1)))), levels = map (\<lambda>i. link xs i (p + 1)) [0..<ht (xs ! p)]\<rparr>"

definition zsl_rep :: "'s zheap \<Rightarrow> zskiplist \<Rightarrow> 's zitem list \<Rightarrow> bool" where
  "zsl_rep h zsl xs \<longleftrightarrow>
     1 \<le> zlevel zsl \<and> zlevel zsl \<le> ZSKIPLIST_MAXLEVEL \<and> length xs < 2 ^ 32 \<and> distinct (zheader zsl # map ad xs)
     \<and> (\<forall>x \<in> set xs. 1 \<le> ht x \<and> ht x \<le> zlevel zsl)
     \<and> (\<exists>nd. h (zheader zsl) = Some nd \<and> zn_obj nd = None \<and> backward nd = None \<and> length (levels nd) = ZSKIPLIST_MAXLEVEL
          \<and> (\<forall>i < zlevel zsl. levels nd ! i = link xs i 0)
          \<and> (\<forall>i. zlevel zsl \<le> i \<and> i < ZSKIPLIST_MAXLEVEL \<longrightarrow> forward (levels nd ! i) = None))
     \<and> (\<forall>p < length xs. h (ad (xs ! p)) = Some (zsl_node xs p))
     \<and> ztail zsl = (if xs = [] then None else Some (ad (last xs))) \<and> zlength zsl = of_nat (length xs)"

lemma zsl_repD:
  assumes "zsl_rep h zsl xs"
  shows "1 \<le> zlevel zsl" "zlevel zsl \<le> ZSKIPLIST_MAXLEVEL" "length xs < 2 ^ 32" "distinct (zheader zsl # map ad xs)"
    "\<forall>x \<in> set xs. 1 \<le> ht x" "\<forall>x \<in> set xs. ht x \<le> zlevel zsl" "p < length xs \<Longrightarrow> h (ad (xs ! p)) = Some (zsl_node xs p)"
    "ztail zsl = (if xs = [] then None else Some (ad (last xs)))" "zlength zsl = of_nat (length xs)"
  using assms by (auto simp: zsl_rep_def)

lemma zsl_rep_header:
  assumes "zsl_rep h zsl xs"
  obtains nd where "h (zheader zsl) = Some nd" "zn_obj nd = None" "backward nd = None" "length (levels nd) = ZSKIPLIST_MAXLEVEL"
    "\<forall>i < zlevel zsl. levels nd ! i = link xs i 0" "\<forall>i. zlevel zsl \<le> i \<and> i < ZSKIPLIST_MAXLEVEL \<longrightarrow> forward (levels nd ! i) = None"
  using assms unfolding zsl_rep_def by blast

lemma level_at_rep:
  assumes rep: "zsl_rep h zsl xs" and p: "p \<le> length xs" "i < ht_at xs p" "i < zlevel zsl"
  shows "level_at h (ad_at (zheader zsl) xs p) i = Some (link xs i p)"
proof (cases "p = 0")
  case True
  obtain nd where "h (zheader zsl) = Some nd" "length (levels nd) = ZSKIPLIST_MAXLEVEL" "\<forall>i < zlevel zsl. levels nd ! i = link xs i 0"
    by (rule zsl_rep_header [OF rep])
  then show ?thesis using True p zsl_repD(2) [OF rep] by (simp add: level_at_def ad_at_def)
next
  case False
  then have "h (ad (xs ! (p - 1))) = Some (zsl_node xs (p - 1))" using zsl_repD(7) [OF rep, of "p - 1"] p(1) by simp
  then show ?thesis using False p by (simp add: level_at_def ad_at_def ht_at_def zsl_node_def)
qed

section \<open>Searching\<close>

text \<open>A condition that holds of the items up to position \<open>r\<close>.\<close>

definition cond_upto :: "('r::len, 's) zcond \<Rightarrow> 's zitem list \<Rightarrow> nat \<Rightarrow> bool" where
  "cond_upto cond xs r \<longleftrightarrow>
     (\<forall>p q. p \<le> q \<and> q < length xs \<longrightarrow> cond (of_nat p) (of_nat (q + 1 - p)) (zsl_node xs q) = Some (q < r))"

lemma ucast_span: "k < 2 ^ 32 \<Longrightarrow> ucast (of_nat k :: u32) = (of_nat k :: 'r::len word)"
  by (simp add: unsigned_of_nat take_bit_nat_eq_self)

lemma walk_level_rep:
  fixes cond :: "('r::len, 's) zcond"
  assumes rep: "zsl_rep h zsl xs" and c: "cond_upto cond xs r" and r: "r \<le> length xs" and i: "i < zlevel zsl"
    and p: "p \<le> r" "i < ht_at xs p"
  shows "walk_level cond h i (ad_at (zheader zsl) xs p) (of_nat p) = Some (ad_at (zheader zsl) xs (prv xs i r), of_nat (prv xs i r))"
  using p
proof (induction "r - p" arbitrary: p rule: less_induct)
  case less
  have lv: "level_at h (ad_at (zheader zsl) xs p) i = Some (link xs i p)"
    using level_at_rep [OF rep _ less.prems(2) i] less.prems(1) r by simp
  define k where "k = gap xs i p"
  show ?case
  proof (cases "p + k < length xs")
    case False
    have "prv xs i r = p" by (rule prv_eq [OF less.prems]) (use gap_below [of p _ xs i] False r k_def in auto)
    then show ?thesis using lv False by (subst walk_level.simps) (simp add: link_def k_def Let_def)
  next
    case True
    have nd: "h (ad (xs ! (p + k))) = Some (zsl_node xs (p + k))" using zsl_repD(7) [OF rep True] .
    have go: "cond (of_nat p) (of_nat (k + 1)) (zsl_node xs (p + k)) = Some (p + k < r)"
      using c [unfolded cond_upto_def, rule_format, of p "p + k"] True by simp
    show ?thesis
    proof (cases "p + k < r")
      case stop: False
      have "prv xs i r = p" by (rule prv_eq [OF less.prems]) (use gap_below [of p _ xs i] stop k_def in auto)
      then show ?thesis using lv True nd go stop by (subst walk_level.simps) (simp add: link_def k_def Let_def)
    next
      case go_on: True
      define q where "q = p + k + 1"
      have q: "q \<le> r" "i < ht_at xs q" "r - q < r - p" using go_on gap_stop [of p xs i] True by (auto simp: q_def k_def ht_at_def)
      have "k + 1 < 2 ^ 32" using True zsl_repD(3) [OF rep] by simp
      then have "of_nat p + ucast (of_nat (k + 1) :: u32) = (of_nat q :: 'r word)" by (simp only: ucast_span) (simp add: q_def)
      then have "walk_level cond h i (ad_at (zheader zsl) xs p) (of_nat p) = walk_level cond h i (ad_at (zheader zsl) xs q) (of_nat q)"
        using lv True nd go go_on by (subst walk_level.simps) (simp add: link_def k_def Let_def ad_at_def q_def add_ac)
      then show ?thesis using less.hyps [OF q(3,1,2)] by simp
    qed
  qed
qed

lemma descend_rep:
  assumes rep: "zsl_rep h zsl xs" and c: "cond_upto cond xs r" and r: "r \<le> length xs" and j: "j \<le> zlevel zsl" "j \<le> ht_at xs p" "p \<le> r"
  shows "descend cond h j (ad_at (zheader zsl) xs p) (of_nat p) =
    Some (map (\<lambda>i. ad_at (zheader zsl) xs (prv xs i r)) [0..<j], map (\<lambda>i. of_nat (prv xs i r)) [0..<j],
          if j = 0 then ad_at (zheader zsl) xs p else ad_at (zheader zsl) xs r)"
  using j
proof (induction j arbitrary: p)
  case (Suc j)
  have i: "j < zlevel zsl" "j < ht_at xs p" using Suc.prems by simp_all
  have w: "walk_level cond h j (ad_at (zheader zsl) xs p) (of_nat p) = Some (ad_at (zheader zsl) xs (prv xs j r), of_nat (prv xs j r))"
    by (rule walk_level_rep [OF rep c r i(1) Suc.prems(3) i(2)])
  have "j < ht_at xs (prv xs j r)" by (rule prv_ht) (use i(1) zsl_repD(2) [OF rep] in simp)
  then have "descend cond h j (ad_at (zheader zsl) xs (prv xs j r)) (of_nat (prv xs j r)) =
    Some (map (\<lambda>i. ad_at (zheader zsl) xs (prv xs i r)) [0..<j], map (\<lambda>i. of_nat (prv xs i r)) [0..<j],
          if j = 0 then ad_at (zheader zsl) xs (prv xs j r) else ad_at (zheader zsl) xs r)"
    using Suc.IH [of "prv xs j r"] Suc.prems(1) prv_le [of xs j r] by simp
  then show ?case using w prv_0 [OF zsl_repD(5) [OF rep] r] by simp
qed simp

end
