(* ===== verification/Skiplist_Links.thy ===== *)
theory Skiplist_Links
  imports Skiplist_Rep
begin

text \<open>
  How the links of a skip list change when an item is inserted or removed, and what the loops
  over the levels do to the heap. Nodes are compared by the fields that the loops leave alone
  and by their levels.
\<close>

section \<open>Links after an insertion\<close>

definition ins :: "'s zitem list \<Rightarrow> nat \<Rightarrow> 's zitem \<Rightarrow> 's zitem list" where
  "ins xs r y = take r xs @ y # drop r xs"

definition shift :: "nat \<Rightarrow> nat \<Rightarrow> nat" where
  "shift r p = (if p \<le> r then p else p + 1)"

lemma length_ins [simp]: "r \<le> length xs \<Longrightarrow> length (ins xs r y) = Suc (length xs)"
  by (simp add: ins_def)

lemma nth_ins:
  "r \<le> length xs \<Longrightarrow> p < r \<Longrightarrow> ins xs r y ! p = xs ! p"
  "r \<le> length xs \<Longrightarrow> ins xs r y ! r = y"
  "r \<le> length xs \<Longrightarrow> r \<le> p \<Longrightarrow> ins xs r y ! Suc p = xs ! p"
  by (simp_all add: ins_def nth_append Suc_diff_le)

lemma gap_behind: "r \<le> length xs \<Longrightarrow> r \<le> p \<Longrightarrow> gap (ins xs r y) i (Suc p) = gap xs i p"
  by (simp add: gap_def ins_def Suc_diff_le)

lemma drop_ins: "p \<le> r \<Longrightarrow> r \<le> length xs \<Longrightarrow> drop p (ins xs r y) = drop p (take r xs) @ y # drop r xs"
  by (simp add: ins_def)

lemma drop_split: "p \<le> r \<Longrightarrow> r \<le> length xs \<Longrightarrow> drop p xs = drop p (take r xs) @ drop r xs"
  by (metis append_take_drop_id drop_append drop_eq_Nil append_Nil2 length_take min.absorb2 diff_is_0_eq' drop0)

lemma gap_blocked:
  assumes "r \<le> length xs" "p \<le> q" "q < r" "i < ht (xs ! q)"
  shows "gap (ins xs r y) i p = gap xs i p" "p + gap xs i p \<le> q"
proof -
  have "xs ! q \<in> set (drop p (take r xs))"
    using assms by (auto simp: in_set_conv_nth intro!: exI [of _ "q - p"])
  then show "gap (ins xs r y) i p = gap xs i p"
    using assms drop_ins [of p r xs y] drop_split [of p r xs] takeWhile_append1 [of "xs ! q" "drop p (take r xs)" "\<lambda>x. ht x \<le> i"]
    by (simp add: gap_def)
  show "p + gap xs i p \<le> q" using gap_below [OF assms(2), of xs i] assms(4) by (meson not_le)
qed

lemma gap_clear:
  assumes "p \<le> r" "r \<le> length xs" "\<forall>q. p \<le> q \<and> q < r \<longrightarrow> ht (xs ! q) \<le> i"
  shows "gap xs i p = r - p + gap xs i r" "gap (ins xs r y) i p = r - p + (if i < ht y then 0 else Suc (gap xs i r))"
proof -
  have all: "\<forall>x \<in> set (drop p (take r xs)). ht x \<le> i"
  proof
    fix x assume "x \<in> set (drop p (take r xs))"
    then obtain j where "j < r - p" "x = xs ! (p + j)" using assms(1,2) by (auto simp: in_set_conv_nth)
    then show "ht x \<le> i" using assms(3) [rule_format, of "p + j"] by simp
  qed
  show "gap xs i p = r - p + gap xs i r"
    using drop_split [OF assms(1,2)] takeWhile_append2 [of "drop p (take r xs)" "\<lambda>x. ht x \<le> i" "drop r xs"] all assms(1,2) by (simp add: gap_def)
  show "gap (ins xs r y) i p = r - p + (if i < ht y then 0 else Suc (gap xs i r))"
    using drop_ins [OF assms(1,2), of y] takeWhile_append2 [of "drop p (take r xs)" "\<lambda>x. ht x \<le> i" "y # drop r xs"] all assms(1,2)
    by (simp add: gap_def not_le)
qed

lemma link_behind:
  assumes "r \<le> length xs" "r \<le> p"
  shows "link (ins xs r y) i (Suc p) = link xs i p"
  using assms gap_behind [OF assms] nth_ins(3) [OF assms(1), of "p + gap xs i p"] by (simp add: link_def Let_def)

lemma link_insert:
  assumes r: "r \<le> length xs" and p: "p \<le> length xs" "i < ht_at xs p"
  shows "link (ins xs r y) i (shift r p) =
    (if p = prv xs i r then
       if i < ht y then \<lparr>forward = Some (ad y), span = of_nat r - of_nat p + 1\<rparr> else (link xs i p)\<lparr>span := span (link xs i p) + 1\<rparr>
     else link xs i p)"
proof (cases "p \<le> r")
  case False
  then have "p \<noteq> prv xs i r" using prv_le [of xs i r] by auto
  then show ?thesis using False link_behind [OF r, of p] by (simp add: shift_def)
next
  case le: True
  show ?thesis
  proof (cases "\<exists>q. p \<le> q \<and> q < r \<and> i < ht (xs ! q)")
    case True
    then obtain q where q: "p \<le> q" "q < r" "i < ht (xs ! q)" by blast
    have "p \<noteq> prv xs i r" using prv_below [of xs i r q] q by auto
    moreover have "p + gap xs i p < r" using gap_blocked(2) [OF r q] q(2) by simp
    ultimately show ?thesis using gap_blocked(1) [OF r q] le r nth_ins(1) [OF r, of "p + gap xs i p"] by (simp add: shift_def link_def Let_def)
  next
    case False
    then have clear: "\<forall>q. p \<le> q \<and> q < r \<longrightarrow> ht (xs ! q) \<le> i" by (auto simp: not_less)
    have pv: "prv xs i r = p" by (rule prv_eq [OF le p(2) clear])
    note g = gap_clear [OF le r clear]
    show ?thesis
    proof (cases "i < ht y")
      case True
      then show ?thesis using pv le r g(2) nth_ins(2) [OF r] by (simp add: shift_def link_def Let_def of_nat_diff)
    next
      case hy: False
      have "r + gap xs i r < length xs \<Longrightarrow> ins xs r y ! Suc (r + gap xs i r) = xs ! (r + gap xs i r)" by (simp add: nth_ins(3) [OF r])
      then show ?thesis using pv le r g hy by (simp add: shift_def link_def Let_def)
    qed
  qed
qed

lemma link_new:
  assumes r: "r \<le> length xs" and i: "i < ZSKIPLIST_MAXLEVEL"
  shows "link (ins xs r y) i (Suc r) =
    \<lparr>forward = forward (link xs i (prv xs i r)), span = span (link xs i (prv xs i r)) - (of_nat r - of_nat (prv xs i r))\<rparr>"
proof -
  define p where "p = prv xs i r"
  have le: "p \<le> r" and clear: "\<forall>q. p \<le> q \<and> q < r \<longrightarrow> ht (xs ! q) \<le> i"
    using prv_le prv_below by (auto simp: p_def)
  have "gap xs i p = r - p + gap xs i r" by (rule gap_clear(1) [OF le r clear])
  then show ?thesis using link_behind [OF r order_refl, of y i] le r unfolding p_def [symmetric]
    by (simp add: link_def Let_def of_nat_diff)
qed

lemma ad_at_ins: "r \<le> length xs \<Longrightarrow> p \<le> length xs \<Longrightarrow> ad_at hdr (ins xs r y) (shift r p) = ad_at hdr xs p"
  by (cases p) (auto simp: ad_at_def shift_def nth_ins)

section \<open>The heap\<close>

definition meta :: "'s zskiplistNode \<Rightarrow> str_obj option \<times> 's \<times> zaddr option \<times> nat" where
  "meta nd = (zn_obj nd, zn_score nd, backward nd, length (levels nd))"

lemma node_eqI: "meta nd = meta nd' \<Longrightarrow> (\<And>i. i < length (levels nd) \<Longrightarrow> levels nd ! i = levels nd' ! i) \<Longrightarrow> nd = nd'"
  by (cases nd; cases nd') (auto simp: meta_def intro: nth_equalityI)

definition same_meta :: "'s zheap \<Rightarrow> 's zheap \<Rightarrow> bool" where
  "same_meta h h' \<longleftrightarrow> (\<forall>x. map_option meta (h' x) = map_option meta (h x))"

lemma same_meta_refl [simp]: "same_meta h h"
  by (simp add: same_meta_def)

lemma same_meta_trans: "same_meta h h1 \<Longrightarrow> same_meta h1 h2 \<Longrightarrow> same_meta h h2"
  by (simp add: same_meta_def)

lemma set_level_spec:
  assumes "level_at h x i = Some lv"
  obtains h' where "set_level h x i f = Some h'" "same_meta h h'"
    "\<forall>y j. level_at h' y j = (if y = x \<and> j = i then Some (f lv) else level_at h y j)"
proof -
  obtain nd where nd: "h x = Some nd" "i < length (levels nd)" "lv = levels nd ! i"
    using assms by (auto simp: level_at_def bind_eq_Some_conv get_at_def split: if_splits)
  show thesis
    by (rule that [of "h(x \<mapsto> nd\<lparr>levels := (levels nd)[i := f lv]\<rparr>)"])
       (use nd in \<open>auto simp: set_level_def same_meta_def meta_def level_at_def get_at_def nth_list_update\<close>)
qed

lemma raise_levels_spec:
  assumes "\<forall>j < n. level_at h hdr (i + j) \<noteq> None"
  obtains h' where "raise_levels hdr len i n h = Some h'" "same_meta h h'"
    "\<forall>y k. level_at h' y k = (if y = hdr \<and> i \<le> k \<and> k < i + n then map_option (\<lambda>l. l\<lparr>span := ucast len\<rparr>) (level_at h y k) else level_at h y k)"
  using assms
proof (induction n arbitrary: i h thesis)
  case 0
  show thesis by (rule 0(1) [of h]) auto
next
  case (Suc n)
  obtain lv where lv: "level_at h hdr i = Some lv" using Suc.prems(2) [rule_format, of 0] by auto
  obtain h1 where h1: "set_level h hdr i (\<lambda>l. l\<lparr>span := ucast len\<rparr>) = Some h1" "same_meta h h1"
    "\<forall>y j. level_at h1 y j = (if y = hdr \<and> j = i then Some (lv\<lparr>span := ucast len\<rparr>) else level_at h y j)" by (rule set_level_spec [OF lv])
  have "\<forall>j < n. level_at h1 hdr (i + 1 + j) \<noteq> None" using Suc.prems(2) h1(3) by (metis Suc_eq_plus1 add_Suc_right add_Suc_shift Suc_less_eq option.distinct(1))
  then obtain h2 where h2: "raise_levels hdr len (i + 1) n h1 = Some h2" "same_meta h1 h2"
    "\<forall>y k. level_at h2 y k = (if y = hdr \<and> i + 1 \<le> k \<and> k < i + 1 + n then map_option (\<lambda>l. l\<lparr>span := ucast len\<rparr>) (level_at h1 y k) else level_at h1 y k)"
    by (rule Suc.IH [rotated])
  show thesis
    by (rule Suc.prems(1) [of h2]) (use h1 h2 lv same_meta_trans in \<open>auto simp: Suc_le_eq less_Suc_eq_le\<close>)
qed

text \<open>The loop over the levels of a new node \<open>a\<close>: \<open>L\<close> are the levels of the nodes before it.\<close>

lemma link_levels_spec:
  assumes "\<forall>j < length us. level_at h (us ! j) (i + j) = Some (L j)" "a \<notin> set us" "\<forall>j < length us. level_at h a (i + j) \<noteq> None"
    "length us \<le> length rs"
  obtains h' where "link_levels a r0 us rs i h = Some h'" "same_meta h h'"
    "\<forall>y k. level_at h' y k =
       (if i \<le> k \<and> k < i + length us then
          if y = a then Some \<lparr>forward = forward (L (k - i)), span = span (L (k - i)) - (r0 - rs ! (k - i))\<rparr>
          else if y = us ! (k - i) then Some \<lparr>forward = Some a, span = r0 - rs ! (k - i) + 1\<rparr> else level_at h y k
        else level_at h y k)"
  using assms
proof (induction us arbitrary: i h rs L thesis)
  case Nil
  show thesis by (rule Nil(1) [of h]) auto
next
  case (Cons u us)
  have u: "level_at h u i = Some (L 0)" "u \<noteq> a" "a \<notin> set us" using Cons.prems(2) [rule_format, of 0] Cons.prems(3) by auto
  obtain r rs' where rs: "rs = r # rs'" using Cons.prems(5) by (cases rs) auto
  obtain la where la: "level_at h a i = Some la" using Cons.prems(4) [rule_format, of 0] by auto
  obtain h1 where h1: "set_level h a i (\<lambda>l. l\<lparr>forward := forward (L 0), span := span (L 0) - (r0 - r)\<rparr>) = Some h1" "same_meta h h1"
    "\<forall>y j. level_at h1 y j = (if y = a \<and> j = i then Some (la\<lparr>forward := forward (L 0), span := span (L 0) - (r0 - r)\<rparr>) else level_at h y j)"
    by (rule set_level_spec [OF la])
  have "level_at h1 u i = Some (L 0)" using h1(3) u by simp
  then obtain h2 where h2: "set_level h1 u i (\<lambda>l. l\<lparr>forward := Some a, span := r0 - r + 1\<rparr>) = Some h2" "same_meta h1 h2"
    "\<forall>y j. level_at h2 y j = (if y = u \<and> j = i then Some ((L 0)\<lparr>forward := Some a, span := r0 - r + 1\<rparr>) else level_at h1 y j)"
    by (rule set_level_spec)
  have above: "level_at h2 y (Suc (i + j)) = level_at h y (Suc (i + j))" for y j using h1(3) h2(3) by simp
  have p1: "\<forall>j < length us. level_at h2 (us ! j) (i + 1 + j) = Some (L (Suc j))"
    using Cons.prems(2) [rule_format, of "Suc j" for j] above by simp
  have p2: "\<forall>j < length us. level_at h2 a (i + 1 + j) \<noteq> None"
    using Cons.prems(4) [rule_format, of "Suc j" for j] above by simp
  have len: "length us \<le> length rs'" using Cons.prems(5) rs by simp
  obtain h3 where h3: "link_levels a r0 us rs' (i + 1) h2 = Some h3" "same_meta h2 h3"
    "\<forall>y k. level_at h3 y k =
       (if i + 1 \<le> k \<and> k < i + 1 + length us then
          if y = a then Some \<lparr>forward = forward (L (Suc (k - (i + 1)))), span = span (L (Suc (k - (i + 1)))) - (r0 - rs' ! (k - (i + 1)))\<rparr>
          else if y = us ! (k - (i + 1)) then Some \<lparr>forward = Some a, span = r0 - rs' ! (k - (i + 1)) + 1\<rparr> else level_at h2 y k
        else level_at h2 y k)"
    by (rule Cons.IH [OF _ p1 u(3) p2 len])
  have lv: "level_at h3 y k =
       (if i \<le> k \<and> k < i + length (u # us) then
          if y = a then Some \<lparr>forward = forward (L (k - i)), span = span (L (k - i)) - (r0 - rs ! (k - i))\<rparr>
          else if y = (u # us) ! (k - i) then Some \<lparr>forward = Some a, span = r0 - rs ! (k - i) + 1\<rparr> else level_at h y k
        else level_at h y k)" for y k
  proof (cases "k = i")
    case True
    then show ?thesis using h3(3) h2(3) h1(3) u(2) rs by simp
  next
    case False
    then have "level_at h2 y k = level_at h y k" using h2(3) h1(3) by simp
    moreover have "i + 1 \<le> k \<longleftrightarrow> i \<le> k" using False by auto
    moreover have "i \<le> k \<Longrightarrow> k - i = Suc (k - (i + 1))" using False by auto
    ultimately show ?thesis using h3(3) [rule_format, of y k] rs by simp
  qed
  have "link_levels a r0 (u # us) rs i h = Some h3" using u(1) rs h1(1) h2(1) h3(1) by simp
  then show thesis by (rule Cons.prems(1)) (use same_meta_trans [OF same_meta_trans [OF h1(2) h2(2)] h3(2)] lv in blast)+
qed

lemma widen_levels_spec:
  assumes "\<forall>j < length us. level_at h (us ! j) (i + j) = Some (L j)"
  obtains h' where "widen_levels us i h = Some h'" "same_meta h h'"
    "\<forall>y k. level_at h' y k =
       (if i \<le> k \<and> k < i + length us \<and> y = us ! (k - i) then Some ((L (k - i))\<lparr>span := span (L (k - i)) + 1\<rparr>) else level_at h y k)"
  using assms
proof (induction us arbitrary: i h L thesis)
  case Nil
  show thesis by (rule Nil(1) [of h]) auto
next
  case (Cons u us)
  have u: "level_at h u i = Some (L 0)" using Cons.prems(2) [rule_format, of 0] by simp
  obtain h1 where h1: "set_level h u i (\<lambda>l. l\<lparr>span := span l + 1\<rparr>) = Some h1" "same_meta h h1"
    "\<forall>y j. level_at h1 y j = (if y = u \<and> j = i then Some ((L 0)\<lparr>span := span (L 0) + 1\<rparr>) else level_at h y j)" by (rule set_level_spec [OF u])
  have p1: "\<forall>j < length us. level_at h1 (us ! j) (i + 1 + j) = Some (L (Suc j))"
    using Cons.prems(2) [rule_format, of "Suc j" for j] h1(3) by simp
  obtain h2 where h2: "widen_levels us (i + 1) h1 = Some h2" "same_meta h1 h2"
    "\<forall>y k. level_at h2 y k = (if i + 1 \<le> k \<and> k < i + 1 + length us \<and> y = us ! (k - (i + 1))
       then Some ((L (Suc (k - (i + 1))))\<lparr>span := span (L (Suc (k - (i + 1)))) + 1\<rparr>) else level_at h1 y k)" by (rule Cons.IH [OF _ p1])
  have lv: "level_at h2 y k = (if i \<le> k \<and> k < i + length (u # us) \<and> y = (u # us) ! (k - i)
       then Some ((L (k - i))\<lparr>span := span (L (k - i)) + 1\<rparr>) else level_at h y k)" for y k
  proof (cases "k = i")
    case True
    then show ?thesis using h2(3) h1(3) by simp
  next
    case False
    then have "i \<le> k \<Longrightarrow> k - i = Suc (k - (i + 1))" "i + 1 \<le> k \<longleftrightarrow> i \<le> k" by auto
    then show ?thesis using h2(3) [rule_format, of y k] h1(3) False by simp
  qed
  have "widen_levels (u # us) i h = Some h2" using h1(1) h2(1) by simp
  then show thesis by (rule Cons.prems(1)) (use same_meta_trans [OF h1(2) h2(2)] lv in blast)+
qed

definition unlinked :: "zaddr \<Rightarrow> zskiplistLevel \<Rightarrow> zskiplistLevel \<Rightarrow> zskiplistLevel" where
  "unlinked x lu lx = (if forward lu = Some x then lu\<lparr>span := span lu + (span lx - 1), forward := forward lx\<rparr> else lu\<lparr>span := span lu - 1\<rparr>)"

lemma unlink_levels_spec:
  assumes "\<forall>j < length us. level_at h (us ! j) (i + j) = Some (L j)" "x \<notin> set us"
    "\<forall>j < length us. forward (L j) = Some x \<longrightarrow> level_at h x (i + j) = Some (X j)"
  obtains h' where "unlink_levels x us i h = Some h'" "same_meta h h'"
    "\<forall>y k. level_at h' y k =
       (if i \<le> k \<and> k < i + length us \<and> y = us ! (k - i) then Some (unlinked x (L (k - i)) (X (k - i))) else level_at h y k)"
  using assms
proof (induction us arbitrary: i h L X thesis)
  case Nil
  show thesis by (rule Nil(1) [of h]) auto
next
  case (Cons u us)
  have u: "level_at h u i = Some (L 0)" "x \<notin> set us" "x \<noteq> u" using Cons.prems(2) [rule_format, of 0] Cons.prems(3) by auto
  obtain h1 where h1: "(if forward (L 0) = Some x then do { lx \<leftarrow> level_at h x i;
       set_level h u i (\<lambda>l. l\<lparr>span := span l + (span lx - 1), forward := forward lx\<rparr>) }
     else set_level h u i (\<lambda>l. l\<lparr>span := span l - 1\<rparr>)) = Some h1" "same_meta h h1"
    "\<forall>y j. level_at h1 y j = (if y = u \<and> j = i then Some (unlinked x (L 0) (X 0)) else level_at h y j)"
  proof (cases "forward (L 0) = Some x")
    case True
    then have lx: "level_at h x i = Some (X 0)" using Cons.prems(4) [rule_format, of 0] by simp
    show thesis by (rule set_level_spec [OF u(1), of "\<lambda>l. l\<lparr>span := span l + (span (X 0) - 1), forward := forward (X 0)\<rparr>"])
        (rule that, use True lx in \<open>auto simp: unlinked_def\<close>)
  next
    case False
    show thesis by (rule set_level_spec [OF u(1), of "\<lambda>l. l\<lparr>span := span l - 1\<rparr>"]) (rule that, use False in \<open>auto simp: unlinked_def\<close>)
  qed
  have p1: "\<forall>j < length us. level_at h1 (us ! j) (i + 1 + j) = Some (L (Suc j))"
    using Cons.prems(2) [rule_format, of "Suc j" for j] h1(3) by simp
  have p2: "\<forall>j < length us. forward (L (Suc j)) = Some x \<longrightarrow> level_at h1 x (i + 1 + j) = Some (X (Suc j))"
    using Cons.prems(4) [rule_format, of "Suc j" for j] h1(3) by simp
  obtain h2 where h2: "unlink_levels x us (i + 1) h1 = Some h2" "same_meta h1 h2"
    "\<forall>y k. level_at h2 y k = (if i + 1 \<le> k \<and> k < i + 1 + length us \<and> y = us ! (k - (i + 1))
       then Some (unlinked x (L (Suc (k - (i + 1)))) (X (Suc (k - (i + 1))))) else level_at h1 y k)" by (rule Cons.IH [OF _ p1 u(2) p2])
  have lv: "level_at h2 y k = (if i \<le> k \<and> k < i + length (u # us) \<and> y = (u # us) ! (k - i)
       then Some (unlinked x (L (k - i)) (X (k - i))) else level_at h y k)" for y k
  proof (cases "k = i")
    case True
    then show ?thesis using h2(3) h1(3) by simp
  next
    case False
    then have "i \<le> k \<Longrightarrow> k - i = Suc (k - (i + 1))" "i + 1 \<le> k \<longleftrightarrow> i \<le> k" by auto
    then show ?thesis using h2(3) [rule_format, of y k] h1(3) False by simp
  qed
  have "unlink_levels x (u # us) i h = Some h2" using u(1) h1(1) h2(1) by simp
  then show thesis by (rule Cons.prems(1)) (use same_meta_trans [OF h1(2) h2(2)] lv in blast)+
qed

end
