(* ===== verification/Skiplist_Insert.thy ===== *)
theory Skiplist_Insert
  imports Skiplist_Links
begin

text \<open>
  Insertion into a skip list: the loops over the levels turn the links of a list of items into
  the links of the list with one more item.
\<close>

section \<open>The representation by levels\<close>

definition back_of :: "'s zitem list \<Rightarrow> nat \<Rightarrow> zaddr option" where
  "back_of xs p = (if p = 0 then None else Some (ad (xs ! (p - 1))))"

lemma level_at_nth: "h x = Some nd \<Longrightarrow> i < length (levels nd) \<Longrightarrow> level_at h x i = Some (levels nd ! i)"
  by (simp add: level_at_def)

lemma zsl_repI:
  assumes "1 \<le> zlevel zsl" "zlevel zsl \<le> ZSKIPLIST_MAXLEVEL" "length xs < 2 ^ 32" "distinct (zheader zsl # map ad xs)"
    "\<forall>x \<in> set xs. 1 \<le> ht x \<and> ht x \<le> zlevel zsl"
    and hdr: "map_option meta (h (zheader zsl)) = Some (None, s, None, ZSKIPLIST_MAXLEVEL)" "\<forall>i < zlevel zsl. level_at h (zheader zsl) i = Some (link xs i 0)"
      "\<forall>i. zlevel zsl \<le> i \<and> i < ZSKIPLIST_MAXLEVEL \<longrightarrow> map_option forward (level_at h (zheader zsl) i) = Some None"
    and nodes: "\<forall>p < length xs. map_option meta (h (ad (xs ! p))) = Some (Some (ob (xs ! p)), sc (xs ! p), back_of xs p, ht (xs ! p))"
      "\<forall>p < length xs. \<forall>i < ht (xs ! p). level_at h (ad (xs ! p)) i = Some (link xs i (p + 1))"
    and "ztail zsl = (if xs = [] then None else Some (ad (last xs)))" "zlength zsl = of_nat (length xs)"
  shows "zsl_rep h zsl xs"
proof -
  obtain nd where nd: "h (zheader zsl) = Some nd" "zn_obj nd = None" "backward nd = None" "length (levels nd) = ZSKIPLIST_MAXLEVEL"
    using hdr(1) by (auto simp: meta_def)
  have "levels nd ! i = link xs i 0" if "i < zlevel zsl" for i
    using hdr(2) that level_at_nth [of h "zheader zsl" nd i] nd(1,4) assms(2) by simp
  moreover have "forward (levels nd ! i) = None" if "zlevel zsl \<le> i" "i < ZSKIPLIST_MAXLEVEL" for i
    using hdr(3) [rule_format, of i] that level_at_nth [of h "zheader zsl" nd i] nd(1,4) by simp
  moreover have "h (ad (xs ! p)) = Some (zsl_node xs p)" if p: "p < length xs" for p
  proof -
    obtain n where n: "h (ad (xs ! p)) = Some n" "meta n = (Some (ob (xs ! p)), sc (xs ! p), back_of xs p, ht (xs ! p))"
      using nodes(1) p by auto
    have "n = zsl_node xs p"
    proof (rule node_eqI)
      show "meta n = meta (zsl_node xs p)" using n(2) by (simp add: meta_def zsl_node_def back_of_def)
      show "levels n ! i = levels (zsl_node xs p) ! i" if "i < length (levels n)" for i
        using nodes(2) p n that level_at_nth [of h "ad (xs ! p)" n i] by (simp add: meta_def zsl_node_def)
    qed
    then show ?thesis using n(1) by simp
  qed
  ultimately show ?thesis unfolding zsl_rep_def using assms(1-5,11,12) nd by blast
qed

lemma zsl_rep_metas:
  assumes "zsl_rep h zsl xs"
  shows "\<exists>s. map_option meta (h (zheader zsl)) = Some (None, s, None, ZSKIPLIST_MAXLEVEL)"
    "p < length xs \<Longrightarrow> map_option meta (h (ad (xs ! p))) = Some (Some (ob (xs ! p)), sc (xs ! p), back_of xs p, ht (xs ! p))"
    "zlevel zsl \<le> i \<Longrightarrow> i < ZSKIPLIST_MAXLEVEL \<Longrightarrow> map_option forward (level_at h (zheader zsl) i) = Some None"
proof -
  obtain nd where nd: "h (zheader zsl) = Some nd" "zn_obj nd = None" "backward nd = None" "length (levels nd) = ZSKIPLIST_MAXLEVEL"
    "\<forall>i. zlevel zsl \<le> i \<and> i < ZSKIPLIST_MAXLEVEL \<longrightarrow> forward (levels nd ! i) = None" by (rule zsl_rep_header [OF assms])
  then show "\<exists>s. map_option meta (h (zheader zsl)) = Some (None, s, None, ZSKIPLIST_MAXLEVEL)" by (simp add: meta_def)
  show "map_option meta (h (ad (xs ! p))) = Some (Some (ob (xs ! p)), sc (xs ! p), back_of xs p, ht (xs ! p))" if "p < length xs"
    using zsl_repD(7) [OF assms that] by (simp add: zsl_node_def meta_def back_of_def)
  show "map_option forward (level_at h (zheader zsl) i) = Some None" if "zlevel zsl \<le> i" "i < ZSKIPLIST_MAXLEVEL"
    using nd that by (simp add: level_at_def)
qed

lemma ad_at_inj:
  assumes "distinct (hdr # map ad xs)" "p \<le> length xs" "q \<le> length xs"
  shows "ad_at hdr xs p = ad_at hdr xs q \<longleftrightarrow> p = q"
proof -
  have "ad_at hdr xs p = (hdr # map ad xs) ! p" if "p \<le> length xs" for p using that by (cases p) (auto simp: ad_at_def)
  then show ?thesis using assms nth_eq_iff_index_eq [OF assms(1), of p q] by simp
qed

lemma ht_at_level: "zsl_rep h zsl xs \<Longrightarrow> 0 < p \<Longrightarrow> p \<le> length xs \<Longrightarrow> ht_at xs p \<le> zlevel zsl"
  using zsl_repD(6) by (fastforce simp: ht_at_def)

lemma mset_ins: "mset (ins xs r y) = mset (y # xs)"
proof -
  have "mset xs = mset (take r xs) + mset (drop r xs)" by (metis append_take_drop_id mset_append)
  then show ?thesis by (simp add: ins_def)
qed

lemma set_ins: "set (ins xs r y) = insert y (set xs)"
  using mset_eq_setD [OF mset_ins [of xs r y]] by simp

lemma distinct_ins: "distinct (map ad (ins xs r y)) \<longleftrightarrow> ad y \<notin> ad ` set xs \<and> distinct (map ad xs)"
proof -
  have "mset (map ad (ins xs r y)) = mset (map ad (y # xs))" using mset_ins [of xs r y] by simp
  from mset_eq_imp_distinct_iff [OF this] show ?thesis by simp
qed

lemma ins_cases:
  assumes "p < length xs + 1"
  obtains (before) "p < r" | (here) "p = r" | (behind) q where "p = Suc q" "r \<le> q" "q < length xs"
  using assms by (cases "p < r"; cases "p = r"; cases p) auto

text \<open>When a heap has the links of the longer list.\<close>

lemma rep_insertI:
  assumes rep: "zsl_rep h zsl xs" and r: "r \<le> length xs" and room: "length xs + 1 < 2 ^ 32" and lv: "1 \<le> lv" "lv \<le> zlevel zsl"
    and fresh: "a \<noteq> zheader zsl" "a \<notin> ad ` set xs"
    and metaA: "map_option meta (h' a) = Some (Some x, s, back_of xs r, lv)"
    and metaO: "\<forall>p \<le> length xs. map_option meta (h' (ad_at (zheader zsl) xs p)) =
      map_option (\<lambda>nd. meta (if p = r + 1 then nd\<lparr>backward := Some a\<rparr> else nd)) (h (ad_at (zheader zsl) xs p))"
    and lvA: "\<forall>i < lv. level_at h' a i = Some (link (ins xs r (a, lv, s, x)) i (Suc r))"
    and lvO: "\<forall>p \<le> length xs. \<forall>i < zlevel zsl. i < ht_at xs p \<longrightarrow>
      level_at h' (ad_at (zheader zsl) xs p) i = Some (link (ins xs r (a, lv, s, x)) i (shift r p))"
    and lvT: "\<forall>i. zlevel zsl \<le> i \<and> i < ZSKIPLIST_MAXLEVEL \<longrightarrow> level_at h' (zheader zsl) i = level_at h (zheader zsl) i"
  shows "zsl_rep h' (zsl\<lparr>ztail := (if r = length xs then Some a else ztail zsl), zlength := zlength zsl + 1\<rparr>) (ins xs r (a, lv, s, x))"
proof -
  define y where "y = (a, lv, s, x)"
  note D = zsl_repD [OF rep]
  note n = nth_ins [OF r, where y = y]
  have hl: "i < zlevel zsl" if "p < length xs" "i < ht (xs ! p)" for p i
    using D(6) nth_mem [OF that(1)] that(2) by (meson less_le_trans)
  have set: "set (ins xs r y) = insert y (set xs)" by (rule set_ins)
  obtain s0 where s0: "map_option meta (h (zheader zsl)) = Some (None, s0, None, ZSKIPLIST_MAXLEVEL)" using zsl_rep_metas(1) [OF rep] by blast
  define zsl' where "zsl' = zsl\<lparr>ztail := (if r = length xs then Some a else ztail zsl), zlength := zlength zsl + 1\<rparr>"
  have z: "zlevel zsl' = zlevel zsl" "zheader zsl' = zheader zsl" "ztail zsl' = (if r = length xs then Some a else ztail zsl)"
    "zlength zsl' = zlength zsl + 1" by (simp_all add: zsl'_def)
  show ?thesis unfolding y_def [symmetric] zsl'_def [symmetric]
  proof (rule zsl_repI [where s = s0]; (unfold z)?)
    show "1 \<le> zlevel zsl" "zlevel zsl \<le> ZSKIPLIST_MAXLEVEL" using D by simp_all
    show "length (ins xs r y) < 2 ^ 32" using r room by simp
    have "distinct (map ad (ins xs r y))" unfolding distinct_ins using D(4) fresh(2) by (simp add: y_def)
    then show "distinct (zheader zsl # map ad (ins xs r y))" using D(4) fresh(1) set by (auto simp: y_def)
    show "\<forall>x \<in> set (ins xs r y). 1 \<le> ht x \<and> ht x \<le> zlevel zsl" using D(5,6) lv set by (simp add: y_def)
    show "map_option meta (h' (zheader zsl)) = Some (None, s0, None, ZSKIPLIST_MAXLEVEL)"
      using metaO [rule_format, of 0] s0 by (simp add: ad_at_def)
    show "\<forall>i < zlevel zsl. level_at h' (zheader zsl) i = Some (link (ins xs r y) i 0)"
      using lvO [rule_format, of 0] D(2) by (simp add: ad_at_def ht_at_def shift_def y_def)
    show "\<forall>i. zlevel zsl \<le> i \<and> i < ZSKIPLIST_MAXLEVEL \<longrightarrow> map_option forward (level_at h' (zheader zsl) i) = Some None"
      using lvT zsl_rep_metas(3) [OF rep] by simp
    show "\<forall>p < length (ins xs r y). map_option meta (h' (ad (ins xs r y ! p))) =
        Some (Some (ob (ins xs r y ! p)), sc (ins xs r y ! p), back_of (ins xs r y) p, ht (ins xs r y ! p))"
    proof (intro allI impI)
      fix p assume "p < length (ins xs r y)"
      then have "p < length xs + 1" using r by simp
      then show "map_option meta (h' (ad (ins xs r y ! p))) = Some (Some (ob (ins xs r y ! p)), sc (ins xs r y ! p), back_of (ins xs r y) p, ht (ins xs r y ! p))"
      proof (cases rule: ins_cases [of p xs r])
        case before
        then show ?thesis using metaO [rule_format, of "Suc p"] zsl_rep_metas(2) [OF rep, of p] r n(1)
          by (auto simp: ad_at_def back_of_def meta_def)
      next
        case here
        then show ?thesis using metaA n r by (cases "r = 0") (simp_all add: back_of_def y_def)
      next
        case (behind q)
        have "q \<noteq> r \<Longrightarrow> ins xs r y ! q = xs ! (q - 1)" using n(3) [of "q - 1"] behind(2) by (cases q) auto
        with behind show ?thesis using metaO [rule_format, of "Suc q"] zsl_rep_metas(2) [OF rep, of q] r n(2,3)
          by (auto simp: ad_at_def back_of_def meta_def y_def split: if_splits)
      qed
    qed
    show "\<forall>p < length (ins xs r y). \<forall>i < ht (ins xs r y ! p). level_at h' (ad (ins xs r y ! p)) i = Some (link (ins xs r y) i (p + 1))"
    proof (intro allI impI)
      fix p i assume "p < length (ins xs r y)" and i: "i < ht (ins xs r y ! p)"
      then have "p < length xs + 1" using r by simp
      then show "level_at h' (ad (ins xs r y ! p)) i = Some (link (ins xs r y) i (p + 1))"
      proof (cases rule: ins_cases [of p xs r])
        case before
        then show ?thesis using lvO [rule_format, of "Suc p" i] i r n(1) hl [of p i] by (auto simp: ad_at_def ht_at_def shift_def y_def)
      next
        case here
        then show ?thesis using lvA i n(2) by (simp add: y_def)
      next
        case (behind q)
        then show ?thesis using lvO [rule_format, of "Suc q" i] i r n(3) hl [of q i] by (auto simp: ad_at_def ht_at_def shift_def y_def)
      qed
    qed
    show "(if r = length xs then Some a else ztail zsl) = (if ins xs r y = [] then None else Some (ad (last (ins xs r y))))"
      using D(8) r by (auto simp: ins_def y_def)
    show "zlength zsl + 1 = of_nat (length (ins xs r y))" using D(9) r by simp
  qed
qed

section \<open>The loops\<close>

definition updates :: "zaddr \<Rightarrow> 's zitem list \<Rightarrow> nat \<Rightarrow> nat \<Rightarrow> zaddr list" where
  "updates hdr xs r n = map (\<lambda>i. ad_at hdr xs (prv xs i r)) [0..<n]"

lemma rep_ad_at:
  assumes "zsl_rep h zsl xs" "p \<le> length xs"
  shows "h (ad_at (zheader zsl) xs p) \<noteq> None"
proof (cases p)
  case 0
  obtain nd where "h (zheader zsl) = Some nd" by (rule zsl_rep_header [OF assms(1)])
  then show ?thesis using 0 by (simp add: ad_at_def)
next
  case (Suc q)
  then show ?thesis using zsl_repD(7) [OF assms(1), of q] assms(2) by (simp add: ad_at_def)
qed

lemma insert_links:
  assumes rep: "zsl_rep h zsl xs" and r: "r \<le> length xs" and lv: "lv \<le> zlevel zsl" and fresh: "h a = None"
    and nd: "length (levels nd) = lv"
    and us: "us = updates (zheader zsl) xs r (zlevel zsl)" and rs: "rs = map (\<lambda>i. of_nat (prv xs i r)) [0..<zlevel zsl]"
  obtains h2 h3 where "link_levels a (of_nat r) (take lv us) rs 0 (h(a \<mapsto> nd)) = Some h2" "widen_levels (drop lv us) lv h2 = Some h3"
    "same_meta (h(a \<mapsto> nd)) h3"
    "\<forall>i < lv. level_at h3 a i = Some (link (ins xs r (a, lv, s, x)) i (Suc r))"
    "\<forall>p \<le> length xs. \<forall>i < zlevel zsl. i < ht_at xs p \<longrightarrow>
       level_at h3 (ad_at (zheader zsl) xs p) i = Some (link (ins xs r (a, lv, s, x)) i (shift r p))"
    "\<forall>i. zlevel zsl \<le> i \<longrightarrow> level_at h3 (zheader zsl) i = level_at h (zheader zsl) i"
proof -
  let ?h = "h(a \<mapsto> nd)" and ?hdr = "zheader zsl"
  note D = zsl_repD [OF rep]
  define L where "L i = link xs i (prv xs i r)" for i
  have max: "zlevel zsl \<le> ZSKIPLIST_MAXLEVEL" using D(2) .
  have pn: "prv xs i r \<le> length xs" for i using prv_le [of xs i r] r by simp
  have na: "ad_at ?hdr xs p \<noteq> a" if "p \<le> length xs" for p using rep_ad_at [OF rep that] fresh by auto
  have other: "level_at ?h y k = level_at h y k" if "y \<noteq> a" for y k using that by (simp add: level_at_def)
  have Lh: "level_at ?h (ad_at ?hdr xs (prv xs k r)) k = Some (L k)" if "k < zlevel zsl" for k
    using level_at_rep [OF rep pn prv_ht that] that max other [OF na [OF pn]] by (simp add: L_def)
  have len: "length us = zlevel zsl" "length (take lv us) = lv" "length (drop lv us) = zlevel zsl - lv" using lv by (simp_all add: us updates_def)
  have nth: "us ! k = ad_at ?hdr xs (prv xs k r)" "rs ! k = of_nat (prv xs k r)" if "k < zlevel zsl" for k
    using that by (simp_all add: us rs updates_def)
  have "a \<notin> set us" using na [OF pn] by (auto simp: us updates_def)
  then have ua: "a \<notin> set (take lv us)" using in_set_takeD by metis
  have p1: "\<forall>j < length (take lv us). level_at ?h (take lv us ! j) (0 + j) = Some (L j)"
    using Lh nth lv len by simp
  have p2: "\<forall>j < length (take lv us). level_at ?h a (0 + j) \<noteq> None" using nd len by (simp add: level_at_def)
  have p3: "length (take lv us) \<le> length rs" using len lv by (simp add: rs)
  obtain h2 where h2: "link_levels a (of_nat r) (take lv us) rs 0 ?h = Some h2" "same_meta ?h h2"
    "\<forall>y k. level_at h2 y k = (if 0 \<le> k \<and> k < 0 + length (take lv us) then
          if y = a then Some \<lparr>forward = forward (L (k - 0)), span = span (L (k - 0)) - (of_nat r - rs ! (k - 0))\<rparr>
          else if y = take lv us ! (k - 0) then Some \<lparr>forward = Some a, span = of_nat r - rs ! (k - 0) + 1\<rparr> else level_at ?h y k
        else level_at ?h y k)" by (rule link_levels_spec [OF p1 ua p2 p3])
  have l2: "level_at h2 y k = (if k < lv then
          if y = a then Some \<lparr>forward = forward (L k), span = span (L k) - (of_nat r - of_nat (prv xs k r))\<rparr>
          else if y = ad_at ?hdr xs (prv xs k r) then Some \<lparr>forward = Some a, span = of_nat r - of_nat (prv xs k r) + 1\<rparr> else level_at ?h y k
        else level_at ?h y k)" for y k
    using h2(3) [rule_format, of y k] len nth [of k] lv by simp
  have p4: "\<forall>j < length (drop lv us). level_at h2 (drop lv us ! j) (lv + j) = Some (L (lv + j))"
    using Lh nth l2 len lv by simp
  obtain h3 where h3: "widen_levels (drop lv us) lv h2 = Some h3" "same_meta h2 h3"
    "\<forall>y k. level_at h3 y k = (if lv \<le> k \<and> k < lv + length (drop lv us) \<and> y = drop lv us ! (k - lv)
       then Some ((L (lv + (k - lv)))\<lparr>span := span (L (lv + (k - lv))) + 1\<rparr>) else level_at h2 y k)" by (rule widen_levels_spec [OF p4])
  have l3: "level_at h3 y k = (if lv \<le> k \<and> k < zlevel zsl \<and> y = ad_at ?hdr xs (prv xs k r)
       then Some ((L k)\<lparr>span := span (L k) + 1\<rparr>) else level_at h2 y k)" for y k
    using h3(3) [rule_format, of y k] len nth [of k] lv by (cases "lv \<le> k \<and> k < zlevel zsl") auto
  show thesis
  proof (rule that [OF h2(1) h3(1) same_meta_trans [OF h2(2) h3(2)]]; intro allI impI)
    fix i assume "i < lv"
    then show "level_at h3 a i = Some (link (ins xs r (a, lv, s, x)) i (Suc r))"
      using l3 [of a i] l2 [of a i] link_new [OF r, of i] lv max by (simp add: L_def)
  next
    fix p i assume p: "p \<le> length xs" "i < zlevel zsl" "i < ht_at xs p"
    have eq: "ad_at ?hdr xs p = ad_at ?hdr xs (prv xs i r) \<longleftrightarrow> p = prv xs i r" by (rule ad_at_inj [OF D(4) p(1) pn])
    have "level_at ?h (ad_at ?hdr xs p) i = Some (link xs i p)" using level_at_rep [OF rep p(1,3,2)] other na [OF p(1)] by simp
    then show "level_at h3 (ad_at ?hdr xs p) i = Some (link (ins xs r (a, lv, s, x)) i (shift r p))"
      using l3 [of "ad_at ?hdr xs p" i] l2 [of "ad_at ?hdr xs p" i] link_insert [OF r p(1,3), of "(a, lv, s, x)"] eq p(2) na [OF p(1)]
      by (simp add: L_def)
  next
    fix i assume "zlevel zsl \<le> i"
    then show "level_at h3 ?hdr i = level_at h ?hdr i" using l3 [of ?hdr i] l2 [of ?hdr i] lv other [of ?hdr i] na [of 0] by (simp add: ad_at_def)
  qed
qed

section \<open>More levels\<close>

lemma raise_rep:
  assumes rep: "zsl_rep h zsl xs" and lv: "zlevel zsl \<le> lv" "lv \<le> ZSKIPLIST_MAXLEVEL"
  obtains h' where "raise_levels (zheader zsl) (zlength zsl) (zlevel zsl) (lv - zlevel zsl) h = Some h'" "zsl_rep h' (zsl\<lparr>zlevel := lv\<rparr>) xs"
    "\<forall>b. h' b = None \<longleftrightarrow> h b = None"
proof -
  note D = zsl_repD [OF rep]
  let ?hdr = "zheader zsl"
  have some: "\<exists>l. level_at h ?hdr i = Some l \<and> forward l = None" if "zlevel zsl \<le> i" "i < ZSKIPLIST_MAXLEVEL" for i
    using zsl_rep_metas(3) [OF rep that] by auto
  have "\<forall>j < lv - zlevel zsl. level_at h ?hdr (zlevel zsl + j) \<noteq> None"
  proof (intro allI impI)
    fix j assume "j < lv - zlevel zsl"
    then have "zlevel zsl + j < ZSKIPLIST_MAXLEVEL" using lv by arith
    then show "level_at h ?hdr (zlevel zsl + j) \<noteq> None" using some [of "zlevel zsl + j"] lv by auto
  qed
  then obtain h' where h': "raise_levels ?hdr (zlength zsl) (zlevel zsl) (lv - zlevel zsl) h = Some h'" "same_meta h h'"
    "\<forall>y k. level_at h' y k = (if y = ?hdr \<and> zlevel zsl \<le> k \<and> k < zlevel zsl + (lv - zlevel zsl)
        then map_option (\<lambda>l. l\<lparr>span := ucast (zlength zsl)\<rparr>) (level_at h y k) else level_at h y k)" by (rule raise_levels_spec)
  have same: "map_option meta (h' b) = map_option meta (h b)" for b using h'(2) by (simp add: same_meta_def)
  obtain s0 where s0: "map_option meta (h ?hdr) = Some (None, s0, None, ZSKIPLIST_MAXLEVEL)" using zsl_rep_metas(1) [OF rep] by blast
  have top: "link xs i 0 = \<lparr>forward = None, span = of_nat (length xs)\<rparr>" if "zlevel zsl \<le> i" for i
  proof -
    have "takeWhile (\<lambda>x. ht x \<le> i) xs = xs" using D(6) that by (fastforce simp: takeWhile_eq_all_conv)
    then have "gap xs i 0 = length xs" by (metis gap_def drop0)
    then show ?thesis by (simp add: link_def Let_def)
  qed
  have cast: "ucast (of_nat (length xs) :: u64) = (of_nat (length xs) :: u32)"
    using D(3) by (simp add: unsigned_of_nat take_bit_nat_eq_self)
  have nodes: "ad (xs ! p) \<noteq> ?hdr" if "p < length xs" for p using D(4) nth_mem [OF that] by (metis distinct.simps(2) image_eqI set_map)
  define zsl' where "zsl' = zsl\<lparr>zlevel := lv\<rparr>"
  have z: "zlevel zsl' = lv" "zheader zsl' = ?hdr" "ztail zsl' = ztail zsl" "zlength zsl' = zlength zsl" by (simp_all add: zsl'_def)
  have "zsl_rep h' (zsl\<lparr>zlevel := lv\<rparr>) xs" unfolding zsl'_def [symmetric]
  proof (rule zsl_repI [where s = s0]; (unfold z)?)
    show "1 \<le> lv" "lv \<le> ZSKIPLIST_MAXLEVEL" using D(1) lv by simp_all
    show "\<forall>x \<in> set xs. 1 \<le> ht x \<and> ht x \<le> lv" using D(5,6) lv by fastforce
    show "map_option meta (h' ?hdr) = Some (None, s0, None, ZSKIPLIST_MAXLEVEL)" using same s0 by simp
    show "\<forall>i < lv. level_at h' ?hdr i = Some (link xs i 0)"
    proof (intro allI impI)
      fix i assume i: "i < lv"
      show "level_at h' ?hdr i = Some (link xs i 0)"
      proof (cases "i < zlevel zsl")
        case True
        then show ?thesis using h'(3) level_at_rep [OF rep, of 0 i] D(2) by (simp add: ad_at_def ht_at_def)
      next
        case False
        then obtain l where l: "level_at h ?hdr i = Some l" "forward l = None" using some [of i] i lv by auto
        then show ?thesis using h'(3) False i top [of i] D(9) cast by (cases l) simp
      qed
    qed
    show "\<forall>i. lv \<le> i \<and> i < ZSKIPLIST_MAXLEVEL \<longrightarrow> map_option forward (level_at h' ?hdr i) = Some None"
      using h'(3) zsl_rep_metas(3) [OF rep] lv by simp
    show "\<forall>p < length xs. map_option meta (h' (ad (xs ! p))) = Some (Some (ob (xs ! p)), sc (xs ! p), back_of xs p, ht (xs ! p))"
      using same zsl_rep_metas(2) [OF rep] by simp
    show "\<forall>p < length xs. \<forall>i < ht (xs ! p). level_at h' (ad (xs ! p)) i = Some (link xs i (p + 1))"
    proof (intro allI impI)
      fix p i assume p: "p < length xs" "i < ht (xs ! p)"
      then have "i < zlevel zsl" using D(6) by (meson nth_mem less_le_trans)
      then show "level_at h' (ad (xs ! p)) i = Some (link xs i (p + 1))"
        using h'(3) nodes [OF p(1)] level_at_rep [OF rep, of "Suc p" i] p by (simp add: ad_at_def ht_at_def)
    qed
  qed (use D in simp_all)
  moreover have "h' b = None \<longleftrightarrow> h b = None" for b using same [of b] by (metis map_option_is_None)
  ultimately show thesis using that h'(1) by blast
qed

section \<open>Insertion at a position\<close>

lemma link_0:
  assumes "\<forall>x \<in> set xs. 1 \<le> ht x" "p \<le> length xs"
  shows "forward (link xs 0 p) = (if p < length xs then Some (ad (xs ! p)) else None)"
proof -
  have "gap xs 0 p = 0"
  proof (cases "p < length xs")
    case True
    then have "\<not> ht (xs ! p) \<le> 0" using assms(1) by (metis not_one_le_zero nth_mem le_zero_eq)
    then show ?thesis using True by (simp add: gap_def Cons_nth_drop_Suc [symmetric])
  qed (simp add: gap_def)
  then show ?thesis by (simp add: link_def)
qed

text \<open>What \<open>zslInsert\<close> does after the search and the choice of the level.\<close>

definition insert_at :: "zmem \<Rightarrow> zaddr \<Rightarrow> nat \<Rightarrow> zaddr list \<Rightarrow> u32 list \<Rightarrow> 's zheap \<Rightarrow> zskiplist \<Rightarrow> 's \<Rightarrow> str_obj \<Rightarrow> ('s zheap \<times> zskiplist) option" where
  "insert_at mem a level update rank h zsl score x = do {
     let h = h(a \<mapsto> zslCreateNode mem level score (Some x));
     rank0 \<leftarrow> get_at rank 0;
     h \<leftarrow> link_levels a rank0 (take level update) rank 0 h;
     h \<leftarrow> widen_levels (drop level update) level h;
     u0 \<leftarrow> get_at update 0;
     nd \<leftarrow> h a;
     let h = h(a \<mapsto> nd\<lparr>backward := (if u0 = zheader zsl then None else Some u0)\<rparr>);
     lv \<leftarrow> get_at (levels nd) 0;
     (h, zsl) \<leftarrow>
       (case forward lv of
          Some y \<Rightarrow> do { ny \<leftarrow> h y; Some (h(y \<mapsto> ny\<lparr>backward := Some a\<rparr>), zsl) }
        | None \<Rightarrow> Some (h, zsl\<lparr>ztail := Some a\<rparr>));
     Some (h, zsl\<lparr>zlength := zlength zsl + 1\<rparr>) }"

lemma level_at_backward: "h y = Some nd \<Longrightarrow> level_at (h(y \<mapsto> nd\<lparr>backward := b\<rparr>)) = level_at h"
  by (auto simp: level_at_def fun_eq_iff)

lemma zsl_insert_at_rep:
  assumes rep: "zsl_rep h zsl xs" and r: "r \<le> length xs" and room: "length xs + 1 < 2 ^ 32" and lv: "1 \<le> lv" "lv \<le> zlevel zsl" and fresh: "h a = None"
  obtains h' zsl' where
    "insert_at mem a lv (updates (zheader zsl) xs r (zlevel zsl)) (map (\<lambda>i. of_nat (prv xs i r)) [0..<zlevel zsl]) h zsl s x = Some (h', zsl')"
    "zsl_rep h' zsl' (ins xs r (a, lv, s, x))" "zheader zsl' = zheader zsl" "dom h' = insert a (dom h)"
proof -
  let ?hdr = "zheader zsl"
  define us where "us = updates ?hdr xs r (zlevel zsl)"
  define rs :: "u32 list" where "rs = map (\<lambda>i. of_nat (prv xs i r)) [0..<zlevel zsl]"
  define nd0 where "nd0 = zslCreateNode mem lv s (Some x)"
  have nd0: "length (levels nd0) = lv" "meta nd0 = (Some x, s, fst mem, lv)" by (simp_all add: nd0_def zslCreateNode_def meta_def)
  note D = zsl_repD [OF rep]
  have z0: "prv xs 0 r = r" by (rule prv_0 [OF D(5) r])
  have na: "ad_at ?hdr xs p \<noteq> a" if "p \<le> length xs" for p using rep_ad_at [OF rep that] fresh by auto
  have u0: "get_at us 0 = Some (ad_at ?hdr xs r)" "get_at rs 0 = Some (of_nat r)" using D(1) z0 by (simp_all add: us_def rs_def updates_def)
  obtain h2 h3 where h3: "link_levels a (of_nat r) (take lv us) rs 0 (h(a \<mapsto> nd0)) = Some h2" "widen_levels (drop lv us) lv h2 = Some h3"
    "same_meta (h(a \<mapsto> nd0)) h3" "\<forall>i < lv. level_at h3 a i = Some (link (ins xs r (a, lv, s, x)) i (Suc r))"
    "\<forall>p \<le> length xs. \<forall>i < zlevel zsl. i < ht_at xs p \<longrightarrow> level_at h3 (ad_at ?hdr xs p) i = Some (link (ins xs r (a, lv, s, x)) i (shift r p))"
    "\<forall>i. zlevel zsl \<le> i \<longrightarrow> level_at h3 ?hdr i = level_at h ?hdr i"
    by (rule insert_links [OF rep r lv(2) fresh nd0(1) us_def rs_def, where s = s and x = x])
  have m3: "map_option meta (h3 b) = map_option meta ((h(a \<mapsto> nd0)) b)" for b using h3(3) by (simp add: same_meta_def)
  obtain nd where nd: "h3 a = Some nd" "meta nd = meta nd0" using m3 [of a] by auto
  have lens: "length (levels nd) = lv" using nd nd0 by (simp add: meta_def)
  define b where "b = (if ad_at ?hdr xs r = ?hdr then None else Some (ad_at ?hdr xs r))"
  have b: "b = back_of xs r"
    using ad_at_inj [OF D(4) r, of 0] by (cases r) (auto simp: b_def back_of_def ad_at_def)
  define h4 where "h4 = h3(a \<mapsto> nd\<lparr>backward := b\<rparr>)"
  have l4: "level_at h4 = level_at h3" unfolding h4_def using level_at_backward [of h3 a nd] nd(1) by simp
  have "level_at h3 a 0 = Some (link (ins xs r (a, lv, s, x)) 0 (Suc r))" using h3(4) lv(1) by simp
  then have "levels nd ! 0 = link xs 0 r" using nd lens lv(1) link_behind [OF r order_refl] by (simp add: level_at_def)
  then have fw: "get_at (levels nd) 0 = Some (link xs 0 r)" "forward (link xs 0 r) = (if r < length xs then Some (ad (xs ! r)) else None)"
    using lens lv(1) link_0 [OF D(5) r] by simp_all
  obtain ny where ny: "r < length xs \<Longrightarrow> h4 (ad (xs ! r)) = Some ny"
  proof (cases "r < length xs")
    case True
    then have "h4 (ad (xs ! r)) \<noteq> None" using m3 [of "ad (xs ! r)"] rep_ad_at [OF rep, of "Suc r"] na [of "Suc r"]
      by (auto simp: h4_def ad_at_def)
    then show thesis using that by blast
  qed (use that in blast)
  define h5 where "h5 = (if r < length xs then h4(ad (xs ! r) \<mapsto> ny\<lparr>backward := Some a\<rparr>) else h4)"
  have l5: "level_at h5 = level_at h3" using l4 level_at_backward [of h4 "ad (xs ! r)" ny] ny by (auto simp: h5_def)
  define zsl' where "zsl' = zsl\<lparr>ztail := (if r = length xs then Some a else ztail zsl), zlength := zlength zsl + 1\<rparr>"
  have "insert_at mem a lv us rs h zsl s x = Some (h5, zsl')"
    using h3(1,2) u0 nd(1) fw ny [unfolded h4_def b_def] r unfolding insert_at_def
    by (cases "r < length xs") (simp_all add: nd0_def [symmetric] h5_def h4_def b_def zsl'_def Let_def)
  moreover have "zsl_rep h5 zsl' (ins xs r (a, lv, s, x))" unfolding zsl'_def
  proof (rule rep_insertI [OF rep r room lv])
    show "a \<noteq> ?hdr" using na [of 0] by (simp add: ad_at_def)
    show "a \<notin> ad ` set xs"
    proof
      assume "a \<in> ad ` set xs"
      then obtain p where "p < length xs" "a = ad (xs ! p)" by (auto simp: in_set_conv_nth)
      then show False using na [of "Suc p"] by (simp add: ad_at_def)
    qed
    show "map_option meta (h5 a) = Some (Some x, s, back_of xs r, lv)"
      using nd nd0 b na [of "Suc r"] by (auto simp: h5_def h4_def meta_def ad_at_def)
    show "\<forall>p \<le> length xs. map_option meta (h5 (ad_at ?hdr xs p)) =
        map_option (\<lambda>nd. meta (if p = r + 1 then nd\<lparr>backward := Some a\<rparr> else nd)) (h (ad_at ?hdr xs p))"
    proof (intro allI impI)
      fix p assume p: "p \<le> length xs"
      have m: "map_option meta (h4 (ad_at ?hdr xs p)) = map_option meta (h (ad_at ?hdr xs p))"
        using m3 [of "ad_at ?hdr xs p"] na [OF p] by (simp add: h4_def)
      show "map_option meta (h5 (ad_at ?hdr xs p)) =
          map_option (\<lambda>nd. meta (if p = r + 1 then nd\<lparr>backward := Some a\<rparr> else nd)) (h (ad_at ?hdr xs p))"
      proof (cases "p = r + 1")
        case True
        then have "r < length xs" "ad_at ?hdr xs p = ad (xs ! r)" using p by (simp_all add: ad_at_def)
        then show ?thesis using m True ny by (cases "h (ad (xs ! r))") (auto simp: h5_def meta_def)
      next
        case False
        have "r < length xs \<Longrightarrow> ad_at ?hdr xs p \<noteq> ad (xs ! r)" using ad_at_inj [OF D(4) p, of "Suc r"] False by (simp add: ad_at_def)
        then show ?thesis using m False by (simp add: h5_def)
      qed
    qed
  qed (use h3(4-6) l5 in simp_all)
  moreover have "dom h5 = insert a (dom h)"
  proof -
    have none: "h3 c = None \<longleftrightarrow> (h(a \<mapsto> nd0)) c = None" for c using m3 [of c] by (metis map_option_is_None)
    have "h4 c = None \<longleftrightarrow> (h(a \<mapsto> nd0)) c = None" for c using none [of c] by (simp add: h4_def)
    moreover have "h5 c = None \<longleftrightarrow> h4 c = None" for c using ny by (cases "r < length xs \<and> c = ad (xs ! r)") (auto simp: h5_def)
    ultimately have "dom h5 = dom (h(a \<mapsto> nd0))" unfolding dom_def by simp
    then show ?thesis by simp
  qed
  ultimately show thesis using that [of h5 zsl'] by (simp add: us_def rs_def zsl'_def)
qed

section \<open>Sorted insertion\<close>

text \<open>The order of the items: by score, then by the text of the object.\<close>

definition text_less :: "byte list \<Rightarrow> byte list \<Rightarrow> bool" where
  "text_less s t \<longleftrightarrow> (s, t) \<in> lexord {(x, y). x < y}"

definition key_less :: "'s::linorder \<times> str_obj \<Rightarrow> 's \<times> str_obj \<Rightarrow> bool" where
  "key_less k k' \<longleftrightarrow> fst k < fst k' \<or> (fst k = fst k' \<and> text_less (getDecodedObject (snd k)) (getDecodedObject (snd k')))"

definition zsl_sorted :: "'s::linorder zitem list \<Rightarrow> bool" where
  "zsl_sorted xs \<longleftrightarrow> sorted_wrt key_less (map (\<lambda>x. (sc x, ob x)) xs) \<and> (\<forall>x \<in> set xs. length (getDecodedObject (ob x)) < 2 ^ 31)"

lemma text_less_trans: "text_less a b \<Longrightarrow> text_less b c \<Longrightarrow> text_less a c"
  unfolding text_less_def by (rule lexord_trans) (auto simp: trans_def)

lemma text_less_irrefl [simp]: "\<not> text_less a a"
  unfolding text_less_def by (rule lexord_irreflexive) simp

lemma text_less_linear: "text_less a b \<or> a = b \<or> text_less b a"
  unfolding text_less_def by (rule lexord_linear) auto

lemma key_less_trans: "key_less a b \<Longrightarrow> key_less b c \<Longrightarrow> key_less a c"
  unfolding key_less_def by (elim disjE conjE) (simp_all add: text_less_trans [of _ "getDecodedObject (snd b)"] less_trans [of _ "fst b"])

lemma key_less_irrefl [simp]: "\<not> key_less a a"
  by (simp add: key_less_def)

lemma key_less_linear:
  assumes "\<not> key_less (s', x') (s, x)" "(s, getDecodedObject x) \<noteq> (s', getDecodedObject x')"
  shows "key_less (s, x) (s', x')"
  using assms text_less_linear [of "getDecodedObject x'" "getDecodedObject x"] by (cases s s' rule: linorder_cases) (auto simp: key_less_def)

text \<open>The position of a key.\<close>

definition pos_of :: "('s::linorder \<times> str_obj) \<Rightarrow> 's zitem list \<Rightarrow> nat" where
  "pos_of k xs = length (takeWhile (\<lambda>x. key_less (sc x, ob x) k) xs)"

lemma pos_of_le: "pos_of k xs \<le> length xs"
  by (simp add: pos_of_def length_takeWhile_le)

lemma zsl_sorted_nth:
  assumes "zsl_sorted xs" "q < length xs" "p < q"
  shows "key_less (sc (xs ! p), ob (xs ! p)) (sc (xs ! q), ob (xs ! q))"
proof -
  have "sorted_wrt key_less (map (\<lambda>x. (sc x, ob x)) xs)" using assms(1) by (simp only: zsl_sorted_def)
  from sorted_wrt_nth_less [OF this assms(3)] show ?thesis using assms(2,3) by simp
qed

lemma pos_of_iff:
  assumes "zsl_sorted xs" "q < length xs"
  shows "key_less (sc (xs ! q), ob (xs ! q)) k \<longleftrightarrow> q < pos_of k xs"
proof
  assume "q < pos_of k xs"
  then have q: "q < length (takeWhile (\<lambda>x. key_less (sc x, ob x) k) xs)" by (simp only: pos_of_def)
  show "key_less (sc (xs ! q), ob (xs ! q)) k"
    using set_takeWhileD [OF nth_mem [OF q]] takeWhile_nth [OF q] by simp
next
  assume lt: "key_less (sc (xs ! q), ob (xs ! q)) k"
  show "q < pos_of k xs"
  proof (rule ccontr)
    assume "\<not> q < pos_of k xs"
    then have p: "pos_of k xs \<le> q" "pos_of k xs < length xs" using assms(2) by simp_all
    have n: "\<not> key_less (sc (xs ! pos_of k xs), ob (xs ! pos_of k xs)) k"
      using nth_length_takeWhile [OF p(2) [unfolded pos_of_def]] unfolding pos_of_def .
    show False
    proof (cases "pos_of k xs = q")
      case True
      then show False using n lt by simp
    next
      case False
      then have "pos_of k xs < q" using p(1) by simp
      from key_less_trans [OF zsl_sorted_nth [OF assms this] lt] show False using n by simp
    qed
  qed
qed

lemma less_cond:
  assumes "zsl_sorted xs" "length (getDecodedObject x) < 2 ^ 31"
  shows "cond_upto (zsl_less s x) xs (pos_of (s, x) xs)"
  unfolding cond_upto_def
proof (intro allI impI)
  fix p q assume "p \<le> q \<and> q < length xs"
  then have q: "q < length xs" by simp
  have "length (getDecodedObject (ob (xs ! q))) < 2 ^ 31" using assms(1) q by (simp add: zsl_sorted_def)
  then obtain c where c: "compareStringObjects (ob (xs ! q)) x = Some c" "c < 0 \<longleftrightarrow> text_less (getDecodedObject (ob (xs ! q))) (getDecodedObject x)"
    using compare_text [of "ob (xs ! q)" x] assms(2) by (auto simp: text_less_def)
  then have "zsl_less s x (of_nat p) (of_nat (q + 1 - p)) (zsl_node xs q) = Some (key_less (sc (xs ! q), ob (xs ! q)) (s, x))"
    by (auto simp: zsl_less_def zsl_node_def key_less_def)
  then show "zsl_less s x (of_nat p) (of_nat (q + 1 - p)) (zsl_node xs q) = Some (q < pos_of (s, x) xs)"
    using pos_of_iff [OF assms(1) q] by simp
qed

lemma ins_sorted:
  assumes "zsl_sorted xs" "length (getDecodedObject x) < 2 ^ 31" "(s, getDecodedObject x) \<notin> (\<lambda>y. (sc y, getDecodedObject (ob y))) ` set xs"
  shows "zsl_sorted (ins xs (pos_of (s, x) xs) (a, lv, s, x))"
proof -
  define r where "r = pos_of (s, x) xs"
  let ?k = "\<lambda>x. (sc x, ob x)"
  have sw: "sorted_wrt key_less (map ?k xs)" using assms(1) by (simp add: zsl_sorted_def)
  have before: "key_less (?k y) (s, x)" if "y \<in> set (take r xs)" for y
  proof -
    obtain q where "q < r" "q < length xs" "y = xs ! q" using \<open>y \<in> set (take r xs)\<close> by (auto simp: in_set_conv_nth)
    then show ?thesis using pos_of_iff [OF assms(1), of q "(s, x)"] by (simp add: r_def)
  qed
  have behind: "key_less (s, x) (?k y)" if "y \<in> set (drop r xs)" for y
  proof -
    obtain i where "i < length xs - r" "y = xs ! (r + i)" using \<open>y \<in> set (drop r xs)\<close> by (auto simp: in_set_conv_nth)
    then have q: "r \<le> r + i" "r + i < length xs" "y = xs ! (r + i)" by simp_all
    then have "\<not> key_less (?k y) (s, x)" using pos_of_iff [OF assms(1) q(2), of "(s, x)"] by (simp add: r_def)
    moreover have "(s, getDecodedObject x) \<noteq> (sc y, getDecodedObject (ob y))" 
      using assms(3) imageI [OF nth_mem [OF q(2)], of "\<lambda>y. (sc y, getDecodedObject (ob y))"] q(3) by auto
    ultimately show ?thesis by (rule key_less_linear)
  qed
  have between: "key_less (?k y) (?k z)" if "y \<in> set (take r xs)" "z \<in> set (drop r xs)" for y z
    using key_less_trans [OF before behind] that by blast
  have "sorted_wrt key_less (map ?k (take r xs))" "sorted_wrt key_less (map ?k (drop r xs))"
    using sw by (simp_all add: sorted_wrt_take sorted_wrt_drop take_map [symmetric] drop_map [symmetric])
  then have "sorted_wrt key_less (map ?k (ins xs r (a, lv, s, x)))"
    using before behind between unfolding ins_def sorted_wrt_append map_append list.map sorted_wrt.simps by auto
  then show ?thesis using assms(1,2) set_ins [of xs r "(a, lv, s, x)"] unfolding zsl_sorted_def r_def by simp
qed

lemma zslInsert_unfold:
  "zslInsert mem a rnd h zsl score x = do {
     (update, rank, _) \<leftarrow> descend (zsl_less score x) h (zlevel zsl) (zheader zsl) 0;
     level \<leftarrow> zslRandomLevel rnd;
     (h, update, rank, zsl) \<leftarrow>
       (if level > zlevel zsl then do {
          h \<leftarrow> raise_levels (zheader zsl) (zlength zsl) (zlevel zsl) (level - zlevel zsl) h;
          Some (h, update @ replicate (level - zlevel zsl) (zheader zsl), rank @ replicate (level - zlevel zsl) 0,
                zsl\<lparr>zlevel := level\<rparr>) }
        else Some (h, update, rank, zsl));
     insert_at mem a level update rank h zsl score x }"
  by (simp add: zslInsert_def insert_at_def)

lemma upt_split: "i \<le> j \<Longrightarrow> [0..<j] = [0..<i] @ [i..<j]"
  by (metis le_add_diff_inverse upt_add_eq_append zero_le)

lemma zslInsert_rep:
  assumes rep: "zsl_rep h zsl xs" and sorted: "zsl_sorted xs" and room: "length xs + 1 < 2 ^ 32" and fresh: "h a = None"
    and x: "length (getDecodedObject x) < 2 ^ 31" and lv: "zslRandomLevel rnd = Some lv" "1 \<le> lv" "lv \<le> ZSKIPLIST_MAXLEVEL"
  obtains h' zsl' where "zslInsert mem a rnd h zsl s x = Some (h', zsl')"
    "zsl_rep h' zsl' (ins xs (pos_of (s, x) xs) (a, lv, s, x))" "zheader zsl' = zheader zsl" "dom h' = insert a (dom h)"
proof -
  define r where "r = pos_of (s, x) xs"
  let ?hdr = "zheader zsl"
  have r: "r \<le> length xs" by (simp add: r_def pos_of_le)
  note D = zsl_repD [OF rep]
  have c: "cond_upto (zsl_less s x) xs r" unfolding r_def by (rule less_cond [OF sorted x])
  have desc: "descend (zsl_less s x) h (zlevel zsl) ?hdr (0::u32) =
      Some (updates ?hdr xs r (zlevel zsl), map (\<lambda>i. of_nat (prv xs i r)) [0..<zlevel zsl], ad_at ?hdr xs r)"
    using descend_rep [OF rep c r, of "zlevel zsl" 0] D(1,2) by (simp add: ad_at_def [of _ _ 0] ht_at_def updates_def)
  obtain h1 zsl1 where 1: "(if lv > zlevel zsl then do {
          h \<leftarrow> raise_levels ?hdr (zlength zsl) (zlevel zsl) (lv - zlevel zsl) h;
          Some (h, updates ?hdr xs r (zlevel zsl) @ replicate (lv - zlevel zsl) ?hdr,
                map (\<lambda>i. of_nat (prv xs i r)) [0..<zlevel zsl] @ replicate (lv - zlevel zsl) (0::u32), zsl\<lparr>zlevel := lv\<rparr>) }
        else Some (h, updates ?hdr xs r (zlevel zsl), map (\<lambda>i. of_nat (prv xs i r)) [0..<zlevel zsl], zsl)) =
      Some (h1, updates ?hdr xs r (zlevel zsl1), map (\<lambda>i. of_nat (prv xs i r)) [0..<zlevel zsl1], zsl1)"
    "zsl_rep h1 zsl1 xs" "zheader zsl1 = ?hdr" "lv \<le> zlevel zsl1" "h1 a = None" "dom h1 = dom h"
  proof (cases "lv > zlevel zsl")
    case False
    then show thesis using that [of h zsl] rep fresh by simp
  next
    case True
    then have le: "zlevel zsl \<le> lv" by simp
    obtain h1 where h1: "raise_levels ?hdr (zlength zsl) (zlevel zsl) (lv - zlevel zsl) h = Some h1" "zsl_rep h1 (zsl\<lparr>zlevel := lv\<rparr>) xs"
      "\<forall>b. h1 b = None \<longleftrightarrow> h b = None" by (rule raise_rep [OF rep le lv(3)])
    have top: "prv xs i r = 0" if "i \<in> set [zlevel zsl..<lv]" for i
      by (rule prv_top) (use D(6) that r in \<open>fastforce+\<close>)
    have m: "map (\<lambda>i. f (prv xs i r)) [0..<lv] = map (\<lambda>i. f (prv xs i r)) [0..<zlevel zsl] @ replicate (lv - zlevel zsl) (f 0)" for f :: "nat \<Rightarrow> 'c"
    proof -
      have "map (\<lambda>i. f (prv xs i r)) [zlevel zsl..<lv] = replicate (lv - zlevel zsl) (f 0)"
        using top by (intro nth_equalityI) auto
      then show ?thesis by (simp add: upt_split [OF le])
    qed
    have "dom h1 = dom h" using h1(3) by (auto simp: dom_def)
    then show thesis using that [of h1 "zsl\<lparr>zlevel := lv\<rparr>"] True h1 fresh m [of "ad_at ?hdr xs"] m [of "of_nat :: nat \<Rightarrow> u32"]
      by (simp add: updates_def ad_at_def [of _ _ 0])
  qed
  obtain h' zsl' where "insert_at mem a lv (updates (zheader zsl1) xs r (zlevel zsl1)) (map (\<lambda>i. of_nat (prv xs i r)) [0..<zlevel zsl1]) h1 zsl1 s x = Some (h', zsl')"
    "zsl_rep h' zsl' (ins xs r (a, lv, s, x))" "zheader zsl' = zheader zsl1" "dom h' = insert a (dom h1)"
    by (rule zsl_insert_at_rep [OF 1(2) r room lv(2) 1(4,5)])
  then show thesis using that [of h' zsl'] 1 desc lv(1) unfolding zslInsert_unfold r_def [symmetric] by simp
qed

end
