(* ===== verification/Skiplist_Delete.thy ===== *)
theory Skiplist_Delete
  imports Skiplist_Insert
begin

text \<open>
  Deletion from a skip list: the list with the item is the list without it after an insertion,
  so the equations between the links of the two lists are those of the insertion, read the
  other way.
\<close>

section \<open>Unlinking\<close>

lemma prv_ins: "q \<le> r \<Longrightarrow> r \<le> length zs \<Longrightarrow> prv (ins zs r y) i q = prv zs i q"
  by (induction q) (auto simp: nth_ins)

lemma updates_ins:
  assumes r: "r \<le> length zs"
  shows "updates hdr (ins zs r y) r n = updates hdr zs r n"
proof -
  have "ad_at hdr (ins zs r y) (prv zs i r) = ad_at hdr zs (prv zs i r)" for i
    using ad_at_ins [OF r, of "prv zs i r" hdr y] prv_le [of zs i r] r by (simp add: shift_def)
  then show ?thesis by (simp add: updates_def prv_ins [OF order_refl r])
qed

lemma length_updates [simp]: "length (updates hdr zs r n) = n"
  by (simp add: updates_def)

lemma take_updates: "m \<le> n \<Longrightarrow> take m (updates hdr zs r n) = updates hdr zs r m"
  by (simp add: updates_def take_map)

lemma ht_at_ins: "r \<le> length zs \<Longrightarrow> p \<le> length zs \<Longrightarrow> ht_at (ins zs r y) (shift r p) = ht_at zs p"
  by (cases p) (auto simp: ht_at_def shift_def nth_ins)

lemma shift_le: "p \<le> length zs \<Longrightarrow> r \<le> length zs \<Longrightarrow> shift r p \<le> length (ins zs r y)"
  by (simp add: shift_def)

lemma link_forward_member: "forward (link zs i p) = Some b \<Longrightarrow> b \<in> ad ` set zs"
  by (auto simp: link_def Let_def split: if_splits)

lemma unlinked_link:
  assumes r: "r \<le> length zs" and y: "ad y \<notin> ad ` set zs" and i: "i < ZSKIPLIST_MAXLEVEL"
  shows "unlinked (ad y) (link (ins zs r y) i (prv zs i r)) (link (ins zs r y) i (Suc r)) = link zs i (prv zs i r)"
    "forward (link (ins zs r y) i (prv zs i r)) = Some (ad y) \<Longrightarrow> i < ht y"
proof -
  have p: "prv zs i r \<le> r" "prv zs i r \<le> length zs" using prv_le [of zs i r] r by simp_all
  have l: "link (ins zs r y) i (prv zs i r) =
      (if i < ht y then \<lparr>forward = Some (ad y), span = of_nat r - of_nat (prv zs i r) + 1\<rparr>
       else (link zs i (prv zs i r))\<lparr>span := span (link zs i (prv zs i r)) + 1\<rparr>)"
    using link_insert [OF r p(2) prv_ht [OF i], of y] p(1) by (simp add: shift_def)
  have n: "forward (link zs i (prv zs i r)) \<noteq> Some (ad y)" using link_forward_member y by metis
  show "unlinked (ad y) (link (ins zs r y) i (prv zs i r)) (link (ins zs r y) i (Suc r)) = link zs i (prv zs i r)"
    unfolding l link_new [OF r i] using n by (simp add: unlinked_def)
  show "i < ht y" if "forward (link (ins zs r y) i (prv zs i r)) = Some (ad y)"
    using that n unfolding l by (simp split: if_splits)
qed

lemma unlink_rep:
  assumes rep: "zsl_rep h zsl (ins zs r y)" and r: "r \<le> length zs"
  obtains h1 where "unlink_levels (ad y) (updates (zheader zsl) zs r (zlevel zsl)) 0 h = Some h1" "same_meta h h1"
    "\<forall>p \<le> length zs. \<forall>i < zlevel zsl. i < ht_at zs p \<longrightarrow> level_at h1 (ad_at (zheader zsl) zs p) i = Some (link zs i p)"
    "\<forall>i. level_at h1 (ad y) i = level_at h (ad y) i"
    "\<forall>i. zlevel zsl \<le> i \<longrightarrow> level_at h1 (zheader zsl) i = level_at h (zheader zsl) i"
proof -
  let ?xs = "ins zs r y" and ?hdr = "zheader zsl"
  define us where "us = updates ?hdr zs r (zlevel zsl)"
  note D = zsl_repD [OF rep]
  have max: "zlevel zsl \<le> ZSKIPLIST_MAXLEVEL" using D(2) .
  have pn: "prv zs i r \<le> length zs" "shift r (prv zs i r) = prv zs i r" for i using prv_le [of zs i r] r by (simp_all add: shift_def)
  have y: "ad y \<notin> ad ` set zs" using D(4) distinct_ins [of zs r y] by simp
  have nth: "us ! i = ad_at ?hdr zs (prv zs i r)" if "i < zlevel zsl" for i using that by (simp add: us_def updates_def)
  have len: "length us = zlevel zsl" by (simp add: us_def updates_def)
  have at: "level_at h (ad_at ?hdr zs p) i = Some (link ?xs i (shift r p))" if "p \<le> length zs" "i < zlevel zsl" "i < ht_at zs p" for p i
    using level_at_rep [OF rep shift_le [OF that(1) r], of i] that ht_at_ins [OF r that(1), of y] ad_at_ins [OF r that(1), of ?hdr y] by simp
  have my: "ad_at ?hdr ?xs (Suc r) = ad y" "ht_at ?xs (Suc r) = ht y" using nth_ins(2) [OF r, of y] by (simp_all add: ad_at_def ht_at_def)
  have na: "ad_at ?hdr zs p \<noteq> ad y" if "p \<le> length zs" for p
    using ad_at_inj [OF D(4) shift_le [OF that r], of "Suc r"] my(1) ad_at_ins [OF r that, of ?hdr y] r by (auto simp: shift_def split: if_splits)
  have p1: "\<forall>j < length us. level_at h (us ! j) (0 + j) = Some (link ?xs j (prv zs j r))"
  proof (intro allI impI)
    fix j assume "j < length us"
    then have j: "j < zlevel zsl" "j < ZSKIPLIST_MAXLEVEL" using len max by simp_all
    show "level_at h (us ! j) (0 + j) = Some (link ?xs j (prv zs j r))" using at [OF pn(1) j(1) prv_ht [OF j(2)]] pn(2) nth [OF j(1)] by simp
  qed
  have p2: "ad y \<notin> set us"
  proof
    assume "ad y \<in> set us"
    then obtain j where "ad y = ad_at ?hdr zs (prv zs j r)" by (auto simp: us_def updates_def)
    then show False using na [OF pn(1) [of j]] by simp
  qed
  have p3: "\<forall>j < length us. forward (link ?xs j (prv zs j r)) = Some (ad y) \<longrightarrow> level_at h (ad y) (0 + j) = Some (link ?xs j (Suc r))"
  proof (intro allI impI)
    fix j assume j: "j < length us" and f: "forward (link ?xs j (prv zs j r)) = Some (ad y)"
    have "j < ht y" by (rule unlinked_link(2) [OF r y _ f]) (use j len max in simp)
    then show "level_at h (ad y) (0 + j) = Some (link ?xs j (Suc r))"
      using level_at_rep [OF rep, of "Suc r" j] my j len r by simp
  qed
  obtain h1 where h1: "unlink_levels (ad y) us 0 h = Some h1" "same_meta h h1"
    "\<forall>b k. level_at h1 b k = (if 0 \<le> k \<and> k < 0 + length us \<and> b = us ! (k - 0)
        then Some (unlinked (ad y) (link ?xs (k - 0) (prv zs (k - 0) r)) (link ?xs (k - 0) (Suc r))) else level_at h b k)"
    by (rule unlink_levels_spec [OF p1 p2 p3])
  have l1: "level_at h1 b k = (if k < zlevel zsl \<and> b = ad_at ?hdr zs (prv zs k r) then Some (link zs k (prv zs k r)) else level_at h b k)" for b k
    using h1(3) [rule_format, of b k] len nth [of k] unlinked_link(1) [OF r y, of k] max by auto
  show thesis
  proof (rule that [OF h1(1) [unfolded us_def] h1(2)]; intro allI impI)
    fix p i assume p: "p \<le> length zs" "i < zlevel zsl" "i < ht_at zs p"
    show "level_at h1 (ad_at ?hdr zs p) i = Some (link zs i p)"
    proof (cases "p = prv zs i r")
      case True
      then show ?thesis using l1 p(2) by simp
    next
      case False
      have "ad_at ?hdr zs p \<noteq> ad_at ?hdr zs (prv zs i r)"
        using ad_at_inj [of ?hdr zs p "prv zs i r"] D(4) p(1) pn(1) False set_ins [of zs r y] distinct_ins [of zs r y] by simp
      then show ?thesis using l1 [of "ad_at ?hdr zs p" i] at [OF p] link_insert [OF r p(1,3), of y] False by simp
    qed
  next
    show "level_at h1 (ad y) i = level_at h (ad y) i" for i using l1 na [OF pn(1)] by metis
  next
    show "level_at h1 ?hdr i = level_at h ?hdr i" if "zlevel zsl \<le> i" for i using l1 that by simp
  qed
qed

section \<open>Fewer levels\<close>

lemma lower_level_spec:
  assumes "\<forall>i < n. level_at h hdr i = Some (F i)" "1 \<le> n"
  obtains m where "lower_level h hdr n = Some m" "1 \<le> m" "m \<le> n" "\<forall>i. m \<le> i \<and> i < n \<longrightarrow> forward (F i) = None"
  using assms
proof (induction n arbitrary: thesis)
  case (Suc n)
  show thesis
  proof (cases "n \<noteq> 0 \<and> forward (F n) = None")
    case True
    then obtain m where m: "lower_level h hdr n = Some m" "1 \<le> m" "m \<le> n" "\<forall>i. m \<le> i \<and> i < n \<longrightarrow> forward (F i) = None"
      using Suc.IH Suc.prems(2) by (metis One_nat_def Suc_leI less_Suc_eq neq0_conv)
    then have "\<forall>i. m \<le> i \<and> i < Suc n \<longrightarrow> forward (F i) = None" using True by (auto simp: less_Suc_eq)
    then show thesis using Suc.prems(1) [of m] m True Suc.prems(2) by simp
  next
    case False
    have "level_at h hdr n = Some (F n)" using Suc.prems(2) by simp
    then have "lower_level h hdr (Suc n) = Some (Suc n)" using False by auto
    then show thesis by (rule Suc.prems(1)) auto
  qed
qed simp

lemma link_none_height: "forward (link zs i 0) = None \<Longrightarrow> x \<in> set zs \<Longrightarrow> ht x \<le> i"
proof -
  assume n: "forward (link zs i 0) = None" and x: "x \<in> set zs"
  obtain q where q: "q < length zs" "x = zs ! q" using x by (auto simp: in_set_conv_nth)
  have "\<not> gap zs i 0 < length zs" using n by (auto simp: link_def Let_def)
  then show "ht x \<le> i" using gap_below [of 0 q zs i] q by simp
qed

section \<open>Deletion of an item\<close>

text \<open>When a heap has the links of the shorter list.\<close>

lemma rep_deleteI:
  assumes rep: "zsl_rep h zsl (ins zs r y)" and r: "r \<le> length zs" and lev: "1 \<le> m" "m \<le> zlevel zsl"
    and low: "\<forall>i. m \<le> i \<and> i < zlevel zsl \<longrightarrow> forward (link zs i 0) = None"
    and metaO: "\<forall>p \<le> length zs. map_option meta (h' (ad_at (zheader zsl) zs p)) =
      map_option (\<lambda>nd. meta (if p = r + 1 then nd\<lparr>backward := back_of zs r\<rparr> else nd)) (h (ad_at (zheader zsl) zs p))"
    and lvO: "\<forall>p \<le> length zs. \<forall>i < zlevel zsl. i < ht_at zs p \<longrightarrow> level_at h' (ad_at (zheader zsl) zs p) i = Some (link zs i p)"
    and lvT: "\<forall>i. zlevel zsl \<le> i \<longrightarrow> level_at h' (zheader zsl) i = level_at h (zheader zsl) i"
  shows "zsl_rep h' (zsl\<lparr>ztail := (if r = length zs then back_of zs r else ztail zsl), zlength := zlength zsl - 1, zlevel := m\<rparr>) zs"
proof -
  note D = zsl_repD [OF rep]
  have n: "p < r \<Longrightarrow> ins zs r y ! p = zs ! p" "r \<le> p \<Longrightarrow> ins zs r y ! Suc p = zs ! p" for p using nth_ins [OF r] by simp_all
  obtain s0 where s0: "map_option meta (h (zheader zsl)) = Some (None, s0, None, ZSKIPLIST_MAXLEVEL)" using zsl_rep_metas(1) [OF rep] by blast
  define zsl' where "zsl' = zsl\<lparr>ztail := (if r = length zs then back_of zs r else ztail zsl), zlength := zlength zsl - 1, zlevel := m\<rparr>"
  have z: "zlevel zsl' = m" "zheader zsl' = zheader zsl" "ztail zsl' = (if r = length zs then back_of zs r else ztail zsl)"
    "zlength zsl' = zlength zsl - 1" by (simp_all add: zsl'_def)
  have hz: "1 \<le> ht x" "ht x \<le> zlevel zsl" if "x \<in> set zs" for x using D(5,6) that set_ins [of zs r y] by simp_all
  have hm: "ht x \<le> m" if "x \<in> set zs" for x
    using low [rule_format, of m] link_none_height [of zs m x] hz [OF that] that lev(2) by (cases "m = zlevel zsl") auto
  show ?thesis unfolding zsl'_def [symmetric]
  proof (rule zsl_repI [where s = s0]; (unfold z)?)
    show "1 \<le> m" "m \<le> ZSKIPLIST_MAXLEVEL" using lev D(2) by simp_all
    show "length zs < 2 ^ 32" using D(3) r by simp
    show "distinct (zheader zsl # map ad zs)" using D(4) distinct_ins [of zs r y] set_ins [of zs r y] by simp
    show "\<forall>x \<in> set zs. 1 \<le> ht x \<and> ht x \<le> m" using hz hm by blast
    show "map_option meta (h' (zheader zsl)) = Some (None, s0, None, ZSKIPLIST_MAXLEVEL)"
      using metaO [rule_format, of 0] s0 by (simp add: ad_at_def)
    show "\<forall>i < m. level_at h' (zheader zsl) i = Some (link zs i 0)"
      using lvO [rule_format, of 0] D(2) lev(2) by (simp add: ad_at_def ht_at_def)
    show "\<forall>i. m \<le> i \<and> i < ZSKIPLIST_MAXLEVEL \<longrightarrow> map_option forward (level_at h' (zheader zsl) i) = Some None"
    proof (intro allI impI)
      fix i assume i: "m \<le> i \<and> i < ZSKIPLIST_MAXLEVEL"
      show "map_option forward (level_at h' (zheader zsl) i) = Some None"
      proof (cases "i < zlevel zsl")
        case True
        then show ?thesis using lvO [rule_format, of 0 i] low i by (simp add: ad_at_def ht_at_def)
      next
        case False
        then show ?thesis using lvT zsl_rep_metas(3) [OF rep, of i] i by simp
      qed
    qed
    show "\<forall>p < length zs. map_option meta (h' (ad (zs ! p))) = Some (Some (ob (zs ! p)), sc (zs ! p), back_of zs p, ht (zs ! p))"
    proof (intro allI impI)
      fix p assume p: "p < length zs"
      have m: "map_option meta (h' (ad (zs ! p))) = map_option (\<lambda>nd. meta (if p = r then nd\<lparr>backward := back_of zs r\<rparr> else nd)) (h (ad (zs ! p)))"
        using metaO [rule_format, of "Suc p"] p by (simp add: ad_at_def)
      show "map_option meta (h' (ad (zs ! p))) = Some (Some (ob (zs ! p)), sc (zs ! p), back_of zs p, ht (zs ! p))"
      proof (cases "p < r")
        case True
        then have "back_of (ins zs r y) p = back_of zs p" using n(1) by (simp add: back_of_def)
        then show ?thesis using m True zsl_rep_metas(2) [OF rep, of p] n(1) r p by (auto simp: meta_def)
      next
        case False
        then have "p \<noteq> r \<Longrightarrow> back_of (ins zs r y) (Suc p) = back_of zs p" using n(2) [of "p - 1"] by (cases p) (auto simp: back_of_def)
        then show ?thesis using m False zsl_rep_metas(2) [OF rep, of "Suc p"] n(2) [of p] r p by (cases "p = r") (auto simp: meta_def)
      qed
    qed
    show "\<forall>p < length zs. \<forall>i < ht (zs ! p). level_at h' (ad (zs ! p)) i = Some (link zs i (p + 1))"
    proof (intro allI impI)
      fix p i assume p: "p < length zs" "i < ht (zs ! p)"
      then have "i < zlevel zsl" using hz(2) [OF nth_mem [OF p(1)]] by simp
      then show "level_at h' (ad (zs ! p)) i = Some (link zs i (p + 1))"
        using lvO [rule_format, of "Suc p" i] p by (simp add: ad_at_def ht_at_def)
    qed
    show "(if r = length zs then back_of zs r else ztail zsl) = (if zs = [] then None else Some (ad (last zs)))"
    proof (cases "r = length zs")
      case True
      then show ?thesis by (simp add: back_of_def last_conv_nth)
    next
      case False
      then have "ins zs r y \<noteq> []" "last (ins zs r y) = last zs" "zs \<noteq> []" using r by (auto simp: ins_def)
      then show ?thesis using D(8) False by simp
    qed
    show "zlength zsl - 1 = of_nat (length zs)" using D(9) r by simp
  qed
qed

lemma zslDeleteNode_rep:
  assumes rep: "zsl_rep h zsl (ins zs r y)" and r: "r \<le> length zs" and n: "zlevel zsl \<le> n"
  obtains h' zsl' where "zslDeleteNode h zsl (ad y) (updates (zheader zsl) zs r n) = Some (h', zsl')"
    "zsl_rep (h'(ad y := None)) zsl' zs" "zheader zsl' = zheader zsl" "zlevel zsl' \<le> zlevel zsl" "dom h' = dom h"
proof -
  let ?xs = "ins zs r y" and ?hdr = "zheader zsl"
  note D = zsl_repD [OF rep]
  have hz: "\<forall>x \<in> set zs. 1 \<le> ht x" "\<forall>x \<in> set zs. ht x \<le> zlevel zsl" using D(5,6) set_ins [of zs r y] by simp_all
  have y: "ad y \<notin> ad ` set zs" "ad y \<noteq> ?hdr" "distinct (?hdr # map ad zs)" using D(4) distinct_ins [of zs r y] set_ins [of zs r y] by auto
  have na: "ad_at ?hdr zs p \<noteq> ad y" if "p \<le> length zs" for p
  proof (cases p)
    case (Suc q)
    then have "zs ! q \<in> set zs" using that by simp
    then have "ad (zs ! q) \<noteq> ad y" using y(1) by (metis imageI)
    then show ?thesis using Suc by (simp add: ad_at_def)
  qed (use y(2) in \<open>simp add: ad_at_def\<close>)
  obtain h1 where h1: "unlink_levels (ad y) (updates ?hdr zs r (zlevel zsl)) 0 h = Some h1" "same_meta h h1"
    "\<forall>p \<le> length zs. \<forall>i < zlevel zsl. i < ht_at zs p \<longrightarrow> level_at h1 (ad_at ?hdr zs p) i = Some (link zs i p)"
    "\<forall>i. level_at h1 (ad y) i = level_at h (ad y) i" "\<forall>i. zlevel zsl \<le> i \<longrightarrow> level_at h1 ?hdr i = level_at h ?hdr i"
    by (rule unlink_rep [OF rep r])
  have m1: "map_option meta (h1 b) = map_option meta (h b)" for b using h1(2) by (simp add: same_meta_def)
  have my: "h (ad y) = Some (zsl_node ?xs r)" using D(7) [of r] nth_ins(2) [OF r, of y] r by simp
  then obtain nd where nd: "h1 (ad y) = Some nd" "meta nd = meta (zsl_node ?xs r)" using m1 [of "ad y"] by auto
  have hy: "1 \<le> ht y" "ht y \<le> zlevel zsl" using D(5,6) set_ins [of zs r y] by simp_all
  have bk: "backward nd = back_of zs r" "length (levels nd) = ht y"
    using nd(2) nth_ins(2) [OF r, of y] nth_ins(1) [OF r, of "r - 1" y] by (auto simp: meta_def zsl_node_def back_of_def)
  have "level_at h1 (ad y) 0 = Some (link ?xs 0 (Suc r))" using h1(4) my hy nth_ins(2) [OF r, of y] by (simp add: level_at_def zsl_node_def)
  then have lv: "get_at (levels nd) 0 = Some (link zs 0 r)" using nd(1) link_behind [OF r order_refl] by (simp add: level_at_def)
  have fw: "forward (link zs 0 r) = (if r < length zs then Some (ad (zs ! r)) else None)" by (rule link_0 [OF hz(1) r])
  obtain ny where ny: "r < length zs \<Longrightarrow> h1 (ad (zs ! r)) = Some ny"
  proof (cases "r < length zs")
    case True
    have "h (ad (zs ! r)) \<noteq> None" using D(7) [of "Suc r"] nth_ins(3) [OF r order_refl, of y] True by simp
    then have "h1 (ad (zs ! r)) \<noteq> None" using m1 [of "ad (zs ! r)"] by (metis map_option_is_None)
    then show thesis using that by blast
  qed (use that in blast)
  define h2 where "h2 = (if r < length zs then h1(ad (zs ! r) \<mapsto> ny\<lparr>backward := back_of zs r\<rparr>) else h1)"
  have l2: "level_at h2 = level_at h1" using level_at_backward [of h1 "ad (zs ! r)" ny] ny by (auto simp: h2_def)
  have hdr: "\<forall>i < zlevel zsl. level_at h2 ?hdr i = Some (link zs i 0)"
    unfolding l2 using h1(3) [rule_format, of 0] D(2) by (simp add: ad_at_def ht_at_def)
  obtain m where m: "lower_level h2 ?hdr (zlevel zsl) = Some m" "1 \<le> m" "m \<le> zlevel zsl"
    "\<forall>i. m \<le> i \<and> i < zlevel zsl \<longrightarrow> forward (link zs i 0) = None" by (rule lower_level_spec [OF hdr D(1)])
  define zsl' where "zsl' = zsl\<lparr>ztail := (if r = length zs then back_of zs r else ztail zsl), zlength := zlength zsl - 1, zlevel := m\<rparr>"
  have "zslDeleteNode h zsl (ad y) (updates ?hdr zs r n) = Some (h2, zsl')"
    using h1(1) nd(1) lv fw ny m(1) r bk(1) take_updates [OF n, of ?hdr zs r] n unfolding zslDeleteNode_def
    by (cases "r < length zs") (simp_all add: h2_def zsl'_def)
  moreover have "zsl_rep (h2(ad y := None)) zsl' zs" unfolding zsl'_def
  proof (rule rep_deleteI [OF rep r m(2,3,4)])
    show "\<forall>p \<le> length zs. map_option meta ((h2(ad y := None)) (ad_at ?hdr zs p)) =
      map_option (\<lambda>nd. meta (if p = r + 1 then nd\<lparr>backward := back_of zs r\<rparr> else nd)) (h (ad_at ?hdr zs p))"
    proof (intro allI impI)
      fix p assume p: "p \<le> length zs"
      show "map_option meta ((h2(ad y := None)) (ad_at ?hdr zs p)) =
        map_option (\<lambda>nd. meta (if p = r + 1 then nd\<lparr>backward := back_of zs r\<rparr> else nd)) (h (ad_at ?hdr zs p))"
      proof (cases "p = r + 1")
        case True
        then have "r < length zs" "ad_at ?hdr zs p = ad (zs ! r)" using p by (simp_all add: ad_at_def)
        then show ?thesis using m1 [of "ad (zs ! r)"] True ny na [OF p] by (cases "h (ad (zs ! r))") (auto simp: h2_def meta_def)
      next
        case False
        have "r < length zs \<Longrightarrow> ad_at ?hdr zs p \<noteq> ad (zs ! r)" using ad_at_inj [OF y(3) p, of "Suc r"] False by (simp add: ad_at_def)
        then show ?thesis using m1 [of "ad_at ?hdr zs p"] False na [OF p] by (simp add: h2_def)
      qed
    qed
    have other: "level_at (h2(ad y := None)) b i = level_at h1 b i" if "b \<noteq> ad y" for b i
      using that l2 [THEN fun_cong, of b, THEN fun_cong, of i] by (simp add: level_at_def)
    show "\<forall>p \<le> length zs. \<forall>i < zlevel zsl. i < ht_at zs p \<longrightarrow> level_at (h2(ad y := None)) (ad_at ?hdr zs p) i = Some (link zs i p)"
      using h1(3) other [OF na] by simp
    show "\<forall>i. zlevel zsl \<le> i \<longrightarrow> level_at (h2(ad y := None)) ?hdr i = level_at h ?hdr i" using h1(5) other y(2) by simp
  qed
  moreover have "dom h2 = dom h"
  proof -
    have "h1 c = None \<longleftrightarrow> h c = None" for c using m1 [of c] by (metis map_option_is_None)
    moreover have "h2 c = None \<longleftrightarrow> h1 c = None" for c using ny by (cases "r < length zs \<and> c = ad (zs ! r)") (auto simp: h2_def)
    ultimately show ?thesis unfolding dom_def by simp
  qed
  ultimately show thesis using that [of h2 zsl'] m(3) by (simp add: zsl'_def)
qed

section \<open>Deletion of a key\<close>

definition zkey :: "'s zitem \<Rightarrow> 's \<times> byte list" where
  "zkey y = (sc y, getDecodedObject (ob y))"

lemma key_less_zkey: "zkey y = (s, getDecodedObject x) \<Longrightarrow> key_less k (sc y, ob y) \<longleftrightarrow> key_less k (s, x)"
  "zkey y = (s, getDecodedObject x) \<Longrightarrow> key_less (sc y, ob y) k \<longleftrightarrow> key_less (s, x) k"
  by (auto simp: zkey_def key_less_def)

lemma zkey_at:
  assumes "zsl_sorted xs" "q < length xs" "zkey (xs ! q) = (s, getDecodedObject x)"
  shows "q = pos_of (s, x) xs"
proof (rule antisym)
  have "\<not> key_less (sc (xs ! q), ob (xs ! q)) (s, x)" using key_less_zkey(2) [OF assms(3)] by simp
  then have le: "pos_of (s, x) xs \<le> q" using pos_of_iff [OF assms(1,2), of "(s, x)"] by simp
  then show "pos_of (s, x) xs \<le> q" .
  show "q \<le> pos_of (s, x) xs"
  proof (rule ccontr)
    assume "\<not> q \<le> pos_of (s, x) xs"
    then have "pos_of (s, x) xs < q" by simp
    from zsl_sorted_nth [OF assms(1,2) this] have "key_less (sc (xs ! pos_of (s, x) xs), ob (xs ! pos_of (s, x) xs)) (s, x)"
      using key_less_zkey(1) [OF assms(3)] by simp
    then show False using pos_of_iff [OF assms(1), of "pos_of (s, x) xs" "(s, x)"] le assms(2) by simp
  qed
qed

lemma zkey_distinct: "zsl_sorted xs \<Longrightarrow> distinct (map zkey xs)"
proof -
  assume srt: "zsl_sorted xs"
  have "p = q" if "p < length xs" "q < length xs" "zkey (xs ! p) = zkey (xs ! q)" for p q
    using zkey_at [OF srt that(1), of "sc (xs ! q)" "ob (xs ! q)"] zkey_at [OF srt that(2), of "sc (xs ! q)" "ob (xs ! q)"] that(3)
    by (simp add: zkey_def)
  then show ?thesis by (auto simp: distinct_conv_nth)
qed

lemma filter_sorted: "zsl_sorted xs \<Longrightarrow> zsl_sorted (filter P xs)"
  unfolding zsl_sorted_def by (simp add: sorted_wrt_map sorted_wrt_filter)

lemma ins_split:
  assumes "r < length xs"
  shows "xs = ins (take r xs @ drop (Suc r) xs) r (xs ! r)"
  using assms by (simp add: ins_def id_take_nth_drop [symmetric])

lemma filter_at:
  assumes "distinct (map f xs)" "r < length xs"
  shows "filter (\<lambda>y. f y \<noteq> f (xs ! r)) xs = take r xs @ drop (Suc r) xs"
proof -
  define a b where "a = take r xs" and "b = drop (Suc r) xs"
  have xs: "xs = a @ xs ! r # b" unfolding a_def b_def by (rule id_take_nth_drop [OF assms(2)])
  have "distinct (map f (a @ xs ! r # b))" using assms(1) xs by simp
  then have "f (xs ! r) \<notin> f ` (set a \<union> set b)" by auto
  then have "\<forall>y \<in> set a \<union> set b. f y \<noteq> f (xs ! r)" by (metis imageI)
  then have "filter (\<lambda>y. f y \<noteq> f (xs ! r)) (a @ xs ! r # b) = a @ b" by (simp add: filter_id_conv)
  then show ?thesis using xs unfolding a_def b_def by simp
qed

lemma zslDelete_rep:
  assumes rep: "zsl_rep h zsl xs" and srt: "zsl_sorted xs" and x: "length (getDecodedObject x) < 2 ^ 31"
  obtains h' zsl' where "zslDelete h zsl s x = Some ((s, getDecodedObject x) \<in> zkey ` set xs, h', zsl')"
    "zsl_rep h' zsl' (filter (\<lambda>y. zkey y \<noteq> (s, getDecodedObject x)) xs)" "zheader zsl' = zheader zsl" "dom h' \<subseteq> dom h"
proof -
  define r where "r = pos_of (s, x) xs"
  let ?hdr = "zheader zsl" and ?k = "(s, getDecodedObject x)"
  have r: "r \<le> length xs" by (simp add: r_def pos_of_le)
  note D = zsl_repD [OF rep]
  have c: "cond_upto (zsl_less s x) xs r" unfolding r_def by (rule less_cond [OF srt x])
  have desc: "descend (zsl_less s x) h (zlevel zsl) ?hdr (0::u32) =
      Some (updates ?hdr xs r (zlevel zsl), map (\<lambda>i. of_nat (prv xs i r)) [0..<zlevel zsl], ad_at ?hdr xs r)"
    using descend_rep [OF rep c r, of "zlevel zsl" 0] D(1,2) by (simp add: ad_at_def [of _ _ 0] ht_at_def updates_def)
  have lv: "level_at h (ad_at ?hdr xs r) 0 = Some (link xs 0 r)"
    by (rule level_at_rep [OF rep r]) (use D(1) prv_ht [of 0 xs r] prv_0 [OF D(5) r] in simp_all)
  have fw: "forward (link xs 0 r) = (if r < length xs then Some (ad (xs ! r)) else None)" by (rule link_0 [OF D(5) r])
  show thesis
  proof (cases "r < length xs \<and> zkey (xs ! r) = ?k")
    case False
    have n: "?k \<notin> zkey ` set xs"
    proof
      assume "?k \<in> zkey ` set xs"
      then obtain q where q: "q < length xs" "zkey (xs ! q) = ?k" by (auto simp: in_set_conv_nth)
      then show False using zkey_at [OF srt q] False by (simp add: r_def)
    qed
    then have "filter (\<lambda>y. zkey y \<noteq> ?k) xs = xs" unfolding filter_id_conv by (metis imageI)
    moreover have "zslDelete h zsl s x = Some (False, h, zsl)"
    proof (cases "r < length xs")
      case True
      have "equalStringObjects (ob (xs ! r)) x = Some (getDecodedObject (ob (xs ! r)) = getDecodedObject x)"
        by (rule equal_text) (use srt True x in \<open>simp_all add: zsl_sorted_def\<close>)
      then show ?thesis using False True desc lv fw D(7) [OF True] by (auto simp: zslDelete_def zsl_node_def zkey_def)
    qed (use desc lv fw in \<open>simp add: zslDelete_def\<close>)
    ultimately show thesis using that [of h zsl] rep n by simp
  next
    case True
    define y zs where "y = xs ! r" and "zs = take r xs @ drop (Suc r) xs"
    have xs: "xs = ins zs r y" unfolding y_def zs_def by (rule ins_split) (use True in simp)
    have rz: "r \<le> length zs" unfolding zs_def using True by auto
    have f: "filter (\<lambda>y. zkey y \<noteq> ?k) xs = zs" using filter_at [OF zkey_distinct [OF srt], of r] True by (simp add: zs_def)
    have u: "updates ?hdr xs r (zlevel zsl) = updates ?hdr zs r (zlevel zsl)" unfolding xs by (rule updates_ins [OF rz])
    obtain h' zsl' where h': "zslDeleteNode h zsl (ad y) (updates ?hdr zs r (zlevel zsl)) = Some (h', zsl')"
      "zsl_rep (h'(ad y := None)) zsl' zs" "zheader zsl' = ?hdr" "dom h' = dom h" using rep rz order_refl unfolding xs by (rule zslDeleteNode_rep)
    have "equalStringObjects (ob y) x = Some True"
      using equal_text [of "ob y" x] srt True x by (simp add: zsl_sorted_def y_def zkey_def)
    then have "zslDelete h zsl s x = Some (True, h'(ad y := None), zsl')"
      using True desc lv fw D(7) [of r] h'(1) u by (simp add: zslDelete_def zsl_node_def zkey_def y_def)
    moreover have "?k \<in> zkey ` set xs" using True nth_mem [of r xs] by (metis imageI)
    ultimately show thesis using that [of "h'(ad y := None)" zsl'] h'(2-4) f by auto
  qed
qed

end
