(* ===== verification/Skiplist_Query.thy ===== *)
theory Skiplist_Query
  imports Skiplist_Delete
begin

text \<open>
  The queries of a skip list: the rank of an element, the element at a rank, and the first and
  the last element in a range of scores or of texts.
\<close>

section \<open>Elements by rank\<close>

fun element_loop :: "'s zheap \<Rightarrow> nat \<Rightarrow> zaddr \<Rightarrow> u64 \<Rightarrow> u64 \<Rightarrow> zaddr option option" where
  "element_loop h 0 x traversed rank = Some None"
| "element_loop h (Suc i) x traversed rank = do {
     (x, traversed) \<leftarrow> walk_level (\<lambda>t sp nd. Some (t + ucast sp \<le> rank)) h i x traversed;
     if traversed = rank then Some (Some x) else element_loop h i x traversed rank }"

definition zslGetElementByRank :: "'s zheap \<Rightarrow> zskiplist \<Rightarrow> u64 \<Rightarrow> zaddr option option" where
  "zslGetElementByRank h zsl rank = element_loop h (zlevel zsl) (zheader zsl) 0 rank"

section \<open>Ranges of scores\<close>

record 's zrangespec =
  zr_min :: 's
  zr_max :: 's
  minex :: bool
  maxex :: bool

definition zslValueGteMin :: "'s::linorder \<Rightarrow> 's zrangespec \<Rightarrow> bool" where
  "zslValueGteMin v spec = (if minex spec then v > zr_min spec else v \<ge> zr_min spec)"

definition zslValueLteMax :: "'s::linorder \<Rightarrow> 's zrangespec \<Rightarrow> bool" where
  "zslValueLteMax v spec = (if maxex spec then v < zr_max spec else v \<le> zr_max spec)"

text \<open>
  The functions on ranges of scores and of texts have the same shape: \<open>gte\<close> and \<open>lte\<close> compare
  a node with the two ends of the range, \<open>none\<close> is the test for a range that has no element.
\<close>

definition zsl_is_in :: "bool \<Rightarrow> ('s zskiplistNode \<Rightarrow> bool option) \<Rightarrow> ('s zskiplistNode \<Rightarrow> bool option) \<Rightarrow> 's zheap \<Rightarrow> zskiplist \<Rightarrow> bool option" where
  "zsl_is_in none gte lte h zsl =
     (if none then Some False
      else case ztail zsl of
        None \<Rightarrow> Some False
      | Some t \<Rightarrow> do {
          nt \<leftarrow> h t;
          g \<leftarrow> gte nt;
          if \<not> g then Some False
          else do {
            lv \<leftarrow> level_at h (zheader zsl) 0;
            (case forward lv of
               None \<Rightarrow> Some False
             | Some y \<Rightarrow> do { ny \<leftarrow> h y; lte ny }) } })"

definition zsl_first_in :: "bool \<Rightarrow> ('s zskiplistNode \<Rightarrow> bool option) \<Rightarrow> ('s zskiplistNode \<Rightarrow> bool option) \<Rightarrow> 's zheap \<Rightarrow> zskiplist \<Rightarrow> zaddr option option" where
  "zsl_first_in none gte lte h zsl = do {
     ok \<leftarrow> zsl_is_in none gte lte h zsl;
     if \<not> ok then Some None
     else do {
       (_, _, x) \<leftarrow> descend (\<lambda>_ _ nd. map_option Not (gte nd)) h (zlevel zsl) (zheader zsl) (0 :: u32);
       lv \<leftarrow> level_at h x 0;
       y \<leftarrow> forward lv;
       ny \<leftarrow> h y;
       l \<leftarrow> lte ny;
       Some (if \<not> l then None else Some y) } }"

definition zsl_last_in :: "bool \<Rightarrow> ('s zskiplistNode \<Rightarrow> bool option) \<Rightarrow> ('s zskiplistNode \<Rightarrow> bool option) \<Rightarrow> 's zheap \<Rightarrow> zskiplist \<Rightarrow> zaddr option option" where
  "zsl_last_in none gte lte h zsl = do {
     ok \<leftarrow> zsl_is_in none gte lte h zsl;
     if \<not> ok then Some None
     else do {
       (_, _, x) \<leftarrow> descend (\<lambda>_ _ nd. lte nd) h (zlevel zsl) (zheader zsl) (0 :: u32);
       nx \<leftarrow> h x;
       g \<leftarrow> gte nx;
       Some (if \<not> g then None else Some x) } }"

definition range_empty :: "'s::linorder zrangespec \<Rightarrow> bool" where
  "range_empty spec \<longleftrightarrow> zr_min spec > zr_max spec \<or> (zr_min spec = zr_max spec \<and> (minex spec \<or> maxex spec))"

abbreviation score_gte :: "'s::linorder zrangespec \<Rightarrow> 's zskiplistNode \<Rightarrow> bool option" where
  "score_gte spec nd \<equiv> Some (zslValueGteMin (zn_score nd) spec)"

abbreviation score_lte :: "'s::linorder zrangespec \<Rightarrow> 's zskiplistNode \<Rightarrow> bool option" where
  "score_lte spec nd \<equiv> Some (zslValueLteMax (zn_score nd) spec)"

definition zslIsInRange :: "'s::linorder zheap \<Rightarrow> zskiplist \<Rightarrow> 's zrangespec \<Rightarrow> bool option" where
  "zslIsInRange h zsl spec = zsl_is_in (range_empty spec) (score_gte spec) (score_lte spec) h zsl"

definition zslFirstInRange :: "'s::linorder zheap \<Rightarrow> zskiplist \<Rightarrow> 's zrangespec \<Rightarrow> zaddr option option" where
  "zslFirstInRange h zsl spec = zsl_first_in (range_empty spec) (score_gte spec) (score_lte spec) h zsl"

definition zslLastInRange :: "'s::linorder zheap \<Rightarrow> zskiplist \<Rightarrow> 's zrangespec \<Rightarrow> zaddr option option" where
  "zslLastInRange h zsl spec = zsl_last_in (range_empty spec) (score_gte spec) (score_lte spec) h zsl"

section \<open>Ranges of texts\<close>

text \<open>
  The objects \<open>shared.minstring\<close> and \<open>shared.maxstring\<close> are recognised by their addresses; as
  strings they have a text of their own.
\<close>

datatype lex_obj = MinString | MaxString | LexObj str_obj

definition lex_str :: "lex_obj \<Rightarrow> str_obj" where
  "lex_str a = (case a of MinString \<Rightarrow> SdsObj [109, 105, 110, 115, 116, 114, 105, 110, 103]
                | MaxString \<Rightarrow> SdsObj [109, 97, 120, 115, 116, 114, 105, 110, 103] | LexObj x \<Rightarrow> x)"

record zlexrangespec =
  lex_min :: lex_obj
  lex_max :: lex_obj
  lex_minex :: bool
  lex_maxex :: bool

text \<open>The text of an argument is followed by a zero byte.\<close>

definition zslParseLexRangeItem :: "byte list \<Rightarrow> (lex_obj \<times> bool) option" where
  "zslParseLexRangeItem c =
     (let c0 = (c @ [0]) ! 0
      in if c0 = 43 then if (c @ [0]) ! 1 \<noteq> 0 then None else Some (MaxString, False)
      else if c0 = 45 then if (c @ [0]) ! 1 \<noteq> 0 then None else Some (MinString, False)
      else if c0 = 40 then Some (LexObj (SdsObj (drop 1 c)), True)
      else if c0 = 91 then Some (LexObj (SdsObj (drop 1 c)), False)
      else None)"

definition zslParseLexRange :: "str_obj \<Rightarrow> str_obj \<Rightarrow> zlexrangespec option" where
  "zslParseLexRange mi ma =
     (case (mi, ma) of
        (SdsObj a, SdsObj b) \<Rightarrow> do {
          (l, lex) \<leftarrow> zslParseLexRangeItem a;
          (m, mex) \<leftarrow> zslParseLexRangeItem b;
          Some \<lparr>lex_min = l, lex_max = m, lex_minex = lex, lex_maxex = mex\<rparr> }
      | _ \<Rightarrow> None)"

definition compareStringObjectsForLexRange :: "lex_obj \<Rightarrow> lex_obj \<Rightarrow> int option" where
  "compareStringObjectsForLexRange a b =
     (if a = b then Some 0
      else if a = MinString \<or> b = MaxString then Some (- 1)
      else if a = MaxString \<or> b = MinString then Some 1
      else compareStringObjects (lex_str a) (lex_str b))"

definition zslLexValueGteMin :: "str_obj \<Rightarrow> zlexrangespec \<Rightarrow> bool option" where
  "zslLexValueGteMin v spec =
     (if lex_minex spec then map_option (\<lambda>c. c > 0) (compareStringObjectsForLexRange (LexObj v) (lex_min spec))
      else map_option (\<lambda>c. c \<ge> 0) (compareStringObjectsForLexRange (LexObj v) (lex_min spec)))"

definition zslLexValueLteMax :: "str_obj \<Rightarrow> zlexrangespec \<Rightarrow> bool option" where
  "zslLexValueLteMax v spec =
     (if lex_maxex spec then map_option (\<lambda>c. c < 0) (compareStringObjectsForLexRange (LexObj v) (lex_max spec))
      else map_option (\<lambda>c. c \<le> 0) (compareStringObjectsForLexRange (LexObj v) (lex_max spec)))"

definition lex_range_empty :: "zlexrangespec \<Rightarrow> bool option" where
  "lex_range_empty spec = do {
     c \<leftarrow> compareStringObjectsForLexRange (lex_min spec) (lex_max spec);
     if c > 1 then Some True
     else do {
       e \<leftarrow> compareStringObjects (lex_str (lex_min spec)) (lex_str (lex_max spec));
       Some (e = 0 \<and> (lex_minex spec \<or> lex_maxex spec)) } }"

abbreviation lex_gte :: "zlexrangespec \<Rightarrow> 's zskiplistNode \<Rightarrow> bool option" where
  "lex_gte spec nd \<equiv> do { x \<leftarrow> zn_obj nd; zslLexValueGteMin x spec }"

abbreviation lex_lte :: "zlexrangespec \<Rightarrow> 's zskiplistNode \<Rightarrow> bool option" where
  "lex_lte spec nd \<equiv> do { x \<leftarrow> zn_obj nd; zslLexValueLteMax x spec }"

definition zslIsInLexRange :: "'s zheap \<Rightarrow> zskiplist \<Rightarrow> zlexrangespec \<Rightarrow> bool option" where
  "zslIsInLexRange h zsl spec = do { e \<leftarrow> lex_range_empty spec; zsl_is_in e (lex_gte spec) (lex_lte spec) h zsl }"

definition zslFirstInLexRange :: "'s zheap \<Rightarrow> zskiplist \<Rightarrow> zlexrangespec \<Rightarrow> zaddr option option" where
  "zslFirstInLexRange h zsl spec = do { e \<leftarrow> lex_range_empty spec; zsl_first_in e (lex_gte spec) (lex_lte spec) h zsl }"

definition zslLastInLexRange :: "'s zheap \<Rightarrow> zskiplist \<Rightarrow> zlexrangespec \<Rightarrow> zaddr option option" where
  "zslLastInLexRange h zsl spec = do { e \<leftarrow> lex_range_empty spec; zsl_last_in e (lex_gte spec) (lex_lte spec) h zsl }"

section \<open>Random levels\<close>

lemma random_level_returns:
  assumes "4 * (rnd (p + n) AND 0xFFFF) \<ge> (0xFFFF::nat)"
  shows "\<exists>lv. random_level rnd p level = Some lv \<and> level \<le> lv \<and> lv \<le> level + n"
  using assms
proof (induction n arbitrary: p level)
  case 0
  then show ?case by (subst random_level.simps) simp
next
  case (Suc n)
  then obtain lv where "random_level rnd (p + 1) (level + 1) = Some lv" "level + 1 \<le> lv" "lv \<le> level + 1 + n"
    using Suc.IH [of "p + 1" "level + 1"] by auto
  then show ?case by (subst random_level.simps) auto
qed

lemma random_level_ge: "random_level rnd p level = Some lv \<Longrightarrow> level \<le> lv"
proof -
  assume "random_level rnd p level = Some lv"
  then have "level \<le> lv"
    by (rule random_level.raw_induct [rotated, where P = "\<lambda>_ _ l m. l \<le> m"]) (auto split: if_splits, fastforce)
  then show ?thesis .
qed

lemma zslRandomLevel_range: "zslRandomLevel rnd = Some lv \<Longrightarrow> 1 \<le> lv \<and> lv \<le> ZSKIPLIST_MAXLEVEL"
  using random_level_ge by (fastforce simp: zslRandomLevel_def bind_eq_Some_conv split: if_splits)

lemma zslCreate_rep:
  assumes "zslCreate mem a z h = (h', zsl)"
  shows "zsl_rep h' zsl []" "zheader zsl = a" "dom h' = insert a (dom h)"
proof -
  have "l\<lparr>forward := None, span := 0\<rparr> = link [] 0 0" for l by (cases l) (simp add: link_def gap_def)
  then show "zsl_rep h' zsl []" "zheader zsl = a" "dom h' = insert a (dom h)"
    using assms by (auto simp: zslCreate_def zsl_rep_def zslCreateNode_def Let_def)
qed

section \<open>Ranks\<close>

lemma text_less_not: "text_less a b \<or> a = b \<longleftrightarrow> \<not> text_less b a"
  using text_less_linear [of a b] text_less_trans [of a b a] by auto

lemma less_eq_cond:
  assumes "zsl_sorted xs" "length (getDecodedObject x) < 2 ^ 31" "q < length xs"
  shows "zsl_less_eq s x rk sp (zsl_node xs q) = Some (\<not> key_less (s, x) (sc (xs ! q), ob (xs ! q)))"
proof -
  have "length (getDecodedObject (ob (xs ! q))) < 2 ^ 31" using assms(1,3) by (simp add: zsl_sorted_def)
  then obtain c where c: "compareStringObjects (ob (xs ! q)) x = Some c" "c = 0 \<longleftrightarrow> getDecodedObject (ob (xs ! q)) = getDecodedObject x"
    "c < 0 \<longleftrightarrow> text_less (getDecodedObject (ob (xs ! q))) (getDecodedObject x)"
    using compare_text [of "ob (xs ! q)" x] assms(2) by (auto simp: text_less_def)
  have le: "c \<le> 0 \<longleftrightarrow> \<not> text_less (getDecodedObject x) (getDecodedObject (ob (xs ! q)))"
    unfolding le_less c(2,3) by (rule text_less_not)
  show ?thesis
    using c(1) le by (cases "sc (xs ! q)" s rule: linorder_cases) (auto simp: zsl_less_eq_def zsl_node_def key_less_def)
qed

text \<open>How many items satisfy a condition that only a first part of the list satisfies.\<close>

definition pre_len :: "('a \<Rightarrow> bool) \<Rightarrow> 'a list \<Rightarrow> nat" where
  "pre_len P xs = length (takeWhile P xs)"

lemma pre_len_le: "pre_len P xs \<le> length xs"
  by (simp add: pre_len_def length_takeWhile_le)

lemma pre_len_iff:
  assumes closed: "\<And>p q. p < q \<Longrightarrow> q < length xs \<Longrightarrow> P (xs ! q) \<Longrightarrow> P (xs ! p)" and q: "q < length xs"
  shows "P (xs ! q) \<longleftrightarrow> q < pre_len P xs"
proof
  assume "q < pre_len P xs"
  then have "q < length (takeWhile P xs)" by (simp only: pre_len_def)
  then show "P (xs ! q)" using set_takeWhileD [OF nth_mem] takeWhile_nth by metis
next
  assume Pq: "P (xs ! q)"
  show "q < pre_len P xs"
  proof (rule ccontr)
    assume "\<not> q < pre_len P xs"
    then have u: "pre_len P xs \<le> q" "pre_len P xs < length xs" using q by simp_all
    have "\<not> P (xs ! pre_len P xs)" using nth_length_takeWhile [OF u(2) [unfolded pre_len_def]] unfolding pre_len_def .
    then show False using closed [of "pre_len P xs" q] u(1) q Pq by (cases "pre_len P xs = q") auto
  qed
qed

lemma rank_loop_rep:
  assumes rep: "zsl_rep h zsl xs" and srt: "zsl_sorted xs" and x: "length (getDecodedObject x) < 2 ^ 31"
    and c: "cond_upto (zsl_less_eq s x :: (64, _) zcond) xs r" and r: "r \<le> length xs"
    and j: "j \<le> zlevel zsl" "j \<le> ht_at xs p" "p \<le> r"
    and one: "\<forall>q < r. getDecodedObject (ob (xs ! q)) = getDecodedObject x \<longrightarrow> q + 1 = r"
  shows "rank_loop h j (ad_at (zheader zsl) xs p) (of_nat p) s x =
    Some (if j \<noteq> 0 \<and> r \<noteq> 0 \<and> getDecodedObject (ob (xs ! (r - 1))) = getDecodedObject x then of_nat r else 0)"
  using j
proof (induction j arbitrary: p)
  case (Suc j)
  let ?v = "prv xs j r"
  have i: "j < zlevel zsl" "j < ht_at xs p" using Suc.prems by simp_all
  have w: "walk_level (zsl_less_eq s x) h j (ad_at (zheader zsl) xs p) (of_nat p :: u64) = Some (ad_at (zheader zsl) xs ?v, of_nat ?v)"
    by (rule walk_level_rep [OF rep c r i(1) Suc.prems(3) i(2)])
  have v: "?v \<le> r" by (rule prv_le)
  have hv: "j < ht_at xs ?v" by (rule prv_ht) (use i(1) zsl_repD(2) [OF rep] in simp)
  have IH: "rank_loop h j (ad_at (zheader zsl) xs ?v) (of_nat ?v) s x =
      Some (if j \<noteq> 0 \<and> r \<noteq> 0 \<and> getDecodedObject (ob (xs ! (r - 1))) = getDecodedObject x then of_nat r else 0)"
    by (rule Suc.IH) (use Suc.prems(1) hv v in simp_all)
  have v0: "j = 0 \<Longrightarrow> ?v = r" using prv_0 [OF zsl_repD(5) [OF rep] r] by simp
  show ?case
  proof (cases "?v = 0")
    case True
    obtain nd where nd: "h (zheader zsl) = Some nd" "zn_obj nd = None" by (rule zsl_rep_header [OF rep])
    then show ?thesis using w IH True v0 by (auto simp: ad_at_def)
  next
    case False
    then have q: "?v - 1 < length xs" "?v - 1 < r" using v r by simp_all
    have nd: "h (ad_at (zheader zsl) xs ?v) = Some (zsl_node xs (?v - 1))" using zsl_repD(7) [OF rep q(1)] False by (simp add: ad_at_def)
    have eq: "equalStringObjects (ob (xs ! (?v - 1))) x = Some (getDecodedObject (ob (xs ! (?v - 1))) = getDecodedObject x)"
      by (rule equal_text [OF _ x]) (use srt q(1) in \<open>simp add: zsl_sorted_def\<close>)
    show ?thesis
    proof (cases "getDecodedObject (ob (xs ! (?v - 1))) = getDecodedObject x")
      case True
      then have "?v = r" using one [rule_format, OF q(2)] False by simp
      then show ?thesis using w nd eq True False by (simp add: zsl_node_def)
    next
      case ne: False
      then have "j = 0 \<Longrightarrow> getDecodedObject (ob (xs ! (r - 1))) \<noteq> getDecodedObject x" using v0 by auto
      then show ?thesis using w nd eq ne IH by (auto simp: zsl_node_def)
    qed
  qed
qed simp

lemma element_loop_rep:
  assumes rep: "zsl_rep h zsl xs" and j: "j \<le> zlevel zsl" "j \<le> ht_at xs p" "p \<le> length xs" "p \<le> unat rank"
  shows "element_loop h j (ad_at (zheader zsl) xs p) (of_nat p) rank =
    Some (if j \<noteq> 0 \<and> unat rank \<le> length xs then Some (ad_at (zheader zsl) xs (unat rank)) else None)"
  using j
proof (induction j arbitrary: p)
  case (Suc j)
  define r where "r = min (unat rank) (length xs)"
  let ?v = "prv xs j r"
  have len: "length xs < 2 ^ 32" by (rule zsl_repD(3) [OF rep])
  have c: "cond_upto (\<lambda>t sp nd. Some (t + ucast sp \<le> rank)) xs r"
    unfolding cond_upto_def
  proof (intro allI impI)
    fix p q assume a: "p \<le> q \<and> q < length xs"
    have "q + 1 - p \<le> length xs" using a by arith
    then have k: "q + 1 - p < 2 ^ 32" "p + (q + 1 - p) = q + 1" using a le_less_trans [OF _ len, of "q + 1 - p"] by simp_all
    have "of_nat p + ucast (of_nat (q + 1 - p) :: u32) = (of_nat (q + 1) :: u64)"
      unfolding ucast_span [OF k(1)] of_nat_add [symmetric] k(2) ..
    moreover have "(of_nat (q + 1) :: u64) \<le> rank \<longleftrightarrow> q < unat rank"
      using a len by (simp add: word_le_nat_alt unsigned_of_nat take_bit_nat_eq_self Suc_le_eq del: of_nat_Suc)
    ultimately show "Some (of_nat p + ucast (of_nat (q + 1 - p) :: u32) \<le> rank) = Some (q < r)" using a by (simp add: r_def)
  qed
  have i: "j < zlevel zsl" "j < ht_at xs p" "r \<le> length xs" "p \<le> r" using Suc.prems by (simp_all add: r_def)
  have w: "walk_level (\<lambda>t sp nd. Some (t + ucast sp \<le> rank)) h j (ad_at (zheader zsl) xs p) (of_nat p) = Some (ad_at (zheader zsl) xs ?v, of_nat ?v)"
    by (rule walk_level_rep [OF rep c i(3,1,4,2)])
  have v: "?v \<le> r" by (rule prv_le)
  have "?v < 2 ^ 64" using v i(3) len by simp
  then have eq: "of_nat ?v = rank \<longleftrightarrow> ?v = unat rank" by (simp add: word_unat_eq_iff unsigned_of_nat take_bit_nat_eq_self)
  have hv: "j < ht_at xs ?v" by (rule prv_ht) (use i(1) zsl_repD(2) [OF rep] in simp)
  have IH: "element_loop h j (ad_at (zheader zsl) xs ?v) (of_nat ?v) rank =
      Some (if j \<noteq> 0 \<and> unat rank \<le> length xs then Some (ad_at (zheader zsl) xs (unat rank)) else None)"
    by (rule Suc.IH) (use Suc.prems(1) hv v in \<open>simp_all add: r_def\<close>)
  have v0: "j = 0 \<Longrightarrow> ?v = r" using prv_0 [OF zsl_repD(5) [OF rep] i(3)] by simp
  have le: "?v = unat rank \<Longrightarrow> unat rank \<le> length xs" using v by (simp add: r_def)
  have j0: "j = 0 \<Longrightarrow> unat rank \<le> length xs \<Longrightarrow> ?v = unat rank" using v0 by (simp add: r_def)
  show ?case using w IH eq le j0 by auto
qed simp

lemma zslGetRank_rep:
  assumes rep: "zsl_rep h zsl xs" and srt: "zsl_sorted xs" and x: "length (getDecodedObject x) < 2 ^ 31"
    and dist: "distinct (map (\<lambda>y. getDecodedObject (ob y)) xs)"
  shows "q < length xs \<Longrightarrow> zkey (xs ! q) = (s, getDecodedObject x) \<Longrightarrow> zslGetRank h zsl s x = Some (of_nat (q + 1))"
    "getDecodedObject x \<notin> (\<lambda>y. getDecodedObject (ob y)) ` set xs \<Longrightarrow> zslGetRank h zsl s x = Some 0"
proof -
  let ?P = "\<lambda>y. \<not> key_less (s, x) (sc y, ob y)"
  define r where "r = pre_len ?P xs"
  have closed: "?P (xs ! p)" if "p < q" "q < length xs" "?P (xs ! q)" for p q
    using zsl_sorted_nth [OF srt that(2,1)] that(3) key_less_trans by blast
  have r: "r \<le> length xs" unfolding r_def by (rule pre_len_le)
  have P: "?P (xs ! q) \<longleftrightarrow> q < r" if "q < length xs" for q unfolding r_def by (rule pre_len_iff [where P = ?P, OF closed that])
  have c: "cond_upto (zsl_less_eq s x :: (64, 'a) zcond) xs r"
    unfolding cond_upto_def
  proof (intro allI impI)
    fix p q assume "p \<le> q \<and> q < length xs"
    then have q: "q < length xs" by simp
    show "zsl_less_eq s x (of_nat p :: u64) (of_nat (q + 1 - p)) (zsl_node xs q) = Some (q < r)"
      unfolding less_eq_cond [OF srt x q] P [OF q] ..
  qed
  have j: "zlevel zsl \<le> ht_at xs 0" "zlevel zsl \<noteq> 0" using zsl_repD(1,2) [OF rep] by (simp_all add: ht_at_def)
  note loop = rank_loop_rep [OF rep srt x c r order_refl j(1) le0]
  show "zslGetRank h zsl s x = Some (of_nat (q + 1))" if q: "q < length xs" "zkey (xs ! q) = (s, getDecodedObject x)"
  proof -
    have "q < r" using P [OF q(1)] key_less_zkey(1) [OF q(2), of "(s, x)"] by simp
    moreover have "\<not> q + 1 < r"
    proof
      assume "q + 1 < r"
      then have q1: "q + 1 < length xs" using r by simp
      have "key_less (s, x) (sc (xs ! (q + 1)), ob (xs ! (q + 1)))"
        using zsl_sorted_nth [OF srt q1, of q] key_less_zkey(2) [OF q(2)] by simp
      then show False using P [OF q1] \<open>q + 1 < r\<close> by blast
    qed
    ultimately have r1: "r = q + 1" by simp
    have t: "getDecodedObject (ob (xs ! q)) = getDecodedObject x" using q(2) by (simp add: zkey_def)
    have "\<forall>p < r. getDecodedObject (ob (xs ! p)) = getDecodedObject x \<longrightarrow> p + 1 = r"
      using nth_eq_iff_index_eq [OF dist, of _ q] q(1) t r1 by simp
    from loop [OF this] show ?thesis using r1 t j(2) by (simp add: zslGetRank_def ad_at_def)
  qed
  show "zslGetRank h zsl s x = Some 0" if n: "getDecodedObject x \<notin> (\<lambda>y. getDecodedObject (ob y)) ` set xs"
  proof -
    have "getDecodedObject (ob (xs ! p)) \<noteq> getDecodedObject x" if "p < r" for p
    proof -
      have "xs ! p \<in> set xs" using that r by simp
      then show ?thesis using n by (metis (no_types, lifting) imageI)
    qed
    then have "\<forall>p < r. getDecodedObject (ob (xs ! p)) = getDecodedObject x \<longrightarrow> p + 1 = r" "r \<noteq> 0 \<Longrightarrow> getDecodedObject (ob (xs ! (r - 1))) \<noteq> getDecodedObject x"
      by simp_all
    from loop [OF this(1)] this(2) show ?thesis by (auto simp: zslGetRank_def ad_at_def)
  qed
qed

lemma zslGetElementByRank_rep:
  assumes rep: "zsl_rep h zsl xs"
  shows "zslGetElementByRank h zsl rank = Some (if unat rank \<le> length xs then Some (ad_at (zheader zsl) xs (unat rank)) else None)"
  using element_loop_rep [OF rep order_refl, of 0 rank] zsl_repD(1,2) [OF rep] by (simp add: zslGetElementByRank_def ad_at_def [of _ _ 0] ht_at_def)

section \<open>Ranges\<close>

lemma find_first:
  assumes g: "\<And>p q. p < q \<Longrightarrow> q < length xs \<Longrightarrow> G (xs ! p) \<Longrightarrow> G (xs ! q)"
    and l: "\<And>p q. p < q \<Longrightarrow> q < length xs \<Longrightarrow> L (xs ! q) \<Longrightarrow> L (xs ! p)"
  shows "find (\<lambda>x. G x \<and> L x) xs =
    (let a = pre_len (\<lambda>x. \<not> G x) xs in if a < length xs \<and> L (xs ! a) then Some (xs ! a) else None)"
proof -
  define a where "a = pre_len (\<lambda>x. \<not> G x) xs"
  have G: "q < length xs \<Longrightarrow> G (xs ! q) \<longleftrightarrow> a \<le> q" for q
    using pre_len_iff [of xs "\<lambda>x. \<not> G x" q] g unfolding a_def by (metis not_le)
  show ?thesis
  proof (cases "a < length xs \<and> L (xs ! a)")
    case True
    then have "find (\<lambda>x. G x \<and> L x) xs = Some (xs ! a)"
      unfolding find_Some_iff using G by (intro exI [of _ a]) auto
    then show ?thesis using True by (simp add: a_def [symmetric])
  next
    case False
    have "\<not> (G x \<and> L x)" if x: "x \<in> set xs" for x
    proof
      obtain q where q: "q < length xs" "x = xs ! q" using x by (auto simp: in_set_conv_nth)
      assume "G x \<and> L x"
      then have "a \<le> q" "L (xs ! q)" using G q by auto
      then have "a < length xs" "L (xs ! a)" using q(1) l [of a q] by (cases "a = q", auto)+
      then show False using False by simp
    qed
    then have "find (\<lambda>x. G x \<and> L x) xs = None" unfolding find_None_iff by blast
    then show ?thesis using False by (simp add: a_def [symmetric])
  qed
qed

lemma find_last:
  assumes g: "\<And>p q. p < q \<Longrightarrow> q < length xs \<Longrightarrow> G (xs ! p) \<Longrightarrow> G (xs ! q)"
    and l: "\<And>p q. p < q \<Longrightarrow> q < length xs \<Longrightarrow> L (xs ! q) \<Longrightarrow> L (xs ! p)"
  shows "find (\<lambda>x. G x \<and> L x) (rev xs) =
    (let b = pre_len L xs in if 0 < b \<and> G (xs ! (b - 1)) then Some (xs ! (b - 1)) else None)"
proof -
  define b where "b = pre_len L xs"
  have b: "b \<le> length xs" unfolding b_def by (rule pre_len_le)
  have L: "q < length xs \<Longrightarrow> L (xs ! q) \<longleftrightarrow> q < b" for q
    using pre_len_iff [of xs L q] l unfolding b_def by blast
  show ?thesis
  proof (cases "0 < b \<and> G (xs ! (b - 1))")
    case True
    have "length xs - Suc (length xs - b) = b - 1" using True b by arith
    moreover have "length xs - b < length xs" using True b by arith
    ultimately have "rev xs ! (length xs - b) = xs ! (b - 1)" using rev_nth [of "length xs - b" xs] by simp
    moreover have "\<not> L (rev xs ! j)" if "j < length xs - b" for j using that L [of "length xs - Suc j"] by (simp add: rev_nth)
    moreover have "L (xs ! (b - 1))" "length xs - b < length xs" using True L [of "b - 1"] b by auto
    ultimately have "find (\<lambda>x. G x \<and> L x) (rev xs) = Some (xs ! (b - 1))"
      unfolding find_Some_iff using True by (intro exI [of _ "length xs - b"]) auto
    then show ?thesis using True by (simp add: b_def [symmetric])
  next
    case False
    have "\<not> (G x \<and> L x)" if x: "x \<in> set xs" for x
    proof
      obtain q where q: "q < length xs" "x = xs ! q" using x by (auto simp: in_set_conv_nth)
      assume "G x \<and> L x"
      then have "q < b" "G (xs ! q)" using L q by auto
      then have "0 < b" "G (xs ! (b - 1))" using b g [of q "b - 1"] by (cases "q = b - 1", auto)+
      then show False using False by simp
    qed
    then have "find (\<lambda>x. G x \<and> L x) (rev xs) = None" unfolding find_None_iff by simp
    then show ?thesis using False by (simp add: b_def [symmetric])
  qed
qed

text \<open>A search for a condition that only a first part of the list satisfies.\<close>

lemma descend_search:
  assumes rep: "zsl_rep h zsl xs" and c: "\<And>q. q < length xs \<Longrightarrow> c (zsl_node xs q) = Some (P (xs ! q))"
    and down: "\<And>p q. p < q \<Longrightarrow> q < length xs \<Longrightarrow> P (xs ! q) \<Longrightarrow> P (xs ! p)"
  obtains rs where "descend (\<lambda>_ _ nd. c nd) h (zlevel zsl) (zheader zsl) (0 :: u32) =
    Some (updates (zheader zsl) xs (pre_len P xs) (zlevel zsl), rs, ad_at (zheader zsl) xs (pre_len P xs))"
proof -
  have "cond_upto ((\<lambda>_ _ nd. c nd) :: (32, 'a) zcond) xs (pre_len P xs)"
    unfolding cond_upto_def
  proof (intro allI impI)
    fix p q assume "p \<le> q \<and> q < length xs"
    then have q: "q < length xs" by simp
    have "P (xs ! q) \<longleftrightarrow> q < pre_len P xs" by (rule pre_len_iff [OF _ q]) (rule down)
    then show "c (zsl_node xs q) = Some (q < pre_len P xs)" using c [OF q] by simp
  qed
  from descend_rep [OF rep this pre_len_le order_refl, of 0] show thesis
    using that zsl_repD(1,2) [OF rep] by (simp add: ad_at_def [of _ _ 0] ht_at_def updates_def)
qed

lemma next_rep:
  assumes rep: "zsl_rep h zsl xs" and a: "a \<le> length xs"
  shows "level_at h (ad_at (zheader zsl) xs a) 0 = Some (link xs 0 a)"
    "forward (link xs 0 a) = (if a < length xs then Some (ad (xs ! a)) else None)"
proof -
  have "0 < ht_at xs a" using zsl_repD(5) [OF rep] a by (cases a) (auto simp: ht_at_def Suc_le_eq)
  then show "level_at h (ad_at (zheader zsl) xs a) 0 = Some (link xs 0 a)"
    using level_at_rep [OF rep a] zsl_repD(1) [OF rep] by simp
  show "forward (link xs 0 a) = (if a < length xs then Some (ad (xs ! a)) else None)"
    by (rule link_0 [OF zsl_repD(5) [OF rep] a])
qed

text \<open>
  The interface of a range: on the lists that \<open>srt\<close> admits, the comparisons of a node with the
  two ends are a condition that only a last part of the list satisfies and one that only a
  first part satisfies.
\<close>

locale zsl_range =
  fixes none :: bool and gte lte :: "'s zskiplistNode \<Rightarrow> bool option" and G L :: "'s zitem \<Rightarrow> bool" and srt :: "'s zitem list \<Rightarrow> bool"
  assumes gte: "srt xs \<Longrightarrow> q < length xs \<Longrightarrow> gte (zsl_node xs q) = Some (G (xs ! q))"
    and lte: "srt xs \<Longrightarrow> q < length xs \<Longrightarrow> lte (zsl_node xs q) = Some (L (xs ! q))"
    and gte_up: "srt xs \<Longrightarrow> p < q \<Longrightarrow> q < length xs \<Longrightarrow> G (xs ! p) \<Longrightarrow> G (xs ! q)"
    and lte_down: "srt xs \<Longrightarrow> p < q \<Longrightarrow> q < length xs \<Longrightarrow> L (xs ! q) \<Longrightarrow> L (xs ! p)"
    and none: "none \<Longrightarrow> srt xs \<Longrightarrow> x \<in> set xs \<Longrightarrow> \<not> (G x \<and> L x)"
begin

lemma is_in:
  assumes rep: "zsl_rep h zsl xs" and srt: "srt xs"
  shows "\<exists>b. zsl_is_in none gte lte h zsl = Some b \<and> (\<not> b \<longrightarrow> (\<forall>x \<in> set xs. \<not> (G x \<and> L x)))
    \<and> (b \<longrightarrow> xs \<noteq> [] \<and> G (last xs) \<and> L (hd xs))"
proof (cases "none \<or> xs = []")
  case True
  then have "\<forall>x \<in> set xs. \<not> (G x \<and> L x)" using none [OF _ srt] by fastforce
  moreover have "zsl_is_in none gte lte h zsl = Some False" using True zsl_repD(8) [OF rep] by (auto simp: zsl_is_in_def)
  ultimately show ?thesis by (intro exI [of _ False]) simp
next
  case False
  then have ne: "xs \<noteq> []" and n: "\<not> none" by simp_all
  let ?z = "length xs - 1"
  have z: "?z < length xs" "0 < length xs" using ne by auto
  have nt: "h (ad (last xs)) = Some (zsl_node xs ?z)" "gte (zsl_node xs ?z) = Some (G (last xs))"
    using zsl_repD(7) [OF rep z(1)] gte [OF srt z(1)] ne by (simp_all add: last_conv_nth)
  have nh: "h (ad (hd xs)) = Some (zsl_node xs 0)" "lte (zsl_node xs 0) = Some (L (hd xs))"
    using zsl_repD(7) [OF rep z(2)] lte [OF srt z(2)] ne by (simp_all add: hd_conv_nth)
  have lv: "level_at h (zheader zsl) 0 = Some (link xs 0 0)" "forward (link xs 0 0) = Some (ad (hd xs))"
    using next_rep [OF rep, of 0] ne by (simp_all add: ad_at_def hd_conv_nth)
  have "zsl_is_in none gte lte h zsl = Some (G (last xs) \<and> L (hd xs))"
    using n ne nt nh lv zsl_repD(8) [OF rep] by (auto simp: zsl_is_in_def)
  moreover have "\<forall>x \<in> set xs. \<not> (G x \<and> L x)" if "\<not> (G (last xs) \<and> L (hd xs))"
  proof
    fix x assume "x \<in> set xs"
    then obtain q where q: "q < length xs" "x = xs ! q" by (auto simp: in_set_conv_nth)
    have "G x \<Longrightarrow> G (last xs)" using gte_up [OF srt, of q ?z] q ne by (cases "q = ?z") (auto simp: last_conv_nth)
    moreover have "L x \<Longrightarrow> L (hd xs)" using lte_down [OF srt, of 0 q] q ne by (cases "q = 0") (auto simp: hd_conv_nth)
    ultimately show "\<not> (G x \<and> L x)" using that by blast
  qed
  ultimately show ?thesis using ne by blast
qed

lemma gte_search: "srt xs \<Longrightarrow> p < q \<Longrightarrow> q < length xs \<Longrightarrow> \<not> G (xs ! q) \<Longrightarrow> \<not> G (xs ! p)"
  using gte_up by blast

lemma first_in:
  assumes rep: "zsl_rep h zsl xs" and srt: "srt xs"
  shows "zsl_first_in none gte lte h zsl = Some (map_option ad (find (\<lambda>x. G x \<and> L x) xs))"
proof -
  obtain b where b: "zsl_is_in none gte lte h zsl = Some b" "\<not> b \<longrightarrow> (\<forall>x \<in> set xs. \<not> (G x \<and> L x))"
    "b \<longrightarrow> xs \<noteq> [] \<and> G (last xs) \<and> L (hd xs)" using is_in [OF assms] by blast
  show ?thesis
  proof (cases b)
    case False
    then have "find (\<lambda>x. G x \<and> L x) xs = None" using b(2) by (auto simp: find_None_iff)
    then show ?thesis using b(1) False by (simp add: zsl_first_in_def)
  next
    case True
    define a where "a = pre_len (\<lambda>x. \<not> G x) xs"
    have z: "length xs - 1 < length xs" "G (xs ! (length xs - 1))" using b(3) True by (auto simp: last_conv_nth)
    have "\<not> length xs - 1 < a" using pre_len_iff [of xs "\<lambda>x. \<not> G x" "length xs - 1"] gte_search [OF srt] z unfolding a_def by blast
    then have al: "a < length xs" using z(1) by simp
    have g: "map_option Not (gte (zsl_node xs q)) = Some (\<not> G (xs ! q))" if "q < length xs" for q using gte [OF srt that] by simp
    obtain rs where d: "descend (\<lambda>_ _ nd. map_option Not (gte nd)) h (zlevel zsl) (zheader zsl) (0 :: u32) =
        Some (updates (zheader zsl) xs a (zlevel zsl), rs, ad_at (zheader zsl) xs a)"
      by (rule descend_search [where c = "\<lambda>nd. map_option Not (gte nd)" and P = "\<lambda>x. \<not> G x", OF rep g gte_search [OF srt], folded a_def])
    show ?thesis
      using find_first [of xs G L] gte_up [OF srt] lte_down [OF srt] True b(1) d next_rep [OF rep, of a] zsl_repD(7) [OF rep al] lte [OF srt al] al
      by (simp add: zsl_first_in_def Let_def a_def [symmetric])
  qed
qed

lemma last_in:
  assumes rep: "zsl_rep h zsl xs" and srt: "srt xs"
  shows "zsl_last_in none gte lte h zsl = Some (map_option ad (find (\<lambda>x. G x \<and> L x) (rev xs)))"
proof -
  obtain b where b: "zsl_is_in none gte lte h zsl = Some b" "\<not> b \<longrightarrow> (\<forall>x \<in> set xs. \<not> (G x \<and> L x))"
    "b \<longrightarrow> xs \<noteq> [] \<and> G (last xs) \<and> L (hd xs)" using is_in [OF assms] by blast
  show ?thesis
  proof (cases b)
    case False
    then have "find (\<lambda>x. G x \<and> L x) (rev xs) = None" using b(2) by (auto simp: find_None_iff)
    then show ?thesis using b(1) False by (simp add: zsl_last_in_def)
  next
    case True
    define k where "k = pre_len L xs"
    have z: "0 < length xs" "L (xs ! 0)" using b(3) True by (auto simp: hd_conv_nth)
    have k: "0 < k" "k \<le> length xs" using pre_len_iff [of xs L 0] lte_down [OF srt] z pre_len_le [of L xs] unfolding k_def by blast+
    then have k1: "k - 1 < length xs" by simp
    obtain rs where d: "descend (\<lambda>_ _ nd. lte nd) h (zlevel zsl) (zheader zsl) (0 :: u32) =
        Some (updates (zheader zsl) xs k (zlevel zsl), rs, ad_at (zheader zsl) xs k)"
      by (rule descend_search [where c = lte and P = L, OF rep lte [OF srt] lte_down [OF srt], folded k_def])
    have "h (ad_at (zheader zsl) xs k) = Some (zsl_node xs (k - 1))" "ad_at (zheader zsl) xs k = ad (xs ! (k - 1))"
      using zsl_repD(7) [OF rep k1] k(1) by (simp_all add: ad_at_def)
    then show ?thesis
      using find_last [of xs G L] gte_up [OF srt] lte_down [OF srt] True b(1) d gte [OF srt k1] k(1)
      by (simp add: zsl_last_in_def Let_def k_def [symmetric])
  qed
qed

end

interpretation score_range: zsl_range "range_empty spec" "score_gte spec" "score_lte spec"
    "\<lambda>x. zslValueGteMin (sc x) spec" "\<lambda>x. zslValueLteMax (sc x) spec" zsl_sorted for spec :: "'s::linorder zrangespec"
proof
  fix xs :: "'s zitem list" and p q
  assume "zsl_sorted xs" "p < q" "q < length xs"
  then have le: "sc (xs ! p) \<le> sc (xs ! q)" using zsl_sorted_nth [of xs q p] by (auto simp: key_less_def)
  show "zslValueGteMin (sc (xs ! p)) spec \<Longrightarrow> zslValueGteMin (sc (xs ! q)) spec" using le by (auto simp: zslValueGteMin_def split: if_splits)
  show "zslValueLteMax (sc (xs ! q)) spec \<Longrightarrow> zslValueLteMax (sc (xs ! p)) spec" using le by (auto simp: zslValueLteMax_def split: if_splits)
qed (auto simp: zsl_node_def range_empty_def zslValueGteMin_def zslValueLteMax_def split: if_splits)

section \<open>Texts in a range\<close>

definition lex_above :: "zlexrangespec \<Rightarrow> byte list \<Rightarrow> bool" where
  "lex_above spec t = (case lex_min spec of MinString \<Rightarrow> True | MaxString \<Rightarrow> False
     | LexObj m \<Rightarrow> if lex_minex spec then text_less (getDecodedObject m) t else \<not> text_less t (getDecodedObject m))"

definition lex_below :: "zlexrangespec \<Rightarrow> byte list \<Rightarrow> bool" where
  "lex_below spec t = (case lex_max spec of MinString \<Rightarrow> False | MaxString \<Rightarrow> True
     | LexObj m \<Rightarrow> if lex_maxex spec then text_less t (getDecodedObject m) else \<not> text_less (getDecodedObject m) t)"

text \<open>
  The ranges on which the tests do what they mean: a text at one end is not the text of the
  shared object at the other end.
\<close>

definition lex_spec_ok :: "zlexrangespec \<Rightarrow> bool" where
  "lex_spec_ok spec \<longleftrightarrow> length (getDecodedObject (lex_str (lex_min spec))) < 2 ^ 31 \<and> length (getDecodedObject (lex_str (lex_max spec))) < 2 ^ 31
     \<and> (case (lex_min spec, lex_max spec) of
          (LexObj m, LexObj n) \<Rightarrow> True
        | (a, b) \<Rightarrow> a = b \<or> getDecodedObject (lex_str a) \<noteq> getDecodedObject (lex_str b))"

definition lex_sorted :: "zlexrangespec \<Rightarrow> 's::linorder zitem list \<Rightarrow> bool" where
  "lex_sorted spec xs \<longleftrightarrow> zsl_sorted xs \<and> lex_spec_ok spec \<and> (\<forall>x \<in> set xs. \<forall>y \<in> set xs. sc x = sc y)"

lemma compare_signs:
  assumes "length (getDecodedObject a) < 2 ^ 31" "length (getDecodedObject b) < 2 ^ 31"
  obtains c where "compareStringObjects a b = Some c" "c = 0 \<longleftrightarrow> getDecodedObject a = getDecodedObject b"
    "c < 0 \<longleftrightarrow> text_less (getDecodedObject a) (getDecodedObject b)" "c > 0 \<longleftrightarrow> text_less (getDecodedObject b) (getDecodedObject a)"
proof -
  obtain c where c: "compareStringObjects a b = Some c" "c = 0 \<longleftrightarrow> getDecodedObject a = getDecodedObject b"
    "c < 0 \<longleftrightarrow> text_less (getDecodedObject a) (getDecodedObject b)" using compare_text [OF assms] by (auto simp: text_less_def)
  moreover have "c > 0 \<longleftrightarrow> text_less (getDecodedObject b) (getDecodedObject a)"
    using c(2,3) text_less_not [of "getDecodedObject a" "getDecodedObject b"] by auto
  ultimately show thesis by (rule that)
qed

lemma lex_values:
  assumes "lex_spec_ok spec" "length (getDecodedObject v) < 2 ^ 31"
  shows "zslLexValueGteMin v spec = Some (lex_above spec (getDecodedObject v))" "zslLexValueLteMax v spec = Some (lex_below spec (getDecodedObject v))"
proof -
  have len: "length (getDecodedObject (lex_str (lex_min spec))) < 2 ^ 31" "length (getDecodedObject (lex_str (lex_max spec))) < 2 ^ 31"
    using assms(1) by (simp_all add: lex_spec_ok_def)
  show "zslLexValueGteMin v spec = Some (lex_above spec (getDecodedObject v))"
  proof (cases "lex_min spec")
    case (LexObj m)
    then obtain c where c: "compareStringObjects v m = Some c" "c = 0 \<longleftrightarrow> getDecodedObject v = getDecodedObject m"
      "c < 0 \<longleftrightarrow> text_less (getDecodedObject v) (getDecodedObject m)" "c > 0 \<longleftrightarrow> text_less (getDecodedObject m) (getDecodedObject v)"
      using compare_signs [OF assms(2), of m] len(1) by (auto simp: lex_str_def)
    then show ?thesis using LexObj
      by (cases "v = m") (auto simp: zslLexValueGteMin_def compareStringObjectsForLexRange_def lex_str_def lex_above_def not_less [symmetric])
  qed (simp_all add: zslLexValueGteMin_def compareStringObjectsForLexRange_def lex_above_def)
  show "zslLexValueLteMax v spec = Some (lex_below spec (getDecodedObject v))"
  proof (cases "lex_max spec")
    case (LexObj m)
    then obtain c where c: "compareStringObjects v m = Some c" "c = 0 \<longleftrightarrow> getDecodedObject v = getDecodedObject m"
      "c < 0 \<longleftrightarrow> text_less (getDecodedObject v) (getDecodedObject m)" "c > 0 \<longleftrightarrow> text_less (getDecodedObject m) (getDecodedObject v)"
      using compare_signs [OF assms(2), of m] len(2) by (auto simp: lex_str_def)
    then show ?thesis using LexObj
      by (cases "v = m") (auto simp: zslLexValueLteMax_def compareStringObjectsForLexRange_def lex_str_def lex_below_def not_less [symmetric])
  qed (simp_all add: zslLexValueLteMax_def compareStringObjectsForLexRange_def lex_below_def)
qed

lemma text_less_asym: "text_less a b \<Longrightarrow> \<not> text_less b a"
  using text_less_trans [of a b a] by auto

lemma lex_ends:
  "lex_above spec t \<Longrightarrow> lex_min spec = LexObj m \<Longrightarrow> \<not> text_less t (getDecodedObject m) \<and> (lex_minex spec \<longrightarrow> text_less (getDecodedObject m) t)"
  "lex_below spec t \<Longrightarrow> lex_max spec = LexObj n \<Longrightarrow> \<not> text_less (getDecodedObject n) t \<and> (lex_maxex spec \<longrightarrow> text_less t (getDecodedObject n))"
  by (simp_all add: lex_above_def lex_below_def text_less_asym split: if_splits)

lemma lex_empty:
  assumes "lex_spec_ok spec"
  obtains e where "lex_range_empty spec = Some e" "\<And>t. e \<Longrightarrow> \<not> (lex_above spec t \<and> lex_below spec t)"
proof -
  define a b where "a = lex_min spec" and "b = lex_max spec"
  let ?ta = "getDecodedObject (lex_str a)" and ?tb = "getDecodedObject (lex_str b)"
  obtain c where c: "compareStringObjects (lex_str a) (lex_str b) = Some c" "c = 0 \<longleftrightarrow> ?ta = ?tb" "c < 0 \<longleftrightarrow> text_less ?ta ?tb" "c > 0 \<longleftrightarrow> text_less ?tb ?ta"
    by (rule compare_signs [of "lex_str a" "lex_str b"]) (use assms in \<open>simp_all add: lex_spec_ok_def a_def b_def\<close>)
  define d where "d = (if a = b then 0 else if a = MinString \<or> b = MaxString then - 1 else if a = MaxString \<or> b = MinString then 1 else c)"
  have d: "compareStringObjectsForLexRange a b = Some d" using c(1) by (simp add: compareStringObjectsForLexRange_def d_def)
  define e where "e = (d > 1 \<or> c = 0 \<and> (lex_minex spec \<or> lex_maxex spec))"
  have "lex_range_empty spec = Some e" using c(1) d by (simp add: lex_range_empty_def a_def b_def e_def)
  moreover have "\<not> (lex_above spec t \<and> lex_below spec t)" if e for t
  proof -
    from that consider (gt) "d > 1" | (eq) "?ta = ?tb" "lex_minex spec \<or> lex_maxex spec" using c(2) by (auto simp: e_def)
    then show ?thesis
    proof cases
      case gt
      then have "a \<noteq> MinString \<and> a \<noteq> MaxString \<and> b \<noteq> MinString \<and> b \<noteq> MaxString" by (auto simp: d_def split: if_splits)
      then obtain m n where mn: "a = LexObj m" "b = LexObj n" by (cases a; cases b) simp_all
      then have "d = 0 \<or> d = c" by (simp add: d_def)
      then have "text_less ?tb ?ta" using gt c(4) by auto
      then have "text_less t ?ta \<or> text_less ?tb t" using text_less_linear [of t ?tb] text_less_trans [of t ?tb ?ta] by (elim disjE) simp_all
      moreover have "lex_min spec = LexObj m" "lex_max spec = LexObj n" "?ta = getDecodedObject m" "?tb = getDecodedObject n"
        using mn by (simp_all add: a_def b_def lex_str_def)
      ultimately show ?thesis using lex_ends(1) [of spec t m] lex_ends(2) [of spec t n] by auto
    next
      case eq
      then have "a = b \<or> (\<exists>m n. a = LexObj m \<and> b = LexObj n)" using assms unfolding lex_spec_ok_def a_def [symmetric] b_def [symmetric] by (cases a; cases b) simp_all
      then show ?thesis
      proof
        assume "\<exists>m n. a = LexObj m \<and> b = LexObj n"
        then obtain m n where "lex_min spec = LexObj m" "lex_max spec = LexObj n" "getDecodedObject m = getDecodedObject n"
          using eq(1) by (auto simp: a_def b_def lex_str_def)
        then show ?thesis using eq(2) lex_ends(1) [of spec t m] lex_ends(2) [of spec t n] by auto
      next
        assume "a = b"
        then have ab: "lex_min spec = lex_max spec" by (simp add: a_def b_def)
        show ?thesis
        proof (cases "lex_max spec")
          case (LexObj n)
          then show ?thesis using ab eq(2) lex_ends(1) [of spec t n] lex_ends(2) [of spec t n] by auto
        qed (use ab in \<open>simp_all add: lex_above_def lex_below_def\<close>)
      qed
    qed
  qed
  ultimately show thesis by (rule that)
qed

lemma lex_mono:
  assumes "text_less t u"
  shows "lex_above spec t \<Longrightarrow> lex_above spec u" "lex_below spec u \<Longrightarrow> lex_below spec t"
proof -
  note up = text_less_trans [OF _ assms] and down = text_less_trans [OF assms]
  show "lex_above spec t \<Longrightarrow> lex_above spec u" using up down unfolding lex_above_def
    by (cases "lex_min spec"; cases "lex_minex spec") (simp_all, blast)
  show "lex_below spec u \<Longrightarrow> lex_below spec t" using up down unfolding lex_below_def
    by (cases "lex_max spec"; cases "lex_maxex spec") (simp_all, blast)
qed

interpretation lex_range: zsl_range "lex_range_empty spec = Some True" "lex_gte spec" "lex_lte spec"
    "\<lambda>x. lex_above spec (getDecodedObject (ob x))" "\<lambda>x. lex_below spec (getDecodedObject (ob x))" "lex_sorted spec" for spec
proof
  fix xs :: "'s::linorder zitem list" and p q
  assume s: "lex_sorted spec xs" "p < q" "q < length xs"
  then have "key_less (sc (xs ! p), ob (xs ! p)) (sc (xs ! q), ob (xs ! q))" "sc (xs ! p) = sc (xs ! q)"
    using zsl_sorted_nth [of xs q p] by (simp_all add: lex_sorted_def)
  then have "text_less (getDecodedObject (ob (xs ! p))) (getDecodedObject (ob (xs ! q)))" by (simp add: key_less_def)
  then show "lex_above spec (getDecodedObject (ob (xs ! p))) \<Longrightarrow> lex_above spec (getDecodedObject (ob (xs ! q)))"
    "lex_below spec (getDecodedObject (ob (xs ! q))) \<Longrightarrow> lex_below spec (getDecodedObject (ob (xs ! p)))" using lex_mono by blast+
next
  fix xs :: "'s::linorder zitem list" and q
  assume s: "lex_sorted spec xs" "q < length xs"
  then have v: "lex_spec_ok spec" "length (getDecodedObject (ob (xs ! q))) < 2 ^ 31" by (simp_all add: lex_sorted_def zsl_sorted_def)
  show "lex_gte spec (zsl_node xs q) = Some (lex_above spec (getDecodedObject (ob (xs ! q))))"
    "lex_lte spec (zsl_node xs q) = Some (lex_below spec (getDecodedObject (ob (xs ! q))))" using lex_values [OF v] by (simp_all add: zsl_node_def)
next
  fix xs :: "'s::linorder zitem list" and x
  assume "lex_range_empty spec = Some True" "lex_sorted spec xs"
  then show "\<not> (lex_above spec (getDecodedObject (ob x)) \<and> lex_below spec (getDecodedObject (ob x)))"
    using lex_empty [of spec] by (metis lex_sorted_def option.inject)
qed

end
