(* ===== verification/Skiplist_Correct.thy ===== *)
theory Skiplist_Correct
  imports Skiplist_Query
begin

text \<open>
  What the functions of the skip list do, stated over the list of items that the list stands
  for, and a range of texts that the code takes for empty although it is not.
\<close>

section \<open>An example\<close>

definition ex_draws :: "nat \<Rightarrow> nat" where
  "ex_draws p = (if p = 0 then 0 else 65535)"

lemma ex_level: "zslRandomLevel ex_draws = Some 2"
proof -
  have "random_level ex_draws 1 2 = Some 2" by (subst random_level.simps) (simp add: ex_draws_def)
  then have "random_level ex_draws 0 1 = Some 2" by (subst random_level.simps) (simp add: ex_draws_def numeral_2_eq_2)
  then show ?thesis by (simp add: zslRandomLevel_def)
qed

definition ex_zmem :: zmem where
  "ex_zmem = (Some 7, \<lambda>_. \<lparr>forward = Some 9, span = 3\<rparr>)"

definition ex_empty :: "int zheap \<times> zskiplist" where
  "ex_empty = zslCreate ex_zmem 0 0 Map.empty"

abbreviation ex_item :: "int zitem" where "ex_item \<equiv> (1, 2, 5, SdsObj [97])"

lemma ex_empty_rep: "zsl_rep (fst ex_empty) (snd ex_empty) []" "fst ex_empty 1 = None"
proof -
  show "zsl_rep (fst ex_empty) (snd ex_empty) []" by (rule zslCreate_rep(1) [of ex_zmem 0 0 Map.empty]) (simp add: ex_empty_def)
  show "fst ex_empty 1 = None" by (simp add: ex_empty_def zslCreate_def Let_def)
qed

lemma ex_sorted: "zsl_sorted ([] :: int zitem list)" "zsl_sorted [ex_item]"
  by (simp_all add: zsl_sorted_def getDecodedObject_def)

lemma ex_zsl: "\<exists>h zsl. zsl_rep h zsl [ex_item]"
proof -
  have x: "length (getDecodedObject (SdsObj [97])) < 2 ^ 31" by (simp add: getDecodedObject_def)
  have e: "length [] + 1 < (2 ^ 32 :: nat)" "1 \<le> (2::nat)" "2 \<le> ZSKIPLIST_MAXLEVEL" by simp_all
  obtain h zsl where "zsl_rep h zsl (ins [] (pos_of (5 :: int, SdsObj [97]) []) ex_item)"
    by (rule zslInsert_rep [OF ex_empty_rep(1) ex_sorted(1) e(1) ex_empty_rep(2) x ex_level e(2,3), where s = 5 and mem = ex_zmem])
  then show ?thesis by (auto simp: ins_def)
qed

section \<open>Insertion and deletion\<close>





section \<open>Ranks and ranges\<close>

text \<open>
  C24: ranks and positions are inverse: the item at index \<open>q\<close> has rank \<open>q + 1\<close>, the element at
  rank \<open>q + 1\<close> is its node, an object that is not in the list has rank 0, and there is no
  element at a rank beyond the length.
\<close>

theorem zsl_rank_correct:
  assumes "zsl_rep h zsl xs" "zsl_sorted xs" "distinct (map (\<lambda>y. getDecodedObject (ob y)) xs)" "q < length xs"
    "length (getDecodedObject x) < 2 ^ 31" "getDecodedObject x \<notin> (\<lambda>y. getDecodedObject (ob y)) ` set xs" "length xs < unat rank"
  shows "zslGetRank h zsl (sc (xs ! q)) (ob (xs ! q)) = Some (of_nat (q + 1))
    \<and> zslGetElementByRank h zsl (of_nat (q + 1)) = Some (Some (ad (xs ! q)))
    \<and> zslGetRank h zsl s x = Some 0 \<and> zslGetElementByRank h zsl rank = Some None"
proof -
  have o: "length (getDecodedObject (ob (xs ! q))) < 2 ^ 31" using assms(2,4) by (simp add: zsl_sorted_def)
  have "unat (of_nat (q + 1) :: u64) = q + 1" using assms(4) zsl_repD(3) [OF assms(1)] by (simp add: unsigned_of_nat take_bit_nat_eq_self del: of_nat_Suc of_nat_add)
  then have "zslGetElementByRank h zsl (of_nat (q + 1)) = Some (Some (ad (xs ! q)))"
    using zslGetElementByRank_rep [OF assms(1), of "of_nat (q + 1)"] assms(4) by (simp add: ad_at_def del: of_nat_Suc of_nat_add)
  moreover have "zslGetRank h zsl (sc (xs ! q)) (ob (xs ! q)) = Some (of_nat (q + 1))"
    by (rule zslGetRank_rep(1) [OF assms(1,2) o assms(3,4)]) (simp add: zkey_def)
  moreover have "zslGetRank h zsl s x = Some 0" by (rule zslGetRank_rep(2) [OF assms(1,2,5,3,6)])
  moreover have "zslGetElementByRank h zsl rank = Some None" using zslGetElementByRank_rep [OF assms(1), of rank] assms(7) by simp
  ultimately show ?thesis by blast
qed

theorem zsl_rank_correct_witness:
  "\<exists>h zsl. zsl_rep h zsl [ex_item] \<and> zslGetRank h zsl 5 (SdsObj [97]) = Some 1 \<and> zslGetElementByRank h zsl 1 = Some (Some 1)
    \<and> zslGetRank h zsl 5 (SdsObj [98]) = Some 0 \<and> zslGetElementByRank h zsl 2 = Some None"
proof -
  obtain h zsl where rep: "zsl_rep h zsl [ex_item]" using ex_zsl by blast
  show ?thesis using zsl_rank_correct [OF rep ex_sorted(2), of 0 "SdsObj [98]" 2 5] rep by (auto simp: getDecodedObject_def)
qed



text \<open>
  C39: the range of the texts below \<open>minstring\<close> (\<open>-\<close> to \<open>(minstring\<close>) is taken for empty on every
  list, although texts like \<open>a\<close> lie in it: the test for empty ranges compares the texts of the
  two ends, and the shared object that stands for the least string is the string \<open>minstring\<close>.
\<close>

theorem lex_range_minstring:
  "\<exists>spec. zslParseLexRange (SdsObj [45]) (SdsObj [40, 109, 105, 110, 115, 116, 114, 105, 110, 103]) = Some spec
    \<and> lex_above spec [97] \<and> lex_below spec [97]
    \<and> zslFirstInLexRange h zsl spec = Some None \<and> zslLastInLexRange h zsl spec = Some None"
proof -
  define spec where "spec = \<lparr>lex_min = MinString, lex_max = LexObj (SdsObj [109, 105, 110, 115, 116, 114, 105, 110, 103]), lex_minex = False, lex_maxex = True\<rparr>"
  have "zslParseLexRange (SdsObj [45]) (SdsObj [40, 109, 105, 110, 115, 116, 114, 105, 110, 103]) = Some spec"
    by (simp add: zslParseLexRange_def zslParseLexRangeItem_def spec_def)
  moreover have "lex_above spec [97]" "lex_below spec [97]" by (simp_all add: spec_def lex_above_def lex_below_def text_less_def getDecodedObject_def)
  moreover have "lex_range_empty spec = Some True"
    by (simp add: lex_range_empty_def spec_def compareStringObjectsForLexRange_def lex_str_def compareStringObjects_def)
  ultimately show ?thesis by (auto simp: zslFirstInLexRange_def zslLastInLexRange_def zsl_first_in_def zsl_last_in_def zsl_is_in_def)
qed

end
