(* ===== verification/Set_Type.thy ===== *)
theory Set_Type
  imports Dict_Map Dict_Iter Intset Objects
begin

text \<open>
  The set type of \<^verbatim>\<open>t_set.c\<close>: a set of strings kept as a sorted array of integers while all its
  members are integers and few, and as a hash table from then on. Both encodings stand for a
  set of texts; the operations are shown to be those of that set, the change of encoding
  included.
\<close>

section \<open>The two encodings\<close>

datatype set_obj = SetInt intset | SetHT "(str_obj, unit) dict"

text \<open>
  What the code reads of the server: the seed of the hash function, the state of the
  dictionary module, the limit of the compact encoding; \<open>junk\<close> is the content of fresh memory.
\<close>

record set_env =
  se_seed :: u32
  se_dict :: dict_env
  set_max_intset_entries :: nat
  se_junk :: "nat \<Rightarrow> byte"

definition REDIS_HT_MINFILL :: nat where "REDIS_HT_MINFILL = 10"

definition htNeedsResize :: "('k, 'v) dict \<Rightarrow> bool" where
  "htNeedsResize d =
     (let sz = dictSlots d; used = dictSize d in
      sz \<noteq> 0 \<and> used \<noteq> 0 \<and> sz > DICT_HT_INITIAL_SIZE \<and> used * 100 div sz < REDIS_HT_MINFILL)"

definition setTypeCreate :: "set_env \<Rightarrow> str_obj \<Rightarrow> set_obj" where
  "setTypeCreate env value1 =
     (if isObjectRepresentableAsLongLong value1 \<noteq> None then SetInt intsetNew
      else SetHT (dictCreate (setDictType (se_seed env))))"

section \<open>Iterators\<close>

datatype set_iter = HTIter "(str_obj, unit) dictIterator" | IntIter nat

datatype set_elem = ObjElem str_obj | IntElem int

definition setTypeInitIterator :: "set_obj \<Rightarrow> set_iter" where
  "setTypeInitIterator subject = (case subject of SetHT d \<Rightarrow> HTIter (dictGetIterator d) | SetInt s \<Rightarrow> IntIter 0)"

text \<open>The addresses of the two tables, which the fingerprint of an unsafe iterator hashes, are arguments.\<close>

definition setTypeNext :: "u64 \<Rightarrow> u64 \<Rightarrow> set_obj \<Rightarrow> set_iter \<Rightarrow> (set_elem option \<times> set_iter \<times> set_obj) option" where
  "setTypeNext a0 a1 subject si =
     (case (si, subject) of
        (HTIter di, SetHT d) \<Rightarrow> do {
          (de, di, d) \<leftarrow> dictNext a0 a1 d di;
          Some (map_option (\<lambda>e. ObjElem (fst e)) de, HTIter di, SetHT d) }
      | (IntIter ii, SetInt s) \<Rightarrow> do {
          r \<leftarrow> intsetGet s ii;
          Some (map_option IntElem r, IntIter (ii + 1), SetInt s) }
      | _ \<Rightarrow> None)"

definition setTypeNextObject :: "u64 \<Rightarrow> u64 \<Rightarrow> set_obj \<Rightarrow> set_iter \<Rightarrow> (str_obj option \<times> set_iter \<times> set_obj) option" where
  "setTypeNextObject a0 a1 subject si = do {
     (e, si, subject) \<leftarrow> setTypeNext a0 a1 subject si;
     Some (case e of None \<Rightarrow> None | Some (IntElem v) \<Rightarrow> Some (createStringObjectFromLongLong v) | Some (ObjElem ob) \<Rightarrow> Some ob,
           si, subject) }"

definition setTypeReleaseIterator :: "u64 \<Rightarrow> u64 \<Rightarrow> set_obj \<Rightarrow> set_iter \<Rightarrow> set_obj option" where
  "setTypeReleaseIterator a0 a1 subject si =
     (case (si, subject) of
        (HTIter di, SetHT d) \<Rightarrow> map_option SetHT (dictReleaseIterator a0 a1 d di)
      | _ \<Rightarrow> Some subject)"

section \<open>Operations\<close>

text \<open>The loop that copies the integers into the new dictionary.\<close>

partial_function (option) convert_loop :: "set_env \<Rightarrow> intset \<Rightarrow> nat \<Rightarrow> (str_obj, unit) dict \<Rightarrow> (str_obj, unit) dict option" where
  "convert_loop env s ii d =
     Option.bind (intsetGet s ii) (\<lambda>r.
       (case r of
          None \<Rightarrow> Some d
        | Some intele \<Rightarrow>
            Option.bind (dictAdd (se_dict env) () d (createStringObjectFromLongLong intele) ()) (\<lambda>(st, d).
              if st = DICT_OK then convert_loop env s (ii + 1) d else None)))"

declare convert_loop.simps [code]

definition setTypeConvert :: "set_env \<Rightarrow> set_obj \<Rightarrow> set_obj option" where
  "setTypeConvert env subject =
     (case subject of
        SetHT _ \<Rightarrow> None
      | SetInt s \<Rightarrow> do {
          let d = dictCreate (setDictType (se_seed env));
          (_, d) \<leftarrow> dictExpand d (intsetLen s);
          d \<leftarrow> convert_loop env s 0 d;
          Some (SetHT d) })"

definition setTypeAdd :: "set_env \<Rightarrow> set_obj \<Rightarrow> str_obj \<Rightarrow> (bool \<times> set_obj) option" where
  "setTypeAdd env subject value1 =
     (case subject of
        SetHT d \<Rightarrow> do {
          (st, d) \<leftarrow> dictAdd (se_dict env) () d value1 ();
          Some (st = DICT_OK, SetHT d) }
      | SetInt s \<Rightarrow>
          (case isObjectRepresentableAsLongLong value1 of
             Some llval \<Rightarrow> do {
               (success, s) \<leftarrow> intsetAdd (se_junk env) s llval;
               if success then
                 if intsetLen s > set_max_intset_entries env then do {
                   subject \<leftarrow> setTypeConvert env (SetInt s);
                   Some (True, subject) }
                 else Some (True, SetInt s)
               else Some (False, SetInt s) }
           | None \<Rightarrow> do {
               subject \<leftarrow> setTypeConvert env subject;
               (case subject of
                  SetHT d \<Rightarrow> do {
                    (st, d) \<leftarrow> dictAdd (se_dict env) () d value1 ();
                    if st = DICT_OK then Some (True, SetHT d) else None }
                | SetInt _ \<Rightarrow> None) }))"

definition setTypeRemove :: "set_env \<Rightarrow> set_obj \<Rightarrow> str_obj \<Rightarrow> (bool \<times> set_obj) option" where
  "setTypeRemove env setobj value1 =
     (case setobj of
        SetHT d \<Rightarrow> do {
          (st, _, d) \<leftarrow> dictDelete (se_dict env) d value1;
          if st = DICT_OK then do {
            d \<leftarrow> (if htNeedsResize d then map_option snd (dictResize (se_dict env) d) else Some d);
            Some (True, SetHT d) }
          else Some (False, SetHT d) }
      | SetInt s \<Rightarrow>
          (case isObjectRepresentableAsLongLong value1 of
             Some llval \<Rightarrow> do {
               (success, s) \<leftarrow> intsetRemove (se_junk env) s llval;
               Some (success, SetInt s) }
           | None \<Rightarrow> Some (False, SetInt s)))"

definition setTypeIsMember :: "set_env \<Rightarrow> set_obj \<Rightarrow> str_obj \<Rightarrow> (bool \<times> set_obj) option" where
  "setTypeIsMember env subject value1 =
     (case subject of
        SetHT d \<Rightarrow> do {
          (de, d) \<leftarrow> dictFind (se_dict env) d value1;
          Some (de \<noteq> None, SetHT d) }
      | SetInt s \<Rightarrow>
          (case isObjectRepresentableAsLongLong value1 of
             Some llval \<Rightarrow> do { r \<leftarrow> intsetFind s llval; Some (r, SetInt s) }
           | None \<Rightarrow> Some (False, SetInt s)))"

definition setTypeRandomElement :: "set_env \<Rightarrow> (nat \<Rightarrow> nat) \<Rightarrow> set_obj \<Rightarrow> (set_elem \<times> set_obj) option" where
  "setTypeRandomElement env rnd setobj =
     (case setobj of
        SetHT d \<Rightarrow> do {
          (de, d) \<leftarrow> dictGetRandomKey (se_dict env) rnd d;
          e \<leftarrow> de;
          Some (ObjElem (fst e), SetHT d) }
      | SetInt s \<Rightarrow> do { v \<leftarrow> intsetRandom (rnd 0) s; Some (IntElem v, SetInt s) })"

definition setTypeSize :: "set_obj \<Rightarrow> nat" where
  "setTypeSize subject = (case subject of SetHT d \<Rightarrow> dictSize d | SetInt s \<Rightarrow> intsetLen s)"

section \<open>The set of texts\<close>

definition set_texts :: "set_obj \<Rightarrow> byte list set" where
  "set_texts so = (case so of SetInt s \<Rightarrow> decimal ` intset_set s | SetHT d \<Rightarrow> getDecodedObject ` dom (dict_map d))"

definition set_ok :: "u32 \<Rightarrow> set_obj \<Rightarrow> bool" where
  "set_ok seed so \<longleftrightarrow> (case so of SetInt s \<Rightarrow> intset_wf s | SetHT d \<Rightarrow> dict_inv (setDictType seed) d)"

abbreviation SET_MAX :: nat where "SET_MAX \<equiv> 2 ^ 29 - 1"

lemma intset_fits: "intset_rep s vs \<Longrightarrow> v \<in> set vs \<Longrightarrow> fits 8 v"
  by (auto simp: intset_rep_def fits_def)

lemma decimal_inj_on: "intset_rep s vs \<Longrightarrow> inj_on decimal (set vs)"
  using decimal_inj intset_fits by (auto simp: inj_on_def)

lemma texts_int:
  assumes "intset_rep s vs"
  shows "set_texts (SetInt s) = decimal ` set vs" "card (decimal ` set vs) = length vs" "set_ok seed (SetInt s)" "is_length s = length vs"
proof -
  show "set_texts (SetInt s) = decimal ` set vs" using intset_rep_set [OF assms] by (simp add: set_texts_def)
  show "card (decimal ` set vs) = length vs" using card_image [OF decimal_inj_on [OF assms]] sorted_rep(2) [OF assms] by simp
  show "set_ok seed (SetInt s)" using intset_rep_wf [OF assms] by (simp add: set_ok_def)
  show "is_length s = length vs" using assms by (simp add: intset_rep_def)
qed

lemma decimal_image: "intset_rep s vs \<Longrightarrow> fits 8 v \<Longrightarrow> decimal v \<in> decimal ` set vs \<longleftrightarrow> v \<in> set vs"
  by (auto simp: image_iff decimal_inj [OF _ intset_fits])

lemma texts_ht:
  assumes "dict_inv (setDictType seed) d"
  shows "set_texts (SetHT d) = getDecodedObject ` dom (dict_map d)" "card (set_texts (SetHT d)) = dictSize d" "set_ok seed (SetHT d)"
    "getDecodedObject ob \<in> set_texts (SetHT d) \<longleftrightarrow> dict_map d ob \<noteq> None" "finite (set_texts (SetHT d))"
proof -
  show "set_texts (SetHT d) = getDecodedObject ` dom (dict_map d)" by (simp add: set_texts_def)
  then show "card (set_texts (SetHT d)) = dictSize d" "finite (set_texts (SetHT d))"
    using set_keys.size_dom [OF assms] by simp_all
  show "set_ok seed (SetHT d)" using assms by (simp add: set_ok_def)
  show "getDecodedObject ob \<in> set_texts (SetHT d) \<longleftrightarrow> dict_map d ob \<noteq> None"
  proof
    assume "getDecodedObject ob \<in> set_texts (SetHT d)"
    then obtain k where "getDecodedObject ob = getDecodedObject k" "dict_map d k \<noteq> None" by (auto simp: set_texts_def)
    then show "dict_map d ob \<noteq> None" using set_keys.map_text [OF assms, of ob k] by simp
  next
    assume "dict_map d ob \<noteq> None"
    then show "getDecodedObject ob \<in> set_texts (SetHT d)" by (simp add: set_texts_def domIff)
  qed
qed

definition set_rel :: "u32 \<Rightarrow> set_obj \<Rightarrow> byte list set \<Rightarrow> bool" where
  "set_rel seed so T \<longleftrightarrow> set_ok seed so \<and> set_texts so = T"

lemma set_rel_cases:
  assumes "set_rel seed so T"
  obtains (Int) s vs where "so = SetInt s" "intset_rep s vs" "T = decimal ` set vs" "card T = length vs"
    | (HT) d where "so = SetHT d" "dict_inv (setDictType seed) d" "T = set_texts (SetHT d)" "card T = dictSize d"
proof (cases so)
  case (SetInt s)
  then have rep: "intset_rep s (intset_list s)" using assms by (intro intset_wf_rep) (simp add: set_rel_def set_ok_def)
  then show thesis using Int [OF SetInt rep] texts_int [OF rep] assms SetInt by (simp add: set_rel_def)
next
  case (SetHT d)
  then have d: "dict_inv (setDictType seed) d" using assms by (simp add: set_rel_def set_ok_def)
  then show thesis using HT [OF SetHT d] texts_ht(2) [OF d] assms SetHT by (simp add: set_rel_def)
qed

lemma set_rel_int: "intset_rep s vs \<Longrightarrow> decimal ` set vs = T \<Longrightarrow> set_rel seed (SetInt s) T"
  using texts_int by (simp add: set_rel_def)

lemma set_rel_ht: "dict_inv (setDictType seed) d \<Longrightarrow> set_texts (SetHT d) = T \<Longrightarrow> set_rel seed (SetHT d) T"
  using texts_ht(3) by (simp add: set_rel_def)

lemma set_rel_finite:
  assumes "set_rel seed so T"
  shows "finite T \<and> setTypeSize so = card T"
  using assms
proof (cases rule: set_rel_cases)
  case (Int s vs)
  then show ?thesis
    using texts_int(4) [OF Int(2)] by (simp_all add: setTypeSize_def intsetLen_def)
next
  case (HT d)
  then show ?thesis using texts_ht(5) [OF HT(2)] by (simp_all add: setTypeSize_def)
qed

section \<open>Insertion\<close>

text \<open>Adding to the hash table.\<close>

lemma ht_add:
  assumes d: "dict_inv (setDictType seed) d" and room: "dictSize d \<le> MAX_ENTRIES"
  obtains st d' where "dictAdd env () d ob () = Some (st, d')" "dict_inv (setDictType seed) d'"
    "st = DICT_OK \<longleftrightarrow> getDecodedObject ob \<notin> set_texts (SetHT d)"
    "set_texts (SetHT d') = insert (getDecodedObject ob) (set_texts (SetHT d))"
proof -
  obtain st d' where a: "dictAdd env () d ob () = Some (st, d')" "dict_inv (setDictType seed) d'" "st = DICT_OK \<longleftrightarrow> dict_map d ob = None"
    "\<forall>k'. dict_map d' k' = (if st = DICT_OK \<and> getDecodedObject k' = getDecodedObject ob then Some () else dict_map d k')"
    by (rule set_keys.add [OF d room, where env = env and w = "()" and k = ob and v = "()"])
  have st: "st = DICT_OK \<longleftrightarrow> getDecodedObject ob \<notin> set_texts (SetHT d)" using a(3) texts_ht(4) [OF d, of ob] by (cases "dict_map d ob") auto
  have mem: "t \<in> set_texts (SetHT d') \<longleftrightarrow> t = getDecodedObject ob \<or> t \<in> set_texts (SetHT d)" for t
  proof -
    have t: "getDecodedObject (SdsObj t) = t" by (simp add: getDecodedObject_def)
    have "dict_map d' (SdsObj t) \<noteq> None \<longleftrightarrow> t = getDecodedObject ob \<or> dict_map d (SdsObj t) \<noteq> None"
      using a(4) [rule_format, of "SdsObj t"] st texts_ht(4) [OF d, of "SdsObj t"] t by auto
    then show ?thesis using texts_ht(4) [OF d, of "SdsObj t"] texts_ht(4) [OF a(2), of "SdsObj t"] t by simp
  qed
  then show thesis using that [OF a(1,2) st] by blast
qed

lemma intsetGet_rep:
  assumes "intset_rep s vs"
  shows "intsetGet s i = Some (if i < length vs then Some (vs ! i) else None)"
  using intsetGet_at_rep [OF assms, of i] texts_int(4) [OF assms] by (simp add: intsetGet_def)

lemma convert_loop_rel:
  assumes "intset_rep s vs" "length vs \<le> SET_MAX" "dict_inv (setDictType seed) d" "set_texts (SetHT d) = decimal ` set (take ii vs)" "ii \<le> length vs"
  obtains d' where "convert_loop env s ii d = Some d'" "dict_inv (setDictType seed) d'" "set_texts (SetHT d') = decimal ` set vs"
  using assms(3-5)
proof (induction "length vs - ii" arbitrary: ii d thesis)
  case 0
  then have "convert_loop env s ii d = Some d" by (subst convert_loop.simps) (simp add: intsetGet_rep [OF assms(1)])
  then show thesis using 0 by simp
next
  case (Suc n)
  then have ii: "ii < length vs" by simp
  define v where "v = vs ! ii"
  have v: "fits 8 v" "getDecodedObject (createStringObjectFromLongLong v) = decimal v"
    using intset_fits [OF assms(1)] ii decoded_int by (simp_all add: v_def createStringObjectFromLongLong_def)
  have "distinct vs" using assms(1) by (simp add: intset_rep_def strict_sorted_iff)
  then have "v \<notin> set (take ii vs)" using ii by (auto simp: v_def in_set_conv_nth nth_eq_iff_index_eq)
  then have new: "decimal v \<notin> set_texts (SetHT d)"
    using Suc.prems(3) decimal_inj [OF v(1) intset_fits [OF assms(1)]] by (auto dest: in_set_takeD)
  have "card (decimal ` set (take ii vs)) \<le> length vs"
    using card_image_le [of "set (take ii vs)" decimal] card_length [of "take ii vs"] by simp
  then have "dictSize d \<le> MAX_ENTRIES" using texts_ht(2) [OF Suc.prems(2)] Suc.prems(3) assms(2) by simp
  then obtain st d' where a: "dictAdd (se_dict env) () d (createStringObjectFromLongLong v) () = Some (st, d')" "dict_inv (setDictType seed) d'"
    "st = DICT_OK \<longleftrightarrow> getDecodedObject (createStringObjectFromLongLong v) \<notin> set_texts (SetHT d)"
    "set_texts (SetHT d') = insert (getDecodedObject (createStringObjectFromLongLong v)) (set_texts (SetHT d))"
    by (rule ht_add [OF Suc.prems(2)])
  have "set_texts (SetHT d') = decimal ` set (take (ii + 1) vs)"
    using a(4) v(2) Suc.prems(3) ii by (simp add: take_Suc_conv_app_nth v_def)
  moreover have "n = length vs - (ii + 1)" "ii + 1 \<le> length vs" using Suc.hyps(2) by simp_all
  ultimately obtain d'' where "convert_loop env s (ii + 1) d' = Some d''" "dict_inv (setDictType seed) d''" "set_texts (SetHT d'') = decimal ` set vs"
    using Suc.hyps(1) [of "ii + 1" d', OF _ _ a(2)] by blast
  moreover have "convert_loop env s ii d = convert_loop env s (ii + 1) d'"
    by (subst convert_loop.simps) (use a(1,3) v(2) new ii in \<open>simp add: intsetGet_rep [OF assms(1)] v_def\<close>)
  ultimately show thesis using Suc.prems(1) by simp
qed

lemma setTypeConvert_rel:
  assumes "intset_rep s vs" "length vs \<le> SET_MAX"
  obtains d where "setTypeConvert env (SetInt s) = Some (SetHT d)" "dict_inv (setDictType (se_seed env)) d" "set_texts (SetHT d) = decimal ` set vs"
proof -
  let ?d0 = "dictCreate (setDictType (se_seed env)) :: (str_obj, unit) dict"
  have len: "intsetLen s \<le> MAX_ENTRIES" using texts_int(4) [OF assms(1)] assms(2) by (simp add: intsetLen_def)
  then obtain st d1 where 1: "dictExpand ?d0 (intsetLen s) = Some (st, d1)" "dict_inv (setDictType (se_seed env)) d1" "dict_map d1 = dict_map ?d0"
    by (rule set_keys.expand [OF set_keys.create(1)])
  have "set_texts (SetHT d1) = decimal ` set (take 0 vs)" using 1(3) set_keys.create(2) by (simp add: set_texts_def)
  then obtain d where "convert_loop env s 0 d1 = Some d" "dict_inv (setDictType (se_seed env)) d" "set_texts (SetHT d) = decimal ` set vs"
    by (rule convert_loop_rel [OF assms 1(2)]) simp
  then show thesis using that 1(1) by (simp add: setTypeConvert_def)
qed

lemma setTypeAdd_rel:
  assumes rel: "set_rel (se_seed env) so T" and room: "card T < SET_MAX"
  obtains so' where "setTypeAdd env so ob = Some (getDecodedObject ob \<notin> T, so')" "set_rel (se_seed env) so' (insert (getDecodedObject ob) T)"
  using rel
proof (cases rule: set_rel_cases)
  case (HT d)
  have "dictSize d \<le> MAX_ENTRIES" using HT(4) room by simp
  then obtain st d' where a: "dictAdd (se_dict env) () d ob () = Some (st, d')" "dict_inv (setDictType (se_seed env)) d'"
    "st = DICT_OK \<longleftrightarrow> getDecodedObject ob \<notin> set_texts (SetHT d)" "set_texts (SetHT d') = insert (getDecodedObject ob) (set_texts (SetHT d))"
    by (rule ht_add [OF HT(2)])
  then show thesis using that [of "SetHT d'"] HT set_rel_ht [OF a(2)] by (simp add: setTypeAdd_def)
next
  case (Int s vs)
  show thesis
  proof (cases "isObjectRepresentableAsLongLong ob")
    case (Some v)
    then have v: "fits 8 v" "getDecodedObject ob = decimal v" using representable_iff by auto
    have "(length vs + 1) * 8 < 2 ^ 32" using room Int(4) by simp
    from intsetAdd_rep [OF Int(2) v(1) this, of "se_junk env"] obtain ok s' vs' where
      a: "intsetAdd (se_junk env) s v = Some (ok, s')" "intset_rep s' vs'" "set vs' = insert v (set vs)" "ok \<longleftrightarrow> v \<notin> set vs" by blast
    have ok: "ok \<longleftrightarrow> getDecodedObject ob \<notin> T" using a(4) decimal_image [OF Int(2) v(1)] v(2) Int(3) by simp
    have T': "decimal ` set vs' = insert (getDecodedObject ob) T" using a(3) v(2) Int(3) by simp
    show thesis
    proof (cases "ok \<and> intsetLen s' > set_max_intset_entries env")
      case True
      have "length vs' = card (decimal ` set vs')" using texts_int(2) [OF a(2)] by simp
      then have "length vs' \<le> SET_MAX" using T' room Int(3) by (simp add: card_insert_if)
      then obtain d where "setTypeConvert env (SetInt s') = Some (SetHT d)" "dict_inv (setDictType (se_seed env)) d" "set_texts (SetHT d) = decimal ` set vs'"
        by (rule setTypeConvert_rel [OF a(2)])
      then show thesis using that [of "SetHT d"] True ok a(1) Int(1) Some set_rel_ht T' by (simp add: setTypeAdd_def)
    next
      case False
      then show thesis using that [of "SetInt s'"] ok a(1) Int(1) Some set_rel_int [OF a(2) T'] by (auto simp: setTypeAdd_def)
    qed
  next
    case None
    have "getDecodedObject ob \<notin> T" using None representable_iff [of ob] intset_fits [OF Int(2)] Int(3) by force
    moreover have len: "length vs \<le> SET_MAX" using room Int(4) by simp
    then obtain d where d: "setTypeConvert env (SetInt s) = Some (SetHT d)" "dict_inv (setDictType (se_seed env)) d" "set_texts (SetHT d) = decimal ` set vs"
      by (rule setTypeConvert_rel [OF Int(2)])
    have "dictSize d \<le> MAX_ENTRIES" using texts_ht(2) [OF d(2)] d(3) Int(3,4) len by simp
    then obtain st d' where a: "dictAdd (se_dict env) () d ob () = Some (st, d')" "dict_inv (setDictType (se_seed env)) d'"
      "st = DICT_OK \<longleftrightarrow> getDecodedObject ob \<notin> set_texts (SetHT d)" "set_texts (SetHT d') = insert (getDecodedObject ob) (set_texts (SetHT d))"
      by (rule ht_add [OF d(2)])
    ultimately show thesis using that [of "SetHT d'"] None d Int(1,3) set_rel_ht [OF a(2)] by (simp add: setTypeAdd_def)
  qed
qed

section \<open>Removal and membership\<close>

lemma setTypeRemove_rel:
  assumes rel: "set_rel (se_seed env) so T" and room: "card T \<le> SET_MAX"
  obtains so' where "setTypeRemove env so ob = Some (getDecodedObject ob \<in> T, so')" "set_rel (se_seed env) so' (T - {getDecodedObject ob})"
  using rel
proof (cases rule: set_rel_cases)
  case (HT d)
  obtain st es d1 where a: "dictDelete (se_dict env) d ob = Some (st, es, d1)" "dict_inv (setDictType (se_seed env)) d1"
    "st = DICT_OK \<longleftrightarrow> dict_map d ob \<noteq> None" "dictSize d1 + (if st = DICT_OK then 1 else 0) = dictSize d"
    "\<forall>k'. dict_map d1 k' = (if getDecodedObject k' = getDecodedObject ob then None else dict_map d k')"
    by (rule set_keys.delete [OF HT(2), where env = "se_dict env" and k = ob])
  have st: "st = DICT_OK \<longleftrightarrow> getDecodedObject ob \<in> T" using a(3) texts_ht(4) [OF HT(2), of ob] HT(3) by simp
  have "dom (dict_map d1) = {k \<in> dom (dict_map d). getDecodedObject k \<noteq> getDecodedObject ob}" using a(5) by (auto simp: dom_def)
  then have T1: "set_texts (SetHT d1) = T - {getDecodedObject ob}" using HT(3) by (auto simp: set_texts_def)
  have "dictSize d1 \<le> MAX_ENTRIES" using a(4) HT(4) room by (simp split: if_splits)
  then obtain st2 d2 where 2: "dictResize (se_dict env) d1 = Some (st2, d2)" "dict_inv (setDictType (se_seed env)) d2" "dict_map d2 = dict_map d1"
    by (rule set_keys.resize [OF a(2)])
  have T2: "set_texts (SetHT d2) = T - {getDecodedObject ob}" using T1 2(3) by (simp add: set_texts_def)
  show thesis
    using that [of "SetHT d1"] that [of "SetHT d2"] a(1) HT(1) st 2(1) set_rel_ht [OF a(2) T1] set_rel_ht [OF 2(2) T2]
    by (cases "st = DICT_OK"; cases "htNeedsResize d1") (simp_all add: setTypeRemove_def)
next
  case (Int s vs)
  show thesis
  proof (cases "isObjectRepresentableAsLongLong ob")
    case (Some v)
    then have v: "fits 8 v" "getDecodedObject ob = decimal v" using representable_iff by auto
    from intsetRemove_rep [OF Int(2) v(1), of "se_junk env"] obtain ok s' vs' where
      a: "intsetRemove (se_junk env) s v = Some (ok, s')" "intset_rep s' vs'" "set vs' = set vs - {v}" "ok \<longleftrightarrow> v \<in> set vs" by blast
    have T': "decimal ` set vs' = T - {getDecodedObject ob}"
      using a(3) v Int(3) decimal_inj [OF _ v(1)] intset_fits [OF Int(2)] by (auto simp: image_iff)
    have "ok \<longleftrightarrow> getDecodedObject ob \<in> T" using a(4) decimal_image [OF Int(2) v(1)] v(2) Int(3) by simp
    then show thesis using that [of "SetInt s'"] Some a(1) Int(1) set_rel_int [OF a(2) T'] by (simp add: setTypeRemove_def)
  next
    case None
    have "getDecodedObject ob \<notin> T" using None representable_iff [of ob] intset_fits [OF Int(2)] Int(3) by force
    then show thesis using that [of "SetInt s"] None Int(1) rel by (simp add: setTypeRemove_def)
  qed
qed

lemma setTypeIsMember_rel:
  assumes rel: "set_rel (se_seed env) so T"
  obtains so' where "setTypeIsMember env so ob = Some (getDecodedObject ob \<in> T, so')" "set_rel (se_seed env) so' T"
  using rel
proof (cases rule: set_rel_cases)
  case (HT d)
  obtain r d' where r: "dictFind (se_dict env) d ob = Some (r, d')" "dict_inv (setDictType (se_seed env)) d'" "dict_map d' = dict_map d"
    "r = None \<longleftrightarrow> dict_map d ob = None" by (rule set_keys.find [OF HT(2), where env = "se_dict env" and k = ob])
  have "set_texts (SetHT d') = T" using HT(3) r(3) by (simp add: set_texts_def)
  then show thesis using that [of "SetHT d'"] r(1) HT(1) set_rel_ht [OF r(2)] r(4) texts_ht(4) [OF HT(2), of ob] HT(3)
    by (simp add: setTypeIsMember_def del: not_None_eq)
next
  case (Int s vs)
  show thesis
  proof (cases "isObjectRepresentableAsLongLong ob")
    case (Some v)
    then have v: "fits 8 v" "getDecodedObject ob = decimal v" using representable_iff by auto
    have "v \<in> set vs \<longleftrightarrow> getDecodedObject ob \<in> T" using decimal_image [OF Int(2) v(1)] v(2) Int(3) by simp
    then show thesis using that [of "SetInt s"] Some intsetFind_rep [OF Int(2) v(1)] Int(1) rel by (simp add: setTypeIsMember_def)
  next
    case None
    have "getDecodedObject ob \<notin> T" using None representable_iff [of ob] intset_fits [OF Int(2)] Int(3) by force
    then show thesis using that [of "SetInt s"] None Int(1) rel by (simp add: setTypeIsMember_def)
  qed
qed

section \<open>Sequences of calls\<close>

datatype set_op = SetAdd str_obj | SetRemove str_obj | SetIsMember str_obj | SetSize

datatype set_result = SetFlag bool | SetCount nat

fun set_call :: "set_env \<Rightarrow> set_op \<Rightarrow> set_obj \<Rightarrow> (set_result \<times> set_obj) option" where
  "set_call env (SetAdd ob) so = do { (r, so) \<leftarrow> setTypeAdd env so ob; Some (SetFlag r, so) }"
| "set_call env (SetRemove ob) so = do { (r, so) \<leftarrow> setTypeRemove env so ob; Some (SetFlag r, so) }"
| "set_call env (SetIsMember ob) so = do { (r, so) \<leftarrow> setTypeIsMember env so ob; Some (SetFlag r, so) }"
| "set_call env SetSize so = Some (SetCount (setTypeSize so), so)"

fun set_spec :: "set_op \<Rightarrow> byte list set \<Rightarrow> (set_result \<times> byte list set) option" where
  "set_spec (SetAdd ob) T = Some (SetFlag (getDecodedObject ob \<notin> T), insert (getDecodedObject ob) T)"
| "set_spec (SetRemove ob) T = Some (SetFlag (getDecodedObject ob \<in> T), T - {getDecodedObject ob})"
| "set_spec (SetIsMember ob) T = Some (SetFlag (getDecodedObject ob \<in> T), T)"
| "set_spec SetSize T = Some (SetCount (card T), T)"

interpretation set_type: simulation "set_call env" set_spec "set_rel (se_seed env)" card SET_MAX for env
proof unfold_locales
  fix so T op
  assume rel: "set_rel (se_seed env) so T" and room: "card T < SET_MAX"
  have room': "card T \<le> SET_MAX" using room by simp
  show "case set_spec op T of None \<Rightarrow> set_call env op so = None
      | Some (r, T') \<Rightarrow> \<exists>so'. set_call env op so = Some (r, so') \<and> set_rel (se_seed env) so' T'"
  proof (cases op)
    case (SetAdd ob)
    show ?thesis by (rule setTypeAdd_rel [OF rel room, of ob]) (simp add: SetAdd)
  next
    case (SetRemove ob)
    show ?thesis by (rule setTypeRemove_rel [OF rel room', of ob]) (simp add: SetRemove)
  next
    case (SetIsMember ob)
    show ?thesis by (rule setTypeIsMember_rel [OF rel, of ob]) (simp add: SetIsMember)
  next
    case SetSize
    then show ?thesis using set_rel_finite [OF rel] rel by simp
  qed
next
  fix so T op r T'
  assume "set_rel (se_seed env) so T" "set_spec op T = Some (r, T')"
  then show "card T' \<le> card T + 1"
    using set_rel_finite by (cases op) (auto simp: card_insert_if intro: le_SucI [OF card_Diff1_le])
qed

lemma setTypeCreate_rel: "set_rel (se_seed env) (setTypeCreate env ob) {}"
proof -
  have "intset_rep intsetNew []" by (simp add: intset_rep_def intsetNew_def)
  then show ?thesis
    using set_rel_int [of intsetNew "[]" "{}" "se_seed env"] set_keys.create [of "se_seed env"]
    by (auto simp: setTypeCreate_def set_rel_def set_ok_def set_texts_def)
qed

text \<open>
  C14: a set created for any first member, under any sequence of fewer than \<open>2 ^ 29\<close> additions,
  removals, membership tests and counts, answers as a set of texts does: an integer is the
  same member whether it comes as a number or as its decimal text, the moment at which the
  array of integers becomes a hash table (a member that is no integer, or one more than
  \<open>set_max_intset_entries\<close>) cannot be observed, and no access leaves a block.
\<close>

theorem set_type_refines_set:
  assumes "length ops \<le> SET_MAX"
  shows "\<exists>rs T so. run_calls set_spec ops {} = Some (rs, T)
    \<and> run_calls (set_call env) ops (setTypeCreate env ob) = Some (rs, so) \<and> set_rel (se_seed env) so T"
proof -
  have total: "\<exists>rs T'. run_calls set_spec ops T = Some (rs, T')" for ops T
  proof (induction ops arbitrary: T)
    case (Cons op ops)
    then show ?case by (cases op) (simp_all, (metis bind.bind_lunit case_prod_conv)+)
  qed simp
  from set_type.runs [OF setTypeCreate_rel, of ops env ob] assms total [of ops "{}"] show ?thesis by auto
qed

definition ex_set_env :: set_env where
  "ex_set_env = \<lparr>se_seed = 5381, se_dict = ex_env, set_max_intset_entries = 2, se_junk = (\<lambda>_. 170)\<rparr>"

theorem set_type_refines_set_witness:
  "\<exists>so. run_calls (set_call ex_set_env) [SetAdd (IntObj 7), SetAdd (SdsObj (decimal 7)), SetAdd (SdsObj [97]), SetIsMember (SdsObj (decimal 7)), SetSize]
       (setTypeCreate ex_set_env (IntObj 7)) = Some ([SetFlag True, SetFlag False, SetFlag True, SetFlag True, SetCount 2], so)
     \<and> set_rel 5381 so {decimal 7, [97]}"
proof -
  have t: "getDecodedObject (IntObj 7) = decimal 7" "getDecodedObject (SdsObj s) = s" for s
    using decoded_int [of 7] by (simp_all add: fits_def getDecodedObject_def)
  have "decimal 7 \<noteq> [97]" by (simp add: decimal_def decimal_nat.simps)
  then have "run_calls set_spec [SetAdd (IntObj 7), SetAdd (SdsObj (decimal 7)), SetAdd (SdsObj [97]), SetIsMember (SdsObj (decimal 7)), SetSize] {}
      = Some ([SetFlag True, SetFlag False, SetFlag True, SetFlag True, SetCount 2], {decimal 7, [97]})" by (auto simp: t)
  then show ?thesis
    using set_type_refines_set [of "[SetAdd (IntObj 7), SetAdd (SdsObj (decimal 7)), SetAdd (SdsObj [97]), SetIsMember (SdsObj (decimal 7)), SetSize]"
        ex_set_env "IntObj 7"] by (simp add: ex_set_env_def del: run_calls.simps)
qed

section \<open>Iteration\<close>

fun set_all :: "nat \<Rightarrow> u64 \<Rightarrow> u64 \<Rightarrow> set_obj \<Rightarrow> set_iter \<Rightarrow> (str_obj list \<times> set_iter \<times> set_obj) option" where
  "set_all 0 a0 a1 so si = None"
| "set_all (Suc n) a0 a1 so si = do {
     (e, si, so) \<leftarrow> setTypeNextObject a0 a1 so si;
     (case e of
        None \<Rightarrow> Some ([], si, so)
      | Some ob \<Rightarrow> do { (obs, si, so) \<leftarrow> set_all n a0 a1 so si; Some (ob # obs, si, so) }) }"

lemma set_all_ht:
  "set_all n a0 a1 (SetHT d) (HTIter di) = map_option (\<lambda>(es, di, d). (map fst es, HTIter di, SetHT d)) (iter_all n a0 a1 d di)"
  by (induction n arbitrary: d di)
     (auto simp: setTypeNextObject_def setTypeNext_def split: Option.bind_splits option.splits)

lemma set_all_int:
  assumes "intset_rep s vs" "length vs < n + ii" "ii \<le> length vs"
  shows "set_all n a0 a1 (SetInt s) (IntIter ii) = Some (map createStringObjectFromLongLong (drop ii vs), IntIter (length vs + 1), SetInt s)"
  using assms(2,3)
proof (induction n arbitrary: ii)
  case (Suc n)
  show ?case
  proof (cases "ii < length vs")
    case True
    then show ?thesis using Suc.IH [of "ii + 1"] Suc.prems intsetGet_rep [OF assms(1), of ii]
      by (simp add: setTypeNextObject_def setTypeNext_def Cons_nth_drop_Suc [symmetric])
  next
    case False
    then show ?thesis using Suc.prems intsetGet_rep [OF assms(1), of ii]
      by (simp add: setTypeNextObject_def setTypeNext_def)
  qed
qed simp

text \<open>
  An iteration over a set, in either encoding and with a hash table in any state of a
  rehash, ends after one call more than the set has members, returns every member exactly
  once, and releasing the iterator passes its check and leaves the set as it was.
\<close>

theorem set_iteration:
  assumes "set_rel seed so T" "card T < n"
  shows "\<exists>obs si so'. set_all n a0 a1 so (setTypeInitIterator so) = Some (obs, si, so') \<and> length obs = card T
    \<and> getDecodedObject ` set obs = T \<and> setTypeReleaseIterator a0 a1 so' si = Some so"
  using assms(1)
proof (cases rule: set_rel_cases)
  case (Int s vs)
  have "set_all n a0 a1 so (setTypeInitIterator so) = Some (map createStringObjectFromLongLong vs, IntIter (length vs + 1), so)"
    using set_all_int [OF Int(2), of n 0] Int(1,4) assms(2) by (simp add: setTypeInitIterator_def)
  moreover have "getDecodedObject ` set (map createStringObjectFromLongLong vs) = T"
    using Int(3) decoded_int intset_fits [OF Int(2)] by (simp add: createStringObjectFromLongLong_def image_image)
  ultimately show ?thesis using Int(1,4) by (simp add: setTypeReleaseIterator_def)
next
  case (HT d)
  have wf: "dict_wf d" using HT(2) by (simp add: dict_inv_def)
  have "length (dict_entries d) < n" using dictSize_entries [OF wf] HT(4) assms(2) by simp
  from iter_all_fresh [OF dict_wf_tables [OF wf] _ this, of "dictGetIterator d" a0 a1] obtain it' d' where
    it: "iter_all n a0 a1 d (dictGetIterator d) = Some (dict_entries d, it', d')" "0 \<le> it_index it'" "it_safe it' = it_safe (dictGetIterator d)"
    "d' = d\<lparr>iterators := iterators d + (if it_safe (dictGetIterator d) then 1 else 0)\<rparr>"
    "\<not> it_safe (dictGetIterator d) \<longrightarrow> it_fingerprint it' = dictFingerprint a0 a1 d" by blast
  have unsafe: "\<not> it_safe (dictGetIterator d)" by (simp add: dictGetIterator_def)
  have "set_all n a0 a1 so (setTypeInitIterator so) = Some (map fst (dict_entries d), HTIter it', SetHT d)"
    using it unsafe HT(1) by (simp add: setTypeInitIterator_def set_all_ht)
  moreover have "getDecodedObject ` set (map fst (dict_entries d)) = T"
    using set_keys.dom_entries [OF HT(2)] HT(3) by (simp add: set_texts_def image_image)
  moreover have "dictReleaseIterator a0 a1 d it' = Some d" using it unsafe by (simp add: dictReleaseIterator_def)
  ultimately show ?thesis using HT(1,4) dictSize_entries [OF wf] by (simp add: setTypeReleaseIterator_def)
qed

theorem set_iteration_witness:
  "\<exists>obs si so'. set_all 4 0 0 (SetInt ex_intset) (setTypeInitIterator (SetInt ex_intset)) = Some (obs, si, so') \<and> length obs = 3
    \<and> getDecodedObject ` set obs = decimal ` {-3, 5, 1000} \<and> setTypeReleaseIterator 0 0 so' si = Some (SetInt ex_intset)"
proof -
  have rep: "intset_rep ex_intset (intset_list ex_intset)" by (rule intset_wf_rep [OF ex_intset_wf(1)])
  have "set_rel 0 (SetInt ex_intset) (decimal ` {-3, 5, 1000})"
    using ex_intset_wf by (simp add: set_rel_def set_ok_def set_texts_def)
  moreover have "card (decimal ` {-3, 5, 1000}) = 3" using set_rel_finite [OF calculation] ex_intset_wf(3) by (simp add: setTypeSize_def intsetLen_def)
  ultimately show ?thesis using set_iteration [of 0 "SetInt ex_intset" "decimal ` {-3, 5, 1000}" 4 0 0] by simp
qed

end
