(* ===== verification/Sorted_Set.thy ===== *)
theory Sorted_Set
  imports Skiplist_Correct Set_Type
begin

text \<open>
  The sorted set of \<^verbatim>\<open>t_zset.c\<close> in its skip list encoding: a skip list ordered by score and text,
  and a dictionary from the members to the nodes that hold their scores. The operations are
  the branches of the commands for this encoding. The heap of nodes is part of the state;
  where the next node is put, what fresh memory holds and the addition of scores (which
  fails when the sum is not a number) are parameters.
\<close>

section \<open>State\<close>

record 's zset =
  zs_dict :: "(str_obj, zaddr) dict"
  zs_zsl :: zskiplist
  zs_heap :: "'s zheap"

record 's zset_env =
  ze_seed :: u32
  ze_dict :: dict_env
  ze_alloc :: "'s zheap \<Rightarrow> zaddr"
  ze_mem :: zmem
  ze_plus :: "'s \<Rightarrow> 's \<Rightarrow> 's option"
  ze_refs :: nat

definition createZsetObject :: "'s::{zero,linorder} zset_env \<Rightarrow> 's zheap \<Rightarrow> 's zset" where
  "createZsetObject env h =
     (let (h', zsl) = zslCreate (ze_mem env) (ze_alloc env h) 0 h
      in \<lparr>zs_dict = dictCreate (zsetDictType (ze_seed env)), zs_zsl = zsl, zs_heap = h'\<rparr>)"

definition zsetLength :: "'s zset \<Rightarrow> u32" where
  "zsetLength zs = ucast (zlength (zs_zsl zs))"

section \<open>Members\<close>

text \<open>What happens to one pair of score and member of ZADD and ZINCRBY.\<close>

datatype 's zadd_result = ZSkipped | ZNan | ZAdded 's | ZUpdated 's | ZKept 's

definition zset_add :: "'s::linorder zset_env \<Rightarrow> (nat \<Rightarrow> nat) \<Rightarrow> bool \<Rightarrow> bool \<Rightarrow> bool \<Rightarrow> 's \<Rightarrow> str_obj \<Rightarrow> 's zset \<Rightarrow> ('s zadd_result \<times> 's zset) option" where
  "zset_add env rnd nx xx incr score ele zs = do {
     let ele = tryObjectEncoding (ze_refs env) ele;
     (de, d) \<leftarrow> dictFind (ze_dict env) (zs_dict zs) ele;
     let zs = zs\<lparr>zs_dict := d\<rparr>;
     (case de of
        Some ref \<Rightarrow>
          if nx then Some (ZSkipped, zs)
          else do {
            (curobj, p) \<leftarrow> entry_at d ref;
            nd \<leftarrow> zs_heap zs p;
            let curscore = zn_score nd;
            (case (if incr then ze_plus env score curscore else Some score) of
               None \<Rightarrow> Some (ZNan, zs)
             | Some score \<Rightarrow>
                 if score \<noteq> curscore then do {
                   (ok, h, zsl) \<leftarrow> zslDelete (zs_heap zs) (zs_zsl zs) curscore curobj;
                   if \<not> ok then None
                   else do {
                     let znode = ze_alloc env h;
                     (h, zsl) \<leftarrow> zslInsert (ze_mem env) znode rnd h zsl score curobj;
                     d \<leftarrow> dictSetVal d ref znode;
                     Some (ZUpdated score, \<lparr>zs_dict = d, zs_zsl = zsl, zs_heap = h\<rparr>) } }
                 else Some (ZKept score, zs)) }
      | None \<Rightarrow>
          if xx then Some (ZSkipped, zs)
          else do {
            let znode = ze_alloc env (zs_heap zs);
            (h, zsl) \<leftarrow> zslInsert (ze_mem env) znode rnd (zs_heap zs) (zs_zsl zs) score ele;
            (st, d) \<leftarrow> dictAdd (ze_dict env) znode d ele znode;
            if st = DICT_OK then Some (ZAdded score, \<lparr>zs_dict = d, zs_zsl = zsl, zs_heap = h\<rparr>) else None }) }"

definition shrink_dict :: "dict_env \<Rightarrow> ('k, 'v) dict \<Rightarrow> ('k, 'v) dict option" where
  "shrink_dict env d = (if htNeedsResize d then map_option snd (dictResize env d) else Some d)"

definition zset_rem :: "'s::linorder zset_env \<Rightarrow> str_obj \<Rightarrow> 's zset \<Rightarrow> (bool \<times> 's zset) option" where
  "zset_rem env ele zs = do {
     (de, d) \<leftarrow> dictFind (ze_dict env) (zs_dict zs) ele;
     (case de of
        None \<Rightarrow> Some (False, zs\<lparr>zs_dict := d\<rparr>)
      | Some ref \<Rightarrow> do {
          (_, p) \<leftarrow> entry_at d ref;
          nd \<leftarrow> zs_heap zs p;
          (ok, h, zsl) \<leftarrow> zslDelete (zs_heap zs) (zs_zsl zs) (zn_score nd) ele;
          if \<not> ok then None
          else do {
            (_, _, d) \<leftarrow> dictDelete (ze_dict env) d ele;
            d \<leftarrow> shrink_dict (ze_dict env) d;
            Some (True, \<lparr>zs_dict = d, zs_zsl = zsl, zs_heap = h\<rparr>) } }) }"

definition zset_score :: "'s zset_env \<Rightarrow> str_obj \<Rightarrow> 's zset \<Rightarrow> ('s option \<times> 's zset) option" where
  "zset_score env ele zs = do {
     (de, d) \<leftarrow> dictFind (ze_dict env) (zs_dict zs) (tryObjectEncoding (ze_refs env) ele);
     (case de of
        None \<Rightarrow> Some (None, zs\<lparr>zs_dict := d\<rparr>)
      | Some ref \<Rightarrow> do {
          (_, p) \<leftarrow> entry_at d ref;
          nd \<leftarrow> zs_heap zs p;
          Some (Some (zn_score nd), zs\<lparr>zs_dict := d\<rparr>) }) }"

definition zset_rank :: "'s::linorder zset_env \<Rightarrow> bool \<Rightarrow> str_obj \<Rightarrow> 's zset \<Rightarrow> (u64 option \<times> 's zset) option" where
  "zset_rank env reverse ele zs = do {
     let llen = ucast (zsetLength zs);
     let ele = tryObjectEncoding (ze_refs env) ele;
     (de, d) \<leftarrow> dictFind (ze_dict env) (zs_dict zs) ele;
     (case de of
        None \<Rightarrow> Some (None, zs\<lparr>zs_dict := d\<rparr>)
      | Some ref \<Rightarrow> do {
          (_, p) \<leftarrow> entry_at d ref;
          nd \<leftarrow> zs_heap zs p;
          rank \<leftarrow> zslGetRank (zs_heap zs) (zs_zsl zs) (zn_score nd) ele;
          if rank = 0 then None
          else Some (Some (if reverse then llen - rank else rank - 1), zs\<lparr>zs_dict := d\<rparr>) }) }"

section \<open>Ranges\<close>

text \<open>ZCOUNT: the ranks of the first and of the last element in the range.\<close>

definition node_rank :: "'s::linorder zset \<Rightarrow> zaddr \<Rightarrow> u64 option" where
  "node_rank zs p = do {
     nd \<leftarrow> zs_heap zs p;
     x \<leftarrow> zn_obj nd;
     zslGetRank (zs_heap zs) (zs_zsl zs) (zn_score nd) x }"

definition zset_count :: "'s::linorder zrangespec \<Rightarrow> 's zset \<Rightarrow> int option" where
  "zset_count spec zs = do {
     zn \<leftarrow> zslFirstInRange (zs_heap zs) (zs_zsl zs) spec;
     (case zn of
        None \<Rightarrow> Some 0
      | Some p \<Rightarrow> do {
          rank \<leftarrow> node_rank zs p;
          let count = cast_int (uint (zlength (zs_zsl zs) - (rank - 1)));
          zn \<leftarrow> zslLastInRange (zs_heap zs) (zs_zsl zs) spec;
          (case zn of
             None \<Rightarrow> Some count
           | Some p \<Rightarrow> do {
               rank \<leftarrow> node_rank zs p;
               Some (count - cast_int (uint (zlength (zs_zsl zs) - rank))) }) }) }"

text \<open>The loop of the three deletions of a range; \<open>cond\<close> sees the counter \<open>traversed\<close> and the node.\<close>

partial_function (option) delete_while ::
  "(u64 \<Rightarrow> 's zskiplistNode \<Rightarrow> bool option) \<Rightarrow> dict_env \<Rightarrow> zaddr list \<Rightarrow> zaddr option \<Rightarrow> u64 \<Rightarrow> u64 \<Rightarrow> 's zset \<Rightarrow> (u64 \<times> 's zset) option" where
  "delete_while cond env update x traversed removed zs =
     (case x of
        None \<Rightarrow> Some (removed, zs)
      | Some y \<Rightarrow>
          Option.bind (zs_heap zs y) (\<lambda>nd.
            Option.bind (cond traversed nd) (\<lambda>go.
              if \<not> go then Some (removed, zs)
              else
                Option.bind (get_at (levels nd) 0) (\<lambda>lv.
                  Option.bind (zslDeleteNode (zs_heap zs) (zs_zsl zs) y update) (\<lambda>(h, zsl).
                    Option.bind (zn_obj nd) (\<lambda>ob.
                      Option.bind (dictDelete env (zs_dict zs) ob) (\<lambda>(st, es, d).
                        delete_while cond env update (forward lv) (traversed + 1) (removed + 1)
                          \<lparr>zs_dict = d, zs_zsl = zsl, zs_heap = h(y := None)\<rparr>)))))))"

declare delete_while.simps [code]

definition zslDeleteRangeByScore :: "dict_env \<Rightarrow> 's::linorder zrangespec \<Rightarrow> 's zset \<Rightarrow> (u64 \<times> 's zset) option" where
  "zslDeleteRangeByScore env spec zs = do {
     (update, _, x) \<leftarrow> descend (\<lambda>_ _ nd. Some (if minex spec then zn_score nd \<le> zr_min spec else zn_score nd < zr_min spec))
       (zs_heap zs) (zlevel (zs_zsl zs)) (zheader (zs_zsl zs)) (0 :: u32);
     lv \<leftarrow> level_at (zs_heap zs) x 0;
     delete_while (\<lambda>_ nd. Some (if maxex spec then zn_score nd < zr_max spec else zn_score nd \<le> zr_max spec))
       env update (forward lv) 0 0 zs }"

definition zslDeleteRangeByLex :: "dict_env \<Rightarrow> zlexrangespec \<Rightarrow> 's zset \<Rightarrow> (u64 \<times> 's zset) option" where
  "zslDeleteRangeByLex env spec zs = do {
     (update, _, x) \<leftarrow> descend (\<lambda>_ _ nd. map_option Not (lex_gte spec nd))
       (zs_heap zs) (zlevel (zs_zsl zs)) (zheader (zs_zsl zs)) (0 :: u32);
     lv \<leftarrow> level_at (zs_heap zs) x 0;
     delete_while (\<lambda>_ nd. lex_lte spec nd) env update (forward lv) 0 0 zs }"

definition zslDeleteRangeByRank :: "dict_env \<Rightarrow> u32 \<Rightarrow> u32 \<Rightarrow> 's zset \<Rightarrow> (u64 \<times> 's zset) option" where
  "zslDeleteRangeByRank env start end1 zs = do {
     (update, ranks, x) \<leftarrow> descend (\<lambda>t sp nd. Some (t + ucast sp < ucast start))
       (zs_heap zs) (zlevel (zs_zsl zs)) (zheader (zs_zsl zs)) (0 :: u64);
     traversed \<leftarrow> get_at ranks 0;
     lv \<leftarrow> level_at (zs_heap zs) x 0;
     delete_while (\<lambda>t nd. Some (t \<le> ucast end1)) env update (forward lv) (traversed + 1) 0 zs }"

text \<open>ZREMRANGEBYSCORE, ZREMRANGEBYLEX and ZREMRANGEBYRANK; the last one first brings the two ends into the list.\<close>

definition then_shrink :: "dict_env \<Rightarrow> (u64 \<times> 's zset) option \<Rightarrow> (u64 \<times> 's zset) option" where
  "then_shrink env r = do { (n, zs) \<leftarrow> r; d \<leftarrow> shrink_dict env (zs_dict zs); Some (n, zs\<lparr>zs_dict := d\<rparr>) }"

definition clip_range :: "int \<Rightarrow> int \<Rightarrow> int \<Rightarrow> (int \<times> int) option" where
  "clip_range llen start end1 =
     (let start = (if start < 0 then llen + start else start);
          end1 = (if end1 < 0 then llen + end1 else end1);
          start = (if start < 0 then 0 else start)
      in if start > end1 \<or> start \<ge> llen then None
         else Some (start, if end1 \<ge> llen then llen - 1 else end1))"

definition zremrange_rank :: "'s zset_env \<Rightarrow> int \<Rightarrow> int \<Rightarrow> 's zset \<Rightarrow> (u64 \<times> 's zset) option" where
  "zremrange_rank env start end1 zs =
     (case clip_range (uint (zsetLength zs)) start end1 of
        None \<Rightarrow> Some (0, zs)
      | Some (start, end1) \<Rightarrow>
          then_shrink (ze_dict env) (zslDeleteRangeByRank (ze_dict env)
            (word_of_int (cast_int start + 1)) (word_of_int (cast_int end1 + 1)) zs))"

definition zremrange_score :: "'s::linorder zset_env \<Rightarrow> 's zrangespec \<Rightarrow> 's zset \<Rightarrow> (u64 \<times> 's zset) option" where
  "zremrange_score env spec zs = then_shrink (ze_dict env) (zslDeleteRangeByScore (ze_dict env) spec zs)"

definition zremrange_lex :: "'s zset_env \<Rightarrow> zlexrangespec \<Rightarrow> 's zset \<Rightarrow> (u64 \<times> 's zset) option" where
  "zremrange_lex env spec zs = then_shrink (ze_dict env) (zslDeleteRangeByLex (ze_dict env) spec zs)"

text \<open>ZRANGE and ZREVRANGE: the walk along the lowest level, forwards or backwards.\<close>

fun range_walk :: "bool \<Rightarrow> 's zheap \<Rightarrow> nat \<Rightarrow> zaddr option \<Rightarrow> ('s \<times> str_obj) list option" where
  "range_walk reverse h 0 ln = Some []"
| "range_walk reverse h (Suc n) ln = do {
     p \<leftarrow> ln;
     nd \<leftarrow> h p;
     ele \<leftarrow> zn_obj nd;
     next1 \<leftarrow> (if reverse then Some (backward nd) else map_option forward (get_at (levels nd) 0));
     rest \<leftarrow> range_walk reverse h n next1;
     Some ((zn_score nd, ele) # rest) }"

definition zset_range :: "bool \<Rightarrow> int \<Rightarrow> int \<Rightarrow> 's zset \<Rightarrow> ('s \<times> str_obj) list option" where
  "zset_range reverse start end1 zs =
     (let llen = sint (zsetLength zs) in
      case clip_range llen start end1 of
        None \<Rightarrow> Some []
      | Some (start, end1) \<Rightarrow> do {
          let rangelen = cast_int (end1 - start) + 1;
          ln \<leftarrow> (if start > 0 then zslGetElementByRank (zs_heap zs) (zs_zsl zs) (word_of_int (if reverse then llen - start else start + 1))
                 else if reverse then Some (ztail (zs_zsl zs))
                 else map_option forward (level_at (zs_heap zs) (zheader (zs_zsl zs)) 0));
          range_walk reverse (zs_heap zs) (nat rangelen) ln })"

end
