(* ===== verification/Sorted_Set_Inv.thy ===== *)
theory Sorted_Set_Inv
  imports Sorted_Set
begin

text \<open>
  The invariant of a sorted set: the skip list stands for a sorted list of items with distinct
  texts, and the dictionary leads from each text to the node of its item. The operations on
  single members keep it.
\<close>

section \<open>Items by text\<close>

abbreviation ztext :: "'s zitem \<Rightarrow> byte list" where "ztext y \<equiv> getDecodedObject (ob y)"

definition zs_find :: "byte list \<Rightarrow> 's zitem list \<Rightarrow> 's zitem option" where
  "zs_find t xs = find (\<lambda>y. ztext y = t) xs"

lemma zs_find_Some: "distinct (map ztext xs) \<Longrightarrow> zs_find t xs = Some y \<longleftrightarrow> y \<in> set xs \<and> ztext y = t"
  unfolding zs_find_def by (induction xs) (auto simp: rev_image_eqI)

lemma zs_find_None: "zs_find t xs = None \<longleftrightarrow> t \<notin> ztext ` set xs"
  unfolding zs_find_def find_None_iff by blast

lemma zs_find_eqI:
  assumes "distinct (map ztext xs)" "distinct (map ztext ys)" "\<And>y. ztext y = t \<Longrightarrow> y \<in> set xs \<longleftrightarrow> y \<in> set ys"
  shows "zs_find t xs = zs_find t ys"
proof (cases "zs_find t ys")
  case None
  have "t \<notin> ztext ` set xs"
  proof
    assume "t \<in> ztext ` set xs"
    then obtain y where "y \<in> set xs" "ztext y = t" by blast
    then have "t \<in> ztext ` set ys" using assms(3) [of y] by blast
    then show False using None by (simp only: zs_find_None) simp
  qed
  then have "zs_find t xs = None" by (simp only: zs_find_None not_False_eq_True)
  then show ?thesis using None by simp
next
  case (Some y)
  then have "y \<in> set ys" "ztext y = t" using zs_find_Some [OF assms(2)] by simp_all
  then have "zs_find t xs = Some y" using assms(3) [of y] by (simp only: zs_find_Some [OF assms(1)])
  then show ?thesis using Some by simp
qed

lemma zs_find_filter: "zs_find u (filter (\<lambda>y. ztext y \<noteq> t) xs) = (if u = t then None else zs_find u xs)"
  unfolding zs_find_def by (induction xs) auto

lemma distinct_ztext_ins: "distinct (map ztext (ins xs r y)) \<longleftrightarrow> ztext y \<notin> ztext ` set xs \<and> distinct (map ztext xs)"
proof -
  have "mset (map ztext (ins xs r y)) = mset (map ztext (y # xs))" by (simp only: mset_map mset_ins)
  from mset_eq_imp_distinct_iff [OF this] show ?thesis by simp
qed

lemma zs_find_ins:
  assumes "ztext y \<notin> ztext ` set xs" "distinct (map ztext xs)"
  shows "zs_find u (ins xs r y) = (if u = ztext y then Some y else zs_find u xs)"
proof (cases "u = ztext y")
  case True
  then show ?thesis using assms distinct_ztext_ins [of xs r y] by (simp add: zs_find_Some set_ins)
next
  case False
  have "zs_find u (ins xs r y) = zs_find u xs"
  proof (rule zs_find_eqI)
    show "distinct (map ztext (ins xs r y))" unfolding distinct_ztext_ins using assms by blast
    show "z \<in> set (ins xs r y) \<longleftrightarrow> z \<in> set xs" if "ztext z = u" for z using that False unfolding set_ins by blast
  qed (rule assms(2))
  then show ?thesis using False by simp
qed

lemma filter_key_text:
  assumes "distinct (map ztext xs)" "y \<in> set xs"
  shows "filter (\<lambda>z. zkey z \<noteq> zkey y) xs = filter (\<lambda>z. ztext z \<noteq> ztext y) xs"
proof (rule filter_cong [OF refl])
  fix z assume "z \<in> set xs"
  then have "ztext z = ztext y \<Longrightarrow> z = y" using assms by (metis zs_find_Some option.inject)
  then show "zkey z \<noteq> zkey y \<longleftrightarrow> ztext z \<noteq> ztext y" by (auto simp: zkey_def)
qed

section \<open>The invariant\<close>

definition zdict_rel :: "u32 \<Rightarrow> (str_obj, zaddr) dict \<Rightarrow> 's zitem list \<Rightarrow> bool" where
  "zdict_rel seed d xs \<longleftrightarrow> dict_inv (zsetDictType seed) d \<and> (\<forall>k. dict_map d k = map_option ad (zs_find (getDecodedObject k) xs))"

definition zset_inv :: "u32 \<Rightarrow> 's::linorder zset \<Rightarrow> 's zitem list \<Rightarrow> bool" where
  "zset_inv seed zs xs \<longleftrightarrow> zsl_rep (zs_heap zs) (zs_zsl zs) xs \<and> zsl_sorted xs \<and> distinct (map ztext xs)
     \<and> finite (dom (zs_heap zs)) \<and> zdict_rel seed (zs_dict zs) xs"

lemma zset_invD:
  assumes "zset_inv seed zs xs"
  shows "zsl_rep (zs_heap zs) (zs_zsl zs) xs" "zsl_sorted xs" "distinct (map ztext xs)" "finite (dom (zs_heap zs))" "zdict_rel seed (zs_dict zs) xs"
  using assms by (simp_all add: zset_inv_def)

lemma zdict_size:
  assumes "zdict_rel seed d xs" "distinct (map ztext xs)"
  shows "dictSize d = length xs"
proof -
  have d: "dict_inv (zsetDictType seed) d" using assms(1) by (simp add: zdict_rel_def)
  have "dom (dict_map d) = {k. getDecodedObject k \<in> ztext ` set xs}"
    using assms(1) zs_find_None [of _ xs] by (auto simp: zdict_rel_def dom_def)
  moreover have "getDecodedObject ` {k. getDecodedObject k \<in> T} = T" for T
  proof
    show "T \<subseteq> getDecodedObject ` {k. getDecodedObject k \<in> T}"
    proof
      fix t assume "t \<in> T"
      then show "t \<in> getDecodedObject ` {k. getDecodedObject k \<in> T}"
        by (intro image_eqI [of _ _ "SdsObj t"]) (simp_all add: getDecodedObject_def)
    qed
  qed auto
  ultimately show ?thesis using zset_keys.size_dom(1) [OF d] distinct_card [OF assms(2)] by simp
qed

lemma zset_lookup:
  assumes inv: "zset_inv seed zs xs"
  obtains de d where "dictFind env (zs_dict zs) ele = Some (de, d)" "zset_inv seed (zs\<lparr>zs_dict := d\<rparr>) xs"
    "de = None \<longleftrightarrow> getDecodedObject ele \<notin> ztext ` set xs"
    "\<forall>ref. de = Some ref \<longrightarrow> holds d ref ele \<and> (\<exists>k q. q < length xs \<and> ztext (xs ! q) = getDecodedObject ele \<and> getDecodedObject k = getDecodedObject ele
       \<and> entry_at d ref = Some (k, ad (xs ! q)) \<and> zs_heap zs (ad (xs ! q)) = Some (zsl_node xs q))"
proof -
  note I = zset_invD [OF inv]
  have d0: "dict_inv (zsetDictType seed) (zs_dict zs)" using I(5) by (simp add: zdict_rel_def)
  obtain r d where r: "dictFind env (zs_dict zs) ele = Some (r, d)" "dict_inv (zsetDictType seed) d" "dict_map d = dict_map (zs_dict zs)"
    "dictSize d = dictSize (zs_dict zs)" "r = None \<longleftrightarrow> dict_map (zs_dict zs) ele = None" "\<forall>ref. r = Some ref \<longrightarrow> holds d ref ele"
    by (rule zset_keys.find [OF d0, where env = env and k = ele])
  have "zset_inv seed (zs\<lparr>zs_dict := d\<rparr>) xs" using inv r(2,3) by (simp add: zset_inv_def zdict_rel_def)
  moreover have "r = None \<longleftrightarrow> getDecodedObject ele \<notin> ztext ` set xs" using r(5) I(5) zs_find_None [of _ xs] by (simp add: zdict_rel_def)
  moreover have "\<exists>k q. q < length xs \<and> ztext (xs ! q) = getDecodedObject ele \<and> getDecodedObject k = getDecodedObject ele
       \<and> entry_at d ref = Some (k, ad (xs ! q)) \<and> zs_heap zs (ad (xs ! q)) = Some (zsl_node xs q)" if ref: "r = Some ref" for ref
  proof -
    obtain e where e: "entry_at d ref = Some e" "getDecodedObject (fst e) = getDecodedObject ele" "dict_map d ele = Some (snd e)"
      by (rule zset_keys.entry [OF r(2)]) (use r(6) ref in blast)
    then obtain y where y: "zs_find (getDecodedObject ele) xs = Some y" "snd e = ad y" using r(3) I(5) by (auto simp: zdict_rel_def)
    then obtain q where q: "q < length xs" "y = xs ! q" "ztext y = getDecodedObject ele" using zs_find_Some [OF I(3)] by (auto simp: in_set_conv_nth)
    have "zs_heap zs (ad (xs ! q)) = Some (zsl_node xs q)" by (rule zsl_repD(7) [OF I(1) q(1)])
    moreover have "entry_at d ref = Some (fst e, ad (xs ! q))" using e(1) y(2) q(2) by (cases e) simp
    ultimately show ?thesis using e(2) q by blast
  qed
  ultimately show thesis using that [OF r(1)] r(6) by blast
qed

section \<open>Deletion and insertion of a member\<close>

lemma zset_unlink:
  assumes inv: "zset_inv seed zs xs" and q: "q < length xs" "ztext (xs ! q) = getDecodedObject x"
  obtains h zsl where "zslDelete (zs_heap zs) (zs_zsl zs) (sc (xs ! q)) x = Some (True, h, zsl)"
    "zsl_rep h zsl (filter (\<lambda>y. ztext y \<noteq> getDecodedObject x) xs)" "finite (dom h)"
proof -
  note I = zset_invD [OF inv]
  have x: "length (getDecodedObject x) < 2 ^ 31" using I(2) nth_mem [OF q(1)] q(2) unfolding zsl_sorted_def by metis
  have k: "zkey (xs ! q) = (sc (xs ! q), getDecodedObject x)" using q(2) by (simp add: zkey_def)
  obtain h zsl where h: "zslDelete (zs_heap zs) (zs_zsl zs) (sc (xs ! q)) x = Some ((sc (xs ! q), getDecodedObject x) \<in> zkey ` set xs, h, zsl)"
    "zsl_rep h zsl (filter (\<lambda>y. zkey y \<noteq> (sc (xs ! q), getDecodedObject x)) xs)" "dom h \<subseteq> dom (zs_heap zs)"
    by (rule zslDelete_rep [OF I(1,2) x])
  have "(sc (xs ! q), getDecodedObject x) \<in> zkey ` set xs" using k nth_mem [OF q(1)] by (metis imageI)
  moreover have "filter (\<lambda>y. zkey y \<noteq> (sc (xs ! q), getDecodedObject x)) xs = filter (\<lambda>y. ztext y \<noteq> getDecodedObject x) xs"
    using filter_key_text [OF I(3) nth_mem [OF q(1)]] k q(2) by simp
  ultimately show thesis using that [of h zsl] h finite_subset [OF h(3) I(4)] by simp
qed

definition alloc_ok :: "'s zset_env \<Rightarrow> bool" where
  "alloc_ok env \<longleftrightarrow> (\<forall>h. finite (dom h) \<longrightarrow> h (ze_alloc env h) = None)"

text \<open>The list of the specification: pairs of a score and a text.\<close>

definition kless :: "'s::linorder \<times> byte list \<Rightarrow> 's \<times> byte list \<Rightarrow> bool" where
  "kless a b \<longleftrightarrow> fst a < fst b \<or> (fst a = fst b \<and> text_less (snd a) (snd b))"

definition zl_put :: "'s::linorder \<times> byte list \<Rightarrow> ('s \<times> byte list) list \<Rightarrow> ('s \<times> byte list) list" where
  "zl_put k A = takeWhile (\<lambda>k'. kless k' k) A @ k # dropWhile (\<lambda>k'. kless k' k) A"

lemma map_zkey_ins: "map zkey (ins xs (pos_of (s, x) xs) (a, lv, s, x)) = zl_put (s, getDecodedObject x) (map zkey xs)"
proof -
  have k: "key_less (sc y, ob y) (s, x) \<longleftrightarrow> kless (zkey y) (s, getDecodedObject x)" for y :: "'a zitem"
    by (simp add: key_less_def kless_def zkey_def)
  let ?P = "\<lambda>y. kless (zkey y) (s, getDecodedObject x)"
  have r: "pos_of (s, x) xs = length (takeWhile ?P xs)" unfolding pos_of_def k ..
  have "take (length (takeWhile ?P xs)) xs = takeWhile ?P xs" "drop (length (takeWhile ?P xs)) xs = dropWhile ?P xs"
    by (metis takeWhile_eq_take) (metis dropWhile_eq_drop)
  then show ?thesis unfolding ins_def zl_put_def r by (simp add: takeWhile_map dropWhile_map comp_def zkey_def [of "(a, lv, s, x)"])
qed

lemma zset_link:
  assumes ok: "alloc_ok env" and rep: "zsl_rep h zsl xs" and srt: "zsl_sorted xs" and dist: "distinct (map ztext xs)" and fin: "finite (dom h)"
    and x: "length (getDecodedObject x) < 2 ^ 31" "getDecodedObject x \<notin> ztext ` set xs" and room: "length xs + 1 < 2 ^ 32"
    and lv: "zslRandomLevel rnd \<noteq> None"
  obtains h' zsl' y where "zslInsert mem (ze_alloc env h) rnd h zsl s x = Some (h', zsl')"
    "zsl_rep h' zsl' (ins xs (pos_of (s, x) xs) y)" "zsl_sorted (ins xs (pos_of (s, x) xs) y)" "distinct (map ztext (ins xs (pos_of (s, x) xs) y))"
    "finite (dom h')" "ad y = ze_alloc env h" "ztext y = getDecodedObject x" "map zkey (ins xs (pos_of (s, x) xs) y) = zl_put (s, getDecodedObject x) (map zkey xs)"
proof -
  obtain l where l: "zslRandomLevel rnd = Some l" "1 \<le> l" "l \<le> ZSKIPLIST_MAXLEVEL" using lv zslRandomLevel_range by (cases "zslRandomLevel rnd") auto
  have fresh: "h (ze_alloc env h) = None" using ok fin by (simp add: alloc_ok_def)
  obtain h' zsl' where h': "zslInsert mem (ze_alloc env h) rnd h zsl s x = Some (h', zsl')"
    "zsl_rep h' zsl' (ins xs (pos_of (s, x) xs) (ze_alloc env h, l, s, x))" "dom h' = insert (ze_alloc env h) (dom h)"
    by (rule zslInsert_rep [OF rep srt room fresh x(1) l])
  have "(s, getDecodedObject x) \<notin> (\<lambda>y. (sc y, ztext y)) ` set xs" using x(2) by auto
  then have "zsl_sorted (ins xs (pos_of (s, x) xs) (ze_alloc env h, l, s, x))" by (rule ins_sorted [OF srt x(1)])
  moreover have "distinct (map ztext (ins xs (pos_of (s, x) xs) (ze_alloc env h, l, s, x)))" unfolding distinct_ztext_ins using x(2) dist by simp
  ultimately show thesis using that [OF h'(1,2)] h'(3) fin map_zkey_ins [of xs s x "ze_alloc env h" l] by simp
qed

end
