(* ===== verification/Sorted_Set_Ops.thy ===== *)
theory Sorted_Set_Ops
  imports Sorted_Set_Inv
begin

text \<open>
  The operations on the members of a sorted set against a sorted list of pairs of a score and
  a text.
\<close>

section \<open>The relation\<close>

definition zset_rel :: "u32 \<Rightarrow> 's::linorder zset \<Rightarrow> ('s \<times> byte list) list \<Rightarrow> bool" where
  "zset_rel seed zs A \<longleftrightarrow> (\<exists>xs. zset_inv seed zs xs \<and> A = map zkey xs)"

definition zl_get :: "byte list \<Rightarrow> ('s \<times> byte list) list \<Rightarrow> 's option" where
  "zl_get t A = map_option fst (find (\<lambda>k. snd k = t) A)"

definition zl_del :: "byte list \<Rightarrow> ('s \<times> byte list) list \<Rightarrow> ('s \<times> byte list) list" where
  "zl_del t A = filter (\<lambda>k. snd k \<noteq> t) A"

definition zl_pos :: "byte list \<Rightarrow> ('s \<times> byte list) list \<Rightarrow> nat" where
  "zl_pos t A = length (takeWhile (\<lambda>k. snd k \<noteq> t) A)"

lemma zl_get_map: "zl_get t (map zkey xs) = map_option sc (zs_find t xs)"
  unfolding zl_get_def zs_find_def by (induction xs) (simp_all add: zkey_def)

lemma zl_get_at:
  assumes "distinct (map ztext xs)" "q < length xs"
  shows "zl_get (ztext (xs ! q)) (map zkey xs) = Some (sc (xs ! q))"
  unfolding zl_get_map using zs_find_Some [OF assms(1), of "ztext (xs ! q)" "xs ! q"] nth_mem [OF assms(2)] by simp

lemma zl_get_None: "zl_get t (map zkey xs) = None \<longleftrightarrow> t \<notin> ztext ` set xs"
  unfolding zl_get_map using zs_find_None [of t xs] by simp

lemma zl_del_map: "zl_del t (map zkey xs) = map zkey (filter (\<lambda>y. ztext y \<noteq> t) xs)"
  unfolding zl_del_def by (induction xs) (simp_all add: zkey_def)

lemma zl_pos_at:
  assumes "distinct (map ztext xs)" "q < length xs"
  shows "zl_pos (ztext (xs ! q)) (map zkey xs) = q"
proof -
  have "takeWhile (\<lambda>y. ztext y \<noteq> ztext (xs ! q)) xs = take q xs"
  proof (rule takeWhile_eq_take_P_nth)
    fix i assume "i < q" "i < length xs"
    then show "ztext (xs ! i) \<noteq> ztext (xs ! q)" using nth_eq_iff_index_eq [OF assms(1), of i q] assms(2) by simp
  qed simp
  then show ?thesis using assms(2) by (simp add: zl_pos_def takeWhile_map comp_def zkey_def)
qed

lemma zset_relI: "zset_inv seed zs xs \<Longrightarrow> zset_rel seed zs (map zkey xs)"
  by (auto simp: zset_rel_def)

section \<open>Adding a member\<close>

fun zl_add :: "('s::linorder \<Rightarrow> 's \<Rightarrow> 's option) \<Rightarrow> bool \<Rightarrow> bool \<Rightarrow> bool \<Rightarrow> 's \<Rightarrow> byte list \<Rightarrow> ('s \<times> byte list) list \<Rightarrow> 's zadd_result \<times> ('s \<times> byte list) list" where
  "zl_add pl nx xx incr score t A =
     (case zl_get t A of
        Some cur \<Rightarrow>
          if nx then (ZSkipped, A)
          else (case (if incr then pl score cur else Some score) of
                  None \<Rightarrow> (ZNan, A)
                | Some s \<Rightarrow> if s = cur then (ZKept s, A) else (ZUpdated s, zl_put (s, t) (zl_del t A)))
      | None \<Rightarrow> if xx then (ZSkipped, A) else (ZAdded score, zl_put (score, t) A))"

lemma zset_add_rel:
  assumes rel: "zset_rel (ze_seed env) zs A" and ok: "alloc_ok env" and room: "length A < MAX_ENTRIES"
    and ele: "length (getDecodedObject ele) < 2 ^ 31" and lv: "zslRandomLevel rnd \<noteq> None"
  shows "\<exists>zs'. zset_add env rnd nx xx incr score ele zs = Some (fst (zl_add (ze_plus env) nx xx incr score (getDecodedObject ele) A), zs')
    \<and> zset_rel (ze_seed env) zs' (snd (zl_add (ze_plus env) nx xx incr score (getDecodedObject ele) A))"
proof -
  obtain xs where inv: "zset_inv (ze_seed env) zs xs" and A: "A = map zkey xs" using rel by (auto simp: zset_rel_def)
  define e where "e = tryObjectEncoding (ze_refs env) ele"
  define t where "t = getDecodedObject ele"
  have e: "getDecodedObject e = t" by (simp add: e_def t_def decoded_encoding)
  have len: "length xs + 1 < 2 ^ 32" "length xs < MAX_ENTRIES" using room A by simp_all
  obtain de d where f: "dictFind (ze_dict env) (zs_dict zs) e = Some (de, d)" "zset_inv (ze_seed env) (zs\<lparr>zs_dict := d\<rparr>) xs"
    "de = None \<longleftrightarrow> getDecodedObject e \<notin> ztext ` set xs"
    "\<forall>ref. de = Some ref \<longrightarrow> holds d ref e \<and> (\<exists>k q. q < length xs \<and> ztext (xs ! q) = getDecodedObject e \<and> getDecodedObject k = getDecodedObject e
       \<and> entry_at d ref = Some (k, ad (xs ! q)) \<and> zs_heap zs (ad (xs ! q)) = Some (zsl_node xs q))" by (rule zset_lookup [OF inv])
  note I = zset_invD [OF f(2)]
  have d: "dict_inv (zsetDictType (ze_seed env)) d" "\<forall>k. dict_map d k = map_option ad (zs_find (getDecodedObject k) xs)"
    using I(5) by (simp_all add: zdict_rel_def)
  have same: "zset_rel (ze_seed env) (zs\<lparr>zs_dict := d\<rparr>) A" unfolding A by (rule zset_relI [OF f(2)])
  note def = zset_add_def [of env rnd nx xx incr score ele zs, folded e_def]
  show ?thesis
  proof (cases de)
    case None
    then have new: "t \<notin> ztext ` set xs" using f(3) e by simp
    then have get: "zl_get t A = None" unfolding A zl_get_None .
    show ?thesis
    proof (cases xx)
      case True
      then show ?thesis using def f(1) None get same by (simp add: t_def [symmetric])
    next
      case False
      have x: "length (getDecodedObject e) < 2 ^ 31" "getDecodedObject e \<notin> ztext ` set xs" using ele new e by (simp_all add: t_def)
      obtain h' zsl' y where l: "zslInsert (ze_mem env) (ze_alloc env (zs_heap zs)) rnd (zs_heap zs) (zs_zsl zs) score e = Some (h', zsl')"
        "zsl_rep h' zsl' (ins xs (pos_of (score, e) xs) y)" "zsl_sorted (ins xs (pos_of (score, e) xs) y)"
        "distinct (map ztext (ins xs (pos_of (score, e) xs) y))" "finite (dom h')" "ad y = ze_alloc env (zs_heap zs)" "ztext y = getDecodedObject e"
        "map zkey (ins xs (pos_of (score, e) xs) y) = zl_put (score, getDecodedObject e) (map zkey xs)"
        using ok zset_invD(1-4) [OF inv] x len(1) lv by (rule zset_link)
      have n: "dict_map d e = None" using d(2) x(2) zs_find_None [of _ xs] by simp
      have sz: "dictSize d \<le> MAX_ENTRIES" using zdict_size [OF I(5,3)] len(2) by simp
      obtain st d' where a: "dictAdd (ze_dict env) (ad y) d e (ad y) = Some (st, d')" "dict_inv (zsetDictType (ze_seed env)) d'" "st = DICT_OK \<longleftrightarrow> dict_map d e = None"
        "\<forall>k'. dict_map d' k' = (if st = DICT_OK \<and> getDecodedObject k' = getDecodedObject e then Some (ad y) else dict_map d k')"
        by (rule zset_keys.add [OF d(1) sz, where env = "ze_dict env" and w = "ad y" and k = e and v = "ad y"])
      have "zdict_rel (ze_seed env) d' (ins xs (pos_of (score, e) xs) y)"
        unfolding zdict_rel_def using a(2-4) n d(2) zs_find_ins [of y xs] x(2) l(7) I(3) by simp
      then have "zset_inv (ze_seed env) \<lparr>zs_dict = d', zs_zsl = zsl', zs_heap = h'\<rparr> (ins xs (pos_of (score, e) xs) y)"
        using l(2-5) by (simp add: zset_inv_def)
      from zset_relI [OF this] show ?thesis
        using def f(1) None get False l(1,6,8) a(1,3) n e by (simp add: t_def [symmetric] A)
    qed
  next
    case (Some ref)
    then obtain k q where q: "holds d ref e" "q < length xs" "ztext (xs ! q) = t" "getDecodedObject k = t"
      "entry_at d ref = Some (k, ad (xs ! q))" "zs_heap zs (ad (xs ! q)) = Some (zsl_node xs q)" using f(4) e by auto
    have get: "zl_get t A = Some (sc (xs ! q))" using zl_get_at [OF I(3) q(2)] q(3) A by simp
    have sc: "zn_score (zsl_node xs q) = sc (xs ! q)" by (simp add: zsl_node_def)
    define news where "news = (if incr then ze_plus env score (sc (xs ! q)) else Some score)"
    show ?thesis
    proof (cases "nx \<or> news = None \<or> news = Some (sc (xs ! q))")
      case True
      then show ?thesis using def f(1) Some get same q(5,6) sc unfolding news_def by (auto simp: t_def [symmetric])
    next
      case False
      then obtain s where s: "news = Some s" "s \<noteq> sc (xs ! q)" "\<not> nx" by auto
      define zs1 where "zs1 = filter (\<lambda>y. ztext y \<noteq> t) xs"
      have qk: "ztext (xs ! q) = getDecodedObject k" using q(3,4) by simp
      obtain h zsl where u: "zslDelete (zs_heap zs) (zs_zsl zs) (sc (xs ! q)) k = Some (True, h, zsl)" "zsl_rep h zsl zs1" "finite (dom h)"
        by (rule zset_unlink [OF inv q(2) qk]) (simp add: zs1_def q(4))
      have z1: "zsl_sorted zs1" "distinct (map ztext zs1)" "getDecodedObject k \<notin> ztext ` set zs1" "length zs1 + 1 < 2 ^ 32"
        using filter_sorted [OF I(2)] distinct_map_filter [OF I(3)] q(4) le_less_trans [OF length_filter_le [of "\<lambda>y. ztext y \<noteq> t" xs], of "2 ^ 32 - 1"] len(1)
        by (auto simp: zs1_def)
      have kl: "length (getDecodedObject k) < 2 ^ 31" using q(4) ele by (simp add: t_def)
      obtain h' zsl' y where l: "zslInsert (ze_mem env) (ze_alloc env h) rnd h zsl s k = Some (h', zsl')"
        "zsl_rep h' zsl' (ins zs1 (pos_of (s, k) zs1) y)" "zsl_sorted (ins zs1 (pos_of (s, k) zs1) y)"
        "distinct (map ztext (ins zs1 (pos_of (s, k) zs1) y))" "finite (dom h')" "ad y = ze_alloc env h" "ztext y = getDecodedObject k"
        "map zkey (ins zs1 (pos_of (s, k) zs1) y) = zl_put (s, getDecodedObject k) (map zkey zs1)"
        using ok u(2) z1(1,2) u(3) kl z1(3,4) lv by (rule zset_link)
      obtain d' where a: "dictSetVal d ref (ad y) = Some d'" "dict_inv (zsetDictType (ze_seed env)) d'"
        "\<forall>k'. dict_map d' k' = (if getDecodedObject k' = getDecodedObject e then Some (ad y) else dict_map d k')"
        by (rule zset_keys.set_val [OF d(1) q(1), where v = "ad y"])
      have "zdict_rel (ze_seed env) d' (ins zs1 (pos_of (s, k) zs1) y)"
        unfolding zdict_rel_def using a(2,3) d(2) zs_find_ins [of y zs1] z1(2,3) l(7) q(4) e zs_find_filter [of _ t xs] by (simp add: zs1_def)
      then have "zset_inv (ze_seed env) \<lparr>zs_dict = d', zs_zsl = zsl', zs_heap = h'\<rparr> (ins zs1 (pos_of (s, k) zs1) y)"
        using l(2-5) by (simp add: zset_inv_def)
      note r = zset_relI [OF this]
      have "zset_add env rnd nx xx incr score ele zs = Some (ZUpdated s, \<lparr>zs_dict = d', zs_zsl = zsl', zs_heap = h'\<rparr>)"
        using def f(1) Some s q(5,6) sc u(1) l(1,6) a(1) unfolding news_def by simp
      moreover have "zl_add (ze_plus env) nx xx incr score t A = (ZUpdated s, zl_put (s, t) (zl_del t A))"
        using get s unfolding news_def by simp
      ultimately show ?thesis using r l(8) q(4) by (simp add: t_def [symmetric] A zl_del_map zs1_def)
    qed
  qed
qed

section \<open>Removing and reading a member\<close>

lemma shrink_rel:
  assumes "zset_inv seed zs xs" "length xs \<le> MAX_ENTRIES"
  obtains d where "shrink_dict env (zs_dict zs) = Some d" "zset_inv seed (zs\<lparr>zs_dict := d\<rparr>) xs"
proof (cases "htNeedsResize (zs_dict zs)")
  case False
  then show thesis using that [of "zs_dict zs"] assms(1) by (simp add: shrink_dict_def)
next
  case True
  note I = zset_invD [OF assms(1)]
  have d: "dict_inv (zsetDictType seed) (zs_dict zs)" using I(5) by (simp add: zdict_rel_def)
  have sz: "dictSize (zs_dict zs) \<le> MAX_ENTRIES" using zdict_size [OF I(5,3)] assms(2) by simp
  obtain st d' where "dictResize env (zs_dict zs) = Some (st, d')" "dict_inv (zsetDictType seed) d'" "dict_map d' = dict_map (zs_dict zs)"
    by (rule zset_keys.resize [OF d sz])
  then show thesis using that [of d'] True assms(1) by (simp add: shrink_dict_def zset_inv_def zdict_rel_def)
qed

lemma zdict_delete:
  assumes "zdict_rel seed d xs"
  obtains st es d' where "dictDelete env d x = Some (st, es, d')" "zdict_rel seed d' (filter (\<lambda>y. ztext y \<noteq> getDecodedObject x) xs)"
proof -
  have d: "dict_inv (zsetDictType seed) d" using assms by (simp add: zdict_rel_def)
  obtain st es d' where "dictDelete env d x = Some (st, es, d')" "dict_inv (zsetDictType seed) d'"
    "\<forall>k'. dict_map d' k' = (if getDecodedObject k' = getDecodedObject x then None else dict_map d k')"
    by (rule zset_keys.delete [OF d, where env = env and k = x])
  then show thesis using that [of st es d'] assms zs_find_filter [of _ "getDecodedObject x" xs] by (simp add: zdict_rel_def)
qed

lemma zset_rem_rel:
  assumes rel: "zset_rel (ze_seed env) zs A" and room: "length A \<le> MAX_ENTRIES"
  shows "\<exists>zs'. zset_rem env ele zs = Some (getDecodedObject ele \<in> snd ` set A, zs') \<and> zset_rel (ze_seed env) zs' (zl_del (getDecodedObject ele) A)"
proof -
  obtain xs where inv: "zset_inv (ze_seed env) zs xs" and A: "A = map zkey xs" using rel by (auto simp: zset_rel_def)
  define t where "t = getDecodedObject ele"
  define zs1 where "zs1 = filter (\<lambda>y. ztext y \<noteq> t) xs"
  have sndA: "snd ` set A = ztext ` set xs" by (force simp: A zkey_def)
  have del: "zl_del t A = map zkey zs1" by (simp add: A zl_del_map zs1_def)
  obtain de d where f: "dictFind (ze_dict env) (zs_dict zs) ele = Some (de, d)" "zset_inv (ze_seed env) (zs\<lparr>zs_dict := d\<rparr>) xs"
    "de = None \<longleftrightarrow> getDecodedObject ele \<notin> ztext ` set xs"
    "\<forall>ref. de = Some ref \<longrightarrow> holds d ref ele \<and> (\<exists>k q. q < length xs \<and> ztext (xs ! q) = getDecodedObject ele \<and> getDecodedObject k = getDecodedObject ele
       \<and> entry_at d ref = Some (k, ad (xs ! q)) \<and> zs_heap zs (ad (xs ! q)) = Some (zsl_node xs q))" by (rule zset_lookup [OF inv])
  note I = zset_invD [OF f(2)]
  show ?thesis
  proof (cases de)
    case None
    then have n: "t \<notin> ztext ` set xs" using f(3) by (simp add: t_def)
    then have "zs1 = xs" unfolding zs1_def filter_id_conv by blast
    then show ?thesis using None f(1) n sndA del zset_relI [OF f(2)] by (simp add: zset_rem_def t_def [symmetric])
  next
    case (Some ref)
    then obtain k q where q: "q < length xs" "ztext (xs ! q) = getDecodedObject ele" "entry_at d ref = Some (k, ad (xs ! q))"
      "zs_heap zs (ad (xs ! q)) = Some (zsl_node xs q)" using f(4) by auto
    have tx: "t \<in> ztext ` set xs" using Some f(3) by (simp add: t_def)
    obtain h zsl where u: "zslDelete (zs_heap zs) (zs_zsl zs) (sc (xs ! q)) ele = Some (True, h, zsl)" "zsl_rep h zsl zs1" "finite (dom h)"
      by (rule zset_unlink [OF inv q(1,2)]) (simp add: zs1_def t_def)
    have dr: "zdict_rel (ze_seed env) d xs" using I(5) by simp
    obtain st es d1 where d1: "dictDelete (ze_dict env) d ele = Some (st, es, d1)" "zdict_rel (ze_seed env) d1 zs1"
      by (rule zdict_delete [OF dr]) (simp add: zs1_def t_def)
    define zs2 where "zs2 = \<lparr>zs_dict = d1, zs_zsl = zsl, zs_heap = h\<rparr>"
    have "zset_inv (ze_seed env) zs2 zs1" unfolding zset_inv_def zs2_def
      using u(2,3) d1(2) filter_sorted [OF I(2)] distinct_map_filter [OF I(3)] by (simp add: zs1_def)
    moreover have "length zs1 \<le> MAX_ENTRIES" using room A le_trans [OF length_filter_le] by (simp add: zs1_def)
    ultimately obtain d2 where d2: "shrink_dict (ze_dict env) (zs_dict zs2) = Some d2" "zset_inv (ze_seed env) (zs2\<lparr>zs_dict := d2\<rparr>) zs1"
      by (rule shrink_rel)
    show ?thesis
      using Some f(1) q(3,4) u(1) d1(1) d2 tx sndA del zset_relI [OF d2(2)] by (simp add: zset_rem_def t_def [symmetric] zs2_def zsl_node_def)
  qed
qed

lemma zset_score_rel:
  assumes rel: "zset_rel (ze_seed env) zs A"
  shows "\<exists>zs'. zset_score env ele zs = Some (zl_get (getDecodedObject ele) A, zs') \<and> zset_rel (ze_seed env) zs' A"
proof -
  obtain xs where inv: "zset_inv (ze_seed env) zs xs" and A: "A = map zkey xs" using rel by (auto simp: zset_rel_def)
  define e where "e = tryObjectEncoding (ze_refs env) ele"
  have e: "getDecodedObject e = getDecodedObject ele" by (simp add: e_def decoded_encoding)
  obtain de d where f: "dictFind (ze_dict env) (zs_dict zs) e = Some (de, d)" "zset_inv (ze_seed env) (zs\<lparr>zs_dict := d\<rparr>) xs"
    "de = None \<longleftrightarrow> getDecodedObject e \<notin> ztext ` set xs"
    "\<forall>ref. de = Some ref \<longrightarrow> holds d ref e \<and> (\<exists>k q. q < length xs \<and> ztext (xs ! q) = getDecodedObject e \<and> getDecodedObject k = getDecodedObject e
       \<and> entry_at d ref = Some (k, ad (xs ! q)) \<and> zs_heap zs (ad (xs ! q)) = Some (zsl_node xs q))" by (rule zset_lookup [OF inv])
  note def = zset_score_def [of env ele zs, folded e_def]
  show ?thesis
  proof (cases de)
    case None
    then have "zl_get (getDecodedObject ele) A = None" unfolding A zl_get_None using f(3) e by simp
    then show ?thesis using def None f(1) zset_relI [OF f(2)] A by simp
  next
    case (Some ref)
    then obtain k q where q: "q < length xs" "ztext (xs ! q) = getDecodedObject ele" "entry_at d ref = Some (k, ad (xs ! q))"
      "zs_heap zs (ad (xs ! q)) = Some (zsl_node xs q)" using f(4) e by auto
    have "zl_get (getDecodedObject ele) A = Some (sc (xs ! q))" using zl_get_at [OF zset_invD(3) [OF inv] q(1)] q(2) A by simp
    then show ?thesis using def Some f(1) q(3,4) zset_relI [OF f(2)] A by (simp add: zsl_node_def)
  qed
qed

lemma zlength_rel:
  assumes "zset_inv seed zs xs"
  shows "zlength (zs_zsl zs) = of_nat (length xs)" "zsetLength zs = of_nat (length xs)" "length xs < 2 ^ 32"
  using zsl_repD(3,9) [OF zset_invD(1) [OF assms]] by (simp_all add: zsetLength_def unsigned_of_nat take_bit_nat_eq_self)

lemma zset_rank_rel:
  assumes rel: "zset_rel (ze_seed env) zs A" and ele: "length (getDecodedObject ele) < 2 ^ 31"
  shows "\<exists>zs'. zset_rank env reverse ele zs = Some (if getDecodedObject ele \<in> snd ` set A
        then Some (of_nat (if reverse then length A - 1 - zl_pos (getDecodedObject ele) A else zl_pos (getDecodedObject ele) A)) else None, zs')
    \<and> zset_rel (ze_seed env) zs' A"
proof -
  obtain xs where inv: "zset_inv (ze_seed env) zs xs" and A: "A = map zkey xs" using rel by (auto simp: zset_rel_def)
  define e where "e = tryObjectEncoding (ze_refs env) ele"
  have e: "getDecodedObject e = getDecodedObject ele" by (simp add: e_def decoded_encoding)
  have sndA: "snd ` set A = ztext ` set xs" by (force simp: A zkey_def)
  obtain de d where f: "dictFind (ze_dict env) (zs_dict zs) e = Some (de, d)" "zset_inv (ze_seed env) (zs\<lparr>zs_dict := d\<rparr>) xs"
    "de = None \<longleftrightarrow> getDecodedObject e \<notin> ztext ` set xs"
    "\<forall>ref. de = Some ref \<longrightarrow> holds d ref e \<and> (\<exists>k q. q < length xs \<and> ztext (xs ! q) = getDecodedObject e \<and> getDecodedObject k = getDecodedObject e
       \<and> entry_at d ref = Some (k, ad (xs ! q)) \<and> zs_heap zs (ad (xs ! q)) = Some (zsl_node xs q))" by (rule zset_lookup [OF inv])
  note def = zset_rank_def [of env reverse ele zs, folded e_def]
  note I = zset_invD [OF inv]
  show ?thesis
  proof (cases de)
    case None
    then show ?thesis using def f(1,3) e sndA zset_relI [OF f(2)] A by simp
  next
    case (Some ref)
    then obtain k q where q: "q < length xs" "ztext (xs ! q) = getDecodedObject ele" "entry_at d ref = Some (k, ad (xs ! q))"
      "zs_heap zs (ad (xs ! q)) = Some (zsl_node xs q)" using f(4) e by auto
    have k: "zkey (xs ! q) = (sc (xs ! q), getDecodedObject e)" "length (getDecodedObject e) < 2 ^ 31" using q(2) e ele by (simp_all add: zkey_def)
    have r: "zslGetRank (zs_heap zs) (zs_zsl zs) (sc (xs ! q)) e = Some (of_nat (q + 1))" by (rule zslGetRank_rep(1) [OF I(1,2) k(2) I(3) q(1) k(1)])
    have n0: "of_nat (q + 1) \<noteq> (0 :: u64)"
      using q(1) zlength_rel(3) [OF inv] by (simp add: word_unat_eq_iff unsigned_of_nat take_bit_nat_eq_self del: of_nat_Suc of_nat_add)
    have len: "ucast (of_nat (length xs) :: u32) = (of_nat (length xs) :: u64)" by (rule ucast_span [OF zlength_rel(3) [OF inv]])
    have pos: "zl_pos (getDecodedObject ele) A = q" using zl_pos_at [OF I(3) q(1)] q(2) A by simp
    have "of_nat (length xs) - of_nat (q + 1) = (of_nat (length xs - 1 - q) :: u64)" using q(1) by (simp add: of_nat_diff)
    then show ?thesis
      using def Some f(1,3) e q(3,4) r n0 sndA zset_relI [OF f(2)] A pos zlength_rel(2) [OF inv] len by (simp add: zsl_node_def)
  qed
qed

end
