(* ===== verification/Sorted_Set_Range.thy ===== *)
theory Sorted_Set_Range
  imports Sorted_Set_Ops
begin

text \<open>
  The operations on ranges of a sorted set: deletion by score, by text and by rank, counting,
  and the walks forwards and backwards.
\<close>

section \<open>The loop of a deletion\<close>

fun run_del :: "(u64 \<Rightarrow> 'a \<Rightarrow> bool) \<Rightarrow> u64 \<Rightarrow> 'a list \<Rightarrow> nat" where
  "run_del Q t [] = 0"
| "run_del Q t (y # ys) = (if Q t y then Suc (run_del Q (t + 1) ys) else 0)"

lemma run_del_const: "run_del (\<lambda>_. P) t ys = length (takeWhile P ys)"
  by (induction ys arbitrary: t) auto

lemma run_del_upto:
  assumes "a + length ys < 2 ^ 64" "b < 2 ^ 64"
  shows "run_del (\<lambda>t _. t \<le> of_nat b) (of_nat a) ys = min (length ys) (b + 1 - a)"
  using assms
proof (induction ys arbitrary: a)
  case (Cons y ys)
  have "(of_nat a :: u64) \<le> of_nat b \<longleftrightarrow> a \<le> b" using Cons.prems by (simp add: word_le_nat_alt unsigned_of_nat take_bit_nat_eq_self)
  moreover have "run_del (\<lambda>t _. t \<le> of_nat b) (of_nat (Suc a)) ys = min (length ys) (b + 1 - Suc a)" using Cons.IH [of "Suc a"] Cons.prems by simp
  ultimately show ?case by (auto simp: add.commute)
qed simp

lemma delete_while_rel:
  assumes "zset_inv seed zs xs" "r \<le> length xs" "zlevel (zs_zsl zs) \<le> n" "zheader (zs_zsl zs) = hdr"
    and "\<And>ys q t. q < length ys \<Longrightarrow> set ys \<subseteq> set xs \<Longrightarrow> cond t (zsl_node ys q) = Some (Q t (ys ! q))"
  shows "\<exists>zs'. delete_while cond env (updates hdr xs r n) (if r < length xs then Some (ad (xs ! r)) else None) t rm zs =
      Some (rm + of_nat (run_del Q t (drop r xs)), zs') \<and> zset_inv seed zs' (take r xs @ drop (r + run_del Q t (drop r xs)) xs)"
  using assms
proof (induction "length xs - r" arbitrary: xs zs t rm)
  case 0
  then show ?case by (subst delete_while.simps) simp
next
  case (Suc m)
  then have r: "r < length xs" by simp
  define y where "y = xs ! r"
  define ys where "ys = take r xs @ drop (Suc r) xs"
  note I = zset_invD [OF Suc.prems(1)]
  have dr: "drop r xs = y # drop (Suc r) xs" using r by (simp add: y_def Cons_nth_drop_Suc)
  have nd: "zs_heap zs (ad y) = Some (zsl_node xs r)" "cond t (zsl_node xs r) = Some (Q t y)"
    using zsl_repD(7) [OF I(1) r] Suc.prems(5) [OF r subset_refl] by (simp_all add: y_def)
  show ?case
  proof (cases "Q t y")
    case False
    then have "run_del Q t (drop r xs) = 0" using dr by simp
    then show ?thesis using False r nd Suc.prems(1) by (subst delete_while.simps) (simp add: y_def [symmetric])
  next
    case True
    have xs: "xs = ins ys r y" unfolding ys_def y_def by (rule ins_split [OF r])
    have ry: "r \<le> length ys" "length ys - r = m" using r Suc.hyps(2) by (auto simp: ys_def)
    obtain h zsl where h: "zslDeleteNode (zs_heap zs) (zs_zsl zs) (ad y) (updates (zheader (zs_zsl zs)) ys r n) = Some (h, zsl)"
      "zsl_rep (h(ad y := None)) zsl ys" "zheader zsl = zheader (zs_zsl zs)" "zlevel zsl \<le> zlevel (zs_zsl zs)" "dom h = dom (zs_heap zs)"
      using I(1) ry(1) Suc.prems(3) unfolding xs by (rule zslDeleteNode_rep)
    have f: "filter (\<lambda>z. ztext z \<noteq> ztext y) xs = ys" unfolding ys_def y_def by (rule filter_at [OF I(3) r])
    obtain st es d where d: "dictDelete env (zs_dict zs) (ob y) = Some (st, es, d)" "zdict_rel seed d ys"
      by (rule zdict_delete [OF I(5), where env = env and x = "ob y"]) (simp add: f)
    define zs1 where "zs1 = \<lparr>zs_dict = d, zs_zsl = zsl, zs_heap = h(ad y := None)\<rparr>"
    have inv: "zset_inv seed zs1 ys" unfolding zset_inv_def
      using h(2,5) d(2) filter_sorted [OF I(2), of "\<lambda>z. ztext z \<noteq> ztext y"] distinct_map_filter [OF I(3), of "\<lambda>z. ztext z \<noteq> ztext y"] I(4) f by (simp add: zs1_def)
    have sub: "set ys \<subseteq> set xs" unfolding f [symmetric] by auto
    have lv: "get_at (levels (zsl_node xs r)) 0 = Some (link xs 0 (Suc r))"
      using zsl_repD(5) [OF I(1)] nth_mem [OF r] by (auto simp: zsl_node_def)
    have fw: "forward (link xs 0 (Suc r)) = (if r < length ys then Some (ad (ys ! r)) else None)"
      using next_rep(2) [OF I(1), of "Suc r"] r ry by (auto simp: ys_def nth_append)
    have up: "updates hdr xs r n = updates hdr ys r n" unfolding xs by (rule updates_ins [OF ry(1)])
    have step: "delete_while cond env (updates hdr xs r n) (Some (ad y)) t rm zs =
        delete_while cond env (updates hdr ys r n) (if r < length ys then Some (ad (ys ! r)) else None) (t + 1) (rm + 1) zs1"
      using nd True lv h(1) d(1) up Suc.prems(4) fw by (subst delete_while.simps) (simp add: zs1_def zsl_node_def y_def)
    define k where "k = run_del Q (t + 1) (drop r ys)"
    have drop: "drop r ys = drop (Suc r) xs" "take r ys = take r xs" using r by (auto simp: ys_def)
    have c: "cond t' (zsl_node zs' q) = Some (Q t' (zs' ! q))" if "q < length zs'" "set zs' \<subseteq> set ys" for zs' q t'
      using Suc.prems(5) [OF that(1)] that(2) sub by blast
    have h1: "zlevel (zs_zsl zs1) \<le> n" "zheader (zs_zsl zs1) = hdr" using h(3,4) Suc.prems(3,4) by (simp_all add: zs1_def)
    obtain zs' where IH: "delete_while cond env (updates hdr ys r n) (if r < length ys then Some (ad (ys ! r)) else None) (t + 1) (rm + 1) zs1 =
        Some (rm + 1 + of_nat k, zs')" "zset_inv seed zs' (take r ys @ drop (r + k) ys)"
      using Suc.hyps(1) [OF ry(2) [symmetric] inv ry(1) h1 c, of "t + 1" "rm + 1"] unfolding k_def by blast
    have "drop (r + k) ys = drop (r + Suc k) xs" using drop(1) by (metis add.commute add_Suc_right drop_drop add_Suc)
    moreover have "run_del Q t (drop r xs) = Suc k" using dr True drop(1) by (simp add: k_def)
    ultimately show ?thesis using IH step r drop(2) by (simp add: y_def [symmetric] add_ac)
  qed
qed

section \<open>The items in a range\<close>

lemma range_split:
  assumes g: "\<And>p q. p < q \<Longrightarrow> q < length xs \<Longrightarrow> G (xs ! p) \<Longrightarrow> G (xs ! q)"
    and l: "\<And>p q. p < q \<Longrightarrow> q < length xs \<Longrightarrow> L (xs ! q) \<Longrightarrow> L (xs ! p)"
    and a: "a = pre_len (\<lambda>x. \<not> G x) xs" and m: "m = length (takeWhile L (drop a xs))"
  shows "filter (\<lambda>x. G x \<and> L x) xs = take m (drop a xs)" "filter (\<lambda>x. \<not> (G x \<and> L x)) xs = take a xs @ drop (a + m) xs"
    "length (filter (\<lambda>x. G x \<and> L x) xs) = m"
proof -
  have al: "a \<le> length xs" unfolding a by (rule pre_len_le)
  have G: "G (xs ! q) \<longleftrightarrow> a \<le> q" if "q < length xs" for q
  proof -
    have "\<not> G (xs ! q) \<longleftrightarrow> q < a" unfolding a by (rule pre_len_iff [where P = "\<lambda>x. \<not> G x", OF _ that]) (use g in blast)
    then show ?thesis by auto
  qed
  have t: "takeWhile L (drop a xs) = take m (drop a xs)" unfolding m by (rule takeWhile_eq_take)
  have ml: "m \<le> length xs - a" using length_takeWhile_le [of L "drop a xs"] by (simp add: m)
  have xs: "xs = take a xs @ take m (drop a xs) @ drop (a + m) xs"
    by (metis append_take_drop_id drop_drop add.commute)
  have 1: "\<not> G x" if "x \<in> set (take a xs)" for x using that G al by (auto simp: in_set_conv_nth)
  have 2: "G x \<and> L x" if x: "x \<in> set (take m (drop a xs))" for x
  proof
    show "L x" using x set_takeWhileD unfolding t [symmetric] by metis
    have "x \<in> set (drop a xs)" using x by (rule in_set_takeD)
    then show "G x" using G by (auto simp: in_set_conv_nth)
  qed
  have 3: "\<not> L x" if x: "x \<in> set (drop (a + m) xs)" for x
  proof
    obtain q where "q < length xs - (a + m)" "x = xs ! (a + m + q)" using x by (auto simp: in_set_conv_nth)
    then have q: "a + m + q < length xs" "x = xs ! (a + m + q)" by simp_all
    assume "L x"
    then have "L (xs ! (a + m))" using l [of "a + m" "a + m + q"] q by (cases "q = 0") auto
    moreover have "length (takeWhile L (drop a xs)) < length (drop a xs)" using q(1) by (simp add: m [symmetric])
    ultimately show False using nth_length_takeWhile [of L "drop a xs"] q(1) by (simp add: m [symmetric])
  qed
  have f: "filter P xs = filter P (take a xs) @ filter P (take m (drop a xs)) @ filter P (drop (a + m) xs)" for P
    by (metis xs filter_append)
  show F: "filter (\<lambda>x. G x \<and> L x) xs = take m (drop a xs)"
    unfolding f [of "\<lambda>x. G x \<and> L x"] using 1 2 3 by (simp add: filter_empty_conv filter_id_conv)
  show "filter (\<lambda>x. \<not> (G x \<and> L x)) xs = take a xs @ drop (a + m) xs"
    unfolding f [of "\<lambda>x. \<not> (G x \<and> L x)"] using 1 2 3 by (simp add: filter_empty_conv filter_id_conv)
  show "length (filter (\<lambda>x. G x \<and> L x) xs) = m" unfolding F using ml by simp
qed

lemma then_shrink_rel:
  assumes "r = Some (k, zs)" "zset_inv seed zs xs" "length xs \<le> MAX_ENTRIES"
  shows "\<exists>zs'. then_shrink env r = Some (k, zs') \<and> zset_inv seed zs' xs"
proof -
  obtain d where "shrink_dict env (zs_dict zs) = Some d" "zset_inv seed (zs\<lparr>zs_dict := d\<rparr>) xs" by (rule shrink_rel [OF assms(2,3)])
  then show ?thesis using assms(1) by (simp add: then_shrink_def)
qed

section \<open>Deletions\<close>

lemma delete_range_rel:
  assumes inv: "zset_inv seed zs xs"
    and gte: "\<And>q. q < length xs \<Longrightarrow> nogte (zsl_node xs q) = Some (\<not> G (xs ! q))"
    and lte: "\<And>ys q. q < length ys \<Longrightarrow> set ys \<subseteq> set xs \<Longrightarrow> lte (zsl_node ys q) = Some (L (ys ! q))"
    and g: "\<And>p q. p < q \<Longrightarrow> q < length xs \<Longrightarrow> G (xs ! p) \<Longrightarrow> G (xs ! q)"
    and l: "\<And>p q. p < q \<Longrightarrow> q < length xs \<Longrightarrow> L (xs ! q) \<Longrightarrow> L (xs ! p)"
  shows "\<exists>zs'. do {
      (update, _, x) \<leftarrow> descend (\<lambda>_ _ nd. nogte nd) (zs_heap zs) (zlevel (zs_zsl zs)) (zheader (zs_zsl zs)) (0 :: u32);
      lv \<leftarrow> level_at (zs_heap zs) x 0;
      delete_while (\<lambda>_ nd. lte nd) env update (forward lv) 0 0 zs } = Some (of_nat (length (filter (\<lambda>x. G x \<and> L x) xs)), zs')
    \<and> zset_inv seed zs' (filter (\<lambda>x. \<not> (G x \<and> L x)) xs)"
proof -
  note I = zset_invD [OF inv]
  let ?hdr = "zheader (zs_zsl zs)"
  define a where "a = pre_len (\<lambda>x. \<not> G x) xs"
  define m where "m = length (takeWhile L (drop a xs))"
  have ng: "\<not> G (xs ! p)" if "p < q" "q < length xs" "\<not> G (xs ! q)" for p q using g [OF that(1,2)] that(3) by blast
  obtain rs where d: "descend (\<lambda>_ _ nd. nogte nd) (zs_heap zs) (zlevel (zs_zsl zs)) ?hdr (0 :: u32) =
      Some (updates ?hdr xs a (zlevel (zs_zsl zs)), rs, ad_at ?hdr xs a)"
    by (rule descend_search [where c = nogte and P = "\<lambda>x. \<not> G x", OF I(1) gte ng, folded a_def])
  have al: "a \<le> length xs" unfolding a_def by (rule pre_len_le)
  have "run_del (\<lambda>_. L) 0 (drop a xs) = m" by (simp add: run_del_const m_def)
  then obtain zs' where "delete_while (\<lambda>_ nd. lte nd) env (updates ?hdr xs a (zlevel (zs_zsl zs))) (if a < length xs then Some (ad (xs ! a)) else None) 0 0 zs =
      Some (of_nat m, zs')" "zset_inv seed zs' (take a xs @ drop (a + m) xs)"
    using delete_while_rel [OF inv al order_refl refl, of "\<lambda>_ nd. lte nd" "\<lambda>_. L" env 0 0] lte by auto
  then show ?thesis using d next_rep [OF I(1) al] range_split [OF g l a_def m_def] by simp
qed

lemma zslDeleteRangeByScore_rel:
  assumes inv: "zset_inv seed zs xs"
  shows "\<exists>zs'. zslDeleteRangeByScore env spec zs =
      Some (of_nat (length (filter (\<lambda>x. zslValueGteMin (sc x) spec \<and> zslValueLteMax (sc x) spec) xs)), zs')
    \<and> zset_inv seed zs' (filter (\<lambda>x. \<not> (zslValueGteMin (sc x) spec \<and> zslValueLteMax (sc x) spec)) xs)"
  unfolding zslDeleteRangeByScore_def
  by (rule delete_range_rel [OF inv])
     (use score_range.gte_up [OF zset_invD(2) [OF inv], of _ _ spec] score_range.lte_down [OF zset_invD(2) [OF inv], of _ _ spec]
      in \<open>auto simp: zsl_node_def zslValueGteMin_def zslValueLteMax_def\<close>)

lemma zslDeleteRangeByLex_rel:
  assumes inv: "zset_inv seed zs xs" and lex: "lex_sorted spec xs"
  shows "\<exists>zs'. zslDeleteRangeByLex env spec zs =
      Some (of_nat (length (filter (\<lambda>x. lex_above spec (ztext x) \<and> lex_below spec (ztext x)) xs)), zs')
    \<and> zset_inv seed zs' (filter (\<lambda>x. \<not> (lex_above spec (ztext x) \<and> lex_below spec (ztext x))) xs)"
  unfolding zslDeleteRangeByLex_def
proof (rule delete_range_rel [OF inv])
  show "map_option Not (lex_gte spec (zsl_node xs q)) = Some (\<not> lex_above spec (ztext (xs ! q)))" if "q < length xs" for q
    using lex_range.gte [OF lex that] by simp
  show "lex_lte spec (zsl_node ys q) = Some (lex_below spec (ztext (ys ! q)))" if "q < length ys" "set ys \<subseteq> set xs" for ys q
  proof -
    have "ys ! q \<in> set xs" using that nth_mem by blast
    then have "lex_spec_ok spec" "length (ztext (ys ! q)) < 2 ^ 31" using lex unfolding lex_sorted_def zsl_sorted_def by blast+
    from lex_values(2) [OF this] show ?thesis by (simp add: zsl_node_def)
  qed
qed (use lex_range.gte_up [OF lex] lex_range.lte_down [OF lex] in blast)+

lemma zslDeleteRangeByRank_rel:
  assumes inv: "zset_inv seed zs xs" and ij: "i \<le> j" "j < length xs"
  shows "\<exists>zs'. zslDeleteRangeByRank env (of_nat (i + 1)) (of_nat (j + 1)) zs = Some (of_nat (j + 1 - i), zs')
    \<and> zset_inv seed zs' (take i xs @ drop (j + 1) xs)"
proof -
  note I = zset_invD [OF inv]
  let ?hdr = "zheader (zs_zsl zs)" and ?n = "zlevel (zs_zsl zs)"
  have len: "length xs < 2 ^ 32" by (rule zlength_rel(3) [OF inv])
  have il: "i \<le> length xs" using ij by simp
  have u: "ucast (of_nat (i + 1) :: u32) = (of_nat (i + 1) :: u64)" "ucast (of_nat (j + 1) :: u32) = (of_nat (j + 1) :: u64)"
    by (rule ucast_span, use ij len in simp)+
  have c: "cond_upto (\<lambda>t sp nd. Some (t + ucast sp < (of_nat (i + 1) :: u64))) xs i"
    unfolding cond_upto_def
  proof (intro allI impI)
    fix p q assume a: "p \<le> q \<and> q < length xs"
    have "q + 1 - p \<le> length xs" using a by arith
    then have k: "q + 1 - p < 2 ^ 32" "p + (q + 1 - p) = q + 1" using a le_less_trans [OF _ len, of "q + 1 - p"] by simp_all
    have s: "of_nat p + ucast (of_nat (q + 1 - p) :: u32) = (of_nat (q + 1) :: u64)"
      unfolding ucast_span [OF k(1)] of_nat_add [symmetric] k(2) ..
    have "(of_nat (q + 1) :: u64) < of_nat (i + 1) \<longleftrightarrow> q < i"
      using a len il by (simp add: word_less_nat_alt unsigned_of_nat take_bit_nat_eq_self del: of_nat_Suc of_nat_add)
    then show "Some (of_nat p + ucast (of_nat (q + 1 - p) :: u32) < (of_nat (i + 1) :: u64)) = Some (q < i)" unfolding s by simp
  qed
  have n: "1 \<le> ?n" "?n \<le> ZSKIPLIST_MAXLEVEL" using zsl_repD(1,2) [OF I(1)] by simp_all
  have d: "descend (\<lambda>t sp nd. Some (t + ucast sp < (of_nat (i + 1) :: u64))) (zs_heap zs) ?n ?hdr 0 =
      Some (updates ?hdr xs i ?n, map (\<lambda>k. of_nat (prv xs k i)) [0..<?n], ad_at ?hdr xs i)"
    using descend_rep [OF I(1) c il order_refl, of 0] n by (simp add: ad_at_def [of _ _ 0] ht_at_def updates_def)
  have r0: "get_at (map (\<lambda>k. of_nat (prv xs k i) :: u64) [0..<?n]) 0 = Some (of_nat i)"
    using n prv_0 [OF zsl_repD(5) [OF I(1)] il] by simp
  have "run_del (\<lambda>t _. t \<le> of_nat (j + 1)) (of_nat (i + 1)) (drop i xs) = min (length (drop i xs)) (j + 1 + 1 - (i + 1))"
    by (rule run_del_upto) (use ij len in simp_all)
  then have m: "run_del (\<lambda>t _. t \<le> of_nat (j + 1)) (of_nat i + 1) (drop i xs) = j + 1 - i" using ij by (simp add: add.commute)
  have ij1: "i + (j + 1 - i) = j + 1" using ij by simp
  obtain zs' where "delete_while (\<lambda>t nd. Some (t \<le> of_nat (j + 1))) env (updates ?hdr xs i ?n) (if i < length xs then Some (ad (xs ! i)) else None) (of_nat i + 1) 0 zs =
      Some (of_nat (j + 1 - i), zs')" "zset_inv seed zs' (take i xs @ drop (j + 1) xs)"
    using delete_while_rel [OF inv il order_refl refl, of "\<lambda>t nd. Some (t \<le> of_nat (j + 1))" "\<lambda>t _. t \<le> of_nat (j + 1)" env "of_nat i + 1" 0]
    unfolding m ij1 by auto
  then show ?thesis using d r0 next_rep [OF I(1) il] unfolding zslDeleteRangeByRank_def u by (simp del: of_nat_Suc of_nat_add)
qed

section \<open>The specification\<close>

definition in_range :: "'s::linorder zrangespec \<Rightarrow> 's \<times> byte list \<Rightarrow> bool" where
  "in_range spec k \<longleftrightarrow> zslValueGteMin (fst k) spec \<and> zslValueLteMax (fst k) spec"

lemma in_range_zkey: "in_range spec (zkey x) \<longleftrightarrow> zslValueGteMin (sc x) spec \<and> zslValueLteMax (sc x) spec"
  by (simp add: in_range_def zkey_def)

lemma filter_map_zkey: "filter P (map zkey xs) = map zkey (filter (\<lambda>x. P (zkey x)) xs)"
  by (simp add: filter_map comp_def)

lemma zremrange_score_rel:
  assumes rel: "zset_rel (ze_seed env) zs A" and room: "length A \<le> MAX_ENTRIES"
  shows "\<exists>zs'. zremrange_score env spec zs = Some (of_nat (length (filter (in_range spec) A)), zs')
    \<and> zset_rel (ze_seed env) zs' (filter (\<lambda>k. \<not> in_range spec k) A)"
proof -
  obtain xs where inv: "zset_inv (ze_seed env) zs xs" and A: "A = map zkey xs" using rel by (auto simp: zset_rel_def)
  define ys where "ys = filter (\<lambda>x. \<not> (zslValueGteMin (sc x) spec \<and> zslValueLteMax (sc x) spec)) xs"
  obtain zs' where z: "zslDeleteRangeByScore (ze_dict env) spec zs = Some (of_nat (length (filter (in_range spec) A)), zs')" "zset_inv (ze_seed env) zs' ys"
    using zslDeleteRangeByScore_rel [OF inv, of "ze_dict env" spec] by (auto simp: A filter_map_zkey in_range_zkey ys_def)
  have "length ys \<le> MAX_ENTRIES" using room A le_trans [OF length_filter_le] by (simp add: ys_def)
  from then_shrink_rel [OF z this, of "ze_dict env"] show ?thesis
    using zset_relI by (auto simp: zremrange_score_def A filter_map_zkey in_range_zkey ys_def)
qed

text \<open>The ends of a range of positions, counted from the end when negative.\<close>

lemma clip_range_bounds: "clip_range n s e = Some (i, j) \<Longrightarrow> 0 \<le> i \<and> i \<le> j \<and> j < n"
  by (auto simp: clip_range_def Let_def split: if_splits)

lemma zremrange_rank_rel:
  assumes rel: "zset_rel (ze_seed env) zs A" and room: "length A \<le> MAX_ENTRIES"
  shows "\<exists>zs'. zremrange_rank env s e zs = Some (case clip_range (int (length A)) s e of None \<Rightarrow> 0 | Some (i, j) \<Rightarrow> of_nat (nat j + 1 - nat i), zs')
    \<and> zset_rel (ze_seed env) zs' (case clip_range (int (length A)) s e of None \<Rightarrow> A | Some (i, j) \<Rightarrow> take (nat i) A @ drop (nat j + 1) A)"
proof -
  obtain xs where inv: "zset_inv (ze_seed env) zs xs" and A: "A = map zkey xs" using rel by (auto simp: zset_rel_def)
  have len: "uint (zsetLength zs) = int (length A)" using zlength_rel(2,3) [OF inv] A by (simp add: unsigned_of_nat take_bit_nat_eq_self)
  show ?thesis
  proof (cases "clip_range (int (length A)) s e")
    case None
    then show ?thesis using rel len by (simp add: zremrange_rank_def)
  next
    case (Some ij)
    obtain i j where ij: "ij = (i, j)" by (cases ij)
    have b: "0 \<le> i" "i \<le> j" "j < int (length A)" using clip_range_bounds Some ij by auto
    have c: "cast_int i = i" "cast_int j = j" using b room by (auto intro!: cast_int_id)
    have w: "word_of_int (i + 1) = (of_nat (nat i + 1) :: u32)" "word_of_int (j + 1) = (of_nat (nat j + 1) :: u32)" using b by simp_all
    have n: "nat i \<le> nat j" "nat j < length xs" using b A by simp_all
    define ys where "ys = take (nat i) xs @ drop (nat j + 1) xs"
    obtain zs' where z: "zslDeleteRangeByRank (ze_dict env) (of_nat (nat i + 1)) (of_nat (nat j + 1)) zs = Some (of_nat (nat j + 1 - nat i), zs')"
      "zset_inv (ze_seed env) zs' ys" using zslDeleteRangeByRank_rel [OF inv n, of "ze_dict env"] by (auto simp: ys_def)
    have "length ys \<le> MAX_ENTRIES" using room A n by (simp add: ys_def min_def)
    from then_shrink_rel [OF z this, of "ze_dict env"] obtain zs2 where z2:
      "then_shrink (ze_dict env) (zslDeleteRangeByRank (ze_dict env) (of_nat (nat i + 1)) (of_nat (nat j + 1)) zs) = Some (of_nat (nat j + 1 - nat i), zs2)"
      "zset_inv (ze_seed env) zs2 ys" by blast
    have "zset_rel (ze_seed env) zs2 (take (nat i) A @ drop (nat j + 1) A)" using zset_relI [OF z2(2)] by (simp add: ys_def A take_map drop_map)
    then show ?thesis using z2(1) Some ij len c w by (simp add: zremrange_rank_def del: of_nat_Suc of_nat_add)
  qed
qed

section \<open>Counting\<close>

lemma node_rank_rel:
  assumes inv: "zset_inv seed zs xs" and q: "q < length xs"
  shows "node_rank zs (ad (xs ! q)) = Some (of_nat (q + 1))"
proof -
  note I = zset_invD [OF inv]
  have "length (ztext (xs ! q)) < 2 ^ 31" using I(2) q by (simp add: zsl_sorted_def)
  then have "zslGetRank (zs_heap zs) (zs_zsl zs) (sc (xs ! q)) (ob (xs ! q)) = Some (of_nat (q + 1))"
    by (rule zslGetRank_rep(1) [OF I(1,2) _ I(3) q]) (simp add: zkey_def)
  then show ?thesis using zsl_repD(7) [OF I(1) q] by (simp add: node_rank_def zsl_node_def)
qed

lemma count_cast:
  assumes "b \<le> n" "n \<le> MAX_ENTRIES"
  shows "cast_int (uint (of_nat n - of_nat b :: u64)) = int n - int b"
proof -
  have "of_nat n - of_nat b = (of_nat (n - b) :: u64)" using assms(1) by (simp add: of_nat_diff)
  then have "uint (of_nat n - of_nat b :: u64) = int (n - b)" using assms by (simp add: unsigned_of_nat take_bit_nat_eq_self del: of_nat_diff)
  then show ?thesis using assms by (simp add: cast_int_id)
qed

lemma zset_count_rel:
  assumes rel: "zset_rel seed zs A" and room: "length A \<le> MAX_ENTRIES"
  shows "zset_count spec zs = Some (int (length (filter (in_range spec) A)))"
proof -
  obtain xs where inv: "zset_inv seed zs xs" and A: "A = map zkey xs" using rel by (auto simp: zset_rel_def)
  note I = zset_invD [OF inv]
  let ?G = "\<lambda>x. zslValueGteMin (sc x) spec" and ?L = "\<lambda>x. zslValueLteMax (sc x) spec"
  note g = score_range.gte_up [OF I(2), of _ _ spec] and l = score_range.lte_down [OF I(2), of _ _ spec]
  define a where "a = pre_len (\<lambda>x. \<not> ?G x) xs"
  define k where "k = pre_len ?L xs"
  have F: "filter (in_range spec) A = map zkey (filter (\<lambda>x. ?G x \<and> ?L x) xs)" by (simp add: A filter_map_zkey in_range_zkey)
  have first: "zslFirstInRange (zs_heap zs) (zs_zsl zs) spec = Some (map_option ad (find (\<lambda>x. ?G x \<and> ?L x) xs))"
    unfolding zslFirstInRange_def by (rule score_range.first_in [OF I(1,2)])
  have last: "zslLastInRange (zs_heap zs) (zs_zsl zs) spec = Some (map_option ad (find (\<lambda>x. ?G x \<and> ?L x) (rev xs)))"
    unfolding zslLastInRange_def by (rule score_range.last_in [OF I(1,2)])
  have ff: "find (\<lambda>x. ?G x \<and> ?L x) xs = (if a < length xs \<and> ?L (xs ! a) then Some (xs ! a) else None)"
    using find_first [of xs ?G ?L] g l unfolding a_def Let_def by blast
  show ?thesis
  proof (cases "a < length xs \<and> ?L (xs ! a)")
    case False
    then have n: "find (\<lambda>x. ?G x \<and> ?L x) xs = None" using ff by argo
    then have "filter (\<lambda>x. ?G x \<and> ?L x) xs = []" unfolding find_None_iff filter_empty_conv by blast
    then show ?thesis using first n F by (simp add: zset_count_def)
  next
    case True
    have L: "?L (xs ! q) \<longleftrightarrow> q < k" if "q < length xs" for q unfolding k_def by (rule pre_len_iff [where P = ?L, OF l that])
    have ak: "a < k" "k \<le> length xs" using True L pre_len_le [of ?L xs] by (auto simp: k_def)
    have G: "?G (xs ! (k - 1))"
    proof -
      have "\<not> ?G (xs ! (k - 1)) \<longleftrightarrow> k - 1 < a" unfolding a_def
        by (rule pre_len_iff [where P = "\<lambda>x. \<not> ?G x"]) (use g ak in \<open>blast, simp\<close>)
      then show ?thesis using ak by linarith
    qed
    have fl: "find (\<lambda>x. ?G x \<and> ?L x) (rev xs) = Some (xs ! (k - 1))"
      using find_last [of xs ?G ?L] g l G ak unfolding k_def [symmetric] Let_def by simp
    have r: "node_rank zs (ad (xs ! a)) = Some (of_nat (a + 1))" "node_rank zs (ad (xs ! (k - 1))) = Some (of_nat k)"
      using node_rank_rel [OF inv, of a] node_rank_rel [OF inv, of "k - 1"] ak by simp_all
    have "takeWhile ?L (drop a xs) = take (k - a) (drop a xs)"
      by (rule takeWhile_eq_take_P_nth) (use L ak in auto)
    then have m: "length (takeWhile ?L (drop a xs)) = k - a" using ak by simp
    have cnt: "length (filter (\<lambda>x. ?G x \<and> ?L x) xs) = k - a" using range_split(3) [where G = ?G and L = ?L, OF g l a_def m [symmetric]] .
    have room': "length xs \<le> MAX_ENTRIES" using room A by simp
    have c: "cast_int (uint (zlength (zs_zsl zs) - (of_nat (a + 1) - 1))) = int (length xs) - int a"
      "cast_int (uint (zlength (zs_zsl zs) - of_nat k)) = int (length xs) - int k"
      using count_cast [OF _ room', of a] count_cast [OF ak(2) room'] ak zlength_rel(1) [OF inv] by simp_all
    have "zset_count spec zs = Some (cast_int (uint (zlength (zs_zsl zs) - (of_nat (a + 1) - 1))) - cast_int (uint (zlength (zs_zsl zs) - of_nat k)))"
      using first last ff True fl r by (simp add: zset_count_def)
    then show ?thesis unfolding c using F cnt ak by simp
  qed
qed

section \<open>Walking\<close>

lemma walk_forward:
  assumes rep: "zsl_rep h zsl xs" and "i + n \<le> length xs"
  shows "range_walk False h n (if i < length xs then Some (ad (xs ! i)) else None) = Some (map (\<lambda>x. (sc x, ob x)) (take n (drop i xs)))"
  using assms(2)
proof (induction n arbitrary: i)
  case (Suc n)
  then have i: "i < length xs" by simp
  have nd: "h (ad (xs ! i)) = Some (zsl_node xs i)" by (rule zsl_repD(7) [OF rep i])
  have lv: "get_at (levels (zsl_node xs i)) 0 = Some (link xs 0 (Suc i))" using zsl_repD(5) [OF rep] nth_mem [OF i] by (auto simp: zsl_node_def)
  have fw: "forward (link xs 0 (Suc i)) = (if Suc i < length xs then Some (ad (xs ! Suc i)) else None)" using next_rep(2) [OF rep, of "Suc i"] i by simp
  have IH: "range_walk False h n (if Suc i < length xs then Some (ad (xs ! Suc i)) else None) = Some (map (\<lambda>x. (sc x, ob x)) (take n (drop (Suc i) xs)))"
    using Suc.IH [of "Suc i"] Suc.prems by simp
  have "drop i xs = xs ! i # drop (Suc i) xs" using i by (simp add: Cons_nth_drop_Suc)
  then show ?case using i nd lv fw IH by (simp add: zsl_node_def del: split_paired_all)
qed simp

lemma walk_backward:
  assumes rep: "zsl_rep h zsl xs" and "n \<le> p" "p \<le> length xs"
  shows "range_walk True h n (back_of xs p) = Some (map (\<lambda>x. (sc x, ob x)) (take n (rev (take p xs))))"
  using assms(2,3)
proof (induction n arbitrary: p)
  case (Suc n)
  then obtain q where p: "p = Suc q" by (cases p) auto
  then have q: "q < length xs" using Suc.prems by simp
  have nd: "h (ad (xs ! q)) = Some (zsl_node xs q)" by (rule zsl_repD(7) [OF rep q])
  have "range_walk True h n (back_of xs q) = Some (map (\<lambda>x. (sc x, ob x)) (take n (rev (take q xs))))" using Suc p by simp
  then show ?case using nd p q by (simp add: back_of_def zsl_node_def take_Suc_conv_app_nth)
qed simp

lemma zset_range_rel:
  assumes rel: "zset_rel seed zs A" and room: "length A \<le> MAX_ENTRIES"
  shows "\<exists>obs. zset_range reverse s e zs = Some obs
    \<and> map (\<lambda>(s, x). (s, getDecodedObject x)) obs =
      (case clip_range (int (length A)) s e of None \<Rightarrow> []
       | Some (i, j) \<Rightarrow> take (nat j + 1 - nat i) (drop (nat i) (if reverse then rev A else A)))"
proof -
  obtain xs where inv: "zset_inv seed zs xs" and A: "A = map zkey xs" using rel by (auto simp: zset_rel_def)
  note I = zset_invD [OF inv]
  have room': "length xs \<le> MAX_ENTRIES" using room A by simp
  have len: "sint (zsetLength zs) = int (length xs)"
    using zlength_rel(2) [OF inv] room' by (simp add: signed_of_nat signed_take_bit_int_eq_self)
  show ?thesis
  proof (cases "clip_range (int (length xs)) s e")
    case None
    then show ?thesis using len A by (simp add: zset_range_def)
  next
    case (Some ij)
    obtain i j where ij: "ij = (i, j)" by (cases ij)
    have b: "0 \<le> i" "i \<le> j" "j < int (length xs)" using clip_range_bounds Some ij by auto
    define n where "n = nat j + 1 - nat i"
    have c: "nat (cast_int (j - i) + 1) = n" using b room' cast_int_id [of "j - i"] by (simp add: n_def nat_add_distrib nat_diff_distrib)
    have k: "nat i + n \<le> length xs" "nat i < length xs" using b by (simp_all add: n_def)
    define start where "start = (if reverse then back_of xs (length xs - nat i) else Some (ad (xs ! nat i)))"
    have st: "(if i > 0 then zslGetElementByRank (zs_heap zs) (zs_zsl zs) (word_of_int (if reverse then int (length xs) - i else i + 1))
               else if reverse then Some (ztail (zs_zsl zs))
               else map_option forward (level_at (zs_heap zs) (zheader (zs_zsl zs)) 0)) = Some start"
    proof (cases "i > 0")
      case True
      define p where "p = (if reverse then length xs - nat i else nat i + 1)"
      have w: "word_of_int (if reverse then int (length xs) - i else i + 1) = (of_nat p :: u64)"
        using b by (auto simp: p_def nat_add_distrib of_nat_diff)
      have "unat (of_nat p :: u64) = p" "p \<le> length xs" "p \<noteq> 0" using b k room' by (auto simp: p_def unsigned_of_nat take_bit_nat_eq_self)
      then have "zslGetElementByRank (zs_heap zs) (zs_zsl zs) (of_nat p) = Some (Some (ad (xs ! (p - 1))))"
        using zslGetElementByRank_rep [OF I(1), of "of_nat p"] by (simp add: ad_at_def)
      then show ?thesis using True w b k by (auto simp: start_def p_def back_of_def)
    next
      case False
      then show ?thesis using b next_rep [OF I(1), of 0] zsl_repD(8) [OF I(1)] k by (auto simp: start_def back_of_def ad_at_def last_conv_nth)
    qed
    have "range_walk reverse (zs_heap zs) n start = Some (map (\<lambda>x. (sc x, ob x)) (take n (drop (nat i) (if reverse then rev xs else xs))))"
    proof (cases reverse)
      case True
      then show ?thesis using walk_backward [OF I(1), of n "length xs - nat i"] k b by (simp add: start_def n_def drop_rev)
    next
      case False
      then show ?thesis using walk_forward [OF I(1) k(1)] k(2) by (simp add: start_def)
    qed
    then have "zset_range reverse s e zs = Some (map (\<lambda>x. (sc x, ob x)) (take n (drop (nat i) (if reverse then rev xs else xs))))"
      using Some ij len st c by (simp add: zset_range_def)
    moreover have "map ((\<lambda>(s, x). (s, getDecodedObject x)) \<circ> (\<lambda>x. (sc x, ob x))) ys = map zkey ys" for ys :: "'a zitem list"
      by (simp add: zkey_def split_beta)
    ultimately show ?thesis using Some ij A by (simp add: n_def take_map drop_map rev_map)
  qed
qed

end
