(* ===== verification/Sorted_Set_Calls.thy ===== *)
theory Sorted_Set_Calls
  imports Sorted_Set_Range
begin

text \<open>
  Sequences of calls on a sorted set give the answers of a sorted list of pairs of a score and
  a text.
\<close>

section \<open>Calls\<close>

datatype 's zset_op =
    ZAdd "nat \<Rightarrow> nat" bool bool bool 's str_obj
  | ZRem str_obj
  | ZScore str_obj
  | ZRank bool str_obj
  | ZCard
  | ZCount "'s zrangespec"
  | ZRemRangeByScore "'s zrangespec"
  | ZRemRangeByRank int int
  | ZRange bool int int

datatype 's zset_reply =
    AddReply "'s zadd_result" | FlagReply bool | ScoreReply "'s option" | RankReply "u64 option"
  | CardReply u32 | CountReply int | RemovedReply u64 | ListReply "('s \<times> byte list) list"

text \<open>The replies show the texts of the members.\<close>

fun zset_call :: "'s::linorder zset_env \<Rightarrow> 's zset_op \<Rightarrow> 's zset \<Rightarrow> ('s zset_reply \<times> 's zset) option" where
  "zset_call env (ZAdd rnd nx xx incr score ele) zs = map_option (apfst AddReply) (zset_add env rnd nx xx incr score ele zs)"
| "zset_call env (ZRem ele) zs = map_option (apfst FlagReply) (zset_rem env ele zs)"
| "zset_call env (ZScore ele) zs = map_option (apfst ScoreReply) (zset_score env ele zs)"
| "zset_call env (ZRank reverse ele) zs = map_option (apfst RankReply) (zset_rank env reverse ele zs)"
| "zset_call env ZCard zs = Some (CardReply (zsetLength zs), zs)"
| "zset_call env (ZCount spec) zs = map_option (\<lambda>n. (CountReply n, zs)) (zset_count spec zs)"
| "zset_call env (ZRemRangeByScore spec) zs = map_option (apfst RemovedReply) (zremrange_score env spec zs)"
| "zset_call env (ZRemRangeByRank s e) zs = map_option (apfst RemovedReply) (zremrange_rank env s e zs)"
| "zset_call env (ZRange reverse s e) zs =
     map_option (\<lambda>obs. (ListReply (map (\<lambda>(s, x). (s, getDecodedObject x)) obs), zs)) (zset_range reverse s e zs)"

text \<open>The specification on sorted lists.\<close>

definition zl_slice :: "int \<Rightarrow> int \<Rightarrow> 'a list \<Rightarrow> 'a list" where
  "zl_slice s e A = (case clip_range (int (length A)) s e of None \<Rightarrow> [] | Some (i, j) \<Rightarrow> take (nat j + 1 - nat i) (drop (nat i) A))"

definition zl_cut :: "int \<Rightarrow> int \<Rightarrow> 'a list \<Rightarrow> 'a list" where
  "zl_cut s e A = (case clip_range (int (length A)) s e of None \<Rightarrow> A | Some (i, j) \<Rightarrow> take (nat i) A @ drop (nat j + 1) A)"

fun zset_spec :: "('s::linorder \<Rightarrow> 's \<Rightarrow> 's option) \<Rightarrow> 's zset_op \<Rightarrow> ('s \<times> byte list) list \<Rightarrow> ('s zset_reply \<times> ('s \<times> byte list) list) option" where
  "zset_spec pl (ZAdd rnd nx xx incr score ele) A = Some (apfst AddReply (zl_add pl nx xx incr score (getDecodedObject ele) A))"
| "zset_spec pl (ZRem ele) A = Some (FlagReply (getDecodedObject ele \<in> snd ` set A), zl_del (getDecodedObject ele) A)"
| "zset_spec pl (ZScore ele) A = Some (ScoreReply (zl_get (getDecodedObject ele) A), A)"
| "zset_spec pl (ZRank reverse ele) A = Some (RankReply (if getDecodedObject ele \<in> snd ` set A
       then Some (of_nat (if reverse then length A - 1 - zl_pos (getDecodedObject ele) A else zl_pos (getDecodedObject ele) A)) else None), A)"
| "zset_spec pl ZCard A = Some (CardReply (of_nat (length A)), A)"
| "zset_spec pl (ZCount spec) A = Some (CountReply (int (length (filter (in_range spec) A))), A)"
| "zset_spec pl (ZRemRangeByScore spec) A = Some (RemovedReply (of_nat (length (filter (in_range spec) A))), filter (\<lambda>k. \<not> in_range spec k) A)"
| "zset_spec pl (ZRemRangeByRank s e) A = Some (RemovedReply (of_nat (length (zl_slice s e A))), zl_cut s e A)"
| "zset_spec pl (ZRange reverse s e) A = Some (ListReply (zl_slice s e (if reverse then rev A else A)), A)"

text \<open>What a call may assume: texts that the server admits, a draw of the level that ends, fresh addresses.\<close>

fun zop_ok :: "'s zset_env \<Rightarrow> 's zset_op \<Rightarrow> bool" where
  "zop_ok env (ZAdd rnd nx xx incr score ele) \<longleftrightarrow> alloc_ok env \<and> zslRandomLevel rnd \<noteq> None \<and> length (getDecodedObject ele) < 2 ^ 31"
| "zop_ok env (ZRank reverse ele) \<longleftrightarrow> length (getDecodedObject ele) < 2 ^ 31"
| "zop_ok env op \<longleftrightarrow> True"

lemma slice_length:
  "length (zl_slice s e A) = (case clip_range (int (length A)) s e of None \<Rightarrow> 0 | Some (i, j) \<Rightarrow> nat j + 1 - nat i)"
proof (cases "clip_range (int (length A)) s e")
  case (Some ij)
  obtain i j where ij: "ij = (i, j)" by (cases ij)
  then have "0 \<le> i" "i \<le> j" "j < int (length A)" using clip_range_bounds Some by auto
  then show ?thesis using Some ij by (simp add: zl_slice_def)
qed (simp add: zl_slice_def)

lemma length_zl_put: "length (zl_put k A) = length A + 1"
proof -
  have "length (takeWhile (\<lambda>k'. kless k' k) A @ dropWhile (\<lambda>k'. kless k' k) A) = length A" unfolding takeWhile_dropWhile_id ..
  then show ?thesis unfolding zl_put_def length_append by simp
qed

lemma length_zl_add: "length (snd (zl_add pl nx xx incr score t A)) \<le> length A + 1"
proof -
  have "length (zl_del t A) \<le> length A" unfolding zl_del_def by (rule length_filter_le)
  then show ?thesis by (auto simp: length_zl_put split: option.splits)
qed

lemma zl_cut_length: "length (zl_cut s e A) \<le> length A + 1"
  by (auto simp: zl_cut_def dest: clip_range_bounds split: option.splits)

interpretation zset_type: guarded_simulation "zset_call env" "zset_spec (ze_plus env)" "zset_rel (ze_seed env)" length MAX_ENTRIES "zop_ok env" for env :: "'s::linorder zset_env"
proof
  fix op and zs :: "'s zset" and A
  assume ok: "zop_ok env op" and rel: "zset_rel (ze_seed env) zs A" and room: "length A < MAX_ENTRIES"
  then have room': "length A \<le> MAX_ENTRIES" by simp
  show "case zset_spec (ze_plus env) op A of None \<Rightarrow> zset_call env op zs = None
      | Some (r, A') \<Rightarrow> \<exists>zs'. zset_call env op zs = Some (r, zs') \<and> zset_rel (ze_seed env) zs' A'"
  proof (cases op)
    case (ZAdd rnd nx xx incr score ele)
    then have z: "alloc_ok env" "length (getDecodedObject ele) < 2 ^ 31" "zslRandomLevel rnd \<noteq> None" using ok by simp_all
    obtain zs' where "zset_add env rnd nx xx incr score ele zs = Some (fst (zl_add (ze_plus env) nx xx incr score (getDecodedObject ele) A), zs')"
      "zset_rel (ze_seed env) zs' (snd (zl_add (ze_plus env) nx xx incr score (getDecodedObject ele) A))"
      using zset_add_rel [OF rel z(1) room z(2,3)] by blast
    then show ?thesis unfolding ZAdd by (simp add: apfst_def map_prod_def split_beta del: zl_add.simps)
  next
    case (ZRem ele)
    then show ?thesis using zset_rem_rel [OF rel room', of ele] by auto
  next
    case (ZScore ele)
    then show ?thesis using zset_score_rel [OF rel, of ele] by auto
  next
    case (ZRank reverse ele)
    then show ?thesis using zset_rank_rel [OF rel, of ele reverse] ok by auto
  next
    case ZCard
    obtain xs where "zset_inv (ze_seed env) zs xs" "A = map zkey xs" using rel by (auto simp: zset_rel_def)
    then show ?thesis using ZCard rel zlength_rel(2) by fastforce
  next
    case (ZCount spec)
    then show ?thesis using zset_count_rel [OF rel room', of spec] rel by simp
  next
    case (ZRemRangeByScore spec)
    then show ?thesis using zremrange_score_rel [OF rel room', of spec] by auto
  next
    case (ZRemRangeByRank s e)
    have n: "of_nat (length (zl_slice s e A)) = (case clip_range (int (length A)) s e of None \<Rightarrow> 0 | Some (i, j) \<Rightarrow> (of_nat (nat j + 1 - nat i) :: u64))"
      unfolding slice_length by (auto split: option.splits)
    show ?thesis using zremrange_rank_rel [OF rel room', of s e] unfolding ZRemRangeByRank zset_spec.simps n zl_cut_def by auto
  next
    case (ZRange reverse s e)
    show ?thesis using zset_range_rel [OF rel room', of reverse s e] rel unfolding ZRange by (cases reverse) (auto simp: zl_slice_def)
  qed
next
  fix zs :: "'s zset" and A op r A'
  assume "zset_spec (ze_plus env) op A = Some (r, A')"
  then show "length A' \<le> length A + 1"
    using length_filter_le [of _ A] zl_cut_length [of _ _ A] length_zl_add
    by (cases op) (auto simp: zl_del_def apfst_def map_prod_def split_beta le_SucI simp del: zl_add.simps)
qed

lemma createZset_rel:
  assumes "finite (dom h)"
  shows "zset_rel (ze_seed env) (createZsetObject env h) []"
proof -
  obtain h' zsl where c: "zslCreate (ze_mem env) (ze_alloc env h) 0 h = (h', zsl)" by (cases "zslCreate (ze_mem env) (ze_alloc env h) 0 h")
  note z = zslCreate_rep [OF c]
  have d: "dict_inv (zsetDictType (ze_seed env)) (dictCreate (zsetDictType (ze_seed env)) :: (str_obj, zaddr) dict)"
    "dict_map (dictCreate (zsetDictType (ze_seed env)) :: (str_obj, zaddr) dict) = Map.empty" by (rule zset_keys.create)+
  have "zset_inv (ze_seed env) (createZsetObject env h) []"
    using z assms c d by (simp add: createZsetObject_def zset_inv_def zdict_rel_def zsl_sorted_def zs_find_def)
  from zset_relI [OF this] show ?thesis by simp
qed

text \<open>
  C6: a sorted set created empty in its skip list encoding, under any sequence of fewer than
  \<open>2 ^ 30\<close> calls (ZADD with its options and ZINCRBY, ZREM, ZSCORE, ZRANK and ZREVRANK, ZCARD,
  ZCOUNT, ZREMRANGEBYSCORE, ZREMRANGEBYRANK, ZRANGE and ZREVRANGE), answers as a list of pairs
  of a score and a text, sorted by score and then by text: the skip list and the dictionary
  stay in step, the spans give the ranks, the backward pointers give the reverse order, no
  assertion fails and no access leaves a node, whatever the random levels are.
\<close>

theorem zset_refines_list:
  assumes "length ops \<le> MAX_ENTRIES" "\<forall>op \<in> set ops. zop_ok env op" "finite (dom h)"
  shows "\<exists>rs A zs. run_calls (zset_spec (ze_plus env)) ops [] = Some (rs, A)
    \<and> run_calls (zset_call env) ops (createZsetObject env h) = Some (rs, zs) \<and> zset_rel (ze_seed env) zs A"
proof -
  have total: "\<exists>rs A'. run_calls (zset_spec pl) ops A = Some (rs, A')" for pl ops and A :: "('a \<times> byte list) list"
  proof (induction ops arbitrary: A)
    case (Cons op ops)
    have "\<exists>r A1. zset_spec pl op A = Some (r, A1)" by (cases op) (simp_all add: apfst_def map_prod_def split_beta del: zl_add.simps)
    then obtain r A1 where "zset_spec pl op A = Some (r, A1)" by blast
    moreover obtain rs A2 where "run_calls (zset_spec pl) ops A1 = Some (rs, A2)" using Cons by blast
    ultimately show ?case by simp
  qed simp
  from zset_type.guarded_runs [OF createZset_rel [OF assms(3)] _ assms(2)] assms(1) total [of "ze_plus env" ops "[]"] show ?thesis by fastforce
qed

definition ex_zset_env :: "int zset_env" where
  "ex_zset_env = \<lparr>ze_seed = 5381, ze_dict = ex_env, ze_alloc = (\<lambda>h. Suc (Max (insert 0 (dom h)))),
     ze_mem = (Some 7, \<lambda>_. \<lparr>forward = Some 9, span = 3\<rparr>), ze_plus = (\<lambda>a b. Some (a + b)), ze_refs = 1\<rparr>"

lemma ex_alloc: "alloc_ok ex_zset_env"
proof -
  have "h (Suc (Max (insert 0 (dom h)))) = None" if "finite (dom h)" for h :: "int zheap"
  proof (rule ccontr)
    assume "h (Suc (Max (insert 0 (dom h)))) \<noteq> None"
    then have "Suc (Max (insert 0 (dom h))) \<le> Max (insert 0 (dom h))" using that by (intro Max_ge) auto
    then show False by simp
  qed
  then show ?thesis by (simp add: alloc_ok_def ex_zset_env_def)
qed

definition ex_zset_ops :: "int zset_op list" where
  "ex_zset_ops = [ZAdd ex_draws False False False 5 (SdsObj [98]), ZAdd ex_draws False False False 3 (SdsObj [97]),
     ZRank False (SdsObj [98]), ZAdd ex_draws False True True 4 (SdsObj [97]), ZRange True 0 (- 1), ZRem (SdsObj [98])]"

theorem zset_refines_list_witness:
  "\<exists>zs. run_calls (zset_call ex_zset_env) ex_zset_ops (createZsetObject ex_zset_env Map.empty) =
     Some ([AddReply (ZAdded 5), AddReply (ZAdded 3), RankReply (Some 1), AddReply (ZUpdated 7), ListReply [(7, [97]), (5, [98])], FlagReply True], zs)
   \<and> zset_rel 5381 zs [(7, [97])]"
proof -
  have ok: "\<forall>op \<in> set ex_zset_ops. zop_ok ex_zset_env op" using ex_alloc ex_level by (simp add: ex_zset_ops_def getDecodedObject_def)
  have "run_calls (zset_spec (ze_plus ex_zset_env)) ex_zset_ops [] =
      Some ([AddReply (ZAdded 5), AddReply (ZAdded 3), RankReply (Some 1), AddReply (ZUpdated 7), ListReply [(7, [97]), (5, [98])], FlagReply True], [(7, [97])])"
    by (simp add: ex_zset_ops_def ex_zset_env_def getDecodedObject_def zl_get_def zl_put_def zl_del_def zl_pos_def kless_def text_less_def zl_slice_def clip_range_def)
  then show ?thesis using zset_refines_list [of ex_zset_ops ex_zset_env Map.empty] ok by (simp add: ex_zset_ops_def ex_zset_env_def del: run_calls.simps)
qed

end
