(* ===== verification/Hash_Type.thy ===== *)
theory Hash_Type
  imports Ziplist_Delete Set_Type
begin

text \<open>
  The hash type of \<^verbatim>\<open>t_hash.c\<close>: a map from fields to values, kept as a list of packed entries in
  which fields and values alternate while it is small, and as a dictionary from then on. The
  part of a command that works on the hash is modelled; finding the hash in the key space,
  notifications and replies are not.
\<close>

section \<open>The two encodings\<close>

datatype hash_obj = HashZip mem | HashHT "(str_obj, str_obj) dict"

text \<open>
  What the code reads of the server: the seed of the hash function, the state of the
  dictionary module, the limits of the compact encoding; \<open>junk\<close> and \<open>he_fresh\<close> are the content of
  fresh memory, \<open>he_refs\<close> the number of references to the arguments of the command.
\<close>

record hash_env =
  he_seed :: u32
  he_dict :: dict_env
  hash_max_ziplist_entries :: nat
  hash_max_ziplist_value :: nat
  he_junk :: "nat \<Rightarrow> byte"
  he_fresh :: str_obj
  he_refs :: nat

definition createHashObject :: "hash_env \<Rightarrow> hash_obj option" where
  "createHashObject env = map_option HashZip (ziplistNew (he_junk env))"

section \<open>Lookup\<close>

text \<open>The place of a field in the list of packed entries.\<close>

definition zip_field :: "mem \<Rightarrow> str_obj \<Rightarrow> nat option option" where
  "zip_field zl field = do {
     fptr \<leftarrow> ziplistIndex zl 0;
     (case fptr of None \<Rightarrow> Some None | Some fptr \<Rightarrow> ziplistFind zl fptr (getDecodedObject field) 1) }"

definition hashTypeGetFromZiplist :: "mem \<Rightarrow> str_obj \<Rightarrow> zval option option" where
  "hashTypeGetFromZiplist zl field = do {
     fptr \<leftarrow> zip_field zl field;
     (case fptr of
        None \<Rightarrow> Some None
      | Some fptr \<Rightarrow> do {
          vptr \<leftarrow> ziplistNext zl fptr;
          vptr \<leftarrow> vptr;
          ret \<leftarrow> ziplistGet zl (Some vptr);
          v \<leftarrow> ret;
          Some (Some v) }) }"

definition hashTypeGetFromHashTable :: "hash_env \<Rightarrow> (str_obj, str_obj) dict \<Rightarrow> str_obj \<Rightarrow> (str_obj option \<times> (str_obj, str_obj) dict) option" where
  "hashTypeGetFromHashTable env d field = do {
     (de, d) \<leftarrow> dictFind (he_dict env) d field;
     (case de of
        None \<Rightarrow> Some (None, d)
      | Some ref \<Rightarrow> do { e \<leftarrow> entry_at d ref; Some (Some (snd e), d) }) }"

definition zval_obj :: "zval \<Rightarrow> str_obj" where
  "zval_obj v = (case v of ZStr s \<Rightarrow> SdsObj s | ZInt i \<Rightarrow> createStringObjectFromLongLong i)"

definition hashTypeGetObject :: "hash_env \<Rightarrow> hash_obj \<Rightarrow> str_obj \<Rightarrow> (str_obj option \<times> hash_obj) option" where
  "hashTypeGetObject env ob field =
     (case ob of
        HashZip zl \<Rightarrow> do { v \<leftarrow> hashTypeGetFromZiplist zl field; Some (map_option zval_obj v, ob) }
      | HashHT d \<Rightarrow> do { (v, d) \<leftarrow> hashTypeGetFromHashTable env d field; Some (v, HashHT d) })"

definition hashTypeExists :: "hash_env \<Rightarrow> hash_obj \<Rightarrow> str_obj \<Rightarrow> (bool \<times> hash_obj) option" where
  "hashTypeExists env ob field =
     (case ob of
        HashZip zl \<Rightarrow> do { v \<leftarrow> hashTypeGetFromZiplist zl field; Some (v \<noteq> None, ob) }
      | HashHT d \<Rightarrow> do { (v, d) \<leftarrow> hashTypeGetFromHashTable env d field; Some (v \<noteq> None, HashHT d) })"

definition hashTypeLength :: "hash_obj \<Rightarrow> (nat \<times> hash_obj) option" where
  "hashTypeLength ob =
     (case ob of
        HashZip zl \<Rightarrow> do { (n, zl) \<leftarrow> ziplistLen zl; Some (n div 2, HashZip zl) }
      | HashHT d \<Rightarrow> Some (dictSize d, ob))"

section \<open>Iteration and conversion\<close>

datatype hash_iter = ZipIter "nat option" "nat option" | DictIter "(str_obj, str_obj) dictIterator" "(str_obj \<times> str_obj) option"

definition hashTypeInitIterator :: "hash_obj \<Rightarrow> hash_iter" where
  "hashTypeInitIterator subject = (case subject of HashZip _ \<Rightarrow> ZipIter None None | HashHT d \<Rightarrow> DictIter (dictGetIterator d) None)"

definition hashTypeReleaseIterator :: "u64 \<Rightarrow> u64 \<Rightarrow> hash_obj \<Rightarrow> hash_iter \<Rightarrow> hash_obj option" where
  "hashTypeReleaseIterator a0 a1 subject hi =
     (case (hi, subject) of
        (DictIter di _, HashHT d) \<Rightarrow> map_option HashHT (dictReleaseIterator a0 a1 d di)
      | _ \<Rightarrow> Some subject)"

definition hashTypeNext :: "u64 \<Rightarrow> u64 \<Rightarrow> hash_obj \<Rightarrow> hash_iter \<Rightarrow> (bool \<times> hash_iter \<times> hash_obj) option" where
  "hashTypeNext a0 a1 subject hi =
     (case (hi, subject) of
        (ZipIter fptr vptr, HashZip zl) \<Rightarrow> do {
          fptr' \<leftarrow> (case fptr of
             None \<Rightarrow> if vptr \<noteq> None then None else ziplistIndex zl 0
           | Some _ \<Rightarrow> do { vptr \<leftarrow> vptr; ziplistNext zl vptr });
          (case fptr' of
             None \<Rightarrow> Some (False, hi, subject)
           | Some f \<Rightarrow> do {
               vptr' \<leftarrow> ziplistNext zl f;
               if vptr' = None then None else Some (True, ZipIter (Some f) vptr', subject) }) }
      | (DictIter di _, HashHT d) \<Rightarrow> do {
          (de, di, d) \<leftarrow> dictNext a0 a1 d di;
          Some (de \<noteq> None, DictIter di de, HashHT d) }
      | _ \<Rightarrow> None)"

definition hashTypeCurrentFromZiplist :: "mem \<Rightarrow> hash_iter \<Rightarrow> bool \<Rightarrow> zval option" where
  "hashTypeCurrentFromZiplist zl hi hash_key =
     (case hi of
        ZipIter fptr vptr \<Rightarrow> do { ret \<leftarrow> ziplistGet zl (if hash_key then fptr else vptr); ret }
      | DictIter _ _ \<Rightarrow> None)"

definition hashTypeCurrentFromHashTable :: "hash_iter \<Rightarrow> bool \<Rightarrow> str_obj option" where
  "hashTypeCurrentFromHashTable hi hash_key =
     (case hi of
        DictIter _ de \<Rightarrow> map_option (if hash_key then fst else snd) de
      | ZipIter _ _ \<Rightarrow> None)"

definition hashTypeCurrentObject :: "hash_obj \<Rightarrow> hash_iter \<Rightarrow> bool \<Rightarrow> str_obj option" where
  "hashTypeCurrentObject ob hi hash_key =
     (case ob of
        HashZip zl \<Rightarrow> map_option zval_obj (hashTypeCurrentFromZiplist zl hi hash_key)
      | HashHT _ \<Rightarrow> hashTypeCurrentFromHashTable hi hash_key)"

text \<open>The loop that copies the fields and values into the new dictionary.\<close>

partial_function (option) convert_fields :: "hash_env \<Rightarrow> hash_obj \<Rightarrow> hash_iter \<Rightarrow> (str_obj, str_obj) dict \<Rightarrow> (str_obj, str_obj) dict option" where
  "convert_fields env ob hi d =
     Option.bind (hashTypeNext 0 0 ob hi) (\<lambda>(more, hi, ob).
       if \<not> more then Some d
       else
         Option.bind (hashTypeCurrentObject ob hi True) (\<lambda>field.
         Option.bind (hashTypeCurrentObject ob hi False) (\<lambda>val.
         Option.bind (dictAdd (he_dict env) (he_fresh env) d (tryObjectEncoding 1 field) (tryObjectEncoding 1 val)) (\<lambda>(st, d).
           if st = DICT_OK then convert_fields env ob hi d else None))))"

declare convert_fields.simps [code]

definition hashTypeConvertZiplist :: "hash_env \<Rightarrow> bool \<Rightarrow> hash_obj \<Rightarrow> hash_obj option" where
  "hashTypeConvertZiplist env to_ht ob =
     (case ob of
        HashHT _ \<Rightarrow> None
      | HashZip _ \<Rightarrow>
          if \<not> to_ht then Some ob
          else do {
            d \<leftarrow> convert_fields env ob (hashTypeInitIterator ob) (dictCreate (hashDictType (he_seed env)));
            Some (HashHT d) })"

definition hashTypeConvert :: "hash_env \<Rightarrow> bool \<Rightarrow> hash_obj \<Rightarrow> hash_obj option" where
  "hashTypeConvert env to_ht ob = (case ob of HashZip _ \<Rightarrow> hashTypeConvertZiplist env to_ht ob | HashHT _ \<Rightarrow> None)"

definition hashTypeTryConversion :: "hash_env \<Rightarrow> str_obj list \<Rightarrow> hash_obj \<Rightarrow> hash_obj option" where
  "hashTypeTryConversion env args ob =
     (case ob of
        HashHT _ \<Rightarrow> Some ob
      | HashZip _ \<Rightarrow>
          if list_ex (\<lambda>a. case a of SdsObj s \<Rightarrow> length s > hash_max_ziplist_value env | IntObj _ \<Rightarrow> False) args
          then hashTypeConvert env True ob else Some ob)"

definition hashTypeTryObjectEncoding :: "hash_env \<Rightarrow> hash_obj \<Rightarrow> str_obj \<Rightarrow> str_obj" where
  "hashTypeTryObjectEncoding env subject o1 = (case subject of HashHT _ \<Rightarrow> tryObjectEncoding (he_refs env) o1 | HashZip _ \<Rightarrow> o1)"

section \<open>Changes\<close>

definition hashTypeSet :: "hash_env \<Rightarrow> hash_obj \<Rightarrow> str_obj \<Rightarrow> str_obj \<Rightarrow> (bool \<times> hash_obj) option" where
  "hashTypeSet env ob field val =
     (case ob of
        HashZip zl \<Rightarrow> do {
          fptr \<leftarrow> zip_field zl field;
          (update, zl) \<leftarrow> (case fptr of
             Some fptr \<Rightarrow> do {
               vptr \<leftarrow> ziplistNext zl fptr;
               vptr \<leftarrow> vptr;
               (zl, vptr) \<leftarrow> ziplistDelete (he_junk env) zl vptr;
               zl \<leftarrow> ziplistInsert (he_junk env) zl vptr (getDecodedObject val);
               Some (True, zl) }
           | None \<Rightarrow> do {
               zl \<leftarrow> ziplistPush (he_junk env) zl (getDecodedObject field) False;
               zl \<leftarrow> ziplistPush (he_junk env) zl (getDecodedObject val) False;
               Some (False, zl) });
          (len, ob) \<leftarrow> hashTypeLength (HashZip zl);
          ob \<leftarrow> (if len > hash_max_ziplist_entries env then hashTypeConvert env True ob else Some ob);
          Some (update, ob) }
      | HashHT d \<Rightarrow> do {
          (inserted, _, d) \<leftarrow> dictReplace (he_dict env) (he_fresh env) d field val;
          Some (inserted = 0, HashHT d) })"

definition hashTypeDelete :: "hash_env \<Rightarrow> hash_obj \<Rightarrow> str_obj \<Rightarrow> (bool \<times> hash_obj) option" where
  "hashTypeDelete env ob field =
     (case ob of
        HashZip zl \<Rightarrow> do {
          fptr \<leftarrow> zip_field zl field;
          (case fptr of
             None \<Rightarrow> Some (False, HashZip zl)
           | Some fptr \<Rightarrow> do {
               (zl, fptr) \<leftarrow> ziplistDelete (he_junk env) zl fptr;
               (zl, fptr) \<leftarrow> ziplistDelete (he_junk env) zl fptr;
               Some (True, HashZip zl) }) }
      | HashHT d \<Rightarrow> do {
          (st, _, d) \<leftarrow> dictDelete (he_dict env) d field;
          if st = DICT_OK then do {
            d \<leftarrow> (if htNeedsResize d then map_option snd (dictResize (he_dict env) d) else Some d);
            Some (True, HashHT d) }
          else Some (False, HashHT d) })"

section \<open>Commands\<close>

text \<open>What HSET, HSETNX, HMSET, HINCRBY and HDEL do with the hash.\<close>

definition hset_command :: "hash_env \<Rightarrow> str_obj \<Rightarrow> str_obj \<Rightarrow> hash_obj \<Rightarrow> (bool \<times> hash_obj) option" where
  "hset_command env field val ob = do {
     ob \<leftarrow> hashTypeTryConversion env [field, val] ob;
     hashTypeSet env ob (hashTypeTryObjectEncoding env ob field) (hashTypeTryObjectEncoding env ob val) }"

definition hsetnx_command :: "hash_env \<Rightarrow> str_obj \<Rightarrow> str_obj \<Rightarrow> hash_obj \<Rightarrow> (bool \<times> hash_obj) option" where
  "hsetnx_command env field val ob = do {
     ob \<leftarrow> hashTypeTryConversion env [field, val] ob;
     (found, ob) \<leftarrow> hashTypeExists env ob field;
     if found then Some (False, ob)
     else do {
       (_, ob) \<leftarrow> hashTypeSet env ob (hashTypeTryObjectEncoding env ob field) (hashTypeTryObjectEncoding env ob val);
       Some (True, ob) } }"

fun hmset_loop :: "hash_env \<Rightarrow> (str_obj \<times> str_obj) list \<Rightarrow> hash_obj \<Rightarrow> hash_obj option" where
  "hmset_loop env [] ob = Some ob"
| "hmset_loop env ((field, val) # pairs) ob = do {
     (_, ob) \<leftarrow> hashTypeSet env ob (hashTypeTryObjectEncoding env ob field) (hashTypeTryObjectEncoding env ob val);
     hmset_loop env pairs ob }"

definition hmset_command :: "hash_env \<Rightarrow> (str_obj \<times> str_obj) list \<Rightarrow> hash_obj \<Rightarrow> hash_obj option" where
  "hmset_command env pairs ob = do {
     ob \<leftarrow> hashTypeTryConversion env (concat (map (\<lambda>(f, v). [f, v]) pairs)) ob;
     hmset_loop env pairs ob }"

datatype hincr_result = NotInteger | IncrOverflow | IncrValue int

definition incr_overflows :: "int \<Rightarrow> int \<Rightarrow> bool" where
  "incr_overflows incr oldvalue \<longleftrightarrow>
     (incr < 0 \<and> oldvalue < 0 \<and> incr < - (2 ^ 63) - oldvalue) \<or> (incr > 0 \<and> oldvalue > 0 \<and> incr > 2 ^ 63 - 1 - oldvalue)"

definition hincrby_command :: "hash_env \<Rightarrow> str_obj \<Rightarrow> int \<Rightarrow> hash_obj \<Rightarrow> (hincr_result \<times> hash_obj) option" where
  "hincrby_command env field incr ob = do {
     (current, ob) \<leftarrow> hashTypeGetObject env ob field;
     (case (case current of None \<Rightarrow> Some 0 | Some cur \<Rightarrow> getLongLongFromObject (Some cur)) of
        None \<Rightarrow> Some (NotInteger, ob)
      | Some val \<Rightarrow>
          if incr_overflows incr val then Some (IncrOverflow, ob)
          else do {
            let val = val + incr;
            (_, ob) \<leftarrow> hashTypeSet env ob (hashTypeTryObjectEncoding env ob field) (createStringObjectFromLongLong val);
            Some (IncrValue val, ob) }) }"

text \<open>HDEL counts the deleted fields and stops when the hash is empty, so that the key is deleted.\<close>

fun hdel_loop :: "hash_env \<Rightarrow> str_obj list \<Rightarrow> nat \<Rightarrow> hash_obj \<Rightarrow> (nat \<times> bool \<times> hash_obj) option" where
  "hdel_loop env [] deleted ob = Some (deleted, False, ob)"
| "hdel_loop env (field # args) deleted ob = do {
     (r, ob) \<leftarrow> hashTypeDelete env ob field;
     if r then do {
       (len, ob) \<leftarrow> hashTypeLength ob;
       if len = 0 then Some (deleted + 1, True, ob) else hdel_loop env args (deleted + 1) ob }
     else hdel_loop env args deleted ob }"

end
