(* ===== verification/Hash_Type_Zip.thy ===== *)
theory Hash_Type_Zip
  imports Hash_Type
begin

text \<open>
  The hash type in its compact encoding. A list of packed entries holds the pairs of the hash
  one after the other; finding, replacing, adding and deleting a field are shown on the list
  of pairs. An update deletes the value and inserts the new one at its place, which is safe
  whatever the lengths are: the entry behind has its length field in the form that fits.
\<close>

section \<open>Pairs one after the other\<close>

definition flatten :: "('a \<times> 'a) list \<Rightarrow> 'a list" where
  "flatten ps = concat (map (\<lambda>(f, v). [f, v]) ps)"

lemma flatten_simps [simp]:
  "flatten [] = []" "flatten (p # ps) = fst p # snd p # flatten ps" "flatten (ps @ qs) = flatten ps @ flatten qs"
  by (simp_all add: flatten_def case_prod_beta)

lemma length_flatten [simp]: "length (flatten ps) = 2 * length ps"
  by (induction ps) auto

lemma flatten_nth: "j < length ps \<Longrightarrow> flatten ps ! (2 * j) = fst (ps ! j) \<and> flatten ps ! Suc (2 * j) = snd (ps ! j)"
proof (induction ps arbitrary: j)
  case (Cons p ps)
  then show ?case by (cases j) auto
qed simp

lemma flatten_take_drop: "take (2 * j) (flatten ps) = flatten (take j ps)" "drop (2 * j) (flatten ps) = flatten (drop j ps)"
proof -
  have "take (2 * j) (flatten ps) = flatten (take j ps) \<and> drop (2 * j) (flatten ps) = flatten (drop j ps)"
  proof (induction ps arbitrary: j)
    case (Cons p ps)
    then show ?case by (cases j) auto
  qed simp
  then show "take (2 * j) (flatten ps) = flatten (take j ps)" "drop (2 * j) (flatten ps) = flatten (drop j ps)" by simp_all
qed

fun field_pos :: "'a \<Rightarrow> ('a \<times> 'b) list \<Rightarrow> nat option" where
  "field_pos k [] = None"
| "field_pos k (p # ps) = (if fst p = k then Some 0 else map_option Suc (field_pos k ps))"

lemma field_pos_None: "field_pos k ps = None \<longleftrightarrow> map_of ps k = None"
  by (induction ps) auto

lemma field_pos_Some: "field_pos k ps = Some j \<Longrightarrow> j < length ps \<and> fst (ps ! j) = k \<and> map_of ps k = Some (snd (ps ! j))"
  by (induction ps arbitrary: j) (auto split: if_splits)

lemma find_pairs: "map zval_text vs = flatten ps \<Longrightarrow> find_from s 1 0 vs = map_option (\<lambda>j. 2 * j) (field_pos s ps)"
proof (induction ps arbitrary: vs)
  case (Cons p ps)
  then obtain a b vs' where vs: "vs = a # b # vs'" "zval_text a = fst p" "map zval_text vs' = flatten ps" by (auto simp: map_eq_Cons_conv)
  then show ?case using Cons.IH [OF vs(3)] by (simp add: option.map_comp comp_def)
qed simp

lemma fst_nth_mem: "i < length ps \<Longrightarrow> fst (ps ! i) \<in> fst ` set ps"
  by (rule imageI) simp

text \<open>Changes of one pair and what they do to the map.\<close>

lemma map_of_update:
  assumes "distinct (map fst ps)" "j < length ps" "fst (ps ! j) = k"
  shows "map_of (ps[j := (k, v)]) = (map_of ps)(k \<mapsto> v)"
  using assms
proof (induction ps arbitrary: j)
  case (Cons p ps)
  then show ?case
  proof (cases j)
    case (Suc i)
    then have "fst p \<noteq> k" using Cons.prems fst_nth_mem [of i ps] by auto
    then show ?thesis using Cons.IH [of i] Cons.prems Suc by (cases p) (auto simp: fun_upd_twist)
  qed (cases p, auto)
qed simp

lemma map_of_remove:
  assumes "distinct (map fst ps)" "j < length ps" "fst (ps ! j) = k"
  shows "map_of (take j ps @ drop (Suc j) ps) = (map_of ps)(k := None)"
  using assms
proof (induction ps arbitrary: j)
  case (Cons p ps)
  then show ?case
  proof (cases j)
    case 0
    then have "k \<notin> set (map fst ps)" using Cons.prems by auto
    then have "map_of ps k = None" by (simp add: map_of_eq_None_iff)
    then show ?thesis using Cons.prems 0 by (cases p) (auto simp: fun_eq_iff)
  next
    case (Suc i)
    then have "fst p \<noteq> k" using Cons.prems fst_nth_mem [of i ps] by auto
    then show ?thesis using Cons.IH [of i] Cons.prems Suc by (cases p) (auto simp: fun_upd_twist)
  qed
qed simp

section \<open>Sizes\<close>

abbreviation texts :: "zent list \<Rightarrow> byte list list" where
  "texts es \<equiv> map (\<lambda>e. zval_text (ent_val e)) es"

lemma int_size_le: "zipIntSize enc \<le> 8"
  by (simp add: zipIntSize_def)

lemma entry_size: "length (entry_bytes e) \<le> length (zval_text (ent_val e)) + 15"
proof -
  obtain plen large v where e: "e = (plen, large, v)" by (rule ent_cases)
  have "val_lsize v + val_len v \<le> length (zval_text v) + 10"
  proof (cases v)
    case (ZInt i)
    then show ?thesis using int_size_le [of "int_encoding i"] by (simp add: length_int_bytes)
  qed (simp add: length_bytes_len)
  then show ?thesis by (simp add: e length_entry)
qed

lemma flat_size:
  assumes "\<forall>t \<in> set (texts es). length t \<le> L"
  shows "length (flat es) \<le> (L + 15) * length es"
  using assms
proof (induction es)
  case (Cons e es)
  then show ?case using entry_size [of e] by (simp add: flat_def)
qed (simp add: flat_def)

lemma insert_after_delete_safe:
  assumes "i < length es"
  shows "insert_safe (zl_delete es i 1) i s"
  unfolding insert_safe_def
proof (intro impI)
  let ?es = "zl_delete es i 1"
  assume i: "i < length ?es" and large: "fst (snd (?es ! i))"
  have prev: "prev_len ?es i = prev_len es i" using assms by (simp add: prev_len_def zl_delete_def nth_append)
  have nth: "?es ! i = next_fixed (prev_len es i) (drop (Suc i) es) ! 0" using assms by (simp add: zl_delete_def nth_append)
  obtain e es' where d: "drop (Suc i) es = e # es'" using i assms by (cases "drop (Suc i) es") (auto simp: length_zl_delete)
  obtain plen l v where e: "e = (plen, l, v)" by (rule ent_cases)
  have "ZIP_BIGLEN \<le> prev_len es i" using large unfolding nth d e by (simp add: next_fixed_def Let_def)
  then show "4 \<le> length (entry_bytes (new_entry (prev_len ?es i) s))" unfolding prev by (simp add: new_entry_def length_entry)
qed

lemma texts_delete: "texts (zl_delete es i n) = take i (texts es) @ drop (i + n) (texts es)"
  using arg_cong [OF vals_zl_delete [of es i n], of "map zval_text"] by (simp add: take_map drop_map comp_def)

lemma texts_insert: "texts (zl_insert es i s) = take i (texts es) @ s # drop i (texts es)"
  using arg_cong [OF vals_zl_insert [of es i s], of "map zval_text"] by (simp add: take_map drop_map comp_def)

section \<open>Operations on the block\<close>

text \<open>The block holds the pairs; texts are at most \<open>L\<close> bytes long and there is room for two more entries.\<close>

definition zip_rep :: "nat \<Rightarrow> mem \<Rightarrow> (byte list \<times> byte list) list \<Rightarrow> zent list \<Rightarrow> bool" where
  "zip_rep L zl ps es \<longleftrightarrow> zl_rep zl es \<and> texts es = flatten ps \<and> (\<forall>t \<in> set (flatten ps). length t \<le> L)"

definition room :: "nat \<Rightarrow> nat \<Rightarrow> bool" where
  "room L n \<longleftrightarrow> (L + 15) * (2 * n) + 15 < 2 ^ 32"

lemma room_mono: "room L n \<Longrightarrow> k \<le> n \<Longrightarrow> room L k"
  unfolding room_def by (meson add_le_mono1 le_less_trans mult_le_mono2)

lemma room_text:
  assumes "room L n" "0 < n" "length s \<le> L"
  shows "length s < 2 ^ 32"
proof -
  have "L + 15 \<le> (L + 15) * (2 * n)" using assms(2) by simp
  then show ?thesis using assms(1,3) unfolding room_def by linarith
qed

lemma zip_length: "zip_rep L zl ps es \<Longrightarrow> length es = 2 * length ps"
  using length_flatten [of ps] by (metis length_map zip_rep_def)

lemma block_size:
  assumes "texts es = ts" "\<forall>t \<in> set ts. length t \<le> L" "length ts \<le> 2 * n" "room L n"
  shows "length (flat es) + 15 < 2 ^ 32" "length (flat es) + 11 < 2 ^ 32"
proof -
  have "length es = length ts" using arg_cong [OF assms(1), of length] by simp
  then have "(L + 15) * length es \<le> (L + 15) * (2 * n)" using assms(3) by simp
  moreover have "length (flat es) \<le> (L + 15) * length es" by (rule flat_size) (use assms(1,2) in simp)
  ultimately have "length (flat es) \<le> (L + 15) * (2 * n)" by (rule le_trans [rotated])
  then show "length (flat es) + 15 < 2 ^ 32" using assms(4) by (simp add: room_def)
  then show "length (flat es) + 11 < 2 ^ 32" by simp
qed

lemma zip_field_ok:
  assumes "zip_rep L zl ps es"
  shows "zip_field zl field = Some (map_option (\<lambda>j. off es (2 * j)) (field_pos (getDecodedObject field) ps))"
proof (cases "es = []")
  case True
  then have "ps = []" using zip_length [OF assms] by simp
  then show ?thesis using True index_ok [of zl es 0] assms by (simp add: zip_field_def zip_rep_def zl_index_def)
next
  case False
  have rep: "zl_rep zl es" and t: "map zval_text (map ent_val es) = flatten ps" using assms by (simp_all add: zip_rep_def comp_def)
  have "ziplistIndex zl 0 = Some (Some (off es 0))" using False index_ok [OF rep, of 0] by (simp add: zl_index_def)
  moreover have "ziplistFind zl (off es 0) (getDecodedObject field) 1 = Some (map_option (\<lambda>j. off es (2 * j)) (field_pos (getDecodedObject field) ps))"
    using find_ok [OF rep, of 0 "getDecodedObject field" 1 0] find_pairs [OF t, of "getDecodedObject field"] by (simp add: ziplistFind_def option.map_comp comp_def)
  ultimately show ?thesis by (simp add: zip_field_def)
qed

lemma set_flatten_update:
  assumes "j < length ps" "\<forall>t \<in> set (flatten ps). length t \<le> L" "length v \<le> L"
  shows "take (Suc (2 * j)) (flatten ps) @ v # drop (Suc (Suc (2 * j))) (flatten ps) = flatten (ps[j := (fst (ps ! j), v)])"
    "\<forall>t \<in> set (flatten (ps[j := (fst (ps ! j), v)])). length t \<le> L"
proof -
  let ?p = "ps ! j"
  have ps: "ps = take j ps @ ?p # drop (Suc j) ps" using assms(1) by (rule id_take_nth_drop)
  have f: "flatten ps = flatten (take j ps) @ fst ?p # snd ?p # flatten (drop (Suc j) ps)" by (subst ps) simp
  have u: "flatten (ps[j := (fst ?p, v)]) = flatten (take j ps) @ fst ?p # v # flatten (drop (Suc j) ps)"
    using assms(1) by (subst upd_conv_take_nth_drop) simp_all
  have l: "length (flatten (take j ps)) = 2 * j" using assms(1) by simp
  show "take (Suc (2 * j)) (flatten ps) @ v # drop (Suc (Suc (2 * j))) (flatten ps) = flatten (ps[j := (fst ?p, v)])"
    unfolding u f using l by simp
  show "\<forall>t \<in> set (flatten (ps[j := (fst ?p, v)])). length t \<le> L" using assms(2,3) unfolding u f by auto
qed

lemma zip_next_value:
  assumes "zip_rep L zl ps es" "j < length ps"
  shows "ziplistNext zl (off es (2 * j)) = Some (Some (off es (Suc (2 * j))))"
  using next_ok [of zl es "2 * j"] assms zip_length [OF assms(1)] by (simp add: zip_rep_def)

lemma zip_update:
  assumes rep: "zip_rep L zl ps es" and j: "j < length ps" and v: "length v \<le> L" and room: "room L (length ps)"
  obtains zl1 p zl2 es2 where "ziplistDelete junk zl (off es (Suc (2 * j))) = Some (zl1, p)" "ziplistInsert junk zl1 p v = Some zl2"
    "zip_rep L zl2 (ps[j := (fst (ps ! j), v)]) es2"
proof -
  let ?i = "Suc (2 * j)"
  let ?es1 = "zl_delete es ?i 1" and ?es2 = "zl_insert (zl_delete es ?i 1) ?i v"
  have z: "zl_rep zl es" and t: "texts es = flatten ps" and L: "\<forall>t \<in> set (flatten ps). length t \<le> L" using rep by (simp_all add: zip_rep_def)
  have i: "?i < length es" using zip_length [OF rep] j by simp
  have t1: "texts ?es1 = take ?i (flatten ps) @ drop (Suc ?i) (flatten ps)" using texts_delete [of es ?i 1] t by simp
  have l1: "length ?es1 = length es - 1" using length_zl_delete [of ?i es 1] i by simp
  have "\<forall>t \<in> set (texts ?es1). length t \<le> L" using L unfolding t1 by (auto dest: in_set_takeD in_set_dropD)
  then have "length (flat ?es1) + 11 < 2 ^ 32"
    by (intro block_size(2) [OF refl _ _ room]) (use l1 zip_length [OF rep] in simp_all)
  then obtain zl1 where 1: "ziplistDelete_at junk zl (off es ?i) 1 = Some zl1" "zl_rep zl1 ?es1"
    using delete_ok [OF z i, of 1 junk] by auto
  have t2: "texts ?es2 = flatten (ps[j := (fst (ps ! j), v)])"
    using texts_insert [of ?es1 ?i v] t1 i zip_length [OF rep] j set_flatten_update(1) [OF j L v] by (simp add: min_def)
  note L2 = set_flatten_update(2) [OF j L v]
  have "length (flat ?es2) + 15 < 2 ^ 32" by (rule block_size(1) [OF t2 L2 _ room]) simp
  moreover have "length v < 2 ^ 32" by (rule room_text [OF room le_less_trans [OF le0 j] v])
  moreover have "?i \<le> length ?es1" using l1 i by simp
  ultimately obtain zl2 where 2: "ziplistInsert_at junk zl1 (off ?es1 ?i) v = Some zl2" "zl_rep zl2 ?es2"
    using insert_ok [OF 1(2) _ _ insert_after_delete_safe [OF i]] by blast
  have o: "off ?es1 ?i = off es ?i" using i by (simp add: off_def zl_delete_def)
  show thesis
  proof (rule that)
    show "ziplistDelete junk zl (off es ?i) = Some (zl1, off es ?i)" using 1(1) by (simp add: ziplistDelete_def)
    show "ziplistInsert junk zl1 (off es ?i) v = Some zl2" using 2(1) o by (simp add: ziplistInsert_def)
    show "zip_rep L zl2 (ps[j := (fst (ps ! j), v)]) ?es2" using 2(2) t2 L2 by (simp add: zip_rep_def)
  qed
qed

lemma zip_push:
  assumes z: "zl_rep zl es" and L: "\<forall>t \<in> set (texts es). length t \<le> L" "length s \<le> L" and room: "room L n" and n: "length es < 2 * n"
  obtains zl' es' where "ziplistPush junk zl s False = Some zl'" "zl_rep zl' es'" "texts es' = texts es @ [s]"
proof -
  let ?es = "zl_insert es (length es) s"
  have t: "texts ?es = texts es @ [s]" using texts_insert [of es "length es" s] by simp
  have "length (flat ?es) + 15 < 2 ^ 32" by (rule block_size(1) [OF t _ _ room]) (use L n in auto)
  moreover have "length s < 2 ^ 32" by (rule room_text [OF room _ L(2)]) (use n in simp)
  ultimately obtain zl' where "ziplistPush junk zl s False = Some zl'" "zl_rep zl' ?es" using push_tail_ok [OF z] by blast
  then show thesis using that t by blast
qed

lemma zip_add:
  assumes rep: "zip_rep L zl ps es" and f: "length f \<le> L" "length v \<le> L" and room: "room L (Suc (length ps))"
  obtains zl1 zl2 es2 where "ziplistPush junk zl f False = Some zl1" "ziplistPush junk zl1 v False = Some zl2" "zip_rep L zl2 (ps @ [(f, v)]) es2"
proof -
  have z: "zl_rep zl es" and t: "texts es = flatten ps" and L: "\<forall>t \<in> set (flatten ps). length t \<le> L" using rep by (simp_all add: zip_rep_def)
  have n: "length es < 2 * Suc (length ps)" using zip_length [OF rep] by simp
  obtain zl1 es1 where 1: "ziplistPush junk zl f False = Some zl1" "zl_rep zl1 es1" "texts es1 = texts es @ [f]"
    by (rule zip_push [OF z _ f(1) room n]) (use L t in simp)
  have L1: "\<forall>t \<in> set (texts es1). length t \<le> L" using 1(3) L t f(1) by auto
  have n1: "length es1 < 2 * Suc (length ps)" using arg_cong [OF 1(3), of length] zip_length [OF rep] by simp
  obtain zl2 es2 where 2: "ziplistPush junk zl1 v False = Some zl2" "zl_rep zl2 es2" "texts es2 = texts es1 @ [v]"
    by (rule zip_push [OF 1(2) L1 f(2) room n1])
  have "zip_rep L zl2 (ps @ [(f, v)]) es2" using 2(2,3) 1(3) t L f by (auto simp: zip_rep_def)
  then show thesis by (rule that [OF 1(1) 2(1)])
qed

lemma zip_remove:
  assumes rep: "zip_rep L zl ps es" and j: "j < length ps" and room: "room L (length ps)"
  obtains zl1 p zl2 q es2 where "ziplistDelete junk zl (off es (2 * j)) = Some (zl1, p)" "ziplistDelete junk zl1 p = Some (zl2, q)"
    "zip_rep L zl2 (take j ps @ drop (Suc j) ps) es2"
proof -
  let ?i = "2 * j"
  let ?es1 = "zl_delete es ?i 1" and ?es2 = "zl_delete (zl_delete es ?i 1) ?i 1"
  have z: "zl_rep zl es" and t: "texts es = flatten ps" and L: "\<forall>t \<in> set (flatten ps). length t \<le> L" using rep by (simp_all add: zip_rep_def)
  have i: "Suc ?i < length es" using zip_length [OF rep] j by simp
  have t1: "texts ?es1 = take ?i (flatten ps) @ drop (Suc ?i) (flatten ps)" using texts_delete [of es ?i 1] t by simp
  have l1: "length ?es1 = length es - 1" using length_zl_delete [of ?i es 1] i by simp
  have L1: "\<forall>t \<in> set (texts ?es1). length t \<le> L" using L unfolding t1 by (auto dest: in_set_takeD in_set_dropD)
  have "length (flat ?es1) + 11 < 2 ^ 32"
    by (rule block_size(2) [OF refl L1 _ room]) (use l1 zip_length [OF rep] in simp)
  then obtain zl1 where 1: "ziplistDelete_at junk zl (off es ?i) 1 = Some zl1" "zl_rep zl1 ?es1"
    using delete_ok [OF z, of ?i 1 junk] i by auto
  have "texts ?es2 = take ?i (flatten ps) @ drop (2 * Suc j) (flatten ps)"
    using texts_delete [of ?es1 ?i 1] t1 i zip_length [OF rep] j by (simp add: min_def)
  then have t2: "texts ?es2 = flatten (take j ps @ drop (Suc j) ps)" unfolding flatten_take_drop by simp
  have L2: "\<forall>t \<in> set (flatten (take j ps @ drop (Suc j) ps)). length t \<le> L"
    using L flatten_take_drop(1) [of j ps] flatten_take_drop(2) [of "Suc j" ps] by (auto dest: in_set_takeD in_set_dropD simp flip: flatten_take_drop)
  have "length (flat ?es2) + 11 < 2 ^ 32" by (rule block_size(2) [OF t2 L2 _ room]) simp
  moreover have "?i < length ?es1" using l1 i by simp
  ultimately obtain zl2 where 2: "ziplistDelete_at junk zl1 (off ?es1 ?i) 1 = Some zl2" "zl_rep zl2 ?es2"
    using delete_ok [OF 1(2), of ?i 1 junk] by auto
  have o: "off ?es1 ?i = off es ?i" using i by (simp add: off_def zl_delete_def)
  show thesis
  proof (rule that)
    show "ziplistDelete junk zl (off es ?i) = Some (zl1, off es ?i)" using 1(1) by (simp add: ziplistDelete_def)
    show "ziplistDelete junk zl1 (off es ?i) = Some (zl2, off es ?i)" using 2(1) o by (simp add: ziplistDelete_def)
    show "zip_rep L zl2 (take j ps @ drop (Suc j) ps) ?es2" using 2(2) t2 L2 by (simp add: zip_rep_def)
  qed
qed

end
