(* ===== verification/Hash_Type_Rel.thy ===== *)
theory Hash_Type_Rel
  imports Hash_Type_Zip
begin

text \<open>
  Both encodings of a hash stand for a finite map from texts to texts. Every operation of the
  hash type is shown to act on that map, the change of the encoding included.
\<close>

section \<open>The dictionary\<close>

definition ht_rel :: "u32 \<Rightarrow> (str_obj, str_obj) dict \<Rightarrow> (byte list \<rightharpoonup> byte list) \<Rightarrow> bool" where
  "ht_rel seed d m \<longleftrightarrow> dict_inv (hashDictType seed) d \<and> (\<forall>t. m t = map_option getDecodedObject (dict_map d (SdsObj t)))"

lemma decoded_sds [simp]: "getDecodedObject (SdsObj t) = t"
  by (simp add: getDecodedObject_def)

lemma ht_relD:
  assumes "ht_rel seed d m"
  shows "dict_inv (hashDictType seed) d" "map_option getDecodedObject (dict_map d ob) = m (getDecodedObject ob)"
    "dict_map d ob = None \<longleftrightarrow> m (getDecodedObject ob) = None"
proof -
  show d: "dict_inv (hashDictType seed) d" using assms by (simp add: ht_rel_def)
  show *: "map_option getDecodedObject (dict_map d ob) = m (getDecodedObject ob)"
    using assms hash_keys.map_text [OF d, of ob "SdsObj (getDecodedObject ob)"] by (simp add: ht_rel_def)
  show "dict_map d ob = None \<longleftrightarrow> m (getDecodedObject ob) = None" unfolding * [symmetric] by simp
qed

lemma ht_relI:
  assumes "dict_inv (hashDictType seed) d'" "\<forall>t. dict_map d' (SdsObj t) = (if t = k then v else dict_map d (SdsObj t))" "ht_rel seed d m"
  shows "ht_rel seed d' (m(k := map_option getDecodedObject v))"
  using assms by (simp add: ht_rel_def)

lemma ht_card:
  assumes "ht_rel seed d m"
  shows "finite (dom m)" "dictSize d = card (dom m)"
proof -
  have "dom m = getDecodedObject ` dom (dict_map d)"
  proof (intro set_eqI iffI)
    fix t assume "t \<in> dom m"
    then have "SdsObj t \<in> dom (dict_map d)" using ht_relD(3) [OF assms, of "SdsObj t"] by auto
    then show "t \<in> getDecodedObject ` dom (dict_map d)" by (rule rev_image_eqI) simp
  next
    fix t assume "t \<in> getDecodedObject ` dom (dict_map d)"
    then obtain x where "t = getDecodedObject x" "dict_map d x \<noteq> None" by auto
    then show "t \<in> dom m" using ht_relD(3) [OF assms, of x] by (simp add: domIff)
  qed
  then show "finite (dom m)" "dictSize d = card (dom m)" using hash_keys.size_dom [OF ht_relD(1) [OF assms]] by simp_all
qed

lemma dictReplace_flag: "dictReplace env w d k v = Some (n, old, d') \<Longrightarrow> n = 0 \<longleftrightarrow> old \<noteq> None"
  by (auto simp: dictReplace_def bind_eq_Some_conv split: if_splits option.splits)

lemma ht_put:
  assumes rel: "ht_rel seed d m" and room: "card (dom m) \<le> MAX_ENTRIES"
  obtains n old d' where "dictReplace env w d f v = Some (n, old, d')" "n = 0 \<longleftrightarrow> m (getDecodedObject f) \<noteq> None"
    "ht_rel seed d' (m(getDecodedObject f \<mapsto> getDecodedObject v))"
proof -
  have size: "dictSize d \<le> MAX_ENTRIES" using ht_card(2) [OF rel] room by simp
  obtain n old d' where r: "dictReplace env w d f v = Some (n, old, d')" "dict_inv (hashDictType seed) d'" "old = dict_map d f"
    "\<forall>k'. dict_map d' k' = (if getDecodedObject k' = getDecodedObject f then Some v else dict_map d k')"
    by (rule hash_keys.replace [OF ht_relD(1) [OF rel] size, where env = env and w = w and k = f and v = v])
  have "ht_rel seed d' (m(getDecodedObject f := map_option getDecodedObject (Some v)))"
    by (rule ht_relI [OF r(2) _ rel]) (simp add: r(4))
  then show thesis using that [OF r(1)] dictReplace_flag [OF r(1)] r(3) ht_relD(3) [OF rel, of f] by simp
qed

lemma ht_add_new:
  assumes rel: "ht_rel seed d m" and room: "card (dom m) \<le> MAX_ENTRIES" and new: "m (getDecodedObject f) = None"
  obtains d' where "dictAdd env w d f v = Some (DICT_OK, d')" "ht_rel seed d' (m(getDecodedObject f \<mapsto> getDecodedObject v))"
proof -
  have size: "dictSize d \<le> MAX_ENTRIES" using ht_card(2) [OF rel] room by simp
  obtain st d' where r: "dictAdd env w d f v = Some (st, d')" "dict_inv (hashDictType seed) d'" "st = DICT_OK \<longleftrightarrow> dict_map d f = None"
    "\<forall>k'. dict_map d' k' = (if st = DICT_OK \<and> getDecodedObject k' = getDecodedObject f then Some v else dict_map d k')"
    by (rule hash_keys.add [OF ht_relD(1) [OF rel] size, where env = env and w = w and k = f and v = v])
  have st: "st = DICT_OK" using r(3) new ht_relD(3) [OF rel, of f] by simp
  have "ht_rel seed d' (m(getDecodedObject f := map_option getDecodedObject (Some v)))"
    by (rule ht_relI [OF r(2) _ rel]) (simp add: r(4) st)
  then show thesis using that r(1) st by simp
qed

lemma ht_get:
  assumes rel: "ht_rel (he_seed env) d m"
  obtains v d' where "hashTypeGetFromHashTable env d f = Some (v, d')" "map_option getDecodedObject v = m (getDecodedObject f)" "ht_rel (he_seed env) d' m"
proof -
  obtain r d' where r: "dictFind (he_dict env) d f = Some (r, d')" "dict_inv (hashDictType (he_seed env)) d'" "dict_map d' = dict_map d"
    "r = None \<longleftrightarrow> dict_map d f = None" "\<forall>ref. r = Some ref \<longrightarrow> holds d' ref f"
    by (rule hash_keys.find [OF ht_relD(1) [OF rel], where env = "he_dict env" and k = f])
  have rel': "ht_rel (he_seed env) d' m" using r(2,3) rel by (simp add: ht_rel_def)
  show thesis
  proof (cases r)
    case None
    then show thesis using that [of None d'] r(1,4) rel' ht_relD(3) [OF rel, of f] by (simp add: hashTypeGetFromHashTable_def)
  next
    case (Some ref)
    obtain e where e: "entry_at d' ref = Some e" "dict_map d' f = Some (snd e)" by (rule hash_keys.entry [OF r(2)]) (use r(5) Some in auto)
    then show thesis using that [of "Some (snd e)" d'] r(1) Some rel' ht_relD(2) [OF rel', of f] by (simp add: hashTypeGetFromHashTable_def)
  qed
qed

lemma ht_del:
  assumes rel: "ht_rel (he_seed env) d m" and room: "card (dom m) \<le> MAX_ENTRIES"
  obtains ob where "hashTypeDelete env (HashHT d) f = Some (m (getDecodedObject f) \<noteq> None, HashHT ob)" "ht_rel (he_seed env) ob (m(getDecodedObject f := None))"
proof -
  obtain st es d1 where a: "dictDelete (he_dict env) d f = Some (st, es, d1)" "dict_inv (hashDictType (he_seed env)) d1"
    "st = DICT_OK \<longleftrightarrow> dict_map d f \<noteq> None" "dictSize d1 + (if st = DICT_OK then 1 else 0) = dictSize d"
    "\<forall>k'. dict_map d1 k' = (if getDecodedObject k' = getDecodedObject f then None else dict_map d k')"
    by (rule hash_keys.delete [OF ht_relD(1) [OF rel], where env = "he_dict env" and k = f])
  have st: "st = DICT_OK \<longleftrightarrow> m (getDecodedObject f) \<noteq> None" using a(3) ht_relD(3) [OF rel, of f] by simp
  have "ht_rel (he_seed env) d1 (m(getDecodedObject f := map_option getDecodedObject None))"
    by (rule ht_relI [OF a(2) _ rel]) (simp add: a(5))
  then have rel1: "ht_rel (he_seed env) d1 (m(getDecodedObject f := None))" by simp
  have "dictSize d1 \<le> MAX_ENTRIES" using a(4) ht_card(2) [OF rel] room by (simp split: if_splits)
  then obtain st2 d2 where 2: "dictResize (he_dict env) d1 = Some (st2, d2)" "dict_inv (hashDictType (he_seed env)) d2" "dict_map d2 = dict_map d1"
    by (rule hash_keys.resize [OF a(2)])
  have rel2: "ht_rel (he_seed env) d2 (m(getDecodedObject f := None))" using 2(2,3) rel1 by (simp add: ht_rel_def)
  show thesis
    using that [of d1] that [of d2] a(1) st 2(1) rel1 rel2
    by (cases "st = DICT_OK"; cases "htNeedsResize d1") (simp_all add: hashTypeDelete_def)
qed

section \<open>Conversion\<close>

definition cursor :: "zent list \<Rightarrow> nat \<Rightarrow> hash_iter" where
  "cursor es k = (if k = 0 then ZipIter None None else ZipIter (Some (off es (2 * k - 2))) (Some (off es (2 * k - 1))))"

lemma cursor_next:
  assumes rep: "zip_rep L zl ps es" and k: "k \<le> length ps"
  shows "hashTypeNext a0 a1 (HashZip zl) (cursor es k) =
    Some (if k < length ps then (True, cursor es (Suc k), HashZip zl) else (False, cursor es k, HashZip zl))"
proof -
  have z: "zl_rep zl es" and l: "length es = 2 * length ps" using rep zip_length [OF rep] by (simp_all add: zip_rep_def)
  have first: "ziplistIndex zl 0 = Some (if 0 < length ps then Some (off es 0) else None)" using index_ok [OF z, of 0] l by (simp add: zl_index_def)
  have step: "ziplistNext zl (off es (2 * k - 1)) = Some (if k < length ps then Some (off es (2 * k)) else None)" if "0 < k"
    using next_ok [OF z, of "2 * k - 1"] that k l by auto
  have val: "ziplistNext zl (off es (2 * k)) = Some (Some (off es (Suc (2 * k))))" if "k < length ps" by (rule zip_next_value [OF rep that])
  show ?thesis using first step val by (cases "k = 0") (auto simp: hashTypeNext_def cursor_def)
qed

lemma zval_obj_text:
  assumes "zl_rep zl es" "i < length es"
  shows "getDecodedObject (zval_obj (ent_val (es ! i))) = texts es ! i"
proof -
  obtain a b plen large v where e: "es ! i = (plen, large, v)" "ent_ok (plen, large, v)" by (rule rep_entry [OF assms])
  then have "val_ok v" by (simp add: ent_ok_def)
  then show ?thesis using e assms(2) decoded_int by (cases v) (simp_all add: zval_obj_def createStringObjectFromLongLong_def)
qed

lemma cursor_get:
  assumes rep: "zip_rep L zl ps es" and k: "k < length ps"
  obtains f v where "hashTypeCurrentObject (HashZip zl) (cursor es (Suc k)) True = Some f" "getDecodedObject f = fst (ps ! k)"
    "hashTypeCurrentObject (HashZip zl) (cursor es (Suc k)) False = Some v" "getDecodedObject v = snd (ps ! k)"
proof -
  have z: "zl_rep zl es" and l: "length es = 2 * length ps" and t: "texts es = flatten ps" using rep zip_length [OF rep] by (simp_all add: zip_rep_def)
  have "2 * k < length es" "Suc (2 * k) < length es" using k l by simp_all
  then show thesis
    using that [of "zval_obj (ent_val (es ! (2 * k)))" "zval_obj (ent_val (es ! Suc (2 * k)))"] rep_read(4) [OF z] zval_obj_text [OF z] flatten_nth [OF k] t
    by (simp add: hashTypeCurrentObject_def hashTypeCurrentFromZiplist_def cursor_def)
qed

lemma convert_fields_ok:
  assumes rep: "zip_rep L zl ps es" and dist: "distinct (map fst ps)" and len: "length ps \<le> MAX_ENTRIES"
    and "k \<le> length ps" "ht_rel (he_seed env) d (map_of (take k ps))"
  obtains d' where "convert_fields env (HashZip zl) (cursor es k) d = Some d'" "ht_rel (he_seed env) d' (map_of ps)"
  using assms(4,5)
proof (induction "length ps - k" arbitrary: k d thesis)
  case 0
  then have "convert_fields env (HashZip zl) (cursor es k) d = Some d" by (subst convert_fields.simps) (simp add: cursor_next [OF rep])
  then show thesis using 0 by simp
next
  case (Suc n)
  then have k: "k < length ps" by simp
  obtain f v where fv: "hashTypeCurrentObject (HashZip zl) (cursor es (Suc k)) True = Some f" "getDecodedObject f = fst (ps ! k)"
    "hashTypeCurrentObject (HashZip zl) (cursor es (Suc k)) False = Some v" "getDecodedObject v = snd (ps ! k)"
    by (rule cursor_get [OF rep k])
  let ?f = "tryObjectEncoding 1 f" and ?v = "tryObjectEncoding 1 v"
  have "fst (ps ! k) \<notin> set (take k (map fst ps))" using dist k by (auto simp: in_set_conv_nth nth_eq_iff_index_eq distinct_conv_nth)
  then have new: "map_of (take k ps) (getDecodedObject ?f) = None" using fv(2) by (simp add: decoded_encoding map_of_eq_None_iff take_map)
  have "card (dom (map_of (take k ps))) \<le> length ps"
    using card_image_le [of "set (take k ps)" fst] card_length [of "take k ps"] by (simp add: dom_map_of_conv_image_fst)
  then have "card (dom (map_of (take k ps))) \<le> MAX_ENTRIES" using len by simp
  from ht_add_new [OF Suc.prems(3) this new, where env = "he_dict env" and w = "he_fresh env" and v = ?v] obtain d1 where
    d1: "dictAdd (he_dict env) (he_fresh env) d ?f ?v = Some (DICT_OK, d1)" "ht_rel (he_seed env) d1 ((map_of (take k ps))(fst (ps ! k) \<mapsto> snd (ps ! k)))"
    using fv(2,4) by (auto simp: decoded_encoding)
  have "map_of (take (Suc k) ps) = (map_of (take k ps))(fst (ps ! k) \<mapsto> snd (ps ! k))"
    using k new fv(2) by (auto simp: take_Suc_conv_app_nth decoded_encoding fun_eq_iff map_add_def split: option.splits)
  then have "ht_rel (he_seed env) d1 (map_of (take (Suc k) ps))" using d1(2) by simp
  moreover have "n = length ps - Suc k" "Suc k \<le> length ps" using Suc.hyps(2) by simp_all
  ultimately obtain d' where d': "convert_fields env (HashZip zl) (cursor es (Suc k)) d1 = Some d'" "ht_rel (he_seed env) d' (map_of ps)"
    using Suc.hyps(1) by blast
  have "convert_fields env (HashZip zl) (cursor es k) d = convert_fields env (HashZip zl) (cursor es (Suc k)) d1"
    by (subst convert_fields.simps) (simp add: cursor_next [OF rep less_imp_le [OF k]] k fv(1,3) d1(1) [simplified])
  then show thesis using Suc.prems(1) d' by simp
qed

lemma hashTypeConvert_ok:
  assumes "zip_rep L zl ps es" "distinct (map fst ps)" "length ps \<le> MAX_ENTRIES"
  obtains d where "hashTypeConvert env True (HashZip zl) = Some (HashHT d)" "ht_rel (he_seed env) d (map_of ps)"
proof -
  let ?d = "dictCreate (hashDictType (he_seed env)) :: (str_obj, str_obj) dict"
  have "ht_rel (he_seed env) ?d (map_of (take 0 ps))" by (simp add: ht_rel_def hash_keys.create)
  then obtain d where "convert_fields env (HashZip zl) (cursor es 0) ?d = Some d" "ht_rel (he_seed env) d (map_of ps)"
    by (rule convert_fields_ok [OF assms le0])
  then show thesis using that by (simp add: hashTypeConvert_def hashTypeConvertZiplist_def hashTypeInitIterator_def cursor_def)
qed

end
