(* ===== verification/Hash_Type_Calls.thy ===== *)
theory Hash_Type_Calls
  imports Hash_Type_Rel
begin

text \<open>
  A hash refines a finite map from texts to texts under every sequence of commands, whatever
  the moment at which the list of packed entries becomes a dictionary.
\<close>

section \<open>The relation\<close>

definition hash_rel :: "hash_env \<Rightarrow> nat \<Rightarrow> hash_obj \<Rightarrow> (byte list \<rightharpoonup> byte list) \<Rightarrow> bool" where
  "hash_rel env L ob m \<longleftrightarrow> (case ob of
     HashZip zl \<Rightarrow> \<exists>ps es. zip_rep L zl ps es \<and> distinct (map fst ps) \<and> length ps \<le> hash_max_ziplist_entries env \<and> m = map_of ps
   | HashHT d \<Rightarrow> ht_rel (he_seed env) d m)"

text \<open>The limits of the configuration and of the arguments keep a list of packed entries below its 32-bit size.\<close>

definition env_ok :: "hash_env \<Rightarrow> nat \<Rightarrow> bool" where
  "env_ok env L \<longleftrightarrow> 20 \<le> L \<and> room L (Suc (hash_max_ziplist_entries env))"

lemma hash_rel_cases:
  assumes "hash_rel env L ob m"
  obtains (Zip) zl ps es where "ob = HashZip zl" "zip_rep L zl ps es" "distinct (map fst ps)" "length ps \<le> hash_max_ziplist_entries env" "m = map_of ps"
    | (HT) d where "ob = HashHT d" "ht_rel (he_seed env) d m"
proof (cases ob)
  case (HashZip zl)
  then show thesis using assms Zip by (auto simp: hash_rel_def)
next
  case (HashHT d)
  then show thesis using assms HT by (simp add: hash_rel_def)
qed

lemma hash_rel_zip: "zip_rep L zl ps es \<Longrightarrow> distinct (map fst ps) \<Longrightarrow> length ps \<le> hash_max_ziplist_entries env \<Longrightarrow> hash_rel env L (HashZip zl) (map_of ps)"
  by (auto simp: hash_rel_def)

lemma hash_rel_ht: "ht_rel (he_seed env) d m \<Longrightarrow> hash_rel env L (HashHT d) m"
  by (simp add: hash_rel_def)

lemma card_map_of: "distinct (map fst ps) \<Longrightarrow> card (dom (map_of ps)) = length ps"
  using distinct_card [of "map fst ps"] by (simp add: dom_map_of_conv_image_fst)

lemma env_entries: "env_ok env L \<Longrightarrow> Suc (hash_max_ziplist_entries env) \<le> MAX_ENTRIES"
proof -
  assume "env_ok env L"
  then have "(L + 15) * (2 * Suc (hash_max_ziplist_entries env)) < 2 ^ 32" by (simp add: env_ok_def room_def)
  moreover have "15 * (2 * Suc (hash_max_ziplist_entries env)) \<le> (L + 15) * (2 * Suc (hash_max_ziplist_entries env))" by (rule mult_le_mono1) simp
  ultimately show ?thesis by simp
qed

lemma env_room: "env_ok env L \<Longrightarrow> n \<le> Suc (hash_max_ziplist_entries env) \<Longrightarrow> room L n"
  using room_mono by (auto simp: env_ok_def)

lemma hash_rel_card:
  assumes "hash_rel env L ob m"
  shows "finite (dom m)"
  using assms
proof (cases rule: hash_rel_cases)
  case (Zip zl ps es)
  then show ?thesis by (simp add: finite_dom_map_of)
next
  case (HT d)
  then show ?thesis by (simp add: ht_card(1))
qed

section \<open>Operations\<close>

lemma get_zip:
  assumes "zip_rep L zl ps es"
  obtains v where "hashTypeGetFromZiplist zl f = Some v" "map_option zval_text v = map_of ps (getDecodedObject f)"
    "map_option (\<lambda>v. getDecodedObject (zval_obj v)) v = map_of ps (getDecodedObject f)"
proof (cases "field_pos (getDecodedObject f) ps")
  case None
  then have "map_of ps (getDecodedObject f) = None" using field_pos_None [of "getDecodedObject f" ps] by simp
  then show thesis using that [of None] None zip_field_ok [OF assms, of f] by (simp add: hashTypeGetFromZiplist_def)
next
  case (Some j)
  have j: "j < length ps" "map_of ps (getDecodedObject f) = Some (snd (ps ! j))" using field_pos_Some [OF Some] by simp_all
  have z: "zl_rep zl es" and t: "texts es = flatten ps" using assms by (simp_all add: zip_rep_def)
  have i: "Suc (2 * j) < length es" using zip_length [OF assms] j(1) by simp
  have s: "texts es ! Suc (2 * j) = snd (ps ! j)" using flatten_nth [OF j(1)] t by simp
  show thesis
  proof (rule that)
    show "hashTypeGetFromZiplist zl f = Some (Some (ent_val (es ! Suc (2 * j))))"
      using zip_field_ok [OF assms, of f] Some zip_next_value [OF assms j(1)] rep_read(4) [OF z i] by (simp add: hashTypeGetFromZiplist_def)
  qed (use s i j(2) zval_obj_text [OF z i] in simp_all)
qed

lemma hash_get:
  assumes rel: "hash_rel env L ob m"
  obtains v ob' where "hashTypeGetObject env ob f = Some (v, ob')" "map_option getDecodedObject v = m (getDecodedObject f)" "hash_rel env L ob' m"
  using rel
proof (cases rule: hash_rel_cases)
  case (Zip zl ps es)
  obtain v where "hashTypeGetFromZiplist zl f = Some v" "map_option (\<lambda>v. getDecodedObject (zval_obj v)) v = map_of ps (getDecodedObject f)"
    by (rule get_zip [OF Zip(2)])
  then show thesis using that [of "map_option zval_obj v" ob] Zip(1,5) rel by (simp add: hashTypeGetObject_def option.map_comp comp_def)
next
  case (HT d)
  obtain v d' where "hashTypeGetFromHashTable env d f = Some (v, d')" "map_option getDecodedObject v = m (getDecodedObject f)" "ht_rel (he_seed env) d' m"
    by (rule ht_get [OF HT(2)])
  then show thesis using that [of v "HashHT d'"] HT(1) hash_rel_ht by (simp add: hashTypeGetObject_def)
qed

lemma hash_exists:
  assumes rel: "hash_rel env L ob m"
  obtains ob' where "hashTypeExists env ob f = Some (m (getDecodedObject f) \<noteq> None, ob')" "hash_rel env L ob' m"
  using rel
proof (cases rule: hash_rel_cases)
  case (Zip zl ps es)
  obtain v where "hashTypeGetFromZiplist zl f = Some v" "map_option zval_text v = map_of ps (getDecodedObject f)"
    by (rule get_zip [OF Zip(2)])
  moreover from this(2) have "v = None \<longleftrightarrow> m (getDecodedObject f) = None" using Zip(5) by (metis map_option_is_None)
  ultimately show thesis using that [of ob] Zip(1) rel by (simp add: hashTypeExists_def del: not_None_eq)
next
  case (HT d)
  obtain v d' where v: "hashTypeGetFromHashTable env d f = Some (v, d')" "map_option getDecodedObject v = m (getDecodedObject f)" "ht_rel (he_seed env) d' m"
    by (rule ht_get [OF HT(2)])
  then have "v = None \<longleftrightarrow> m (getDecodedObject f) = None" by (metis map_option_is_None)
  then show thesis using that [of "HashHT d'"] v(1) HT(1) hash_rel_ht [OF v(3)] by (simp add: hashTypeExists_def del: not_None_eq)
qed

lemma length_zip:
  assumes "zip_rep L zl ps es"
  obtains zl' where "hashTypeLength (HashZip zl) = Some (length ps, HashZip zl')" "zip_rep L zl' ps es"
proof -
  have z: "zl_rep zl es" using assms by (simp add: zip_rep_def)
  obtain zl' where "ziplistLen zl = Some (length es, zl')" "zl_rep zl' es" using len_ok [OF z] by blast
  then show thesis using that [of zl'] assms zip_length [OF assms] by (simp add: hashTypeLength_def zip_rep_def)
qed

lemma hash_length:
  assumes rel: "hash_rel env L ob m"
  obtains ob' where "hashTypeLength ob = Some (card (dom m), ob')" "hash_rel env L ob' m"
  using rel
proof (cases rule: hash_rel_cases)
  case (Zip zl ps es)
  obtain zl' where "hashTypeLength (HashZip zl) = Some (length ps, HashZip zl')" "zip_rep L zl' ps es" by (rule length_zip [OF Zip(2)])
  then show thesis using that [of "HashZip zl'"] Zip card_map_of [OF Zip(3)] hash_rel_zip by simp
next
  case (HT d)
  then show thesis using that [of ob] ht_card(2) [OF HT(2)] rel by (simp add: hashTypeLength_def)
qed

lemma hash_convert:
  assumes "env_ok env L" "zip_rep L zl ps es" "distinct (map fst ps)" "length ps \<le> Suc (hash_max_ziplist_entries env)"
  obtains ob' where "hashTypeConvert env True (HashZip zl) = Some ob'" "hash_rel env L ob' (map_of ps)"
proof -
  have "length ps \<le> MAX_ENTRIES" using env_entries [OF assms(1)] assms(4) by simp
  then obtain d where "hashTypeConvert env True (HashZip zl) = Some (HashHT d)" "ht_rel (he_seed env) d (map_of ps)"
    by (rule hashTypeConvert_ok [OF assms(2,3)])
  then show thesis using that hash_rel_ht by blast
qed

lemma hash_try_conversion:
  assumes ok: "env_ok env L" and rel: "hash_rel env L ob m"
  obtains ob' where "hashTypeTryConversion env args ob = Some ob'" "hash_rel env L ob' m"
  using rel
proof (cases rule: hash_rel_cases)
  case (Zip zl ps es)
  obtain ob' where "hashTypeConvert env True (HashZip zl) = Some ob'" "hash_rel env L ob' (map_of ps)"
    by (rule hash_convert [OF ok Zip(2,3)]) (use Zip(4) in simp)
  then show thesis
    using that [of ob] that [of ob'] Zip(1,5) rel
    by (cases "list_ex (\<lambda>a. case a of SdsObj s \<Rightarrow> length s > hash_max_ziplist_value env | IntObj _ \<Rightarrow> False) args") (simp_all add: hashTypeTryConversion_def)
next
  case (HT d)
  then show thesis using that [of ob] rel by (simp add: hashTypeTryConversion_def)
qed

lemma decoded_try [simp]: "getDecodedObject (hashTypeTryObjectEncoding env ob a) = getDecodedObject a"
  by (cases ob) (simp_all add: hashTypeTryObjectEncoding_def decoded_encoding)

text \<open>The end of \<open>hashTypeSet\<close> on a list of packed entries.\<close>

lemma set_zip_end:
  assumes ok: "env_ok env L" and rep: "zip_rep L zl ps es" "distinct (map fst ps)" "length ps \<le> Suc (hash_max_ziplist_entries env)"
  obtains ob' where "hash_rel env L ob' (map_of ps)"
    "do { (len, ob) \<leftarrow> hashTypeLength (HashZip zl);
          ob \<leftarrow> (if len > hash_max_ziplist_entries env then hashTypeConvert env True ob else Some ob);
          Some (update :: bool, ob) } = Some (update, ob')"
proof -
  obtain zl' where len: "hashTypeLength (HashZip zl) = Some (length ps, HashZip zl')" "zip_rep L zl' ps es" by (rule length_zip [OF rep(1)])
  show thesis
  proof (cases "length ps > hash_max_ziplist_entries env")
    case True
    obtain ob' where "hashTypeConvert env True (HashZip zl') = Some ob'" "hash_rel env L ob' (map_of ps)"
      by (rule hash_convert [OF ok len(2) rep(2,3)])
    then show thesis using that [of ob'] len(1) True by simp
  next
    case False
    then show thesis using that [of "HashZip zl'"] len(1) hash_rel_zip [OF len(2) rep(2)] by simp
  qed
qed

lemma hash_set:
  assumes ok: "env_ok env L" and rel: "hash_rel env L ob m" and room: "card (dom m) < MAX_ENTRIES"
    and len: "length (getDecodedObject f) \<le> L" "length (getDecodedObject v) \<le> L"
  obtains ob' where "hashTypeSet env ob f v = Some (m (getDecodedObject f) \<noteq> None, ob')" "hash_rel env L ob' (m(getDecodedObject f \<mapsto> getDecodedObject v))"
  using rel
proof (cases rule: hash_rel_cases)
  case (HT d)
  have "card (dom m) \<le> MAX_ENTRIES" using room by simp
  then obtain n old d' where r: "dictReplace (he_dict env) (he_fresh env) d f v = Some (n, old, d')" "n = 0 \<longleftrightarrow> m (getDecodedObject f) \<noteq> None"
    "ht_rel (he_seed env) d' (m(getDecodedObject f \<mapsto> getDecodedObject v))"
    by (rule ht_put [OF HT(2)])
  show thesis using that [of "HashHT d'"] r(1,2) HT(1) hash_rel_ht [OF r(3)] by (simp add: hashTypeSet_def del: not_None_eq)
next
  case (Zip zl ps es)
  let ?f = "getDecodedObject f" and ?v = "getDecodedObject v"
  show thesis
  proof (cases "field_pos ?f ps")
    case None
    then have new: "m ?f = None" using field_pos_None [of ?f ps] Zip(5) by simp
    have "room L (Suc (length ps))" by (rule env_room [OF ok]) (use Zip(4) in simp)
    then obtain zl1 zl2 es2 where z: "ziplistPush (he_junk env) zl ?f False = Some zl1" "ziplistPush (he_junk env) zl1 ?v False = Some zl2" "zip_rep L zl2 (ps @ [(?f, ?v)]) es2"
      by (rule zip_add [OF Zip(2) len])
    have "?f \<notin> set (map fst ps)" using new Zip(5) by (simp add: map_of_eq_None_iff)
    then have dist: "distinct (map fst (ps @ [(?f, ?v)]))" using Zip(3) by simp
    have m: "map_of (ps @ [(?f, ?v)]) = m(?f \<mapsto> ?v)" using new Zip(5) by (auto simp: fun_eq_iff map_add_def split: option.splits)
    obtain ob' where ob': "hash_rel env L ob' (map_of (ps @ [(?f, ?v)]))"
      "do { (len, ob) \<leftarrow> hashTypeLength (HashZip zl2);
          ob \<leftarrow> (if len > hash_max_ziplist_entries env then hashTypeConvert env True ob else Some ob);
          Some (False, ob) } = Some (False, ob')"
      by (rule set_zip_end [OF ok z(3) dist]) (use Zip(4) in simp)
    show thesis
      by (rule that [of ob']) (use None new z(1,2) ob' m Zip(1) zip_field_ok [OF Zip(2), of f] in \<open>simp_all add: hashTypeSet_def\<close>)
  next
    case (Some j)
    have j: "j < length ps" "fst (ps ! j) = ?f" "m ?f \<noteq> None" using field_pos_Some [OF Some] Zip(5) by simp_all
    have "room L (length ps)" by (rule env_room [OF ok]) (use Zip(4) in simp)
    then obtain zl1 p zl2 es2 where z: "ziplistDelete (he_junk env) zl (off es (Suc (2 * j))) = Some (zl1, p)" "ziplistInsert (he_junk env) zl1 p ?v = Some zl2"
      "zip_rep L zl2 (ps[j := (fst (ps ! j), ?v)]) es2"
      by (rule zip_update [OF Zip(2) j(1) len(2)])
    have dist: "distinct (map fst (ps[j := (fst (ps ! j), ?v)]))" 
    proof -
      have "map fst (ps[j := (fst (ps ! j), ?v)]) = map fst ps" using j(1) by (simp add: map_update list_update_same_conv)
      then show ?thesis using Zip(3) by simp
    qed
    have m: "map_of (ps[j := (fst (ps ! j), ?v)]) = m(?f \<mapsto> ?v)" using map_of_update [OF Zip(3) j(1,2), of ?v] j(2) Zip(5) by simp
    obtain ob' where ob': "hash_rel env L ob' (map_of (ps[j := (fst (ps ! j), ?v)]))"
      "do { (len, ob) \<leftarrow> hashTypeLength (HashZip zl2);
          ob \<leftarrow> (if len > hash_max_ziplist_entries env then hashTypeConvert env True ob else Some ob);
          Some (True, ob) } = Some (True, ob')"
      by (rule set_zip_end [OF ok z(3) dist]) (use Zip(4) in simp)
    show thesis
      by (rule that [of ob'])
        (use Some j(3) z(1,2) ob' m Zip(1) zip_field_ok [OF Zip(2), of f] zip_next_value [OF Zip(2) j(1)] in \<open>simp_all add: hashTypeSet_def\<close>)
  qed
qed

lemma hash_delete:
  assumes ok: "env_ok env L" and rel: "hash_rel env L ob m" and room: "card (dom m) \<le> MAX_ENTRIES"
  obtains ob' where "hashTypeDelete env ob f = Some (m (getDecodedObject f) \<noteq> None, ob')" "hash_rel env L ob' (m(getDecodedObject f := None))"
  using rel
proof (cases rule: hash_rel_cases)
  case (HT d)
  obtain d' where d': "hashTypeDelete env (HashHT d) f = Some (m (getDecodedObject f) \<noteq> None, HashHT d')" "ht_rel (he_seed env) d' (m(getDecodedObject f := None))"
    by (rule ht_del [OF HT(2) room])
  show thesis using that [of "HashHT d'"] d'(1) HT(1) hash_rel_ht [OF d'(2)] by simp
next
  case (Zip zl ps es)
  let ?f = "getDecodedObject f"
  show thesis
  proof (cases "field_pos ?f ps")
    case None
    then have "m ?f = None" using field_pos_None [of ?f ps] Zip(5) by simp
    moreover from this have "m(?f := None) = m" by (rule fun_upd_idem)
    ultimately show thesis using that [of ob] None rel Zip(1) zip_field_ok [OF Zip(2), of f] by (simp add: hashTypeDelete_def)
  next
    case (Some j)
    have j: "j < length ps" "fst (ps ! j) = ?f" "m ?f \<noteq> None" using field_pos_Some [OF Some] Zip(5) by simp_all
    have "room L (length ps)" by (rule env_room [OF ok]) (use Zip(4) in simp)
    then obtain zl1 p zl2 q es2 where z: "ziplistDelete (he_junk env) zl (off es (2 * j)) = Some (zl1, p)" "ziplistDelete (he_junk env) zl1 p = Some (zl2, q)"
      "zip_rep L zl2 (take j ps @ drop (Suc j) ps) es2"
      by (rule zip_remove [OF Zip(2) j(1)])
    have "map fst ps = take j (map fst ps) @ map fst ps ! j # drop (Suc j) (map fst ps)" by (rule id_take_nth_drop) (use j(1) in simp)
    then have "distinct (take j (map fst ps) @ map fst ps ! j # drop (Suc j) (map fst ps))" using Zip(3) by simp
    then have dist: "distinct (map fst (take j ps @ drop (Suc j) ps))" by (simp add: take_map drop_map)
    have "hash_rel env L (HashZip zl2) (map_of (take j ps @ drop (Suc j) ps))" by (rule hash_rel_zip [OF z(3) dist]) (use Zip(4) j(1) in simp)
    then have rel': "hash_rel env L (HashZip zl2) (m(?f := None))" using map_of_remove [OF Zip(3) j(1,2)] Zip(5) by simp
    show thesis
      by (rule that [OF _ rel']) (use Some j(3) z(1,2) Zip(1) zip_field_ok [OF Zip(2), of f] in \<open>simp add: hashTypeDelete_def\<close>)
  qed
qed

section \<open>Numbers\<close>

text \<open>HINCRBY reads the value as \<open>strtoll\<close> does; an integer and its decimal text are read alike.\<close>

definition text_ll :: "byte list \<Rightarrow> int option" where
  "text_ll t = getLongLongFromObject (Some (SdsObj t))"

lemma digit_bytes:
  assumes "isdigit c"
  shows "\<not> isspace c" "c \<noteq> CH_MINUS" "c \<noteq> CH_PLUS" "c \<noteq> CH_NUL"
  using assms by (auto simp: isdigit_def isspace_def word_le_nat_alt)

lemma decimal_nat_digits: "list_all isdigit (decimal_nat n)" "foldl (\<lambda>v c. v * 10 + (unat c - 48)) 0 (decimal_nat n) = n"
  using decimal_nat_parse [of n] by (simp_all add: numeral_val_def digit_val_def)

lemma strtoll_digits:
  assumes "list_all isdigit ds" "ds \<noteq> []" "n = int (foldl (\<lambda>v c. v * 10 + (unat c - 48)) 0 ds)" "n \<le> 2 ^ 63 - 1"
  shows "strtoll10 ds = (n, length ds, False)"
proof -
  have d: "takeWhile isdigit ds = ds" using assms(1) by (simp add: takeWhile_eq_all_conv list_all_iff)
  have h: "isdigit (hd ds)" using assms(1,2) by (cases ds) simp_all
  have s: "dropWhile isspace ds = ds" using digit_bytes(1) [OF h] assms(2) by (cases ds) simp_all
  show ?thesis using assms(2,3,4) digit_bytes(2,3) [OF h] unfolding strtoll10_def s Let_def by (simp add: d)
qed

lemma strtoll_minus:
  assumes "list_all isdigit ds" "ds \<noteq> []" "n = int (foldl (\<lambda>v c. v * 10 + (unat c - 48)) 0 ds)" "n \<le> 2 ^ 63"
  shows "strtoll10 (CH_MINUS # ds) = (- n, Suc (length ds), False)"
proof -
  have d: "takeWhile isdigit ds = ds" using assms(1) by (simp add: takeWhile_eq_all_conv list_all_iff)
  have s: "dropWhile isspace (CH_MINUS # ds) = CH_MINUS # ds" by (simp add: isspace_def)
  show ?thesis using assms(2,3,4) unfolding strtoll10_def s Let_def by (simp add: d)
qed

lemma text_ll_decimal:
  assumes "fits 8 v"
  shows "text_ll (decimal v) = Some v"
proof (cases "v < 0")
  case True
  let ?ds = "decimal_nat (nat (- v))"
  have "strtoll10 (CH_MINUS # ?ds) = (- (- v), Suc (length ?ds), False)"
    by (rule strtoll_minus) (use decimal_nat_digits [of "nat (- v)"] assms True in \<open>simp_all add: fits_def\<close>)
  then show ?thesis using True by (simp add: text_ll_def getLongLongFromObject_def decimal_def isspace_def nth_append)
next
  case False
  let ?ds = "decimal_nat (nat v)"
  have "strtoll10 ?ds = (v, length ?ds, False)"
    by (rule strtoll_digits) (use decimal_nat_digits [of "nat v"] assms False in \<open>simp_all add: fits_def\<close>)
  moreover have "isdigit (hd ?ds)" using decimal_nat_digits(1) [of "nat v"] by (cases ?ds) simp_all
  ultimately show ?thesis using False digit_bytes(1) by (simp add: text_ll_def getLongLongFromObject_def decimal_def nth_append)
qed

lemma ll_decoded: "getLongLongFromObject (Some ob) = text_ll (getDecodedObject ob)"
proof (cases ob)
  case (IntObj w)
  then show ?thesis using text_ll_decimal [OF fits_sint64 [of w]] by (simp add: getDecodedObject_def int_obj_text getLongLongFromObject_def)
qed (simp add: text_ll_def)

lemma text_ll_fits: "text_ll t = Some x \<Longrightarrow> fits 8 x"
  by (auto simp: text_ll_def getLongLongFromObject_def strtoll10_def fits_def Let_def split: if_splits)

lemma incr_fits:
  assumes "fits 8 i" "fits 8 x" "\<not> incr_overflows i x"
  shows "fits 8 (x + i)"
  using assms by (auto simp: incr_overflows_def fits_def)

section \<open>Commands\<close>

lemma hset_ok:
  assumes ok: "env_ok env L" and rel: "hash_rel env L ob m" and room: "card (dom m) < MAX_ENTRIES"
    and len: "length (getDecodedObject f) \<le> L" "length (getDecodedObject v) \<le> L"
  obtains ob' where "hset_command env f v ob = Some (m (getDecodedObject f) \<noteq> None, ob')" "hash_rel env L ob' (m(getDecodedObject f \<mapsto> getDecodedObject v))"
proof -
  obtain ob1 where 1: "hashTypeTryConversion env [f, v] ob = Some ob1" "hash_rel env L ob1 m" by (rule hash_try_conversion [OF ok rel])
  obtain ob' where "hashTypeSet env ob1 (hashTypeTryObjectEncoding env ob1 f) (hashTypeTryObjectEncoding env ob1 v) = Some (m (getDecodedObject f) \<noteq> None, ob')"
    "hash_rel env L ob' (m(getDecodedObject f \<mapsto> getDecodedObject v))"
    by (rule hash_set [OF ok 1(2) room, of "hashTypeTryObjectEncoding env ob1 f" "hashTypeTryObjectEncoding env ob1 v"]) (use len in simp_all)
  then show thesis using that 1(1) by (simp add: hset_command_def)
qed

lemma hsetnx_ok:
  assumes ok: "env_ok env L" and rel: "hash_rel env L ob m" and room: "card (dom m) < MAX_ENTRIES"
    and len: "length (getDecodedObject f) \<le> L" "length (getDecodedObject v) \<le> L"
  obtains ob' where "hsetnx_command env f v ob = Some (m (getDecodedObject f) = None, ob')"
    "hash_rel env L ob' (if m (getDecodedObject f) = None then m(getDecodedObject f \<mapsto> getDecodedObject v) else m)"
proof -
  obtain ob1 where 1: "hashTypeTryConversion env [f, v] ob = Some ob1" "hash_rel env L ob1 m" by (rule hash_try_conversion [OF ok rel])
  obtain ob2 where 2: "hashTypeExists env ob1 f = Some (m (getDecodedObject f) \<noteq> None, ob2)" "hash_rel env L ob2 m" by (rule hash_exists [OF 1(2)])
  obtain ob' where 3: "hashTypeSet env ob2 (hashTypeTryObjectEncoding env ob2 f) (hashTypeTryObjectEncoding env ob2 v) = Some (m (getDecodedObject f) \<noteq> None, ob')"
    "hash_rel env L ob' (m(getDecodedObject f \<mapsto> getDecodedObject v))"
    by (rule hash_set [OF ok 2(2) room, of "hashTypeTryObjectEncoding env ob2 f" "hashTypeTryObjectEncoding env ob2 v"]) (use len in simp_all)
  show thesis
  proof (cases "m (getDecodedObject f)")
    case None
    then show thesis using that [of ob'] 1(1) 2(1) 3 by (simp add: hsetnx_command_def)
  next
    case (Some t)
    then show thesis using that [of ob2] 1(1) 2 by (simp add: hsetnx_command_def)
  qed
qed

fun hmset_spec :: "(str_obj \<times> str_obj) list \<Rightarrow> (byte list \<rightharpoonup> byte list) \<Rightarrow> (byte list \<rightharpoonup> byte list)" where
  "hmset_spec [] m = m"
| "hmset_spec ((f, v) # pairs) m = hmset_spec pairs (m(getDecodedObject f \<mapsto> getDecodedObject v))"

lemma hmset_loop_ok:
  assumes ok: "env_ok env L" and "hash_rel env L ob m" "card (dom m) + length pairs \<le> MAX_ENTRIES"
    and "\<forall>(f, v) \<in> set pairs. length (getDecodedObject f) \<le> L \<and> length (getDecodedObject v) \<le> L"
  obtains ob' where "hmset_loop env pairs ob = Some ob'" "hash_rel env L ob' (hmset_spec pairs m)"
  using assms(2-)
proof (induction pairs arbitrary: ob m thesis)
  case Nil
  then show thesis by simp
next
  case (Cons p pairs)
  obtain f v where p: "p = (f, v)" by (cases p)
  let ?m = "m(getDecodedObject f \<mapsto> getDecodedObject v)"
  have len: "length (getDecodedObject f) \<le> L" "length (getDecodedObject v) \<le> L" using Cons.prems(4) p by simp_all
  have lens: "\<forall>(f, v) \<in> set pairs. length (getDecodedObject f) \<le> L \<and> length (getDecodedObject v) \<le> L" using Cons.prems(4) by simp
  have room: "card (dom m) < MAX_ENTRIES" using Cons.prems(3) by simp
  obtain ob1 where 1: "hashTypeSet env ob (hashTypeTryObjectEncoding env ob f) (hashTypeTryObjectEncoding env ob v) = Some (m (getDecodedObject f) \<noteq> None, ob1)" "hash_rel env L ob1 ?m"
    by (rule hash_set [OF ok Cons.prems(2) room, of "hashTypeTryObjectEncoding env ob f" "hashTypeTryObjectEncoding env ob v"]) (use len in simp_all)
  have "card (dom ?m) \<le> card (dom m) + 1" using hash_rel_card [OF Cons.prems(2)] by (simp add: card_insert_if)
  then have c: "card (dom ?m) + length pairs \<le> MAX_ENTRIES" using Cons.prems(3) by simp
  obtain ob' where "hmset_loop env pairs ob1 = Some ob'" "hash_rel env L ob' (hmset_spec pairs ?m)"
    by (rule Cons.IH [OF _ 1(2) c lens])
  then show thesis by (intro Cons.prems(1) [of ob']) (use 1(1) p in simp_all)
qed

text \<open>HMSET with any number of pairs; a later pair for the same field wins.\<close>

lemma hmset_ok:
  assumes ok: "env_ok env L" and rel: "hash_rel env L ob m" and room: "card (dom m) + length pairs \<le> MAX_ENTRIES"
    and len: "\<forall>(f, v) \<in> set pairs. length (getDecodedObject f) \<le> L \<and> length (getDecodedObject v) \<le> L"
  obtains ob' where "hmset_command env pairs ob = Some ob'" "hash_rel env L ob' (hmset_spec pairs m)"
proof -
  obtain ob1 where 1: "hashTypeTryConversion env (concat (map (\<lambda>(f, v). [f, v]) pairs)) ob = Some ob1" "hash_rel env L ob1 m" by (rule hash_try_conversion [OF ok rel])
  obtain ob' where "hmset_loop env pairs ob1 = Some ob'" "hash_rel env L ob' (hmset_spec pairs m)"
    by (rule hmset_loop_ok [OF ok 1(2) room len])
  then show thesis using that 1(1) by (simp add: hmset_command_def)
qed

definition incr_spec :: "byte list \<Rightarrow> int \<Rightarrow> (byte list \<rightharpoonup> byte list) \<Rightarrow> hincr_result \<times> (byte list \<rightharpoonup> byte list)" where
  "incr_spec f i m = (case (case m f of None \<Rightarrow> Some 0 | Some t \<Rightarrow> text_ll t) of
     None \<Rightarrow> (NotInteger, m)
   | Some x \<Rightarrow> if incr_overflows i x then (IncrOverflow, m) else (IncrValue (x + i), m(f \<mapsto> decimal (x + i))))"

lemma hincrby_ok:
  assumes ok: "env_ok env L" and rel: "hash_rel env L ob m" and room: "card (dom m) < MAX_ENTRIES"
    and len: "length (getDecodedObject f) \<le> L" and i: "fits 8 i"
  obtains ob' where "hincrby_command env f i ob = Some (fst (incr_spec (getDecodedObject f) i m), ob')" "hash_rel env L ob' (snd (incr_spec (getDecodedObject f) i m))"
proof -
  let ?f = "getDecodedObject f"
  obtain v ob1 where 1: "hashTypeGetObject env ob f = Some (v, ob1)" "map_option getDecodedObject v = m ?f" "hash_rel env L ob1 m" by (rule hash_get [OF rel])
  have cur: "(case v of None \<Rightarrow> Some 0 | Some cur \<Rightarrow> getLongLongFromObject (Some cur)) = (case m ?f of None \<Rightarrow> Some 0 | Some t \<Rightarrow> text_ll t)"
    using 1(2) by (cases v) (auto simp: ll_decoded simp flip: 1(2))
  show thesis
  proof (cases "case m ?f of None \<Rightarrow> Some 0 | Some t \<Rightarrow> text_ll t")
    case None
    then show thesis using that [of ob1] 1(1,3) cur by (simp add: hincrby_command_def incr_spec_def)
  next
    case (Some x)
    have x: "fits 8 x" using Some text_ll_fits by (auto simp: fits_def split: option.splits)
    show thesis
    proof (cases "incr_overflows i x")
      case True
      then show thesis using that [of ob1] 1(1,3) cur Some by (simp add: hincrby_command_def incr_spec_def)
    next
      case False
      let ?v = "createStringObjectFromLongLong (x + i)"
      have fit: "fits 8 (x + i)" by (rule incr_fits [OF i x False])
      have v: "getDecodedObject ?v = decimal (x + i)" unfolding createStringObjectFromLongLong_def by (rule decoded_int [OF fit])
      have "length (getDecodedObject ?v) \<le> L" using length_decimal_i64 [OF fit] ok v by (simp add: env_ok_def)
      then obtain ob' where "hashTypeSet env ob1 (hashTypeTryObjectEncoding env ob1 f) ?v = Some (m ?f \<noteq> None, ob')" "hash_rel env L ob' (m(?f \<mapsto> decimal (x + i)))"
        using hash_set [OF ok 1(3) room, of "hashTypeTryObjectEncoding env ob1 f" ?v] len v by auto
      then show thesis using that [of ob'] 1(1) cur Some False by (simp add: hincrby_command_def incr_spec_def Let_def)
    qed
  qed
qed

fun hdel_spec :: "byte list list \<Rightarrow> nat \<Rightarrow> (byte list \<rightharpoonup> byte list) \<Rightarrow> nat \<times> bool \<times> (byte list \<rightharpoonup> byte list)" where
  "hdel_spec [] n m = (n, False, m)"
| "hdel_spec (f # fs) n m =
     (if m f = None then hdel_spec fs n m
      else if dom m = {f} then (n + 1, True, m(f := None)) else hdel_spec fs (n + 1) (m(f := None)))"

lemma hdel_spec_dom: "dom (snd (snd (hdel_spec fs n m))) \<subseteq> dom m"
proof (induction fs arbitrary: n m)
  case (Cons f fs)
  have "dom (snd (snd (hdel_spec fs (n + 1) (m(f := None))))) \<subseteq> dom m" using Cons.IH [of "n + 1" "m(f := None)"] by (rule order_trans) (auto split: if_splits)
  then show ?case using Cons.IH [of n m] by auto
qed simp

lemma hdel_ok:
  assumes ok: "env_ok env L" and "hash_rel env L ob m" "card (dom m) \<le> MAX_ENTRIES"
  obtains ob' where "hdel_loop env args n ob = Some (fst (hdel_spec (map getDecodedObject args) n m), fst (snd (hdel_spec (map getDecodedObject args) n m)), ob')"
    "hash_rel env L ob' (snd (snd (hdel_spec (map getDecodedObject args) n m)))"
  using assms(2,3)
proof (induction args arbitrary: ob m n thesis)
  case Nil
  then show thesis by simp
next
  case (Cons f args)
  let ?f = "getDecodedObject f"
  obtain ob1 where 1: "hashTypeDelete env ob f = Some (m ?f \<noteq> None, ob1)" "hash_rel env L ob1 (m(?f := None))" by (rule hash_delete [OF ok Cons.prems(2,3)])
  obtain ob2 where 2: "hashTypeLength ob1 = Some (card (dom (m(?f := None))), ob2)" "hash_rel env L ob2 (m(?f := None))" by (rule hash_length [OF 1(2)])
  have fin: "finite (dom m)" by (rule hash_rel_card [OF Cons.prems(2)])
  have card: "card (dom (m(?f := None))) \<le> MAX_ENTRIES" using Cons.prems(3) card_mono [OF fin, of "dom (m(?f := None))"] by auto
  show thesis
  proof (cases "m ?f")
    case None
    then have "m(?f := None) = m" by (rule fun_upd_idem)
    then have "hash_rel env L ob1 m" using 1(2) by simp
    then obtain ob' where "hdel_loop env args n ob1 = Some (fst (hdel_spec (map getDecodedObject args) n m), fst (snd (hdel_spec (map getDecodedObject args) n m)), ob')"
      "hash_rel env L ob' (snd (snd (hdel_spec (map getDecodedObject args) n m)))" using Cons.IH Cons.prems(3) by blast
    then show thesis using Cons.prems(1) 1(1) None by simp
  next
    case (Some t)
    have e: "card (dom (m(?f := None))) = 0 \<longleftrightarrow> dom m = {?f}" using fin Some by (auto simp: card_eq_0_iff)
    define m' where "m' = m(?f := None)"
    obtain ob' where ob': "hdel_loop env args (n + 1) ob2 = Some (fst (hdel_spec (map getDecodedObject args) (n + 1) m'), fst (snd (hdel_spec (map getDecodedObject args) (n + 1) m')), ob')"
      "hash_rel env L ob' (snd (snd (hdel_spec (map getDecodedObject args) (n + 1) m')))" using Cons.IH [OF _ 2(2) card] unfolding m'_def by blast
    have spec: "hdel_spec (map getDecodedObject (f # args)) n m = (if dom m = {?f} then (n + 1, True, m') else hdel_spec (map getDecodedObject args) (n + 1) m')"
      using Some by (simp add: m'_def)
    show thesis
    proof (cases "dom m = {?f}")
      case True
      then show thesis using Cons.prems(1) [of ob2, unfolded spec] 1(1) 2 e Some unfolding m'_def [symmetric] by simp
    next
      case False
      then show thesis using Cons.prems(1) [of ob', unfolded spec] 1(1) 2 e Some ob' unfolding m'_def [symmetric] by simp
    qed
  qed
qed

section \<open>Sequences of commands\<close>

datatype hash_op = HSet str_obj str_obj | HSetNx str_obj str_obj | HIncrBy str_obj int | HDel "str_obj list" | HGet str_obj | HExists str_obj | HLen

datatype hash_result = HashFlag bool | HashIncr hincr_result | HashDeleted nat bool | HashValue "byte list option" | HashCount nat

fun hash_call :: "hash_env \<Rightarrow> hash_op \<Rightarrow> hash_obj \<Rightarrow> (hash_result \<times> hash_obj) option" where
  "hash_call env (HSet f v) ob = do { (r, ob) \<leftarrow> hset_command env f v ob; Some (HashFlag r, ob) }"
| "hash_call env (HSetNx f v) ob = do { (r, ob) \<leftarrow> hsetnx_command env f v ob; Some (HashFlag r, ob) }"
| "hash_call env (HIncrBy f i) ob = do { (r, ob) \<leftarrow> hincrby_command env f i ob; Some (HashIncr r, ob) }"
| "hash_call env (HDel args) ob = do { (n, removed, ob) \<leftarrow> hdel_loop env args 0 ob; Some (HashDeleted n removed, ob) }"
| "hash_call env (HGet f) ob = do { (v, ob) \<leftarrow> hashTypeGetObject env ob f; Some (HashValue (map_option getDecodedObject v), ob) }"
| "hash_call env (HExists f) ob = do { (r, ob) \<leftarrow> hashTypeExists env ob f; Some (HashFlag r, ob) }"
| "hash_call env HLen ob = do { (n, ob) \<leftarrow> hashTypeLength ob; Some (HashCount n, ob) }"

fun hash_spec :: "hash_op \<Rightarrow> (byte list \<rightharpoonup> byte list) \<Rightarrow> (hash_result \<times> (byte list \<rightharpoonup> byte list)) option" where
  "hash_spec (HSet f v) m = Some (HashFlag (m (getDecodedObject f) \<noteq> None), m(getDecodedObject f \<mapsto> getDecodedObject v))"
| "hash_spec (HSetNx f v) m =
     Some (HashFlag (m (getDecodedObject f) = None), if m (getDecodedObject f) = None then m(getDecodedObject f \<mapsto> getDecodedObject v) else m)"
| "hash_spec (HIncrBy f i) m = (let (r, m) = incr_spec (getDecodedObject f) i m in Some (HashIncr r, m))"
| "hash_spec (HDel args) m = (let (n, removed, m) = hdel_spec (map getDecodedObject args) 0 m in Some (HashDeleted n removed, m))"
| "hash_spec (HGet f) m = Some (HashValue (m (getDecodedObject f)), m)"
| "hash_spec (HExists f) m = Some (HashFlag (m (getDecodedObject f) \<noteq> None), m)"
| "hash_spec HLen m = Some (HashCount (card (dom m)), m)"

text \<open>Arguments are at most \<open>L\<close> bytes long, and the increment is a 64-bit integer.\<close>

fun hop_ok :: "nat \<Rightarrow> hash_op \<Rightarrow> bool" where
  "hop_ok L (HSet f v) \<longleftrightarrow> length (getDecodedObject f) \<le> L \<and> length (getDecodedObject v) \<le> L"
| "hop_ok L (HSetNx f v) \<longleftrightarrow> length (getDecodedObject f) \<le> L \<and> length (getDecodedObject v) \<le> L"
| "hop_ok L (HIncrBy f i) \<longleftrightarrow> length (getDecodedObject f) \<le> L \<and> fits 8 i"
| "hop_ok L _ \<longleftrightarrow> True"

lemma hash_step:
  assumes env: "env_ok env L" and ok: "hop_ok L op" and rel: "hash_rel env L ob m" and room: "card (dom m) < MAX_ENTRIES"
  shows "case hash_spec op m of None \<Rightarrow> hash_call env op ob = None
    | Some (r, m') \<Rightarrow> \<exists>ob'. hash_call env op ob = Some (r, ob') \<and> hash_rel env L ob' m'"
proof (cases op)
  case (HSet f v)
  show ?thesis by (rule hset_ok [OF env rel room, of f v]) (use ok HSet in simp_all)
next
  case (HSetNx f v)
  show ?thesis by (rule hsetnx_ok [OF env rel room, of f v]) (use ok HSetNx in \<open>simp_all del: fun_upd_apply\<close>)
next
  case (HIncrBy f i)
  show ?thesis by (rule hincrby_ok [OF env rel room, of f i]) (use ok HIncrBy in \<open>simp_all add: case_prod_beta Let_def\<close>)
next
  case (HDel args)
  have "card (dom m) \<le> MAX_ENTRIES" using room by simp
  then obtain ob' where "hdel_loop env args 0 ob = Some (fst (hdel_spec (map getDecodedObject args) 0 m), fst (snd (hdel_spec (map getDecodedObject args) 0 m)), ob')"
    "hash_rel env L ob' (snd (snd (hdel_spec (map getDecodedObject args) 0 m)))"
    by (rule hdel_ok [OF env rel])
  then show ?thesis using HDel by (simp add: case_prod_beta Let_def)
next
  case (HGet f)
  obtain v ob' where "hashTypeGetObject env ob f = Some (v, ob')" "map_option getDecodedObject v = m (getDecodedObject f)" "hash_rel env L ob' m" by (rule hash_get [OF rel])
  then show ?thesis using HGet by simp
next
  case (HExists f)
  show ?thesis by (rule hash_exists [OF rel, of f]) (simp add: HExists)
next
  case HLen
  show ?thesis by (rule hash_length [OF rel]) (simp add: HLen)
qed

lemma hash_weight:
  assumes "hash_rel env L ob m" "hash_spec op m = Some (r, m')"
  shows "card (dom m') \<le> card (dom m) + 1"
proof -
  have fin: "finite (dom m)" by (rule hash_rel_card [OF assms(1)])
  have put: "card (dom (m(f \<mapsto> v))) \<le> card (dom m) + 1" for f v using fin by (simp add: card_insert_if)
  show ?thesis
  proof (cases op)
    case (HIncrBy f i)
    then show ?thesis using assms(2) put by (auto simp: incr_spec_def Let_def split: option.splits if_splits)
  next
    case (HDel args)
    then have "m' = snd (snd (hdel_spec (map getDecodedObject args) 0 m))" using assms(2) by (auto simp: Let_def split: prod.splits)
    then show ?thesis using card_mono [OF fin hdel_spec_dom] by (simp add: le_SucI)
  qed (use assms(2) put in \<open>auto split: if_splits\<close>)
qed

interpretation hash_type: guarded_simulation "hash_call env" hash_spec "hash_rel env L" "\<lambda>m. card (dom m)" MAX_ENTRIES "\<lambda>op. env_ok env L \<and> hop_ok L op" for env L
  by unfold_locales (blast intro: hash_step hash_weight)+

lemma createHash_rel:
  obtains ob where "createHashObject env = Some ob" "hash_rel env L ob Map.empty"
proof -
  obtain zl where zl: "ziplistNew (he_junk env) = Some zl" "zl_rep zl []" using new_ok by blast
  have "zip_rep L zl [] []" using zl(2) by (simp add: zip_rep_def)
  then have "hash_rel env L (HashZip zl) (map_of [])" by (rule hash_rel_zip) simp_all
  then show thesis using that zl(1) by (simp add: createHashObject_def)
qed

lemma hash_spec_total: "\<exists>rs m'. run_calls hash_spec ops m = Some (rs, m')"
proof (induction ops arbitrary: m)
  case (Cons op ops)
  have "\<exists>r m1. hash_spec op m = Some (r, m1)" by (cases op) (simp_all add: Let_def case_prod_beta del: hdel_spec.simps)
  then obtain r m1 where "hash_spec op m = Some (r, m1)" by blast
  moreover obtain rs m2 where "run_calls hash_spec ops m1 = Some (rs, m2)" using Cons by blast
  ultimately show ?case by simp
qed simp

text \<open>
  C13: A new hash, under any sequence of fewer than \<open>2 ^ 30\<close> commands (HSET, HSETNX, HINCRBY,
  HDEL of several fields, HGET, HEXISTS and HLEN), answers as a finite map from texts to texts:
  the moment at which the list of packed entries becomes a dictionary (a long argument, or one
  field more than \<open>hash_max_ziplist_entries\<close>) cannot be observed, a value that is a number is the
  same whether it is stored as an integer or as its text, an increment never overflows, HDEL
  reports that the hash is empty exactly when its last field goes, and no access leaves a block:
  replacing a value never meets the insertion that reads outside of the list of packed entries.
  The arguments and the configured number of packed entries must keep the block below its
  32-bit size.
\<close>

theorem hash_type_refines_map:
  assumes "length ops \<le> MAX_ENTRIES" "env_ok env L" "\<forall>op \<in> set ops. hop_ok L op"
  shows "\<exists>rs m ob ob'. run_calls hash_spec ops Map.empty = Some (rs, m) \<and> createHashObject env = Some ob
    \<and> run_calls (hash_call env) ops ob = Some (rs, ob') \<and> hash_rel env L ob' m"
proof -
  obtain ob where ob: "createHashObject env = Some ob" "hash_rel env L ob Map.empty" by (rule createHash_rel)
  obtain rs m where m: "run_calls hash_spec ops Map.empty = Some (rs, m)" using hash_spec_total by blast
  have "\<exists>ob'. run_calls (hash_call env) ops ob = Some (rs, ob') \<and> hash_rel env L ob' m"
    using hash_type.guarded_runs [OF ob(2), of ops] assms m by simp
  then show ?thesis using ob(1) m by blast
qed

definition ex_hash_env :: hash_env where
  "ex_hash_env = \<lparr>he_seed = 5381, he_dict = ex_env, hash_max_ziplist_entries = 1, hash_max_ziplist_value = 64, he_junk = (\<lambda>_. 170),
     he_fresh = IntObj 0, he_refs = 1\<rparr>"

definition ex_hash_ops :: "hash_op list" where
  "ex_hash_ops = [HSet (SdsObj [97]) (SdsObj [98]), HSetNx (SdsObj [97]) (SdsObj [99]), HSet (SdsObj [100]) (SdsObj [101]), HGet (SdsObj [97]),
     HLen, HIncrBy (SdsObj [97]) 1, HDel [SdsObj [97], SdsObj [120], SdsObj [100], SdsObj [100]]]"

theorem hash_type_refines_map_witness:
  "\<exists>ob ob'. createHashObject ex_hash_env = Some ob \<and> run_calls (hash_call ex_hash_env) ex_hash_ops ob =
     Some ([HashFlag False, HashFlag False, HashFlag False, HashValue (Some [98]), HashCount 2, HashIncr NotInteger, HashDeleted 2 True], ob')
   \<and> hash_rel ex_hash_env 100 ob' Map.empty"
proof -
  have ok: "env_ok ex_hash_env 100" "\<forall>op \<in> set ex_hash_ops. hop_ok 100 op"
    by (simp_all add: env_ok_def room_def ex_hash_env_def ex_hash_ops_def fits_def)
  have ll: "text_ll [98] = None" by (simp add: text_ll_def getLongLongFromObject_def strtoll10_def isspace_def isdigit_def Let_def)
  have "run_calls hash_spec ex_hash_ops Map.empty =
      Some ([HashFlag False, HashFlag False, HashFlag False, HashValue (Some [98]), HashCount 2, HashIncr NotInteger, HashDeleted 2 True], Map.empty)"
    by (simp add: ex_hash_ops_def incr_spec_def ll fun_eq_iff)
  then show ?thesis using hash_type_refines_map [of ex_hash_ops ex_hash_env 100] ok by (simp add: ex_hash_ops_def del: run_calls.simps)
qed

end
