(* ===== verification/Transactions.thy ===== *)
theory Transactions
  imports Redis_Prelude
begin

text \<open>
  Transactions (\<^verbatim>\<open>multi.c\<close>) with optimistic locking, and the way a request takes through
  \<open>processCommand\<close> and \<open>call\<close> (\<^verbatim>\<open>redis.c\<close>). Clients are numbers; the lists of watching clients and
  of watched keys are lists, and the dictionary of watched keys of a database is the finite
  map it stands for. A reference to a client or a list that is not there is the value \<open>None\<close>.
  What the commands on data do is a parameter: an effect on the data, a reply, the
  modifications they signal, the change of the counter \<open>server.dirty\<close>, and the database the
  client has selected afterwards.
\<close>

section \<open>State\<close>

type_synonym client_id = nat
type_synonym key = "byte list"

datatype 'cmd request = Multi | Exec | Discard | Watch "key list" | Unwatch | Data 'cmd

record 'cmd tx_client =
  tc_db :: nat
  tc_multi :: bool
  tc_dirty_cas :: bool
  tc_dirty_exec :: bool
  tc_queue :: "'cmd request list"
  tc_watched :: "(nat \<times> key) list"

type_synonym watch_table = "nat \<Rightarrow> key \<Rightarrow> client_id list option"

text \<open>\<open>tx_log\<close> is what \<open>propagate\<close> sends to the append only file and the replicas.\<close>

record ('cmd, 'd) tx_server =
  tx_clients :: "client_id \<Rightarrow> 'cmd tx_client option"
  tx_watched :: watch_table
  tx_data :: 'd
  tx_dirty :: int
  tx_log :: "(nat \<times> 'cmd request) list"

datatype touch = TouchKey nat key | TouchFlush "nat option"

record ('r, 'd) tx_effect =
  ef_reply :: 'r
  ef_data :: 'd
  ef_touch :: "touch list"
  ef_dirty :: "int \<Rightarrow> int"
  ef_db :: nat

record ('cmd, 'd, 'r) tx_params =
  p_run :: "nat \<Rightarrow> 'cmd \<Rightarrow> 'd \<Rightarrow> ('r, 'd) tx_effect"
  p_has :: "'d \<Rightarrow> nat \<Rightarrow> key \<Rightarrow> bool"
  p_readonly :: "'cmd \<Rightarrow> bool"

datatype 'r tx_reply = ReplyOk | ReplyError | ReplyQueued | ReplyNull | ReplyAbort | ReplyData 'r | ReplyMulti "'r tx_reply list"

definition new_client :: "'cmd tx_client" where
  "new_client = \<lparr>tc_db = 0, tc_multi = False, tc_dirty_cas = False, tc_dirty_exec = False, tc_queue = [], tc_watched = []\<rparr>"

definition set_client :: "client_id \<Rightarrow> 'cmd tx_client \<Rightarrow> ('cmd, 'd) tx_server \<Rightarrow> ('cmd, 'd) tx_server" where
  "set_client c cl s = s\<lparr>tx_clients := (tx_clients s)(c \<mapsto> cl)\<rparr>"

section \<open>Watched keys\<close>

definition watchForKey :: "client_id \<Rightarrow> key \<Rightarrow> ('cmd, 'd) tx_server \<Rightarrow> ('cmd, 'd) tx_server option" where
  "watchForKey c key s = do {
     cl \<leftarrow> tx_clients s c;
     if (tc_db cl, key) \<in> set (tc_watched cl) then Some s
     else do {
       let db = tc_db cl;
       let clients = (case tx_watched s db key of None \<Rightarrow> [] | Some l \<Rightarrow> l);
       let s = s\<lparr>tx_watched := (tx_watched s)(db := (tx_watched s db)(key \<mapsto> clients @ [c]))\<rparr>;
       Some (set_client c (cl\<lparr>tc_watched := tc_watched cl @ [(db, key)]\<rparr>) s) } }"

fun watch_keys :: "client_id \<Rightarrow> key list \<Rightarrow> ('cmd, 'd) tx_server \<Rightarrow> ('cmd, 'd) tx_server option" where
  "watch_keys c [] s = Some s"
| "watch_keys c (k # ks) s = do { s \<leftarrow> watchForKey c k s; watch_keys c ks s }"

text \<open>The loop over the keys of a client that goes.\<close>

fun unwatch_loop :: "client_id \<Rightarrow> (nat \<times> key) list \<Rightarrow> watch_table \<Rightarrow> watch_table option" where
  "unwatch_loop c [] w = Some w"
| "unwatch_loop c ((db, key) # wks) w = do {
     clients \<leftarrow> w db key;
     if c \<notin> set clients then None
     else do {
       let clients = remove1 c clients;
       unwatch_loop c wks (w(db := (w db)(key := (if clients = [] then None else Some clients)))) } }"

definition unwatchAllKeys :: "client_id \<Rightarrow> ('cmd, 'd) tx_server \<Rightarrow> ('cmd, 'd) tx_server option" where
  "unwatchAllKeys c s = do {
     cl \<leftarrow> tx_clients s c;
     w \<leftarrow> unwatch_loop c (tc_watched cl) (tx_watched s);
     Some (set_client c (cl\<lparr>tc_watched := []\<rparr>) (s\<lparr>tx_watched := w\<rparr>)) }"

fun mark_dirty :: "client_id list \<Rightarrow> (client_id \<Rightarrow> 'cmd tx_client option) \<Rightarrow> (client_id \<Rightarrow> 'cmd tx_client option) option" where
  "mark_dirty [] m = Some m"
| "mark_dirty (c # cs) m = do { cl \<leftarrow> m c; mark_dirty cs (m(c \<mapsto> cl\<lparr>tc_dirty_cas := True\<rparr>)) }"

definition touchWatchedKey :: "nat \<Rightarrow> key \<Rightarrow> ('cmd, 'd) tx_server \<Rightarrow> ('cmd, 'd) tx_server option" where
  "touchWatchedKey db key s =
     (case tx_watched s db key of
        None \<Rightarrow> Some s
      | Some clients \<Rightarrow> do { m \<leftarrow> mark_dirty clients (tx_clients s); Some (s\<lparr>tx_clients := m\<rparr>) })"

definition touchWatchedKeysOnFlush :: "('d \<Rightarrow> nat \<Rightarrow> key \<Rightarrow> bool) \<Rightarrow> nat option \<Rightarrow> ('cmd, 'd) tx_server \<Rightarrow> ('cmd, 'd) tx_server" where
  "touchWatchedKeysOnFlush has dbid s =
     s\<lparr>tx_clients := (\<lambda>c. map_option (\<lambda>cl.
         if list_ex (\<lambda>(db, key). (dbid = None \<or> dbid = Some db) \<and> has (tx_data s) db key) (tc_watched cl)
         then cl\<lparr>tc_dirty_cas := True\<rparr> else cl) (tx_clients s c))\<rparr>"

text \<open>\<open>signalModifiedKey\<close> and \<open>signalFlushedDb\<close>; a flush signals before it empties the database.\<close>

fun signal :: "('d \<Rightarrow> nat \<Rightarrow> key \<Rightarrow> bool) \<Rightarrow> touch \<Rightarrow> ('cmd, 'd) tx_server \<Rightarrow> ('cmd, 'd) tx_server option" where
  "signal has (TouchKey db key) s = touchWatchedKey db key s"
| "signal has (TouchFlush dbid) s = Some (touchWatchedKeysOnFlush has dbid s)"

fun signal_all :: "('d \<Rightarrow> nat \<Rightarrow> key \<Rightarrow> bool) \<Rightarrow> touch list \<Rightarrow> ('cmd, 'd) tx_server \<Rightarrow> ('cmd, 'd) tx_server option" where
  "signal_all has [] s = Some s"
| "signal_all has (t # ts) s = do { s \<leftarrow> signal has t s; signal_all has ts s }"

section \<open>Commands\<close>

definition queueMultiCommand :: "client_id \<Rightarrow> 'cmd request \<Rightarrow> ('cmd, 'd) tx_server \<Rightarrow> ('cmd, 'd) tx_server option" where
  "queueMultiCommand c req s = do {
     cl \<leftarrow> tx_clients s c;
     Some (set_client c (cl\<lparr>tc_queue := tc_queue cl @ [req]\<rparr>) s) }"

definition discardTransaction :: "client_id \<Rightarrow> ('cmd, 'd) tx_server \<Rightarrow> ('cmd, 'd) tx_server option" where
  "discardTransaction c s = do {
     cl \<leftarrow> tx_clients s c;
     let s = set_client c (cl\<lparr>tc_queue := [], tc_multi := False, tc_dirty_cas := False, tc_dirty_exec := False\<rparr>) s;
     unwatchAllKeys c s }"

definition flagTransaction :: "client_id \<Rightarrow> ('cmd, 'd) tx_server \<Rightarrow> ('cmd, 'd) tx_server option" where
  "flagTransaction c s = do {
     cl \<leftarrow> tx_clients s c;
     Some (if tc_multi cl then set_client c (cl\<lparr>tc_dirty_exec := True\<rparr>) s else s) }"

definition multiCommand :: "client_id \<Rightarrow> ('cmd, 'd) tx_server \<Rightarrow> ('r tx_reply \<times> ('cmd, 'd) tx_server) option" where
  "multiCommand c s = do {
     cl \<leftarrow> tx_clients s c;
     Some (if tc_multi cl then (ReplyError, s) else (ReplyOk, set_client c (cl\<lparr>tc_multi := True\<rparr>) s)) }"

definition discardCommand :: "client_id \<Rightarrow> ('cmd, 'd) tx_server \<Rightarrow> ('r tx_reply \<times> ('cmd, 'd) tx_server) option" where
  "discardCommand c s = do {
     cl \<leftarrow> tx_clients s c;
     if \<not> tc_multi cl then Some (ReplyError, s) else do { s \<leftarrow> discardTransaction c s; Some (ReplyOk, s) } }"

definition watchCommand :: "client_id \<Rightarrow> key list \<Rightarrow> ('cmd, 'd) tx_server \<Rightarrow> ('r tx_reply \<times> ('cmd, 'd) tx_server) option" where
  "watchCommand c keys s = do {
     cl \<leftarrow> tx_clients s c;
     if tc_multi cl then Some (ReplyError, s) else do { s \<leftarrow> watch_keys c keys s; Some (ReplyOk, s) } }"

definition unwatchCommand :: "client_id \<Rightarrow> ('cmd, 'd) tx_server \<Rightarrow> ('r tx_reply \<times> ('cmd, 'd) tx_server) option" where
  "unwatchCommand c s = do {
     s \<leftarrow> unwatchAllKeys c s;
     cl \<leftarrow> tx_clients s c;
     Some (ReplyOk, set_client c (cl\<lparr>tc_dirty_cas := False\<rparr>) s) }"

text \<open>
  \<open>call\<close> runs the procedure of a command and propagates the command when the counter of changes
  has grown; a counter that has shrunk counts as unchanged.
\<close>

definition call :: "client_id \<Rightarrow> 'cmd request \<Rightarrow> (('cmd, 'd) tx_server \<Rightarrow> ('r tx_reply \<times> ('cmd, 'd) tx_server) option) \<Rightarrow>
    ('cmd, 'd) tx_server \<Rightarrow> ('r tx_reply \<times> ('cmd, 'd) tx_server) option" where
  "call c req proc s = do {
     (r, s') \<leftarrow> proc s;
     let dirty = tx_dirty s' - tx_dirty s;
     let dirty = (if dirty < 0 then 0 else dirty);
     cl \<leftarrow> tx_clients s' c;
     Some (r, if dirty \<noteq> 0 then s'\<lparr>tx_log := tx_log s' @ [(tc_db cl, req)]\<rparr> else s') }"

text \<open>The procedure of a command on data: it signals what it is going to change and changes it.\<close>

definition data_proc :: "('cmd, 'd, 'r) tx_params \<Rightarrow> client_id \<Rightarrow> 'cmd \<Rightarrow> ('cmd, 'd) tx_server \<Rightarrow> ('r tx_reply \<times> ('cmd, 'd) tx_server) option" where
  "data_proc P c cmd s = do {
     cl \<leftarrow> tx_clients s c;
     let ef = p_run P (tc_db cl) cmd (tx_data s);
     s \<leftarrow> signal_all (p_has P) (ef_touch ef) s;
     cl \<leftarrow> tx_clients s c;
     let s = set_client c (cl\<lparr>tc_db := ef_db ef\<rparr>) s;
     Some (ReplyData (ef_reply ef), s\<lparr>tx_data := ef_data ef, tx_dirty := ef_dirty ef (tx_dirty s)\<rparr>) }"

text \<open>
  The loop of EXEC over the queue; the flag says whether MULTI has been propagated. In the
  command table UNWATCH is read-only, like the other commands on transactions but EXEC. No
  request but commands on data and UNWATCH is ever queued.
\<close>

definition is_readonly :: "('cmd, 'd, 'r) tx_params \<Rightarrow> 'cmd request \<Rightarrow> bool" where
  "is_readonly P req = (case req of Data cmd \<Rightarrow> p_readonly P cmd | Exec \<Rightarrow> False | _ \<Rightarrow> True)"

definition queued_proc :: "('cmd, 'd, 'r) tx_params \<Rightarrow> client_id \<Rightarrow> 'cmd request \<Rightarrow> ('cmd, 'd) tx_server \<Rightarrow> ('r tx_reply \<times> ('cmd, 'd) tx_server) option" where
  "queued_proc P c req s = (case req of Data cmd \<Rightarrow> data_proc P c cmd s | Unwatch \<Rightarrow> unwatchCommand c s | _ \<Rightarrow> None)"

definition execCommandPropagateMulti :: "client_id \<Rightarrow> ('cmd, 'd) tx_server \<Rightarrow> ('cmd, 'd) tx_server option" where
  "execCommandPropagateMulti c s = do { cl \<leftarrow> tx_clients s c; Some (s\<lparr>tx_log := tx_log s @ [(tc_db cl, Multi)]\<rparr>) }"

fun exec_loop :: "('cmd, 'd, 'r) tx_params \<Rightarrow> client_id \<Rightarrow> bool \<Rightarrow> 'cmd request list \<Rightarrow> ('cmd, 'd) tx_server \<Rightarrow>
    ('r tx_reply list \<times> bool \<times> ('cmd, 'd) tx_server) option" where
  "exec_loop P c must_propagate [] s = Some ([], must_propagate, s)"
| "exec_loop P c must_propagate (req # reqs) s = do {
     let now = (\<not> must_propagate \<and> \<not> is_readonly P req);
     s \<leftarrow> (if now then execCommandPropagateMulti c s else Some s);
     (r, s) \<leftarrow> call c req (queued_proc P c req) s;
     (rs, must_propagate, s) \<leftarrow> exec_loop P c (must_propagate \<or> now) reqs s;
     Some (r # rs, must_propagate, s) }"

definition execCommand :: "('cmd, 'd, 'r) tx_params \<Rightarrow> client_id \<Rightarrow> ('cmd, 'd) tx_server \<Rightarrow> ('r tx_reply \<times> ('cmd, 'd) tx_server) option" where
  "execCommand P c s = do {
     cl \<leftarrow> tx_clients s c;
     if \<not> tc_multi cl then Some (ReplyError, s)
     else if tc_dirty_cas cl \<or> tc_dirty_exec cl then do {
       s' \<leftarrow> discardTransaction c s;
       Some (if tc_dirty_exec cl then ReplyAbort else ReplyNull, s') }
     else do {
       s \<leftarrow> unwatchAllKeys c s;
       (rs, must_propagate, s) \<leftarrow> exec_loop P c False (tc_queue cl) s;
       s \<leftarrow> discardTransaction c s;
       Some (ReplyMulti rs, s\<lparr>tx_dirty := tx_dirty s + (if must_propagate then 1 else 0)\<rparr>) } }"

text \<open>The end of \<open>processCommand\<close>: inside a transaction most requests are queued.\<close>

definition proc_of :: "('cmd, 'd, 'r) tx_params \<Rightarrow> client_id \<Rightarrow> 'cmd request \<Rightarrow> ('cmd, 'd) tx_server \<Rightarrow> ('r tx_reply \<times> ('cmd, 'd) tx_server) option" where
  "proc_of P c req =
     (case req of Multi \<Rightarrow> multiCommand c | Exec \<Rightarrow> execCommand P c | Discard \<Rightarrow> discardCommand c | Watch keys \<Rightarrow> watchCommand c keys
      | _ \<Rightarrow> queued_proc P c req)"

definition process_request :: "('cmd, 'd, 'r) tx_params \<Rightarrow> client_id \<Rightarrow> 'cmd request \<Rightarrow> ('cmd, 'd) tx_server \<Rightarrow> ('r tx_reply \<times> ('cmd, 'd) tx_server) option" where
  "process_request P c req s = do {
     cl \<leftarrow> tx_clients s c;
     if tc_multi cl \<and> (case req of Unwatch \<Rightarrow> True | Data _ \<Rightarrow> True | _ \<Rightarrow> False)
     then do { s \<leftarrow> queueMultiCommand c req s; Some (ReplyQueued, s) }
     else call c req (proc_of P c req) s }"

definition free_client :: "client_id \<Rightarrow> ('cmd, 'd) tx_server \<Rightarrow> ('cmd, 'd) tx_server option" where
  "free_client c s = do { s \<leftarrow> unwatchAllKeys c s; Some (s\<lparr>tx_clients := (tx_clients s)(c := None)\<rparr>) }"

section \<open>The checks before a command\<close>

text \<open>
  The conditions of \<open>processCommand\<close> in their order. The values are those that the code
  computes of the configuration, of the connection and of the command table.
\<close>

datatype proc = AuthProc | PingProc | PubsubProc | ReplconfProc | ShutdownNosave | ScriptKill | OtherProc

record command_info =
  ci_arity :: int
  ci_proc :: proc
  ci_write :: bool
  ci_denyoom :: bool
  ci_stale :: bool
  ci_loading :: bool

record gate =
  g_requirepass :: bool
  g_authenticated :: bool
  g_redirect :: bool
  g_maxmemory :: bool
  g_out_of_memory :: bool
  g_disk_error :: bool
  g_replica :: bool
  g_few_replicas :: bool
  g_read_only :: bool
  g_from_master :: bool
  g_pubsub :: bool
  g_link_up :: bool
  g_serve_stale :: bool
  g_loading :: bool
  g_lua_timedout :: bool

datatype verdict = Quit | Reject bool | Admit

definition processCommand :: "gate \<Rightarrow> bool \<Rightarrow> command_info option \<Rightarrow> int \<Rightarrow> verdict" where
  "processCommand g is_quit cmd argc =
     (if is_quit then Quit
      else case cmd of
        None \<Rightarrow> Reject True
      | Some ci \<Rightarrow>
          if (ci_arity ci > 0 \<and> ci_arity ci \<noteq> argc) \<or> argc < - ci_arity ci then Reject True
          else if g_requirepass g \<and> \<not> g_authenticated g \<and> ci_proc ci \<noteq> AuthProc then Reject True
          else if g_redirect g then Reject True
          else if g_maxmemory g \<and> ci_denyoom ci \<and> g_out_of_memory g then Reject True
          else if g_disk_error g \<and> \<not> g_replica g \<and> (ci_write ci \<or> ci_proc ci = PingProc) then Reject True
          else if \<not> g_replica g \<and> g_few_replicas g \<and> ci_write ci then Reject True
          else if g_replica g \<and> g_read_only g \<and> \<not> g_from_master g \<and> ci_write ci then Reject False
          else if g_pubsub g \<and> ci_proc ci \<noteq> PingProc \<and> ci_proc ci \<noteq> PubsubProc then Reject False
          else if g_replica g \<and> \<not> g_link_up g \<and> \<not> g_serve_stale g \<and> \<not> ci_stale ci then Reject True
          else if g_loading g \<and> \<not> ci_loading ci then Reject False
          else if g_lua_timedout g \<and> ci_proc ci \<noteq> AuthProc \<and> ci_proc ci \<noteq> ReplconfProc \<and> ci_proc ci \<noteq> ShutdownNosave \<and> ci_proc ci \<noteq> ScriptKill then Reject True
          else Admit)"

text \<open>A request that is rejected flags the transaction where the code says so.\<close>

definition handle_request :: "('cmd, 'd, 'r) tx_params \<Rightarrow> verdict \<Rightarrow> client_id \<Rightarrow> 'cmd request \<Rightarrow> ('cmd, 'd) tx_server \<Rightarrow> ('r tx_reply \<times> ('cmd, 'd) tx_server) option" where
  "handle_request P v c req s =
     (case v of
        Quit \<Rightarrow> Some (ReplyOk, s)
      | Reject flag \<Rightarrow> do { s \<leftarrow> (if flag then flagTransaction c s else Some s); Some (ReplyError, s) }
      | Admit \<Rightarrow> process_request P c req s)"

section \<open>Steps\<close>

text \<open>What a step does is a label; clients come and go, and their requests interleave.\<close>

datatype 'cmd tx_event = Connect client_id | Disconnect client_id | Request verdict client_id "'cmd request"

inductive tx_step :: "('cmd, 'd, 'r) tx_params \<Rightarrow> ('cmd, 'd) tx_server \<Rightarrow> 'cmd tx_event \<Rightarrow> 'r tx_reply \<Rightarrow> ('cmd, 'd) tx_server \<Rightarrow> bool" for P where
  connect: "tx_clients s c = None \<Longrightarrow> tx_step P s (Connect c) ReplyOk (set_client c new_client s)"
| disconnect: "free_client c s = Some s' \<Longrightarrow> tx_step P s (Disconnect c) ReplyOk s'"
| request: "handle_request P v c req s = Some (r, s') \<Longrightarrow> tx_step P s (Request v c req) r s'"

inductive_cases tx_step_cases [elim]: "tx_step P s e r s'"

inductive tx_reach :: "('cmd, 'd, 'r) tx_params \<Rightarrow> ('cmd, 'd) tx_server \<Rightarrow> bool" for P where
  start: "tx_reach P \<lparr>tx_clients = Map.empty, tx_watched = (\<lambda>_. Map.empty), tx_data = d, tx_dirty = 0, tx_log = []\<rparr>"
| step: "tx_reach P s \<Longrightarrow> tx_step P s e r s' \<Longrightarrow> tx_reach P s'"

inductive tx_run :: "('cmd, 'd, 'r) tx_params \<Rightarrow> ('cmd, 'd) tx_server \<Rightarrow> 'cmd tx_event list \<Rightarrow> ('cmd, 'd) tx_server \<Rightarrow> bool" for P where
  stop: "tx_run P s [] s"
| go: "tx_step P s e r s1 \<Longrightarrow> tx_run P s1 es s2 \<Longrightarrow> tx_run P s (e # es) s2"

end
