(* ===== verification/Transactions_Safe.thy ===== *)
theory Transactions_Safe
  imports Transactions
begin

text \<open>
  The lists of watching clients and of watched keys agree in every reachable state, so no
  reference of the code is dangling; a client whose watched key is modified cannot execute its
  transaction; and a transaction that is executed runs its queue in one piece.
\<close>

section \<open>The invariant\<close>

definition watchers :: "watch_table \<Rightarrow> nat \<Rightarrow> key \<Rightarrow> client_id list" where
  "watchers w db key = (case w db key of None \<Rightarrow> [] | Some l \<Rightarrow> l)"

definition watches :: "('cmd, 'd) tx_server \<Rightarrow> client_id \<Rightarrow> nat \<times> key \<Rightarrow> bool" where
  "watches s c wk \<longleftrightarrow> (\<exists>cl. tx_clients s c = Some cl \<and> wk \<in> set (tc_watched cl))"

definition table_ok :: "watch_table \<Rightarrow> bool" where
  "table_ok w \<longleftrightarrow> (\<forall>db key. w db key \<noteq> Some [] \<and> distinct (watchers w db key))"

definition queue_ok :: "'cmd request list \<Rightarrow> bool" where
  "queue_ok q \<longleftrightarrow> (\<forall>req \<in> set q. req = Unwatch \<or> (\<exists>cmd. req = Data cmd))"

definition tx_inv :: "('cmd, 'd) tx_server \<Rightarrow> bool" where
  "tx_inv s \<longleftrightarrow> table_ok (tx_watched s)
     \<and> (\<forall>c db key. c \<in> set (watchers (tx_watched s) db key) \<longleftrightarrow> watches s c (db, key))
     \<and> (\<forall>c cl. tx_clients s c = Some cl \<longrightarrow> distinct (tc_watched cl) \<and> queue_ok (tc_queue cl))"

lemma tx_invD:
  assumes "tx_inv s"
  shows "table_ok (tx_watched s)" "c \<in> set (watchers (tx_watched s) db key) \<longleftrightarrow> watches s c (db, key)"
    "tx_clients s c = Some cl \<Longrightarrow> distinct (tc_watched cl)" "tx_clients s c = Some cl \<Longrightarrow> queue_ok (tc_queue cl)"
  using assms by (auto simp: tx_inv_def)

lemma set_client_simps [simp]:
  "tx_clients (set_client c cl s) = (tx_clients s)(c \<mapsto> cl)" "tx_watched (set_client c cl s) = tx_watched s"
  "tx_data (set_client c cl s) = tx_data s" "tx_dirty (set_client c cl s) = tx_dirty s" "tx_log (set_client c cl s) = tx_log s"
  by (simp_all add: set_client_def)

lemma watches_update:
  assumes "tx_clients s c = Some cl" "tc_watched cl' = tc_watched cl" "tx_clients s' = (tx_clients s)(c \<mapsto> cl')"
  shows "watches s' c' wk \<longleftrightarrow> watches s c' wk"
  using assms by (auto simp: watches_def)

text \<open>Changes that leave the watched keys alone.\<close>

lemma tx_inv_client:
  assumes "tx_inv s" "tx_clients s c = Some cl" "tc_watched cl' = tc_watched cl" "queue_ok (tc_queue cl')"
    "tx_clients s' = (tx_clients s)(c \<mapsto> cl')" "tx_watched s' = tx_watched s"
  shows "tx_inv s'"
  using assms(1,3,4,5,6) tx_invD(3) [OF assms(1,2)] watches_update [OF assms(2,3,5)] by (auto simp: tx_inv_def)

section \<open>Dirty clients\<close>

definition soil :: "client_id set \<Rightarrow> (client_id \<Rightarrow> 'cmd tx_client option) \<Rightarrow> (client_id \<Rightarrow> 'cmd tx_client option)" where
  "soil D m c = map_option (\<lambda>cl. if c \<in> D then cl\<lparr>tc_dirty_cas := True\<rparr> else cl) (m c)"

definition dirty_by :: "client_id set \<Rightarrow> ('cmd, 'd) tx_server \<Rightarrow> ('cmd, 'd) tx_server" where
  "dirty_by D s = s\<lparr>tx_clients := soil D (tx_clients s)\<rparr>"

lemma dirty_by_simps [simp]:
  "tx_watched (dirty_by D s) = tx_watched s" "tx_data (dirty_by D s) = tx_data s" "tx_log (dirty_by D s) = tx_log s"
  "tx_dirty (dirty_by D s) = tx_dirty s" "tx_clients (dirty_by D s) = soil D (tx_clients s)"
  by (simp_all add: dirty_by_def)

lemma soil_None [simp]: "soil D m c = None \<longleftrightarrow> m c = None"
  by (simp add: soil_def)

lemma soil_Some: "m c = Some cl \<Longrightarrow> soil D m c = Some (cl\<lparr>tc_dirty_cas := tc_dirty_cas cl \<or> c \<in> D\<rparr>)"
  by (simp add: soil_def)

lemma soil_eq_Some: "soil D m c = Some cl' \<longleftrightarrow> (\<exists>cl. m c = Some cl \<and> cl' = cl\<lparr>tc_dirty_cas := tc_dirty_cas cl \<or> c \<in> D\<rparr>)"
  by (cases "m c") (auto simp: soil_Some soil_def)

lemma soil_soil: "soil D (soil E m) = soil (D \<union> E) m"
proof
  fix c show "soil D (soil E m) c = soil (D \<union> E) m c" by (cases "m c") (auto simp: soil_def)
qed

lemma soil_empty: "soil {} m = m"
  by (rule ext) (simp add: soil_def option.map_ident)

lemma watches_dirty_by [simp]: "watches (dirty_by D s) c wk \<longleftrightarrow> watches s c wk"
  by (auto simp: watches_def soil_eq_Some)

lemma dirty_by_inv: "tx_inv s \<Longrightarrow> tx_inv (dirty_by D s)"
  by (auto simp: tx_inv_def soil_eq_Some)

lemma dirty_by_dirty_by: "dirty_by D (dirty_by E s) = dirty_by (D \<union> E) s"
  by (simp add: dirty_by_def soil_soil)

lemma dirty_by_empty: "dirty_by {} s = s"
  by (simp add: dirty_by_def soil_empty)

fun hits :: "('d \<Rightarrow> nat \<Rightarrow> key \<Rightarrow> bool) \<Rightarrow> 'd \<Rightarrow> touch \<Rightarrow> nat \<times> key \<Rightarrow> bool" where
  "hits has d (TouchKey db key) wk \<longleftrightarrow> wk = (db, key)"
| "hits has d (TouchFlush dbid) wk \<longleftrightarrow> (dbid = None \<or> dbid = Some (fst wk)) \<and> has d (fst wk) (snd wk)"

definition hit_clients :: "('d \<Rightarrow> nat \<Rightarrow> key \<Rightarrow> bool) \<Rightarrow> touch list \<Rightarrow> ('cmd, 'd) tx_server \<Rightarrow> client_id set" where
  "hit_clients has ts s = {c. \<exists>wk t. watches s c wk \<and> t \<in> set ts \<and> hits has (tx_data s) t wk}"

lemma mark_dirty_spec:
  assumes "\<forall>c \<in> set cs. m c \<noteq> None"
  shows "mark_dirty cs m = Some (soil (set cs) m)"
  using assms
proof (induction cs arbitrary: m)
  case Nil
  then show ?case by (simp add: soil_empty)
next
  case (Cons c cs)
  then obtain cl where cl: "m c = Some cl" by auto
  have e: "m(c \<mapsto> cl\<lparr>tc_dirty_cas := True\<rparr>) = soil {c} m"
  proof
    fix b show "(m(c \<mapsto> cl\<lparr>tc_dirty_cas := True\<rparr>)) b = soil {c} m b" using cl by (cases "m b") (auto simp: soil_def)
  qed
  have "mark_dirty cs (soil {c} m) = Some (soil (set cs) (soil {c} m))" by (rule Cons.IH) (use Cons.prems in simp)
  then show ?case using cl e by (simp add: soil_soil)
qed

lemma signal_spec:
  assumes "tx_inv s"
  shows "signal has t s = Some (dirty_by (hit_clients has [t] s) s)"
proof (cases t)
  case (TouchKey db key)
  have D: "hit_clients has [t] s = set (watchers (tx_watched s) db key)" using tx_invD(2) [OF assms, of _ db key] by (auto simp: hit_clients_def TouchKey)
  show ?thesis
  proof (cases "tx_watched s db key")
    case None
    then have "hit_clients has [t] s = {}" unfolding D by (simp add: watchers_def)
    then show ?thesis using None TouchKey by (simp add: touchWatchedKey_def dirty_by_empty)
  next
    case (Some l)
    then have l: "set l = hit_clients has [t] s" unfolding D by (simp add: watchers_def)
    have "\<forall>c \<in> set l. tx_clients s c \<noteq> None" unfolding l by (auto simp: hit_clients_def watches_def)
    from mark_dirty_spec [OF this] show ?thesis using Some TouchKey unfolding l by (simp add: touchWatchedKey_def dirty_by_def)
  qed
next
  case (TouchFlush dbid)
  have "list_ex (\<lambda>(db, key). (dbid = None \<or> dbid = Some db) \<and> has (tx_data s) db key) (tc_watched cl) \<longleftrightarrow> c \<in> hit_clients has [t] s"
    if "cl \<in> set_option (tx_clients s c)" for c cl
    using that by (auto simp: hit_clients_def watches_def list_ex_iff TouchFlush)
  then have "touchWatchedKeysOnFlush has dbid s = dirty_by (hit_clients has [t] s) s"
    unfolding touchWatchedKeysOnFlush_def dirty_by_def soil_def by (intro arg_cong [where f = "\<lambda>m. s\<lparr>tx_clients := m\<rparr>"] ext option.map_cong) simp_all
  then show ?thesis using TouchFlush by simp
qed

lemma signal_all_spec:
  assumes "tx_inv s"
  shows "signal_all has ts s = Some (dirty_by (hit_clients has ts s) s)"
  using assms
proof (induction ts arbitrary: s)
  case Nil
  then show ?case by (simp add: hit_clients_def dirty_by_empty)
next
  case (Cons t ts)
  let ?s = "dirty_by (hit_clients has [t] s) s"
  have "hit_clients has ts ?s \<union> hit_clients has [t] s = hit_clients has (t # ts) s" by (auto simp: hit_clients_def)
  then show ?case using signal_spec [OF Cons.prems] Cons.IH [OF dirty_by_inv [OF Cons.prems]] by (simp add: dirty_by_dirty_by)
qed

section \<open>Watching\<close>

lemma watchers_upd: "watchers (w(db := (w db)(key := v))) db' key' = (if db' = db \<and> key' = key then (case v of None \<Rightarrow> [] | Some l \<Rightarrow> l) else watchers w db' key')"
  by (simp add: watchers_def)

lemma watchForKey_spec:
  assumes inv: "tx_inv s" and cl: "tx_clients s c = Some cl"
  obtains s' cl' where "watchForKey c key s = Some s'" "tx_inv s'" "tx_clients s' = (tx_clients s)(c \<mapsto> cl')"
    "cl' = cl\<lparr>tc_watched := tc_watched cl'\<rparr>" "set (tc_watched cl') = insert (tc_db cl, key) (set (tc_watched cl))"
    "tx_data s' = tx_data s" "tx_log s' = tx_log s" "tx_dirty s' = tx_dirty s"
proof (cases "(tc_db cl, key) \<in> set (tc_watched cl)")
  case True
  show thesis
    by (rule that [of s cl]) (use True assms in \<open>simp_all add: watchForKey_def fun_upd_idem insert_absorb\<close>)
next
  case False
  define db where "db = tc_db cl"
  define w where "w = (tx_watched s)(db := (tx_watched s db)(key \<mapsto> watchers (tx_watched s) db key @ [c]))"
  define cl' where "cl' = cl\<lparr>tc_watched := tc_watched cl @ [(db, key)]\<rparr>"
  define s' where "s' = set_client c cl' (s\<lparr>tx_watched := w\<rparr>)"
  have e: "watchForKey c key s = Some s'" using cl False by (simp add: watchForKey_def s'_def cl'_def w_def db_def watchers_def Let_def)
  have W: "watchers w db' key' = (if db' = db \<and> key' = key then watchers (tx_watched s) db key @ [c] else watchers (tx_watched s) db' key')" for db' key'
    unfolding w_def watchers_upd by simp
  have n: "c \<notin> set (watchers (tx_watched s) db key)" using tx_invD(2) [OF inv, of c db key] False cl by (auto simp: watches_def db_def)
  have ws: "watches s' c' wk \<longleftrightarrow> watches s c' wk \<or> (c' = c \<and> wk = (db, key))" for c' wk
    using cl by (auto simp: watches_def s'_def cl'_def)
  have "table_ok w" using tx_invD(1) [OF inv] n unfolding table_ok_def W by (auto simp: w_def)
  moreover have "c' \<in> set (watchers w db' key') \<longleftrightarrow> watches s' c' (db', key')" for c' db' key'
    using tx_invD(2) [OF inv, of c' db' key'] ws by (auto simp: W)
  moreover have "distinct (tc_watched cl')" "queue_ok (tc_queue cl')" using tx_invD(3,4) [OF inv cl] False by (simp_all add: cl'_def db_def)
  ultimately have "tx_inv s'" using inv by (auto simp: tx_inv_def s'_def)
  then show thesis using that [of s' cl'] e by (simp add: s'_def cl'_def db_def)
qed

lemma unwatch_loop_spec:
  assumes "table_ok w" "distinct wks" "\<forall>(db, key) \<in> set wks. c \<in> set (watchers w db key)"
  obtains w' where "unwatch_loop c wks w = Some w'" "table_ok w'"
    "\<forall>db key. set (watchers w' db key) = set (watchers w db key) - (if (db, key) \<in> set wks then {c} else {})"
  using assms
proof (induction wks arbitrary: w thesis)
  case Nil
  show thesis by (rule Nil(1) [of w]) (use Nil in auto)
next
  case (Cons wk wks)
  obtain db key where wk: "wk = (db, key)" by (cases wk)
  have c: "c \<in> set (watchers w db key)" using Cons.prems(4) wk by simp
  then obtain l where l: "w db key = Some l" "c \<in> set l" "watchers w db key = l" by (cases "w db key") (auto simp: watchers_def)
  define w1 where "w1 = w(db := (w db)(key := (if remove1 c l = [] then None else Some (remove1 c l))))"
  have W: "watchers w1 db' key' = (if db' = db \<and> key' = key then remove1 c l else watchers w db' key')" for db' key'
    unfolding w1_def watchers_upd by simp
  have dl: "distinct l" using Cons.prems(2) l(3) unfolding table_ok_def by metis
  have ok: "table_ok w1" using Cons.prems(2) dl unfolding table_ok_def W by (auto simp: w1_def)
  have rest: "\<forall>(db', key') \<in> set wks. c \<in> set (watchers w1 db' key')" using Cons.prems(3,4) wk unfolding W by auto
  have "distinct wks" using Cons.prems(3) by simp
  then obtain w' where w': "unwatch_loop c wks w1 = Some w'" "table_ok w'"
    "\<forall>db key. set (watchers w' db key) = set (watchers w1 db key) - (if (db, key) \<in> set wks then {c} else {})"
    using Cons.IH [OF _ ok _ rest] by blast
  show thesis
  proof (rule Cons.prems(1) [OF _ w'(2)])
    show "unwatch_loop c (wk # wks) w = Some w'" using wk l w'(1) by (simp add: w1_def Let_def)
    show "\<forall>db key. set (watchers w' db key) = set (watchers w db key) - (if (db, key) \<in> set (wk # wks) then {c} else {})"
      using w'(3) wk l(3) dl unfolding W by (auto simp: set_remove1_eq)
  qed
qed

lemma unwatchAllKeys_spec:
  assumes inv: "tx_inv s" and cl: "tx_clients s c = Some cl"
  obtains w where "unwatchAllKeys c s = Some (set_client c (cl\<lparr>tc_watched := []\<rparr>) (s\<lparr>tx_watched := w\<rparr>))"
    "tx_inv (set_client c (cl\<lparr>tc_watched := []\<rparr>) (s\<lparr>tx_watched := w\<rparr>))"
proof -
  have mem: "\<forall>(db, key) \<in> set (tc_watched cl). c \<in> set (watchers (tx_watched s) db key)"
    using tx_invD(2) [OF inv, of c] cl by (auto simp: watches_def)
  obtain w where w: "unwatch_loop c (tc_watched cl) (tx_watched s) = Some w" "table_ok w"
    "\<forall>db key. set (watchers w db key) = set (watchers (tx_watched s) db key) - (if (db, key) \<in> set (tc_watched cl) then {c} else {})"
    by (rule unwatch_loop_spec [OF tx_invD(1) [OF inv] tx_invD(3) [OF inv cl] mem])
  let ?s = "set_client c (cl\<lparr>tc_watched := []\<rparr>) (s\<lparr>tx_watched := w\<rparr>)"
  have "c' \<in> set (watchers w db key) \<longleftrightarrow> watches ?s c' (db, key)" for c' db key
    using w(3) tx_invD(2) [OF inv, of c' db key] cl by (auto simp: watches_def)
  then have "tx_inv ?s" using inv w(2) tx_invD(4) [OF inv cl] by (auto simp: tx_inv_def)
  then show thesis using that cl w(1) by (simp add: unwatchAllKeys_def)
qed

section \<open>What a request may do to others\<close>

text \<open>Work for one client keeps the invariant and does nothing to other clients but mark them as dirty.\<close>

definition dirtied :: "'cmd tx_client \<Rightarrow> 'cmd tx_client \<Rightarrow> bool" where
  "dirtied cl cl' \<longleftrightarrow> (\<exists>b. cl' = cl\<lparr>tc_dirty_cas := tc_dirty_cas cl \<or> b\<rparr>)"

definition serves :: "client_id \<Rightarrow> ('cmd, 'd) tx_server \<Rightarrow> ('cmd, 'd) tx_server \<Rightarrow> bool" where
  "serves c s s' \<longleftrightarrow> tx_inv s' \<and> tx_clients s' c \<noteq> None \<and> (\<forall>c'. c' \<noteq> c \<longrightarrow> rel_option dirtied (tx_clients s c') (tx_clients s' c'))"

lemma dirtied_refl [simp]: "dirtied cl cl"
  unfolding dirtied_def by (rule exI [of _ False]) simp

lemma dirtied_trans: "dirtied a b \<Longrightarrow> dirtied b c \<Longrightarrow> dirtied a c"
  by (auto simp: dirtied_def)

lemma rel_dirtied_trans: "rel_option dirtied x y \<Longrightarrow> rel_option dirtied y z \<Longrightarrow> rel_option dirtied x z"
  by (cases x; cases y; cases z) (auto intro: dirtied_trans)

lemma serves_trans: "serves c s1 s2 \<Longrightarrow> serves c s2 s3 \<Longrightarrow> serves c s1 s3"
  unfolding serves_def by (blast intro: rel_dirtied_trans)

lemma tx_inv_cong: "tx_clients s' = tx_clients s \<Longrightarrow> tx_watched s' = tx_watched s \<Longrightarrow> tx_inv s' \<longleftrightarrow> tx_inv s"
  by (simp add: tx_inv_def watches_def)

lemma rel_dirtied_refl [simp]: "rel_option dirtied x x"
  by (simp add: option.rel_refl)

lemma rel_dirtied_soil [simp]: "rel_option dirtied (m c) (soil D m c)"
  by (cases "m c") (simp add: soil_def, auto simp: soil_Some dirtied_def)

text \<open>A change of the flags, the queue or the database of the client itself.\<close>

lemma serves_client:
  assumes "tx_inv s" "tx_clients s c = Some cl" "tc_watched cl' = tc_watched cl" "queue_ok (tc_queue cl')"
  shows "serves c s (set_client c cl' s)"
  using tx_inv_client [OF assms, of "set_client c cl' s"] by (simp add: serves_def)

lemma unwatchAllKeys_serves:
  assumes "tx_inv s" "tx_clients s c = Some cl"
  obtains s' where "unwatchAllKeys c s = Some s'" "serves c s s'" "tx_clients s' = (tx_clients s)(c \<mapsto> cl\<lparr>tc_watched := []\<rparr>)"
    "tx_data s' = tx_data s" "tx_log s' = tx_log s" "tx_dirty s' = tx_dirty s"
proof -
  obtain w where w: "unwatchAllKeys c s = Some (set_client c (cl\<lparr>tc_watched := []\<rparr>) (s\<lparr>tx_watched := w\<rparr>))"
    "tx_inv (set_client c (cl\<lparr>tc_watched := []\<rparr>) (s\<lparr>tx_watched := w\<rparr>))"
    by (rule unwatchAllKeys_spec [OF assms])
  show thesis by (rule that [OF w(1)]) (use w(2) in \<open>simp_all add: serves_def\<close>)
qed

lemma discardTransaction_serves:
  assumes inv: "tx_inv s" and cl: "tx_clients s c = Some cl"
  obtains s' where "discardTransaction c s = Some s'" "serves c s s'" "tx_clients s' = (tx_clients s)(c \<mapsto> new_client\<lparr>tc_db := tc_db cl\<rparr>)"
    "tx_data s' = tx_data s" "tx_log s' = tx_log s" "tx_dirty s' = tx_dirty s"
proof -
  let ?cl = "cl\<lparr>tc_queue := [], tc_multi := False, tc_dirty_cas := False, tc_dirty_exec := False\<rparr>"
  let ?s = "set_client c ?cl s"
  have 1: "serves c s ?s" by (rule serves_client [OF inv cl]) (simp_all add: queue_ok_def)
  then have "tx_inv ?s" by (simp add: serves_def)
  moreover have "tx_clients ?s c = Some ?cl" by simp
  ultimately obtain s' where s': "unwatchAllKeys c ?s = Some s'" "serves c ?s s'"
    "tx_clients s' = (tx_clients ?s)(c \<mapsto> ?cl\<lparr>tc_watched := []\<rparr>)" "tx_data s' = tx_data ?s" "tx_log s' = tx_log ?s" "tx_dirty s' = tx_dirty ?s"
    by (rule unwatchAllKeys_serves)
  have n: "?cl\<lparr>tc_watched := []\<rparr> = new_client\<lparr>tc_db := tc_db cl\<rparr>" by (simp add: new_client_def)
  show thesis
  proof (rule that)
    show "discardTransaction c s = Some s'" using s'(1) cl by (simp add: discardTransaction_def Let_def)
    show "serves c s s'" by (rule serves_trans [OF 1 s'(2)])
    show "tx_clients s' = (tx_clients s)(c \<mapsto> new_client\<lparr>tc_db := tc_db cl\<rparr>)" unfolding s'(3) n by simp
  qed (use s'(4,5,6) in simp_all)
qed

lemma watch_keys_serves:
  assumes "tx_inv s" "tx_clients s c = Some cl"
  obtains s' cl' where "watch_keys c keys s = Some s'" "serves c s s'" "tx_clients s' c = Some cl'"
    "cl' = cl\<lparr>tc_watched := tc_watched cl'\<rparr>" "set (tc_watched cl') = set (tc_watched cl) \<union> (\<lambda>key. (tc_db cl, key)) ` set keys"
    "tx_data s' = tx_data s" "tx_log s' = tx_log s" "tx_dirty s' = tx_dirty s"
  using assms
proof (induction keys arbitrary: s cl thesis)
  case Nil
  show thesis by (rule Nil(1) [of s cl]) (use Nil(2,3) in \<open>simp_all add: serves_def\<close>)
next
  case (Cons key keys)
  obtain s1 cl1 where 1: "watchForKey c key s = Some s1" "tx_inv s1" "tx_clients s1 = (tx_clients s)(c \<mapsto> cl1)"
    "cl1 = cl\<lparr>tc_watched := tc_watched cl1\<rparr>" "set (tc_watched cl1) = insert (tc_db cl, key) (set (tc_watched cl))"
    "tx_data s1 = tx_data s" "tx_log s1 = tx_log s" "tx_dirty s1 = tx_dirty s"
    by (rule watchForKey_spec [OF Cons.prems(2,3)])
  have db: "tc_db cl1 = tc_db cl" by (subst 1(4)) simp
  have serves1: "serves c s s1" using 1(2,3) by (simp add: serves_def)
  have "tx_clients s1 c = Some cl1" using 1(3) by simp
  then obtain s' cl' where s': "watch_keys c keys s1 = Some s'" "serves c s1 s'" "tx_clients s' c = Some cl'"
    "cl' = cl1\<lparr>tc_watched := tc_watched cl'\<rparr>" "set (tc_watched cl') = set (tc_watched cl1) \<union> (\<lambda>key. (tc_db cl1, key)) ` set keys"
    "tx_data s' = tx_data s1" "tx_log s' = tx_log s1" "tx_dirty s' = tx_dirty s1"
    using Cons.IH [OF _ 1(2)] by blast
  show thesis
  proof (rule Cons.prems(1))
    show "watch_keys c (key # keys) s = Some s'" using 1(1) s'(1) by simp
    show "serves c s s'" by (rule serves_trans [OF serves1 s'(2)])
    show "cl' = cl\<lparr>tc_watched := tc_watched cl'\<rparr>" by (subst s'(4), subst 1(4)) simp
  qed (use 1(5-8) s'(3,5-8) db in auto)
qed

end
