(* ===== verification/Transactions_Steps.thy ===== *)
theory Transactions_Steps
  imports Transactions_Safe
begin

text \<open>
  Every request of a connected client is answered and keeps the invariant, in every state that
  the server can reach; EXEC runs the queue as if its commands were the only ones.
\<close>

section \<open>Procedures\<close>

definition answers :: "client_id \<Rightarrow> (('cmd, 'd) tx_server \<Rightarrow> ('r tx_reply \<times> ('cmd, 'd) tx_server) option) \<Rightarrow> ('cmd, 'd) tx_server \<Rightarrow> bool" where
  "answers c f s \<longleftrightarrow> (\<exists>r s'. f s = Some (r, s') \<and> serves c s s')"

lemma answersI: "f s = Some (r, s') \<Longrightarrow> serves c s s' \<Longrightarrow> answers c f s"
  by (auto simp: answers_def)

lemma serves_refl: "tx_inv s \<Longrightarrow> tx_clients s c = Some cl \<Longrightarrow> serves c s s"
  by (simp add: serves_def)

lemma serves_cong:
  assumes "serves c s s1" "tx_clients s2 = tx_clients s1" "tx_watched s2 = tx_watched s1"
  shows "serves c s s2"
  using assms tx_inv_cong [OF assms(2,3)] by (simp add: serves_def)

lemma multiCommand_runs: "tx_inv s \<Longrightarrow> tx_clients s c = Some cl \<Longrightarrow> answers c (multiCommand c) s"
  using serves_refl [of s c cl] serves_client [of s c cl "cl\<lparr>tc_multi := True\<rparr>"] tx_invD(4) [of s c cl]
  by (auto simp: answers_def multiCommand_def)

lemma discardCommand_runs:
  assumes "tx_inv s" "tx_clients s c = Some cl"
  shows "answers c (discardCommand c) s"
proof -
  obtain s' where "discardTransaction c s = Some s'" "serves c s s'" by (rule discardTransaction_serves [OF assms])
  then show ?thesis using assms serves_refl [OF assms] by (auto simp: answers_def discardCommand_def)
qed

lemma watchCommand_runs:
  assumes "tx_inv s" "tx_clients s c = Some cl"
  shows "answers c (watchCommand c keys) s"
proof -
  obtain s' where "watch_keys c keys s = Some s'" "serves c s s'" by (rule watch_keys_serves [OF assms])
  then show ?thesis using assms serves_refl [OF assms] by (auto simp: answers_def watchCommand_def)
qed

lemma unwatchCommand_spec:
  assumes inv: "tx_inv s" and cl: "tx_clients s c = Some cl"
  obtains s' where "unwatchCommand c s = Some (ReplyOk, s')" "serves c s s'"
    "tx_clients s' c = Some (cl\<lparr>tc_watched := [], tc_dirty_cas := False\<rparr>)"
    "tx_data s' = tx_data s" "tx_log s' = tx_log s" "tx_dirty s' = tx_dirty s"
proof -
  let ?cl = "cl\<lparr>tc_watched := []\<rparr>"
  obtain s1 where 1: "unwatchAllKeys c s = Some s1" "serves c s s1" "tx_clients s1 = (tx_clients s)(c \<mapsto> ?cl)"
    "tx_data s1 = tx_data s" "tx_log s1 = tx_log s" "tx_dirty s1 = tx_dirty s"
    by (rule unwatchAllKeys_serves [OF assms])
  have c1: "tx_clients s1 c = Some ?cl" using 1(3) by simp
  let ?s = "set_client c (?cl\<lparr>tc_dirty_cas := False\<rparr>) s1"
  have "serves c s1 ?s" by (rule serves_client [OF _ c1]) (use 1(2) tx_invD(4) [OF inv cl] in \<open>simp_all add: serves_def\<close>)
  then have "serves c s ?s" by (rule serves_trans [OF 1(2)])
  then show thesis using that [of ?s] 1 c1 by (simp add: unwatchCommand_def)
qed

lemma data_proc_eq:
  assumes inv: "tx_inv s" and cl: "tx_clients s c = Some cl" and ef: "ef = p_run P (tc_db cl) cmd (tx_data s)"
    and H: "H = hit_clients (p_has P) (ef_touch ef) s"
  shows "data_proc P c cmd s = Some (ReplyData (ef_reply ef),
    (set_client c (cl\<lparr>tc_dirty_cas := tc_dirty_cas cl \<or> c \<in> H, tc_db := ef_db ef\<rparr>) (dirty_by H s))
      \<lparr>tx_data := ef_data ef, tx_dirty := ef_dirty ef (tx_dirty s)\<rparr>)"
  using signal_all_spec [OF inv, of "p_has P" "ef_touch ef"] cl unfolding data_proc_def
  by (simp add: Let_def soil_Some flip: ef H)

lemma data_proc_spec:
  assumes inv: "tx_inv s" and cl: "tx_clients s c = Some cl" and ef: "ef = p_run P (tc_db cl) cmd (tx_data s)"
  obtains s' cl' where "data_proc P c cmd s = Some (ReplyData (ef_reply ef), s')" "serves c s s'"
    "tx_clients s' c = Some cl'" "tc_db cl' = ef_db ef" "tx_data s' = ef_data ef" "tx_log s' = tx_log s" "tx_dirty s' = ef_dirty ef (tx_dirty s)"
proof -
  let ?H = "hit_clients (p_has P) (ef_touch ef) s"
  let ?cl = "cl\<lparr>tc_dirty_cas := tc_dirty_cas cl \<or> c \<in> ?H\<rparr>"
  let ?s = "set_client c (?cl\<lparr>tc_db := ef_db ef\<rparr>) (dirty_by ?H s)"
  have c: "tx_clients (dirty_by ?H s) c = Some ?cl" using soil_Some [where m = "tx_clients s", OF cl] by simp
  have 1: "serves c s (dirty_by ?H s)" using dirty_by_inv [OF inv] cl by (simp add: serves_def)
  have "serves c (dirty_by ?H s) ?s" by (rule serves_client [OF dirty_by_inv [OF inv] c]) (use tx_invD(4) [OF inv cl] in simp_all)
  then have 2: "serves c s ?s" by (rule serves_trans [OF 1])
  show thesis
  proof (rule that [where cl' = "?cl\<lparr>tc_db := ef_db ef\<rparr>", OF data_proc_eq [OF inv cl ef refl]])
    show "serves c s (?s\<lparr>tx_data := ef_data ef, tx_dirty := ef_dirty ef (tx_dirty s)\<rparr>)" by (rule serves_cong [OF 2]) simp_all
  qed simp_all
qed

text \<open>\<open>call\<close> adds nothing but the propagation.\<close>

lemma call_spec:
  assumes "f s = Some (r, s1)" "serves c s s1"
  obtains s' where "call c req f s = Some (r, s')" "serves c s s'" "tx_clients s' = tx_clients s1" "tx_data s' = tx_data s1" "tx_dirty s' = tx_dirty s1"
    "tx_log s' = tx_log s1 @ (if tx_dirty s < tx_dirty s1 then [(tc_db (the (tx_clients s1 c)), req)] else [])"
proof -
  obtain cl where cl: "tx_clients s1 c = Some cl" using assms(2) by (auto simp: serves_def)
  define s' where "s' = (if tx_dirty s < tx_dirty s1 then s1\<lparr>tx_log := tx_log s1 @ [(tc_db cl, req)]\<rparr> else s1)"
  have "call c req f s = Some (r, s')" using assms(1) cl by (simp add: call_def Let_def s'_def)
  moreover have "serves c s s'" by (rule serves_cong [OF assms(2)]) (simp_all add: s'_def)
  ultimately show thesis by (rule that) (simp_all add: s'_def cl)
qed

lemma call_runs: "answers c f s \<Longrightarrow> answers c (call c req f) s"
  using call_spec by (metis answers_def)

section \<open>EXEC\<close>

text \<open>
  The commands of a queue on the selected database, the data and the counter alone, with nobody
  else there; and those of them that raise the counter, with the database they are run in.
\<close>

fun serial :: "('cmd, 'd, 'r) tx_params \<Rightarrow> nat \<times> 'd \<times> int \<Rightarrow> 'cmd request list \<Rightarrow> 'r tx_reply list \<times> nat \<times> 'd \<times> int" where
  "serial P x [] = ([], x)"
| "serial P (db, d, n) (Data cmd # reqs) =
     (let ef = p_run P db cmd d; (rs, y) = serial P (ef_db ef, ef_data ef, ef_dirty ef n) reqs in (ReplyData (ef_reply ef) # rs, y))"
| "serial P x (_ # reqs) = (let (rs, y) = serial P x reqs in (ReplyOk # rs, y))"

fun changes :: "('cmd, 'd, 'r) tx_params \<Rightarrow> nat \<times> 'd \<times> int \<Rightarrow> 'cmd request list \<Rightarrow> (nat \<times> 'cmd request) list" where
  "changes P x [] = []"
| "changes P (db, d, n) (Data cmd # reqs) =
     (let ef = p_run P db cmd d in
      (if n < ef_dirty ef n then [(ef_db ef, Data cmd)] else []) @ changes P (ef_db ef, ef_data ef, ef_dirty ef n) reqs)"
| "changes P x (_ # reqs) = changes P x reqs"

lemma serial_Cons: "serial P x (req # reqs) = (let (rs, y) = serial P x [req]; (rs', z) = serial P y reqs in (rs @ rs', z))"
  by (cases req; cases x) (auto simp: Let_def split: prod.splits)

lemma snd_serial_Cons: "snd (serial P x (req # reqs)) = snd (serial P (snd (serial P x [req])) reqs)"
  by (subst serial_Cons) (simp add: Let_def case_prod_beta)

lemma changes_Cons: "changes P x (req # reqs) = changes P x [req] @ changes P (snd (serial P x [req])) reqs"
  by (cases req; cases x) (simp_all add: Let_def)

lemma queued_call_spec:
  fixes P :: "('cmd, 'd, 'r) tx_params"
  assumes inv: "tx_inv s" and cl: "tx_clients s c = Some cl" and req: "queue_ok [req]"
  obtains r s' cl' where "call c req (queued_proc P c req) s = Some (r, s')" "serves c s s'" "tx_clients s' c = Some cl'"
    "serial P (tc_db cl, tx_data s, tx_dirty s) [req] = ([r], tc_db cl', tx_data s', tx_dirty s')"
    "tx_log s' = tx_log s @ changes P (tc_db cl, tx_data s, tx_dirty s) [req]"
proof (cases "\<exists>cmd. req = Data cmd")
  case True
  then obtain cmd where r: "req = Data cmd" by blast
  define ef where "ef = p_run P (tc_db cl) cmd (tx_data s)"
  obtain s1 cl1 where 1: "data_proc P c cmd s = Some (ReplyData (ef_reply ef), s1)" "serves c s s1" "tx_clients s1 c = Some cl1"
    "tc_db cl1 = ef_db ef" "tx_data s1 = ef_data ef" "tx_log s1 = tx_log s" "tx_dirty s1 = ef_dirty ef (tx_dirty s)"
    by (rule data_proc_spec [OF inv cl ef_def])
  have "queued_proc P c req s = Some (ReplyData (ef_reply ef), s1)" using 1(1) r by (simp add: queued_proc_def)
  then obtain s' where "call c req (queued_proc P c req) s = Some (ReplyData (ef_reply ef), s')" "serves c s s'" "tx_clients s' = tx_clients s1" "tx_data s' = tx_data s1" "tx_dirty s' = tx_dirty s1"
    "tx_log s' = tx_log s1 @ (if tx_dirty s < tx_dirty s1 then [(tc_db (the (tx_clients s1 c)), req)] else [])"
    by (rule call_spec [OF _ 1(2)])
  then show thesis using that [of _ s' cl1] 1(3-7) r by (simp add: ef_def Let_def)
next
  case False
  then have r: "req = Unwatch" using req by (simp add: queue_ok_def)
  obtain s1 where 1: "unwatchCommand c s = Some (ReplyOk :: 'r tx_reply, s1)" "serves c s s1"
    "tx_clients s1 c = Some (cl\<lparr>tc_watched := [], tc_dirty_cas := False\<rparr>)" "tx_data s1 = tx_data s" "tx_log s1 = tx_log s" "tx_dirty s1 = tx_dirty s"
    by (rule unwatchCommand_spec [OF inv cl])
  have "queued_proc P c req s = Some (ReplyOk, s1)" using 1(1) r by (simp add: queued_proc_def)
  then obtain s' where "call c req (queued_proc P c req) s = Some (ReplyOk, s')" "serves c s s'" "tx_clients s' = tx_clients s1" "tx_data s' = tx_data s1" "tx_dirty s' = tx_dirty s1"
    "tx_log s' = tx_log s1 @ (if tx_dirty s < tx_dirty s1 then [(tc_db (the (tx_clients s1 c)), req)] else [])"
    by (rule call_spec [OF _ 1(2)])
  then show thesis using that [of _ s'] 1(3-6) r by simp
qed

lemma queue_ok_Cons: "queue_ok (req # reqs) \<longleftrightarrow> queue_ok [req] \<and> queue_ok reqs"
  by (simp add: queue_ok_def)

lemma propagate_multi_serves:
  assumes "tx_inv s" "tx_clients s c = Some cl"
  obtains s' where "(if b then execCommandPropagateMulti c s else Some s) = Some s'" "serves c s s'" "tx_clients s' = tx_clients s"
    "tx_data s' = tx_data s" "tx_dirty s' = tx_dirty s" "tx_log s' = tx_log s @ (if b then [(tc_db cl, Multi)] else [])"
proof -
  define s' where "s' = (if b then s\<lparr>tx_log := tx_log s @ [(tc_db cl, Multi)]\<rparr> else s)"
  have "serves c s s'" by (rule serves_cong [OF serves_refl [OF assms]]) (simp_all add: s'_def)
  then show thesis by (rule that [rotated]) (use assms in \<open>simp_all add: s'_def execCommandPropagateMulti_def\<close>)
qed

lemma exec_loop_spec:
  fixes P :: "('cmd, 'd, 'r) tx_params"
  assumes "tx_inv s" "tx_clients s c = Some cl" "queue_ok reqs"
  obtains rs mp s' cl' where "exec_loop P c must_propagate reqs s = Some (rs, mp, s')" "serves c s s'" "tx_clients s' c = Some cl'"
    "serial P (tc_db cl, tx_data s, tx_dirty s) reqs = (rs, tc_db cl', tx_data s', tx_dirty s')"
  using assms
proof (induction reqs arbitrary: s cl must_propagate thesis)
  case Nil
  show thesis by (rule Nil(1)) (use Nil(2,3) serves_refl in simp_all)
next
  case (Cons req reqs)
  define now where "now = (\<not> must_propagate \<and> \<not> is_readonly P req)"
  obtain s1 where 1: "(if now then execCommandPropagateMulti c s else Some s) = Some s1" "serves c s s1" "tx_clients s1 = tx_clients s" "tx_data s1 = tx_data s" "tx_dirty s1 = tx_dirty s"
    by (rule propagate_multi_serves [OF Cons.prems(2,3)])
  have inv1: "tx_inv s1" and c1: "tx_clients s1 c = Some cl" and q: "queue_ok [req]" "queue_ok reqs"
    using 1(2,3) Cons.prems(3,4) queue_ok_Cons [of req reqs] by (simp_all add: serves_def)
  obtain r s2 cl2 where 2: "call c req (queued_proc P c req) s1 = Some (r, s2)" "serves c s1 s2" "tx_clients s2 c = Some cl2"
    "serial P (tc_db cl, tx_data s1, tx_dirty s1) [req] = ([r], tc_db cl2, tx_data s2, tx_dirty s2)"
    by (rule queued_call_spec [OF inv1 c1 q(1)])
  have inv2: "tx_inv s2" using 2(2) by (simp add: serves_def)
  obtain rs mp s3 cl3 where 3: "exec_loop P c (must_propagate \<or> now) reqs s2 = Some (rs, mp, s3)" "serves c s2 s3" "tx_clients s3 c = Some cl3"
    "serial P (tc_db cl2, tx_data s2, tx_dirty s2) reqs = (rs, tc_db cl3, tx_data s3, tx_dirty s3)"
    by (rule Cons.IH [OF _ inv2 2(3) q(2)])
  show thesis
  proof (rule Cons.prems(1))
    show "exec_loop P c must_propagate (req # reqs) s = Some (r # rs, mp, s3)"
      using 1(1) 2(1) 3(1) unfolding now_def by (simp add: Let_def del: if_split)
    show "serves c s s3" by (rule serves_trans [OF serves_trans [OF 1(2) 2(2)] 3(2)])
    show "serial P (tc_db cl, tx_data s, tx_dirty s) (req # reqs) = (r # rs, tc_db cl3, tx_data s3, tx_dirty s3)"
      using 2(4) 3(4) 1(4,5) serial_Cons [of P "(tc_db cl, tx_data s, tx_dirty s)" req reqs] by simp
  qed (rule 3(3))
qed

lemma exec_spec:
  fixes P :: "('cmd, 'd, 'r) tx_params"
  assumes inv: "tx_inv s" and cl: "tx_clients s c = Some cl" and multi: "tc_multi cl" and clean: "\<not> tc_dirty_cas cl" "\<not> tc_dirty_exec cl"
  obtains rs mp s0 s1 s2 db' where "execCommand P c s = Some (ReplyMulti rs, s2)" "serves c s s2"
    "tx_clients s2 c = Some (new_client\<lparr>tc_db := db'\<rparr>)" "serial P (tc_db cl, tx_data s, tx_dirty s) (tc_queue cl) = (rs, db', tx_data s2, tx_dirty s1)"
    "unwatchAllKeys c s = Some s0" "serves c s s0" "tx_data s0 = tx_data s" "tx_log s0 = tx_log s" "tx_dirty s0 = tx_dirty s"
    "tx_clients s0 c = Some (cl\<lparr>tc_watched := []\<rparr>)"
    "exec_loop P c False (tc_queue cl) s0 = Some (rs, mp, s1)" "serves c s0 s1" "tx_log s2 = tx_log s1" "tx_data s2 = tx_data s1"
    "tx_dirty s2 = tx_dirty s1 + (if mp then 1 else 0)" "serves c s1 s2"
proof -
  let ?cl = "cl\<lparr>tc_watched := []\<rparr>"
  obtain s0 where 0: "unwatchAllKeys c s = Some s0" "serves c s s0" "tx_clients s0 = (tx_clients s)(c \<mapsto> ?cl)"
    "tx_data s0 = tx_data s" "tx_log s0 = tx_log s" "tx_dirty s0 = tx_dirty s"
    by (rule unwatchAllKeys_serves [OF inv cl])
  have inv0: "tx_inv s0" and c0: "tx_clients s0 c = Some ?cl" using 0(2,3) by (simp_all add: serves_def)
  obtain rs mp s1 cl1 where 1: "exec_loop P c False (tc_queue cl) s0 = Some (rs, mp, s1)" "serves c s0 s1" "tx_clients s1 c = Some cl1"
    "serial P (tc_db ?cl, tx_data s0, tx_dirty s0) (tc_queue cl) = (rs, tc_db cl1, tx_data s1, tx_dirty s1)"
    by (rule exec_loop_spec [OF inv0 c0 tx_invD(4) [OF inv cl]])
  have inv1: "tx_inv s1" using 1(2) by (simp add: serves_def)
  obtain s2 where 2: "discardTransaction c s1 = Some s2" "serves c s1 s2" "tx_clients s2 = (tx_clients s1)(c \<mapsto> new_client\<lparr>tc_db := tc_db cl1\<rparr>)"
    "tx_data s2 = tx_data s1" "tx_log s2 = tx_log s1" "tx_dirty s2 = tx_dirty s1"
    by (rule discardTransaction_serves [OF inv1 1(3)])
  let ?s = "s2\<lparr>tx_dirty := tx_dirty s2 + (if mp then 1 else 0)\<rparr>"
  have e: "execCommand P c s = Some (ReplyMulti rs, ?s)"
    using cl multi clean 0(1) 1(1) 2(1) by (simp add: execCommand_def)
  have s12: "serves c s1 ?s" by (rule serves_cong [OF 2(2)]) simp_all
  have "serves c s ?s" by (rule serves_trans [OF serves_trans [OF 0(2) 1(2)] s12])
  from that [OF e this _ _ 0(1,2,4,5,6) c0 1(1,2) _ _ _ s12, of "tc_db cl1"] show thesis using 1(4) 2(3-6) 0(4,6) by simp
qed

lemma exec_abort:
  assumes inv: "tx_inv s" and cl: "tx_clients s c = Some cl" and multi: "tc_multi cl" and dirty: "tc_dirty_cas cl \<or> tc_dirty_exec cl"
  obtains s' where "execCommand P c s = Some (if tc_dirty_exec cl then ReplyAbort else ReplyNull, s')" "serves c s s'"
    "tx_clients s' = (tx_clients s)(c \<mapsto> new_client\<lparr>tc_db := tc_db cl\<rparr>)" "tx_data s' = tx_data s" "tx_log s' = tx_log s" "tx_dirty s' = tx_dirty s"
proof -
  obtain s' where s': "discardTransaction c s = Some s'" "serves c s s'" "tx_clients s' = (tx_clients s)(c \<mapsto> new_client\<lparr>tc_db := tc_db cl\<rparr>)"
    "tx_data s' = tx_data s" "tx_log s' = tx_log s" "tx_dirty s' = tx_dirty s"
    by (rule discardTransaction_serves [OF inv cl])
  show thesis by (rule that [OF _ s'(2-6)]) (use cl multi dirty s'(1) in \<open>simp add: execCommand_def\<close>)
qed

lemma execCommand_runs:
  fixes P :: "('cmd, 'd, 'r) tx_params"
  assumes inv: "tx_inv s" and cl: "tx_clients s c = Some cl"
  shows "answers c (execCommand P c) s"
proof -
  consider "\<not> tc_multi cl" | "tc_multi cl" "tc_dirty_cas cl \<or> tc_dirty_exec cl" | "tc_multi cl" "\<not> tc_dirty_cas cl" "\<not> tc_dirty_exec cl" by blast
  then show ?thesis
  proof cases
    case 1
    then show ?thesis using cl serves_refl [OF inv cl] by (simp add: answers_def execCommand_def)
  next
    case 2
    show ?thesis by (rule exec_abort [OF inv cl 2]) (rule answersI)
  next
    case 3
    show ?thesis by (rule exec_spec [OF inv cl 3, of P]) (rule answersI)
  qed
qed

section \<open>Requests\<close>

lemma proc_of_runs:
  assumes inv: "tx_inv s" and cl: "tx_clients s c = Some cl"
  shows "answers c (proc_of P c req) s"
proof (cases req)
  case (Data cmd)
  obtain s' where "data_proc P c cmd s = Some (ReplyData (ef_reply (p_run P (tc_db cl) cmd (tx_data s))), s')" "serves c s s'"
    by (rule data_proc_spec [OF inv cl refl])
  then show ?thesis using Data by (auto simp: answers_def proc_of_def queued_proc_def)
next
  case Unwatch
  have "answers c (unwatchCommand c) s" by (rule unwatchCommand_spec [OF inv cl]) (rule answersI)
  then show ?thesis using Unwatch by (simp add: answers_def proc_of_def queued_proc_def)
qed (use assms in \<open>simp_all add: proc_of_def multiCommand_runs execCommand_runs discardCommand_runs watchCommand_runs\<close>)

lemma process_request_runs:
  assumes inv: "tx_inv s" and cl: "tx_clients s c = Some cl"
  shows "answers c (process_request P c req) s"
proof (cases "tc_multi cl \<and> (case req of Unwatch \<Rightarrow> True | Data _ \<Rightarrow> True | _ \<Rightarrow> False)")
  case True
  have "queue_ok (tc_queue cl @ [req])" using True tx_invD(4) [OF inv cl] by (auto simp: queue_ok_def split: request.splits)
  then have "serves c s (set_client c (cl\<lparr>tc_queue := tc_queue cl @ [req]\<rparr>) s)" by (intro serves_client [OF inv cl]) simp_all
  then show ?thesis using True cl by (simp add: answers_def process_request_def queueMultiCommand_def)
next
  case False
  have "process_request P c req s = call c req (proc_of P c req) s" using cl False by (auto simp: process_request_def)
  then show ?thesis using call_runs [OF proc_of_runs [OF inv cl], of req P req] by (simp add: answers_def)
qed

lemma handle_request_runs:
  assumes inv: "tx_inv s" and cl: "tx_clients s c = Some cl"
  shows "answers c (handle_request P v c req) s"
proof (cases v)
  case (Reject flag)
  have "serves c s (set_client c (cl\<lparr>tc_dirty_exec := True\<rparr>) s)" by (rule serves_client [OF inv cl]) (simp_all add: tx_invD(4) [OF inv cl])
  then show ?thesis using Reject cl serves_refl [OF inv cl] by (auto simp: answers_def handle_request_def flagTransaction_def)
qed (use process_request_runs [OF inv cl] serves_refl [OF inv cl] in \<open>auto simp: answers_def handle_request_def\<close>)

section \<open>Propagation\<close>

text \<open>Commands that never lower the counter of changes, and leave it alone when they are read-only.\<close>

definition counts_changes :: "('cmd, 'd, 'r) tx_params \<Rightarrow> bool" where
  "counts_changes P \<longleftrightarrow> (\<forall>db cmd d n. n \<le> ef_dirty (p_run P db cmd d) n \<and> (p_readonly P cmd \<longrightarrow> ef_dirty (p_run P db cmd d) n = n))"

lemma readonly_changes:
  assumes "counts_changes P" "is_readonly P req"
  shows "changes P x [req] = []"
proof (cases req)
  case (Data cmd)
  obtain db d n where "x = (db, d, n)" by (cases x)
  then show ?thesis using assms Data by (simp add: counts_changes_def is_readonly_def Let_def)
qed (use assms in \<open>simp_all add: is_readonly_def\<close>)

lemma counter_step:
  assumes "counts_changes P"
  shows "snd (snd x) \<le> snd (snd (snd (serial P x [req])))"
    "is_readonly P req \<Longrightarrow> snd (snd (snd (serial P x [req]))) = snd (snd x)"
proof -
  obtain db d n where x: "x = (db, d, n)" by (cases x)
  have "n \<le> ef_dirty (p_run P db cmd d) n" "p_readonly P cmd \<Longrightarrow> ef_dirty (p_run P db cmd d) n = n" for cmd
    using assms by (simp_all add: counts_changes_def)
  then show "snd (snd x) \<le> snd (snd (snd (serial P x [req])))"
    "is_readonly P req \<Longrightarrow> snd (snd (snd (serial P x [req]))) = snd (snd x)"
    using x by (cases req; simp add: Let_def is_readonly_def)+
qed

lemma readonly_queue:
  assumes "counts_changes P" "list_all (is_readonly P) reqs"
  shows "changes P x reqs = []" "snd (snd (snd (serial P x reqs))) = snd (snd x)"
proof -
  show "changes P x reqs = []" using assms(2)
  proof (induction reqs arbitrary: x)
    case (Cons req reqs)
    then show ?case using changes_Cons [of P x req reqs] readonly_changes [OF assms(1), of req x] by simp
  qed simp
  show "snd (snd (snd (serial P x reqs))) = snd (snd x)" using assms(2)
  proof (induction reqs arbitrary: x)
    case (Cons req reqs)
    have "is_readonly P req" using Cons.prems by simp
    from counter_step(2) [OF assms(1) this, of x] show ?case using Cons unfolding snd_serial_Cons [of P x req reqs] by simp
  qed simp
qed

lemma serial_mono: "counts_changes P \<Longrightarrow> snd (snd x) \<le> snd (snd (snd (serial P x reqs)))"
proof (induction reqs arbitrary: x)
  case (Cons req reqs)
  from order_trans [OF counter_step(1) [OF Cons.prems, of x req] Cons.IH [OF Cons.prems]]
  show ?case unfolding snd_serial_Cons [of P x req reqs] .
qed simp

lemma exec_loop_log:
  fixes P :: "('cmd, 'd, 'r) tx_params"
  assumes "counts_changes P" "tx_inv s" "tx_clients s c = Some cl" "queue_ok reqs" "exec_loop P c must_propagate reqs s = Some (rs, mp, s')"
  shows "(mp \<longleftrightarrow> must_propagate \<or> \<not> list_all (is_readonly P) reqs)
    \<and> (\<exists>db. tx_log s' = tx_log s @ (if mp \<and> \<not> must_propagate then [(db, Multi)] else []) @ changes P (tc_db cl, tx_data s, tx_dirty s) reqs)"
  using assms(2-)
proof (induction reqs arbitrary: s cl must_propagate rs)
  case (Cons req reqs)
  define now where "now = (\<not> must_propagate \<and> \<not> is_readonly P req)"
  obtain s1 where 1: "(if now then execCommandPropagateMulti c s else Some s) = Some s1" "serves c s s1" "tx_clients s1 = tx_clients s" "tx_data s1 = tx_data s" "tx_dirty s1 = tx_dirty s"
    "tx_log s1 = tx_log s @ (if now then [(tc_db cl, Multi)] else [])"
    by (rule propagate_multi_serves [OF Cons.prems(1,2)])
  have inv1: "tx_inv s1" and c1: "tx_clients s1 c = Some cl" and q: "queue_ok [req]" "queue_ok reqs"
    using 1(2,3) Cons.prems(2,3) queue_ok_Cons [of req reqs] by (simp_all add: serves_def)
  let ?x = "(tc_db cl, tx_data s, tx_dirty s)"
  obtain r s2 cl2 where 2: "call c req (queued_proc P c req) s1 = Some (r, s2)" "serves c s1 s2" "tx_clients s2 c = Some cl2"
    "serial P ?x [req] = ([r], tc_db cl2, tx_data s2, tx_dirty s2)" "tx_log s2 = tx_log s1 @ changes P ?x [req]"
    by (rule queued_call_spec [OF inv1 c1 q(1), of P, unfolded 1(4,5)])
  have inv2: "tx_inv s2" using 2(2) by (simp add: serves_def)
  obtain rs' where "exec_loop P c (must_propagate \<or> now) reqs s2 = Some (rs', mp, s')"
    using Cons.prems(4) 1(1) 2(1) unfolding now_def by (auto simp: Let_def bind_eq_Some_conv simp del: if_split)
  from Cons.IH [OF inv2 2(3) q(2) this] obtain db where 3: "mp \<longleftrightarrow> must_propagate \<or> now \<or> \<not> list_all (is_readonly P) reqs"
    "tx_log s' = tx_log s2 @ (if mp \<and> \<not> (must_propagate \<or> now) then [(db, Multi)] else []) @ changes P (tc_db cl2, tx_data s2, tx_dirty s2) reqs"
    by auto
  have ch: "changes P ?x (req # reqs) = changes P ?x [req] @ changes P (tc_db cl2, tx_data s2, tx_dirty s2) reqs"
    using changes_Cons [of P ?x req reqs] 2(4) by simp
  have mp: "mp \<longleftrightarrow> must_propagate \<or> \<not> list_all (is_readonly P) (req # reqs)" using 3(1) unfolding now_def by auto
  have "tx_log s' = tx_log s @ (if mp \<and> \<not> must_propagate then [(if now then tc_db cl else db, Multi)] else []) @ changes P ?x (req # reqs)"
  proof (cases "is_readonly P req")
    case True
    then show ?thesis using readonly_changes [OF assms(1) True, of ?x] 3(2) 2(5) 1(6) unfolding ch by (simp add: now_def)
  next
    case False
    then show ?thesis using 3 2(5) 1(6) unfolding ch by (simp add: now_def)
  qed
  then show ?case using mp by blast
qed simp

end
