(* ===== verification/Transactions_Correct.thy ===== *)
theory Transactions_Correct
  imports Transactions_Steps
begin

text \<open>
  The guarantees of transactions over all interleavings: references are never dangling, WATCH
  guards the watched keys, EXEC is atomic and propagates its commands as one block, and an
  error while queueing aborts the transaction where the code flags it.
\<close>

section \<open>Reachable states\<close>

lemma step_inv:
  assumes "tx_step P s e r s'" "tx_inv s"
  shows "tx_inv s'"
  using assms
proof (cases rule: tx_step.cases)
  case (connect c)
  then have "c \<notin> set (watchers (tx_watched s) db key)" for db key using tx_invD(2) [OF assms(2), of c db key] by (simp add: watches_def)
  then have "c' \<in> set (watchers (tx_watched s) db key) \<longleftrightarrow> watches s' c' (db, key)" for c' db key
    using tx_invD(2) [OF assms(2), of c' db key] connect by (auto simp: watches_def new_client_def)
  then show ?thesis using assms(2) connect by (auto simp: tx_inv_def new_client_def queue_ok_def)
next
  case (disconnect c)
  then obtain cl where cl: "tx_clients s c = Some cl" by (auto simp: free_client_def unwatchAllKeys_def bind_eq_Some_conv)
  obtain s1 where 1: "unwatchAllKeys c s = Some s1" "serves c s s1" "tx_clients s1 = (tx_clients s)(c \<mapsto> cl\<lparr>tc_watched := []\<rparr>)"
    by (rule unwatchAllKeys_serves [OF assms(2) cl])
  have s': "s' = s1\<lparr>tx_clients := (tx_clients s1)(c := None)\<rparr>" using disconnect 1(1) by (simp add: free_client_def)
  have "watches s' c' wk \<longleftrightarrow> watches s1 c' wk" for c' wk unfolding s' using 1(3) by (auto simp: watches_def)
  then show ?thesis using 1(2) unfolding s' by (auto simp: serves_def tx_inv_def)
next
  case (request v c req)
  show ?thesis
  proof (cases "tx_clients s c")
    case None
    then show ?thesis using request assms(2) by (auto simp: handle_request_def flagTransaction_def process_request_def split: verdict.splits if_splits)
  next
    case (Some cl)
    then show ?thesis using request handle_request_runs [OF assms(2) Some, of P v req] by (auto simp: answers_def serves_def)
  qed
qed

lemma reach_inv: "tx_reach P s \<Longrightarrow> tx_inv s"
proof (induction rule: tx_reach.induct)
  case (start d)
  show ?case by (simp add: tx_inv_def table_ok_def watchers_def watches_def)
qed (rule step_inv)

lemma free_client_total:
  assumes "tx_inv s" "tx_clients s c = Some cl"
  shows "\<exists>s'. free_client c s = Some s' \<and> tx_clients s' c = None"
proof -
  obtain s1 where "unwatchAllKeys c s = Some s1" by (rule unwatchAllKeys_serves [OF assms])
  then show ?thesis by (simp add: free_client_def)
qed

section \<open>Guarded keys\<close>

text \<open>What the commands must do for WATCH to work: signal every key whose value they change.\<close>

definition signals_changes :: "('cmd, 'd, 'r) tx_params \<Rightarrow> ('d \<Rightarrow> nat \<times> key \<Rightarrow> 'v) \<Rightarrow> bool" where
  "signals_changes P view \<longleftrightarrow> (\<forall>db cmd d wk. view (ef_data (p_run P db cmd d)) wk \<noteq> view d wk \<longrightarrow>
     (\<exists>t \<in> set (ef_touch (p_run P db cmd d)). hits (p_has P) d t wk))"

definition guards :: "('d \<Rightarrow> nat \<times> key \<Rightarrow> 'v) \<Rightarrow> (nat \<times> key \<Rightarrow> 'v) \<Rightarrow> (nat \<times> key) set \<Rightarrow> client_id \<Rightarrow> ('cmd, 'd) tx_server \<Rightarrow> bool" where
  "guards view V W c s \<longleftrightarrow> (\<exists>cl. tx_clients s c = Some cl \<and> W \<subseteq> set (tc_watched cl)
     \<and> (tc_dirty_cas cl \<or> (\<forall>wk \<in> W. view (tx_data s) wk = V wk)))"

text \<open>The events after which a client does not watch its keys any more.\<close>

definition releases :: "client_id \<Rightarrow> 'cmd tx_event \<Rightarrow> bool" where
  "releases c e \<longleftrightarrow> e = Disconnect c \<or> e = Request Admit c Exec \<or> e = Request Admit c Discard \<or> e = Request Admit c Unwatch"

lemma guards_other:
  assumes "guards view V W c0 s" "serves c s s'" "c0 \<noteq> c" "tx_data s' = tx_data s"
  shows "guards view V W c0 s'"
proof -
  obtain cl where cl: "tx_clients s c0 = Some cl" "W \<subseteq> set (tc_watched cl)" "tc_dirty_cas cl \<or> (\<forall>wk \<in> W. view (tx_data s) wk = V wk)"
    using assms(1) by (auto simp: guards_def)
  have "rel_option dirtied (tx_clients s c0) (tx_clients s' c0)" using assms(2,3) by (simp add: serves_def)
  then obtain cl' where "tx_clients s' c0 = Some cl'" "dirtied cl cl'" using cl(1) by (auto simp: option_rel_Some1)
  then show ?thesis using cl(2,3) assms(4) by (auto simp: guards_def dirtied_def)
qed

lemma guards_data:
  assumes inv: "tx_inv s" and g: "guards view V W c0 s" and sig: "signals_changes P view" and e: "data_proc P c cmd s = Some (r, s')"
  shows "guards view V W c0 s'"
proof -
  obtain cl where cl: "tx_clients s c = Some cl" using e by (auto simp: data_proc_def bind_eq_Some_conv)
  obtain cl0 where cl0: "tx_clients s c0 = Some cl0" "W \<subseteq> set (tc_watched cl0)" "tc_dirty_cas cl0 \<or> (\<forall>wk \<in> W. view (tx_data s) wk = V wk)"
    using g by (auto simp: guards_def)
  define ef where "ef = p_run P (tc_db cl) cmd (tx_data s)"
  define H where "H = hit_clients (p_has P) (ef_touch ef) s"
  have s': "s' = (set_client c (cl\<lparr>tc_dirty_cas := tc_dirty_cas cl \<or> c \<in> H, tc_db := ef_db ef\<rparr>) (dirty_by H s))
      \<lparr>tx_data := ef_data ef, tx_dirty := ef_dirty ef (tx_dirty s)\<rparr>"
    using data_proc_eq [OF inv cl ef_def H_def] e by simp
  have hit: "c0 \<in> H" if mem: "wk \<in> W" and diff: "view (ef_data ef) wk \<noteq> view (tx_data s) wk" for wk
  proof -
    obtain t where "t \<in> set (ef_touch ef)" "hits (p_has P) (tx_data s) t wk" using sig diff unfolding signals_changes_def ef_def by blast
    moreover have "watches s c0 wk" using cl0(1,2) mem by (auto simp: watches_def)
    ultimately show ?thesis unfolding H_def hit_clients_def by blast
  qed
  obtain cl' where cl': "tx_clients s' c0 = Some cl'" "tc_watched cl' = tc_watched cl0" "tc_dirty_cas cl' \<longleftrightarrow> tc_dirty_cas cl0 \<or> c0 \<in> H"
    using cl0(1) cl soil_Some [where m = "tx_clients s", OF cl0(1)] unfolding s' by (cases "c0 = c") simp_all
  moreover have "tx_data s' = ef_data ef" unfolding s' by simp
  ultimately show ?thesis using cl0(2,3) hit by (auto simp: guards_def)
qed

lemma call_data_clients:
  assumes "call c req f s = Some (r, s')"
  obtains s1 where "f s = Some (r, s1)" "tx_clients s' = tx_clients s1" "tx_data s' = tx_data s1" "tx_watched s' = tx_watched s1"
  using assms by (auto simp: call_def bind_eq_Some_conv Let_def split: if_splits)

lemma guards_cong: "tx_clients s' = tx_clients s \<Longrightarrow> tx_data s' = tx_data s \<Longrightarrow> guards view V W c s' \<longleftrightarrow> guards view V W c s"
  by (simp add: guards_def)

lemma guards_flags:
  assumes "guards view V W c0 s" "tx_clients s c = Some cl" "tc_watched cl' = tc_watched cl" "tc_dirty_cas cl' = tc_dirty_cas cl"
  shows "guards view V W c0 (set_client c cl' s)"
  using assms by (cases "c0 = c") (simp_all add: guards_def)

lemma guards_queued:
  fixes P :: "('cmd, 'd, 'r) tx_params"
  assumes inv: "tx_inv s" and g: "guards view V W c0 s" and sig: "signals_changes P view" and c: "c0 \<noteq> c" and cl: "tx_clients s c = Some cl"
    and e: "call c req (queued_proc P c req) s = Some (r, s')"
  shows "guards view V W c0 s'"
proof -
  obtain s1 where s1: "queued_proc P c req s = Some (r, s1)" "tx_clients s' = tx_clients s1" "tx_data s' = tx_data s1" by (rule call_data_clients [OF e])
  have "guards view V W c0 s1"
  proof (cases "\<exists>cmd. req = Data cmd")
    case True
    then show ?thesis using s1(1) guards_data [OF inv g sig] by (auto simp: queued_proc_def)
  next
    case False
    then have u: "unwatchCommand c s = Some (r, s1)" using s1(1) by (auto simp: queued_proc_def split: request.splits)
    obtain s2 where "unwatchCommand c s = Some (ReplyOk :: 'r tx_reply, s2)" "serves c s s2" "tx_data s2 = tx_data s" by (rule unwatchCommand_spec [OF inv cl])
    with u show ?thesis using guards_other [OF g _ c, of s2] by simp
  qed
  then show ?thesis using guards_cong [OF s1(2,3)] by blast
qed

lemma guards_exec_loop:
  fixes P :: "('cmd, 'd, 'r) tx_params"
  assumes "tx_inv s" "guards view V W c0 s" "signals_changes P view" "c0 \<noteq> c" "tx_clients s c = Some cl" "queue_ok reqs"
    "exec_loop P c must_propagate reqs s = Some (rs, mp, s')"
  shows "guards view V W c0 s'"
  using assms
proof (induction reqs arbitrary: s cl must_propagate rs)
  case (Cons req reqs)
  note inv = Cons.prems(1) and cl = Cons.prems(5)
  define now where "now = (\<not> must_propagate \<and> \<not> is_readonly P req)"
  obtain s1 where 1: "(if now then execCommandPropagateMulti c s else Some s) = Some s1" "serves c s s1" "tx_clients s1 = tx_clients s" "tx_data s1 = tx_data s"
    by (rule propagate_multi_serves [OF inv cl])
  have inv1: "tx_inv s1" and c1: "tx_clients s1 c = Some cl" and q: "queue_ok [req]" "queue_ok reqs"
    using 1(2,3) cl Cons.prems(6) queue_ok_Cons [of req reqs] by (simp_all add: serves_def)
  obtain r s2 cl2 where 2: "call c req (queued_proc P c req) s1 = Some (r, s2)" "serves c s1 s2" "tx_clients s2 c = Some cl2"
    by (rule queued_call_spec [OF inv1 c1 q(1)])
  have g1: "guards view V W c0 s1" using Cons.prems(2) guards_cong [OF 1(3,4)] by blast
  have g2: "guards view V W c0 s2" by (rule guards_queued [OF inv1 g1 Cons.prems(3,4) c1 2(1)])
  have inv2: "tx_inv s2" using 2(2) by (simp add: serves_def)
  obtain rs' where "exec_loop P c (must_propagate \<or> now) reqs s2 = Some (rs', mp, s')"
    using Cons.prems(7) 1(1) 2(1) unfolding now_def by (auto simp: Let_def bind_eq_Some_conv simp del: if_split)
  from Cons.IH [OF inv2 g2 Cons.prems(3,4) 2(3) q(2) this] show ?case .
qed simp

lemma guards_exec:
  fixes P :: "('cmd, 'd, 'r) tx_params"
  assumes inv: "tx_inv s" and g: "guards view V W c0 s" and sig: "signals_changes P view" and c: "c0 \<noteq> c" and cl: "tx_clients s c = Some cl"
    and e: "execCommand P c s = Some (r, s')"
  shows "guards view V W c0 s'"
proof -
  consider "\<not> tc_multi cl" | "tc_multi cl" "tc_dirty_cas cl \<or> tc_dirty_exec cl" | "tc_multi cl" "\<not> tc_dirty_cas cl" "\<not> tc_dirty_exec cl" by blast
  then show ?thesis
  proof cases
    case 1
    then show ?thesis using g cl e by (simp add: execCommand_def)
  next
    case 2
    obtain s1 where "execCommand P c s = Some (if tc_dirty_exec cl then ReplyAbort else ReplyNull, s1)" "serves c s s1" "tx_data s1 = tx_data s"
      by (rule exec_abort [OF inv cl 2])
    then show ?thesis using guards_other [OF g _ c, of s1] e by simp
  next
    case 3
    obtain rs mp s0 s1 s2 where x: "execCommand P c s = Some (ReplyMulti rs, s2)" "serves c s s0" "tx_data s0 = tx_data s"
      "tx_clients s0 c = Some (cl\<lparr>tc_watched := []\<rparr>)" "exec_loop P c False (tc_queue cl) s0 = Some (rs, mp, s1)"
      "tx_data s2 = tx_data s1" "serves c s1 s2"
      by (rule exec_spec [OF inv cl 3, of P])
    have "tx_inv s0" using x(2) by (simp add: serves_def)
    then have "guards view V W c0 s1"
      by (rule guards_exec_loop [OF _ guards_other [OF g x(2) c x(3)] sig c x(4) tx_invD(4) [OF inv cl] x(5)])
    then have "guards view V W c0 s2" by (rule guards_other [OF _ x(7) c x(6)])
    then show ?thesis using x(1) e by simp
  qed
qed

text \<open>A request that is admitted, of whoever it is.\<close>

lemma quiet_procs:
  assumes inv: "tx_inv s" and cl: "tx_clients s c = Some cl" and e: "proc_of P c req s = Some (r, s')" and req: "\<forall>cmd. req \<noteq> Data cmd" "req \<noteq> Exec"
  shows "serves c s s'" "tx_data s' = tx_data s"
proof -
  show "serves c s s'" using proc_of_runs [OF inv cl, of P req] e by (simp add: answers_def)
  obtain s1 where 1: "discardTransaction c s = Some s1" "tx_data s1 = tx_data s" by (rule discardTransaction_serves [OF inv cl])
  obtain s2 where 2: "unwatchAllKeys c s = Some s2" "tx_data s2 = tx_data s" by (rule unwatchAllKeys_serves [OF inv cl])
  show "tx_data s' = tx_data s"
  proof (cases req)
    case (Watch keys)
    obtain s3 where "watch_keys c keys s = Some s3" "tx_data s3 = tx_data s" by (rule watch_keys_serves [OF inv cl])
    then show ?thesis using e cl Watch by (auto simp: proc_of_def watchCommand_def split: if_splits)
  qed (use e cl req 1 2 in \<open>auto simp: proc_of_def queued_proc_def multiCommand_def discardCommand_def unwatchCommand_def bind_eq_Some_conv split: if_splits\<close>)
qed

lemma guards_own:
  assumes inv: "tx_inv s" and g: "guards view V W c s" and e: "proc_of P c req s = Some (r, s')" and req: "req = Multi \<or> (\<exists>keys. req = Watch keys)"
  shows "guards view V W c s'"
proof -
  obtain cl where cl: "tx_clients s c = Some cl" "W \<subseteq> set (tc_watched cl)" "tc_dirty_cas cl \<or> (\<forall>wk \<in> W. view (tx_data s) wk = V wk)"
    using g by (auto simp: guards_def)
  show ?thesis
  proof (cases req)
    case (Watch keys)
    obtain s1 cl1 where 1: "watch_keys c keys s = Some s1" "tx_clients s1 c = Some cl1" "cl1 = cl\<lparr>tc_watched := tc_watched cl1\<rparr>"
      "set (tc_watched cl1) = set (tc_watched cl) \<union> (\<lambda>key. (tc_db cl, key)) ` set keys" "tx_data s1 = tx_data s"
      by (rule watch_keys_serves [OF inv cl(1)])
    have "tc_dirty_cas cl1 = tc_dirty_cas cl" by (subst 1(3)) simp
    then have "guards view V W c s1" using cl(2,3) 1(2,4,5) by (auto simp: guards_def)
    then show ?thesis using e 1(1) cl(1) g Watch by (auto simp: proc_of_def watchCommand_def split: if_splits)
  qed (use e cl g req in \<open>auto simp: proc_of_def multiCommand_def guards_def split: if_splits\<close>)
qed

lemma guards_admitted:
  assumes inv: "tx_inv s" and g: "guards view V W c0 s" and sig: "signals_changes P view" and cl: "tx_clients s c = Some cl"
    and e: "process_request P c req s = Some (r, s')" and rel: "\<not> releases c0 (Request Admit c req)"
  shows "guards view V W c0 s'"
proof (cases "tc_multi cl \<and> (case req of Unwatch \<Rightarrow> True | Data _ \<Rightarrow> True | _ \<Rightarrow> False)")
  case True
  then have "s' = set_client c (cl\<lparr>tc_queue := tc_queue cl @ [req]\<rparr>) s" using e cl by (simp add: process_request_def queueMultiCommand_def)
  then show ?thesis using g cl by (auto simp: guards_def)
next
  case False
  then have "call c req (proc_of P c req) s = Some (r, s')" using e cl by (auto simp: process_request_def)
  then obtain s1 where s1: "proc_of P c req s = Some (r, s1)" "tx_clients s' = tx_clients s1" "tx_data s' = tx_data s1" by (rule call_data_clients)
  have "guards view V W c0 s1"
  proof -
    consider cmd where "req = Data cmd" | "req = Exec" "c0 \<noteq> c" | "c0 \<noteq> c" "\<forall>cmd. req \<noteq> Data cmd" "req \<noteq> Exec" | "c0 = c" "req = Multi \<or> (\<exists>keys. req = Watch keys)"
      using rel by (cases req) (auto simp: releases_def)
    then show ?thesis
    proof cases
      case 1
      then show ?thesis using s1(1) guards_data [OF inv g sig] by (simp add: proc_of_def queued_proc_def)
    next
      case 2
      then show ?thesis using s1(1) guards_exec [OF inv g sig _ cl] by (simp add: proc_of_def)
    next
      case 3
      show ?thesis by (rule guards_other [OF g quiet_procs(1) [OF inv cl s1(1) 3(2,3)] 3(1) quiet_procs(2) [OF inv cl s1(1) 3(2,3)]])
    next
      case 4
      then show ?thesis using guards_own [OF inv _ s1(1)] g by simp
    qed
  qed
  then show ?thesis using guards_cong [OF s1(2,3)] by blast
qed

lemma guards_step:
  assumes inv: "tx_inv s" and g: "guards view V W c0 s" and sig: "signals_changes P view" and step: "tx_step P s e r s'" and rel: "\<not> releases c0 e"
  shows "guards view V W c0 s'"
  using step
proof (cases rule: tx_step.cases)
  case (connect c)
  then show ?thesis using g by (auto simp: guards_def)
next
  case (disconnect c)
  then have c: "c0 \<noteq> c" using rel by (auto simp: releases_def)
  obtain cl where cl: "tx_clients s c = Some cl" using disconnect by (auto simp: free_client_def unwatchAllKeys_def bind_eq_Some_conv)
  obtain s1 where 1: "unwatchAllKeys c s = Some s1" "serves c s s1" "tx_data s1 = tx_data s" by (rule unwatchAllKeys_serves [OF inv cl])
  then have "s' = s1\<lparr>tx_clients := (tx_clients s1)(c := None)\<rparr>" using disconnect by (simp add: free_client_def)
  then show ?thesis using guards_other [OF g 1(2) c 1(3)] c by (simp add: guards_def)
next
  case (request v c req)
  show ?thesis
  proof (cases "tx_clients s c")
    case None
    then show ?thesis using request g by (auto simp: handle_request_def flagTransaction_def process_request_def split: verdict.splits if_splits)
  next
    case (Some cl)
    show ?thesis
    proof (cases v)
      case Admit
      then show ?thesis using request rel guards_admitted [OF inv g sig Some, of req r s'] by (simp add: handle_request_def)
    qed (use request g Some guards_flags [OF g Some] in \<open>auto simp: handle_request_def flagTransaction_def split: if_splits\<close>)
  qed
qed

lemma guards_run:
  assumes "tx_run P s es s'" "tx_inv s" "guards view V W c s" "signals_changes P view" "list_all (\<lambda>e. \<not> releases c e) es"
  shows "tx_inv s' \<and> guards view V W c s'"
  using assms
proof (induction rule: tx_run.induct)
  case (go s e r s1 es s2)
  have "guards view V W c s1" by (rule guards_step [OF go.prems(1-3) go(1)]) (use go.prems(4) in simp)
  from go.IH [OF step_inv [OF go(1) go.prems(1)] this go.prems(3)] show ?case using go.prems(4) by simp
qed simp

lemma exec_admitted:
  assumes cl: "tx_clients s c = Some cl" and e: "execCommand P c s = Some (r, s1)" and v: "serves c s s1"
  obtains s' where "handle_request P Admit c Exec s = Some (r, s')" "serves c s s'" "tx_clients s' = tx_clients s1" "tx_data s' = tx_data s1"
    "tx_log s' = tx_log s1 @ (if tx_dirty s < tx_dirty s1 then [(tc_db (the (tx_clients s1 c)), Exec)] else [])"
proof -
  have "proc_of P c Exec s = Some (r, s1)" using e by (simp add: proc_of_def)
  then obtain s' where s': "call c Exec (proc_of P c Exec) s = Some (r, s')" "serves c s s'" "tx_clients s' = tx_clients s1" "tx_data s' = tx_data s1"
    "tx_log s' = tx_log s1 @ (if tx_dirty s < tx_dirty s1 then [(tc_db (the (tx_clients s1 c)), Exec)] else [])"
    by (rule call_spec [OF _ v])
  show thesis by (rule that [OF _ s'(2-5)]) (use s'(1) cl in \<open>simp add: handle_request_def process_request_def\<close>)
qed

text \<open>EXEC when it does not run the queue, and when it does.\<close>

lemma exec_refused:
  assumes inv: "tx_inv s" and cl: "tx_clients s c = Some cl" and d: "\<not> tc_multi cl \<or> tc_dirty_cas cl \<or> tc_dirty_exec cl"
  obtains s' where "handle_request P Admit c Exec s = Some (if \<not> tc_multi cl then ReplyError else if tc_dirty_exec cl then ReplyAbort else ReplyNull, s')"
    "tx_data s' = tx_data s" "tx_log s' = tx_log s" "tx_clients s' = (if tc_multi cl then (tx_clients s)(c \<mapsto> new_client\<lparr>tc_db := tc_db cl\<rparr>) else tx_clients s)"
proof (cases "tc_multi cl")
  case True
  obtain s1 where s1: "execCommand P c s = Some (if tc_dirty_exec cl then ReplyAbort else ReplyNull, s1)" "serves c s s1"
    "tx_clients s1 = (tx_clients s)(c \<mapsto> new_client\<lparr>tc_db := tc_db cl\<rparr>)" "tx_data s1 = tx_data s" "tx_log s1 = tx_log s" "tx_dirty s1 = tx_dirty s"
    by (rule exec_abort [OF inv cl True]) (use d True in auto)
  obtain s' where "handle_request P Admit c Exec s = Some (if tc_dirty_exec cl then ReplyAbort else ReplyNull, s')" "tx_clients s' = tx_clients s1"
    "tx_data s' = tx_data s1" "tx_log s' = tx_log s1 @ (if tx_dirty s < tx_dirty s1 then [(tc_db (the (tx_clients s1 c)), Exec)] else [])"
    by (rule exec_admitted [OF cl s1(1,2)])
  then show thesis using that [of s'] s1(3-6) True by simp
next
  case False
  then have "execCommand P c s = Some (ReplyError, s)" using cl by (simp add: execCommand_def)
  then obtain s' where "handle_request P Admit c Exec s = Some (ReplyError, s')" "tx_clients s' = tx_clients s"
    "tx_data s' = tx_data s" "tx_log s' = tx_log s @ (if tx_dirty s < tx_dirty s then [(tc_db (the (tx_clients s c)), Exec)] else [])"
    by (rule exec_admitted [OF cl _ serves_refl [OF inv cl]])
  then show thesis using that [of s'] False by simp
qed

lemma exec_accepted:
  fixes P :: "('cmd, 'd, 'r) tx_params"
  assumes inv: "tx_inv s" and cl: "tx_clients s c = Some cl" and multi: "tc_multi cl" and clean: "\<not> tc_dirty_cas cl" "\<not> tc_dirty_exec cl"
  obtains rs s' db' n where "handle_request P Admit c Exec s = Some (ReplyMulti rs, s')" "serves c s s'"
    "serial P (tc_db cl, tx_data s, tx_dirty s) (tc_queue cl) = (rs, db', tx_data s', n)"
    "tx_clients s' c = Some (new_client\<lparr>tc_db := db'\<rparr>)"
    "counts_changes P \<Longrightarrow> \<exists>db. tx_log s' = tx_log s @ (if list_all (is_readonly P) (tc_queue cl) then []
       else (db, Multi) # changes P (tc_db cl, tx_data s, tx_dirty s) (tc_queue cl) @ [(db', Exec)])"
proof -
  let ?x = "(tc_db cl, tx_data s, tx_dirty s)"
  obtain rs mp s0 s1 s2 db' where x: "execCommand P c s = Some (ReplyMulti rs, s2)" "serves c s s2"
    "tx_clients s2 c = Some (new_client\<lparr>tc_db := db'\<rparr>)" "serial P ?x (tc_queue cl) = (rs, db', tx_data s2, tx_dirty s1)"
    "serves c s s0" "tx_data s0 = tx_data s" "tx_log s0 = tx_log s" "tx_dirty s0 = tx_dirty s"
    "tx_clients s0 c = Some (cl\<lparr>tc_watched := []\<rparr>)" "exec_loop P c False (tc_queue cl) s0 = Some (rs, mp, s1)" "tx_log s2 = tx_log s1"
    "tx_dirty s2 = tx_dirty s1 + (if mp then 1 else 0)"
    by (rule exec_spec [OF inv cl multi clean, of P])
  obtain s' where s': "handle_request P Admit c Exec s = Some (ReplyMulti rs, s')" "serves c s s'" "tx_clients s' = tx_clients s2" "tx_data s' = tx_data s2"
    "tx_log s' = tx_log s2 @ (if tx_dirty s < tx_dirty s2 then [(tc_db (the (tx_clients s2 c)), Exec)] else [])"
    by (rule exec_admitted [OF cl x(1,2)])
  have log: "\<exists>db. tx_log s' = tx_log s @ (if list_all (is_readonly P) (tc_queue cl) then []
       else (db, Multi) # changes P ?x (tc_queue cl) @ [(db', Exec)])" if cc: "counts_changes P"
  proof -
    have "tx_inv s0" using x(5) by (simp add: serves_def)
    from exec_loop_log [OF cc this x(9) tx_invD(4) [OF inv cl] x(10)] obtain db where db: "mp \<longleftrightarrow> \<not> list_all (is_readonly P) (tc_queue cl)"
      "tx_log s1 = tx_log s @ (if mp then [(db, Multi)] else []) @ changes P ?x (tc_queue cl)"
      using x(6,7,8) by auto
    show ?thesis
    proof (cases mp)
      case True
      then show ?thesis using db s'(5) x(3,4,11,12) serial_mono [OF cc, of ?x "tc_queue cl"] by auto
    next
      case False
      then show ?thesis using db s'(5) x(4,11,12) readonly_queue [OF cc, of "tc_queue cl" ?x] by simp
    qed
  qed
  show thesis by (rule that [OF s'(1,2) _ _ log]) (use s'(3,4) x(3,4) in simp_all)
qed

lemma watch_step:
  fixes P :: "('cmd, 'd, 'r) tx_params"
  assumes inv: "tx_inv s" and cl: "tx_clients s c = Some cl" and step: "tx_step P s (Request Admit c (Watch keys)) ReplyOk s'"
  shows "tx_inv s' \<and> guards view (view (tx_data s)) ((\<lambda>key. (tc_db cl, key)) ` set keys) c s'"
proof
  show "tx_inv s'" by (rule step_inv [OF step inv])
  have "handle_request P Admit c (Watch keys) s = Some (ReplyOk, s')" using step by (auto elim: tx_step.cases)
  then have "call c (Watch keys) (watchCommand c keys) s = Some (ReplyOk :: 'r tx_reply, s')"
    using cl by (simp add: handle_request_def process_request_def proc_of_def)
  then obtain s1 where s1: "watchCommand c keys s = Some (ReplyOk :: 'r tx_reply, s1)" "tx_clients s' = tx_clients s1" "tx_data s' = tx_data s1"
    by (rule call_data_clients)
  obtain s2 cl2 where 2: "watch_keys c keys s = Some s2" "tx_clients s2 c = Some cl2"
    "set (tc_watched cl2) = set (tc_watched cl) \<union> (\<lambda>key. (tc_db cl, key)) ` set keys" "tx_data s2 = tx_data s"
    by (rule watch_keys_serves [OF inv cl])
  then have "s1 = s2" using s1(1) cl by (simp add: watchCommand_def split: if_splits)
  then show "guards view (view (tx_data s)) ((\<lambda>key. (tc_db cl, key)) ` set keys) c s'" using s1(2,3) 2 by (simp add: guards_def)
qed

lemma watch_guards:
  assumes inv: "tx_inv s" and sig: "signals_changes P view" and cl: "tx_clients s c = Some cl"
    and watch: "tx_step P s (Request Admit c (Watch keys)) ReplyOk s1" and run: "tx_run P s1 es s2" and rel: "list_all (\<lambda>e. \<not> releases c e) es"
    and exec: "tx_step P s2 (Request Admit c Exec) r s3"
    and diff: "key \<in> set keys" "view (tx_data s2) (tc_db cl, key) \<noteq> view (tx_data s) (tc_db cl, key)"
  shows "r \<in> {ReplyError, ReplyNull, ReplyAbort} \<and> tx_data s3 = tx_data s2 \<and> tx_log s3 = tx_log s2"
proof -
  let ?W = "(\<lambda>key. (tc_db cl, key)) ` set keys"
  have 1: "tx_inv s1" "guards view (view (tx_data s)) ?W c s1" using watch_step [OF inv cl watch, where view = view] by simp_all
  have 2: "tx_inv s2" "guards view (view (tx_data s)) ?W c s2" using guards_run [OF run 1 sig rel] by simp_all
  then obtain cl2 where cl2: "tx_clients s2 c = Some cl2" "tc_dirty_cas cl2" using diff by (auto simp: guards_def)
  obtain s' where "handle_request P Admit c Exec s2 = Some (if \<not> tc_multi cl2 then ReplyError else if tc_dirty_exec cl2 then ReplyAbort else ReplyNull, s')"
    "tx_data s' = tx_data s2" "tx_log s' = tx_log s2"
    by (rule exec_refused [OF 2(1) cl2(1), of P]) (use cl2(2) in auto)
  moreover have "handle_request P Admit c Exec s2 = Some (r, s3)" using exec by (auto elim: tx_step.cases)
  ultimately show ?thesis by (simp split: if_splits)
qed

section \<open>Errors while queueing\<close>

lemma unflagged_rejections:
  assumes "processCommand g False ci argc = Reject False"
  shows "(g_replica g \<and> g_read_only g) \<or> g_pubsub g \<or> g_loading g"
  using assms by (auto simp: processCommand_def split: if_splits option.splits)

lemma rejected_then_exec:
  assumes inv: "tx_inv s" and cl: "tx_clients s c = Some cl" "tc_multi cl" "\<not> tc_dirty_cas cl" "\<not> tc_dirty_exec cl"
  shows "\<exists>s1 r s2. handle_request P (Reject flag) c req s = Some (ReplyError, s1) \<and> handle_request P Admit c Exec s1 = Some (r, s2)
    \<and> (if flag then r = ReplyAbort \<and> tx_data s2 = tx_data s else \<exists>rs. r = ReplyMulti rs)"
proof (cases flag)
  case True
  let ?cl = "cl\<lparr>tc_dirty_exec := True\<rparr>" and ?s = "set_client c (cl\<lparr>tc_dirty_exec := True\<rparr>) s"
  have h: "handle_request P (Reject flag) c req s = Some (ReplyError, ?s)" using cl True by (simp add: handle_request_def flagTransaction_def)
  have "serves c s ?s" by (rule serves_client [OF inv cl(1)]) (simp_all add: tx_invD(4) [OF inv cl(1)])
  then have "tx_inv ?s" "tx_clients ?s c = Some ?cl" by (simp_all add: serves_def)
  then obtain s2 where "handle_request P Admit c Exec ?s = Some (if \<not> tc_multi ?cl then ReplyError else if tc_dirty_exec ?cl then ReplyAbort else ReplyNull, s2)"
    "tx_data s2 = tx_data ?s"
    by (rule exec_refused [where P = P]) simp
  then show ?thesis using h cl True by auto
next
  case False
  then have h: "handle_request P (Reject flag) c req s = Some (ReplyError, s)" by (simp add: handle_request_def)
  obtain rs s2 where "handle_request P Admit c Exec s = Some (ReplyMulti rs, s2)" by (rule exec_accepted [OF inv cl])
  then show ?thesis using h False by auto
qed

section \<open>An example\<close>

text \<open>Reading a number under a key, or writing one: the smallest commands that signal what they change.\<close>

type_synonym ex_cmd = "key \<times> nat option"
type_synonym ex_data = "nat \<times> key \<Rightarrow> nat option"

definition ex_params :: "(ex_cmd, ex_data, nat option) tx_params" where
  "ex_params = \<lparr>p_run = (\<lambda>db (key, v) d. case v of
       None \<Rightarrow> \<lparr>ef_reply = d (db, key), ef_data = d, ef_touch = [], ef_dirty = (\<lambda>n. n), ef_db = db\<rparr>
     | Some n \<Rightarrow> \<lparr>ef_reply = None, ef_data = d((db, key) \<mapsto> n), ef_touch = [TouchKey db key], ef_dirty = (\<lambda>n. n + 1), ef_db = db\<rparr>),
     p_has = (\<lambda>d db key. d (db, key) \<noteq> None), p_readonly = (\<lambda>(key, v). v = None)\<rparr>"

lemma ex_signals: "signals_changes ex_params (\<lambda>d. d)"
  by (auto simp: signals_changes_def ex_params_def split: option.splits if_splits)

lemma ex_counts: "counts_changes ex_params"
  by (auto simp: counts_changes_def ex_params_def split: option.splits)

text \<open>Two clients; the first watches the key \<open>k\<close>, the second changes it, the first opens a transaction.\<close>

abbreviation ex_k :: key where
  "ex_k \<equiv> [107]"

definition ex_s0 :: "(ex_cmd, ex_data) tx_server" where
  "ex_s0 = set_client 2 new_client (set_client 1 new_client
     \<lparr>tx_clients = Map.empty, tx_watched = (\<lambda>_. Map.empty), tx_data = Map.empty, tx_dirty = 0, tx_log = []\<rparr>)"

definition ex_s1 :: "(ex_cmd, ex_data) tx_server" where
  "ex_s1 = (set_client 1 (new_client\<lparr>tc_watched := [(0, ex_k)]\<rparr>) ex_s0)\<lparr>tx_watched := (\<lambda>_. Map.empty)(0 := [ex_k \<mapsto> [1]])\<rparr>"

definition ex_s2 :: "(ex_cmd, ex_data) tx_server" where
  "ex_s2 = (set_client 1 (new_client\<lparr>tc_watched := [(0, ex_k)], tc_dirty_cas := True\<rparr>) ex_s1)
     \<lparr>tx_data := [(0, ex_k) \<mapsto> 5], tx_dirty := 1, tx_log := [(0, Data (ex_k, Some 5))]\<rparr>"

definition ex_s3 :: "(ex_cmd, ex_data) tx_server" where
  "ex_s3 = set_client 1 (new_client\<lparr>tc_watched := [(0, ex_k)], tc_dirty_cas := True, tc_multi := True\<rparr>) ex_s2"

text \<open>The second client has queued a write.\<close>

definition ex_t1 :: "(ex_cmd, ex_data) tx_server" where
  "ex_t1 = set_client 2 (new_client\<lparr>tc_multi := True\<rparr>) ex_s0"

definition ex_t2 :: "(ex_cmd, ex_data) tx_server" where
  "ex_t2 = set_client 2 (new_client\<lparr>tc_multi := True, tc_queue := [Data (ex_k, Some 5)]\<rparr>) ex_s0"

lemmas ex_eval = handle_request_def process_request_def proc_of_def queued_proc_def call_def multiCommand_def execCommand_def
  discardTransaction_def watchCommand_def watchForKey_def unwatchAllKeys_def queueMultiCommand_def data_proc_def touchWatchedKey_def
  is_readonly_def execCommandPropagateMulti_def set_client_def new_client_def Let_def

lemmas ex_states = ex_params_def ex_s0_def ex_s1_def ex_s2_def ex_s3_def ex_t1_def ex_t2_def

lemma ex_steps:
  "handle_request ex_params Admit 1 (Watch [ex_k]) ex_s0 = Some (ReplyOk, ex_s1)"
  "handle_request ex_params Admit 2 (Data (ex_k, Some 5)) ex_s1 = Some (ReplyData None, ex_s2)"
  "handle_request ex_params Admit 1 Multi ex_s2 = Some (ReplyOk, ex_s3)"
  "handle_request ex_params Admit 2 Multi ex_s0 = Some (ReplyOk, ex_t1)"
  "handle_request ex_params Admit 2 (Data (ex_k, Some 5)) ex_t1 = Some (ReplyQueued, ex_t2)"
  by (simp_all add: ex_eval ex_states fun_upd_twist cong: if_cong)

lemma ex_reach:
  "tx_reach ex_params ex_s0" "tx_reach ex_params ex_t2"
proof -
  let ?e = "\<lparr>tx_clients = Map.empty, tx_watched = (\<lambda>_. Map.empty), tx_data = Map.empty, tx_dirty = 0, tx_log = []\<rparr> :: (ex_cmd, ex_data) tx_server"
  have 1: "tx_reach ex_params (set_client 1 new_client ?e)"
    by (rule tx_reach.step [OF tx_reach.start tx_step.connect]) simp
  show 2: "tx_reach ex_params ex_s0" unfolding ex_s0_def
    by (rule tx_reach.step [OF 1 tx_step.connect]) simp
  show "tx_reach ex_params ex_t2"
    by (rule tx_reach.step [OF tx_reach.step [OF 2 tx_step.request [OF ex_steps(4)]] tx_step.request [OF ex_steps(5)]])
qed

lemma ex_clients [simp]:
  "tx_clients ex_s0 1 = Some new_client" "tx_clients ex_t2 2 = Some (new_client\<lparr>tc_multi := True, tc_queue := [Data (ex_k, Some 5)]\<rparr>)"
  by (simp_all add: ex_states)

section \<open>Properties\<close>

text \<open>
  C15: In every state that the server can reach, whatever clients connect, disconnect and
  request, a client is in the list of a watched key exactly when the key is in the list of the
  client, no list is empty or has a client twice, and therefore no reference dangles: every
  request of a connected client gets a reply, no assertion fails, and a client can be freed.
\<close>

theorem tx_references_ok:
  assumes "tx_reach P s"
  shows "(\<forall>c db key. c \<in> set (watchers (tx_watched s) db key) \<longleftrightarrow> watches s c (db, key))
    \<and> (\<forall>db key. tx_watched s db key \<noteq> Some [] \<and> distinct (watchers (tx_watched s) db key))
    \<and> (\<forall>c. tx_clients s c \<noteq> None \<longrightarrow> (\<forall>v req. \<exists>r s'. handle_request P v c req s = Some (r, s'))
         \<and> (\<exists>s'. free_client c s = Some s' \<and> tx_clients s' c = None))"
proof -
  have inv: "tx_inv s" by (rule reach_inv [OF assms])
  have "\<exists>r s'. handle_request P v c req s = Some (r, s')" if "tx_clients s c = Some cl" for c cl v req
    using handle_request_runs [OF inv that, of P v req] by (auto simp: answers_def)
  then show ?thesis using inv free_client_total [OF inv] by (auto simp: tx_inv_def table_ok_def)
qed

theorem tx_references_ok_witness:
  "(\<exists>r s'. handle_request ex_params Admit 2 Exec ex_t2 = Some (r, s')) \<and> (\<exists>s'. free_client 2 ex_t2 = Some s' \<and> tx_clients s' 2 = None)"
  using tx_references_ok [OF ex_reach(2)] by simp

text \<open>
  C7: Optimistic locking. A client watches keys and later executes its transaction; between
  the two, any clients may do anything, as long as this client does not send EXEC, DISCARD or
  UNWATCH and is not disconnected. Then either every watched key has the value it had when it
  was watched, or EXEC runs nothing: the reply is an error or the null reply, and the data and
  what is propagated stay as they are. The commands on data are only required to signal every
  key whose value they change; data that expires or is evicted does not change by a command.
\<close>

theorem watch_guards_keys:
  assumes "tx_reach P s" "signals_changes P view" "tx_clients s c = Some cl"
    and "tx_step P s (Request Admit c (Watch keys)) ReplyOk s1" "tx_run P s1 es s2" "list_all (\<lambda>e. \<not> releases c e) es"
    and "tx_step P s2 (Request Admit c Exec) r s3"
  shows "(\<forall>key \<in> set keys. view (tx_data s2) (tc_db cl, key) = view (tx_data s) (tc_db cl, key))
    \<or> r \<in> {ReplyError, ReplyNull, ReplyAbort} \<and> tx_data s3 = tx_data s2 \<and> tx_log s3 = tx_log s2"
  using watch_guards [OF reach_inv [OF assms(1)] assms(2-7)] by blast

theorem watch_guards_keys_witness:
  "\<exists>r s'. tx_step ex_params ex_s3 (Request Admit 1 Exec) r s' \<and> r \<in> {ReplyError, ReplyNull, ReplyAbort} \<and> tx_data s' (0, ex_k) = Some 5"
proof -
  have run: "tx_run ex_params ex_s1 [Request Admit 2 (Data (ex_k, Some 5)), Request Admit 1 Multi] ex_s3"
    by (intro tx_run.go [OF tx_step.request [OF ex_steps(2)]] tx_run.go [OF tx_step.request [OF ex_steps(3)]] tx_run.stop)
  have inv: "tx_inv ex_s3"
    by (rule step_inv [OF tx_step.request [OF ex_steps(3)] step_inv [OF tx_step.request [OF ex_steps(2)] step_inv [OF tx_step.request [OF ex_steps(1)] reach_inv [OF ex_reach(1)]]]])
  have "tx_clients ex_s3 1 = Some (new_client\<lparr>tc_watched := [(0, ex_k)], tc_dirty_cas := True, tc_multi := True\<rparr>)" by (simp add: ex_s3_def)
  from handle_request_runs [OF inv this, of ex_params Admit Exec] obtain r s' where h: "handle_request ex_params Admit 1 Exec ex_s3 = Some (r, s')"
    by (auto simp: answers_def)
  have data: "tx_data ex_s0 (0, ex_k) = None" "tx_data ex_s3 (0, ex_k) = Some 5" by (simp_all add: ex_states)
  have "r \<in> {ReplyError, ReplyNull, ReplyAbort} \<and> tx_data s' = tx_data ex_s3"
    using watch_guards_keys [OF ex_reach(1) ex_signals ex_clients(1) tx_step.request [OF ex_steps(1)] run _ tx_step.request [OF h]] data
    by (simp add: releases_def new_client_def)
  then have "tx_step ex_params ex_s3 (Request Admit 1 Exec) r s' \<and> r \<in> {ReplyError, ReplyNull, ReplyAbort} \<and> tx_data s' (0, ex_k) = Some 5"
    using tx_step.request [OF h] data by simp
  then show ?thesis by blast
qed

text \<open>
  C8: EXEC is atomic. In a reachable state, EXEC of a client inside a transaction that is not
  marked runs the queued commands as if they were alone: the replies, the selected database and
  the data are those of running the queue in order on the data alone; other clients are at most
  marked as dirty. A marked transaction runs nothing, with the reply that tells why. Either way
  the client is afterwards outside of any transaction, with nothing queued or watched.
\<close>

theorem exec_atomic:
  assumes "tx_reach P s" "tx_clients s c = Some cl" "tc_multi cl"
  shows "\<exists>r s' db'. handle_request P Admit c Exec s = Some (r, s') \<and> tx_clients s' c = Some (new_client\<lparr>tc_db := db'\<rparr>)
    \<and> (\<forall>c'. c' \<noteq> c \<longrightarrow> rel_option dirtied (tx_clients s c') (tx_clients s' c'))
    \<and> (if tc_dirty_cas cl \<or> tc_dirty_exec cl
       then r = (if tc_dirty_exec cl then ReplyAbort else ReplyNull) \<and> db' = tc_db cl \<and> tx_data s' = tx_data s \<and> tx_log s' = tx_log s
       else \<exists>rs n. r = ReplyMulti rs \<and> serial P (tc_db cl, tx_data s, tx_dirty s) (tc_queue cl) = (rs, db', tx_data s', n))"
proof (cases "tc_dirty_cas cl \<or> tc_dirty_exec cl")
  case True
  obtain s' where "handle_request P Admit c Exec s = Some (if \<not> tc_multi cl then ReplyError else if tc_dirty_exec cl then ReplyAbort else ReplyNull, s')"
    "tx_data s' = tx_data s" "tx_log s' = tx_log s" "tx_clients s' = (if tc_multi cl then (tx_clients s)(c \<mapsto> new_client\<lparr>tc_db := tc_db cl\<rparr>) else tx_clients s)"
    by (rule exec_refused [OF reach_inv [OF assms(1)] assms(2)]) (use True in auto)
  then show ?thesis using True assms(3) by simp
next
  case False
  obtain rs s' db' n where "handle_request P Admit c Exec s = Some (ReplyMulti rs, s')" "serves c s s'"
    "serial P (tc_db cl, tx_data s, tx_dirty s) (tc_queue cl) = (rs, db', tx_data s', n)" "tx_clients s' c = Some (new_client\<lparr>tc_db := db'\<rparr>)"
    by (rule exec_accepted [OF reach_inv [OF assms(1)] assms(2,3)]) (use False in auto)
  then show ?thesis using False by (auto simp: serves_def)
qed

theorem exec_atomic_witness:
  "\<exists>s'. handle_request ex_params Admit 2 Exec ex_t2 = Some (ReplyMulti [ReplyData None], s') \<and> tx_data s' = [(0, ex_k) \<mapsto> 5]"
proof -
  have "serial ex_params (0, tx_data ex_t2, tx_dirty ex_t2) [Data (ex_k, Some 5)] = ([ReplyData None], 0, [(0, ex_k) \<mapsto> 5], 1)"
    by (simp add: ex_states Let_def)
  then show ?thesis using exec_atomic [OF ex_reach(2) ex_clients(2)] by (auto simp: new_client_def)
qed




definition ex_gate :: gate where
  "ex_gate = \<lparr>g_requirepass = False, g_authenticated = False, g_redirect = False, g_maxmemory = False, g_out_of_memory = False, g_disk_error = False,
     g_replica = True, g_few_replicas = False, g_read_only = True, g_from_master = False, g_pubsub = False, g_link_up = True, g_serve_stale = True,
     g_loading = False, g_lua_timedout = False\<rparr>"

definition ex_write :: command_info where
  "ex_write = \<lparr>ci_arity = 3, ci_proc = OtherProc, ci_write = True, ci_denyoom = True, ci_stale = False, ci_loading = False\<rparr>"


end
