(* ===== verification/Spec2Isabelle.thy ===== *)
theory Spec2Isabelle
  imports Dict_Scan Intset Glob Adlist Ziplist_Delete Protocol_Parse Keyspace_Random Sorted_Set_Calls Hash_Type_Calls Transactions_Correct
begin

text \<open>
  A verification development for the server of Redis 3.0 (\<^verbatim>\<open>redis-3.0/src\<close>, the Windows port: \<open>long\<close>
  has 64 bits).

  \<^bold>\<open>The program.\<close> A single thread reads requests from its clients, executes them one at a time on
  dictionaries in memory and queues the replies. The containers (\<^verbatim>\<open>dict.c\<close>, \<^verbatim>\<open>adlist.c\<close>, \<^verbatim>\<open>intset.c\<close>,
  \<^verbatim>\<open>ziplist.c\<close>, \<^verbatim>\<open>sds.c\<close>) are used by the object layer (\<^verbatim>\<open>object.c\<close>, \<^verbatim>\<open>t_set.c\<close>, \<^verbatim>\<open>t_hash.c\<close>, \<^verbatim>\<open>t_zset.c\<close>), which the
  key space (\<^verbatim>\<open>db.c\<close>) stores under keys with expiry times; the protocol layer (\<^verbatim>\<open>networking.c\<close>) turns
  bytes into commands, and \<open>processCommand\<close> (\<^verbatim>\<open>redis.c\<close>) checks them and executes them or queues them
  in a transaction (\<^verbatim>\<open>multi.c\<close>). The theories follow these layers.

  \<^bold>\<open>How code becomes definitions.\<close> A function of the source is a definition with the source's name
  (less a leading underscore); a loop is a recursive function of its own, named after the
  function it belongs to. Memory is explicit where the code computes with it: a block is a list
  of bytes and a read or write outside of it, like a failed assertion, is the value \<open>None\<close>, so a
  theorem that an operation returns \<open>Some\<close> says that it is safe and that it returns. Fresh memory
  has arbitrary content (\<open>junk\<close>). Integers are words or integers with the wrap-around written out.
  The clock, the random numbers, the hash seed and the settings that decide about resizing are
  arguments. A loop that may run for ever is a \<^theory_text>\<open>partial_function\<close>, and that it ends is proved.

  \<^bold>\<open>Theories.\<close>
  \<^item> \<open>Redis_Prelude\<close>, \<open>Redis_Bytes\<close>: C types, checked accesses, lemmas on lists, masks and little-endian
    integers (\<^verbatim>\<open>endianconv.c\<close>); \<open>run_calls\<close> and the locale \<open>simulation\<close>, which lifts a relation between
    the states of the code and of a specification to sequences of calls, with its weaker form
    \<open>guarded_simulation\<close> for calls that are related under a condition on the specification.
  \<^item> \<open>Dict\<close> (definitions), \<open>Dict_Rehash\<close>, \<open>Dict_Ops\<close>, \<open>Dict_Types\<close>, \<open>Dict_Map\<close>, \<open>Dict_Scan\<close>, \<open>Dict_Iter\<close>: \<^verbatim>\<open>dict.c\<close> and the
    dictionary types of \<^verbatim>\<open>redis.c\<close>. The state is the two tables with the rehash index; \<open>dict_wf\<close> is the
    invariant and \<open>dict_map\<close> the finite map the tables stand for. The lemmas show that rehashing
    keeps the map and completes, that insertion, replacement, deletion and lookup act on the map,
    that iterators return every entry once, that a full scan with the reversed-bit cursor returns
    every key (and where it does not), and that sampling ends and stays in the tables. The locale
    \<open>key_type\<close> is what a dictionary needs of its keys; \<open>text_keys\<close> is what the server gets from a
    dictionary, interpreted on the types of the key space, of the expiry times, of sets, hashes
    and sorted sets.
  \<^item> \<open>Intset\<close>, \<open>Ziplist\<close>, \<open>Ziplist_Rep\<close>, \<open>Ziplist_Ops\<close>, \<open>Ziplist_Delete\<close>: \<^verbatim>\<open>intset.c\<close> and \<^verbatim>\<open>ziplist.c\<close> on the bytes
    of their blocks. The abstractions are the set of integers and the list of entries; the lemmas
    cover the in-place upgrade of the encoding and the cascade of length fields.
  \<^item> \<open>Adlist\<close>: \<^verbatim>\<open>adlist.c\<close> on an explicit heap of nodes.
  \<^item> \<open>Util\<close>, \<open>Glob\<close>, \<open>Sds\<close>, \<open>Sds_Args\<close>: numbers as text, glob patterns (\<^verbatim>\<open>util.c\<close>), strings with a header
    (\<^verbatim>\<open>sds.c\<close>), quoting and parsing of arguments and their round trip.
  \<^item> \<open>Protocol\<close> (definitions), \<open>Protocol_Parse\<close>: the request parser and the input loop of \<^verbatim>\<open>networking.c\<close>,
    with the execution of a command as an argument. A stream of requests, cut into reads in any
    way, is served completely and in order; no input makes the parser fail.
  \<^item> \<open>Objects\<close>: string objects and their encodings (\<^verbatim>\<open>object.c\<close>).
  \<^item> \<open>Keyspace\<close> (definitions), \<open>Keyspace_Spec\<close>, \<open>Keyspace_Calls\<close>, \<open>Keyspace_Commands\<close>, \<open>Keyspace_Random\<close>: \<^verbatim>\<open>db.c\<close>. A
    database is a dictionary of values and one of expiry times; what the code sends to other
    parts of the server (the append only file, replicas, watchers, events) is a log in the server
    state. \<open>db_rel\<close> relates a database to two finite maps; every call of the interface, and hence
    every sequence of calls, refines its effect on the maps. On top of it: DEL, RENAME, EXPIRE,
    PERSIST and the random key, on a master and on a replica.
  \<^item> \<open>Set_Type\<close>: the set type of \<^verbatim>\<open>t_set.c\<close>, an integer set or a hash table, refines a set of texts.
  \<^item> \<open>Hash_Type\<close> (definitions), \<open>Hash_Type_Zip\<close>, \<open>Hash_Type_Rel\<close>, \<open>Hash_Type_Calls\<close>: the hash type of \<^verbatim>\<open>t_hash.c\<close>, a list
    of packed entries or a dictionary, refines a finite map from texts to texts under sequences of
    commands, through the conversion of one into the other. Its use of the list of packed entries
    is safe for all lengths of fields and values, the insertion that leaves the block cannot arise.
  \<^item> \<open>Skiplist\<close> (definitions), \<open>Skiplist_Rep\<close>, \<open>Skiplist_Links\<close>, \<open>Skiplist_Insert\<close>, \<open>Skiplist_Delete\<close>, \<open>Skiplist_Query\<close>,
    \<open>Skiplist_Correct\<close>: the skip list of \<^verbatim>\<open>t_zset.c\<close> on an explicit heap of nodes. \<open>link\<close> is what a forward
    pointer and its span have to be, given the levels of the nodes; \<open>zsl_rep\<close> relates the heap to a
    sorted list of pairs of a score and a text. Insertion and deletion act on the list whatever the
    random levels are, the spans give ranks, and the ends of ranges are found, by score and by
    text: the locale \<open>zsl_range\<close> has the common proof and is interpreted for both kinds of range.
  \<^item> \<open>Sorted_Set\<close> (definitions), \<open>Sorted_Set_Inv\<close>, \<open>Sorted_Set_Ops\<close>, \<open>Sorted_Set_Range\<close>, \<open>Sorted_Set_Calls\<close>: the sorted
    set of \<^verbatim>\<open>t_zset.c\<close>, a skip list and a dictionary from texts to scores that agree. Every sequence
    of calls refines its effect on a sorted list of pairs.
  \<^item> \<open>Transactions\<close> (definitions), \<open>Transactions_Safe\<close>, \<open>Transactions_Steps\<close>, \<open>Transactions_Correct\<close>: \<^verbatim>\<open>multi.c\<close>, with
    \<open>processCommand\<close> and \<open>call\<close> of \<^verbatim>\<open>redis.c\<close>. The state is the clients with their queues, marks and lists of
    watched keys, the table of watching clients, the data, the counter of changes and the stream
    that is propagated; \<open>tx_step\<close> is a request, a connection or a disconnection, and a history is any
    interleaving of them. \<open>tx_inv\<close> holds in every reachable state, so no reference dangles; \<open>guards\<close>
    follows a watched key through a history; \<open>serial\<close> is the meaning of a queue that EXEC has.

  \<^bold>\<open>Bounds.\<close> Dictionaries hold at most \<open>2 ^ 30\<close> entries (a bucket index is an \<open>int\<close>); a set holds at most
  \<open>2 ^ 29 - 1\<close> members (the block of an integer set has a 32-bit size); strings have 31-bit lengths,
  as their headers have. A skip list holds fewer than \<open>2 ^ 32\<close> nodes (spans are 32-bit words) and texts of
  less than \<open>2 ^ 31\<close> bytes; a hash as a list of packed entries stays below its 32-bit size by a bound on its
  arguments; the history of a sorted set or of a hash has fewer than \<open>2 ^ 30\<close> calls. Fuel occurs only in
  functions that drive an iterator to its end, where the theorems say how much is enough.

  \<^bold>\<open>Not modelled.\<close> The commands on strings and lists, KEYS, SCAN and SORT, HSCAN and floating point
  increments; the compact encoding of
  sorted sets, whose scores are floating point numbers in decimal, and unions and intersections of
  sorted sets (scores are any linear order with an addition); publish and subscribe and blocking
  operations; what transactions do with the commands they run is proved for any commands, which
  are an argument there; expiry and eviction, which change data without a command, are not part of
  the histories of transactions; reference counts; persistence, replication, cluster, sentinel,
  the event loop and the Windows emulation (files, sockets, processes); scripting and the bundled
  libraries (third-party code).
\<close>

end
